(* ===== verification/Prelude.thy ===== *)
theory Prelude
  imports Main "HOL-Library.Word"
begin

text \<open>
  Shared vocabulary of the development.

  Machine types: an unsigned C++ integer is a word of its width, an \<open>int\<close> is an
  \<^typ>\<open>int\<close> (the casts to and from words are written out), a pointer is a \<^typ>\<open>nat\<close> whose
  value 0 is \<open>nullptr\<close>.

  Effects: an operation is a function from the state it may change to either a fault or its
  result and the new state.  The two faults are not values of the program: \<open>Out_of_fuel\<close> says
  that a loop of the source did not end within the iterations granted to it, and
  \<open>Undefined_behaviour\<close> that the source performs an access the C++ standard leaves undefined.
  Error codes of the source (\<open>ncclResult_t\<close>) are ordinary results.

  Reasoning: \<open>moves R m\<close> says that every run of \<open>m\<close> that returns relates its first and last
  state by \<open>R\<close>; the locale \<open>step_order\<close> proves the rules of the combinators once for every
  reflexive and transitive \<open>R\<close>.
\<close>

unbundle bit_operations_syntax

type_synonym u8 = "8 word"
type_synonym u16 = "16 word"
type_synonym u32 = "32 word"
type_synonym u64 = "64 word"
type_synonym ptr = nat

abbreviation (input) null :: ptr where
  "null \<equiv> 0"

definition kMaxPlanes :: nat where
  "kMaxPlanes = 8"

text \<open>\<open>ncclResult_t\<close> of the plugin ABI (\<open>nccl/err.h\<close>).\<close>

datatype nccl_result =
    ncclSuccess
  | ncclUnhandledCudaError
  | ncclSystemError
  | ncclInternalError
  | ncclInvalidArgument
  | ncclInvalidUsage
  | ncclRemoteError

datatype fault = Out_of_fuel | Undefined_behaviour

type_synonym ('s, 'a) prog = "'s \<Rightarrow> fault + 'a \<times> 's"

named_theorems prog_simps \<open>evaluation of the combinators on a given state\<close>
named_theorems move_intros \<open>rules that split a \<open>moves\<close> goal along the program\<close>

section \<open>Combinators\<close>

definition ret :: "'a \<Rightarrow> ('s, 'a) prog" where
  "ret x = (\<lambda>s. Inr (x, s))"

definition crash :: "fault \<Rightarrow> ('s, 'a) prog" where
  "crash f = (\<lambda>s. Inl f)"

definition seq :: "('s, 'a) prog \<Rightarrow> ('a \<Rightarrow> ('s, 'b) prog) \<Rightarrow> ('s, 'b) prog" where
  "seq m k = (\<lambda>s. case m s of Inl f \<Rightarrow> Inl f | Inr (x, t) \<Rightarrow> k x t)"

definition gets :: "('s \<Rightarrow> 'a) \<Rightarrow> ('s, 'a) prog" where
  "gets f = (\<lambda>s. Inr (f s, s))"

definition modify :: "('s \<Rightarrow> 's) \<Rightarrow> ('s, unit) prog" where
  "modify f = (\<lambda>s. Inr ((), f s))"

definition perform :: "('s \<Rightarrow> 'a \<times> 's) \<Rightarrow> ('s, 'a) prog" where
  "perform f = (\<lambda>s. Inr (f s))"

text \<open>\<open>ret = m; if (ret != ncclSuccess) return ret; k\<close>\<close>

definition nccl_check ::
    "('s, nccl_result) prog \<Rightarrow> ('s, nccl_result) prog \<Rightarrow> ('s, nccl_result) prog" where
  "nccl_check m k = seq m (\<lambda>r. if r = ncclSuccess then k else ret r)"

text \<open>
  \<open>for (x : xs) body\<close>, where the body leaves the function with any code but success; a
  \<open>continue\<close> of the source is a body that ends with success.
\<close>

fun for_each :: "'x list \<Rightarrow> ('x \<Rightarrow> ('s, nccl_result) prog) \<Rightarrow> ('s, nccl_result) prog" where
  "for_each [] body = ret ncclSuccess"
| "for_each (x # xs) body = nccl_check (body x) (for_each xs body)"

text \<open>A loop whose body never leaves the function.\<close>

fun for_all_do :: "'x list \<Rightarrow> ('x \<Rightarrow> ('s, unit) prog) \<Rightarrow> ('s, unit) prog" where
  "for_all_do [] body = ret ()"
| "for_all_do (x # xs) body = seq (body x) (\<lambda>_. for_all_do xs body)"

text \<open>
  \<open>for (;;) body\<close> over local variables \<open>l\<close>: the body returns the locals of the next
  iteration (\<open>Inl\<close>) or the value that leaves the loop (\<open>Inr\<close>).
\<close>

fun loop :: "nat \<Rightarrow> ('l \<Rightarrow> ('s, 'l + 'a) prog) \<Rightarrow> 'l \<Rightarrow> ('s, 'a) prog" where
  "loop 0 body l = crash Out_of_fuel"
| "loop (Suc n) body l =
     seq (body l) (\<lambda>r. case r of Inl l' \<Rightarrow> loop n body l' | Inr x \<Rightarrow> ret x)"

text \<open>An operation on a part of the state, lifted to the whole.\<close>

definition lift_prog ::
    "('s \<Rightarrow> 't) \<Rightarrow> ('t \<Rightarrow> 's \<Rightarrow> 's) \<Rightarrow> ('t, 'a) prog \<Rightarrow> ('s, 'a) prog" where
  "lift_prog get put m =
     (\<lambda>s. case m (get s) of Inl f \<Rightarrow> Inl f | Inr (x, t) \<Rightarrow> Inr (x, put t s))"

section \<open>Evaluation\<close>

lemma ret_apply [prog_simps]: "ret x s = Inr (x, s)"
  by (simp add: ret_def)

lemma crash_apply [prog_simps]: "crash f s = Inl f"
  by (simp add: crash_def)

lemma gets_apply [prog_simps]: "gets f s = Inr (f s, s)"
  by (simp add: gets_def)

lemma modify_apply [prog_simps]: "modify f s = Inr ((), f s)"
  by (simp add: modify_def)

lemma perform_apply [prog_simps]: "perform f s = Inr (f s)"
  by (simp add: perform_def)

lemma seq_apply_Inr [prog_simps]: "m s = Inr (x, t) \<Longrightarrow> seq m k s = k x t"
  by (simp add: seq_def)

lemma seq_apply_Inl [prog_simps]: "m s = Inl f \<Longrightarrow> seq m k s = Inl f"
  by (simp add: seq_def)

lemma nccl_check_apply [prog_simps]:
  "m s = Inr (r, t) \<Longrightarrow> nccl_check m k s = (if r = ncclSuccess then k t else Inr (r, t))"
  by (simp add: nccl_check_def seq_def ret_def)

lemma nccl_check_Inl [prog_simps]: "m s = Inl f \<Longrightarrow> nccl_check m k s = Inl f"
  by (simp add: nccl_check_def seq_def)

lemma lift_prog_apply [prog_simps]:
  "m (get s) = Inr (x, t) \<Longrightarrow> lift_prog get put m s = Inr (x, put t s)"
  by (simp add: lift_prog_def)

lemma seq_InrE:
  assumes "seq m k s = Inr (y, u)"
  obtains x t where "m s = Inr (x, t)" and "k x t = Inr (y, u)"
  using assms by (auto simp: seq_def split: sum.splits prod.splits)

lemma nccl_check_InrE:
  assumes "nccl_check m k s = Inr (r, u)"
  obtains (stop) "m s = Inr (r, u)" and "r \<noteq> ncclSuccess"
    | (go) t where "m s = Inr (ncclSuccess, t)" and "k t = Inr (r, u)"
  using assms by (auto simp: nccl_check_def ret_def elim!: seq_InrE split: if_splits)

lemma lift_prog_InrE:
  assumes "lift_prog get put m s = Inr (x, u)"
  obtains t where "m (get s) = Inr (x, t)" and "u = put t s"
  using assms by (auto simp: lift_prog_def split: sum.splits prod.splits)

section \<open>Loops\<close>

text \<open>An invariant of a loop, and a measure that bounds its iterations.\<close>

lemma loop_invariant:
  assumes "loop n body l s = Inr (x, t)" and "I l s"
    and "\<And>l s l' u. I l s \<Longrightarrow> body l s = Inr (Inl l', u) \<Longrightarrow> I l' u"
    and "\<And>l s y u. I l s \<Longrightarrow> body l s = Inr (Inr y, u) \<Longrightarrow> Q y u"
  shows "Q x t"
  using assms(1,2)
proof (induction n arbitrary: l s)
  case 0
  then show ?case by (simp add: crash_def)
next
  case (Suc n)
  from Suc.prems(1) obtain r u where body: "body l s = Inr (r, u)"
    and rest: "(case r of Inl l' \<Rightarrow> loop n body l' | Inr x \<Rightarrow> ret x) u = Inr (x, t)"
    by (auto elim: seq_InrE)
  show ?case
  proof (cases r)
    case (Inl l')
    with body rest show ?thesis using Suc.IH assms(3) [OF Suc.prems(2)] by simp
  next
    case (Inr y)
    with body rest show ?thesis using assms(4) [OF Suc.prems(2)] by (simp add: ret_def)
  qed
qed

lemma loop_returns:
  assumes "I l s" and "m l s < n"
    and "\<And>l s. I l s \<Longrightarrow> \<exists>r u. body l s = Inr (r, u) \<and>
      (case r of Inl l' \<Rightarrow> I l' u \<and> m l' u < m l s | Inr y \<Rightarrow> True)"
  shows "\<exists>x t. loop n body l s = Inr (x, t)"
  using assms(1,2)
proof (induction n arbitrary: l s)
  case 0
  then show ?case by simp
next
  case (Suc n)
  from assms(3) [OF Suc.prems(1)] obtain r u where body: "body l s = Inr (r, u)"
    and next_step: "case r of Inl l' \<Rightarrow> I l' u \<and> m l' u < m l s | Inr y \<Rightarrow> True" by blast
  show ?case
  proof (cases r)
    case (Inl l')
    with next_step have "I l' u" and "m l' u < n" using Suc.prems(2) by auto
    then have "\<exists>x t. loop n body l' u = Inr (x, t)" by (rule Suc.IH)
    with body Inl show ?thesis by (simp add: seq_def)
  next
    case (Inr y)
    with body show ?thesis by (simp add: seq_def ret_def)
  qed
qed

section \<open>Partial correctness and step relations\<close>

definition moves :: "('s \<Rightarrow> 's \<Rightarrow> bool) \<Rightarrow> ('s, 'a) prog \<Rightarrow> bool" where
  "moves R m \<longleftrightarrow> (\<forall>s x t. m s = Inr (x, t) \<longrightarrow> R s t)"

lemma movesI: "(\<And>s x t. m s = Inr (x, t) \<Longrightarrow> R s t) \<Longrightarrow> moves R m"
  by (simp add: moves_def)

lemma movesD: "moves R m \<Longrightarrow> m s = Inr (x, t) \<Longrightarrow> R s t"
  by (simp add: moves_def)

lemma moves_if [move_intros]:
  "(b \<Longrightarrow> moves R m) \<Longrightarrow> (\<not> b \<Longrightarrow> moves R n) \<Longrightarrow> moves R (if b then m else n)"
  by simp

lemma moves_option [move_intros]:
  "(x = None \<Longrightarrow> moves R m) \<Longrightarrow> (\<And>y. x = Some y \<Longrightarrow> moves R (n y)) \<Longrightarrow>
   moves R (case x of None \<Rightarrow> m | Some y \<Rightarrow> n y)"
  by (cases x) auto

lemma moves_prod [move_intros]:
  "(\<And>a b. p = (a, b) \<Longrightarrow> moves R (f a b)) \<Longrightarrow> moves R (case p of (a, b) \<Rightarrow> f a b)"
  by (cases p) auto

lemma moves_sum [move_intros]:
  "(\<And>a. x = Inl a \<Longrightarrow> moves R (f a)) \<Longrightarrow> (\<And>b. x = Inr b \<Longrightarrow> moves R (g b)) \<Longrightarrow>
   moves R (case x of Inl a \<Rightarrow> f a | Inr b \<Rightarrow> g b)"
  by (cases x) auto

lemma moves_Let [move_intros]: "moves R (f x) \<Longrightarrow> moves R (let y = x in f y)"
  by simp

locale step_order =
  fixes R :: "'s \<Rightarrow> 's \<Rightarrow> bool"
  assumes refl: "R s s"
    and trans: "R s t \<Longrightarrow> R t u \<Longrightarrow> R s u"
begin

lemma ret_moves: "moves R (ret x)"
  by (rule movesI) (auto simp: ret_def refl)

lemma crash_moves: "moves R (crash f)"
  by (rule movesI) (simp add: crash_def)

lemma gets_moves: "moves R (gets f)"
  by (rule movesI) (auto simp: gets_def refl)

lemma modify_moves: "(\<And>s. R s (f s)) \<Longrightarrow> moves R (modify f)"
  by (rule movesI) (auto simp: modify_def)

lemma perform_moves: "(\<And>s. R s (snd (f s))) \<Longrightarrow> moves R (perform f)"
  by (rule movesI) (metis perform_apply snd_conv sum.inject(2))

lemma seq_moves: "moves R m \<Longrightarrow> (\<And>x. moves R (k x)) \<Longrightarrow> moves R (seq m k)"
  by (rule movesI) (auto elim!: seq_InrE dest!: movesD intro: trans)

lemma nccl_check_moves: "moves R m \<Longrightarrow> moves R k \<Longrightarrow> moves R (nccl_check m k)"
  unfolding nccl_check_def by (intro seq_moves moves_if ret_moves)

lemma for_each_moves: "(\<And>x. moves R (body x)) \<Longrightarrow> moves R (for_each xs body)"
  by (induction xs) (simp_all add: ret_moves nccl_check_moves)

lemma for_all_do_moves: "(\<And>x. moves R (body x)) \<Longrightarrow> moves R (for_all_do xs body)"
  by (induction xs) (simp_all add: ret_moves seq_moves)

lemma loop_moves: "(\<And>l. moves R (body l)) \<Longrightarrow> moves R (loop n body l)"
proof (induction n arbitrary: l)
  case 0
  show ?case by (simp add: crash_moves)
next
  case (Suc n)
  then show ?case by (auto intro!: seq_moves moves_sum ret_moves)
qed

lemma lift_prog_moves:
  "(\<And>s x t. m (get s) = Inr (x, t) \<Longrightarrow> R s (put t s)) \<Longrightarrow> moves R (lift_prog get put m)"
  by (rule movesI) (auto elim!: lift_prog_InrE)

lemmas rules =
  ret_moves crash_moves gets_moves seq_moves nccl_check_moves for_each_moves for_all_do_moves
  loop_moves moves_if moves_option moves_prod moves_sum moves_Let

end

text \<open>The order every operation respects when it keeps an invariant \<open>I\<close>.\<close>

definition kept :: "('s \<Rightarrow> bool) \<Rightarrow> 's \<Rightarrow> 's \<Rightarrow> bool" where
  "kept I s t \<longleftrightarrow> (I s \<longrightarrow> I t)"

interpretation kept_order: step_order "kept I"
  by unfold_locales (auto simp: kept_def)

lemma keptD: "moves (kept I) m \<Longrightarrow> m s = Inr (x, t) \<Longrightarrow> I s \<Longrightarrow> I t"
  by (auto simp: kept_def dest: movesD)

section \<open>Lists\<close>

text \<open>The first position where a predicate holds: the search loops of the source.\<close>

fun find_index :: "('a \<Rightarrow> bool) \<Rightarrow> 'a list \<Rightarrow> nat option" where
  "find_index P [] = None"
| "find_index P (x # xs) = (if P x then Some 0 else map_option Suc (find_index P xs))"

lemma find_index_SomeD:
  "find_index P xs = Some i \<Longrightarrow> i < length xs \<and> P (xs ! i) \<and> (\<forall>j < i. \<not> P (xs ! j))"
proof (induction xs arbitrary: i)
  case Nil
  then show ?case by simp
next
  case (Cons x xs)
  then show ?case by (cases i) (auto split: if_splits simp: nth_Cons split: nat.splits)
qed

lemma find_index_None: "find_index P xs = None \<longleftrightarrow> (\<forall>x \<in> set xs. \<not> P x)"
  by (induction xs) auto

lemma find_index_Some_iff:
  "find_index P xs = Some i \<longleftrightarrow> i < length xs \<and> P (xs ! i) \<and> (\<forall>j < i. \<not> P (xs ! j))"
proof
  assume r: "i < length xs \<and> P (xs ! i) \<and> (\<forall>j < i. \<not> P (xs ! j))"
  then obtain k where k: "find_index P xs = Some k"
    by (metis find_index_None nth_mem option.exhaust)
  then have "k < length xs \<and> P (xs ! k) \<and> (\<forall>j < k. \<not> P (xs ! j))"
    by (rule find_index_SomeD)
  with r have "k = i" by (metis linorder_neqE_nat)
  with k show "find_index P xs = Some i" by simp
qed (rule find_index_SomeD)

text \<open>An update of the first element that satisfies a predicate.\<close>

definition upd_first :: "('a \<Rightarrow> bool) \<Rightarrow> ('a \<Rightarrow> 'a) \<Rightarrow> 'a list \<Rightarrow> 'a list" where
  "upd_first P f xs = (case find_index P xs of None \<Rightarrow> xs | Some i \<Rightarrow> xs[i := f (xs ! i)])"

lemma upd_first_Nil [simp]: "upd_first P f [] = []"
  by (simp add: upd_first_def)

lemma upd_first_Cons [simp]:
  "upd_first P f (x # xs) = (if P x then f x # xs else x # upd_first P f xs)"
  by (simp add: upd_first_def split: option.splits)

lemma upd_first_map:
  assumes "\<And>x. P x = Q (h x)" and "\<And>x. h (f x) = g (h x)"
  shows "map h (upd_first P f xs) = upd_first Q g (map h xs)"
  by (induction xs) (auto simp: assms)

lemma upd_first_commute:
  assumes "\<And>x. P (f x) = P x" "\<And>x. P (g x) = P x" "\<And>x. Q (f x) = Q x" "\<And>x. Q (g x) = Q x"
    and "\<And>x. P x \<Longrightarrow> Q x \<Longrightarrow> f (g x) = g (f x)"
  shows "upd_first P f (upd_first Q g xs) = upd_first Q g (upd_first P f xs)"
  by (induction xs) (auto simp: assms)

lemma length_upd_first [simp]: "length (upd_first P f xs) = length xs"
  by (induction xs) auto

end
