(* ===== verification/PlaneState.thy ===== *)
theory PlaneState
  imports Prelude "HOL-Library.Multiset"
begin

text \<open>
  The plane table of \<open>plugins/net/dpfr_ib/src/plane_state.{h,cc}\<close>: one snapshot (health,
  generation, time and source of the last change) per fault plane, sorted by plane id.  Every
  operation of the source runs under the table's mutex, so it is one atomic function here; the
  reading of \<open>steady_clock\<close> is an argument.  A \<open>const char* source\<close> that may be null is a
  \<^typ>\<open>string option\<close>, and an \<open>out\<close> parameter is part of the result.

  The lemmas show each operation as an update of one plane and give its behaviour on every branch.
\<close>

section \<open>The table and its operations\<close>

datatype plane_health = Healthy | Broken | Recovering

record plane_snapshot =
  ps_planeId :: int
  ps_health :: plane_health
  ps_generation :: u32
  ps_updatedUsec :: u64
  ps_source :: string

type_synonym plane_table = "plane_snapshot list"

definition default_snapshot :: plane_snapshot where
  "default_snapshot =
     \<lparr>ps_planeId = 0, ps_health = Healthy, ps_generation = 1, ps_updatedUsec = 0, ps_source = []\<rparr>"

definition plane_reset :: "(nat \<Rightarrow> u64) \<Rightarrow> int list \<Rightarrow> nccl_result \<times> plane_table" where
  "plane_reset clock planeIds =
     (ncclSuccess,
      sort_key ps_planeId
        (map (\<lambda>(i, planeId). default_snapshot\<lparr>ps_planeId := planeId, ps_health := Healthy,
                 ps_generation := 1, ps_updatedUsec := clock i, ps_source := ''init''\<rparr>)
           (enumerate 0 planeIds)))"

definition find_plane :: "int \<Rightarrow> plane_table \<Rightarrow> nat option" where
  "find_plane planeId planes = find_index (\<lambda>p. ps_planeId p = planeId) planes"

definition source_text :: "string option \<Rightarrow> string" where
  "source_text source = (case source of None \<Rightarrow> ''unknown'' | Some s \<Rightarrow> s)"

definition mark_broken ::
    "u64 \<Rightarrow> int \<Rightarrow> string option \<Rightarrow> plane_table \<Rightarrow> plane_snapshot option \<times> plane_table" where
  "mark_broken now planeId source planes =
     (case find_plane planeId planes of
        None \<Rightarrow> (None, planes)
      | Some i \<Rightarrow>
          let plane = planes ! i;
              plane' = (if ps_health plane \<noteq> Broken
                        then plane\<lparr>ps_generation := ps_generation plane + 1, ps_health := Broken,
                                   ps_updatedUsec := now, ps_source := source_text source\<rparr>
                        else plane)
          in (Some plane', planes[i := plane']))"

definition mark_recovering ::
    "u64 \<Rightarrow> int \<Rightarrow> string option \<Rightarrow> plane_table \<Rightarrow> plane_snapshot option \<times> plane_table" where
  "mark_recovering now planeId source planes =
     (case find_plane planeId planes of
        None \<Rightarrow> (None, planes)
      | Some i \<Rightarrow>
          let plane = planes ! i;
              plane' = (if ps_health plane \<noteq> Recovering
                        then plane\<lparr>ps_generation := ps_generation plane + 1, ps_health := Recovering,
                                   ps_updatedUsec := now, ps_source := source_text source\<rparr>
                        else plane)
          in (Some plane', planes[i := plane']))"

definition mark_healthy ::
    "u64 \<Rightarrow> int \<Rightarrow> string option \<Rightarrow> plane_table \<Rightarrow> plane_snapshot option \<times> plane_table" where
  "mark_healthy now planeId source planes =
     (case find_plane planeId planes of
        None \<Rightarrow> (None, planes)
      | Some i \<Rightarrow>
          let plane' = (planes ! i)\<lparr>ps_health := Healthy, ps_updatedUsec := now,
                                    ps_source := source_text source\<rparr>
          in (Some plane', planes[i := plane']))"

text \<open>The result: the snapshot when the call returns true, the \<open>applied\<close> flag, the table.\<close>

definition apply_remote_event ::
    "u64 \<Rightarrow> int \<Rightarrow> plane_health \<Rightarrow> u32 \<Rightarrow> string option \<Rightarrow> plane_table
     \<Rightarrow> plane_snapshot option \<times> bool \<times> plane_table" where
  "apply_remote_event now planeId health generation source planes =
     (case find_plane planeId planes of
        None \<Rightarrow> (None, False, planes)
      | Some i \<Rightarrow>
          let plane = planes ! i in
          if generation = 0 then (None, False, planes)
          else if generation < ps_generation plane then (Some plane, False, planes)
          else if generation = ps_generation plane \<and> ps_health plane \<noteq> health
            then (Some plane, False, planes)
          else if generation > ps_generation plane \<or> ps_health plane \<noteq> health then
            let plane' = plane\<lparr>ps_generation := generation, ps_health := health,
                               ps_updatedUsec := now, ps_source := source_text source\<rparr>
            in (Some plane', True, planes[i := plane'])
          else (Some plane, False, planes))"

text \<open>The result: the returned flag, the snapshot written to \<open>out\<close> if any, the table.\<close>

definition mark_healthy_if_generation ::
    "u64 \<Rightarrow> int \<Rightarrow> u32 \<Rightarrow> string option \<Rightarrow> plane_table
     \<Rightarrow> bool \<times> plane_snapshot option \<times> plane_table" where
  "mark_healthy_if_generation now planeId generation source planes =
     (case find_plane planeId planes of
        None \<Rightarrow> (False, None, planes)
      | Some i \<Rightarrow>
          let plane = planes ! i in
          if ps_generation plane \<noteq> generation \<or>
             (ps_health plane \<noteq> Recovering \<and> ps_health plane \<noteq> Healthy)
          then (False, Some plane, planes)
          else if ps_health plane = Healthy then (True, Some plane, planes)
          else let plane' = plane\<lparr>ps_health := Healthy, ps_updatedUsec := now,
                                  ps_source := source_text source\<rparr>
               in (True, Some plane', planes[i := plane']))"

definition plane_get :: "int \<Rightarrow> plane_table \<Rightarrow> plane_snapshot option" where
  "plane_get planeId planes = map_option (\<lambda>i. planes ! i) (find_plane planeId planes)"

definition plane_health_of :: "int \<Rightarrow> plane_table \<Rightarrow> plane_health" where
  "plane_health_of planeId planes =
     (case plane_get planeId planes of None \<Rightarrow> Broken | Some plane \<Rightarrow> ps_health plane)"

definition plane_generation_of :: "int \<Rightarrow> plane_table \<Rightarrow> u32" where
  "plane_generation_of planeId planes =
     (case plane_get planeId planes of None \<Rightarrow> 0 | Some plane \<Rightarrow> ps_generation plane)"

fun plane_health_name :: "plane_health \<Rightarrow> string" where
  "plane_health_name Healthy = ''HEALTHY''"
| "plane_health_name Broken = ''BROKEN''"
| "plane_health_name Recovering = ''RECOVERING''"


section \<open>Operations as updates of one plane\<close>

text \<open>
  A call on the table by any thread of the process: the monitor threads and the communicators
  all act through these six entry points.
\<close>

datatype plane_op =
    MarkBroken int "string option"
  | MarkRecovering int "string option"
  | MarkHealthy int "string option"
  | ApplyRemote int plane_health u32 "string option"
  | MarkHealthyIf int u32 "string option"

fun plane_step :: "u64 \<Rightarrow> plane_op \<Rightarrow> plane_table \<Rightarrow> plane_table" where
  "plane_step now (MarkBroken i src) t = snd (mark_broken now i src t)"
| "plane_step now (MarkRecovering i src) t = snd (mark_recovering now i src t)"
| "plane_step now (MarkHealthy i src) t = snd (mark_healthy now i src t)"
| "plane_step now (ApplyRemote i h g src) t = snd (snd (apply_remote_event now i h g src t))"
| "plane_step now (MarkHealthyIf i g src) t =
     snd (snd (mark_healthy_if_generation now i g src t))"

fun op_plane :: "plane_op \<Rightarrow> int" where
  "op_plane (MarkBroken i src) = i"
| "op_plane (MarkRecovering i src) = i"
| "op_plane (MarkHealthy i src) = i"
| "op_plane (ApplyRemote i h g src) = i"
| "op_plane (MarkHealthyIf i g src) = i"

fun op_effect :: "u64 \<Rightarrow> plane_op \<Rightarrow> plane_snapshot \<Rightarrow> plane_snapshot" where
  "op_effect now (MarkBroken i src) p =
     (if ps_health p \<noteq> Broken
      then p\<lparr>ps_generation := ps_generation p + 1, ps_health := Broken,
             ps_updatedUsec := now, ps_source := source_text src\<rparr> else p)"
| "op_effect now (MarkRecovering i src) p =
     (if ps_health p \<noteq> Recovering
      then p\<lparr>ps_generation := ps_generation p + 1, ps_health := Recovering,
             ps_updatedUsec := now, ps_source := source_text src\<rparr> else p)"
| "op_effect now (MarkHealthy i src) p =
     p\<lparr>ps_health := Healthy, ps_updatedUsec := now, ps_source := source_text src\<rparr>"
| "op_effect now (ApplyRemote i h g src) p =
     (if ps_generation p < g
      then p\<lparr>ps_generation := g, ps_health := h,
             ps_updatedUsec := now, ps_source := source_text src\<rparr> else p)"
| "op_effect now (MarkHealthyIf i g src) p =
     (if ps_generation p = g \<and> ps_health p = Recovering
      then p\<lparr>ps_health := Healthy, ps_updatedUsec := now, ps_source := source_text src\<rparr> else p)"

definition update_plane ::
    "int \<Rightarrow> (plane_snapshot \<Rightarrow> plane_snapshot) \<Rightarrow> plane_table \<Rightarrow> plane_table" where
  "update_plane planeId f planes =
     (case find_plane planeId planes of None \<Rightarrow> planes | Some i \<Rightarrow> planes[i := f (planes ! i)])"

named_theorems plane_defs \<open>definitions of the table's operations\<close>

declare mark_broken_def [plane_defs] and mark_recovering_def [plane_defs]
  and mark_healthy_def [plane_defs] and apply_remote_event_def [plane_defs]
  and mark_healthy_if_generation_def [plane_defs]

lemma find_plane_SomeD:
  "find_plane i t = Some k \<Longrightarrow> k < length t \<and> ps_planeId (t ! k) = i"
  by (auto simp: find_plane_def dest!: find_index_SomeD)

lemma find_plane_upd:
  "ps_planeId (f (t ! k)) = ps_planeId (t ! k) \<Longrightarrow>
   find_plane i (t[k := f (t ! k)]) = find_plane i t"
proof -
  assume same: "ps_planeId (f (t ! k)) = ps_planeId (t ! k)"
  have "map ps_planeId (t[k := f (t ! k)]) = map ps_planeId t"
    by (cases "k < length t") (auto intro!: nth_equalityI simp: nth_list_update same list_update_beyond)
  moreover have "find_plane i xs = find_index (\<lambda>x. x = i) (map ps_planeId xs)" for xs
    unfolding find_plane_def by (induction xs) auto
  ultimately show ?thesis by simp
qed

lemma op_effect_planeId [simp]: "ps_planeId (op_effect now e p) = ps_planeId p"
  by (cases e) auto

lemma plane_step_update: "plane_step now e t = update_plane (op_plane e) (op_effect now e) t"
proof (cases e)
  case (ApplyRemote i h g src)
  have "\<not> (0::u32) > ps_generation p" for p by simp
  with ApplyRemote show ?thesis
    by (auto simp: update_plane_def apply_remote_event_def Let_def not_less list_update_id
        split: option.splits)
next
  case (MarkHealthyIf i g src)
  then show ?thesis
    by (auto simp: update_plane_def mark_healthy_if_generation_def Let_def split: option.splits)
qed (auto simp: update_plane_def plane_defs Let_def split: option.splits)

lemma find_plane_update [simp]:
  "(\<And>p. ps_planeId (f p) = ps_planeId p) \<Longrightarrow>
   find_plane i (update_plane j f t) = find_plane i t"
  by (auto simp: update_plane_def find_plane_upd split: option.splits)

lemma plane_get_update:
  assumes "\<And>p. ps_planeId (f p) = ps_planeId p"
  shows "plane_get i (update_plane j f t) =
    (if i = j then map_option f (plane_get i t) else plane_get i t)"
proof (cases "find_plane j t")
  case None
  then show ?thesis by (auto simp: plane_get_def update_plane_def)
next
  case (Some k)
  have "find_plane i t = Some l \<Longrightarrow> i \<noteq> j \<Longrightarrow> l \<noteq> k" for l
    using Some find_plane_SomeD by metis
  moreover from Some have "k < length t" using find_plane_SomeD by blast
  ultimately show ?thesis using Some assms
    by (cases "find_plane i t") (auto simp: plane_get_def update_plane_def find_plane_upd)
qed

lemma plane_get_step:
  "plane_get i (plane_step now e t) =
     (if i = op_plane e then map_option (op_effect now e) (plane_get i t) else plane_get i t)"
  by (simp add: plane_step_update plane_get_update)

lemma plane_ids_step [simp]: "map ps_planeId (plane_step now e t) = map ps_planeId t"
  by (auto simp: plane_step_update update_plane_def map_update split: option.splits
      dest!: find_plane_SomeD)
    (metis list_update_id map_update nth_map)


section \<open>What each operation promises\<close>

text \<open>\<open>applyRemoteEvent\<close> on a known plane and a non-zero generation: the event is applied
  exactly when its generation is newer than the plane's; then health and generation are the
  event's, and otherwise the whole table stays as it was (older events, repeated events and
  events that contradict the current generation's health alike).  Other planes never change.\<close>

theorem apply_remote_event_spec:
  assumes "plane_get planeId t = Some plane" and "generation \<noteq> 0"
    and "apply_remote_event now planeId health generation source t = (out, applied, t')"
  shows "(applied \<longleftrightarrow> ps_generation plane < generation) \<and>
    (if applied
     then out = plane_get planeId t' \<and>
          map_option (\<lambda>p. (ps_health p, ps_generation p)) out = Some (health, generation)
     else t' = t \<and> out = Some plane) \<and>
    (\<forall>j. j \<noteq> planeId \<longrightarrow> plane_get j t' = plane_get j t)"
proof -
  let ?e = "ApplyRemote planeId health generation source"
  obtain i where i: "find_plane planeId t = Some i" and plane: "plane = t ! i"
    using assms(1) by (auto simp: plane_get_def)
  have t': "t' = plane_step now ?e t"
    using assms(3) by simp
  have out: "out = Some (op_effect now ?e plane)" if "applied"
    using that assms(2,3) i plane by (auto simp: apply_remote_event_def Let_def split: if_splits)
  have kept: "t' = t \<and> out = Some plane" if "\<not> applied"
    using that assms(2,3) i plane by (auto simp: apply_remote_event_def Let_def split: if_splits)
  have "applied \<longleftrightarrow> ps_generation plane < generation"
    using assms(2,3) i plane by (auto simp: apply_remote_event_def Let_def split: if_splits)
  moreover have "\<forall>j. plane_get j t' =
      (if j = planeId then map_option (op_effect now ?e) (plane_get j t) else plane_get j t)"
    by (simp only: t' plane_get_step op_plane.simps) simp
  ultimately show ?thesis
    using kept out assms(1) by auto
qed

theorem apply_remote_event_spec_witness:
  "let t = [default_snapshot\<lparr>ps_planeId := 3, ps_generation := 4\<rparr>] in
   fst (snd (apply_remote_event 9 3 Broken 5 None t)) \<and>
   \<not> fst (snd (apply_remote_event 9 3 Broken 4 None t)) \<and>
   snd (snd (apply_remote_event 9 3 Broken 4 None t)) = t"
proof -
  let ?t = "[default_snapshot\<lparr>ps_planeId := 3, ps_generation := 4\<rparr>]"
  have g: "plane_get 3 ?t = Some (default_snapshot\<lparr>ps_planeId := 3, ps_generation := 4\<rparr>)"
    by (simp add: plane_get_def find_plane_def)
  obtain o1 a1 t1 where r1: "apply_remote_event 9 3 Broken 5 None ?t = (o1, a1, t1)"
    by (metis prod_cases3)
  obtain o2 a2 t2 where r2: "apply_remote_event 9 3 Broken 4 None ?t = (o2, a2, t2)"
    by (metis prod_cases3)
  have "a1" using apply_remote_event_spec [OF g _ r1] by simp
  moreover have "\<not> a2 \<and> t2 = ?t" using apply_remote_event_spec [OF g _ r2] by (auto split: if_splits)
  ultimately show ?thesis by (simp add: r1 r2)
qed

text \<open>\<open>markHealthyIfGeneration\<close> returns true exactly when the plane is known, has the
  named generation and is not broken; it then leaves the plane healthy.  It never changes a
  generation, and a refused call changes nothing.\<close>

theorem mark_healthy_if_generation_spec:
  assumes "mark_healthy_if_generation now planeId generation source t = (ok, out, t')"
  shows "(ok \<longleftrightarrow> (\<exists>p. plane_get planeId t = Some p \<and> ps_generation p = generation \<and>
                     ps_health p \<noteq> Broken)) \<and>
    (if ok then plane_health_of planeId t' = Healthy else t' = t) \<and>
    (\<forall>j. plane_generation_of j t' = plane_generation_of j t)"
proof -
  let ?e = "MarkHealthyIf planeId generation source"
  have t': "t' = plane_step now ?e t"
    using assms by simp
  have ok: "ok \<longleftrightarrow> (\<exists>p. plane_get planeId t = Some p \<and> ps_generation p = generation \<and>
                     ps_health p \<noteq> Broken)"
    using assms
    by (auto simp: mark_healthy_if_generation_def plane_get_def Let_def
        split: option.splits if_splits) (metis plane_health.exhaust)+
  have get: "plane_get j t' =
      (if j = planeId then map_option (op_effect now ?e) (plane_get j t) else plane_get j t)" for j
    by (simp only: t' plane_get_step op_plane.simps)
  have "ok \<Longrightarrow> plane_health_of planeId t' = Healthy"
    unfolding ok plane_health_of_def get
    by (auto split: option.splits) (metis plane_health.exhaust)
  moreover have "plane_generation_of j t' = plane_generation_of j t" for j
    unfolding plane_generation_of_def get by (auto split: option.splits)
  moreover have "\<not> ok \<Longrightarrow> t' = t"
    using assms
    by (auto simp: mark_healthy_if_generation_def Let_def split: option.splits if_splits)
  ultimately show ?thesis using ok by auto
qed

theorem mark_healthy_if_generation_witness:
  "let t = [default_snapshot\<lparr>ps_planeId := 3, ps_generation := 4, ps_health := Recovering\<rparr>] in
   fst (mark_healthy_if_generation 9 3 4 None t) \<and>
   plane_health_of 3 (snd (snd (mark_healthy_if_generation 9 3 4 None t))) = Healthy \<and>
   \<not> fst (mark_healthy_if_generation 9 3 5 None t)"
proof -
  let ?t = "[default_snapshot\<lparr>ps_planeId := 3, ps_generation := 4, ps_health := Recovering\<rparr>]"
  have g: "plane_get 3 ?t =
      Some (default_snapshot\<lparr>ps_planeId := 3, ps_generation := 4, ps_health := Recovering\<rparr>)"
    by (simp add: plane_get_def find_plane_def)
  obtain k1 o1 t1 where r1: "mark_healthy_if_generation 9 3 4 None ?t = (k1, o1, t1)"
    by (metis prod_cases3)
  obtain k2 o2 t2 where r2: "mark_healthy_if_generation 9 3 5 None ?t = (k2, o2, t2)"
    by (metis prod_cases3)
  have "k1 \<and> plane_health_of 3 t1 = Healthy" using mark_healthy_if_generation_spec [OF r1] g by simp
  moreover have "\<not> k2" using mark_healthy_if_generation_spec [OF r2] g by simp
  ultimately show ?thesis by (simp add: r1 r2)
qed

end
