(* ===== verification/PlaneEpochs.thy ===== *)
theory PlaneEpochs
  imports PlaneState
begin

text \<open>
  What a plane's generation means.  The abstract machine \<open>epoch_step\<close> moves a pair of health and
  generation number; the locales state what a store of such epochs promises to its clients and
  prove, once, what follows for any sequence of calls: generations never go back, and a broken
  epoch is never healthy again without a new generation.  The plane table is an interpretation.
  The last section shows that remote events commute.
\<close>

section \<open>The abstract epoch machine\<close>

type_synonym epoch = "plane_health \<times> nat"

inductive epoch_step :: "epoch \<Rightarrow> epoch \<Rightarrow> bool" where
  fault_seen: "h \<noteq> Broken \<Longrightarrow> epoch_step (h, g) (Broken, Suc g)"
| repair_seen: "h \<noteq> Recovering \<Longrightarrow> epoch_step (h, g) (Recovering, Suc g)"
| healed: "h \<noteq> Broken \<Longrightarrow> epoch_step (h, g) (Healthy, g)"
| adopted: "g < g' \<Longrightarrow> epoch_step (h, g) (h', g')"

inductive_cases epoch_stepE: "epoch_step (h, g) (h', g')"

lemma epoch_step_mono: "epoch_step e e' \<Longrightarrow> snd e \<le> snd e'"
  by (auto elim: epoch_step.cases)

lemma epoch_step_latch: "epoch_step e e' \<Longrightarrow> snd e' = snd e \<Longrightarrow> fst e = Broken \<Longrightarrow> fst e' = Broken"
  by (auto elim: epoch_step.cases)

section \<open>Stores of epochs\<close>

fun run_fits :: "('op \<Rightarrow> 't \<Rightarrow> 't) \<Rightarrow> ('op \<Rightarrow> 't \<Rightarrow> bool) \<Rightarrow> 'op list \<Rightarrow> 't \<Rightarrow> bool" where
  "run_fits app fits [] t = True"
| "run_fits app fits (e # es) t = (fits e t \<and> run_fits app fits es (app e t))"

locale epoch_store =
  fixes app :: "'op \<Rightarrow> 't \<Rightarrow> 't"
    and fits :: "'op \<Rightarrow> 't \<Rightarrow> bool"
    and view :: "'k \<Rightarrow> 't \<Rightarrow> 'v option"
    and step :: "'v \<Rightarrow> 'v \<Rightarrow> bool"
  assumes app_refines:
    "fits e t \<Longrightarrow> view k t = Some v \<Longrightarrow> \<exists>v'. view k (app e t) = Some v' \<and> step\<^sup>*\<^sup>* v v'"
begin

lemma run_refines:
  "run_fits app fits es t \<Longrightarrow> view k t = Some v \<Longrightarrow>
   \<exists>v'. view k (fold app es t) = Some v' \<and> step\<^sup>*\<^sup>* v v'"
proof (induction es arbitrary: t v)
  case Nil
  then show ?case by simp
next
  case (Cons e es)
  then obtain v1 where "view k (app e t) = Some v1" and v1: "step\<^sup>*\<^sup>* v v1"
    using app_refines by fastforce
  with Cons obtain v' where "view k (fold app es (app e t)) = Some v'" and "step\<^sup>*\<^sup>* v1 v'"
    by fastforce
  with v1 show ?case by (auto intro: rtranclp_trans)
qed

end

locale ordered_epoch_store = epoch_store app fits view step
  for app :: "'op \<Rightarrow> 't \<Rightarrow> 't" and fits view and step :: "'h \<times> nat \<Rightarrow> 'h \<times> nat \<Rightarrow> bool" +
  fixes latched :: "'h \<Rightarrow> bool"
  assumes step_mono: "step v v' \<Longrightarrow> snd v \<le> snd v'"
    and step_latch: "step v v' \<Longrightarrow> snd v' = snd v \<Longrightarrow> latched (fst v) \<Longrightarrow> fst v' = fst v"
begin

lemma steps_mono: "step\<^sup>*\<^sup>* v v' \<Longrightarrow> snd v \<le> snd v'"
  by (induction rule: rtranclp_induct) (auto dest: step_mono)

lemma steps_latch: "step\<^sup>*\<^sup>* v v' \<Longrightarrow> snd v' = snd v \<Longrightarrow> latched (fst v) \<Longrightarrow> fst v' = fst v"
proof (induction rule: rtranclp_induct)
  case base
  then show ?case by simp
next
  case (step y z)
  then have "snd v \<le> snd y" and "snd y \<le> snd z"
    by (auto dest: steps_mono step_mono)
  with step show ?case by (metis le_antisym step_latch)
qed

lemma run_mono:
  assumes "run_fits app fits es t" and "view k t = Some v"
  obtains v' where "view k (fold app es t) = Some v'" and "snd v \<le> snd v'"
    and "snd v' = snd v \<Longrightarrow> latched (fst v) \<Longrightarrow> fst v' = fst v"
  using run_refines [OF assms] steps_mono steps_latch by blast

end

section \<open>The plane table is one\<close>

definition epoch_of :: "int \<Rightarrow> plane_table \<Rightarrow> epoch option" where
  "epoch_of i t = map_option (\<lambda>p. (ps_health p, unat (ps_generation p))) (plane_get i t)"

text \<open>
  Two things are excluded: \<open>generation++\<close> on the largest 32-bit value, which wraps to 0, and
  \<open>markHealthy\<close>, which no code of the plugin calls.
\<close>

fun op_fits :: "plane_op \<Rightarrow> plane_table \<Rightarrow> bool" where
  "op_fits (MarkBroken i src) t = (plane_generation_of i t \<noteq> - 1)"
| "op_fits (MarkRecovering i src) t = (plane_generation_of i t \<noteq> - 1)"
| "op_fits (MarkHealthy i src) t = False"
| "op_fits (ApplyRemote i h g src) t = True"
| "op_fits (MarkHealthyIf i g src) t = True"

lemma unat_succ: "(g::u32) \<noteq> - 1 \<Longrightarrow> unat (g + 1) = Suc (unat g)"
  using unatSuc [of g] by (simp add: add.commute eq_neg_iff_add_eq_0)

lemma op_effect_epoch:
  assumes "op_fits e t" and "plane_get (op_plane e) t = Some p"
  shows "epoch_step\<^sup>*\<^sup>* (ps_health p, unat (ps_generation p))
    (ps_health (op_effect now e p), unat (ps_generation (op_effect now e p)))"
proof (cases e)
  case (ApplyRemote i h g src)
  then show ?thesis by (auto simp: word_less_nat_alt intro!: epoch_step.adopted)
next
  case (MarkHealthyIf i g src)
  then show ?thesis by (auto intro!: r_into_rtranclp epoch_step.healed)
qed (use assms in \<open>auto simp: plane_generation_of_def unat_succ
      intro!: r_into_rtranclp epoch_step.intros\<close>)

definition timed_step :: "u64 \<times> plane_op \<Rightarrow> plane_table \<Rightarrow> plane_table" where
  "timed_step e = plane_step (fst e) (snd e)"

interpretation plane_epochs: ordered_epoch_store timed_step "\<lambda>e. op_fits (snd e)" epoch_of
    epoch_step "\<lambda>h. h = Broken"
proof
  fix e :: "u64 \<times> plane_op" and t k v
  assume "op_fits (snd e) t" and "epoch_of k t = Some v"
  then show "\<exists>v'. epoch_of k (timed_step e t) = Some v' \<and> epoch_step\<^sup>*\<^sup>* v v'"
    by (auto simp: epoch_of_def timed_step_def plane_get_step intro: op_effect_epoch)
qed (auto dest: epoch_step_mono epoch_step_latch)

text \<open>C18. Whatever sequence of \<open>markBroken\<close>, \<open>markRecovering\<close>, \<open>applyRemoteEvent\<close> and \<open>markHealthyIfGeneration\<close> the monitor
  threads and all communicators make on the table, as long as no generation counter overflows, a plane's
  generation never decreases, and a plane that was broken in some generation is still broken whenever it
  has that generation: it is not re-admitted without a new generation.  The sequence has no
  \<open>markHealthy\<close>, which would re-admit it and which only the repository's tests call.\<close>

theorem broken_epoch_is_final:
  assumes "run_fits timed_step (\<lambda>e. op_fits (snd e)) es t"
    and "plane_get i t = Some p"
  shows "\<exists>p'. plane_get i (fold timed_step es t) = Some p' \<and>
    unat (ps_generation p) \<le> unat (ps_generation p') \<and>
    (ps_health p = Broken \<longrightarrow> ps_generation p' = ps_generation p \<longrightarrow> ps_health p' = Broken)"
proof -
  have "epoch_of i t = Some (ps_health p, unat (ps_generation p))"
    using assms(2) by (simp add: epoch_of_def)
  with assms(1) obtain v' where v': "epoch_of i (fold timed_step es t) = Some v'"
    and "unat (ps_generation p) \<le> snd v'"
    and "snd v' = unat (ps_generation p) \<Longrightarrow> ps_health p = Broken \<Longrightarrow> fst v' = ps_health p"
    by (rule plane_epochs.run_mono) auto
  moreover obtain p' where "plane_get i (fold timed_step es t) = Some p'"
    and "v' = (ps_health p', unat (ps_generation p'))"
    using v' by (auto simp: epoch_of_def)
  ultimately show ?thesis by auto
qed

theorem broken_epoch_is_final_witness:
  "\<exists>p'. plane_get 0 (fold timed_step
      [(1, MarkBroken 0 None), (2, MarkHealthyIf 0 2 None), (3, ApplyRemote 0 Recovering 2 None)]
      [default_snapshot]) = Some p' \<and> unat (ps_generation p') \<ge> 1"
proof -
  have g: "plane_get 0 [default_snapshot] = Some default_snapshot"
    by (simp add: plane_get_def find_plane_def default_snapshot_def)
  have "run_fits timed_step (\<lambda>e. op_fits (snd e))
      [(1, MarkBroken 0 None), (2, MarkHealthyIf 0 2 None), (3, ApplyRemote 0 Recovering 2 None)]
      [default_snapshot]"
    by (simp add: timed_step_def plane_generation_of_def g) (simp add: default_snapshot_def)
  from broken_epoch_is_final [OF this g] show ?thesis
    by (auto simp: default_snapshot_def)
qed

section \<open>Remote events commute\<close>

text \<open>
  An event as it arrives: the time of arrival and the source are local, plane, health and
  generation travel in the message.
\<close>

record remote_event =
  re_time :: u64
  re_source :: "string option"
  re_plane :: int
  re_health :: plane_health
  re_generation :: u32

definition deliver :: "remote_event \<Rightarrow> plane_table \<Rightarrow> plane_table" where
  "deliver e t = snd (snd (apply_remote_event (re_time e) (re_plane e) (re_health e)
                             (re_generation e) (re_source e) t))"

definition event_key :: "remote_event \<Rightarrow> int \<times> plane_health \<times> u32" where
  "event_key e = (re_plane e, re_health e, re_generation e)"

text \<open>What the selection of a plane and the recovery protocol read of the table.\<close>

definition plane_view :: "plane_table \<Rightarrow> (int \<times> plane_health \<times> u32) list" where
  "plane_view t = map (\<lambda>p. (ps_planeId p, ps_health p, ps_generation p)) t"

fun newest :: "int \<times> plane_health \<times> u32 \<Rightarrow> int \<times> plane_health \<times> u32 \<Rightarrow> int \<times> plane_health \<times> u32"
where
  "newest (i, h, g) (j, h0, g0) = (if g0 < g then (j, h, g) else (j, h0, g0))"

definition deliver_key ::
    "int \<times> plane_health \<times> u32 \<Rightarrow> (int \<times> plane_health \<times> u32) list
     \<Rightarrow> (int \<times> plane_health \<times> u32) list" where
  "deliver_key k = upd_first (\<lambda>v. fst v = fst k) (newest k)"

lemma deliver_view: "plane_view (deliver e t) = deliver_key (event_key e) (plane_view t)"
proof -
  let ?op = "ApplyRemote (re_plane e) (re_health e) (re_generation e) (re_source e)"
  have "deliver e t = upd_first (\<lambda>p. ps_planeId p = re_plane e) (op_effect (re_time e) ?op) t"
    using plane_step_update [of "re_time e" ?op t]
    by (simp add: deliver_def update_plane_def upd_first_def find_plane_def)
  then show ?thesis
    by (simp add: plane_view_def deliver_key_def event_key_def upd_first_map)
qed

lemma fst_newest [simp]: "fst (newest k v) = fst v"
  by (cases k; cases v) auto

lemma newest_commute:
  "(snd (snd k) = snd (snd l) \<Longrightarrow> fst (snd k) = fst (snd l)) \<Longrightarrow>
   newest k (newest l v) = newest l (newest k v)"
  by (cases k; cases l; cases v) auto

lemma deliver_key_commute:
  assumes "fst k = fst l \<Longrightarrow> snd (snd k) = snd (snd l) \<Longrightarrow> fst (snd k) = fst (snd l)"
  shows "deliver_key k (deliver_key l t) = deliver_key l (deliver_key k t)"
  unfolding deliver_key_def
  by (rule upd_first_commute) (use assms in \<open>auto intro!: newest_commute\<close>)

lemma fold_deliver_view:
  "plane_view (fold deliver es t) = fold deliver_key (map event_key es) (plane_view t)"
  by (induction es arbitrary: t) (auto simp: deliver_view)

text \<open>C19. As long as no two of the events name the same plane and generation with different healths, remote plane events
  are independent of their order: two processes whose tables agree and that receive the same such
  events, each in its own order and at its own times, agree on every plane's health and generation
  afterwards.  (Of two events that conflict, the first to arrive stays.)\<close>

theorem remote_events_converge:
  assumes "plane_view t = plane_view t'"
    and "mset (map event_key es) = mset (map event_key es')"
    and "\<And>e f. e \<in> set es \<Longrightarrow> f \<in> set es \<Longrightarrow> re_plane e = re_plane f \<Longrightarrow>
      re_generation e = re_generation f \<Longrightarrow> re_health e = re_health f"
  shows "plane_view (fold deliver es t) = plane_view (fold deliver es' t')"
proof -
  have "fold deliver_key (map event_key es) = fold deliver_key (map event_key es')"
  proof (rule fold_multiset_equiv [OF _ assms(2)])
    fix k l
    assume "k \<in> set (map event_key es)" and "l \<in> set (map event_key es)"
    then obtain e f where "e \<in> set es" "f \<in> set es" and kl: "k = event_key e" "l = event_key f"
      by auto
    then have "re_plane e = re_plane f \<Longrightarrow> re_generation e = re_generation f \<Longrightarrow>
        re_health e = re_health f"
      by (intro assms(3))
    then have "fst k = fst l \<Longrightarrow> snd (snd k) = snd (snd l) \<Longrightarrow> fst (snd k) = fst (snd l)"
      by (simp add: kl event_key_def)
    then show "deliver_key k \<circ> deliver_key l = deliver_key l \<circ> deliver_key k"
      by (intro ext) (simp add: deliver_key_commute)
  qed
  then show ?thesis by (simp add: fold_deliver_view assms(1))
qed

definition sample_event :: "u64 \<Rightarrow> plane_health \<Rightarrow> u32 \<Rightarrow> remote_event" where
  "sample_event now h g = \<lparr>re_time = now, re_source = None, re_plane = 0, re_health = h,
     re_generation = g\<rparr>"

theorem remote_events_converge_witness:
  "plane_view (fold deliver [sample_event 1 Broken 2, sample_event 2 Recovering 3] [default_snapshot])
   = plane_view (fold deliver [sample_event 5 Recovering 3, sample_event 7 Broken 2] [default_snapshot])"
proof (rule remote_events_converge)
  show "mset (map event_key [sample_event 1 Broken 2, sample_event 2 Recovering 3])
      = mset (map event_key [sample_event 5 Recovering 3, sample_event 7 Broken 2])"
    by (simp add: sample_event_def event_key_def add_mset_commute)
  fix e f
  assume "e \<in> set [sample_event 1 Broken 2, sample_event 2 Recovering 3]"
    and "f \<in> set [sample_event 1 Broken 2, sample_event 2 Recovering 3]"
    and "re_generation e = re_generation f"
  then show "re_health e = re_health f"
    by (auto simp: sample_event_def)
qed simp

text \<open>The 32-bit generation wraps: one remote event with the largest generation is accepted,
  the next local fault then moves the plane to generation 0, and a peer that is told of that
  fault rejects the event, because \<open>applyRemoteEvent\<close> refuses generation 0.\<close>

theorem generation_wraps_and_event_is_lost:
  "let t1 = snd (snd (apply_remote_event now 0 Recovering 0xffffffff src [default_snapshot]));
       (out, t2) = mark_broken now 0 src t1
   in plane_generation_of 0 t1 = 0xffffffff \<and> plane_generation_of 0 t2 = 0 \<and>
      plane_health_of 0 t2 = Broken \<and>
      apply_remote_event now 0 Broken (plane_generation_of 0 t2) src t1 = (None, False, t1)"
  by (simp add: apply_remote_event_def mark_broken_def find_plane_def default_snapshot_def
      plane_get_def plane_generation_of_def plane_health_of_def Let_def)

end
