(* ===== verification/IcmpProbe.thy ===== *)
theory IcmpProbe
  imports Prelude "HOL-Library.Monad_Syntax"
begin

text \<open>
  The ICMP helpers of \<open>plugins/net/dpfr_ib/src/icmp_probe.{h,cc}\<close> and the echo request the probe
  of \<open>monitor.cc\<close> builds with them.  A packet is the list of its bytes.  A read of a byte outside
  of it has no value (\<^term>\<open>None\<close>); the first property of the parser is that it never makes one.
  Multi-byte loads are those of a little-endian host.

  The lemmas do the checksum's arithmetic in the naturals: folding the carries keeps the residue
  modulo 65535 and maps only 0 to 0.
\<close>

section \<open>The checksum\<close>

fun sum_words :: "u8 list \<Rightarrow> u32 \<Rightarrow> u32" where
  "sum_words (a # b # bs) acc = sum_words bs (acc + (ucast a + 256 * ucast b))"
| "sum_words [a] acc = acc + ucast a"
| "sum_words [] acc = acc"

lemma unat_widen [simp]: "unat (ucast (a :: u8) :: u32) = unat a"
  by transfer simp

lemma unat_halves:
  fixes s :: u32
  shows "unat (drop_bit 16 s) = unat s div 65536" and "unat (s AND 0xffff) = unat s mod 65536"
proof -
  show "unat (drop_bit 16 s) = unat s div 65536"
    by (simp add: drop_bit_eq_div unat_div)
  have "s AND 0xffff = take_bit 16 s" by (simp add: take_bit_eq_mask mask_eq_exp_minus_1)
  then show "unat (s AND 0xffff) = unat s mod 65536"
    by (simp add: take_bit_eq_mod unat_mod)
qed

lemma unat_fold_step:
  fixes s :: u32
  shows "unat ((s AND 0xffff) + drop_bit 16 s) = unat s mod 65536 + unat s div 65536"
proof -
  have "unat s < 2 ^ 32" using unsigned_less [of s] by simp
  then have "unat s div 65536 < 65536" by (simp add: div_less_iff_less_mult)
  then have "unat s mod 65536 + unat s div 65536 < 2 ^ 32" by (simp add: add_strict_mono)
  then show ?thesis by (simp add: unat_word_ariths unat_halves)
qed

text \<open>\<open>while (sum >> 16) sum = (sum & 0xffff) + (sum >> 16)\<close>\<close>

function fold_carry :: "u32 \<Rightarrow> u32" where
  "fold_carry acc =
     (if drop_bit 16 acc = 0 then acc else fold_carry ((acc AND 0xffff) + drop_bit 16 acc))"
  by pat_completeness auto
termination
proof (relation "measure unat")
  fix s :: u32
  assume "drop_bit 16 s \<noteq> 0"
  then have "0 < unat s div 65536" using unat_halves(1) [of s] by (metis gr0I unsigned_eq_0_iff)
  moreover have "unat s = unat s div 65536 * 65536 + unat s mod 65536" by simp
  ultimately have "unat ((s AND 0xffff) + drop_bit 16 s) < unat s"
    by (simp only: unat_fold_step)
  then show "((s AND 0xffff) + drop_bit 16 s, s) \<in> measure unat" by simp
qed simp

declare fold_carry.simps [simp del]

definition icmp_checksum :: "u8 list \<Rightarrow> u16" where
  "icmp_checksum data = NOT (ucast (fold_carry (sum_words data 0)))"

section \<open>The echo request and the reply\<close>

definition high_byte :: "u16 \<Rightarrow> u8" where
  "high_byte x = ucast (drop_bit 8 x)"

definition low_byte :: "u16 \<Rightarrow> u8" where
  "low_byte x = ucast x"

definition ICMP_ECHO :: u8 where
  "ICMP_ECHO = 8"

definition ICMP_ECHOREPLY :: u8 where
  "ICMP_ECHOREPLY = 0"

definition IPPROTO_ICMP :: u8 where
  "IPPROTO_ICMP = 1"

text \<open>The 64 bytes of the packet before its checksum is filled in; the identifiers are stored with
  \<open>htons\<close>, so their high byte comes first.\<close>

definition echo_blank :: "u16 \<Rightarrow> u16 \<Rightarrow> u8 list" where
  "echo_blank ident sequence =
     [ICMP_ECHO, 0, 0, 0, high_byte ident, low_byte ident, high_byte sequence, low_byte sequence]
     @ replicate 56 0"

text \<open>\<open>hdr->checksum = icmpChecksum(packet, sizeof(packet))\<close> is a store of a host-order word.\<close>

definition echo_request :: "u16 \<Rightarrow> u16 \<Rightarrow> u8 list" where
  "echo_request ident sequence =
     (let packet = echo_blank ident sequence; c = icmp_checksum packet
      in packet[2 := low_byte c, 3 := high_byte c])"

definition byte_at :: "u8 list \<Rightarrow> nat \<Rightarrow> u8 option" where
  "byte_at packet i = (if i < length packet then Some (packet ! i) else None)"

definition load_u32 :: "u8 list \<Rightarrow> nat \<Rightarrow> u32 option" where
  "load_u32 packet i = do {
     a \<leftarrow> byte_at packet i; b \<leftarrow> byte_at packet (i + 1);
     c \<leftarrow> byte_at packet (i + 2); d \<leftarrow> byte_at packet (i + 3);
     Some (ucast a OR push_bit 8 (ucast b) OR push_bit 16 (ucast c) OR push_bit 24 (ucast d)) }"

text \<open>\<open>ntohs\<close> of a 16-bit field.\<close>

definition load_net16 :: "u8 list \<Rightarrow> nat \<Rightarrow> u16 option" where
  "load_net16 packet i = do {
     a \<leftarrow> byte_at packet i; b \<leftarrow> byte_at packet (i + 1);
     Some (push_bit 8 (ucast a) OR ucast b) }"

definition kIpHeaderSize :: nat where
  "kIpHeaderSize = 20"

definition kIcmpHeaderSize :: nat where
  "kIcmpHeaderSize = 8"

text \<open>The argument \<open>len\<close> is the length of the packet; a null packet is \<^term>\<open>None\<close>.\<close>

definition parse_icmp_echo_reply :: "u8 list option \<Rightarrow> u32 \<Rightarrow> u16 \<Rightarrow> u16 \<Rightarrow> bool option" where
  "parse_icmp_echo_reply packet expectedSrcNbo expectedId expectedSeq =
     (case packet of
        None \<Rightarrow> Some False
      | Some bytes \<Rightarrow>
          if length bytes < kIpHeaderSize then Some False
          else do {
            b0 \<leftarrow> byte_at bytes 0;
            let ipHeaderLen = unat (b0 AND 0x0f) * 4;
            if drop_bit 4 b0 \<noteq> 4 \<or> ipHeaderLen < kIpHeaderSize \<or>
               length bytes < ipHeaderLen + kIcmpHeaderSize
            then Some False
            else do {
              protocol \<leftarrow> byte_at bytes 9;
              saddr \<leftarrow> load_u32 bytes 12;
              if protocol \<noteq> IPPROTO_ICMP \<or> saddr \<noteq> expectedSrcNbo then Some False
              else do {
                type \<leftarrow> byte_at bytes ipHeaderLen;
                icode \<leftarrow> byte_at bytes (ipHeaderLen + 1);
                if type \<noteq> ICMP_ECHOREPLY \<or> icode \<noteq> 0 then Some False
                else do {
                  ident \<leftarrow> load_net16 bytes (ipHeaderLen + 4);
                  if ident \<noteq> expectedId then Some False
                  else do {
                    sequence \<leftarrow> load_net16 bytes (ipHeaderLen + 6);
                    Some (sequence = expectedSeq) }}}}})"

section \<open>Folding the carries\<close>

lemma fold_carry_spec:
  "unat (fold_carry s) < 65536 \<and> unat (fold_carry s) mod 65535 = unat s mod 65535 \<and>
   (fold_carry s = 0 \<longleftrightarrow> s = 0)"
proof (induction s rule: fold_carry.induct)
  case (1 s)
  let ?t = "(s AND 0xffff) + drop_bit 16 s"
  show ?case
  proof (cases "drop_bit 16 s = 0")
    case True
    then have "unat s div 65536 = 0" using unat_halves(1) [of s] by simp
    then have "unat s < 65536" by (simp add: div_eq_0_iff)
    with True show ?thesis by (simp add: fold_carry.simps)
  next
    case False
    have "unat s = unat s div 65536 * 65536 + unat s mod 65536" by simp
    then have split: "unat s = unat ?t + unat s div 65536 * 65535"
      by (simp only: unat_fold_step)
    then have "unat ?t mod 65535 = unat s mod 65535" by (metis mod_mult_self1)
    moreover have "?t = 0 \<longleftrightarrow> s = 0"
    proof
      assume "?t = 0"
      then have "unat s mod 65536 + unat s div 65536 = 0" using unat_fold_step [of s] by simp
      then have "unat s = 0" using split \<open>?t = 0\<close> by simp
      then show "s = 0" by (simp add: unsigned_eq_0_iff)
    qed simp
    ultimately show ?thesis using 1 False by (simp add: fold_carry.simps [of s])
  qed
qed

text \<open>The sum in the naturals; below 131072 bytes it does not wrap.\<close>

fun word_total :: "u8 list \<Rightarrow> nat" where
  "word_total (a # b # bs) = unat a + 256 * unat b + word_total bs"
| "word_total [a] = unat a"
| "word_total [] = 0"

lemma word_total_bound: "2 * word_total bs \<le> 65535 * (length bs + 1)"
proof (induction bs rule: word_total.induct)
  case (1 a b bs)
  have "unat a < 256" "unat b < 256" using unsigned_less [of a] unsigned_less [of b] by simp_all
  with 1 show ?case by simp
next
  case (2 a)
  have "unat a < 256" using unsigned_less [of a] by simp
  then show ?case by simp
qed simp

lemma unat_sum_words:
  "unat s + word_total bs < 2 ^ 32 \<Longrightarrow> unat (sum_words bs s) = unat s + word_total bs"
proof (induction bs s rule: sum_words.induct)
  case (1 a b bs s)
  have ab: "unat a < 256" "unat b < 256" using unsigned_less [of a] unsigned_less [of b] by simp_all
  then have w: "unat (ucast a + 256 * ucast b :: u32) = unat a + 256 * unat b"
    by (simp add: unat_word_ariths)
  with 1 have "unat (s + (ucast a + 256 * ucast b)) = unat s + (unat a + 256 * unat b)"
    by (simp add: unat_word_ariths)
  with 1 show ?case by simp
next
  case (2 a s)
  then show ?case by (simp add: unat_word_ariths)
next
  case (3 s)
  then show ?case by simp
qed

section \<open>The properties\<close>

lemma word_total_set:
  assumes "length bs < 131072"
  shows "unat (sum_words bs 0) = word_total bs"
proof -
  have "word_total bs < 2 ^ 32" using word_total_bound [of bs] assms by simp
  then show ?thesis using unat_sum_words [of 0 bs] by simp
qed

lemma word_total_field:
  "word_total (a # b # 0 # 0 # bs) + unat x + 256 * unat y = word_total (a # b # x # y # bs)"
  by simp

lemma unat_bytes16:
  fixes c :: u16
  shows "unat (low_byte c) + 256 * unat (high_byte c) = unat c"
proof -
  have "unat (low_byte c) = unat c mod 256"
    by (simp add: low_byte_def unsigned_ucast_eq take_bit_eq_mod)
  moreover have "unat c < 65536" using unsigned_less [of c] by simp
  then have "unat (high_byte c) = unat c div 256"
    by (simp add: high_byte_def unsigned_ucast_eq take_bit_eq_mod drop_bit_eq_div unat_div
        div_less_iff_less_mult)
  ultimately show ?thesis by simp
qed

lemma unat_checksum: "unat (icmp_checksum bs) = 65535 - unat (fold_carry (sum_words bs 0))"
proof -
  let ?f = "fold_carry (sum_words bs 0)"
  have "unat ?f < 65536" using fold_carry_spec by blast
  then have "unat (ucast ?f :: u16) = unat ?f" by (simp add: unsigned_ucast_eq take_bit_eq_mod)
  moreover have "unat (NOT w) = 65535 - unat w" for w :: u16
  proof -
    have "NOT w = - 1 - w" by (simp add: not_eq_complement)
    then show ?thesis using unat_sub [of w "- 1"] by (simp add: unsigned_minus_1_eq_mask mask_eq_exp_minus_1)
  qed
  ultimately show ?thesis by (simp add: icmp_checksum_def)
qed

lemma checksum_arith:
  fixes f g n :: nat
  assumes "f < 65536" and "f mod 65535 = n mod 65535" and "f = 0 \<longleftrightarrow> n = 0"
    and "g < 65536" and "g mod 65535 = (n + (65535 - f)) mod 65535" and "g = 0 \<longleftrightarrow> n + (65535 - f) = 0"
  shows "g = 65535"
proof -
  have "(n + (65535 - f)) mod 65535 = (f + (65535 - f)) mod 65535"
    using assms(2) by (metis mod_add_left_eq)
  with assms(1,5) have "g mod 65535 = 0" by simp
  then obtain k where k: "g = 65535 * k" by (auto simp: mod_eq_0_iff_dvd)
  moreover have "g \<noteq> 0" using assms(1,3,6) by auto
  ultimately have "0 < k" and "k < 2" using assms(4) by simp_all
  then have "k = 1" by linarith
  with k show ?thesis by simp
qed

text \<open>A packet whose checksum field (bytes 2 and 3) holds the checksum computed over the packet
  with that field zero verifies: the checksum of the whole is 0.  The length is arbitrary, even or
  odd, below the \<open>2^17\<close> bytes at which the 32-bit sum could wrap.\<close>

theorem icmp_checksum_verifies:
  assumes "c = icmp_checksum (a # b # 0 # 0 # bs)" and "length bs + 4 < 131072"
  shows "icmp_checksum (a # b # low_byte c # high_byte c # bs) = 0"
proof -
  let ?blank = "a # b # 0 # 0 # bs" and ?full = "a # b # low_byte c # high_byte c # bs"
  let ?f = "unat (fold_carry (sum_words ?blank 0))"
  let ?g = "unat (fold_carry (sum_words ?full 0))"
  have f: "?f < 65536" "?f mod 65535 = word_total ?blank mod 65535" "?f = 0 \<longleftrightarrow> word_total ?blank = 0"
    using fold_carry_spec [of "sum_words ?blank 0"] word_total_set [of ?blank] assms(2)
    by (auto simp: unsigned_eq_0_iff simp del: word_total.simps sum_words.simps)
  have g: "?g < 65536" "?g mod 65535 = word_total ?full mod 65535" "?g = 0 \<longleftrightarrow> word_total ?full = 0"
    using fold_carry_spec [of "sum_words ?full 0"] word_total_set [of ?full] assms(2)
    by (auto simp: unsigned_eq_0_iff simp del: word_total.simps sum_words.simps)
  have "unat c = 65535 - ?f" using unat_checksum assms(1) by (simp only:)
  then have total: "word_total ?full = word_total ?blank + (65535 - ?f)"
    using word_total_field [of a b bs "low_byte c" "high_byte c"] unat_bytes16 [of c] by linarith
  have "?g = 65535" using f g(1) g(2,3) [unfolded total] by (rule checksum_arith)
  then have "unat (icmp_checksum ?full) = 0" by (simp only: unat_checksum)
  then show ?thesis by (simp only: unsigned_eq_0_iff)
qed

theorem icmp_checksum_verifies_witness:
  "icmp_checksum (8 # 0 # low_byte (icmp_checksum [8, 0, 0, 0, 7]) #
     high_byte (icmp_checksum [8, 0, 0, 0, 7]) # [7]) = 0"
  by (rule icmp_checksum_verifies [OF HOL.refl]) simp

text \<open>The IP header of a reply, of any length the header field can express.\<close>

definition ip_header :: "u8 list \<Rightarrow> u32 \<Rightarrow> bool" where
  "ip_header h saddr \<longleftrightarrow>
     20 \<le> length h \<and> drop_bit 4 (h ! 0) = 4 \<and> unat (h ! 0 AND 0x0f) * 4 = length h \<and>
     h ! 9 = IPPROTO_ICMP \<and> load_u32 h 12 = Some saddr"

lemma load_append:
  "i < length h \<Longrightarrow> byte_at (h @ t) i = byte_at h i"
  "byte_at (h @ t) (length h + i) = byte_at t i"
  by (simp_all add: byte_at_def nth_append)

text \<open>The reply parser never reads outside of the packet: it returns a verdict for every packet
  of every length, whatever header length the packet claims.\<close>

theorem parse_icmp_echo_reply_reads_in_bounds:
  "parse_icmp_echo_reply packet src ident sequence \<noteq> None"
  by (auto simp: parse_icmp_echo_reply_def byte_at_def load_u32_def load_net16_def Let_def
      kIpHeaderSize_def kIcmpHeaderSize_def split: option.splits if_splits)

text \<open>The echo of a probe is recognised: a packet made of a well-formed IP header from the probed
  address, of any length, and the ICMP part of the request with its type changed to a reply and any
  checksum and payload is accepted, and it is accepted for no other identifier or sequence number.\<close>

theorem echo_reply_recognised:
  assumes "ip_header h src"
  shows "parse_icmp_echo_reply
      (Some (h @ [ICMP_ECHOREPLY, 0, x, y, high_byte ident, low_byte ident, high_byte sequence,
        low_byte sequence] @ payload)) src ident' sequence' =
    Some (ident' = ident \<and> sequence' = sequence)"
proof -
  have net: "push_bit 8 (ucast (high_byte w)) OR ucast (low_byte w) = w" for w :: u16
    by (rule bit_word_eqI) (auto simp: high_byte_def low_byte_def bit_simps)
  let ?t = "[ICMP_ECHOREPLY, 0, x, y, high_byte ident, low_byte ident, high_byte sequence,
        low_byte sequence] @ payload"
  have h: "20 \<le> length h" "drop_bit 4 (h ! 0) = 4" "unat (h ! 0 AND 0x0f) * 4 = length h"
    "h ! 9 = IPPROTO_ICMP" "load_u32 h 12 = Some src"
    using assms unfolding ip_header_def by blast+
  then have ne: "h \<noteq> []" by auto
  have "load_u32 (h @ ?t) 12 = Some src" using h(1,5) by (simp add: load_u32_def load_append(1))
  moreover have "byte_at (h @ ?t) 9 = Some IPPROTO_ICMP" "byte_at (h @ ?t) 0 = Some (h ! 0)"
    using h ne by (simp_all add: byte_at_def nth_append)
  moreover have "byte_at (h @ ?t) (length h) = Some ICMP_ECHOREPLY"
    "byte_at (h @ ?t) (length h + 1) = Some 0"
    using load_append(2) [of h ?t 0] load_append(2) [of h ?t 1] by (simp_all add: byte_at_def)
  moreover have "load_net16 (h @ ?t) (length h + 4) = Some ident"
    "load_net16 (h @ ?t) (length h + 6) = Some sequence"
    by (simp_all only: load_net16_def add.assoc load_append(2)) (simp_all add: byte_at_def net)
  ultimately show ?thesis using h(1-3)
    by (auto simp: parse_icmp_echo_reply_def kIpHeaderSize_def kIcmpHeaderSize_def)
qed

definition sample_header :: "u8 list" where
  "sample_header = [0x45, 0, 0, 84, 0, 0, 0, 0, 64, 1, 0, 0, 10, 0, 0, 2, 10, 0, 0, 1]"

theorem echo_reply_recognised_witness:
  "parse_icmp_echo_reply
      (Some (sample_header @ [ICMP_ECHOREPLY, 0, 1, 2, high_byte 77, low_byte 77, high_byte 5,
        low_byte 5] @ [9])) 0x0200000a 77 6 = Some False"
proof -
  have "ip_header sample_header 0x0200000a"
    by (simp add: ip_header_def sample_header_def load_u32_def byte_at_def IPPROTO_ICMP_def)
  from echo_reply_recognised [OF this, of 1 2 77 5 "[9]" 77 6] show ?thesis by simp
qed

end
