(* ===== verification/Requests.thy ===== *)
theory Requests
  imports Prelude
begin

text \<open>
  Requests and completion identifiers: \<open>request.{h,cc}\<close> and \<open>cq_error.{h,cc}\<close> of the plugin.
  A work request carries a 64-bit identifier that packs a magic number (bits 48 to 63), the
  endpoint's generation (bits 16 to 47) and the request's index or the probe's kind (bits 0 to
  15).  The lemmas are the round trips of the packing, the separation of user and internal
  identifiers, and the decision table of completion errors.
\<close>

section \<open>Requests\<close>

datatype request_kind = ReqSend | ReqRecv | ReqFlush

datatype request_state = ReqFree | ReqPosted | ReqNeedsQuery | ReqNeedsReplay | ReqDone | ReqFailed

text \<open>\<open>owner\<close> is the address of the communicator, given by where the request is stored.\<close>

record request =
  rq_index :: int
  rq_kind :: request_kind
  rq_state :: request_state
  rq_seq :: u64
  rq_slotIndex :: int
  rq_planeId :: int
  rq_generation :: u32
  rq_data :: u64
  rq_size :: u64
  rq_tag :: int
  rq_mhandle :: ptr
  rq_completedSize :: int
  rq_replayed :: bool

definition default_request :: request where
  "default_request =
     \<lparr>rq_index = -1, rq_kind = ReqSend, rq_state = ReqFree, rq_seq = 0, rq_slotIndex = -1,
      rq_planeId = -1, rq_generation = 0, rq_data = 0, rq_size = 0, rq_tag = 0, rq_mhandle = null,
      rq_completedSize = 0, rq_replayed = False\<rparr>"

fun request_state_name :: "request_state \<Rightarrow> string" where
  "request_state_name ReqFree = ''FREE''"
| "request_state_name ReqPosted = ''POSTED''"
| "request_state_name ReqNeedsQuery = ''NEEDS_QUERY''"
| "request_state_name ReqNeedsReplay = ''NEEDS_REPLAY''"
| "request_state_name ReqDone = ''DONE''"
| "request_state_name ReqFailed = ''FAILED''"

text \<open>The states in which a request still waits for its data.\<close>

definition outstanding :: "request \<Rightarrow> bool" where
  "outstanding req \<longleftrightarrow>
     rq_state req = ReqPosted \<or> rq_state req = ReqNeedsQuery \<or> rq_state req = ReqNeedsReplay"

section \<open>Identifiers of work requests\<close>

definition kWrMagic :: u64 where
  "kWrMagic = 0xd1f0000000000000"

definition kInternalWrMagic :: u64 where
  "kInternalWrMagic = 0xd1f1000000000000"

definition RecoverySend :: u64 where
  "RecoverySend = 1"

definition RecoveryRecv :: u64 where
  "RecoveryRecv = 2"

text \<open>\<open>requestIndex & 0xffff\<close> on a 32-bit \<open>int\<close>, then widened.\<close>

definition make_wr_id :: "int \<Rightarrow> u32 \<Rightarrow> u64" where
  "make_wr_id requestIndex generation =
     kWrMagic OR push_bit 16 (ucast generation) OR ucast ((word_of_int requestIndex :: u32) AND 0xffff)"

definition wr_request_index :: "u64 \<Rightarrow> int" where
  "wr_request_index wrId =
     (if wrId AND 0xffff000000000000 \<noteq> kWrMagic then -1 else uint (wrId AND 0xffff))"

definition wr_generation :: "u64 \<Rightarrow> u32" where
  "wr_generation wrId =
     (if wrId AND 0xffff000000000000 \<noteq> kWrMagic then 0
      else ucast (drop_bit 16 wrId AND 0xffffffff))"

definition make_internal_wr_id :: "u64 \<Rightarrow> u32 \<Rightarrow> u64" where
  "make_internal_wr_id kind generation =
     kInternalWrMagic OR push_bit 16 (ucast generation) OR kind"

definition is_internal_wr_id :: "u64 \<Rightarrow> bool" where
  "is_internal_wr_id wrId \<longleftrightarrow> wrId AND 0xffff000000000000 = kInternalWrMagic"

definition internal_wr_kind :: "u64 \<Rightarrow> u64" where
  "internal_wr_kind wrId = wrId AND 0xffff"

definition internal_wr_generation :: "u64 \<Rightarrow> u32" where
  "internal_wr_generation wrId =
     (if \<not> is_internal_wr_id wrId then 0 else ucast (drop_bit 16 wrId AND 0xffffffff))"

section \<open>Completion errors\<close>

text \<open>The completion statuses of libibverbs that the plugin names, and all the others.\<close>

datatype wc_status =
    IBV_WC_SUCCESS
  | IBV_WC_RETRY_EXC_ERR
  | IBV_WC_RNR_RETRY_EXC_ERR
  | IBV_WC_WR_FLUSH_ERR
  | IBV_WC_OTHER nat

datatype cq_error_action = CqSuccess | StaleNonFatal | TransportRecoverable | RequestFatal

definition classify_cq_status :: "wc_status \<Rightarrow> bool \<Rightarrow> cq_error_action" where
  "classify_cq_status status currentActiveQp =
     (if status = IBV_WC_SUCCESS then CqSuccess
      else if \<not> currentActiveQp then StaleNonFatal
      else case status of
             IBV_WC_RETRY_EXC_ERR \<Rightarrow> TransportRecoverable
           | IBV_WC_RNR_RETRY_EXC_ERR \<Rightarrow> TransportRecoverable
           | IBV_WC_WR_FLUSH_ERR \<Rightarrow> TransportRecoverable
           | _ \<Rightarrow> RequestFatal)"

fun cq_error_action_name :: "cq_error_action \<Rightarrow> string" where
  "cq_error_action_name CqSuccess = ''SUCCESS''"
| "cq_error_action_name StaleNonFatal = ''STALE_NON_FATAL''"
| "cq_error_action_name TransportRecoverable = ''TRANSPORT_RECOVERABLE''"
| "cq_error_action_name RequestFatal = ''REQUEST_FATAL''"

section \<open>The packing and its inverse\<close>

lemma masks:
  "(0xffff :: u64) = mask 16" "(0xffffffff :: u64) = mask 32"
  "(0xffff000000000000 :: u64) = push_bit 48 (mask 16)" "(0xffff :: u32) = mask 16"
  by (simp_all add: mask_eq_exp_minus_1 push_bit_eq_mult)

text \<open>The three fields of an identifier, for any magic number in the top 16 bits.\<close>

lemma pack_fields:
  fixes gen :: u32 and low magic :: u64
  assumes "low AND 0xffff = low" and "magic AND 0xffff000000000000 = magic"
  shows "(magic OR push_bit 16 (ucast gen) OR low) AND 0xffff000000000000 = magic"
    and "(magic OR push_bit 16 (ucast gen) OR low) AND 0xffff = low"
    and "ucast (drop_bit 16 (magic OR push_bit 16 (ucast gen) OR low) AND 0xffffffff) = gen"
proof -
  have low: "bit low n \<Longrightarrow> n < 16" for n
    using arg_cong [OF assms(1), where f = "\<lambda>w. bit w n"] by (auto simp: masks bit_simps)
  have magic: "bit magic n \<Longrightarrow> 48 \<le> n \<and> n < 64" for n
    using arg_cong [OF assms(2), where f = "\<lambda>w. bit w n"] by (auto simp: masks bit_simps)
  have gen: "bit gen n \<Longrightarrow> n < 32" for n
    using bit_imp_le_length [of gen n] by simp
  show "(magic OR push_bit 16 (ucast gen) OR low) AND 0xffff000000000000 = magic"
    by (rule bit_word_eqI) (auto simp: masks bit_simps dest: low magic gen)
  show "(magic OR push_bit 16 (ucast gen) OR low) AND 0xffff = low"
    by (rule bit_word_eqI) (auto simp: masks bit_simps dest: low magic)
  show "ucast (drop_bit 16 (magic OR push_bit 16 (ucast gen) OR low) AND 0xffffffff) = gen"
    by (rule bit_word_eqI) (auto simp: masks bit_simps dest: low magic)
qed

lemma index_field: "(ucast ((w :: u32) AND 0xffff) :: u64) AND 0xffff = ucast (w AND 0xffff)"
  by (rule bit_word_eqI) (auto simp: masks bit_simps)

lemma magics [simp]:
  "kWrMagic AND 0xffff000000000000 = kWrMagic"
  "kInternalWrMagic AND 0xffff000000000000 = kInternalWrMagic"
  "kWrMagic \<noteq> kInternalWrMagic"
  by (simp_all add: kWrMagic_def kInternalWrMagic_def)

lemma uint_index_field:
  "uint (ucast ((word_of_int i :: u32) AND 0xffff) :: u64) = i mod 65536"
proof -
  have "(word_of_int i :: u32) AND 0xffff = take_bit 16 (word_of_int i)"
    by (simp only: masks(4) take_bit_eq_mask)
  then have "uint (ucast ((word_of_int i :: u32) AND 0xffff) :: u64) = take_bit 16 i"
    by (simp only: unsigned_ucast_eq unsigned_take_bit_eq take_bit_take_bit uint_word_of_int_eq) simp
  then show ?thesis by (simp add: take_bit_eq_mod)
qed

lemmas wr_fields = pack_fields [OF index_field magics(1)]

lemma make_wr_id_fields:
  "make_wr_id i gen AND 0xffff000000000000 = kWrMagic"
  "make_wr_id i gen AND 0xffff = ucast ((word_of_int i :: u32) AND 0xffff)"
  "ucast (drop_bit 16 (make_wr_id i gen) AND 0xffffffff) = gen"
  unfolding make_wr_id_def by (rule wr_fields)+

lemma wr_request_index_make [simp]: "wr_request_index (make_wr_id i gen) = i mod 65536"
  by (simp only: wr_request_index_def make_wr_id_fields uint_index_field) simp

lemma wr_generation_make [simp]: "wr_generation (make_wr_id i gen) = gen"
  by (simp only: wr_generation_def make_wr_id_fields) simp

lemma is_internal_make [simp]: "\<not> is_internal_wr_id (make_wr_id i gen)"
  by (simp only: is_internal_wr_id_def make_wr_id_fields magics not_False_eq_True)

lemma make_internal_fields:
  assumes "kind AND 0xffff = kind"
  shows "make_internal_wr_id kind gen AND 0xffff000000000000 = kInternalWrMagic"
    and "make_internal_wr_id kind gen AND 0xffff = kind"
    and "ucast (drop_bit 16 (make_internal_wr_id kind gen) AND 0xffffffff) = gen"
  unfolding make_internal_wr_id_def by (rule pack_fields [OF assms magics(2)])+

lemma recovery_kinds [simp]:
  "RecoverySend AND 0xffff = RecoverySend" "RecoveryRecv AND 0xffff = RecoveryRecv"
  "RecoverySend \<noteq> RecoveryRecv"
  by (simp_all add: RecoverySend_def RecoveryRecv_def)

lemma internal_make [simp]:
  assumes "kind AND 0xffff = kind"
  shows "is_internal_wr_id (make_internal_wr_id kind gen)"
    and "internal_wr_kind (make_internal_wr_id kind gen) = kind"
    and "internal_wr_generation (make_internal_wr_id kind gen) = gen"
    and "wr_request_index (make_internal_wr_id kind gen) = -1"
  using make_internal_fields [OF assms, of gen] magics(3) [symmetric]
  by (simp_all add: is_internal_wr_id_def internal_wr_kind_def internal_wr_generation_def
      wr_request_index_def)

text \<open>C26. The identifier of a request and the identifier of a recovery probe give back what was
  packed into them, the index modulo \<open>2^16\<close>, and neither is ever taken for the other; so the 32
  request slots of a communicator have 32 different identifiers per generation.\<close>

theorem wr_id_roundtrip:
  "wr_request_index (make_wr_id i gen) = i mod 65536 \<and> wr_generation (make_wr_id i gen) = gen \<and>
   \<not> is_internal_wr_id (make_wr_id i gen) \<and>
   internal_wr_kind (make_internal_wr_id RecoverySend gen) = RecoverySend \<and>
   internal_wr_kind (make_internal_wr_id RecoveryRecv gen) = RecoveryRecv \<and>
   internal_wr_generation (make_internal_wr_id RecoverySend gen) = gen \<and>
   internal_wr_generation (make_internal_wr_id RecoveryRecv gen) = gen \<and>
   wr_request_index (make_internal_wr_id RecoverySend gen) = -1 \<and>
   wr_request_index (make_internal_wr_id RecoveryRecv gen) = -1"
  by simp

text \<open>The decision table of completion statuses: a success is a success on any queue pair; an
  error on a queue pair that is not the current active one is never fatal and never marks a plane;
  on the current one exactly the two retry-exceeded errors and the flush error are recoverable, and
  every other status is fatal to the communicator.\<close>

theorem classify_cq_status_table:
  "classify_cq_status status current =
     (if status = IBV_WC_SUCCESS then CqSuccess
      else if \<not> current then StaleNonFatal
      else if status \<in> {IBV_WC_RETRY_EXC_ERR, IBV_WC_RNR_RETRY_EXC_ERR, IBV_WC_WR_FLUSH_ERR}
        then TransportRecoverable
      else RequestFatal)"
  by (cases status) (simp_all add: classify_cq_status_def)

lemma classify_simps [simp]:
  "classify_cq_status st c = CqSuccess \<longleftrightarrow> st = IBV_WC_SUCCESS"
  "classify_cq_status IBV_WC_SUCCESS c = CqSuccess"
  "st \<noteq> IBV_WC_SUCCESS \<Longrightarrow> classify_cq_status st False = StaleNonFatal"
  by (cases st; simp add: classify_cq_status_def)+

end
