(* ===== verification/Environment.thy ===== *)
theory Environment
  imports PlaneState Requests
begin

text \<open>
  The code the plugin calls and that is not part of the repository: the socket and clock calls of
  the operating system and libibverbs.  None of it is defined here.  It is a parameter: a record of
  functions over an arbitrary state \<open>'w\<close> of the outside world, passed to every operation that
  calls one of them, so a theorem without a hypothesis on the record holds for every behaviour of
  the network, the adapters and the clock.  Scripted worlds instantiate it in the witnesses.

  Two fields are not calls.  \<open>env_fuel\<close> bounds the iterations of loops the source does not bound.
  \<open>interference\<close> gives the calls on the shared plane table that other threads have completed since
  the communicator last looked at it; each access to the table takes them in first, which is every
  interleaving the table's mutex permits.
\<close>

section \<open>Results of system calls\<close>

datatype errno = EINTR | EAGAIN | EWOULDBLOCK | EOTHER

text \<open>\<open>send\<close>: the number of bytes taken (0 is possible) or an error.\<close>

datatype send_result = Sent nat | SendError errno

text \<open>\<open>recv\<close>: data, orderly shutdown, or an error.\<close>

datatype recv_result = Received "u8 list" | EndOfStream | RecvError errno

text \<open>\<open>poll\<close> on one descriptor: timeout, error, or ready; the flag is \<open>revents & POLLNVAL\<close>.\<close>

datatype poll_result = PollTimeout | PollError errno | PollReady bool

datatype accept_result = Accepted int | AcceptError errno

datatype socket_kind = TcpSocket | UdpSocket | RawIcmpSocket

text \<open>An entry of \<open>getifaddrs\<close>: its address when it has one of family \<open>AF_INET\<close>, and the flag
  \<open>IFF_LOOPBACK\<close>.\<close>

record interface =
  if_inet :: "u32 option"
  if_loopback :: bool

record 'w sys_env =
  env_fuel :: nat
  sys_send :: "int \<Rightarrow> u8 list \<Rightarrow> 'w \<Rightarrow> send_result \<times> 'w"
  sys_recv :: "int \<Rightarrow> nat \<Rightarrow> 'w \<Rightarrow> recv_result \<times> 'w"
  sys_poll :: "int \<Rightarrow> int \<Rightarrow> 'w \<Rightarrow> poll_result \<times> 'w"
  sys_close :: "int \<Rightarrow> 'w \<Rightarrow> 'w"
  sys_getfl :: "int \<Rightarrow> 'w \<Rightarrow> u32 option \<times> 'w"
  sys_setfl :: "int \<Rightarrow> u32 \<Rightarrow> 'w \<Rightarrow> bool \<times> 'w"
  sys_socket :: "socket_kind \<Rightarrow> 'w \<Rightarrow> int \<times> 'w"
  sys_connect :: "int \<Rightarrow> u32 \<Rightarrow> u16 \<Rightarrow> 'w \<Rightarrow> bool \<times> 'w"
  sys_bind :: "int \<Rightarrow> u16 \<Rightarrow> 'w \<Rightarrow> bool \<times> 'w"
  sys_listen :: "int \<Rightarrow> nat \<Rightarrow> 'w \<Rightarrow> bool \<times> 'w"
  sys_getsockname :: "int \<Rightarrow> 'w \<Rightarrow> u16 option \<times> 'w"
  sys_accept :: "int \<Rightarrow> 'w \<Rightarrow> accept_result \<times> 'w"
  sys_bind_device :: "int \<Rightarrow> string \<Rightarrow> 'w \<Rightarrow> bool \<times> 'w"
  sys_sendto :: "int \<Rightarrow> u32 \<Rightarrow> u8 list \<Rightarrow> 'w \<Rightarrow> bool \<times> 'w"
  sys_getifaddrs :: "'w \<Rightarrow> interface list option \<times> 'w"
  sys_getpid :: "'w \<Rightarrow> u32 \<times> 'w"
  inet_ntop :: "u32 \<Rightarrow> string option"
  inet_pton :: "string \<Rightarrow> u32 option"
  clock_ms :: "'w \<Rightarrow> nat \<times> 'w"
  clock_usec :: "'w \<Rightarrow> u64 \<times> 'w"
  sleep_ms :: "nat \<Rightarrow> 'w \<Rightarrow> 'w"
  interference :: "'w \<Rightarrow> (u64 \<times> plane_op) list \<times> 'w"
  stop_requested :: "'w \<Rightarrow> bool \<times> 'w"

section \<open>libibverbs\<close>

datatype port_state = IBV_PORT_ACTIVE | IBV_PORT_OTHER nat

record port_attr =
  pa_state :: port_state
  pa_lid :: u16
  pa_active_mtu :: u32
  pa_link_layer :: u8

definition IBV_LINK_LAYER_ETHERNET :: u32 where
  "IBV_LINK_LAYER_ETHERNET = 2"

text \<open>The attributes of the three transitions \<open>ibv_modify_qp\<close> is used for.\<close>

record init_attr =
  ia_pkey_index :: u16
  ia_port_num :: u8
  ia_access :: u32

text \<open>\<open>is_global\<close> with its destination and source, or the local identifier.\<close>

datatype address_handle = GlobalRoute "u8 list" u8 u8 | LocalRoute u16

record rtr_attr =
  ra_path_mtu :: u32
  ra_dest_qp_num :: u32
  ra_rq_psn :: u32
  ra_max_dest_rd_atomic :: u8
  ra_min_rnr_timer :: u8
  ra_port_num :: u8
  ra_address :: address_handle

record rts_attr =
  ta_timeout :: u8
  ta_retry_cnt :: u8
  ta_rnr_retry :: u8
  ta_sq_psn :: u32
  ta_max_rd_atomic :: u8

datatype qp_transition = ToInit init_attr | ToRtr rtr_attr | ToRts rts_attr

text \<open>A scatter/gather entry: address, 32-bit length, key.  An empty work request has none.\<close>

record sge =
  sg_addr :: u64
  sg_length :: u32
  sg_lkey :: u32

record work_completion =
  wc_wr_id :: u64
  wc_status :: wc_status
  wc_byte_len :: u32

text \<open>\<open>ibv_poll_cq\<close> returns a negative number (\<open>None\<close>) or that many completions.\<close>

record 'w env = "'w sys_env" +
  ibv_get_device_list :: "'w \<Rightarrow> ptr list option \<times> 'w"
  ibv_free_device_list :: "'w \<Rightarrow> 'w"
  ibv_get_device_name :: "ptr \<Rightarrow> string"
  ibv_open_device :: "ptr \<Rightarrow> 'w \<Rightarrow> ptr \<times> 'w"
  ibv_close_device :: "ptr \<Rightarrow> 'w \<Rightarrow> 'w"
  ibv_query_device :: "ptr \<Rightarrow> 'w \<Rightarrow> nat option \<times> 'w"
  ibv_query_port :: "ptr \<Rightarrow> u8 \<Rightarrow> 'w \<Rightarrow> port_attr option \<times> 'w"
  ibv_query_gid :: "ptr \<Rightarrow> u8 \<Rightarrow> int \<Rightarrow> 'w \<Rightarrow> u8 list option \<times> 'w"
  ibv_alloc_pd :: "ptr \<Rightarrow> 'w \<Rightarrow> ptr \<times> 'w"
  ibv_dealloc_pd :: "ptr \<Rightarrow> 'w \<Rightarrow> 'w"
  ibv_reg_mr :: "ptr \<Rightarrow> u64 \<Rightarrow> u64 \<Rightarrow> u32 \<Rightarrow> 'w \<Rightarrow> ptr \<times> 'w"
  ibv_dereg_mr :: "ptr \<Rightarrow> 'w \<Rightarrow> 'w"
  ibv_mr_lkey :: "ptr \<Rightarrow> 'w \<Rightarrow> u32"
  ibv_create_cq :: "ptr \<Rightarrow> nat \<Rightarrow> 'w \<Rightarrow> ptr \<times> 'w"
  ibv_destroy_cq :: "ptr \<Rightarrow> 'w \<Rightarrow> 'w"
  ibv_create_qp :: "ptr \<Rightarrow> ptr \<Rightarrow> nat \<Rightarrow> 'w \<Rightarrow> ptr \<times> 'w"
  ibv_destroy_qp :: "ptr \<Rightarrow> 'w \<Rightarrow> 'w"
  ibv_qp_num :: "ptr \<Rightarrow> 'w \<Rightarrow> u32"
  ibv_modify_qp :: "ptr \<Rightarrow> qp_transition \<Rightarrow> 'w \<Rightarrow> bool \<times> 'w"
  ibv_post_send :: "ptr \<Rightarrow> u64 \<Rightarrow> sge option \<Rightarrow> 'w \<Rightarrow> bool \<times> 'w"
  ibv_post_recv :: "ptr \<Rightarrow> u64 \<Rightarrow> sge option \<Rightarrow> 'w \<Rightarrow> bool \<times> 'w"
  ibv_poll_cq :: "ptr \<Rightarrow> nat \<Rightarrow> 'w \<Rightarrow> work_completion list option \<times> 'w"

section \<open>The machine\<close>

text \<open>The outside world and the process-wide \<open>static seed\<close> of \<open>nextPsn\<close>.\<close>

record 'w machine =
  world :: 'w
  psn_seed :: u32

definition call :: "('w \<Rightarrow> 'a \<times> 'w) \<Rightarrow> (('w, 'z) machine_scheme, 'a) prog" where
  "call f = (\<lambda>s. case f (world s) of (x, w) \<Rightarrow> Inr (x, s\<lparr>world := w\<rparr>))"

definition call_void :: "('w \<Rightarrow> 'w) \<Rightarrow> (('w, 'z) machine_scheme, unit) prog" where
  "call_void f = modify (\<lambda>s. s\<lparr>world := f (world s)\<rparr>)"

lemma call_apply [prog_simps]: "call f s = (case f (world s) of (x, w) \<Rightarrow> Inr (x, s\<lparr>world := w\<rparr>))"
  by (simp add: call_def)

lemma call_void_apply [prog_simps]: "call_void f s = Inr ((), s\<lparr>world := f (world s)\<rparr>)"
  by (simp add: call_void_def modify_def)

text \<open>A relation that does not look at the world is kept by every call.\<close>

lemma call_moves: "(\<And>s w. R s (s\<lparr>world := w\<rparr>)) \<Longrightarrow> moves R (call f)"
  by (rule movesI) (auto simp: call_def split: prod.splits)

lemma call_void_moves: "(\<And>s w. R s (s\<lparr>world := w\<rparr>)) \<Longrightarrow> moves R (call_void f)"
  by (rule movesI) (auto simp: call_void_def modify_def)

text \<open>Programs that change nothing but the world.\<close>

definition world_only :: "('w, 'z) machine_scheme \<Rightarrow> ('w, 'z) machine_scheme \<Rightarrow> bool" where
  "world_only s t \<longleftrightarrow> (\<exists>w. t = s\<lparr>world := w\<rparr>)"

interpretation world_order: step_order world_only
proof
  show "world_only s s" for s :: "('w, 'z) machine_scheme"
    unfolding world_only_def by (metis machine.surjective machine.update_convs(1))
  show "world_only s t \<Longrightarrow> world_only t u \<Longrightarrow> world_only s u" for s t u :: "('w, 'z) machine_scheme"
    unfolding world_only_def by auto
qed

lemma call_world_only: "moves world_only (call f)"
  by (rule call_moves) (auto simp: world_only_def)

lemma call_void_world_only: "moves world_only (call_void f)"
  by (rule call_void_moves) (auto simp: world_only_def)

lemmas world_only_rules = world_order.rules call_world_only call_void_world_only

end
