(* ===== verification/Ledger.thy ===== *)
theory Ledger
  imports Environment "HOL-Library.Multiset"
begin

text \<open>
  Accounts of the resources the program holds.  \<open>traced env\<close> behaves as \<open>env\<close> and writes every
  successful acquisition and every release into a ledger kept beside the world.  The locale
  \<open>accounting\<close> states what the components' resource lemmas need of such an environment, without
  its construction: which calls acquire and release what.  A component's operation is
  \<open>balanced\<close> with respect to what its state holds when the acquisitions it makes are exactly the
  releases it makes plus what its state holds more at the end: no leak and no double release.
\<close>

datatype handle =
    DeviceList
  | Context ptr
  | Pd ptr
  | Cq ptr
  | Qp ptr
  | Mr ptr
  | Fd int

record ledger =
  acquired :: "handle multiset"
  released :: "handle multiset"

definition acquire :: "handle \<Rightarrow> ledger \<Rightarrow> ledger" where
  "acquire h l = l\<lparr>acquired := add_mset h (acquired l)\<rparr>"

definition release :: "handle \<Rightarrow> ledger \<Rightarrow> ledger" where
  "release h l = l\<lparr>released := add_mset h (released l)\<rparr>"

definition acquire_ptr :: "(ptr \<Rightarrow> handle) \<Rightarrow> ptr \<Rightarrow> ledger \<Rightarrow> ledger" where
  "acquire_ptr h p l = (if p = null then l else acquire (h p) l)"

definition acquire_fd :: "int \<Rightarrow> ledger \<Rightarrow> ledger" where
  "acquire_fd fd l = (if fd < 0 then l else acquire (Fd fd) l)"

text \<open>A call of the environment with an entry in the ledger that depends on its result.\<close>

definition traced_call :: "('a \<Rightarrow> ledger \<Rightarrow> ledger) \<Rightarrow> ('w \<Rightarrow> 'a \<times> 'w) \<Rightarrow> 'w \<times> ledger \<Rightarrow> 'a \<times> 'w \<times> ledger" where
  "traced_call entry f = (\<lambda>(w, l). case f w of (x, w') \<Rightarrow> (x, w', entry x l))"

definition traced_void :: "(ledger \<Rightarrow> ledger) \<Rightarrow> ('w \<Rightarrow> 'w) \<Rightarrow> 'w \<times> ledger \<Rightarrow> 'w \<times> ledger" where
  "traced_void entry f = (\<lambda>(w, l). (f w, entry l))"

abbreviation silent :: "('w \<Rightarrow> 'a \<times> 'w) \<Rightarrow> 'w \<times> ledger \<Rightarrow> 'a \<times> 'w \<times> ledger" where
  "silent \<equiv> traced_call (\<lambda>_ l. l)"

definition traced :: "'w env \<Rightarrow> ('w \<times> ledger) env" where
  "traced env =
     \<lparr>env_fuel = env_fuel env,
      sys_send = (\<lambda>fd bs. silent (sys_send env fd bs)),
      sys_recv = (\<lambda>fd n. silent (sys_recv env fd n)),
      sys_poll = (\<lambda>fd ms. silent (sys_poll env fd ms)),
      sys_close = (\<lambda>fd. traced_void (release (Fd fd)) (sys_close env fd)),
      sys_getfl = (\<lambda>fd. silent (sys_getfl env fd)),
      sys_setfl = (\<lambda>fd fl. silent (sys_setfl env fd fl)),
      sys_socket = (\<lambda>kind. traced_call acquire_fd (sys_socket env kind)),
      sys_connect = (\<lambda>fd addr port. silent (sys_connect env fd addr port)),
      sys_bind = (\<lambda>fd port. silent (sys_bind env fd port)),
      sys_listen = (\<lambda>fd n. silent (sys_listen env fd n)),
      sys_getsockname = (\<lambda>fd. silent (sys_getsockname env fd)),
      sys_accept = (\<lambda>fd. traced_call
        (\<lambda>r. case r of Accepted c \<Rightarrow> acquire_fd c | AcceptError e \<Rightarrow> (\<lambda>l. l)) (sys_accept env fd)),
      sys_bind_device = (\<lambda>fd name. silent (sys_bind_device env fd name)),
      sys_sendto = (\<lambda>fd addr bs. silent (sys_sendto env fd addr bs)),
      sys_getifaddrs = silent (sys_getifaddrs env),
      sys_getpid = silent (sys_getpid env),
      inet_ntop = inet_ntop env,
      inet_pton = inet_pton env,
      clock_ms = silent (clock_ms env),
      clock_usec = silent (clock_usec env),
      sleep_ms = (\<lambda>ms. traced_void (\<lambda>l. l) (sleep_ms env ms)),
      interference = silent (interference env),
      stop_requested = silent (stop_requested env),
      ibv_get_device_list = traced_call
        (\<lambda>r. case r of None \<Rightarrow> (\<lambda>l. l) | Some ds \<Rightarrow> acquire DeviceList) (ibv_get_device_list env),
      ibv_free_device_list = traced_void (release DeviceList) (ibv_free_device_list env),
      ibv_get_device_name = ibv_get_device_name env,
      ibv_open_device = (\<lambda>d. traced_call (acquire_ptr Context) (ibv_open_device env d)),
      ibv_close_device = (\<lambda>c. traced_void (release (Context c)) (ibv_close_device env c)),
      ibv_query_device = (\<lambda>c. silent (ibv_query_device env c)),
      ibv_query_port = (\<lambda>c p. silent (ibv_query_port env c p)),
      ibv_query_gid = (\<lambda>c p i. silent (ibv_query_gid env c p i)),
      ibv_alloc_pd = (\<lambda>c. traced_call (acquire_ptr Pd) (ibv_alloc_pd env c)),
      ibv_dealloc_pd = (\<lambda>pd. traced_void (release (Pd pd)) (ibv_dealloc_pd env pd)),
      ibv_reg_mr = (\<lambda>pd a n ac. traced_call (acquire_ptr Mr) (ibv_reg_mr env pd a n ac)),
      ibv_dereg_mr = (\<lambda>mr. traced_void (release (Mr mr)) (ibv_dereg_mr env mr)),
      ibv_mr_lkey = (\<lambda>mr w. ibv_mr_lkey env mr (fst w)),
      ibv_create_cq = (\<lambda>c n. traced_call (acquire_ptr Cq) (ibv_create_cq env c n)),
      ibv_destroy_cq = (\<lambda>cq. traced_void (release (Cq cq)) (ibv_destroy_cq env cq)),
      ibv_create_qp = (\<lambda>pd cq n. traced_call (acquire_ptr Qp) (ibv_create_qp env pd cq n)),
      ibv_destroy_qp = (\<lambda>qp. traced_void (release (Qp qp)) (ibv_destroy_qp env qp)),
      ibv_qp_num = (\<lambda>qp w. ibv_qp_num env qp (fst w)),
      ibv_modify_qp = (\<lambda>qp t. silent (ibv_modify_qp env qp t)),
      ibv_post_send = (\<lambda>qp i s. silent (ibv_post_send env qp i s)),
      ibv_post_recv = (\<lambda>qp i s. silent (ibv_post_recv env qp i s)),
      ibv_poll_cq = (\<lambda>cq n. silent (ibv_poll_cq env cq n))\<rparr>"

section \<open>Accounts\<close>

text \<open>Every call of the interface writes its entry and nothing else.\<close>

definition writes :: "('v \<Rightarrow> ledger) \<Rightarrow> ('a \<Rightarrow> ledger \<Rightarrow> ledger) \<Rightarrow> ('v \<Rightarrow> 'a \<times> 'v) \<Rightarrow> bool" where
  "writes book entry f \<longleftrightarrow> (\<forall>w x w'. f w = (x, w') \<longrightarrow> book w' = entry x (book w))"

definition writes_void :: "('v \<Rightarrow> ledger) \<Rightarrow> (ledger \<Rightarrow> ledger) \<Rightarrow> ('v \<Rightarrow> 'v) \<Rightarrow> bool" where
  "writes_void book entry f \<longleftrightarrow> (\<forall>w. book (f w) = entry (book w))"

definition unwritten :: "'a \<Rightarrow> ledger \<Rightarrow> ledger" where
  "unwritten x l = l"

locale accounting =
  fixes env :: "'v env" and book :: "'v \<Rightarrow> ledger"
  assumes device_list: "writes book (\<lambda>r. case r of None \<Rightarrow> (\<lambda>l. l) | Some ds \<Rightarrow> acquire DeviceList)
      (ibv_get_device_list env)"
    and free_list: "writes_void book (release DeviceList) (ibv_free_device_list env)"
    and open_device: "writes book (acquire_ptr Context) (ibv_open_device env d)"
    and close_device: "writes_void book (release (Context c)) (ibv_close_device env c)"
    and query_device: "writes book unwritten (ibv_query_device env c)"
    and query_port: "writes book unwritten (ibv_query_port env c p)"
    and query_gid: "writes book unwritten (ibv_query_gid env c p i)"
    and alloc_pd: "writes book (acquire_ptr Pd) (ibv_alloc_pd env c)"
    and dealloc_pd: "writes_void book (release (Pd pd)) (ibv_dealloc_pd env pd)"
    and reg_mr: "writes book (acquire_ptr Mr) (ibv_reg_mr env pd a n ac)"
    and dereg_mr: "writes_void book (release (Mr mr)) (ibv_dereg_mr env mr)"
    and create_cq: "writes book (acquire_ptr Cq) (ibv_create_cq env c cap)"
    and destroy_cq: "writes_void book (release (Cq cq)) (ibv_destroy_cq env cq)"
    and create_qp: "writes book (acquire_ptr Qp) (ibv_create_qp env pd cq cap)"
    and destroy_qp: "writes_void book (release (Qp qp)) (ibv_destroy_qp env qp)"
    and modify_qp: "writes book unwritten (ibv_modify_qp env qp t)"
    and close_fd: "writes_void book (release (Fd fd)) (sys_close env fd)"
    and open_socket: "writes book acquire_fd (sys_socket env kind)"

text \<open>Acquired and released beyond what was there, as one sum.\<close>

definition outstanding_after :: "ledger \<Rightarrow> handle multiset \<Rightarrow> ledger \<Rightarrow> handle multiset \<Rightarrow> bool" where
  "outstanding_after l held l' held' \<longleftrightarrow>
     acquired l' + released l + held = acquired l + released l' + held'"

lemma outstanding_after_refl [simp]: "outstanding_after l h l h"
  by (simp add: outstanding_after_def add_ac)

lemma outstanding_after_trans:
  assumes "outstanding_after l h l' h'" and "outstanding_after l' h' l'' h''"
  shows "outstanding_after l h l'' h''"
proof -
  let ?c = "acquired l' + released l' + h'"
  from assms have "acquired l'' + released l + h + ?c = acquired l + released l'' + h'' + ?c"
    unfolding outstanding_after_def by (metis (no_types, opaque_lifting) add.assoc add.commute)
  then show ?thesis unfolding outstanding_after_def by simp
qed

lemma outstanding_after_frame:
  "outstanding_after l (h + k) l' (h' + k) \<longleftrightarrow> outstanding_after l h l' h'"
  by (simp add: outstanding_after_def add.assoc [symmetric])

lemma outstanding_after_acquire [simp]:
  "outstanding_after l h (acquire x l) (add_mset x h)"
  "outstanding_after l (add_mset x h) (release x l) h"
  by (simp_all add: outstanding_after_def acquire_def release_def add_ac)

lemma ledger_simps [simp]:
  "acquired (acquire x l) = add_mset x (acquired l)" "released (acquire x l) = released l"
  "acquired (release x l) = acquired l" "released (release x l) = add_mset x (released l)"
  by (simp_all add: acquire_def release_def)

section \<open>A logic of resources\<close>

text \<open>
  \<open>balances P m Q\<close>: a run of \<open>m\<close> that starts owing the handles \<open>P\<close> beside those its state holds
  ends owing \<open>Q x\<close> beside those the state holds then.  An operation whose local variables own
  nothing before and after is \<open>balances {#} m (\<lambda>_. {#})\<close>.
\<close>

definition balances ::
    "('v \<Rightarrow> ledger) \<Rightarrow> (('v, 'z) machine_scheme \<Rightarrow> handle multiset) \<Rightarrow> handle multiset \<Rightarrow>
     (('v, 'z) machine_scheme, 'a) prog \<Rightarrow> ('a \<Rightarrow> handle multiset) \<Rightarrow> bool" where
  "balances book held P m Q \<longleftrightarrow>
     (\<forall>s x t. m s = Inr (x, t) \<longrightarrow>
        outstanding_after (book (world s)) (held s + P) (book (world t)) (held t + Q x))"

locale resources = accounting env book
  for env :: "'v env" and book :: "'v \<Rightarrow> ledger" +
  fixes held :: "('v, 'z) machine_scheme \<Rightarrow> handle multiset"
  assumes held_world: "held (s\<lparr>world := w\<rparr>) = held s"
begin

lemma bal_run:
  assumes "balances book held P m Q" and "m s = Inr (x, t)"
  shows "outstanding_after (book (world s)) (held s + P) (book (world t)) (held t + Q x)"
  using assms by (simp add: balances_def)

lemma bal_ret: "Q x = P \<Longrightarrow> balances book held P (ret x) Q"
  by (auto simp: balances_def ret_def)

lemma bal_crash: "balances book held P (crash f) Q"
  by (auto simp: balances_def crash_def)

lemma bal_seq:
  assumes m: "balances book held P m Q" and k: "\<And>x. balances book held (Q x) (k x) R"
  shows "balances book held P (seq m k) R"
  unfolding balances_def
proof (intro allI impI)
  fix s y u
  assume "seq m k s = Inr (y, u)"
  then obtain x t where "m s = Inr (x, t)" and "k x t = Inr (y, u)" by (rule seq_InrE)
  then show "outstanding_after (book (world s)) (held s + P) (book (world u)) (held u + R y)"
    using bal_run [OF m] bal_run [OF k] outstanding_after_trans by blast
qed

lemma bal_gets: "(\<And>s. Q (f s) = P) \<Longrightarrow> balances book held P (gets f) Q"
  by (auto simp: balances_def gets_def)

lemma bal_if: "(b \<Longrightarrow> balances book held P m Q) \<Longrightarrow> (\<not> b \<Longrightarrow> balances book held P n Q) \<Longrightarrow>
   balances book held P (if b then m else n) Q"
  by simp

lemma bal_option:
  "(x = None \<Longrightarrow> balances book held P m Q) \<Longrightarrow> (\<And>y. x = Some y \<Longrightarrow> balances book held P (n y) Q) \<Longrightarrow>
   balances book held P (case x of None \<Rightarrow> m | Some y \<Rightarrow> n y) Q"
  by (cases x) auto

lemma bal_prod: "(\<And>a b. p = (a, b) \<Longrightarrow> balances book held P (f a b) Q) \<Longrightarrow>
   balances book held P (case p of (a, b) \<Rightarrow> f a b) Q"
  by (cases p) auto

lemma bal_modify: "(\<And>s. held (f s) + Q () = held s + P) \<Longrightarrow> (\<And>s. world (f s) = world s) \<Longrightarrow>
   balances book held P (modify f) Q"
  by (auto simp: balances_def modify_def outstanding_after_def add.assoc)

lemma bal_world:
  assumes "outstanding_after (book w) P (book w') Q"
  shows "outstanding_after (book w) (held s + P) (book w') (held (s\<lparr>world := v\<rparr>) + Q)"
  using assms by (simp add: held_world add.commute [of "held s"] outstanding_after_frame)

lemma bal_call:
  assumes "writes book entry f" and "\<And>x l. outstanding_after l P (entry x l) (Q x)"
  shows "balances book held P (call f) Q"
  unfolding balances_def
proof (intro allI impI)
  fix s t :: "('v, 'z) machine_scheme" and x
  assume "call f s = Inr (x, t)"
  then obtain w where f: "f (world s) = (x, w)" and t: "t = s\<lparr>world := w\<rparr>"
    by (auto simp: call_def split: prod.splits)
  from assms f have "outstanding_after (book (world s)) P (book w) (Q x)" by (simp add: writes_def)
  then show "outstanding_after (book (world s)) (held s + P) (book (world t)) (held t + Q x)"
    using bal_world by (simp add: t)
qed

lemma bal_void:
  assumes "writes_void book entry f" and "\<And>l. outstanding_after l P (entry l) (Q ())"
  shows "balances book held P (call_void f) Q"
  unfolding balances_def
proof (intro allI impI)
  fix s t :: "('v, 'z) machine_scheme" and x
  assume "call_void f s = Inr (x, t)"
  then have t: "t = s\<lparr>world := f (world s)\<rparr>" by (simp add: call_void_def modify_def)
  from assms have "outstanding_after (book (world s)) P (book (f (world s))) (Q ())"
    by (simp add: writes_void_def)
  then show "outstanding_after (book (world s)) (held s + P) (book (world t)) (held t + Q x)"
    using bal_world by (simp add: t)
qed

lemma bal_quiet: "writes book unwritten f \<Longrightarrow> balances book held P (call f) (\<lambda>_. P)"
  by (erule bal_call) (simp add: unwritten_def)

lemma bal_acquire: "writes book (acquire_ptr h) f \<Longrightarrow>
   balances book held P (call f) (\<lambda>p. if p = null then P else add_mset (h p) P)"
  by (erule bal_call) (simp add: acquire_ptr_def)

lemma bal_release:
  "writes_void book (release h) f \<Longrightarrow> balances book held (add_mset h P) (call_void f) (\<lambda>_. P)"
  by (erule bal_void) simp

lemma bal_acquire_seq:
  assumes "writes book (acquire_ptr h) f"
    and "balances book held P (k null) R" and "\<And>p. p \<noteq> null \<Longrightarrow> balances book held (add_mset (h p) P) (k p) R"
  shows "balances book held P (seq (call f) k) R"
  by (rule bal_seq [OF bal_acquire [OF assms(1)]]) (use assms(2,3) in auto)

lemma bal_seq_unit: "balances book held P m (\<lambda>_. Q) \<Longrightarrow> (\<And>x. balances book held Q (k x) R) \<Longrightarrow>
   balances book held P (seq m k) R"
  by (rule bal_seq)

lemma bal_seq_gets: "(\<And>s. balances book held P (k (f s)) R) \<Longrightarrow> balances book held P (seq (gets f) k) R"
  unfolding balances_def by (auto elim!: seq_InrE simp: gets_def)

lemma bal_frame: "balances book held P m Q \<Longrightarrow> balances book held (P + F) m (\<lambda>x. Q x + F)"
  unfolding balances_def by (simp add: add.assoc [symmetric] outstanding_after_frame)

lemma bal_for_all:
  assumes "\<And>x. x \<in> set xs \<Longrightarrow> balances book held (g x) (body x) (\<lambda>_. {#})"
  shows "balances book held (sum_list (map g xs)) (for_all_do xs body) (\<lambda>_. {#})"
  using assms
proof (induction xs)
  case Nil
  then show ?case by (simp add: bal_ret)
next
  case (Cons x xs)
  have "balances book held (g x + sum_list (map g xs)) (body x) (\<lambda>_. {#} + sum_list (map g xs))"
    using Cons.prems [of x] by (intro bal_frame) simp
  with Cons show ?case by (auto intro: bal_seq)
qed

text \<open>The calls of the verbs, one rule per call, and the rules that follow a program.\<close>

lemmas quiet_calls =
  bal_quiet [OF query_device] bal_quiet [OF query_port] bal_quiet [OF query_gid]
  bal_quiet [OF modify_qp]

lemmas acquire_calls =
  bal_acquire_seq [OF open_device] bal_acquire_seq [OF alloc_pd] bal_acquire_seq [OF reg_mr]
  bal_acquire_seq [OF create_cq] bal_acquire_seq [OF create_qp]

lemmas release_calls =
  bal_release [OF close_device] bal_release [OF dealloc_pd] bal_release [OF dereg_mr]
  bal_release [OF destroy_cq] bal_release [OF destroy_qp] bal_release [OF close_fd]
  bal_release [OF free_list]

lemmas bal_rules =
  acquire_calls release_calls quiet_calls bal_seq_gets bal_seq_unit bal_if bal_option bal_prod
  bal_crash bal_ret

end

interpretation traced_env: accounting "traced env" snd for env
  by unfold_locales
    (auto simp: traced_def writes_def writes_void_def traced_call_def traced_void_def unwritten_def
      split: prod.splits)

end
