(* ===== verification/SampleWorld.thy ===== *)
theory SampleWorld
  imports Environment
begin

text \<open>
  A scripted outside world, used to exercise the operations on concrete inputs: fresh pointers from
  a counter, two adapters with one active port each, a byte inbox for the sockets, and scripts of
  completion batches, of post and transition verdicts and of table interference.
\<close>

record sample_world =
  sw_next :: nat
  sw_clock :: nat
  sw_inbox :: "u8 list"
  sw_outbox :: "u8 list"
  sw_cqes :: "work_completion list list"
  sw_refuse :: "bool list"
  sw_ops :: "(u64 \<times> plane_op) list list"

definition start_world :: sample_world where
  "start_world =
     \<lparr>sw_next = 100, sw_clock = 0, sw_inbox = [], sw_outbox = [], sw_cqes = [], sw_refuse = [],
      sw_ops = []\<rparr>"

definition fresh :: "sample_world \<Rightarrow> nat \<times> sample_world" where
  "fresh w = (sw_next w, w\<lparr>sw_next := sw_next w + 1\<rparr>)"

text \<open>The next verdict of the script; an empty script accepts.\<close>

definition verdict :: "sample_world \<Rightarrow> bool \<times> sample_world" where
  "verdict w = (case sw_refuse w of [] \<Rightarrow> (True, w) | b # bs \<Rightarrow> (\<not> b, w\<lparr>sw_refuse := bs\<rparr>))"

definition sample_port :: port_attr where
  "sample_port = \<lparr>pa_state = IBV_PORT_ACTIVE, pa_lid = 7, pa_active_mtu = 5, pa_link_layer = 1\<rparr>"

definition sample_env :: "sample_world env" where
  "sample_env =
     \<lparr>env_fuel = 1000,
      sys_send = (\<lambda>fd bs w. (Sent (length bs), w\<lparr>sw_outbox := sw_outbox w @ bs\<rparr>)),
      sys_recv = (\<lambda>fd n w. if sw_inbox w = [] then (RecvError EAGAIN, w)
                   else (Received (take n (sw_inbox w)), w\<lparr>sw_inbox := drop n (sw_inbox w)\<rparr>)),
      sys_poll = (\<lambda>fd ms w. (PollReady False, w)),
      sys_close = (\<lambda>fd w. w),
      sys_getfl = (\<lambda>fd w. (Some 0, w)),
      sys_setfl = (\<lambda>fd fl w. (True, w)),
      sys_socket = (\<lambda>kind w. map_prod int id (fresh w)),
      sys_connect = (\<lambda>fd addr port w. (True, w)),
      sys_bind = (\<lambda>fd port w. (True, w)),
      sys_listen = (\<lambda>fd n w. (True, w)),
      sys_getsockname = (\<lambda>fd w. (Some 4000, w)),
      sys_accept = (\<lambda>fd w. map_prod (\<lambda>p. Accepted (int p)) id (fresh w)),
      sys_bind_device = (\<lambda>fd name w. (True, w)),
      sys_sendto = (\<lambda>fd addr bs w. (True, w)),
      sys_getifaddrs = (\<lambda>w. (Some [], w)),
      sys_getpid = (\<lambda>w. (42, w)),
      inet_ntop = (\<lambda>addr. None),
      inet_pton = (\<lambda>text. Some 0x0100007f),
      clock_ms = (\<lambda>w. (sw_clock w, w\<lparr>sw_clock := sw_clock w + 1\<rparr>)),
      clock_usec = (\<lambda>w. (of_nat (sw_clock w), w\<lparr>sw_clock := sw_clock w + 1\<rparr>)),
      sleep_ms = (\<lambda>ms w. w\<lparr>sw_clock := sw_clock w + ms\<rparr>),
      interference = (\<lambda>w. case sw_ops w of [] \<Rightarrow> ([], w) | x # xs \<Rightarrow> (x, w\<lparr>sw_ops := xs\<rparr>)),
      stop_requested = (\<lambda>w. (True, w)),
      ibv_get_device_list = (\<lambda>w. (Some [1, 2], w)),
      ibv_free_device_list = (\<lambda>w. w),
      ibv_get_device_name = (\<lambda>d. if d = 1 then ''a'' else ''b''),
      ibv_open_device = (\<lambda>d. fresh),
      ibv_close_device = (\<lambda>c w. w),
      ibv_query_device = (\<lambda>c w. (Some 1, w)),
      ibv_query_port = (\<lambda>c p w. (Some sample_port, w)),
      ibv_query_gid = (\<lambda>c p i w. (Some (replicate 16 1), w)),
      ibv_alloc_pd = (\<lambda>c. fresh),
      ibv_dealloc_pd = (\<lambda>pd w. w),
      ibv_reg_mr = (\<lambda>pd a n ac. fresh),
      ibv_dereg_mr = (\<lambda>mr w. w),
      ibv_mr_lkey = (\<lambda>mr w. of_nat mr),
      ibv_create_cq = (\<lambda>c n. fresh),
      ibv_destroy_cq = (\<lambda>cq w. w),
      ibv_create_qp = (\<lambda>pd cq n. fresh),
      ibv_destroy_qp = (\<lambda>qp w. w),
      ibv_qp_num = (\<lambda>qp w. of_nat qp),
      ibv_modify_qp = (\<lambda>qp t. verdict),
      ibv_post_send = (\<lambda>qp i s. verdict),
      ibv_post_recv = (\<lambda>qp i s. verdict),
      ibv_poll_cq = (\<lambda>cq n w. case sw_cqes w of [] \<Rightarrow> (Some [], w)
                                | x # xs \<Rightarrow> (Some (take n x), w\<lparr>sw_cqes := xs\<rparr>))\<rparr>"

end
