(* ===== verification/DpfrConfig.thy ===== *)
theory DpfrConfig
  imports Prelude
begin

text \<open>
  The configuration of the plugin, \<open>plugins/net/dpfr_ib/src/config.{h,cc}\<close>: the list of
  adapters, the environment variables and the control lines that announce a plane's failure or
  recovery.  The environment is a function from names to values.  The library calls the source
  relies on (\<open>std::isspace\<close>, \<open>std::tolower\<close> in the C locale, \<open>strtol\<close>, \<open>std::getline\<close>, the
  extraction operators of a string stream) are defined as their standards say.

  The lemmas are the round trip of the adapter list, the bounds of what it accepts and the meaning
  of a control line.
\<close>

section \<open>Characters and numbers\<close>

abbreviation code :: "char \<Rightarrow> nat" where
  "code \<equiv> of_char"

definition is_space :: "char \<Rightarrow> bool" where
  "is_space c \<longleftrightarrow> 9 \<le> code c \<and> code c \<le> 13 \<or> code c = 32"

definition to_lower :: "char \<Rightarrow> char" where
  "to_lower c = (if 65 \<le> code c \<and> code c \<le> 90 then char_of (code c + 32) else c)"

text \<open>The value of a digit; a character that is none has a value no base exceeds.\<close>

definition digit_value :: "char \<Rightarrow> nat" where
  "digit_value c =
     (let n = code c in
      if 48 \<le> n \<and> n \<le> 57 then n - 48
      else if 97 \<le> n \<and> n \<le> 122 then n - 87
      else if 65 \<le> n \<and> n \<le> 90 then n - 55
      else 99)"

definition is_digit :: "nat \<Rightarrow> char \<Rightarrow> bool" where
  "is_digit base c \<longleftrightarrow> digit_value c < base"

definition digits_value :: "int \<Rightarrow> string \<Rightarrow> int" where
  "digits_value base ds = foldl (\<lambda>acc c. acc * base + int (digit_value c)) 0 ds"

fun split_sign :: "string \<Rightarrow> bool \<times> string" where
  "split_sign (c # s) = (if c = CHR ''-'' then (True, s) else if c = CHR ''+'' then (False, s)
                         else (False, c # s))"
| "split_sign [] = (False, [])"

text \<open>The digits a number starts with, or nothing when no conversion is possible.\<close>

fun number_base0 :: "string \<Rightarrow> int option" where
  "number_base0 [] = None"
| "number_base0 (c # s) =
     (if c = CHR ''0'' \<and> s \<noteq> [] \<and> to_lower (hd s) = CHR ''x'' \<and> tl s \<noteq> [] \<and> is_digit 16 (hd (tl s))
      then Some (digits_value 16 (takeWhile (is_digit 16) (tl s)))
      else if c = CHR ''0'' then Some (digits_value 8 (takeWhile (is_digit 8) (c # s)))
      else if is_digit 10 c then Some (digits_value 10 (takeWhile (is_digit 10) (c # s)))
      else None)"

definition signed_value :: "bool \<Rightarrow> int \<Rightarrow> int" where
  "signed_value neg n = (if neg then - n else n)"

text \<open>\<open>strtol(text, &end, 0)\<close> with a 64-bit \<open>long\<close>; \<open>None\<close> is \<open>end == text\<close>.\<close>

definition strtol0 :: "string \<Rightarrow> int option" where
  "strtol0 text =
     (let (neg, s) = split_sign (dropWhile is_space text) in
      map_option (\<lambda>n. max (- 9223372036854775808) (min 9223372036854775807 (signed_value neg n))) (number_base0 s))"

text \<open>\<open>static_cast<int>\<close> of a \<open>long\<close>.\<close>

definition cast_int :: "int \<Rightarrow> int" where
  "cast_int x = (x + 0x80000000) mod 0x100000000 - 0x80000000"

text \<open>\<open>%d\<close> of a number that is not negative, and of an \<open>int\<close>.\<close>

definition digit :: "nat \<Rightarrow> char" where
  "digit d = ''0123456789'' ! d"

fun show_nat :: "nat \<Rightarrow> string" where
  "show_nat n = (if n < 10 then [digit n]
                 else show_nat (n div 10) @ [digit (n mod 10)])"

declare show_nat.simps [simp del]

definition show_int :: "int \<Rightarrow> string" where
  "show_int i = (if i < 0 then CHR ''-'' # show_nat (nat (- i)) else show_nat (nat i))"

section \<open>Strings\<close>

definition trim :: "string \<Rightarrow> string" where
  "trim s = rev (dropWhile is_space (rev (dropWhile is_space s)))"

definition lower :: "string \<Rightarrow> string" where
  "lower v = map to_lower v"

text \<open>\<open>std::getline(stream, field, delim)\<close>: the field and the rest of the stream, or failure.\<close>

definition getline :: "char \<Rightarrow> string \<Rightarrow> (string \<times> string) option" where
  "getline d s =
     (if s = [] then None
      else Some (takeWhile (\<lambda>c. c \<noteq> d) s, drop 1 (dropWhile (\<lambda>c. c \<noteq> d) s)))"

lemma getline_shorter: "getline d s = Some (f, r) \<Longrightarrow> length r < length s"
  using length_dropWhile_le [of "\<lambda>c. c \<noteq> d" s] by (cases s) (auto simp: getline_def split: if_splits)

function fields_of :: "char \<Rightarrow> string \<Rightarrow> string list" where
  "fields_of d s = (case getline d s of None \<Rightarrow> [] | Some (f, r) \<Rightarrow> f # fields_of d r)"
  by pat_completeness auto
termination
  by (relation "measure (\<lambda>(d, s). length s)") (auto dest: getline_shorter)

declare fields_of.simps [simp del]

section \<open>The adapter list\<close>

record plane_config =
  pc_hcaName :: string
  pc_port :: int
  pc_planeId :: int
  pc_probeIp :: string
  pc_probeIface :: string
  pc_dpfrIface :: string

record plugin_config =
  cf_planes :: "plane_config list"
  cf_autoDiscover :: bool
  cf_gidIndex :: int
  cf_controlAddr :: string
  cf_controlTcpServer :: string
  cf_controlTcpPort :: int
  cf_dpfrUdpPort :: int

definition kDefaultDpfrUdpPort :: int where
  "kDefaultDpfrUdpPort = 19767"

definition kDefaultGidIndex :: int where
  "kDefaultGidIndex = 0"

definition default_plane_config :: plane_config where
  "default_plane_config =
     \<lparr>pc_hcaName = [], pc_port = 1, pc_planeId = 0, pc_probeIp = [], pc_probeIface = [],
      pc_dpfrIface = []\<rparr>"

definition default_plugin_config :: plugin_config where
  "default_plugin_config =
     \<lparr>cf_planes = [], cf_autoDiscover = False, cf_gidIndex = kDefaultGidIndex,
      cf_controlAddr = [], cf_controlTcpServer = [], cf_controlTcpPort = 0,
      cf_dpfrUdpPort = kDefaultDpfrUdpPort\<rparr>"

text \<open>The three fields of an entry; what follows a third colon is not read.\<close>

definition split_entry :: "string \<Rightarrow> (string \<times> string \<times> string) option" where
  "split_entry entry =
     (case getline CHR '':'' entry of None \<Rightarrow> None
      | Some (hca, rest) \<Rightarrow>
          (case getline CHR '':'' rest of None \<Rightarrow> None
           | Some (portText, rest) \<Rightarrow>
               (case getline CHR '':'' rest of None \<Rightarrow> None
                | Some (planeText, rest) \<Rightarrow> Some (hca, portText, planeText))))"

definition entry_error :: "string \<Rightarrow> string \<Rightarrow> string" where
  "entry_error what entry =
     what @ '' in NCCL_DPFR_IB_HCA_LIST entry '' @ [CHR 0x27] @ entry @ [CHR 0x27]"

text \<open>One entry of the list: the plane, or the message of the error.\<close>

definition parse_hca_entry :: "string \<Rightarrow> string + plane_config" where
  "parse_hca_entry entry =
     (case split_entry entry of
        None \<Rightarrow> Inl (entry_error ''expected hca:port:plane'' entry)
      | Some (hca, portText, planeText) \<Rightarrow>
          (case strtol0 portText of
             None \<Rightarrow> Inl (entry_error ''invalid port'' entry)
           | Some port \<Rightarrow>
               if port \<le> 0
               then Inl (entry_error ''invalid port'' entry)
               else (case strtol0 planeText of
                       None \<Rightarrow> Inl (entry_error ''invalid plane id'' entry)
                     | Some planeId \<Rightarrow>
                         if planeId < 0 \<or> int kMaxPlanes \<le> planeId
                         then Inl (entry_error ''invalid plane id'' entry)
                         else Inr (default_plane_config\<lparr>pc_hcaName := trim hca,
                                     pc_port := cast_int port, pc_planeId := cast_int planeId\<rparr>))))"

text \<open>The loop over the entries; the planes read before an error stay in the output vector.\<close>

fun parse_entries ::
    "string list \<Rightarrow> plane_config list \<Rightarrow> nccl_result \<times> plane_config list \<times> string option" where
  "parse_entries [] planes = (ncclSuccess, planes, None)"
| "parse_entries (e # es) planes =
     (let entry = trim e in
      if entry = [] then parse_entries es planes
      else case parse_hca_entry entry of
             Inl err \<Rightarrow> (ncclInvalidArgument, planes, Some err)
           | Inr plane \<Rightarrow> parse_entries es (planes @ [plane]))"

definition parse_hca_list ::
    "string option \<Rightarrow> nccl_result \<times> plane_config list \<times> string option" where
  "parse_hca_list val =
     (case val of
        None \<Rightarrow> (ncclSuccess, [], None)
      | Some text \<Rightarrow> parse_entries (fields_of CHR '','' text) [])"

section \<open>Control lines\<close>

text \<open>\<open>stream >> token\<close>: the next word, or failure at the end.\<close>

definition read_token :: "string \<Rightarrow> (string \<times> string) option" where
  "read_token s =
     (let s = dropWhile is_space s in
      if s = [] then None
      else Some (takeWhile (\<lambda>c. \<not> is_space c) s, dropWhile (\<lambda>c. \<not> is_space c) s))"

text \<open>\<open>stream >> id\<close> for an \<open>int\<close> in base ten; a value out of range fails.\<close>

definition read_int :: "string \<Rightarrow> (int \<times> string) option" where
  "read_int s =
     (let (neg, s) = split_sign (dropWhile is_space s);
          ds = takeWhile (is_digit 10) s;
          v = signed_value neg (digits_value 10 ds)
      in if ds = [] \<or> v < - (2 ^ 31) \<or> 2 ^ 31 \<le> v then None
         else Some (v, dropWhile (is_digit 10) s))"

lemma read_token_shorter: "read_token s = Some (t, r) \<Longrightarrow> length r < length s"
proof -
  assume r: "read_token s = Some (t, r)"
  let ?s = "dropWhile is_space s"
  from r have ne: "?s \<noteq> []" and r: "r = dropWhile (\<lambda>c. \<not> is_space c) ?s"
    by (auto simp: read_token_def Let_def split: if_splits)
  then have "\<not> is_space (hd ?s)" by (simp add: hd_dropWhile)
  with ne have "r = dropWhile (\<lambda>c. \<not> is_space c) (tl ?s)" unfolding r by (cases ?s) auto
  then have "length r \<le> length (tl ?s)" by (metis length_dropWhile_le)
  also have "\<dots> < length ?s" using ne by (cases ?s) auto
  also have "\<dots> \<le> length s" by (rule length_dropWhile_le)
  finally show ?thesis .
qed

lemma length_split_sign: "length (snd (split_sign s)) \<le> length s"
  by (cases s) auto

lemma read_int_shorter: "read_int s = Some (i, r) \<Longrightarrow> length r \<le> length s"
  using length_split_sign [of "dropWhile is_space s"] length_dropWhile_le [of is_space s]
    length_dropWhile_le [of "is_digit 10" "snd (split_sign (dropWhile is_space s))"]
  by (auto simp: read_int_def Let_def split: prod.splits if_splits)

definition broken_words :: "string list" where
  "broken_words = [''broken'', ''down'', ''fail'', ''failed'']"

definition recovered_words :: "string list" where
  "recovered_words = [''recovered'', ''healthy'', ''up'', ''recover'']"

text \<open>
  The loop over the words.  Its locals are the two output parameters and the two flags; after a
  failed \<open>stream >> id\<close> the stream stays failed, so the loop ends.
\<close>

function read_words ::
    "string \<Rightarrow> int \<Rightarrow> bool \<Rightarrow> bool \<Rightarrow> bool \<Rightarrow> int \<times> bool \<times> bool \<times> bool" where
  "read_words s planeId recovered sawPlane sawState =
     (case read_token s of
        None \<Rightarrow> (planeId, recovered, sawPlane, sawState)
      | Some (token, r) \<Rightarrow>
          if token = ''plane'' then
            (case read_int r of
               None \<Rightarrow> (planeId, recovered, sawPlane, sawState)
             | Some (i, r') \<Rightarrow> read_words r' i recovered True sawState)
          else if token \<in> set broken_words then read_words r planeId False sawPlane True
          else if token \<in> set recovered_words then read_words r planeId True sawPlane True
          else read_words r planeId recovered sawPlane sawState)"
  by pat_completeness auto
termination
  by (relation "measure (\<lambda>(s, a, b, c, d). length s)")
    (auto dest!: read_token_shorter read_int_shorter)

declare read_words.simps [simp del]

definition normalize :: "string \<Rightarrow> string" where
  "normalize line =
     map (\<lambda>c. if c = CHR ''='' \<or> c = CHR '','' \<or> c = CHR '';'' \<or> c = CHR '':'' then CHR '' '' else c)
       (lower line)"

text \<open>The returned flag and the two output parameters.\<close>

definition parse_plane_control_line :: "string \<Rightarrow> int \<Rightarrow> bool \<Rightarrow> bool \<times> int \<times> bool" where
  "parse_plane_control_line line planeId recovered =
     (let (i, rec, sawPlane, sawState) = read_words (normalize line) planeId recovered False False
      in (sawPlane \<and> sawState \<and> 0 \<le> i, i, rec))"

section \<open>The whole configuration\<close>

type_synonym environ = "string \<Rightarrow> string option"

definition env_int :: "environ \<Rightarrow> string \<Rightarrow> int \<Rightarrow> int" where
  "env_int getenv name defaultValue =
     (case getenv name of
        None \<Rightarrow> defaultValue
      | Some v \<Rightarrow> (case strtol0 v of None \<Rightarrow> defaultValue | Some parsed \<Rightarrow> cast_int parsed))"

definition env_str :: "environ \<Rightarrow> string \<Rightarrow> string" where
  "env_str getenv name = (case getenv name of None \<Rightarrow> [] | Some v \<Rightarrow> v)"

definition plane_variable :: "int \<Rightarrow> string \<Rightarrow> string" where
  "plane_variable planeId suffix = ''NCCL_DPFR_IB_PLANE'' @ show_int planeId @ suffix"

definition load_config :: "environ \<Rightarrow> nccl_result \<times> plugin_config" where
  "load_config getenv =
     (let config = default_plugin_config
            \<lparr>cf_gidIndex := env_int getenv ''NCCL_DPFR_IB_GID_INDEX'' kDefaultGidIndex,
             cf_controlAddr := env_str getenv ''NCCL_DPFR_IB_CONTROL_ADDR'',
             cf_controlTcpServer := env_str getenv ''NCCL_DPFR_IB_CONTROL_TCP_SERVER'',
             cf_controlTcpPort := env_int getenv ''NCCL_DPFR_IB_CONTROL_TCP_PORT'' 0,
             cf_dpfrUdpPort := env_int getenv ''NCCL_DPFR_IB_DPFR_UDP_PORT'' kDefaultDpfrUdpPort\<rparr>;
          (res, planes, err) = parse_hca_list (getenv ''NCCL_DPFR_IB_HCA_LIST'')
      in if res \<noteq> ncclSuccess then (res, config\<lparr>cf_planes := planes\<rparr>)
         else (ncclSuccess,
               config\<lparr>cf_autoDiscover := (planes = []),
                 cf_planes := map (\<lambda>p. p
                    \<lparr>pc_probeIp := env_str getenv (plane_variable (pc_planeId p) ''_PROBE_IP''),
                     pc_probeIface := env_str getenv (plane_variable (pc_planeId p) ''_PROBE_IFACE''),
                     pc_dpfrIface := env_str getenv (plane_variable (pc_planeId p) ''_DPFR_IFACE'')\<rparr>)
                   planes\<rparr>))"


section \<open>Decimal numbers\<close>

definition decimal :: "char \<Rightarrow> bool" where
  "decimal c \<longleftrightarrow> c \<in> set ''0123456789''"

lemma digit_table:
  "list_all (\<lambda>d. digit_value (digit d) = d \<and> decimal (digit d) \<and>
     (digit d = CHR ''0'' \<longleftrightarrow> d = 0)) [0..<10]"
  by code_simp

lemma digit_char [simp]:
  fixes d :: nat
  assumes "d < 10"
  shows "digit_value (digit d) = d" and "decimal (digit d)"
    and "digit d = CHR ''0'' \<longleftrightarrow> d = 0"
  using digit_table assms unfolding list_all_iff by simp_all

lemma decimal_table:
  "list_all (\<lambda>c. is_digit 10 c \<and> \<not> is_space c \<and> to_lower c = c \<and>
     c \<notin> set '':,;=-+x'') ''0123456789''"
  by code_simp

lemma decimalD:
  assumes "decimal c"
  shows "is_digit 10 c" and "\<not> is_space c" and "to_lower c = c" and "c \<notin> set '':,;=-+x''"
proof -
  have "is_digit 10 c \<and> \<not> is_space c \<and> to_lower c = c \<and> c \<notin> set '':,;=-+x''"
    using decimal_table assms unfolding list_all_iff decimal_def by (rule bspec)
  then show "is_digit 10 c" and "\<not> is_space c" and "to_lower c = c" and "c \<notin> set '':,;=-+x''"
    by blast+
qed

lemma show_nat_digits: "\<forall>c \<in> set (show_nat n). decimal c"
proof (induction n rule: show_nat.induct)
  case (1 n)
  show ?case
  proof (cases "n < 10")
    case True
    then show ?thesis by (subst show_nat.simps) simp
  next
    case False
    with 1 have "\<forall>c \<in> set (show_nat (n div 10)). decimal c" by blast
    moreover have "decimal (digit (n mod 10))" by (rule digit_char) simp
    ultimately show ?thesis using False by (subst show_nat.simps) (simp add: ball_Un del: char_of_eq_iff)
  qed
qed

lemma show_nat_value: "digits_value 10 (show_nat n) = int n"
proof (induction n rule: show_nat.induct)
  case (1 n)
  show ?case
  proof (cases "n < 10")
    case True
    then show ?thesis by (subst show_nat.simps) (simp add: digits_value_def)
  next
    case False
    with 1 have "digits_value 10 (show_nat (n div 10)) = int (n div 10)" by blast
    moreover have "int (n div 10) * 10 + int (n mod 10) = int n" by (simp add: zdiv_int zmod_int)
    ultimately show ?thesis using False
      by (subst show_nat.simps) (simp add: digits_value_def del: of_nat_mod of_nat_div)
  qed
qed

lemma show_nat_Cons: "\<exists>(d::nat) s. d < 10 \<and> show_nat n = digit d # s \<and> (d = 0 \<longrightarrow> n = 0 \<and> s = [])"
proof (induction n rule: show_nat.induct)
  case (1 n)
  show ?case
  proof (cases "n < 10")
    case True
    then show ?thesis by (subst show_nat.simps) auto
  next
    case False
    with 1 obtain d :: nat and s where "d < 10" "show_nat (n div 10) = digit d # s"
      "d = 0 \<longrightarrow> n div 10 = 0 \<and> s = []" by blast
    then show ?thesis using False by (subst show_nat.simps) auto
  qed
qed

lemma takeWhile_digits [simp]: "takeWhile (is_digit 10) (show_nat n) = show_nat n"
  using show_nat_digits [of n] decimalD(1) by (simp add: takeWhile_eq_all_conv)

lemma number_base0_show_nat [simp]: "number_base0 (show_nat n) = Some (int n)"
proof -
  from show_nat_Cons [of n] obtain d :: nat and s where d: "d < 10"
    and n: "show_nat n = digit d # s" and zero: "d = 0 \<longrightarrow> n = 0 \<and> s = []" by blast
  show ?thesis
  proof (cases "d = 0")
    case True
    with n zero d have "show_nat n = ''0''" and "n = 0"
      using digit_char(3) [OF d] by simp_all
    then show ?thesis by (simp add: is_digit_def digits_value_def digit_value_def)
  next
    case False
    with d have "digit d \<noteq> CHR ''0''" by (simp only: digit_char(3) not_False_eq_True)
    then have "number_base0 (show_nat n) = Some (digits_value 10 (takeWhile (is_digit 10) (show_nat n)))"
      using decimalD(1) [OF digit_char(2) [OF d]] unfolding n
      by (simp only: number_base0.simps if_True if_False simp_thms)
    then show ?thesis by (simp only: takeWhile_digits show_nat_value)
  qed
qed

lemma show_nat_start [simp]:
  "dropWhile is_space (show_nat n) = show_nat n" "split_sign (show_nat n) = (False, show_nat n)"
proof -
  from show_nat_digits [of n] show_nat_Cons [of n] obtain c s where
    n: "show_nat n = c # s" and c: "decimal c" by (metis list.set_intros(1))
  show "dropWhile is_space (show_nat n) = show_nat n" by (simp add: n decimalD(2) [OF c])
  show "split_sign (show_nat n) = (False, show_nat n)" using decimalD(4) [OF c] by (simp add: n)
qed

lemma strtol0_show_nat [simp]: "n < 2 ^ 63 \<Longrightarrow> strtol0 (show_nat n) = Some (int n)"
  by (simp add: strtol0_def signed_value_def)

section \<open>The adapter list\<close>

fun join :: "char \<Rightarrow> string list \<Rightarrow> string" where
  "join d [] = []"
| "join d [x] = x"
| "join d (x # y # ys) = x @ d # join d (y # ys)"

lemma getline_prefix:
  assumes "d \<notin> set x"
  shows "getline d (x @ d # r) = Some (x, r)" and "x \<noteq> [] \<Longrightarrow> getline d x = Some (x, [])"
proof -
  have all: "c \<in> set x \<Longrightarrow> c \<noteq> d" for c using assms by auto
  show "getline d (x @ d # r) = Some (x, r)" by (simp add: getline_def all)
  have "dropWhile (\<lambda>c. c \<noteq> d) x = []" and "takeWhile (\<lambda>c. c \<noteq> d) x = x"
    using all by simp_all
  then show "x \<noteq> [] \<Longrightarrow> getline d x = Some (x, [])" by (simp only: getline_def if_False drop_Nil)
qed

lemma fields_of_Nil [simp]: "fields_of d [] = []"
  by (subst fields_of.simps) (simp add: getline_def)

lemma fields_of_join:
  "\<forall>x \<in> set xs. x \<noteq> [] \<and> d \<notin> set x \<Longrightarrow> fields_of d (join d xs) = xs"
proof (induction d xs rule: join.induct)
  case (1 d)
  then show ?case by simp
next
  case (2 d x)
  then show ?case by (subst fields_of.simps) (simp add: getline_prefix)
next
  case (3 d x y ys)
  then have "fields_of d (join d (y # ys)) = y # ys" by simp
  with 3 show ?case by (subst fields_of.simps) (simp add: getline_prefix(1))
qed

text \<open>The text of one adapter as the README writes it: name, port and plane.\<close>

definition print_hca_entry :: "string \<times> nat \<times> nat \<Rightarrow> string" where
  "print_hca_entry = (\<lambda>(hca, port, plane). hca @ CHR '':'' # show_nat port @ CHR '':'' # show_nat plane)"

definition plain_entry :: "string \<times> nat \<times> nat \<Rightarrow> bool" where
  "plain_entry = (\<lambda>(hca, port, plane).
     (\<forall>c \<in> set hca. \<not> is_space c \<and> c \<noteq> CHR '':'' \<and> c \<noteq> CHR '','') \<and>
     0 < port \<and> port < 2 ^ 31 \<and> plane < 8)"

definition entry_config :: "string \<times> nat \<times> nat \<Rightarrow> plane_config" where
  "entry_config = (\<lambda>(hca, port, plane).
     default_plane_config\<lparr>pc_hcaName := hca, pc_port := int port, pc_planeId := int plane\<rparr>)"

lemma trim_id: "\<forall>c \<in> set s. \<not> is_space c \<Longrightarrow> trim s = s"
proof -
  assume all: "\<forall>c \<in> set s. \<not> is_space c"
  have keep: "\<forall>c \<in> set t. \<not> is_space c \<Longrightarrow> dropWhile is_space t = t" for t
    by (cases t) auto
  show "trim s = s" using keep [of s] keep [of "rev s"] all by (simp add: trim_def)
qed

lemma show_nat_not_Nil [simp]: "show_nat n \<noteq> []"
  using show_nat_Cons [of n] by auto

lemma show_nat_chars: "c \<in> set (show_nat n) \<Longrightarrow> \<not> is_space c \<and> c \<noteq> CHR '':'' \<and> c \<noteq> CHR '',''"
  using show_nat_digits [of n] decimalD(2,4) [of c] by auto

lemma cast_int_id [simp]: "- (2 ^ 31) \<le> x \<Longrightarrow> x < 2 ^ 31 \<Longrightarrow> cast_int x = x"
  by (simp add: cast_int_def)

lemma print_hca_entry_chars:
  assumes "plain_entry e"
  shows "\<forall>c \<in> set (print_hca_entry e). \<not> is_space c \<and> c \<noteq> CHR '',''" and "print_hca_entry e \<noteq> []"
proof -
  obtain hca port plane where e: "e = (hca, port, plane)" by (cases e)
  have "\<forall>c \<in> set (show_nat n). \<not> is_space c \<and> c \<noteq> CHR '',''" for n
    using show_nat_chars by blast
  moreover have "\<not> is_space CHR '':''" by code_simp
  moreover have "\<forall>c \<in> set hca. \<not> is_space c \<and> c \<noteq> CHR '',''"
    using assms by (simp add: plain_entry_def e)
  ultimately show "\<forall>c \<in> set (print_hca_entry e). \<not> is_space c \<and> c \<noteq> CHR '',''"
    by (simp add: print_hca_entry_def e ball_Un)
  show "print_hca_entry e \<noteq> []" by (simp add: print_hca_entry_def e)
qed

lemma parse_print_hca_entry:
  assumes "plain_entry e"
  shows "parse_hca_entry (print_hca_entry e) = Inr (entry_config e)"
proof -
  obtain hca port plane where e: "e = (hca, port, plane)" by (cases e)
  with assms have hca: "CHR '':'' \<notin> set hca" and ok: "\<forall>c \<in> set hca. \<not> is_space c"
    and port: "0 < port" "port < 2 ^ 31" and plane: "plane < 8"
    by (auto simp: plain_entry_def)
  have no: "CHR '':'' \<notin> set (show_nat n)" for n using show_nat_chars by blast
  have "split_entry (print_hca_entry e) = Some (hca, show_nat port, show_nat plane)"
    by (simp add: split_entry_def print_hca_entry_def e getline_prefix(1) [OF hca]
        getline_prefix(1) [OF no] getline_prefix(2) [OF no])
  with port plane show ?thesis
    by (simp add: parse_hca_entry_def entry_config_def e trim_id [OF ok] kMaxPlanes_def)
qed

lemma parse_entries_print:
  "\<forall>e \<in> set es. plain_entry e \<Longrightarrow>
   parse_entries (map print_hca_entry es) planes = (ncclSuccess, planes @ map entry_config es, None)"
proof (induction es arbitrary: planes)
  case Nil
  then show ?case by simp
next
  case (Cons e es)
  then have e: "plain_entry e" by simp
  then have "trim (print_hca_entry e) = print_hca_entry e"
    using trim_id [of "print_hca_entry e"] print_hca_entry_chars(1) [of e] by simp
  with Cons e show ?case
    by (simp add: Let_def print_hca_entry_chars(2) parse_print_hca_entry)
qed

text \<open>Printing a list of adapters as \<open>hca:port:plane\<close> entries separated by commas and parsing
  it gives back the same list in the same order, for any names without separators or blanks, ports
  that fit an \<open>int\<close> and planes below the limit.\<close>

theorem hca_list_roundtrip:
  assumes "\<forall>e \<in> set es. plain_entry e"
  shows "parse_hca_list (Some (join CHR '','' (map print_hca_entry es))) =
    (ncclSuccess, map entry_config es, None)"
proof -
  have "\<forall>x \<in> set (map print_hca_entry es). x \<noteq> [] \<and> CHR '','' \<notin> set x"
    using assms print_hca_entry_chars by fastforce
  then have "fields_of CHR '','' (join CHR '','' (map print_hca_entry es)) = map print_hca_entry es"
    by (rule fields_of_join)
  then show ?thesis
    using parse_entries_print [OF assms, of "[]"] by (simp add: parse_hca_list_def)
qed

theorem hca_list_roundtrip_witness:
  "parse_hca_list (Some (join CHR '','' (map print_hca_entry [(''mlx5_0'', 1, 0), (''mlx5_1'', 1, 1)]))) =
    (ncclSuccess, map entry_config [(''mlx5_0'', 1, 0), (''mlx5_1'', 1, 1)], None)"
  by (rule hca_list_roundtrip) (simp add: plain_entry_def is_space_def)

text \<open>The planes of an accepted or rejected list: bounds that the tables indexed by plane rely on.\<close>

lemma parse_hca_entry_plane:
  "parse_hca_entry e = Inr p \<Longrightarrow> 0 \<le> pc_planeId p \<and> pc_planeId p < int kMaxPlanes"
  by (auto simp: parse_hca_entry_def kMaxPlanes_def default_plane_config_def
      split: option.splits if_splits)

lemma parse_entries_planes:
  assumes "parse_entries es planes = (res, out, err)"
    and "\<forall>p \<in> set planes. 0 \<le> pc_planeId p \<and> pc_planeId p < int kMaxPlanes"
  shows "\<forall>p \<in> set out. 0 \<le> pc_planeId p \<and> pc_planeId p < int kMaxPlanes"
  using assms
proof (induction es arbitrary: planes)
  case Nil
  then show ?case by simp
next
  case (Cons e es)
  show ?case
  proof (cases "trim e = []")
    case True
    with Cons.prems(1) have "parse_entries es planes = (res, out, err)" by simp
    then show ?thesis using Cons.prems(2) by (rule Cons.IH)
  next
    case False
    show ?thesis
    proof (cases "parse_hca_entry (trim e)")
      case (Inl x)
      with Cons.prems(1) False have "out = planes" by (simp add: Let_def)
      with Cons.prems(2) show ?thesis by simp
    next
      case (Inr p)
      then have "0 \<le> pc_planeId p \<and> pc_planeId p < int kMaxPlanes" by (rule parse_hca_entry_plane)
      with Cons.prems(2)
      have "\<forall>p \<in> set (planes @ [p]). 0 \<le> pc_planeId p \<and> pc_planeId p < int kMaxPlanes" by simp
      moreover from Cons.prems(1) Inr False have "parse_entries es (planes @ [p]) = (res, out, err)"
        by (simp add: Let_def)
      ultimately show ?thesis by (intro Cons.IH)
    qed
  qed
qed

text \<open>C29. Whatever the environment holds, every plane of a loaded configuration has an identifier
  from 0 to 7: the bound the probe thread's two counter arrays of \<open>kMaxPlanes\<close> entries rely on.\<close>

theorem load_config_planes_in_range:
  assumes "load_config getenv = (res, config)" and "p \<in> set (cf_planes config)"
  shows "0 \<le> pc_planeId p \<and> pc_planeId p < int kMaxPlanes"
proof -
  obtain r planes err where parse: "parse_hca_list (getenv ''NCCL_DPFR_IB_HCA_LIST'') = (r, planes, err)"
    by (cases "parse_hca_list (getenv ''NCCL_DPFR_IB_HCA_LIST'')")
  have all: "\<forall>q \<in> set planes. 0 \<le> pc_planeId q \<and> pc_planeId q < int kMaxPlanes"
  proof (cases "getenv ''NCCL_DPFR_IB_HCA_LIST''")
    case None
    with parse show ?thesis by (simp add: parse_hca_list_def)
  next
    case (Some t)
    with parse have "parse_entries (fields_of CHR '','' t) [] = (r, planes, err)"
      by (simp add: parse_hca_list_def)
    then show ?thesis by (rule parse_entries_planes) simp
  qed
  from assms(1) parse have "map pc_planeId (cf_planes config) = map pc_planeId planes"
    by (auto simp: load_config_def Let_def default_plugin_config_def split: if_splits)
  then have "pc_planeId ` set (cf_planes config) = pc_planeId ` set planes" by (metis set_map)
  with assms(2) all show ?thesis by (metis (no_types, lifting) imageE imageI)
qed

definition sample_environ :: environ where
  "sample_environ name = (if name = ''NCCL_DPFR_IB_HCA_LIST'' then Some ''mlx5_0:1:0'' else None)"

lemma sample_config:
  "load_config sample_environ =
    (ncclSuccess, default_plugin_config\<lparr>cf_planes :=
       [default_plane_config\<lparr>pc_hcaName := ''mlx5_0'', pc_port := 1, pc_planeId := 0\<rparr>]\<rparr>)"
proof -
  have "parse_hca_list (Some ''mlx5_0:1:0'') =
    (ncclSuccess, [default_plane_config\<lparr>pc_hcaName := ''mlx5_0'', pc_port := 1, pc_planeId := 0\<rparr>], None)"
    by code_simp
  then show ?thesis
    by (simp add: load_config_def sample_environ_def env_int_def env_str_def plane_variable_def
        default_plugin_config_def default_plane_config_def)
qed

theorem load_config_planes_in_range_witness:
  "\<exists>config. load_config sample_environ = (ncclSuccess, config) \<and>
     0 \<le> pc_planeId (hd (cf_planes config)) \<and> pc_planeId (hd (cf_planes config)) < int kMaxPlanes"
  using load_config_planes_in_range [OF sample_config,
      of "default_plane_config\<lparr>pc_hcaName := ''mlx5_0'', pc_port := 1, pc_planeId := 0\<rparr>"]
  by (simp add: sample_config)

text \<open>A port that does not fit an \<open>int\<close> passes the check \<open>port > 0\<close> on the \<open>long\<close> and is
  narrowed afterwards, so the list is accepted with a port the text does not name: \<open>2^32\<close> becomes
  the port 0 that the check was meant to exclude.\<close>

theorem hca_port_is_narrowed_after_the_check:
  "parse_hca_list (Some ''x:4294967296:0'') =
    (ncclSuccess, [default_plane_config\<lparr>pc_hcaName := ''x'', pc_port := 0, pc_planeId := 0\<rparr>], None)"
  by code_simp

section \<open>Control lines\<close>

lemma read_token_word:
  assumes "w \<noteq> []" and "\<forall>c \<in> set w. \<not> is_space c" and "r = [] \<or> is_space (hd r)"
  shows "read_token (w @ r) = Some (w, r)"
proof -
  from assms(1,2) have "dropWhile is_space (w @ r) = w @ r" by (cases w) auto
  moreover have "takeWhile (\<lambda>c. \<not> is_space c) r = []" and "dropWhile (\<lambda>c. \<not> is_space c) r = r"
    using assms(3) by (cases r; auto)+
  ultimately show ?thesis using assms(1,2)
    by (simp add: read_token_def Let_def takeWhile_append2 dropWhile_append2)
qed

lemma is_space_blank [simp]: "is_space CHR '' ''"
  by code_simp

lemma read_token_blank [simp]:
  "read_token (CHR '' '' # s) = read_token s" "read_token [] = None"
  by (simp_all add: read_token_def)

lemma read_int_show_nat:
  assumes "n < 2 ^ 31" and "r = [] \<or> \<not> is_digit 10 (hd r)"
  shows "read_int (CHR '' '' # show_nat n @ r) = Some (int n, r)"
proof -
  from show_nat_Cons [of n] obtain d s where n: "show_nat n = digit d # s" and "d < 10" by blast
  then have c: "decimal (digit d)" by simp
  have "dropWhile is_space (show_nat n @ r) = show_nat n @ r" "split_sign (show_nat n @ r) = (False, show_nat n @ r)"
    using decimalD(2,4) [OF c] by (simp_all add: n)
  moreover have "takeWhile (is_digit 10) r = []" and "dropWhile (is_digit 10) r = r"
    using assms(2) by (cases r; auto)+
  moreover have "\<forall>c \<in> set (show_nat n). is_digit 10 c" using show_nat_digits decimalD(1) by blast
  ultimately show ?thesis using assms(1)
    by (simp add: read_int_def Let_def takeWhile_append2 dropWhile_append2 show_nat_value signed_value_def)
qed

definition state_words :: "string list" where
  "state_words = broken_words @ recovered_words"

lemma word_table:
  "list_all (\<lambda>w. w \<noteq> [] \<and> w \<noteq> ''plane'' \<and> list_all (\<lambda>c. \<not> is_space c \<and> c \<notin> set ''=,;:'') w \<and>
     (w \<in> set broken_words \<longleftrightarrow> w \<notin> set recovered_words)) state_words"
  by code_simp

lemma state_word:
  assumes "w \<in> set state_words"
  shows "w \<noteq> []" and "w \<noteq> ''plane''" and "\<forall>c \<in> set w. \<not> is_space c"
    and "\<forall>c \<in> set w. c \<notin> set ''=,;:''" and "w \<in> set broken_words \<longleftrightarrow> w \<notin> set recovered_words"
  using bspec [OF word_table [unfolded list_all_iff] assms] by blast+

lemma plane_word: "\<forall>c \<in> set ''plane''. \<not> is_space c"
  by code_simp

lemma read_words_state:
  assumes "w \<in> set state_words" and "r = [] \<or> is_space (hd r)"
  shows "read_words (CHR '' '' # w @ r) i rec p st = read_words r i (w \<in> set recovered_words) p True"
    and "read_words (w @ r) i rec p st = read_words r i (w \<in> set recovered_words) p True"
proof -
  note w = state_word [OF assms(1)]
  have "read_token (w @ r) = Some (w, r)" using w(1,3) assms(2) by (rule read_token_word)
  with w(2,5) show "read_words (w @ r) i rec p st = read_words r i (w \<in> set recovered_words) p True"
    "read_words (CHR '' '' # w @ r) i rec p st = read_words r i (w \<in> set recovered_words) p True"
    by (simp_all add: read_words.simps [of "w @ r"] read_words.simps [of "CHR '' '' # w @ r"])
qed

lemma read_words_plane:
  assumes "n < 2 ^ 31" and "r = [] \<or> \<not> is_digit 10 (hd r)"
  shows "read_words (''plane'' @ CHR '' '' # show_nat n @ r) i rec p st = read_words r (int n) rec True st"
    and "read_words (CHR '' '' # ''plane'' @ CHR '' '' # show_nat n @ r) i rec p st =
      read_words r (int n) rec True st"
proof -
  have "read_token (''plane'' @ CHR '' '' # show_nat n @ r) = Some (''plane'', CHR '' '' # show_nat n @ r)"
    using plane_word by (intro read_token_word) simp_all
  with read_int_show_nat [OF assms]
  show "read_words (''plane'' @ CHR '' '' # show_nat n @ r) i rec p st = read_words r (int n) rec True st"
    "read_words (CHR '' '' # ''plane'' @ CHR '' '' # show_nat n @ r) i rec p st =
      read_words r (int n) rec True st"
    by (simp_all add: read_words.simps [of "CHR ''p'' # s" for s] read_words.simps [of "CHR '' '' # CHR ''p'' # s" for s])
qed

lemma read_words_Nil [simp]: "read_words [] i rec p st = (i, rec, p, st)"
  by (simp add: read_words.simps)

definition blank_separators :: "string \<Rightarrow> string" where
  "blank_separators s = map (\<lambda>c. if c \<in> set ''=,;:'' then CHR '' '' else c) s"

lemma normalize_lower: "normalize line = blank_separators (lower line)"
  by (simp add: normalize_def blank_separators_def)

lemma blank_separators_id: "\<forall>c \<in> set s. c \<notin> set ''=,;:'' \<Longrightarrow> blank_separators s = s"
  unfolding blank_separators_def by (rule map_idI) auto

text \<open>A control line that names a plane and a state, in either order, with any of the accepted
  separators and in any capitalisation, is understood: the plane is the number written and the
  direction is the one of the state word, whatever the output parameters held before.\<close>

theorem plane_control_line_understood:
  assumes "n < 2 ^ 31" and "w \<in> set state_words"
    and "a \<in> set '' =,;:''" and "b \<in> set '' =,;:''"
    and "lower line \<in> {''plane'' @ a # show_nat n @ b # w, w @ b # ''plane'' @ a # show_nat n}"
  shows "parse_plane_control_line line planeId recovered = (True, int n, w \<in> set recovered_words)"
proof -
  have sep: "blank_separators (a # s) = CHR '' '' # blank_separators s"
    "blank_separators (b # s) = CHR '' '' # blank_separators s" for s
    using assms(3,4) by (auto simp: blank_separators_def)
  have app: "blank_separators (s @ t) = blank_separators s @ blank_separators t" for s t
    by (simp add: blank_separators_def)
  have w: "blank_separators w = w" by (rule blank_separators_id) (rule state_word(4) [OF assms(2)])
  have n: "blank_separators (show_nat n) = show_nat n"
    using show_nat_digits [of n] decimalD(4) by (intro blank_separators_id) auto
  have plane: "blank_separators ''plane'' = ''plane''" by code_simp
  note norm = normalize_lower app sep w n plane append_Nil2
  from assms(5) have "lower line = ''plane'' @ a # show_nat n @ b # w \<or>
    lower line = w @ b # ''plane'' @ a # show_nat n" by blast
  then consider "normalize line = ''plane'' @ CHR '' '' # show_nat n @ CHR '' '' # w @ []"
    | "normalize line = w @ CHR '' '' # ''plane'' @ CHR '' '' # show_nat n @ []"
    by (elim disjE) (simp_all only: norm)
  then show ?thesis
  proof cases
    case 1
    have "\<not> is_digit 10 CHR '' ''" by code_simp
    then have "read_words (normalize line) planeId recovered False False =
      (int n, w \<in> set recovered_words, True, True)"
      by (simp only: 1 read_words_plane(1) [OF assms(1)] list.sel simp_thms
          read_words_state(1) [OF assms(2), of "[]"] read_words_Nil)
    then show ?thesis by (simp add: parse_plane_control_line_def)
  next
    case 2
    have "read_words (normalize line) planeId recovered False False =
      (int n, w \<in> set recovered_words, True, True)"
      by (simp only: 2 read_words_plane(2) [OF assms(1), of "[]"] list.sel simp_thms is_space_blank
          read_words_state(2) [OF assms(2)] read_words_Nil)
    then show ?thesis by (simp add: parse_plane_control_line_def)
  qed
qed

theorem plane_control_line_understood_witness:
  "parse_plane_control_line ''Plane=3,DOWN'' (-1) True = (True, 3, False)"
proof -
  have "lower ''Plane=3,DOWN'' = ''plane'' @ CHR ''='' # show_nat 3 @ CHR '','' # ''down''" by code_simp
  moreover have "''down'' \<in> set state_words" and "''down'' \<notin> set recovered_words" by code_simp+
  ultimately show ?thesis
    using plane_control_line_understood [of 3 "''down''" "CHR ''=''" "CHR '',''" "''Plane=3,DOWN''" "-1" True]
    by simp
qed

end
