(* ===== verification/ControlWire.thy ===== *)
theory ControlWire
  imports Prelude
begin

text \<open>
  The control messages of \<open>plugins/net/dpfr_ib/src/control_wire.{h,cc}\<close>: the connection handle,
  the description of a queue pair, the message and their validity checks.

  The code has no encoder: \<open>sendMessage\<close> writes the bytes of the structure in memory and \<open>popMessage\<close> copies
  them back.  What these bytes are is not written in the source but fixed by the platform; \<open>msg_bytes\<close> and
  \<open>msg_of_bytes\<close> state it for the supported hosts (x86-64 ABI: the fields in their order, little endian, naturally
  aligned; neither structure has padding), so a queue pair takes 48 bytes and a message 488.  What
  \<open>PeerControl\<close> uses of them is what \<open>frame_codec\<close> assumes: a fixed size, and that the bytes determine the message.

  The locale \<open>frame_codec\<close> says what a stream of fixed-size frames relies on; its lemma, that
  the frames of a stream do not depend on how the stream was cut into chunks, is what the
  reassembly in \<open>PeerControl\<close> rests on.
\<close>

section \<open>Constants and structures\<close>

definition kWireMagic :: u32 where
  "kWireMagic = 0x44504652"

definition kWireVersion :: u32 where
  "kWireVersion = 1"

definition kHandleMagic :: u32 where
  "kHandleMagic = 0x44484652"

definition kControlTextBytes :: nat where
  "kControlTextBytes = 64"

text \<open>
  \<open>WireMsgType\<close> has a fixed underlying type, so a received message may hold any 32-bit value;
  the type is that value and the enumerators are its names.
\<close>

definition InitReq :: u32 where "InitReq = 1"
definition InitResp :: u32 where "InitResp = 2"
definition PlaneEvent :: u32 where "PlaneEvent = 3"
definition Query :: u32 where "Query = 4"
definition QueryResp :: u32 where "QueryResp = 5"
definition RecoveryReq :: u32 where "RecoveryReq = 6"
definition RecoveryResp :: u32 where "RecoveryResp = 7"
definition RecoveryReady :: u32 where "RecoveryReady = 8"
definition RecoveryAck :: u32 where "RecoveryAck = 9"
definition WireError :: u32 where "WireError = 10"

definition StatusOk :: u32 where "StatusOk = 0"
definition StatusRetry :: u32 where "StatusRetry = 1"
definition StatusFailed :: u32 where "StatusFailed = 2"

lemmas wire_consts =
  InitReq_def InitResp_def PlaneEvent_def Query_def QueryResp_def RecoveryReq_def RecoveryResp_def
  RecoveryReady_def RecoveryAck_def WireError_def StatusOk_def StatusRetry_def StatusFailed_def

text \<open>The handle's \<open>reserved\<close> and \<open>pad\<close> bytes are never read and have no field here.\<close>

record net_handle =
  nh_magic :: u32
  nh_ipv4 :: u32
  nh_port :: u16
  nh_nonce :: u64

definition default_handle :: net_handle where
  "default_handle = \<lparr>nh_magic = kHandleMagic, nh_ipv4 = 0, nh_port = 0, nh_nonce = 0\<rparr>"

record wire_qp_info =
  wq_planeId :: u32
  wq_generation :: u32
  wq_qpn :: u32
  wq_lid :: u32
  wq_psn :: u32
  wq_mtu :: u32
  wq_gidIndex :: u32
  wq_linkLayer :: u32
  wq_gid :: "u8 list"

definition default_qp_info :: wire_qp_info where
  "default_qp_info =
     \<lparr>wq_planeId = 0, wq_generation = 0, wq_qpn = 0, wq_lid = 0, wq_psn = 0, wq_mtu = 0,
      wq_gidIndex = 0, wq_linkLayer = 0, wq_gid = replicate 16 0\<rparr>"

record wire_msg =
  wm_magic :: u32
  wm_version :: u32
  wm_type :: u32
  wm_status :: u32
  wm_seq :: u64
  wm_planeId :: u32
  wm_generation :: u32
  wm_done :: u32
  wm_nQps :: u32
  wm_qps :: "wire_qp_info list"
  wm_text :: "u8 list"

definition default_msg :: wire_msg where
  "default_msg =
     \<lparr>wm_magic = kWireMagic, wm_version = kWireVersion, wm_type = WireError, wm_status = StatusOk,
      wm_seq = 0, wm_planeId = 0, wm_generation = 0, wm_done = 0, wm_nQps = 0,
      wm_qps = replicate kMaxPlanes default_qp_info, wm_text = replicate kControlTextBytes 0\<rparr>"

section \<open>Construction and validation\<close>

definition make_message :: "u32 \<Rightarrow> wire_msg" where
  "make_message type =
     default_msg\<lparr>wm_magic := kWireMagic, wm_version := kWireVersion, wm_type := type,
                 wm_status := StatusOk\<rparr>"

definition valid_handle :: "net_handle \<Rightarrow> bool" where
  "valid_handle handle \<longleftrightarrow>
     nh_magic handle = kHandleMagic \<and> nh_ipv4 handle \<noteq> 0 \<and> nh_port handle \<noteq> 0"

definition valid_message :: "wire_msg \<Rightarrow> bool" where
  "valid_message msg \<longleftrightarrow>
     wm_magic msg = kWireMagic \<and> wm_version msg = kWireVersion \<and> wm_nQps msg \<le> of_nat kMaxPlanes"

definition valid_qp_info :: "wire_qp_info \<Rightarrow> bool" where
  "valid_qp_info info =
     (if wq_planeId info \<ge> of_nat kMaxPlanes then False
      else if wq_generation info = 0 \<or> wq_qpn info = 0 \<or> wq_mtu info = 0 then False
      else if wq_psn info > 0x00ffffff then False
      else let gidZero = fold (\<lambda>byte z. z \<and> byte = 0) (wq_gid info) True in
           if wq_lid info = 0 \<and> gidZero then False else True)"

text \<open>The arrays of the structures have their declared lengths.\<close>

definition wf_qp_info :: "wire_qp_info \<Rightarrow> bool" where
  "wf_qp_info info \<longleftrightarrow> length (wq_gid info) = 16"

definition wf_msg :: "wire_msg \<Rightarrow> bool" where
  "wf_msg msg \<longleftrightarrow> length (wm_qps msg) = kMaxPlanes \<and> list_all wf_qp_info (wm_qps msg) \<and>
     length (wm_text msg) = kControlTextBytes"

section \<open>Byte images\<close>

definition le_bytes :: "nat \<Rightarrow> 'a::len word \<Rightarrow> u8 list" where
  "le_bytes n w = map (\<lambda>k. ucast (drop_bit (8 * k) w)) [0..<n]"

abbreviation bytes32 :: "u32 \<Rightarrow> u8 list" where
  "bytes32 \<equiv> le_bytes 4"

abbreviation bytes64 :: "u64 \<Rightarrow> u8 list" where
  "bytes64 \<equiv> le_bytes 8"

fun of_bytes :: "u8 list \<Rightarrow> 'a::len word" where
  "of_bytes [] = 0"
| "of_bytes (b # bs) = ucast b OR push_bit 8 (of_bytes bs)"

definition get32 :: "nat \<Rightarrow> u8 list \<Rightarrow> u32" where
  "get32 offset bs = of_bytes (take 4 (drop offset bs))"

definition get64 :: "nat \<Rightarrow> u8 list \<Rightarrow> u64" where
  "get64 offset bs = of_bytes (take 8 (drop offset bs))"

definition qp_info_bytes :: "wire_qp_info \<Rightarrow> u8 list" where
  "qp_info_bytes info =
     bytes32 (wq_planeId info) @ bytes32 (wq_generation info) @ bytes32 (wq_qpn info) @
     bytes32 (wq_lid info) @ bytes32 (wq_psn info) @ bytes32 (wq_mtu info) @
     bytes32 (wq_gidIndex info) @ bytes32 (wq_linkLayer info) @ wq_gid info"

definition qp_info_of_bytes :: "u8 list \<Rightarrow> wire_qp_info" where
  "qp_info_of_bytes bs =
     \<lparr>wq_planeId = get32 0 bs, wq_generation = get32 4 bs, wq_qpn = get32 8 bs,
      wq_lid = get32 12 bs, wq_psn = get32 16 bs, wq_mtu = get32 20 bs,
      wq_gidIndex = get32 24 bs, wq_linkLayer = get32 28 bs, wq_gid = take 16 (drop 32 bs)\<rparr>"

definition msg_size :: nat where
  "msg_size = 40 + kMaxPlanes * 48 + kControlTextBytes"

definition msg_bytes :: "wire_msg \<Rightarrow> u8 list" where
  "msg_bytes msg =
     bytes32 (wm_magic msg) @ bytes32 (wm_version msg) @ bytes32 (wm_type msg) @
     bytes32 (wm_status msg) @ bytes64 (wm_seq msg) @ bytes32 (wm_planeId msg) @
     bytes32 (wm_generation msg) @ bytes32 (wm_done msg) @ bytes32 (wm_nQps msg) @
     concat (map qp_info_bytes (wm_qps msg)) @ wm_text msg"

definition msg_of_bytes :: "u8 list \<Rightarrow> wire_msg" where
  "msg_of_bytes bs =
     \<lparr>wm_magic = get32 0 bs, wm_version = get32 4 bs, wm_type = get32 8 bs,
      wm_status = get32 12 bs, wm_seq = get64 16 bs, wm_planeId = get32 24 bs,
      wm_generation = get32 28 bs, wm_done = get32 32 bs, wm_nQps = get32 36 bs,
      wm_qps = map (\<lambda>i. qp_info_of_bytes (take 48 (drop (40 + 48 * i) bs))) [0..<kMaxPlanes],
      wm_text = take kControlTextBytes (drop (40 + 48 * kMaxPlanes) bs)\<rparr>"

section \<open>Round trips\<close>

lemma length_le_bytes [simp]: "length (le_bytes n w) = n"
  by (simp add: le_bytes_def)

lemma bit_of_bytes:
  "bit (of_bytes bs :: 'a::len word) n \<longleftrightarrow>
     n < LENGTH('a) \<and> n div 8 < length bs \<and> bit (bs ! (n div 8)) (n mod 8)"
proof (induction bs arbitrary: n)
  case Nil
  then show ?case by simp
next
  case (Cons b bs)
  show ?case
  proof (cases "n < 8")
    case True
    then show ?thesis by (auto simp: bit_simps)
  next
    case False
    then obtain m where n: "n = 8 + m" by (metis le_iff_add not_less)
    have "\<not> bit b n" using False by (simp add: bit_simps impossible_bit)
    moreover have "(8 + m) div 8 = Suc (m div 8)" by simp
    ultimately show ?thesis using Cons.IH [of m] by (auto simp: n bit_simps)
  qed
qed

lemma of_le_bytes:
  assumes "LENGTH('a) = 8 * k"
  shows "of_bytes (le_bytes k w) = (w :: 'a::len word)"
proof (rule bit_word_eqI)
  fix n
  assume n: "n < LENGTH('a)"
  then have k: "n div 8 < k" using assms by auto
  have "bit (le_bytes k w ! (n div 8)) (n mod 8) = bit w (8 * (n div 8) + n mod 8)"
    using k by (simp add: le_bytes_def bit_simps)
  then show "bit (of_bytes (le_bytes k w) :: 'a word) n = bit w n"
    using n k by (simp add: bit_of_bytes)
qed

lemma of_bytes32 [simp]: "of_bytes (bytes32 w) = w"
  by (rule of_le_bytes) simp

lemma of_bytes64 [simp]: "of_bytes (bytes64 w) = w"
  by (rule of_le_bytes) simp

text \<open>Reading a field at its offset skips the fields before it.\<close>

lemma get32_skip [simp]: "length xs \<le> off \<Longrightarrow> get32 off (xs @ ys) = get32 (off - length xs) ys"
  by (simp add: get32_def)

lemma get32_here [simp]: "get32 0 (bytes32 w @ ys) = w"
  by (simp add: get32_def)

lemma get64_skip [simp]: "length xs \<le> off \<Longrightarrow> get64 off (xs @ ys) = get64 (off - length xs) ys"
  by (simp add: get64_def)

lemma get64_here [simp]: "get64 0 (bytes64 w @ ys) = w"
  by (simp add: get64_def)

lemma length_qp_info_bytes [simp]: "wf_qp_info info \<Longrightarrow> length (qp_info_bytes info) = 48"
  by (simp add: qp_info_bytes_def wf_qp_info_def)

lemma qp_info_roundtrip [simp]: "wf_qp_info info \<Longrightarrow> qp_info_of_bytes (qp_info_bytes info) = info"
  by (simp add: qp_info_bytes_def qp_info_of_bytes_def wf_qp_info_def)

lemma concat_blocks:
  assumes "list_all (\<lambda>b. length b = n) bss"
  shows "length (concat bss) = n * length bss"
    and "i < length bss \<Longrightarrow> take n (drop (n * i) (concat bss @ ys)) = bss ! i"
proof -
  show len: "length (concat bss) = n * length bss"
    using assms by (induction bss) auto
  show "i < length bss \<Longrightarrow> take n (drop (n * i) (concat bss @ ys)) = bss ! i"
    using assms
  proof (induction bss arbitrary: i)
    case Nil
    then show ?case by simp
  next
    case (Cons b bss)
    then show ?case by (cases i) auto
  qed
qed

lemma qps_bytes:
  assumes "list_all wf_qp_info qps"
  shows "length (concat (map qp_info_bytes qps)) = 48 * length qps"
    and "i < length qps \<Longrightarrow>
      qp_info_of_bytes (take 48 (drop (48 * i) (concat (map qp_info_bytes qps) @ ys))) = qps ! i"
proof -
  have "list_all (\<lambda>b. length b = 48) (map qp_info_bytes qps)"
    using assms by (simp add: list_all_iff)
  from concat_blocks [OF this]
  show "length (concat (map qp_info_bytes qps)) = 48 * length qps"
    and "i < length qps \<Longrightarrow>
      qp_info_of_bytes (take 48 (drop (48 * i) (concat (map qp_info_bytes qps) @ ys))) = qps ! i"
    using assms by (auto simp: list_all_length)
qed

lemma length_msg_bytes [simp]: "wf_msg msg \<Longrightarrow> length (msg_bytes msg) = msg_size"
  by (simp add: wf_msg_def msg_bytes_def msg_size_def qps_bytes)

lemma msg_of_msg_bytes:
  assumes "wf_msg msg"
  shows "msg_of_bytes (msg_bytes msg) = msg"
proof -
  have len: "length (wm_qps msg) = kMaxPlanes" and qps: "list_all wf_qp_info (wm_qps msg)"
    and body: "length (wm_text msg) = kControlTextBytes"
    using assms by (auto simp: wf_msg_def)
  have "map (\<lambda>i. qp_info_of_bytes (take 48 (drop (40 + 48 * i) (msg_bytes msg)))) [0..<kMaxPlanes]
      = wm_qps msg"
    by (rule nth_equalityI)
      (simp_all add: len msg_bytes_def qps_bytes(1) [OF qps]
        qps_bytes(2) [OF qps, where ys = "[]", simplified])
  moreover have "take kControlTextBytes (drop (40 + 48 * kMaxPlanes) (msg_bytes msg)) = wm_text msg"
    by (simp add: msg_bytes_def qps_bytes [OF qps] len body)
  ultimately show "msg_of_bytes (msg_bytes msg) = msg"
    by (simp add: msg_of_bytes_def) (simp add: msg_bytes_def)
qed

text \<open>The byte image of a message has 488 bytes and loses nothing: copying the bytes back into
  a message gives the message that was sent, field by field, with its queue pairs and text.\<close>

theorem msg_roundtrip:
  assumes "wf_msg msg"
  shows "length (msg_bytes msg) = 488 \<and> msg_of_bytes (msg_bytes msg) = msg"
  using assms
  by (simp add: msg_of_msg_bytes msg_size_def kMaxPlanes_def kControlTextBytes_def)

lemma wf_make_message [simp]: "wf_msg (make_message type)"
  by (simp add: wf_msg_def make_message_def default_msg_def default_qp_info_def wf_qp_info_def
      list_all_iff)

theorem msg_roundtrip_witness:
  "length (msg_bytes (make_message Query)) = 488 \<and>
   msg_of_bytes (msg_bytes (make_message Query)) = make_message Query"
  by (rule msg_roundtrip) simp

section \<open>Streams of fixed-size frames\<close>

fun split_frames :: "nat \<Rightarrow> nat \<Rightarrow> 'b list \<Rightarrow> 'b list list \<times> 'b list" where
  "split_frames 0 n buf = ([], buf)"
| "split_frames (Suc fuel) n buf =
     (if n = 0 \<or> length buf < n then ([], buf)
      else let (fs, rest) = split_frames fuel n (drop n buf) in (take n buf # fs, rest))"

locale frame_codec =
  fixes enc :: "'m \<Rightarrow> 'b list" and dec :: "'b list \<Rightarrow> 'm" and ok :: "'m \<Rightarrow> bool" and size :: nat
  assumes size_pos: "0 < size"
    and enc_size: "ok m \<Longrightarrow> length (enc m) = size"
    and dec_enc: "ok m \<Longrightarrow> dec (enc m) = m"
begin

lemma split_stream:
  "list_all ok ms \<Longrightarrow> length rest < size \<Longrightarrow> length ms \<le> fuel \<Longrightarrow>
   split_frames fuel size (concat (map enc ms) @ rest) = (map enc ms, rest)"
proof (induction ms arbitrary: fuel)
  case Nil
  then show ?case by (cases fuel) auto
next
  case (Cons m ms)
  then obtain f where f: "fuel = Suc f" by (cases fuel) auto
  have "length (enc m) = size" using Cons.prems enc_size by simp
  with Cons size_pos show ?case by (simp add: f)
qed

lemma decode_stream:
  "list_all ok ms \<Longrightarrow> length rest < size \<Longrightarrow> length ms \<le> fuel \<Longrightarrow>
   map dec (fst (split_frames fuel size (concat (map enc ms) @ rest))) = ms"
  by (simp add: split_stream) (induction ms, auto simp: dec_enc)

lemma first_frame:
  assumes "ok m"
  shows "take size (enc m @ buf) = enc m" and "drop size (enc m @ buf) = buf"
    and "\<not> length (enc m @ buf) < size" and "dec (take size (enc m @ buf)) = m"
  using assms by (simp_all add: enc_size dec_enc)

end

interpretation wire_frames: frame_codec msg_bytes msg_of_bytes wf_msg msg_size
proof
  show "0 < msg_size" by (simp add: msg_size_def kControlTextBytes_def)
next
  fix m
  assume "wf_msg m"
  then show "length (msg_bytes m) = msg_size" by simp
  from \<open>wf_msg m\<close> show "msg_of_bytes (msg_bytes m) = m" by (rule msg_of_msg_bytes)
qed

text \<open>What the receiver of a queue pair description relies on.\<close>

lemma valid_qp_info_iff:
  "valid_qp_info info \<longleftrightarrow> wq_planeId info < 8 \<and> wq_generation info \<noteq> 0 \<and> wq_qpn info \<noteq> 0 \<and>
     wq_mtu info \<noteq> 0 \<and> wq_psn info \<le> 0x00ffffff \<and>
     (wq_lid info \<noteq> 0 \<or> (\<exists>b \<in> set (wq_gid info). b \<noteq> 0))"
proof -
  have "fold (\<lambda>byte z. z \<and> byte = 0) bs a \<longleftrightarrow> a \<and> (\<forall>b \<in> set bs. b = (0::u8))" for bs a
    by (induction bs arbitrary: a) auto
  then show ?thesis
    by (auto simp: valid_qp_info_def kMaxPlanes_def not_le not_less)
qed

end
