(* ===== verification/VerbsDevice.thy ===== *)
theory VerbsDevice
  imports Ledger SampleWorld DpfrConfig ControlWire
begin

text \<open>
  The adapters of \<open>plugins/net/dpfr_ib/src/verbs_device.{h,cc}\<close>: one opened port per fault plane.
  The vector of devices is the field \<open>devices\<close> of the state and a \<open>PlaneDevice*\<close> is an index into
  it.  \<open>break\<close> out of the loops of \<open>openPlaneDevices\<close> is the end of the recursion over the rest of
  the list.
\<close>

record plane_device =
  pd_planeId :: int
  pd_hcaName :: string
  pd_port :: int
  pd_gidIndex :: int
  pd_context :: ptr
  pd_pd :: ptr
  pd_portAttr :: port_attr
  pd_gid :: "u8 list"
  pd_linkLayer :: u8

definition default_port_attr :: port_attr where
  "default_port_attr = \<lparr>pa_state = IBV_PORT_OTHER 0, pa_lid = 0, pa_active_mtu = 0, pa_link_layer = 0\<rparr>"

definition default_plane_device :: plane_device where
  "default_plane_device =
     \<lparr>pd_planeId = 0, pd_hcaName = [], pd_port = 1, pd_gidIndex = 0, pd_context = null,
      pd_pd = null, pd_portAttr = default_port_attr, pd_gid = replicate 16 0, pd_linkLayer = 0\<rparr>"

record 'w devices_st = "'w machine" +
  devices :: "plane_device list"

section \<open>Opening and closing\<close>

text \<open>\<open>ibv_query_port\<close> succeeded and the port is active; the port number is passed as a \<open>uint8_t\<close>.\<close>

definition port_active :: "port_attr option \<Rightarrow> bool" where
  "port_active attr = (case attr of None \<Rightarrow> False | Some a \<Rightarrow> pa_state a = IBV_PORT_ACTIVE)"

definition name_matches :: "'w env \<Rightarrow> ptr \<Rightarrow> string \<Rightarrow> bool" where
  "name_matches env device hcaName \<longleftrightarrow> hcaName = ibv_get_device_name env device"

definition open_one_plane ::
    "'w env \<Rightarrow> ptr \<Rightarrow> plane_config \<Rightarrow> int \<Rightarrow> (('w, 'z) devices_st_scheme, nccl_result) prog" where
  "open_one_plane env device cfg gidIndex =
     (let port = (word_of_int (pc_port cfg) :: u8) in
      seq (call (ibv_open_device env device)) (\<lambda>context.
      if context = null then ret ncclSystemError
      else seq (call (ibv_query_port env context port)) (\<lambda>attr.
      if \<not> port_active attr
      then seq (call_void (ibv_close_device env context)) (\<lambda>_. ret ncclSystemError)
      else seq (call (ibv_query_gid env context port gidIndex)) (\<lambda>gid.
      if gid = None
      then seq (call_void (ibv_close_device env context)) (\<lambda>_. ret ncclSystemError)
      else seq (call (ibv_alloc_pd env context)) (\<lambda>pd.
      if pd = null
      then seq (call_void (ibv_close_device env context)) (\<lambda>_. ret ncclSystemError)
      else seq (modify (\<lambda>s. s\<lparr>devices := devices s @
             [default_plane_device\<lparr>pd_planeId := pc_planeId cfg,
                pd_hcaName := ibv_get_device_name env device, pd_port := pc_port cfg,
                pd_gidIndex := gidIndex, pd_context := context, pd_pd := pd,
                pd_portAttr := the attr, pd_gid := the gid,
                pd_linkLayer := pa_link_layer (the attr)\<rparr>]\<rparr>))
        (\<lambda>_. ret ncclSuccess))))))"

definition is_zero_gid :: "u8 list \<Rightarrow> bool" where
  "is_zero_gid gid \<longleftrightarrow> gid = replicate 16 0"

definition close_plane_devices :: "'w env \<Rightarrow> (('w, 'z) devices_st_scheme, unit) prog" where
  "close_plane_devices env =
     seq (gets devices) (\<lambda>ds.
     seq (for_all_do ds (\<lambda>device.
       seq (if pd_pd device \<noteq> null then call_void (ibv_dealloc_pd env (pd_pd device)) else ret ())
         (\<lambda>_. if pd_context device \<noteq> null
              then call_void (ibv_close_device env (pd_context device)) else ret ())))
     (\<lambda>_. modify (\<lambda>s. s\<lparr>devices := []\<rparr>)))"

section \<open>Discovery\<close>

text \<open>The ports of one adapter; the result and the next plane number.\<close>

fun scan_ports ::
    "'w env \<Rightarrow> ptr \<Rightarrow> ptr \<Rightarrow> int \<Rightarrow> nat list \<Rightarrow> nat
     \<Rightarrow> (('w, 'z) devices_st_scheme, nccl_result \<times> nat) prog" where
  "scan_ports env device ctx gidIndex [] nextPlane = ret (ncclSuccess, nextPlane)"
| "scan_ports env device ctx gidIndex (port # ports) nextPlane =
     (if kMaxPlanes \<le> nextPlane then ret (ncclSuccess, nextPlane)
      else seq (call (ibv_query_port env ctx (of_nat port))) (\<lambda>attr.
        if \<not> port_active attr then scan_ports env device ctx gidIndex ports nextPlane
        else seq (open_one_plane env device
               (default_plane_config\<lparr>pc_hcaName := ibv_get_device_name env device,
                  pc_port := int port, pc_planeId := int nextPlane\<rparr>) gidIndex) (\<lambda>result.
          if result \<noteq> ncclSuccess then ret (result, nextPlane + 1)
          else scan_ports env device ctx gidIndex ports (nextPlane + 1))))"

fun scan_devices ::
    "'w env \<Rightarrow> int \<Rightarrow> ptr list \<Rightarrow> nat \<Rightarrow> (('w, 'z) devices_st_scheme, nccl_result) prog" where
  "scan_devices env gidIndex [] nextPlane = ret ncclSuccess"
| "scan_devices env gidIndex (device # rest) nextPlane =
     (if kMaxPlanes \<le> nextPlane then ret ncclSuccess
      else seq (call (ibv_open_device env device)) (\<lambda>ctx.
        if ctx = null then scan_devices env gidIndex rest nextPlane
        else seq (call (ibv_query_device env ctx)) (\<lambda>ports.
          case ports of
            None \<Rightarrow> seq (call_void (ibv_close_device env ctx))
                      (\<lambda>_. scan_devices env gidIndex rest nextPlane)
          | Some phys_port_cnt \<Rightarrow>
              seq (scan_ports env device ctx gidIndex [1..<phys_port_cnt + 1] nextPlane)
                (\<lambda>(result, nextPlane').
              seq (call_void (ibv_close_device env ctx)) (\<lambda>_.
              if result \<noteq> ncclSuccess then ret result
              else scan_devices env gidIndex rest nextPlane')))))"

fun open_configured ::
    "'w env \<Rightarrow> int \<Rightarrow> ptr list \<Rightarrow> plane_config list \<Rightarrow> int list
     \<Rightarrow> (('w, 'z) devices_st_scheme, nccl_result) prog" where
  "open_configured env gidIndex list [] seenPlanes = ret ncclSuccess"
| "open_configured env gidIndex list (cfg # cfgs) seenPlanes =
     (if pc_planeId cfg \<in> set seenPlanes then ret ncclInvalidArgument
      else case find (\<lambda>d. name_matches env d (pc_hcaName cfg)) list of
             None \<Rightarrow> ret ncclInvalidArgument
           | Some match \<Rightarrow>
               nccl_check (open_one_plane env match cfg gidIndex)
                 (open_configured env gidIndex list cfgs (pc_planeId cfg # seenPlanes)))"

text \<open>\<open>openPlaneDevices\<close> after \<open>devices->clear()\<close>.\<close>

definition discover_planes ::
    "'w env \<Rightarrow> plugin_config \<Rightarrow> (('w, 'z) devices_st_scheme, nccl_result) prog" where
  "discover_planes env config =
     seq (call (ibv_get_device_list env)) (\<lambda>list.
     case list of
       None \<Rightarrow> ret ncclSystemError
     | Some list \<Rightarrow>
         if list = [] then seq (call_void (ibv_free_device_list env)) (\<lambda>_. ret ncclSystemError)
         else
           seq (if cf_autoDiscover config then scan_devices env (cf_gidIndex config) list 0
                else open_configured env (cf_gidIndex config) list (cf_planes config) []) (\<lambda>result.
           seq (call_void (ibv_free_device_list env)) (\<lambda>_.
           seq (gets devices) (\<lambda>ds.
           if result \<noteq> ncclSuccess \<or> ds = []
           then seq (close_plane_devices env)
                  (\<lambda>_. ret (if result = ncclSuccess then ncclSystemError else result))
           else ret ncclSuccess))))"

definition open_plane_devices ::
    "'w env \<Rightarrow> plugin_config \<Rightarrow> (('w, 'z) devices_st_scheme, nccl_result) prog" where
  "open_plane_devices env config =
     seq (modify (\<lambda>s. s\<lparr>devices := []\<rparr>)) (\<lambda>_. discover_planes env config)"

section \<open>Refresh and lookup\<close>

text \<open>A \<open>PlaneDevice*\<close> argument is null or an index of the vector.\<close>

definition refresh_plane_device ::
    "'w env \<Rightarrow> nat option \<Rightarrow> (('w, 'z) devices_st_scheme, nccl_result) prog" where
  "refresh_plane_device env dev =
     (case dev of
        None \<Rightarrow> ret ncclSystemError
      | Some i \<Rightarrow>
          seq (gets (\<lambda>s. (i < length (devices s), devices s ! i))) (\<lambda>(valid, device).
          if \<not> valid then crash Undefined_behaviour
          else if pd_context device = null \<or> pd_pd device = null then ret ncclSystemError
          else
            let port = (word_of_int (pd_port device) :: u8) in
            seq (call (ibv_query_port env (pd_context device) port)) (\<lambda>portAttr.
            if \<not> port_active portAttr then ret ncclInvalidUsage
            else seq (call (ibv_query_gid env (pd_context device) port (pd_gidIndex device))) (\<lambda>gid.
            case gid of
              None \<Rightarrow> ret ncclInvalidUsage
            | Some gid \<Rightarrow>
                if is_zero_gid gid then ret ncclInvalidUsage
                else seq (modify (\<lambda>s. s\<lparr>devices := (devices s)
                       [i := device\<lparr>pd_portAttr := the portAttr, pd_gid := gid,
                                    pd_linkLayer := pa_link_layer (the portAttr)\<rparr>]\<rparr>))
                  (\<lambda>_. ret ncclSuccess)))))"

definition find_plane_device :: "plane_device list \<Rightarrow> int \<Rightarrow> nat option" where
  "find_plane_device ds planeId = find_index (\<lambda>device. pd_planeId device = planeId) ds"

text \<open>The first interface with an IPv4 address that is not a loopback, as text.\<close>

definition first_non_loopback_ipv4 :: "'w env \<Rightarrow> (('w, 'z) machine_scheme, string) prog" where
  "first_non_loopback_ipv4 env =
     seq (call (sys_getifaddrs env)) (\<lambda>ifaddr.
     case ifaddr of
       None \<Rightarrow> ret ''127.0.0.1''
     | Some interfaces \<Rightarrow>
         ret (case List.map_filter
                     (\<lambda>it. if if_loopback it then None
                           else Option.bind (if_inet it) (inet_ntop env)) interfaces of
                [] \<Rightarrow> ''127.0.0.1''
              | host # _ \<Rightarrow> host))"

section \<open>Resources\<close>

definition handle_of :: "(ptr \<Rightarrow> handle) \<Rightarrow> ptr \<Rightarrow> handle multiset" where
  "handle_of h p = (if p = null then {#} else {#h p#})"

definition device_handles :: "plane_device \<Rightarrow> handle multiset" where
  "device_handles d = handle_of Pd (pd_pd d) + handle_of Context (pd_context d)"

definition devices_handles :: "plane_device list \<Rightarrow> handle multiset" where
  "devices_handles ds = sum_list (map device_handles ds)"

lemma devices_handles_simps [simp]:
  "devices_handles [] = {#}" "devices_handles (ds @ es) = devices_handles ds + devices_handles es"
  "devices_handles (d # ds) = device_handles d + devices_handles ds"
  by (simp_all add: devices_handles_def)

lemma devices_handles_update [simp]:
  "device_handles d = device_handles (ds ! i) \<Longrightarrow> devices_handles (ds[i := d]) = devices_handles ds"
proof (induction ds arbitrary: i)
  case (Cons x ds)
  then show ?case by (cases i) simp_all
qed simp

locale device_resources = resources env book held
  for env :: "'v env" and book :: "'v \<Rightarrow> ledger"
    and held :: "('v, 'z) devices_st_scheme \<Rightarrow> handle multiset" +
  fixes rest :: "('v, 'z) devices_st_scheme \<Rightarrow> handle multiset"
  assumes held_split: "held s = devices_handles (devices s) + rest s"
    and rest_devices: "rest (s\<lparr>devices := ds\<rparr>) = rest s"
begin

lemma rest_world: "rest (s\<lparr>world := w\<rparr>) = rest s"
  using held_world [where s = s and w = w] by (simp add: held_split)

lemma bal_push:
  assumes "pd \<noteq> null" and "c \<noteq> null"
  shows "balances book held (add_mset (Pd pd) (add_mset (Context c) P))
    (modify (\<lambda>s. s\<lparr>devices := devices s @ [d\<lparr>pd_context := c, pd_pd := pd, pd_portAttr := pa,
       pd_gid := g, pd_linkLayer := l\<rparr>]\<rparr>)) (\<lambda>_. P)"
  using assms
  by (intro bal_modify) (simp_all add: held_split rest_devices device_handles_def handle_of_def)

lemma open_one_plane_balanced: "balances book held P (open_one_plane env device cfg g) (\<lambda>_. P)"
  unfolding open_one_plane_def Let_def
  by (rule bal_push bal_rules | simp)+

lemma scan_ports_balanced: "balances book held P (scan_ports env device ctx g ports n) (\<lambda>_. P)"
proof (induction ports arbitrary: n)
  case Nil
  show ?case by (simp add: bal_ret)
next
  case (Cons port ports)
  show ?case unfolding scan_ports.simps
    by (rule Cons.IH open_one_plane_balanced bal_rules | simp)+
qed

lemma scan_devices_balanced: "balances book held P (scan_devices env g list n) (\<lambda>_. P)"
proof (induction list arbitrary: n)
  case Nil
  show ?case by (simp add: bal_ret)
next
  case (Cons device list)
  show ?case unfolding scan_devices.simps
    by (rule Cons.IH scan_ports_balanced bal_rules | simp)+
qed

lemma open_configured_balanced: "balances book held P (open_configured env g list cfgs seen) (\<lambda>_. P)"
proof (induction cfgs arbitrary: seen)
  case Nil
  show ?case by (simp add: bal_ret)
next
  case (Cons cfg cfgs)
  show ?case unfolding open_configured.simps nccl_check_def
    by (rule Cons.IH open_one_plane_balanced bal_rules | simp)+
qed

lemma close_plane_devices_balanced: "balances book held P (close_plane_devices env) (\<lambda>_. P)"
proof -
  let ?body = "\<lambda>device. seq (if pd_pd device \<noteq> null then call_void (ibv_dealloc_pd env (pd_pd device)) else ret ())
         (\<lambda>_. if pd_context device \<noteq> null
              then call_void (ibv_close_device env (pd_context device)) else ret ())"
  have release: "balances book held (add_mset (Pd a) (add_mset (Context b) {#}))
      (seq (call_void (ibv_dealloc_pd env a)) (\<lambda>_. call_void (ibv_close_device env b))) (\<lambda>_. {#})" for a b
    by (rule bal_rules)+
  have body: "balances book held (device_handles d) (?body d) (\<lambda>_. {#})" for d
    unfolding device_handles_def handle_of_def
    using release [of "pd_pd d" "pd_context d"]
    by (cases "pd_pd d = null"; cases "pd_context d = null")
      (simp_all add: bal_ret release_calls bal_seq [OF bal_ret] bal_seq [OF release_calls(2)]
        add_mset_commute)
  have "outstanding_after (book (world s)) (held s + P) (book (world t)) (held t + P)"
    if run: "close_plane_devices env s = Inr (x, t)" for s t :: "('v, 'z) devices_st_scheme" and x
  proof -
    from run obtain u where loop: "for_all_do (devices s) ?body s = Inr ((), u)"
      and t: "t = u\<lparr>devices := []\<rparr>"
      unfolding close_plane_devices_def by (auto elim!: seq_InrE simp: gets_def modify_def)
    have "moves world_only (for_all_do (devices s) ?body)"
      by (intro world_only_rules)
    from movesD [OF this loop] obtain w where u: "u = s\<lparr>world := w\<rparr>"
      unfolding world_only_def by blast
    have "outstanding_after (book (world s)) (held s + devices_handles (devices s)) (book (world u))
        (held u + {#})"
      using bal_run [OF bal_for_all loop] body by (simp add: devices_handles_def)
    then have "outstanding_after (book (world s)) (devices_handles (devices s) + (held s + P)) (book (world u))
        ({#} + (held s + P))"
      unfolding u held_world by (simp add: outstanding_after_def add_ac)
    then show ?thesis
      unfolding t u held_split rest_devices rest_world
      by (simp add: outstanding_after_def add_ac)
  qed
  then show ?thesis by (simp add: balances_def)
qed

lemma device_list_seq:
  assumes "balances book held P (k None) R"
    and "\<And>ds. balances book held (add_mset DeviceList P) (k (Some ds)) R"
  shows "balances book held P (seq (call (ibv_get_device_list env)) k) R"
proof (rule bal_seq)
  show "balances book held P (call (ibv_get_device_list env))
    (\<lambda>r. case r of None \<Rightarrow> P | Some ds \<Rightarrow> add_mset DeviceList P)"
    by (rule bal_call [OF device_list]) (simp split: option.split)
  show "balances book held (case r of None \<Rightarrow> P | Some ds \<Rightarrow> add_mset DeviceList P) (k r) R" for r
    using assms by (cases r) simp_all
qed

lemma discover_planes_balanced: "balances book held {#} (discover_planes env config) (\<lambda>_. {#})"
  unfolding discover_planes_def
  by (rule device_list_seq scan_devices_balanced open_configured_balanced
      close_plane_devices_balanced bal_rules | simp)+

lemma open_plane_devices_balanced:
  assumes "open_plane_devices env config s = Inr (r, t)" and "devices s = []"
  shows "outstanding_after (book (world s)) (held s) (book (world t)) (held t)"
  using assms
  by (auto simp: open_plane_devices_def modify_def held_split rest_devices elim!: seq_InrE
      dest: bal_run [OF discover_planes_balanced])

end

text \<open>A state that holds nothing but its devices.\<close>

interpretation opened: device_resources "traced env" snd "\<lambda>s. devices_handles (devices s)" "\<lambda>_. {#}" for env
  by unfold_locales simp_all

text \<open>C27. Opening the adapters leaks nothing and releases nothing twice, whatever the verbs return:
  on every path, errors included, the contexts, protection domains and device lists acquired are
  those released plus those of the devices left open.\<close>

theorem open_plane_devices_no_leak:
  assumes "open_plane_devices (traced env) config s = Inr (r, t)" and "devices s = []"
  shows "outstanding_after (snd (world s)) {#} (snd (world t)) (devices_handles (devices t))"
  using opened.open_plane_devices_balanced [OF assms] by (simp add: assms(2))

section \<open>What is opened\<close>

lemma open_one_plane_devices:
  assumes "open_one_plane env device cfg g s = Inr (r, t)"
  shows "(r \<noteq> ncclSuccess \<longrightarrow> devices t = devices s) \<and>
    (r = ncclSuccess \<longrightarrow> (\<exists>d. devices t = devices s @ [d] \<and> pd_planeId d = pc_planeId cfg \<and>
       pd_context d \<noteq> null \<and> pd_pd d \<noteq> null))"
  using assms
  by (auto simp: open_one_plane_def Let_def call_def call_void_def modify_def ret_def
      elim!: seq_InrE split: if_splits prod.splits)

text \<open>The numbers of the planes in the order they were opened.\<close>

definition plane_numbers :: "plane_device list \<Rightarrow> int list" where
  "plane_numbers ds = map pd_planeId ds"

lemma open_one_plane_numbers:
  assumes "open_one_plane env device cfg g s = Inr (ncclSuccess, t)"
  shows "plane_numbers (devices t) = plane_numbers (devices s) @ [pc_planeId cfg]"
  using open_one_plane_devices [OF assms] by (auto simp: plane_numbers_def)

lemma scan_ports_numbers:
  assumes "scan_ports env device ctx g ports n s = Inr ((ncclSuccess, m), t)"
    and "plane_numbers (devices s) = map int [0..<n]" and "n \<le> kMaxPlanes"
  shows "plane_numbers (devices t) = map int [0..<m] \<and> m \<le> kMaxPlanes"
  using assms
proof (induction ports arbitrary: n s)
  case Nil
  then show ?case by (simp add: ret_def)
next
  case (Cons port ports)
  show ?case
  proof (cases "kMaxPlanes \<le> n")
    case True
    with Cons.prems show ?thesis by (simp add: ret_def)
  next
    case False
    with Cons.prems(1) obtain attr u where u: "call (ibv_query_port env ctx (of_nat port)) s = Inr (attr, u)"
      and rest: "(if \<not> port_active attr then scan_ports env device ctx g ports n
        else seq (open_one_plane env device (default_plane_config
            \<lparr>pc_hcaName := ibv_get_device_name env device, pc_port := int port, pc_planeId := int n\<rparr>) g)
          (\<lambda>result. if result \<noteq> ncclSuccess then ret (result, n + 1)
            else scan_ports env device ctx g ports (n + 1))) u = Inr ((ncclSuccess, m), t)"
      by (auto elim: seq_InrE)
    from u have same: "devices u = devices s" by (auto simp: call_def split: prod.splits)
    show ?thesis
    proof (cases "port_active attr")
      case False
      with rest have "scan_ports env device ctx g ports n u = Inr ((ncclSuccess, m), t)" by simp
      then show ?thesis using Cons.IH [of n u] Cons.prems(2,3) same by simp
    next
      case True
      with rest obtain v where "open_one_plane env device (default_plane_config
            \<lparr>pc_hcaName := ibv_get_device_name env device, pc_port := int port, pc_planeId := int n\<rparr>) g u
          = Inr (ncclSuccess, v)"
        and more: "scan_ports env device ctx g ports (n + 1) v = Inr ((ncclSuccess, m), t)"
        by (auto elim!: seq_InrE simp: ret_def split: if_splits)
      then have "plane_numbers (devices v) = map int [0..<n + 1]"
        using open_one_plane_numbers Cons.prems(2) same by fastforce
      with more show ?thesis using Cons.IH [of "n + 1" v] False by simp
    qed
  qed
qed

lemma scan_devices_numbers:
  assumes "scan_devices env g list n s = Inr (ncclSuccess, t)"
    and "plane_numbers (devices s) = map int [0..<n]" and "n \<le> kMaxPlanes"
  shows "\<exists>m \<le> kMaxPlanes. plane_numbers (devices t) = map int [0..<m]"
  using assms
proof (induction list arbitrary: n s)
  case Nil
  then show ?case by (auto simp: ret_def)
next
  case (Cons device list)
  show ?case
  proof (cases "kMaxPlanes \<le> n")
    case True
    with Cons.prems show ?thesis by (auto simp: ret_def)
  next
    case False
    with Cons.prems(1) obtain ctx u where "call (ibv_open_device env device) s = Inr (ctx, u)"
      and rest: "(if ctx = null then scan_devices env g list n
        else seq (call (ibv_query_device env ctx)) (\<lambda>ports.
          case ports of
            None \<Rightarrow> seq (call_void (ibv_close_device env ctx)) (\<lambda>_. scan_devices env g list n)
          | Some phys_port_cnt \<Rightarrow>
              seq (scan_ports env device ctx g [1..<phys_port_cnt + 1] n) (\<lambda>(result, nextPlane').
              seq (call_void (ibv_close_device env ctx)) (\<lambda>_.
              if result \<noteq> ncclSuccess then ret result else scan_devices env g list nextPlane')))) u
        = Inr (ncclSuccess, t)"
      by (auto elim: seq_InrE)
    then have same: "devices u = devices s" by (auto simp: call_def split: prod.splits)
    have skip: ?thesis if "scan_devices env g list n v = Inr (ncclSuccess, t)" "devices v = devices s" for v
      using Cons.IH [OF that(1)] that(2) Cons.prems(2,3) by simp
    show ?thesis
    proof (cases "ctx = null")
      case True
      with rest same skip show ?thesis by simp
    next
      case False
      with rest have "seq (call (ibv_query_device env ctx)) (\<lambda>ports. case ports of
            None \<Rightarrow> seq (call_void (ibv_close_device env ctx)) (\<lambda>_. scan_devices env g list n)
          | Some phys_port_cnt \<Rightarrow>
              seq (scan_ports env device ctx g [1..<phys_port_cnt + 1] n) (\<lambda>(result, nextPlane').
              seq (call_void (ibv_close_device env ctx)) (\<lambda>_.
              if result \<noteq> ncclSuccess then ret result else scan_devices env g list nextPlane'))) u
          = Inr (ncclSuccess, t)"
        by (simp only: if_False)
      then obtain ports v where "call (ibv_query_device env ctx) u = Inr (ports, v)"
        and rest: "(case ports of
            None \<Rightarrow> seq (call_void (ibv_close_device env ctx)) (\<lambda>_. scan_devices env g list n)
          | Some phys_port_cnt \<Rightarrow>
              seq (scan_ports env device ctx g [1..<phys_port_cnt + 1] n) (\<lambda>(result, nextPlane').
              seq (call_void (ibv_close_device env ctx)) (\<lambda>_.
              if result \<noteq> ncclSuccess then ret result else scan_devices env g list nextPlane'))) v
          = Inr (ncclSuccess, t)"
        by (rule seq_InrE)
      then have v: "devices v = devices s" by (auto simp: call_def same split: prod.splits)
      show ?thesis
      proof (cases ports)
        case None
        with rest v skip show ?thesis by (auto elim!: seq_InrE simp: call_void_def modify_def)
      next
        case (Some cnt)
        with rest obtain m x where ports: "scan_ports env device ctx g [1..<cnt + 1] n v = Inr ((ncclSuccess, m), x)"
          and more: "scan_devices env g list m (x\<lparr>world := ibv_close_device env ctx (world x)\<rparr>) = Inr (ncclSuccess, t)"
          by (auto elim!: seq_InrE simp: call_void_def modify_def ret_def split: if_splits)
        have "plane_numbers (devices x) = map int [0..<m] \<and> m \<le> kMaxPlanes"
          using scan_ports_numbers [OF ports] v Cons.prems(2,3) by simp
        then show ?thesis using Cons.IH [OF more] by simp
      qed
    qed
  qed
qed

lemma open_configured_numbers:
  assumes "open_configured env g list cfgs seen s = Inr (ncclSuccess, t)"
    and "plane_numbers (devices s) = rev seen" and "distinct seen"
  shows "plane_numbers (devices t) = rev seen @ map pc_planeId cfgs \<and>
    distinct (rev seen @ map pc_planeId cfgs)"
  using assms
proof (induction cfgs arbitrary: seen s)
  case Nil
  then show ?case by (simp add: ret_def)
next
  case (Cons cfg cfgs)
  from Cons.prems(1) have new: "pc_planeId cfg \<notin> set seen" by (auto simp: ret_def split: if_splits)
  with Cons.prems(1) obtain d u where one: "open_one_plane env d cfg g s = Inr (ncclSuccess, u)"
    and more: "open_configured env g list cfgs (pc_planeId cfg # seen) u = Inr (ncclSuccess, t)"
    by (auto simp: ret_def elim!: nccl_check_InrE split: option.splits)
  from open_one_plane_numbers [OF one] Cons.prems(2)
  have "plane_numbers (devices u) = rev (pc_planeId cfg # seen)" by simp
  from Cons.IH [OF more this] new Cons.prems(3) show ?case by simp
qed

lemma close_plane_devices_devices: "close_plane_devices env s = Inr (x, t) \<Longrightarrow> devices t = []"
  by (auto simp: close_plane_devices_def modify_def elim!: seq_InrE)

text \<open>After a successful opening there is at least one device, the planes of the devices are all
  different, and they are the planes of the configuration in its order, or the numbers from 0 on
  (at most 8) when the adapters were discovered; after a failed one there is no device.\<close>

theorem open_plane_devices_planes:
  assumes "open_plane_devices env config s = Inr (r, t)"
  shows "if r = ncclSuccess
    then devices t \<noteq> [] \<and> distinct (plane_numbers (devices t)) \<and>
      (if cf_autoDiscover config
       then \<exists>m \<le> kMaxPlanes. plane_numbers (devices t) = map int [0..<m]
       else plane_numbers (devices t) = map pc_planeId (cf_planes config))
    else devices t = []"
proof -
  let ?s = "s\<lparr>devices := []\<rparr>"
  from assms obtain list u where list: "call (ibv_get_device_list env) ?s = Inr (list, u)"
    and rest: "(case list of
       None \<Rightarrow> ret ncclSystemError
     | Some list \<Rightarrow>
         if list = [] then seq (call_void (ibv_free_device_list env)) (\<lambda>_. ret ncclSystemError)
         else
           seq (if cf_autoDiscover config then scan_devices env (cf_gidIndex config) list 0
                else open_configured env (cf_gidIndex config) list (cf_planes config) []) (\<lambda>result.
           seq (call_void (ibv_free_device_list env)) (\<lambda>_.
           seq (gets devices) (\<lambda>ds.
           if result \<noteq> ncclSuccess \<or> ds = []
           then seq (close_plane_devices env)
                  (\<lambda>_. ret (if result = ncclSuccess then ncclSystemError else result))
           else ret ncclSuccess)))) u = Inr (r, t)"
    unfolding open_plane_devices_def discover_planes_def by (auto elim!: seq_InrE simp: modify_def)
  from list have empty: "devices u = []" by (auto simp: call_def split: prod.splits)
  show ?thesis
  proof (cases "list = None \<or> list = Some []")
    case True
    with rest empty show ?thesis
      by (auto elim!: seq_InrE simp: call_void_def modify_def ret_def)
  next
    case False
    then obtain ds where ds: "list = Some ds" "ds \<noteq> []" by auto
    with rest obtain result v where scan: "(if cf_autoDiscover config
        then scan_devices env (cf_gidIndex config) ds 0
        else open_configured env (cf_gidIndex config) ds (cf_planes config) []) u = Inr (result, v)"
      and final: "(if result \<noteq> ncclSuccess \<or> devices v = []
        then seq (close_plane_devices env)
               (\<lambda>_. ret (if result = ncclSuccess then ncclSystemError else result))
        else ret ncclSuccess) (v\<lparr>world := ibv_free_device_list env (world v)\<rparr>) = Inr (r, t)"
      by (auto elim!: seq_InrE simp: gets_def call_void_def modify_def simp del: if_split)
    show ?thesis
    proof (cases "result \<noteq> ncclSuccess \<or> devices v = []")
      case True
      with final have "r \<noteq> ncclSuccess" and "devices t = []"
        by (auto elim!: seq_InrE dest: close_plane_devices_devices simp: ret_def split: if_splits)
      then show ?thesis by simp
    next
      case False
      with final have fin: "r = ncclSuccess" "devices t = devices v" by (auto simp: ret_def)
      from False have ok: "result = ncclSuccess" "devices v \<noteq> []" by simp_all
      have start: "plane_numbers (devices u) = []" by (simp add: empty plane_numbers_def)
      show ?thesis
      proof (cases "cf_autoDiscover config")
        case True
        with scan ok have "scan_devices env (cf_gidIndex config) ds 0 u = Inr (ncclSuccess, v)" by simp
        from scan_devices_numbers [OF this] start
        obtain m where "m \<le> kMaxPlanes" "plane_numbers (devices v) = map int [0..<m]" by auto
        with ok fin True show ?thesis by (auto simp: distinct_map)
      next
        case False
        with scan ok have "open_configured env (cf_gidIndex config) ds (cf_planes config) [] u
          = Inr (ncclSuccess, v)" by simp
        from open_configured_numbers [OF this] start ok fin False show ?thesis by simp
      qed
    qed
  qed
qed

section \<open>Refresh\<close>

text \<open>The part of a device that identifies it and owns resources.\<close>

definition device_identity :: "plane_device \<Rightarrow> int \<times> string \<times> int \<times> int \<times> ptr \<times> ptr" where
  "device_identity d =
     (pd_planeId d, pd_hcaName d, pd_port d, pd_gidIndex d, pd_context d, pd_pd d)"

text \<open>Refreshing a device changes no other device and none of the fields that identify it or own
  resources; when it succeeds the device's port is active, its GID is not zero and its link layer is
  the port's, and when it fails nothing at all has changed but the outside world.\<close>

theorem refresh_plane_device_spec:
  assumes "refresh_plane_device env dev s = Inr (r, t)"
  shows "map device_identity (devices t) = map device_identity (devices s) \<and>
    (if r = ncclSuccess
     then \<exists>i. dev = Some i \<and> i < length (devices s) \<and> (\<forall>j. j \<noteq> i \<longrightarrow> devices t ! j = devices s ! j) \<and>
       port_active (Some (pd_portAttr (devices t ! i))) \<and> \<not> is_zero_gid (pd_gid (devices t ! i)) \<and>
       pd_linkLayer (devices t ! i) = pa_link_layer (pd_portAttr (devices t ! i))
     else devices t = devices s)"
proof (cases dev)
  case None
  with assms show ?thesis by (simp add: refresh_plane_device_def ret_def)
next
  case (Some i)
  let ?d = "devices s ! i"
  have "(r \<noteq> ncclSuccess \<and> devices t = devices s) \<or>
    (\<exists>attr gid. r = ncclSuccess \<and> i < length (devices s) \<and> port_active (Some attr) \<and> \<not> is_zero_gid gid \<and>
      devices t = (devices s)[i := ?d\<lparr>pd_portAttr := attr, pd_gid := gid, pd_linkLayer := pa_link_layer attr\<rparr>])"
    using assms Some
    by (auto simp: refresh_plane_device_def gets_def call_def crash_def modify_def ret_def Let_def
        port_active_def elim!: seq_InrE split: if_splits prod.splits option.splits) blast+
  then consider "r \<noteq> ncclSuccess" "devices t = devices s"
    | attr gid where "r = ncclSuccess" "i < length (devices s)" "port_active (Some attr)" "\<not> is_zero_gid gid"
      "devices t = (devices s)[i := ?d\<lparr>pd_portAttr := attr, pd_gid := gid, pd_linkLayer := pa_link_layer attr\<rparr>]"
    by blast
  then show ?thesis
  proof cases
    case 1
    then show ?thesis by simp
  next
    case 2
    have "device_identity (?d\<lparr>pd_portAttr := attr, pd_gid := gid, pd_linkLayer := pa_link_layer attr\<rparr>)
      = device_identity ?d" by (simp add: device_identity_def)
    then have "map device_identity (devices t) = map device_identity (devices s)"
      using 2(2) by (simp add: 2(5) map_update list_update_same_conv)
    with 2 Some show ?thesis by simp
  qed
qed

section \<open>Runs on the sample world\<close>

definition sample_devices_st :: "(sample_world \<times> ledger) devices_st" where
  "sample_devices_st =
     \<lparr>world = (start_world, \<lparr>acquired = {#}, released = {#}\<rparr>), psn_seed = 0, devices = []\<rparr>"

definition sample_open :: "fault + nccl_result \<times> (sample_world \<times> ledger) devices_st" where
  "sample_open = open_plane_devices (traced sample_env)
     (default_plugin_config\<lparr>cf_autoDiscover := True\<rparr>) sample_devices_st"

lemma sample_open_runs: "\<exists>t. sample_open = Inr (ncclSuccess, t) \<and> length (devices t) = 2"
  by (simp add: sample_open_def sample_devices_st_def open_plane_devices_def discover_planes_def
      open_one_plane_def Let_def seq_def ret_def call_def call_void_def modify_def gets_def traced_def
      traced_call_def traced_void_def sample_env_def start_world_def fresh_def kMaxPlanes_def
      port_active_def sample_port_def default_plugin_config_def upt_rec)

theorem open_plane_devices_no_leak_witness:
  "\<exists>t. sample_open = Inr (ncclSuccess, t) \<and> length (devices t) = 2 \<and>
     outstanding_after (snd (world sample_devices_st)) {#} (snd (world t)) (devices_handles (devices t))"
proof -
  obtain t where t: "sample_open = Inr (ncclSuccess, t)" "length (devices t) = 2"
    using sample_open_runs by blast
  moreover have "devices sample_devices_st = []" by (simp add: sample_devices_st_def)
  ultimately show ?thesis using open_plane_devices_no_leak [OF t(1) [unfolded sample_open_def]] by blast
qed

theorem open_plane_devices_planes_witness:
  "\<exists>t. sample_open = Inr (ncclSuccess, t) \<and> distinct (plane_numbers (devices t))"
proof -
  obtain t where t: "sample_open = Inr (ncclSuccess, t)" "length (devices t) = 2"
    using sample_open_runs by blast
  then show ?thesis using open_plane_devices_planes [OF t(1) [unfolded sample_open_def]] by auto
qed

definition sample_refresh :: "fault + nccl_result \<times> sample_world devices_st" where
  "sample_refresh = refresh_plane_device sample_env (Some 0)
     \<lparr>world = start_world, psn_seed = 0,
      devices = [default_plane_device\<lparr>pd_context := 5, pd_pd := 6\<rparr>]\<rparr>"

lemma sample_refresh_runs: "\<exists>t. sample_refresh = Inr (ncclSuccess, t)"
proof -
  have "\<not> is_zero_gid (replicate 16 1)" by (simp add: is_zero_gid_def replicate_eq_replicate)
  then show ?thesis
    by (simp add: sample_refresh_def refresh_plane_device_def seq_def ret_def call_def modify_def gets_def
      sample_env_def port_active_def sample_port_def default_plane_device_def Let_def)
qed

theorem refresh_plane_device_spec_witness:
  "\<exists>t. sample_refresh = Inr (ncclSuccess, t) \<and> \<not> is_zero_gid (pd_gid (devices t ! 0))"
proof -
  obtain t where t: "sample_refresh = Inr (ncclSuccess, t)" using sample_refresh_runs by blast
  from refresh_plane_device_spec [OF t [unfolded sample_refresh_def]] t show ?thesis by auto
qed

end
