(* ===== verification/VerbsQp.thy ===== *)
theory VerbsQp
  imports VerbsDevice
begin

text \<open>
  The reliable queue pairs of \<open>plugins/net/dpfr_ib/src/verbs_qp.{h,cc}\<close>: creation, the two
  transitions that connect a pair, posting and polling.  A \<open>QpEndpoint*\<close> the callee writes through
  is an argument and part of the result.  Using a null queue pair or a device that is not in the
  vector is undefined behaviour.
\<close>

record qp_endpoint =
  ep_device :: "nat option"
  ep_cq :: ptr
  ep_qp :: ptr
  ep_generation :: u32
  ep_psn :: u32
  ep_ready :: bool

definition default_endpoint :: qp_endpoint where
  "default_endpoint =
     \<lparr>ep_device = None, ep_cq = null, ep_qp = null, ep_generation = 0, ep_psn = 0, ep_ready = False\<rparr>"

text \<open>\<open>NCCL_NET_MAX_REQUESTS\<close>, and the capacity of the queues.\<close>

definition NCCL_NET_MAX_REQUESTS :: nat where
  "NCCL_NET_MAX_REQUESTS = 32"

definition queue_capacity :: nat where
  "queue_capacity = NCCL_NET_MAX_REQUESTS * 4 + 16"

definition next_psn :: "(('w, 'z) machine_scheme, u32) prog" where
  "next_psn = (\<lambda>s. let seed = psn_seed s * 1103515245 + 12345
                   in Inr (seed AND 0x00ffffff, s\<lparr>psn_seed := seed\<rparr>))"

text \<open>Dereferencing a \<open>PlaneDevice*\<close>.\<close>

definition deref_device :: "nat option \<Rightarrow> (('w, 'z) devices_st_scheme, plane_device) prog" where
  "deref_device dev =
     (\<lambda>s. case dev of
            None \<Rightarrow> Inl Undefined_behaviour
          | Some i \<Rightarrow> if i < length (devices s) then Inr (devices s ! i, s)
                      else Inl Undefined_behaviour)"

definition min_mtu :: "plane_device \<Rightarrow> wire_qp_info \<Rightarrow> u32" where
  "min_mtu device remote =
     (let local = pa_active_mtu (pd_portAttr device);
          remoteMtu = (if wq_mtu remote = 0 then local else wq_mtu remote)
      in min local remoteMtu)"

text \<open>\<open>IBV_ACCESS_LOCAL_WRITE | IBV_ACCESS_REMOTE_READ | IBV_ACCESS_REMOTE_WRITE\<close>\<close>

definition access_flags :: u32 where
  "access_flags = 1 OR 4 OR 2"

definition destroy_endpoint ::
    "'w env \<Rightarrow> qp_endpoint \<Rightarrow> (('w, 'z) machine_scheme, qp_endpoint) prog" where
  "destroy_endpoint env ep =
     seq (if ep_qp ep \<noteq> null then call_void (ibv_destroy_qp env (ep_qp ep)) else ret ()) (\<lambda>_.
     seq (if ep_cq ep \<noteq> null then call_void (ibv_destroy_cq env (ep_cq ep)) else ret ()) (\<lambda>_.
     ret (ep\<lparr>ep_qp := null, ep_cq := null, ep_ready := False\<rparr>)))"

definition create_endpoint ::
    "'w env \<Rightarrow> nat option \<Rightarrow> u32
     \<Rightarrow> (('w, 'z) devices_st_scheme, nccl_result \<times> qp_endpoint) prog" where
  "create_endpoint env dev generation =
     seq next_psn (\<lambda>psn.
     let ep = default_endpoint\<lparr>ep_device := dev, ep_generation := generation, ep_psn := psn\<rparr> in
     seq (deref_device dev) (\<lambda>device.
     seq (call (ibv_create_cq env (pd_context device) queue_capacity)) (\<lambda>cq.
     if cq = null then ret (ncclSystemError, ep)
     else seq (call (ibv_create_qp env (pd_pd device) cq queue_capacity)) (\<lambda>qp.
     if qp = null
     then seq (destroy_endpoint env (ep\<lparr>ep_cq := cq\<rparr>)) (\<lambda>ep. ret (ncclSystemError, ep))
     else seq (call (ibv_modify_qp env qp (ToInit \<lparr>ia_pkey_index = 0,
             ia_port_num = word_of_int (pd_port device), ia_access = access_flags\<rparr>))) (\<lambda>moved.
     if \<not> moved
     then seq (destroy_endpoint env (ep\<lparr>ep_cq := cq, ep_qp := qp\<rparr>)) (\<lambda>ep. ret (ncclSystemError, ep))
     else ret (ncclSuccess, ep\<lparr>ep_cq := cq, ep_qp := qp\<rparr>))))))"

definition endpoint_info ::
    "'w env \<Rightarrow> qp_endpoint \<Rightarrow> (('w, 'z) devices_st_scheme, wire_qp_info) prog" where
  "endpoint_info env ep =
     seq (deref_device (ep_device ep)) (\<lambda>device.
     gets (\<lambda>s. \<lparr>wq_planeId = word_of_int (pd_planeId device),
       wq_generation = ep_generation ep,
       wq_qpn = (if ep_qp ep \<noteq> null then ibv_qp_num env (ep_qp ep) (world s) else 0),
       wq_lid = ucast (pa_lid (pd_portAttr device)),
       wq_psn = ep_psn ep,
       wq_mtu = pa_active_mtu (pd_portAttr device),
       wq_gidIndex = word_of_int (pd_gidIndex device),
       wq_linkLayer = ucast (pd_linkLayer device),
       wq_gid = pd_gid device\<rparr>))"

definition rtr_attributes :: "plane_device \<Rightarrow> wire_qp_info \<Rightarrow> rtr_attr" where
  "rtr_attributes device remote =
     \<lparr>ra_path_mtu = min_mtu device remote, ra_dest_qp_num = wq_qpn remote,
      ra_rq_psn = wq_psn remote, ra_max_dest_rd_atomic = 1, ra_min_rnr_timer = 12,
      ra_port_num = word_of_int (pd_port device),
      ra_address =
        (if ucast (pd_linkLayer device) = IBV_LINK_LAYER_ETHERNET \<or>
            wq_linkLayer remote = IBV_LINK_LAYER_ETHERNET
         then GlobalRoute (wq_gid remote) (word_of_int (pd_gidIndex device)) 255
         else LocalRoute (ucast (wq_lid remote)))\<rparr>"

definition rts_attributes :: "qp_endpoint \<Rightarrow> rts_attr" where
  "rts_attributes ep =
     \<lparr>ta_timeout = 14, ta_retry_cnt = 7, ta_rnr_retry = 7, ta_sq_psn = ep_psn ep,
      ta_max_rd_atomic = 1\<rparr>"

definition endpoint_to_rtr_rts ::
    "'w env \<Rightarrow> qp_endpoint \<Rightarrow> wire_qp_info
     \<Rightarrow> (('w, 'z) devices_st_scheme, nccl_result \<times> qp_endpoint) prog" where
  "endpoint_to_rtr_rts env ep remote =
     seq (deref_device (ep_device ep)) (\<lambda>device.
     if ep_qp ep = null then crash Undefined_behaviour
     else seq (call (ibv_modify_qp env (ep_qp ep) (ToRtr (rtr_attributes device remote)))) (\<lambda>moved.
     if \<not> moved then ret (ncclSystemError, ep)
     else seq (call (ibv_modify_qp env (ep_qp ep) (ToRts (rts_attributes ep)))) (\<lambda>moved.
     if \<not> moved then ret (ncclSystemError, ep)
     else ret (ncclSuccess, ep\<lparr>ep_ready := True\<rparr>))))"

section \<open>Posting and polling\<close>

definition UINT32_MAX :: u64 where
  "UINT32_MAX = 0xffffffff"

definition post_send ::
    "'w env \<Rightarrow> qp_endpoint \<Rightarrow> u64 \<Rightarrow> u64 \<Rightarrow> u32 \<Rightarrow> u64
     \<Rightarrow> (('w, 'z) machine_scheme, nccl_result) prog" where
  "post_send env ep data sz lkey wrId =
     (if sz > UINT32_MAX then ret ncclInvalidArgument
      else if ep_qp ep = null then crash Undefined_behaviour
      else seq (call (ibv_post_send env (ep_qp ep) wrId
             (Some \<lparr>sg_addr = data, sg_length = ucast sz, sg_lkey = lkey\<rparr>)))
        (\<lambda>posted. ret (if posted then ncclSuccess else ncclSystemError)))"

definition post_recv ::
    "'w env \<Rightarrow> qp_endpoint \<Rightarrow> u64 \<Rightarrow> u64 \<Rightarrow> u32 \<Rightarrow> u64
     \<Rightarrow> (('w, 'z) machine_scheme, nccl_result) prog" where
  "post_recv env ep data sz lkey wrId =
     (if sz > UINT32_MAX then ret ncclInvalidArgument
      else if ep_qp ep = null then crash Undefined_behaviour
      else seq (call (ibv_post_recv env (ep_qp ep) wrId
             (Some \<lparr>sg_addr = data, sg_length = ucast sz, sg_lkey = lkey\<rparr>)))
        (\<lambda>posted. ret (if posted then ncclSuccess else ncclSystemError)))"

definition post_empty_send ::
    "'w env \<Rightarrow> qp_endpoint \<Rightarrow> u64 \<Rightarrow> (('w, 'z) machine_scheme, nccl_result) prog" where
  "post_empty_send env ep wrId =
     (if ep_qp ep = null then crash Undefined_behaviour
      else seq (call (ibv_post_send env (ep_qp ep) wrId None))
        (\<lambda>posted. ret (if posted then ncclSuccess else ncclSystemError)))"

definition post_empty_recv ::
    "'w env \<Rightarrow> qp_endpoint \<Rightarrow> u64 \<Rightarrow> (('w, 'z) machine_scheme, nccl_result) prog" where
  "post_empty_recv env ep wrId =
     (if ep_qp ep = null then crash Undefined_behaviour
      else seq (call (ibv_post_recv env (ep_qp ep) wrId None))
        (\<lambda>posted. ret (if posted then ncclSuccess else ncclSystemError)))"

text \<open>The completions, or \<^term>\<open>None\<close> for a negative return.\<close>

definition poll_endpoint ::
    "'w env \<Rightarrow> qp_endpoint \<Rightarrow> nat
     \<Rightarrow> (('w, 'z) machine_scheme, work_completion list option) prog" where
  "poll_endpoint env ep maxWc =
     (if ep_cq ep = null then ret (Some []) else call (ibv_poll_cq env (ep_cq ep) maxWc))"

section \<open>Resources\<close>

definition endpoint_handles :: "qp_endpoint \<Rightarrow> handle multiset" where
  "endpoint_handles ep = handle_of Qp (ep_qp ep) + handle_of Cq (ep_cq ep)"

lemma endpoint_handles_simps [simp]:
  "endpoint_handles (ep\<lparr>ep_ready := b\<rparr>) = endpoint_handles ep"
  "endpoint_handles (ep\<lparr>ep_qp := null, ep_cq := null, ep_ready := b\<rparr>) = {#}"
  "endpoint_handles (ep\<lparr>ep_qp := null, ep_cq := null\<rparr>) = {#}"
  "endpoint_handles default_endpoint = {#}"
  by (simp_all add: endpoint_handles_def handle_of_def default_endpoint_def)

locale endpoint_resources = resources env book held
  for env :: "'v env" and book :: "'v \<Rightarrow> ledger"
    and held :: "('v, 'z) devices_st_scheme \<Rightarrow> handle multiset" +
  assumes held_seed: "held (s\<lparr>psn_seed := n\<rparr>) = held s"
begin

lemma next_psn_balanced: "balances book held P next_psn (\<lambda>_. P)"
  by (auto simp: balances_def next_psn_def Let_def held_seed)

lemma deref_device_balanced: "balances book held P (deref_device dev) (\<lambda>_. P)"
  by (auto simp: balances_def deref_device_def split: option.splits if_splits)

lemma destroy_endpoint_balanced:
  "balances book held (P + endpoint_handles ep) (destroy_endpoint env ep) (\<lambda>e. P + endpoint_handles e)"
proof -
  have "balances book held (handle_of Qp q + (handle_of Cq c + P))
     (seq (if q \<noteq> null then call_void (ibv_destroy_qp env q) else ret ()) (\<lambda>_.
      seq (if c \<noteq> null then call_void (ibv_destroy_cq env c) else ret ()) (\<lambda>_. ret e)))
     (\<lambda>e. P + endpoint_handles e)"
    if "endpoint_handles e = {#}" for q c and e :: qp_endpoint
  proof (rule bal_seq_unit)
    show "balances book held (handle_of Qp q + (handle_of Cq c + P))
      (if q \<noteq> null then call_void (ibv_destroy_qp env q) else ret ()) (\<lambda>_. handle_of Cq c + P)"
      by (auto simp: handle_of_def bal_ret release_calls)
    show "balances book held (handle_of Cq c + P)
      (seq (if c \<noteq> null then call_void (ibv_destroy_cq env c) else ret ()) (\<lambda>_. ret e))
      (\<lambda>e. P + endpoint_handles e)"
      by (rule bal_seq_unit [where Q = P]) (auto simp: handle_of_def bal_ret release_calls that)
  qed
  note inner = this
  have split: "P + endpoint_handles ep = handle_of Qp (ep_qp ep) + (handle_of Cq (ep_cq ep) + P)"
    by (simp add: endpoint_handles_def add_ac)
  show ?thesis unfolding split destroy_endpoint_def by (rule inner) simp
qed

lemma destroy_new_endpoint_balanced:
  fixes d g n
  defines "new \<equiv> default_endpoint\<lparr>ep_device := d, ep_generation := g, ep_psn := n\<rparr>"
  assumes "cq \<noteq> null"
  shows "balances book held (add_mset (Cq cq) P) (destroy_endpoint env (new\<lparr>ep_cq := cq\<rparr>))
      (\<lambda>e. P + endpoint_handles e)"
    and "qp \<noteq> null \<Longrightarrow> balances book held (add_mset (Qp qp) (add_mset (Cq cq) P))
      (destroy_endpoint env (new\<lparr>ep_cq := cq, ep_qp := qp\<rparr>)) (\<lambda>e. P + endpoint_handles e)"
proof -
  have "endpoint_handles (new\<lparr>ep_cq := cq\<rparr>) = {#Cq cq#}"
    using assms(2) by (simp add: new_def endpoint_handles_def handle_of_def default_endpoint_def)
  then show "balances book held (add_mset (Cq cq) P) (destroy_endpoint env (new\<lparr>ep_cq := cq\<rparr>))
      (\<lambda>e. P + endpoint_handles e)"
    using destroy_endpoint_balanced [of P "new\<lparr>ep_cq := cq\<rparr>"] by simp
  assume "qp \<noteq> null"
  then have "endpoint_handles (new\<lparr>ep_cq := cq, ep_qp := qp\<rparr>) = {#Qp qp, Cq cq#}"
    using assms(2) by (simp add: new_def endpoint_handles_def handle_of_def default_endpoint_def)
  then show "balances book held (add_mset (Qp qp) (add_mset (Cq cq) P))
      (destroy_endpoint env (new\<lparr>ep_cq := cq, ep_qp := qp\<rparr>)) (\<lambda>e. P + endpoint_handles e)"
    using destroy_endpoint_balanced [of P "new\<lparr>ep_cq := cq, ep_qp := qp\<rparr>"] by simp
qed

lemma create_endpoint_balanced:
  "balances book held P (create_endpoint env dev g) (\<lambda>(r, ep). P + endpoint_handles ep)"
  unfolding create_endpoint_def Let_def
  by (rule next_psn_balanced deref_device_balanced bal_seq [OF destroy_new_endpoint_balanced(1)]
      bal_seq [OF destroy_new_endpoint_balanced(2)] bal_rules
    | (simp add: endpoint_handles_def handle_of_def default_endpoint_def; fail))+

end

interpretation connected: endpoint_resources "traced env" snd "\<lambda>s. devices_handles (devices s)" for env
  by unfold_locales simp_all

text \<open>Creating an endpoint leaks nothing: whatever the verbs return, the queue pair and completion
  queue that were created and not destroyed again are those the endpoint holds, so an endpoint whose
  creation failed holds none and needs no cleanup.\<close>

theorem create_endpoint_no_leak:
  assumes "create_endpoint (traced env) dev g s = Inr ((r, ep), t)"
  shows "outstanding_after (snd (world s)) (devices_handles (devices s)) (snd (world t))
      (devices_handles (devices t) + endpoint_handles ep) \<and>
    (if r = ncclSuccess then ep_qp ep \<noteq> null \<and> ep_cq ep \<noteq> null else endpoint_handles ep = {#})"
proof
  show "outstanding_after (snd (world s)) (devices_handles (devices s)) (snd (world t))
      (devices_handles (devices t) + endpoint_handles ep)"
    using opened.bal_run [OF connected.create_endpoint_balanced [where P = "{#}"] assms] by simp
  show "if r = ncclSuccess then ep_qp ep \<noteq> null \<and> ep_cq ep \<noteq> null else endpoint_handles ep = {#}"
    using assms
    by (auto simp: create_endpoint_def destroy_endpoint_def Let_def ret_def endpoint_handles_def
        handle_of_def default_endpoint_def elim!: seq_InrE split: if_splits)
qed

definition sample_qp_st :: "(sample_world \<times> ledger) devices_st" where
  "sample_qp_st =
     \<lparr>world = (start_world\<lparr>sw_refuse := [True]\<rparr>, \<lparr>acquired = {#}, released = {#}\<rparr>), psn_seed = 0,
      devices = [default_plane_device\<lparr>pd_context := 5, pd_pd := 6\<rparr>]\<rparr>"

text \<open>A run in which the transition to INIT is refused.\<close>

lemma sample_create_runs:
  "\<exists>ep t. create_endpoint (traced sample_env) (Some 0) 1 sample_qp_st = Inr ((ncclSystemError, ep), t)"
  by (simp add: sample_qp_st_def create_endpoint_def destroy_endpoint_def next_psn_def deref_device_def
      Let_def seq_def ret_def call_def call_void_def modify_def traced_def traced_call_def traced_void_def
      sample_env_def start_world_def fresh_def verdict_def default_plane_device_def)

theorem create_endpoint_no_leak_witness:
  "\<exists>ep t. create_endpoint (traced sample_env) (Some 0) 1 sample_qp_st = Inr ((ncclSystemError, ep), t) \<and>
     outstanding_after (snd (world sample_qp_st)) (devices_handles (devices sample_qp_st)) (snd (world t))
       (devices_handles (devices t))"
proof -
  obtain ep t where t: "create_endpoint (traced sample_env) (Some 0) 1 sample_qp_st = Inr ((ncclSystemError, ep), t)"
    using sample_create_runs by blast
  from create_endpoint_no_leak [OF t] have "outstanding_after (snd (world sample_qp_st))
    (devices_handles (devices sample_qp_st)) (snd (world t)) (devices_handles (devices t))" by auto
  with t show ?thesis by blast
qed

section \<open>What is exported and connected\<close>

lemma widen16_zero: "(ucast (x :: u16) :: u32) = 0 \<longleftrightarrow> x = 0"
  by transfer simp

text \<open>The description an endpoint exports right after its creation passes the validation the peer
  applies to it, as long as the device's plane is below the limit, its MTU is set, it has a local
  identifier or a GID, and the verbs number queue pairs from 1: the packet sequence number always
  fits in 24 bits.\<close>

theorem exported_info_is_valid:
  assumes "create_endpoint env (Some i) g s = Inr ((ncclSuccess, ep), t)"
    and "endpoint_info env ep u = Inr (info, v)" and "devices u = devices s"
    and "0 \<le> pd_planeId (devices s ! i)" and "pd_planeId (devices s ! i) < int kMaxPlanes"
    and "pa_active_mtu (pd_portAttr (devices s ! i)) \<noteq> 0"
    and "pa_lid (pd_portAttr (devices s ! i)) \<noteq> 0" and "g \<noteq> 0"
    and "ibv_qp_num env (ep_qp ep) (world u) \<noteq> 0"
  shows "valid_qp_info info"
proof -
  from assms(1) have ep: "ep_device ep = Some i" "ep_generation ep = g" "ep_qp ep \<noteq> null"
    and psn: "ep_psn ep \<le> 0x00ffffff"
    by (auto simp: word_and_le1 create_endpoint_def destroy_endpoint_def next_psn_def Let_def ret_def
        default_endpoint_def elim!: seq_InrE split: if_splits)
  have "word_of_int (pd_planeId (devices s ! i)) < (of_nat kMaxPlanes :: u32)"
    using assms(4,5) by (simp add: kMaxPlanes_def word_less_alt word_of_int_inverse)
  moreover have "(ucast (pa_lid (pd_portAttr (devices s ! i))) :: u32) \<noteq> 0"
    using assms(7) by (simp add: widen16_zero)
  moreover from assms(2) ep assms(3) have "info = \<lparr>wq_planeId = word_of_int (pd_planeId (devices s ! i)),
      wq_generation = g, wq_qpn = ibv_qp_num env (ep_qp ep) (world u),
      wq_lid = ucast (pa_lid (pd_portAttr (devices s ! i))), wq_psn = ep_psn ep,
      wq_mtu = pa_active_mtu (pd_portAttr (devices s ! i)),
      wq_gidIndex = word_of_int (pd_gidIndex (devices s ! i)),
      wq_linkLayer = ucast (pd_linkLayer (devices s ! i)), wq_gid = pd_gid (devices s ! i)\<rparr>"
    by (auto simp: endpoint_info_def deref_device_def gets_def elim!: seq_InrE split: if_splits)
  ultimately show ?thesis using psn assms(6,8,9) by (simp add: valid_qp_info_def Let_def not_less)
qed

definition sample_export_st :: "sample_world devices_st" where
  "sample_export_st =
     \<lparr>world = start_world, psn_seed = 7,
      devices = [default_plane_device\<lparr>pd_context := 5, pd_pd := 6, pd_portAttr := sample_port\<rparr>]\<rparr>"

lemmas sample_qp_defs =
  create_endpoint_def next_psn_def deref_device_def Let_def seq_def ret_def call_def gets_def
  sample_env_def start_world_def fresh_def verdict_def default_plane_device_def sample_port_def
  default_endpoint_def endpoint_info_def sample_export_st_def

lemma sample_export_runs:
  "\<exists>ep t info v. create_endpoint sample_env (Some 0) 1 sample_export_st = Inr ((ncclSuccess, ep), t) \<and>
     endpoint_info sample_env ep t = Inr (info, v) \<and> devices t = devices sample_export_st \<and>
     ibv_qp_num sample_env (ep_qp ep) (world t) \<noteq> 0"
  by (simp add: sample_qp_defs)

theorem exported_info_is_valid_witness:
  "\<exists>ep t info v. create_endpoint sample_env (Some 0) 1 sample_export_st = Inr ((ncclSuccess, ep), t) \<and>
     endpoint_info sample_env ep t = Inr (info, v) \<and> valid_qp_info info"
proof -
  obtain ep t info v where run: "create_endpoint sample_env (Some 0) 1 sample_export_st = Inr ((ncclSuccess, ep), t)"
    "endpoint_info sample_env ep t = Inr (info, v)" "devices t = devices sample_export_st"
    "ibv_qp_num sample_env (ep_qp ep) (world t) \<noteq> 0"
    using sample_export_runs by blast
  have "valid_qp_info info"
    using run(4)
    by (intro exported_info_is_valid [OF run(1-3)])
      (simp_all add: sample_export_st_def sample_port_def default_plane_device_def kMaxPlanes_def)
  with run show ?thesis by blast
qed

text \<open>Connecting an endpoint makes it ready exactly when both transitions are accepted, the second
  one tried only after the first, changes no other part of it, and uses the smaller of the two MTUs,
  where a remote MTU of 0 stands for the local one.\<close>

theorem endpoint_to_rtr_rts_spec:
  assumes "endpoint_to_rtr_rts env ep remote s = Inr ((r, ep'), t)" and "ep_device ep = Some i"
  shows "(r, ep') =
      (case ibv_modify_qp env (ep_qp ep) (ToRtr (rtr_attributes (devices s ! i) remote)) (world s) of
         (moved, w) \<Rightarrow>
           if moved \<and> fst (ibv_modify_qp env (ep_qp ep) (ToRts (rts_attributes ep)) w)
           then (ncclSuccess, ep\<lparr>ep_ready := True\<rparr>) else (ncclSystemError, ep)) \<and>
    ra_path_mtu (rtr_attributes (devices s ! i) remote) =
      (if wq_mtu remote = 0 then pa_active_mtu (pd_portAttr (devices s ! i))
       else min (pa_active_mtu (pd_portAttr (devices s ! i))) (wq_mtu remote))"
    (is "?run \<and> ?mtu")
proof
  show ?run using assms
    by (auto simp: endpoint_to_rtr_rts_def deref_device_def call_def ret_def crash_def
      elim!: seq_InrE split: prod.splits if_splits)
  show ?mtu by (simp add: rtr_attributes_def min_mtu_def Let_def)
qed

definition sample_connected_ep :: qp_endpoint where
  "sample_connected_ep = default_endpoint\<lparr>ep_device := Some 0, ep_qp := 8, ep_cq := 9, ep_generation := 1\<rparr>"

theorem endpoint_to_rtr_rts_spec_witness:
  "\<exists>t. endpoint_to_rtr_rts sample_env sample_connected_ep default_qp_info sample_export_st =
      Inr ((ncclSuccess, sample_connected_ep\<lparr>ep_ready := True\<rparr>), t) \<and>
     ra_path_mtu (rtr_attributes (devices sample_export_st ! 0) default_qp_info) = 5"
proof -
  obtain t where t: "endpoint_to_rtr_rts sample_env sample_connected_ep default_qp_info sample_export_st =
      Inr ((ncclSuccess, sample_connected_ep\<lparr>ep_ready := True\<rparr>), t)"
    by (simp add: endpoint_to_rtr_rts_def sample_connected_ep_def sample_qp_defs)
  have "ep_device sample_connected_ep = Some 0" by (simp add: sample_connected_ep_def)
  from endpoint_to_rtr_rts_spec [OF t this]
  have "ra_path_mtu (rtr_attributes (devices sample_export_st ! 0) default_qp_info) = 5"
    by (simp add: sample_export_st_def default_plane_device_def sample_port_def default_qp_info_def)
  with t show ?thesis by blast
qed

end
