(* ===== verification/MemRegion.thy ===== *)
theory MemRegion
  imports VerbsQp
begin

text \<open>
  Registered memory, \<open>plugins/net/dpfr_ib/src/mr.{h,cc}\<close>.  The objects \<open>new DpfrMr()\<close> creates live in
  the list \<open>mr_heap\<close>; the handle of the object at position \<open>k\<close> is \<open>k + 1\<close> and a deleted object
  leaves \<^term>\<open>None\<close>, so no handle is used twice and following a dangling one is seen: it is
  undefined behaviour.
\<close>

record dpfr_mr =
  mr_base :: u64
  mr_size :: u64
  mr_type :: int
  mr_planeMrs :: "ptr list"

record 'w mr_st = "'w devices_st" +
  mr_heap :: "dpfr_mr option list"

definition deref_mr :: "ptr \<Rightarrow> (('w, 'z) mr_st_scheme, dpfr_mr) prog" where
  "deref_mr mhandle =
     (\<lambda>s. if mhandle = null \<or> length (mr_heap s) < mhandle then Inl Undefined_behaviour
          else case mr_heap s ! (mhandle - 1) of
                 None \<Rightarrow> Inl Undefined_behaviour
               | Some mr \<Rightarrow> Inr (mr, s))"

text \<open>\<open>IBV_ACCESS_RELAXED_ORDERING\<close> is defined by the headers the plugin is built with.\<close>

definition mr_access_flags :: u32 where
  "mr_access_flags = access_flags OR push_bit 20 1"

definition deregister_mr :: "'w env \<Rightarrow> ptr \<Rightarrow> (('w, 'z) mr_st_scheme, nccl_result) prog" where
  "deregister_mr env mhandle =
     (if mhandle = null then ret ncclSuccess
      else seq (deref_mr mhandle) (\<lambda>mr.
      seq (for_all_do (mr_planeMrs mr) (\<lambda>verbsMr.
            if verbsMr \<noteq> null then call_void (ibv_dereg_mr env verbsMr) else ret ())) (\<lambda>_.
      seq (modify (\<lambda>s. s\<lparr>mr_heap := (mr_heap s)[mhandle - 1 := None]\<rparr>)) (\<lambda>_.
      ret ncclSuccess))))"

text \<open>The loop over the devices from index \<open>i\<close> on.\<close>

fun register_planes ::
    "'w env \<Rightarrow> ptr \<Rightarrow> u64 \<Rightarrow> u64 \<Rightarrow> nat \<Rightarrow> plane_device list
     \<Rightarrow> (('w, 'z) mr_st_scheme, nccl_result) prog" where
  "register_planes env mhandle data sz i [] = ret ncclSuccess"
| "register_planes env mhandle data sz i (device # rest) =
     seq (call (ibv_reg_mr env (pd_pd device) data sz mr_access_flags)) (\<lambda>verbsMr.
     seq (deref_mr mhandle) (\<lambda>mr.
     seq (modify (\<lambda>s. s\<lparr>mr_heap := (mr_heap s)
            [mhandle - 1 := Some (mr\<lparr>mr_planeMrs := (mr_planeMrs mr)[i := verbsMr]\<rparr>)]\<rparr>)) (\<lambda>_.
     if verbsMr = null then seq (deregister_mr env mhandle) (\<lambda>_. ret ncclSystemError)
     else register_planes env mhandle data sz (Suc i) rest)))"

text \<open>The result and the handle written through \<open>mhandle\<close> (null when none is); \<open>mhandle\<close> itself and
  \<open>devices\<close> are not null at the plugin's only call.\<close>

definition register_mr ::
    "'w env \<Rightarrow> u64 \<Rightarrow> u64 \<Rightarrow> int \<Rightarrow> (('w, 'z) mr_st_scheme, nccl_result \<times> ptr) prog" where
  "register_mr env data sz type =
     seq (gets devices) (\<lambda>ds.
     if ds = [] \<or> data = 0 \<or> sz = 0 then ret (ncclInvalidArgument, null)
     else
       let mr = \<lparr>mr_base = data, mr_size = sz, mr_type = type,
                 mr_planeMrs = replicate (length ds) null\<rparr> in
       seq (gets (\<lambda>s. length (mr_heap s) + 1)) (\<lambda>mhandle.
       seq (modify (\<lambda>s. s\<lparr>mr_heap := mr_heap s @ [Some mr]\<rparr>)) (\<lambda>_.
       seq (register_planes env mhandle data sz 0 ds) (\<lambda>r.
       ret (r, if r = ncclSuccess then mhandle else null)))))"

definition mr_for_plane :: "ptr \<Rightarrow> int \<Rightarrow> (('w, 'z) mr_st_scheme, ptr) prog" where
  "mr_for_plane mhandle planeId =
     (if mhandle = null then ret null
      else seq (deref_mr mhandle) (\<lambda>mr.
      gets (\<lambda>s. case find_index (\<lambda>device. pd_planeId device = planeId)
                       (take (length (mr_planeMrs mr)) (devices s)) of
                  None \<Rightarrow> null
                | Some i \<Rightarrow> mr_planeMrs mr ! i)))"

section \<open>The heap of registrations\<close>

definition mr_handles :: "dpfr_mr option \<Rightarrow> handle multiset" where
  "mr_handles mr = (case mr of None \<Rightarrow> {#} | Some mr \<Rightarrow> sum_list (map (handle_of Mr) (mr_planeMrs mr)))"

definition heap_handles :: "dpfr_mr option list \<Rightarrow> handle multiset" where
  "heap_handles heap = sum_list (map mr_handles heap)"

lemma heap_handles_update:
  "i < length heap \<Longrightarrow> heap_handles (heap[i := x]) + mr_handles (heap ! i) = heap_handles heap + mr_handles x"
proof (induction heap arbitrary: i)
  case (Cons y heap)
  show ?case
  proof (cases i)
    case 0
    then show ?thesis by (simp add: heap_handles_def add_ac)
  next
    case (Suc j)
    with Cons have "heap_handles (heap[j := x]) + mr_handles (heap ! j) = heap_handles heap + mr_handles x"
      by simp
    with Suc show ?thesis by (simp add: heap_handles_def add.assoc)
  qed
qed simp

lemma sum_handles_update:
  "i < length ps \<Longrightarrow> ps ! i = null \<Longrightarrow>
   sum_list (map (handle_of h) (ps[i := p])) = sum_list (map (handle_of h) ps) + handle_of h p"
proof (induction ps arbitrary: i)
  case (Cons q ps)
  then show ?case by (cases i) (simp_all add: handle_of_def add.assoc)
qed simp

lemma outstanding_same_book: "outstanding_after l h l h' \<longleftrightarrow> h = h'"
  by (auto simp: outstanding_after_def add_ac)

text \<open>The object under construction before the device of index \<open>i\<close> is registered.\<close>

definition registering :: "ptr \<Rightarrow> dpfr_mr \<Rightarrow> nat \<Rightarrow> nat \<Rightarrow> ('v, 'z) mr_st_scheme \<Rightarrow> bool" where
  "registering m mr i n s \<longleftrightarrow>
     m \<noteq> null \<and> m \<le> length (mr_heap s) \<and> mr_heap s ! (m - 1) = Some mr \<and>
     length (mr_planeMrs mr) = n \<and> (\<forall>j < i. mr_planeMrs mr ! j \<noteq> null) \<and>
     (\<forall>j < n. i \<le> j \<longrightarrow> mr_planeMrs mr ! j = null)"

context accounting
begin

text \<open>What \<open>ibv_reg_mr\<close> and the release loop of \<open>deregisterMr\<close> leave of state and accounts.\<close>

lemma run_reg_mr:
  assumes "call (ibv_reg_mr env pd a n ac) s = Inr (v, t)"
  shows "\<exists>w. t = s\<lparr>world := w\<rparr> \<and> outstanding_after (book (world s)) {#} (book w) (handle_of Mr v)"
proof -
  from assms obtain w where w: "ibv_reg_mr env pd a n ac (world s) = (v, w)" "t = s\<lparr>world := w\<rparr>"
    by (auto simp: call_def split: prod.splits)
  with reg_mr have "book w = acquire_ptr Mr v (book (world s))" by (simp add: writes_def)
  with w show ?thesis by (auto simp: acquire_ptr_def handle_of_def)
qed

lemma run_dereg_loop:
  assumes "for_all_do ps (\<lambda>v. if v \<noteq> null then call_void (ibv_dereg_mr env v) else ret ()) s = Inr (x, t)"
  shows "\<exists>w. t = s\<lparr>world := w\<rparr> \<and>
    outstanding_after (book (world s)) (sum_list (map (handle_of Mr) ps)) (book w) {#}"
  using assms
proof (induction ps arbitrary: s)
  case Nil
  then show ?case by (auto simp: ret_def intro: exI [where x = "world t"])
next
  case (Cons v ps)
  then obtain u where first: "(if v \<noteq> null then call_void (ibv_dereg_mr env v) else ret ()) s = Inr ((), u)"
    and rest: "for_all_do ps (\<lambda>v. if v \<noteq> null then call_void (ibv_dereg_mr env v) else ret ()) u = Inr (x, t)"
    by (auto elim: seq_InrE)
  have "\<exists>w. u = s\<lparr>world := w\<rparr> \<and>
    outstanding_after (book (world s)) (handle_of Mr v) (book w) {#}"
  proof (cases "v = null")
    case True
    with first have "u = s\<lparr>world := world s\<rparr>" by (simp add: ret_def)
    then show ?thesis using True by (auto simp: handle_of_def intro!: exI [where x = "world s"])
  next
    case False
    with first have "u = s\<lparr>world := ibv_dereg_mr env v (world s)\<rparr>" by (simp add: call_void_def modify_def)
    moreover have "book (ibv_dereg_mr env v (world s)) = release (Mr v) (book (world s))"
      using dereg_mr by (simp add: writes_void_def)
    ultimately show ?thesis using False by (auto simp: handle_of_def)
  qed
  then obtain w where u: "u = s\<lparr>world := w\<rparr>"
    and w: "outstanding_after (book (world s)) (handle_of Mr v) (book w) {#}" by blast
  from Cons.IH [OF rest] u obtain w' where "t = s\<lparr>world := w'\<rparr>"
    and w': "outstanding_after (book w) (sum_list (map (handle_of Mr) ps)) (book w') {#}" by auto
  moreover have "outstanding_after (book (world s)) (handle_of Mr v + sum_list (map (handle_of Mr) ps))
      (book w) ({#} + sum_list (map (handle_of Mr) ps))"
    using w by (simp only: outstanding_after_frame)
  then have "outstanding_after (book (world s)) (sum_list (map (handle_of Mr) (v # ps))) (book w') {#}"
    using w' by (auto intro: outstanding_after_trans)
  ultimately show ?case by blast
qed

lemma run_deregister:
  assumes "deregister_mr env m s = Inr (r, t)"
  shows "r = ncclSuccess \<and> devices t = devices s \<and>
    (m \<noteq> null \<longrightarrow> m \<le> length (mr_heap s) \<and> mr_heap s ! (m - 1) \<noteq> None \<and>
       mr_heap t = (mr_heap s)[m - 1 := None]) \<and> (m = null \<longrightarrow> t = s) \<and>
    outstanding_after (book (world s)) (heap_handles (mr_heap s)) (book (world t)) (heap_handles (mr_heap t))"
proof (cases "m = null")
  case True
  with assms show ?thesis by (simp add: deregister_mr_def ret_def)
next
  case False
  with assms obtain mr u where m: "m \<le> length (mr_heap s)" "mr_heap s ! (m - 1) = Some mr"
    and loop: "for_all_do (mr_planeMrs mr) (\<lambda>v. if v \<noteq> null then call_void (ibv_dereg_mr env v) else ret ()) s
      = Inr ((), u)"
    and t: "r = ncclSuccess" "t = u\<lparr>mr_heap := (mr_heap u)[m - 1 := None]\<rparr>"
    by (auto simp: deregister_mr_def deref_mr_def modify_def ret_def not_less elim!: seq_InrE
        split: if_splits option.splits)
  from run_dereg_loop [OF loop] obtain w where u: "u = s\<lparr>world := w\<rparr>"
    and w: "outstanding_after (book (world s)) (mr_handles (Some mr)) (book w) {#}"
    by (auto simp: mr_handles_def)
  let ?heap = "(mr_heap s)[m - 1 := None]"
  have "heap_handles ?heap + mr_handles (Some mr) = heap_handles (mr_heap s)"
    using heap_handles_update [of "m - 1" "mr_heap s" None] m False by (simp add: mr_handles_def)
  then have "outstanding_after (book (world s)) (heap_handles (mr_heap s)) (book w) (heap_handles ?heap)"
    using w outstanding_after_frame [of "book (world s)" "mr_handles (Some mr)" "heap_handles ?heap" "book w" "{#}"]
    by (simp add: add.commute)
  with False m t u show ?thesis by simp
qed

lemma run_register_planes:
  assumes "register_planes env m data sz i ds s = Inr (r, t)"
    and "registering m mr i (i + length ds) s"
  shows "devices t = devices s \<and>
    outstanding_after (book (world s)) (heap_handles (mr_heap s)) (book (world t)) (heap_handles (mr_heap t)) \<and>
    (if r = ncclSuccess
     then \<exists>mr'. mr_heap t = (mr_heap s)[m - 1 := Some mr'] \<and>
       registering m mr' (i + length ds) (i + length ds) t \<and>
       mr_base mr' = mr_base mr \<and> mr_size mr' = mr_size mr \<and> mr_type mr' = mr_type mr
     else mr_heap t = (mr_heap s)[m - 1 := None])"
  using assms
proof (induction ds arbitrary: i mr s)
  case Nil
  then have "t = s" "r = ncclSuccess" and "mr_heap s ! (m - 1) = Some mr"
    by (auto simp: ret_def registering_def)
  moreover from this(3) have "mr_heap s = (mr_heap s)[m - 1 := Some mr]" by (metis list_update_id)
  moreover note Nil
  ultimately  show ?case by (auto intro!: exI [where x = mr])
next
  case (Cons d ds)
  let ?n = "i + length (d # ds)"
  from Cons.prems(2) have m: "m \<noteq> null" "m \<le> length (mr_heap s)" "mr_heap s ! (m - 1) = Some mr"
    and mrs: "length (mr_planeMrs mr) = ?n" "\<forall>j < i. mr_planeMrs mr ! j \<noteq> null"
      "\<forall>j < ?n. i \<le> j \<longrightarrow> mr_planeMrs mr ! j = null"
    unfolding registering_def by blast+
  from Cons.prems(1) obtain v u where reg: "call (ibv_reg_mr env (pd_pd d) data sz mr_access_flags) s = Inr (v, u)"
    and rest: "seq (deref_mr m) (\<lambda>mr.
     seq (modify (\<lambda>s. s\<lparr>mr_heap := (mr_heap s)
            [m - 1 := Some (mr\<lparr>mr_planeMrs := (mr_planeMrs mr)[i := v]\<rparr>)]\<rparr>)) (\<lambda>_.
     if v = null then seq (deregister_mr env m) (\<lambda>_. ret ncclSystemError)
     else register_planes env m data sz (Suc i) ds)) u = Inr (r, t)"
    unfolding register_planes.simps by (rule seq_InrE)
  from run_reg_mr [OF reg] obtain w where u: "u = s\<lparr>world := w\<rparr>"
    and w: "outstanding_after (book (world s)) {#} (book w) (handle_of Mr v)" by blast
  let ?mr = "mr\<lparr>mr_planeMrs := (mr_planeMrs mr)[i := v]\<rparr>"
  let ?x = "u\<lparr>mr_heap := (mr_heap s)[m - 1 := Some ?mr]\<rparr>"
  from rest m u have more: "(if v = null then seq (deregister_mr env m) (\<lambda>_. ret ncclSystemError)
     else register_planes env m data sz (Suc i) ds) ?x = Inr (r, t)"
    by (auto simp: deref_mr_def modify_def elim!: seq_InrE simp del: if_split)
  have "mr_handles (Some ?mr) = mr_handles (Some mr) + handle_of Mr v"
    using sum_handles_update [of i "mr_planeMrs mr" Mr v] mrs by (simp add: mr_handles_def)
  then have grow: "heap_handles (mr_heap ?x) = heap_handles (mr_heap s) + handle_of Mr v"
    using heap_handles_update [of "m - 1" "mr_heap s" "Some ?mr"] m by (simp add: add_ac)
  have step: "outstanding_after (book (world s)) (heap_handles (mr_heap s)) (book (world ?x)) (heap_handles (mr_heap ?x))"
    using w outstanding_after_frame [of "book (world s)" "{#}" "heap_handles (mr_heap s)" "book w" "handle_of Mr v"]
    unfolding grow by (simp add: u add.commute)
  show ?case
  proof (cases "v = null")
    case True
    with more obtain y where dereg: "deregister_mr env m ?x = Inr (ncclSuccess, t)" and r: "r = ncclSystemError"
      by (auto elim!: seq_InrE simp: ret_def dest: run_deregister)
    from run_deregister [OF dereg] m step r u show ?thesis
      by (auto intro: outstanding_after_trans)
  next
    case False
    have "registering m ?mr (Suc i) (Suc i + length ds) ?x"
      using m mrs False by (auto simp: registering_def nth_list_update less_Suc_eq)
    moreover have "register_planes env m data sz (Suc i) ds ?x = Inr (r, t)" using more False by simp
    ultimately have IH: "devices t = devices ?x \<and>
      outstanding_after (book (world ?x)) (heap_handles (mr_heap ?x)) (book (world t)) (heap_handles (mr_heap t)) \<and>
      (if r = ncclSuccess
       then \<exists>mr'. mr_heap t = (mr_heap ?x)[m - 1 := Some mr'] \<and>
         registering m mr' (Suc i + length ds) (Suc i + length ds) t \<and>
         mr_base mr' = mr_base ?mr \<and> mr_size mr' = mr_size ?mr \<and> mr_type mr' = mr_type ?mr
       else mr_heap t = (mr_heap ?x)[m - 1 := None])"
      by (intro Cons.IH)
    then have "outstanding_after (book (world s)) (heap_handles (mr_heap s)) (book (world t)) (heap_handles (mr_heap t))"
      using step outstanding_after_trans by blast
    moreover have "if r = ncclSuccess
       then \<exists>mr'. mr_heap t = (mr_heap s)[m - 1 := Some mr'] \<and>
         registering m mr' ?n ?n t \<and> mr_base mr' = mr_base mr \<and> mr_size mr' = mr_size mr \<and> mr_type mr' = mr_type mr
       else mr_heap t = (mr_heap s)[m - 1 := None]"
      using IH by (auto split: if_splits)
    ultimately show ?thesis using IH u by simp
  qed
qed

end

lemma register_mr_run:
  assumes "register_mr (traced env) data sz type s = Inr ((r, m), t)"
  shows "outstanding_after (snd (world s)) (heap_handles (mr_heap s)) (snd (world t)) (heap_handles (mr_heap t)) \<and>
    devices t = devices s \<and>
    (if r = ncclSuccess
     then \<exists>mr. m = length (mr_heap s) + 1 \<and> mr_heap t = mr_heap s @ [Some mr] \<and> mr_base mr = data \<and>
       mr_size mr = sz \<and> length (mr_planeMrs mr) = length (devices s) \<and> null \<notin> set (mr_planeMrs mr)
     else m = null \<and> (mr_heap t = mr_heap s \<or> mr_heap t = mr_heap s @ [None]))"
proof (cases "devices s = [] \<or> data = 0 \<or> sz = 0")
  case True
  with assms show ?thesis by (auto simp: register_mr_def gets_def ret_def elim!: seq_InrE)
next
  case False
  let ?mr = "\<lparr>mr_base = data, mr_size = sz, mr_type = type, mr_planeMrs = replicate (length (devices s)) null\<rparr>"
  let ?s = "s\<lparr>mr_heap := mr_heap s @ [Some ?mr]\<rparr>"
  let ?m = "length (mr_heap s) + 1"
  from assms False obtain planes: "register_planes (traced env) ?m data sz 0 (devices s) ?s = Inr (r, t)"
    and m: "m = (if r = ncclSuccess then ?m else null)"
    by (auto simp: register_mr_def gets_def modify_def ret_def Let_def elim!: seq_InrE)
  have start: "registering ?m ?mr 0 (0 + length (devices s)) ?s"
    by (simp add: registering_def)
  have "sum_list (map (handle_of Mr) (replicate n null)) = {#}" for n
    by (induction n) (simp_all add: handle_of_def)
  then have "heap_handles (mr_heap ?s) = heap_handles (mr_heap s)"
    by (simp add: heap_handles_def mr_handles_def)
  then show ?thesis
    using traced_env.run_register_planes [OF planes start] m
    by (auto simp: registering_def in_set_conv_nth list_update_append split: if_splits)
qed

text \<open>C28. Registering a buffer leaks nothing and is all or nothing: on success the new object holds one
  region per device and none of them is null, on failure the regions already made are released, the
  object is gone and no handle is given out; the other registrations and the devices stay.\<close>

theorem register_mr_all_or_nothing:
  assumes "register_mr (traced env) data sz type s = Inr ((r, m), t)"
  shows "outstanding_after (snd (world s)) (heap_handles (mr_heap s)) (snd (world t)) (heap_handles (mr_heap t)) \<and>
    devices t = devices s \<and>
    (if r = ncclSuccess
     then \<exists>mr. m = length (mr_heap s) + 1 \<and> mr_heap t = mr_heap s @ [Some mr] \<and> mr_base mr = data \<and>
       mr_size mr = sz \<and> length (mr_planeMrs mr) = length (devices s) \<and> null \<notin> set (mr_planeMrs mr)
     else m = null \<and> (mr_heap t = mr_heap s \<or> mr_heap t = mr_heap s @ [None]))"
  using assms by (rule register_mr_run)

definition sample_mr_st :: "(sample_world \<times> ledger) mr_st" where
  "sample_mr_st =
     \<lparr>world = (start_world, \<lparr>acquired = {#}, released = {#}\<rparr>), psn_seed = 0,
      devices = [default_plane_device\<lparr>pd_context := 5, pd_pd := 6\<rparr>,
                 default_plane_device\<lparr>pd_planeId := 3, pd_context := 7, pd_pd := 8\<rparr>],
      mr_heap = []\<rparr>"

lemma sample_register_runs:
  "\<exists>m t. register_mr (traced sample_env) 4096 64 1 sample_mr_st = Inr ((ncclSuccess, m), t)"
  by (simp add: sample_mr_st_def register_mr_def deref_mr_def Let_def seq_def ret_def call_def gets_def
      modify_def traced_def traced_call_def traced_void_def sample_env_def start_world_def fresh_def)

theorem register_mr_all_or_nothing_witness:
  "\<exists>m t mr. register_mr (traced sample_env) 4096 64 1 sample_mr_st = Inr ((ncclSuccess, m), t) \<and>
     mr_heap t = [Some mr] \<and> length (mr_planeMrs mr) = 2"
proof -
  obtain m t where t: "register_mr (traced sample_env) 4096 64 1 sample_mr_st = Inr ((ncclSuccess, m), t)"
    using sample_register_runs by blast
  from register_mr_all_or_nothing [OF t] t show ?thesis by (auto simp: sample_mr_st_def)
qed

text \<open>The handle a registration gives out serves exactly the planes the adapters cover: looking it up
  for a plane is defined, changes nothing, and finds a region if and only if some device has the plane.\<close>

theorem registered_mr_covers_the_planes:
  assumes "register_mr (traced env) data sz type s = Inr ((ncclSuccess, m), t)"
  shows "\<exists>p. mr_for_plane m planeId t = Inr (p, t) \<and>
    (p \<noteq> null \<longleftrightarrow> planeId \<in> set (plane_numbers (devices t)))"
proof -
  from register_mr_run [OF assms] obtain mr where ds: "devices t = devices s"
    and m: "m = length (mr_heap s) + 1" "mr_heap t = mr_heap s @ [Some mr]"
    and mrs: "length (mr_planeMrs mr) = length (devices s)" "null \<notin> set (mr_planeMrs mr)" by auto
  let ?i = "find_index (\<lambda>device. pd_planeId device = planeId) (devices s)"
  let ?p = "case ?i of None \<Rightarrow> null | Some i \<Rightarrow> mr_planeMrs mr ! i"
  have "mr_for_plane m planeId t = Inr (?p, t)"
    using m mrs(1) ds by (simp add: mr_for_plane_def deref_mr_def seq_def gets_def)
  moreover have "?p \<noteq> null \<longleftrightarrow> planeId \<in> set (plane_numbers (devices t))"
  proof (cases ?i)
    case None
    then have "\<forall>d \<in> set (devices s). pd_planeId d \<noteq> planeId" by (simp only: find_index_None)
    then show ?thesis using None by (auto simp: plane_numbers_def ds)
  next
    case (Some i)
    then have "i < length (devices s)" and "pd_planeId (devices s ! i) = planeId"
      by (auto dest: find_index_SomeD)
    moreover from this(1) mrs have "mr_planeMrs mr ! i \<noteq> null" by (metis nth_mem)
    ultimately show ?thesis using Some by (auto simp: plane_numbers_def ds)
  qed
  ultimately show ?thesis by blast
qed

theorem registered_mr_covers_the_planes_witness:
  "\<exists>m t. register_mr (traced sample_env) 4096 64 1 sample_mr_st = Inr ((ncclSuccess, m), t) \<and>
     (\<exists>p. mr_for_plane m 3 t = Inr (p, t))"
proof -
  obtain m t where t: "register_mr (traced sample_env) 4096 64 1 sample_mr_st = Inr ((ncclSuccess, m), t)"
    using sample_register_runs by blast
  from registered_mr_covers_the_planes [OF t, of 3] t show ?thesis by blast
qed

text \<open>Deregistering a live handle releases each of its regions exactly once and ends its object,
  so that any further use of the handle, a second deregistration included, is the undefined behaviour
  of a dangling pointer and no other handle is affected.\<close>

theorem deregister_mr_once:
  assumes "deregister_mr (traced env) m s = Inr (r, t)" and "m \<noteq> null"
  shows "r = ncclSuccess \<and>
    outstanding_after (snd (world s)) (mr_handles (mr_heap s ! (m - 1))) (snd (world t)) {#} \<and>
    deregister_mr (traced env) m t = Inl Undefined_behaviour \<and>
    (\<forall>k. k \<noteq> m - 1 \<longrightarrow> mr_heap t ! k = mr_heap s ! k)"
proof -
  from traced_env.run_deregister [OF assms(1)] assms(2)
  have t: "r = ncclSuccess" "m \<le> length (mr_heap s)" "mr_heap t = (mr_heap s)[m - 1 := None]"
    and book: "outstanding_after (snd (world s)) (heap_handles (mr_heap s)) (snd (world t)) (heap_handles (mr_heap t))"
    by blast+
  have "heap_handles (mr_heap t) + mr_handles (mr_heap s ! (m - 1)) = heap_handles (mr_heap s)"
    using heap_handles_update [of "m - 1" "mr_heap s" None] t assms(2) by (simp add: mr_handles_def)
  then have "outstanding_after (snd (world s)) (mr_handles (mr_heap s ! (m - 1))) (snd (world t)) {#}"
    using book outstanding_after_frame [of "snd (world s)" "mr_handles (mr_heap s ! (m - 1))"
        "heap_handles (mr_heap t)" "snd (world t)" "{#}"]
    by (simp add: add.commute)
  moreover have "deregister_mr (traced env) m t = Inl Undefined_behaviour"
    using t assms(2) by (simp add: deregister_mr_def deref_mr_def seq_def)
  ultimately show ?thesis using t by simp
qed

definition sample_registered_st :: "(sample_world \<times> ledger) mr_st" where
  "sample_registered_st = sample_mr_st\<lparr>mr_heap := [Some \<lparr>mr_base = 4096, mr_size = 64, mr_type = 1,
     mr_planeMrs = [11, 12]\<rparr>]\<rparr>"

theorem deregister_mr_once_witness:
  "\<exists>t. deregister_mr (traced sample_env) 1 sample_registered_st = Inr (ncclSuccess, t) \<and>
     deregister_mr (traced sample_env) 1 t = Inl Undefined_behaviour"
proof -
  obtain t where t: "deregister_mr (traced sample_env) 1 sample_registered_st = Inr (ncclSuccess, t)"
    by (simp add: sample_registered_st_def sample_mr_st_def deregister_mr_def deref_mr_def seq_def ret_def
        call_void_def modify_def)
  from deregister_mr_once [OF t] t show ?thesis by auto
qed

end
