(* ===== verification/PeerControl.thy ===== *)
theory PeerControl
  imports MemRegion "HOL-Library.Sublist"
begin

text \<open>
  The control connection of a communicator, \<open>plugins/net/dpfr_ib/src/peer_control.{h,cc}\<close>: reliable
  sending and receiving over a stream socket, the receive buffer and the reassembly of messages.
  The object's fields are \<open>peer_fd\<close> and \<open>peer_rx\<close>; its mutex only orders concurrent senders.  A
  loop of the source that a peer can prolong runs on the fuel \<open>env_fuel\<close>.

  The lemmas say what the loops leave of the connection, that they end, and that the messages
  popped are the messages sent however the network cut the stream.
\<close>

record 'w table_st = "'w mr_st" +
  planes :: plane_table

record 'w peer_st = "'w table_st" +
  peer_fd :: int
  peer_rx :: "u8 list"

section \<open>Sockets\<close>

definition O_NONBLOCK :: u32 where
  "O_NONBLOCK = 0x800"

definition set_socket_non_blocking ::
    "'w env \<Rightarrow> int \<Rightarrow> bool \<Rightarrow> (('w, 'z) machine_scheme, nccl_result) prog" where
  "set_socket_non_blocking env fd nonBlocking =
     seq (call (sys_getfl env fd)) (\<lambda>flags.
     case flags of
       None \<Rightarrow> ret ncclSystemError
     | Some flags \<Rightarrow>
         seq (call (sys_setfl env fd
               (if nonBlocking then flags OR O_NONBLOCK else flags AND NOT O_NONBLOCK)))
           (\<lambda>ok. ret (if ok then ncclSuccess else ncclSystemError)))"

definition retry_errno :: "errno \<Rightarrow> bool" where
  "retry_errno e \<longleftrightarrow> e = EINTR \<or> e = EAGAIN \<or> e = EWOULDBLOCK"

text \<open>One iteration of the loop of \<open>sendAll\<close> over the bytes not yet taken.\<close>

definition send_step ::
    "'w env \<Rightarrow> int \<Rightarrow> u8 list \<Rightarrow> (('w, 'z) machine_scheme, u8 list + nccl_result) prog" where
  "send_step env fd left =
     (if left = [] then ret (Inr ncclSuccess)
      else seq (call (sys_send env fd left)) (\<lambda>r.
        case r of
          Sent n \<Rightarrow> if 0 < n then ret (Inl (drop n left)) else ret (Inr ncclRemoteError)
        | SendError e \<Rightarrow> if retry_errno e then ret (Inl left) else ret (Inr ncclRemoteError)))"

definition send_all ::
    "'w env \<Rightarrow> int \<Rightarrow> u8 list \<Rightarrow> (('w, 'z) machine_scheme, nccl_result) prog" where
  "send_all env fd data = loop (env_fuel env) (send_step env fd) data"

text \<open>One iteration of the loop of \<open>recvAll\<close> over the bytes received; the result with them.\<close>

definition recv_step ::
    "'w env \<Rightarrow> int \<Rightarrow> nat \<Rightarrow> int \<Rightarrow> u8 list
     \<Rightarrow> (('w, 'z) machine_scheme, u8 list + nccl_result \<times> u8 list) prog" where
  "recv_step env fd sz timeoutMs got =
     (if sz \<le> length got then ret (Inr (ncclSuccess, got))
      else seq (call (sys_poll env fd timeoutMs)) (\<lambda>pr.
        case pr of
          PollTimeout \<Rightarrow> ret (Inr (ncclInternalError, got))
        | PollError e \<Rightarrow> if e = EINTR then ret (Inl got) else ret (Inr (ncclSystemError, got))
        | PollReady nval \<Rightarrow>
            seq (call (sys_recv env fd (sz - length got))) (\<lambda>r.
            case r of
              Received bs \<Rightarrow>
                if bs = [] then ret (Inr (ncclRemoteError, got))
                else ret (Inl (got @ take (sz - length got) bs))
            | EndOfStream \<Rightarrow> ret (Inr (ncclRemoteError, got))
            | RecvError e \<Rightarrow>
                if retry_errno e then ret (Inl got) else ret (Inr (ncclRemoteError, got)))))"

definition recv_all ::
    "'w env \<Rightarrow> int \<Rightarrow> nat \<Rightarrow> int \<Rightarrow> (('w, 'z) machine_scheme, nccl_result \<times> u8 list) prog" where
  "recv_all env fd sz timeoutMs = loop (env_fuel env) (recv_step env fd sz timeoutMs) []"

section \<open>The connection\<close>

definition peer_close :: "'w env \<Rightarrow> (('w, 'z) peer_st_scheme, unit) prog" where
  "peer_close env =
     seq (gets peer_fd) (\<lambda>fd.
     seq (if 0 \<le> fd
          then seq (call_void (sys_close env fd)) (\<lambda>_. modify (\<lambda>s. s\<lparr>peer_fd := -1\<rparr>))
          else ret ())
     (\<lambda>_. modify (\<lambda>s. s\<lparr>peer_rx := []\<rparr>)))"

definition peer_reset :: "'w env \<Rightarrow> int \<Rightarrow> (('w, 'z) peer_st_scheme, unit) prog" where
  "peer_reset env fd =
     seq (peer_close env) (\<lambda>_. modify (\<lambda>s. s\<lparr>peer_fd := fd, peer_rx := []\<rparr>))"

definition send_message :: "'w env \<Rightarrow> wire_msg \<Rightarrow> (('w, 'z) peer_st_scheme, nccl_result) prog" where
  "send_message env msg =
     seq (gets peer_fd) (\<lambda>fd.
     if fd < 0 then ret ncclRemoteError else send_all env fd (msg_bytes msg))"

text \<open>The two loops of \<open>readAvailable\<close>: the poll, and the reads of up to 4096 bytes.  The result has
  the \<open>timedOut\<close> flag.\<close>

definition poll_step ::
    "'w env \<Rightarrow> int \<Rightarrow> int \<Rightarrow> unit
     \<Rightarrow> (('w, 'z) peer_st_scheme, unit + (nccl_result \<times> bool) option) prog" where
  "poll_step env fd timeoutMs u =
     seq (call (sys_poll env fd timeoutMs)) (\<lambda>pr.
     case pr of
       PollTimeout \<Rightarrow> ret (Inr (Some (ncclSuccess, True)))
     | PollError e \<Rightarrow> if e = EINTR then ret (Inl ()) else ret (Inr (Some (ncclSystemError, False)))
     | PollReady nval \<Rightarrow> if nval then ret (Inr (Some (ncclRemoteError, False))) else ret (Inr None))"

definition chunk_step ::
    "'w env \<Rightarrow> int \<Rightarrow> unit \<Rightarrow> (('w, 'z) peer_st_scheme, unit + nccl_result \<times> bool) prog" where
  "chunk_step env fd u =
     seq (call (sys_recv env fd 4096)) (\<lambda>r.
     case r of
       Received bs \<Rightarrow>
         if bs = [] then ret (Inr (ncclRemoteError, False))
         else seq (modify (\<lambda>s. s\<lparr>peer_rx := peer_rx s @ bs\<rparr>)) (\<lambda>_. ret (Inl ()))
     | EndOfStream \<Rightarrow> ret (Inr (ncclRemoteError, False))
     | RecvError e \<Rightarrow>
         if e = EINTR then ret (Inl ())
         else if e = EAGAIN \<or> e = EWOULDBLOCK then ret (Inr (ncclSuccess, False))
         else ret (Inr (ncclRemoteError, False)))"

definition read_available ::
    "'w env \<Rightarrow> int \<Rightarrow> (('w, 'z) peer_st_scheme, nccl_result \<times> bool) prog" where
  "read_available env timeoutMs =
     seq (gets peer_fd) (\<lambda>fd.
     if fd < 0 then ret (ncclInvalidArgument, False)
     else seq (loop (env_fuel env) (poll_step env fd timeoutMs) ()) (\<lambda>polled.
       case polled of
         Some r \<Rightarrow> ret r
       | None \<Rightarrow> loop (env_fuel env) (chunk_step env fd) ()))"

text \<open>The result, and the message when \<open>*got\<close> is set.\<close>

definition pop_message :: "(('w, 'z) peer_st_scheme, nccl_result \<times> wire_msg option) prog" where
  "pop_message =
     seq (gets peer_rx) (\<lambda>rx.
     if length rx < msg_size then ret (ncclSuccess, None)
     else
       let msg = msg_of_bytes (take msg_size rx) in
       seq (modify (\<lambda>s. s\<lparr>peer_rx := drop msg_size rx\<rparr>)) (\<lambda>_.
       if \<not> valid_message msg then ret (ncclRemoteError, None)
       else ret (ncclSuccess, Some msg)))"

definition recv_message_step ::
    "'w env \<Rightarrow> int \<Rightarrow> unit
     \<Rightarrow> (('w, 'z) peer_st_scheme, unit + nccl_result \<times> wire_msg option) prog" where
  "recv_message_step env timeoutMs u =
     seq pop_message (\<lambda>(r, got).
     if r \<noteq> ncclSuccess \<or> got \<noteq> None then ret (Inr (r, got))
     else seq (read_available env timeoutMs) (\<lambda>(r, timedOut).
       if r \<noteq> ncclSuccess then ret (Inr (r, None))
       else if timedOut then ret (Inr (ncclInternalError, None))
       else ret (Inl ())))"

definition recv_message ::
    "'w env \<Rightarrow> int \<Rightarrow> (('w, 'z) peer_st_scheme, nccl_result \<times> wire_msg option) prog" where
  "recv_message env timeoutMs =
     seq (gets peer_fd) (\<lambda>fd.
     if fd < 0 then ret (ncclInvalidArgument, None)
     else loop (env_fuel env) (recv_message_step env timeoutMs) ())"

definition progress_recv ::
    "'w env \<Rightarrow> (('w, 'z) peer_st_scheme, nccl_result \<times> wire_msg option) prog" where
  "progress_recv env =
     seq (gets peer_fd) (\<lambda>fd.
     if fd < 0 then ret (ncclInvalidArgument, None)
     else seq pop_message (\<lambda>(r, got).
     if r \<noteq> ncclSuccess \<or> got \<noteq> None then ret (r, got)
     else seq (read_available env 0) (\<lambda>(r, timedOut).
       if r \<noteq> ncclSuccess then ret (r, None)
       else if timedOut then ret (ncclSuccess, None)
       else pop_message)))"

section \<open>Sending\<close>

text \<open>
  What the lemmas rely on of \<open>send\<close>: it takes a prefix of what it is given, which an observer of the
  outgoing stream sees, and it does not answer "try again" forever.
\<close>

definition observes_sends :: "'w env \<Rightarrow> ('w \<Rightarrow> u8 list) \<Rightarrow> bool" where
  "observes_sends env wire \<longleftrightarrow>
     (\<forall>fd bs w r w'. sys_send env fd bs w = (r, w') \<longrightarrow>
        wire w' = wire w @ (case r of Sent n \<Rightarrow> take n bs | SendError e \<Rightarrow> []))"

definition patient_sends :: "'w env \<Rightarrow> ('w \<Rightarrow> nat) \<Rightarrow> bool" where
  "patient_sends env retries \<longleftrightarrow>
     (\<forall>fd bs w r w'. sys_send env fd bs w = (r, w') \<longrightarrow>
        (case r of Sent n \<Rightarrow> retries w' \<le> retries w
         | SendError e \<Rightarrow> retry_errno e \<longrightarrow> retries w' < retries w))"

lemma send_all_sends:
  assumes "observes_sends env wire" and "send_all env fd data s = Inr (ncclSuccess, t)"
  shows "wire (world t) = wire (world s) @ data"
proof -
  have "ncclSuccess = ncclSuccess \<longrightarrow> wire (world t) = wire (world s) @ data"
  proof (rule loop_invariant [OF assms(2) [unfolded send_all_def],
        where I = "\<lambda>left u. wire (world u) @ left = wire (world s) @ data"
          and Q = "\<lambda>y v. y = ncclSuccess \<longrightarrow> wire (world v) = wire (world s) @ data"])
    show "wire (world s) @ data = wire (world s) @ data" ..
  next
    fix left left' u v
    assume inv: "wire (world u) @ left = wire (world s) @ data"
      and step: "send_step env fd left u = Inr (Inl left', v)"
    from step obtain r w where call: "sys_send env fd left (world u) = (r, w)" and v: "world v = w"
      and left': "left' = (case r of Sent n \<Rightarrow> drop n left | SendError e \<Rightarrow> left)"
      by (auto simp: send_step_def ret_def call_def elim!: seq_InrE
          split: if_splits prod.splits send_result.splits)
    from assms(1) call have "wire w = wire (world u) @ (case r of Sent n \<Rightarrow> take n left | SendError e \<Rightarrow> [])"
      unfolding observes_sends_def by blast
    with left' v have "wire (world v) @ left' = wire (world u) @ left" by (cases r) simp_all
    with inv show "wire (world v) @ left' = wire (world s) @ data" by simp
  next
    fix left y u v
    assume inv: "wire (world u) @ left = wire (world s) @ data"
      and step: "send_step env fd left u = Inr (Inr y, v)"
    then show "y = ncclSuccess \<longrightarrow> wire (world v) = wire (world s) @ data"
      by (auto simp: send_step_def ret_def elim!: seq_InrE split: if_splits send_result.splits)
  qed
  then show ?thesis by simp
qed

lemma send_all_returns:
  assumes "patient_sends env retries" and "length data + retries (world s) < env_fuel env"
  shows "\<exists>r t. send_all env fd data s = Inr (r, t)"
  unfolding send_all_def
proof (rule loop_returns [where I = "\<lambda>_ _. True" and m = "\<lambda>left u. length left + retries (world u)"])
  fix left and u :: "('a, 'b) machine_scheme"
  obtain r w where call: "sys_send env fd left (world u) = (r, w)" by fastforce
  with assms(1) have "case r of Sent n \<Rightarrow> retries w \<le> retries (world u)
      | SendError e \<Rightarrow> retry_errno e \<longrightarrow> retries w < retries (world u)"
    unfolding patient_sends_def by blast
  with call show "\<exists>r v. send_step env fd left u = Inr (r, v) \<and>
      (case r of Inl left' \<Rightarrow> True \<and> length left' + retries (world v) < length left + retries (world u)
       | Inr y \<Rightarrow> True)"
    by (cases r) (auto simp: send_step_def seq_def ret_def call_def add_less_le_mono)
qed (use assms(2) in simp_all)

text \<open>C25. Sending a message puts exactly its 488-byte image on the connection when it reports success,
  however \<open>send\<close> splits it, and it returns whenever the socket does not answer "try again" more often
  than the fuel allows for.\<close>

theorem send_message_exact:
  assumes "observes_sends env wire" and "patient_sends env retries" and "0 \<le> peer_fd s"
    and "wf_msg msg" and "msg_size + retries (world s) < env_fuel env"
  shows "\<exists>r t. send_message env msg s = Inr (r, t) \<and>
    (r = ncclSuccess \<longrightarrow> wire (world t) = wire (world s) @ msg_bytes msg)"
proof -
  have "length (msg_bytes msg) = msg_size" using assms(4) by simp
  with assms(5) send_all_returns [OF assms(2)] obtain r t
    where run: "send_all env (peer_fd s) (msg_bytes msg) s = Inr (r, t)" by metis
  with assms(3) have "send_message env msg s = Inr (r, t)"
    by (simp add: send_message_def seq_def gets_def)
  with run send_all_sends [OF assms(1)] show ?thesis by blast
qed

definition sample_peer_st :: "sample_world peer_st" where
  "sample_peer_st =
     \<lparr>world = start_world, psn_seed = 0, devices = [], mr_heap = [], planes = [], peer_fd = 5, peer_rx = []\<rparr>"

lemma sample_sends:
  "observes_sends sample_env sw_outbox" "patient_sends sample_env (\<lambda>_. 0)"
  by (auto simp: observes_sends_def patient_sends_def sample_env_def)

theorem send_message_exact_witness:
  "\<exists>r t. send_message sample_env (make_message Query) sample_peer_st = Inr (r, t) \<and>
    (r = ncclSuccess \<longrightarrow> sw_outbox (world t) = sw_outbox (world sample_peer_st) @ msg_bytes (make_message Query))"
  by (rule send_message_exact [OF sample_sends])
    (simp_all add: sample_peer_st_def sample_env_def msg_size_def kMaxPlanes_def kControlTextBytes_def)

section \<open>Reassembly\<close>

text \<open>What can happen to the receive buffer: bytes arrive, or a message is popped.\<close>

datatype rx_event = Arrive "u8 list" | Pop

fun deliver_rx :: "rx_event list \<Rightarrow> (('w, 'z) peer_st_scheme, wire_msg list) prog" where
  "deliver_rx [] = ret []"
| "deliver_rx (Arrive bs # es) =
     seq (modify (\<lambda>s. s\<lparr>peer_rx := peer_rx s @ bs\<rparr>)) (\<lambda>_. deliver_rx es)"
| "deliver_rx (Pop # es) =
     seq pop_message (\<lambda>(r, got).
     seq (deliver_rx es) (\<lambda>ms. ret (case got of None \<Rightarrow> ms | Some m \<Rightarrow> m # ms)))"

fun arrivals :: "rx_event list \<Rightarrow> u8 list" where
  "arrivals [] = []"
| "arrivals (Arrive bs # es) = bs @ arrivals es"
| "arrivals (Pop # es) = arrivals es"

definition sendable :: "wire_msg \<Rightarrow> bool" where
  "sendable m \<longleftrightarrow> wf_msg m \<and> valid_message m"

definition stream_of :: "wire_msg list \<Rightarrow> u8 list" where
  "stream_of ms = concat (map msg_bytes ms)"

lemma stream_of_simps [simp]:
  "stream_of [] = []" "stream_of (m # ms) = msg_bytes m @ stream_of ms"
  by (simp_all add: stream_of_def)

text \<open>Popping from a buffer that starts with a whole message, and from one that does not.\<close>

lemma pop_message_first:
  assumes "sendable m" and "peer_rx s = msg_bytes m @ buf"
  shows "pop_message s = Inr ((ncclSuccess, Some m), s\<lparr>peer_rx := buf\<rparr>)"
proof -
  have m: "wf_msg m" "valid_message m" using assms(1) by (simp_all add: sendable_def)
  show ?thesis
    using wire_frames.first_frame [OF m(1), of buf] m(2) assms(2)
    by (simp add: pop_message_def seq_def gets_def modify_def ret_def Let_def)
qed

lemma pop_message_short:
  "length (peer_rx s) < msg_size \<Longrightarrow> pop_message s = Inr ((ncclSuccess, None), s)"
  by (simp add: pop_message_def seq_def gets_def ret_def)

lemma msg_size_pos: "0 < msg_size"
  by (rule wire_frames.size_pos)

lemma buffer_starts_with_message:
  assumes "buf @ later = stream_of (m # ms) @ rest" and "msg_size \<le> length buf" and "sendable m"
  obtains buf' where "buf = msg_bytes m @ buf'" and "buf' @ later = stream_of ms @ rest"
proof -
  have "length (msg_bytes m) = msg_size" using assms(3) by (simp add: sendable_def)
  moreover have "take msg_size (buf @ later) = take msg_size buf" using assms(2) by simp
  ultimately have "take msg_size buf = msg_bytes m" using assms(1) by simp
  then have buf: "buf = msg_bytes m @ drop msg_size buf" by (metis append_take_drop_id)
  with assms(1) have "msg_bytes m @ (drop msg_size buf @ later) = msg_bytes m @ (stream_of ms @ rest)"
    by (metis append.assoc stream_of_simps(2))
  with buf show thesis by (intro that) simp_all
qed

lemma deliver_rx_prefix:
  assumes "deliver_rx es s = Inr (got, t)"
    and "peer_rx s @ arrivals es = stream_of ms @ rest"
    and "list_all sendable ms" and "length rest < msg_size"
  shows "\<exists>k \<le> length ms. got = take k ms \<and> peer_rx t = stream_of (drop k ms) @ rest"
  using assms
proof (induction es arbitrary: s ms got)
  case Nil
  then show ?case by (auto simp: ret_def)
next
  case (Cons e es)
  show ?case
  proof (cases e)
    case (Arrive bs)
    with Cons.prems Cons.IH [of "s\<lparr>peer_rx := peer_rx s @ bs\<rparr>" got ms] show ?thesis
      by (auto simp: seq_def modify_def)
  next
    case Pop
    show ?thesis
    proof (cases "length (peer_rx s) < msg_size")
      case True
      with Cons.prems(1) Pop have "deliver_rx es s = Inr (got, t)"
        by (auto simp: pop_message_short seq_def ret_def split: sum.splits)
      with Cons Pop show ?thesis by auto
    next
      case False
      have "ms \<noteq> []"
      proof
        assume "ms = []"
        with Cons.prems(2) have "length (peer_rx s) \<le> length rest" by (metis append_Nil length_append le_add1 stream_of_simps(1))
        with False Cons.prems(4) show False by simp
      qed
      then obtain m ms' where ms: "ms = m # ms'" by (cases ms) auto
      then have m: "sendable m" using Cons.prems(3) by simp
      from Cons.prems(2) Pop ms have "peer_rx s @ arrivals es = stream_of (m # ms') @ rest" by simp
      then obtain buf where buf: "peer_rx s = msg_bytes m @ buf" "buf @ arrivals es = stream_of ms' @ rest"
        using False m buffer_starts_with_message by (metis not_less)
      from pop_message_first [OF m buf(1)] Cons.prems(1) Pop obtain got'
        where "deliver_rx es (s\<lparr>peer_rx := buf\<rparr>) = Inr (got', t)" and got: "got = m # got'"
        by (auto simp: seq_def ret_def split: sum.splits)
      with Cons.IH [of "s\<lparr>peer_rx := buf\<rparr>" got' ms'] buf(2) Cons.prems(3,4) ms
      obtain k where "k \<le> length ms'" "got' = take k ms'" "peer_rx t = stream_of (drop k ms') @ rest" by auto
      then show ?thesis using ms got by (intro exI [of _ "Suc k"]) simp
    qed
  qed
qed

lemma pop_message_returns: "\<exists>x t. pop_message s = Inr (x, t)"
  by (simp add: pop_message_def seq_def gets_def modify_def ret_def Let_def)

lemma deliver_rx_returns: "\<exists>got t. deliver_rx es s = Inr (got, t)"
proof (induction es arbitrary: s)
  case Nil
  show ?case by (simp add: ret_def)
next
  case (Cons e es)
  show ?case
  proof (cases e)
    case (Arrive bs)
    with Cons show ?thesis by (simp add: seq_def modify_def)
  next
    case Pop
    obtain r got u where "pop_message s = Inr ((r, got), u)" using pop_message_returns by fastforce
    moreover obtain ms t where "deliver_rx es u = Inr (ms, t)" using Cons by blast
    ultimately show ?thesis using Pop by (simp add: seq_def ret_def)
  qed
qed

lemma deliver_rx_append:
  "deliver_rx es s = Inr (got, t) \<Longrightarrow> deliver_rx es' t = Inr (got', u) \<Longrightarrow>
   deliver_rx (es @ es') s = Inr (got @ got', u)"
proof (induction es arbitrary: s got)
  case Nil
  then show ?case by (simp add: ret_def)
next
  case (Cons e es)
  show ?case
  proof (cases e)
    case (Arrive bs)
    with Cons show ?thesis by (simp add: seq_def modify_def)
  next
    case Pop
    with Cons.prems(1) obtain r m v ms where pop: "pop_message s = Inr ((r, m), v)"
      and rest: "deliver_rx es v = Inr (ms, t)"
      and got: "got = (case m of None \<Rightarrow> ms | Some m \<Rightarrow> m # ms)"
      by (auto simp: ret_def elim!: seq_InrE)
    from Cons.IH [OF rest Cons.prems(2)] pop got Pop show ?thesis
      by (simp add: seq_def ret_def split: option.splits)
  qed
qed

lemma deliver_pops:
  assumes "list_all sendable ms" and "length rest < msg_size" and "length ms \<le> n"
    and "peer_rx s = stream_of ms @ rest"
  shows "\<exists>t. deliver_rx (replicate n Pop) s = Inr (ms, t) \<and> peer_rx t = rest"
  using assms
proof (induction n arbitrary: ms s)
  case 0
  then show ?case by (simp add: ret_def)
next
  case (Suc n)
  show ?case
  proof (cases ms)
    case Nil
    with Suc.prems(4) have rx: "peer_rx s = rest" by simp
    obtain t where "deliver_rx (replicate n Pop) s = Inr ([], t)" "peer_rx t = rest"
      using Suc.IH [of "[]" s] Suc.prems(2) rx by auto
    with Nil rx Suc.prems(2) show ?thesis by (simp add: seq_def ret_def pop_message_short)
  next
    case (Cons m ms')
    with Suc.prems have "pop_message s = Inr ((ncclSuccess, Some m), s\<lparr>peer_rx := stream_of ms' @ rest\<rparr>)"
      by (intro pop_message_first) simp_all
    moreover obtain t where "deliver_rx (replicate n Pop) (s\<lparr>peer_rx := stream_of ms' @ rest\<rparr>) = Inr (ms', t)"
      and "peer_rx t = rest"
      using Suc.IH [of ms' "s\<lparr>peer_rx := stream_of ms' @ rest\<rparr>"] Suc.prems Cons by auto
    ultimately show ?thesis using Cons by (simp add: seq_def ret_def)
  qed
qed

text \<open>C24. The messages popped are the messages sent: however the stream of valid messages is cut into
  arrivals, with pops interleaved anywhere, enough final pops have delivered all of them, in order,
  once, and the buffer holds just the bytes of the incomplete message that may follow.\<close>

theorem reassembly_is_exact:
  assumes "peer_rx s = []" and "arrivals es = stream_of ms @ rest"
    and "list_all sendable ms" and "length rest < msg_size" and "length ms \<le> n"
  shows "\<exists>t. deliver_rx (es @ replicate n Pop) s = Inr (ms, t) \<and> peer_rx t = rest"
proof -
  obtain got u where first: "deliver_rx es s = Inr (got, u)" using deliver_rx_returns by blast
  with deliver_rx_prefix [of es s got u ms rest] assms
  obtain k where k: "got = take k ms" "peer_rx u = stream_of (drop k ms) @ rest" by auto
  have "list_all sendable (drop k ms)"
    using assms(3) by (meson in_set_dropD list_all_iff)
  moreover have "length (drop k ms) \<le> n" using assms(5) by simp
  ultimately obtain t where "deliver_rx (replicate n Pop) u = Inr (drop k ms, t)" and t: "peer_rx t = rest"
    using deliver_pops [OF _ assms(4) _ k(2)] by blast
  from deliver_rx_append [OF first this(1)] k(1) t show ?thesis by auto
qed

theorem reassembly_is_exact_witness:
  "\<exists>t. deliver_rx ([Arrive (take 100 (msg_bytes (make_message Query))), Pop,
         Arrive (drop 100 (msg_bytes (make_message Query)) @ [1, 2])] @ replicate 2 Pop) sample_peer_st =
       Inr ([make_message Query], t) \<and> peer_rx t = [1, 2]"
proof (rule reassembly_is_exact)
  show "list_all sendable [make_message Query]"
    by (simp add: sendable_def valid_message_def make_message_def default_msg_def)
      (simp add: wf_make_message [unfolded make_message_def default_msg_def, simplified])
qed (simp_all add: sample_peer_st_def msg_size_def kMaxPlanes_def kControlTextBytes_def)

end
