(* ===== verification/CommState.thy ===== *)
theory CommState
  imports QpSlot Requests
begin

text \<open>
  The state of a communicator (\<open>DpfrComm\<close> of \<open>plugins/net/dpfr_ib/src/comm.{h,cc}\<close>) and the
  operations on it that do not talk to the peer: the request table, the receive journal, posting,
  retiring endpoints, and the reactions to a plane's events.

  The state extends the process-wide state of the context (plane table, devices, registrations),
  which other communicators and the monitor share, with the members of the object.  A \<open>QpSlot&\<close> or
  \<open>DpfrRequest&\<close> is an index; indices come from loops over the table or from a search, and using one
  out of range is undefined behaviour.  Membership in the context's set of communicators is the flag
  \<open>cm_registered\<close>.  The object's mutex makes each public operation atomic.
\<close>

record 'w comm_st = "'w peer_st" +
  cm_registered :: bool
  cm_sendSide :: bool
  cm_closed :: bool
  cm_failed :: bool
  cm_slots :: "qp_slot list"
  cm_requests :: "request list"
  cm_nextSeq :: u64
  cm_recvJournal :: "u64 set"
  cm_recvJournalOrder :: "u64 list"

text \<open>The members the constructor sets; the peer connection starts closed.\<close>

definition initial_requests :: "request list" where
  "initial_requests = map (\<lambda>i. default_request\<lparr>rq_index := int i\<rparr>) [0..<NCCL_NET_MAX_REQUESTS]"

definition new_comm :: "bool \<Rightarrow> ('w, 'z) comm_st_scheme \<Rightarrow> ('w, 'z) comm_st_scheme" where
  "new_comm sendSide s =
     s\<lparr>peer_fd := -1, peer_rx := [], cm_registered := False, cm_sendSide := sendSide,
       cm_closed := False, cm_failed := False, cm_slots := [], cm_requests := initial_requests,
       cm_nextSeq := 1, cm_recvJournal := {}, cm_recvJournalOrder := []\<rparr>"

section \<open>Slots and requests by index\<close>

definition get_slot :: "nat \<Rightarrow> (('w, 'z) comm_st_scheme, qp_slot) prog" where
  "get_slot i = (\<lambda>s. if i < length (cm_slots s) then Inr (cm_slots s ! i, s) else Inl Undefined_behaviour)"

definition put_slot :: "nat \<Rightarrow> qp_slot \<Rightarrow> (('w, 'z) comm_st_scheme, unit) prog" where
  "put_slot i slot = modify (\<lambda>s. s\<lparr>cm_slots := (cm_slots s)[i := slot]\<rparr>)"

definition update_slot :: "nat \<Rightarrow> (qp_slot \<Rightarrow> qp_slot) \<Rightarrow> (('w, 'z) comm_st_scheme, unit) prog" where
  "update_slot i f = seq (get_slot i) (\<lambda>slot. put_slot i (f slot))"

definition abort_recovery_at :: "'w env \<Rightarrow> nat \<Rightarrow> (('w, 'z) comm_st_scheme, unit) prog" where
  "abort_recovery_at env i =
     seq (get_slot i) (\<lambda>slot. seq (abort_recovery env slot) (put_slot i))"

definition get_request :: "nat \<Rightarrow> (('w, 'z) comm_st_scheme, request) prog" where
  "get_request k =
     (\<lambda>s. if k < length (cm_requests s) then Inr (cm_requests s ! k, s) else Inl Undefined_behaviour)"

definition put_request :: "nat \<Rightarrow> request \<Rightarrow> (('w, 'z) comm_st_scheme, unit) prog" where
  "put_request k req = modify (\<lambda>s. s\<lparr>cm_requests := (cm_requests s)[k := req]\<rparr>)"

definition update_request :: "nat \<Rightarrow> (request \<Rightarrow> request) \<Rightarrow> (('w, 'z) comm_st_scheme, unit) prog" where
  "update_request k f = seq (get_request k) (\<lambda>req. put_request k (f req))"

definition find_slot_by_plane :: "qp_slot list \<Rightarrow> int \<Rightarrow> nat option" where
  "find_slot_by_plane slots planeId = find_index (\<lambda>slot. qs_planeId slot = planeId) slots"

definition plane_allows_qp_recovery :: "plane_snapshot \<Rightarrow> bool" where
  "plane_allows_qp_recovery plane \<longleftrightarrow> ps_health plane = Recovering \<or> ps_health plane = Healthy"

definition slot_at_generation :: "qp_slot \<Rightarrow> u32 \<Rightarrow> bool" where
  "slot_at_generation slot generation \<longleftrightarrow>
     qs_state slot = SlotActive \<and> ep_qp (qs_active slot) \<noteq> null \<and> ep_ready (qs_active slot) \<and>
     ep_generation (qs_active slot) = generation"

section \<open>Requests\<close>

definition kMaxPluginBytes :: u64 where
  "kMaxPluginBytes = 1024 * 1024 * 1024"

definition reusable :: "request \<Rightarrow> bool" where
  "reusable req \<longleftrightarrow> rq_state req = ReqFree \<or> rq_state req = ReqDone \<or> rq_state req = ReqFailed"

definition alloc_request :: "(('w, 'z) comm_st_scheme, nat option) prog" where
  "alloc_request =
     seq (gets (\<lambda>s. find_index reusable (cm_requests s))) (\<lambda>found.
     case found of
       None \<Rightarrow> ret None
     | Some k \<Rightarrow> seq (put_request k (default_request\<lparr>rq_index := int k\<rparr>)) (\<lambda>_. ret (Some k)))"

definition has_outstanding :: "('w, 'z) comm_st_scheme \<Rightarrow> bool" where
  "has_outstanding s \<longleftrightarrow> (\<exists>req \<in> set (cm_requests s). outstanding req)"

text \<open>What a posted request becomes when its queue pair can no longer be trusted.\<close>

definition demote :: "request \<Rightarrow> request" where
  "demote req =
     (if rq_state req = ReqPosted
      then req\<lparr>rq_state := if rq_kind req = ReqSend then ReqNeedsQuery else ReqNeedsReplay\<rparr>
      else req)"

definition demote_plane :: "int \<Rightarrow> (('w, 'z) comm_st_scheme, unit) prog" where
  "demote_plane planeId =
     modify (\<lambda>s. s\<lparr>cm_requests :=
       map (\<lambda>req. if rq_planeId req = planeId then demote req else req) (cm_requests s)\<rparr>)"

definition post_request :: "'w env \<Rightarrow> nat \<Rightarrow> (('w, 'z) comm_st_scheme, nccl_result) prog" where
  "post_request env k =
     seq (get_request k) (\<lambda>req.
     seq (gets cm_slots) (\<lambda>slots.
     seq (select env slots (rq_seq req)) (\<lambda>selected.
     case selected of
       None \<Rightarrow> ret ncclInvalidUsage
     | Some i \<Rightarrow>
         let slot = slots ! i in
         seq (mr_for_plane (rq_mhandle req) (qs_planeId slot)) (\<lambda>mr.
         if mr = null then ret ncclInvalidArgument
         else
           let wrId = make_wr_id (rq_index req) (ep_generation (qs_active slot)) in
           seq (gets (\<lambda>s. ibv_mr_lkey env mr (world s))) (\<lambda>lkey.
           nccl_check
             (if rq_kind req = ReqSend
              then post_send env (qs_active slot) (rq_data req) (rq_size req) lkey wrId
              else post_recv env (qs_active slot) (rq_data req) (rq_size req) lkey wrId)
             (seq (put_request k (req\<lparr>rq_slotIndex := int i, rq_planeId := qs_planeId slot,
                      rq_generation := ep_generation (qs_active slot), rq_state := ReqPosted\<rparr>))
               (\<lambda>_. ret ncclSuccess)))))))"

section \<open>The receive journal\<close>

definition kJournalCapacity :: nat where
  "kJournalCapacity = 4096"

text \<open>The eviction loop ends because the deque gets shorter.\<close>

fun evict :: "u64 list \<Rightarrow> u64 set \<Rightarrow> u64 list \<times> u64 set" where
  "evict [] journal = ([], journal)"
| "evict (q # qs) journal =
     (if kJournalCapacity < length (q # qs) then evict qs (journal - {q}) else (q # qs, journal))"

definition mark_recv_done :: "u64 \<Rightarrow> (('w, 'z) comm_st_scheme, unit) prog" where
  "mark_recv_done sequence =
     modify (\<lambda>s. let (order, journal) =
                   evict (cm_recvJournalOrder s @ [sequence]) (insert sequence (cm_recvJournal s))
                 in s\<lparr>cm_recvJournal := journal, cm_recvJournalOrder := order\<rparr>)"

definition recv_done :: "u64 \<Rightarrow> ('w, 'z) comm_st_scheme \<Rightarrow> bool" where
  "recv_done sequence s \<longleftrightarrow> sequence \<in> cm_recvJournal s"

section \<open>Retired endpoints\<close>

definition endpoint_in_use :: "request list \<Rightarrow> int \<Rightarrow> qp_endpoint \<Rightarrow> bool" where
  "endpoint_in_use reqs planeId ep \<longleftrightarrow>
     (\<exists>req \<in> set reqs. outstanding req \<and> rq_planeId req = planeId \<and>
        rq_generation req = ep_generation ep)"

text \<open>The result is the position of the first endpoint erased, if any: iterators and references at
  or after it are invalid afterwards, and so is the end iterator.\<close>

definition destroy_retired_if_unused ::
    "'w env \<Rightarrow> nat \<Rightarrow> (('w, 'z) comm_st_scheme, nat option) prog" where
  "destroy_retired_if_unused env i =
     seq (get_slot i) (\<lambda>slot.
     seq (gets cm_requests) (\<lambda>reqs.
     let used = endpoint_in_use reqs (qs_planeId slot) in
     seq (for_all_do (filter (\<lambda>ep. \<not> used ep) (qs_retired slot))
           (\<lambda>ep. seq (destroy_endpoint env ep) (\<lambda>_. ret ()))) (\<lambda>_.
     seq (put_slot i (slot\<lparr>qs_retired := filter used (qs_retired slot)\<rparr>)) (\<lambda>_.
     ret (find_index (\<lambda>ep. \<not> used ep) (qs_retired slot))))))"

section \<open>Events of a plane\<close>

text \<open>The loops over the slots of one plane; \<open>body\<close> is run on each of their indices.\<close>

definition for_slots_of_plane ::
    "int \<Rightarrow> (nat \<Rightarrow> (('w, 'z) comm_st_scheme, unit) prog) \<Rightarrow> (('w, 'z) comm_st_scheme, unit) prog" where
  "for_slots_of_plane planeId body =
     seq (gets (\<lambda>s. length (cm_slots s))) (\<lambda>n.
     for_all_do [0..<n] (\<lambda>i.
       seq (get_slot i) (\<lambda>slot. if qs_planeId slot \<noteq> planeId then ret () else body i)))"

definition on_plane_broken :: "'w env \<Rightarrow> int \<Rightarrow> u32 \<Rightarrow> (('w, 'z) comm_st_scheme, unit) prog" where
  "on_plane_broken env planeId generation =
     for_slots_of_plane planeId (\<lambda>i.
       seq (get_slot i) (\<lambda>slot.
       seq (if ep_qp (qs_shadow slot) \<noteq> null \<and> ep_generation (qs_shadow slot) \<le> generation
            then abort_recovery_at env i else ret ()) (\<lambda>_.
       seq (update_slot i quarantine) (\<lambda>_.
       demote_plane planeId))))"

definition rebuild_unless_current :: "u32 \<Rightarrow> qp_slot \<Rightarrow> qp_slot" where
  "rebuild_unless_current generation slot =
     (if ep_generation (qs_active slot) \<noteq> generation \<or> qs_state slot \<noteq> SlotActive
      then slot\<lparr>qs_state := SlotRebuilding\<rparr> else slot)"

definition on_plane_recovering :: "'w env \<Rightarrow> int \<Rightarrow> u32 \<Rightarrow> (('w, 'z) comm_st_scheme, unit) prog" where
  "on_plane_recovering env planeId generation =
     for_slots_of_plane planeId (\<lambda>i.
       seq (get_slot i) (\<lambda>slot.
       seq (if ep_qp (qs_shadow slot) \<noteq> null \<and> ep_generation (qs_shadow slot) \<noteq> generation
            then abort_recovery_at env i else ret ()) (\<lambda>_.
       update_slot i (rebuild_unless_current generation))))"

definition comm_fail :: "('w, 'z) comm_st_scheme \<Rightarrow> ('w, 'z) comm_st_scheme" where
  "comm_fail s = s\<lparr>cm_failed := True\<rparr>"

definition comm_close :: "'w env \<Rightarrow> (('w, 'z) comm_st_scheme, unit) prog" where
  "comm_close env =
     seq (gets cm_closed) (\<lambda>closed.
     if closed then ret ()
     else
       seq (modify (\<lambda>s. s\<lparr>cm_closed := True, cm_registered := False\<rparr>)) (\<lambda>_.
       seq (peer_close env) (\<lambda>_.
       seq (gets cm_slots) (\<lambda>slots.
       seq (for_all_do slots (\<lambda>slot. seq (mark_dead env slot) (\<lambda>_. ret ()))) (\<lambda>_.
       modify (\<lambda>s. s\<lparr>cm_slots := []\<rparr>))))))"

end
