(* ===== verification/CommControl.thy ===== *)
theory CommControl
  imports CommState
begin

text \<open>
  What a communicator does with control messages (\<open>comm.cc\<close>): announcing and applying plane events,
  the query for a receive that may have completed, and the two sides of a queue pair recovery.
  A call on the shared plane table may be preceded by calls of other threads (\<open>table_op\<close>); the
  recovery probe's wait is bounded by the clock and runs on fuel.
\<close>

definition kHandshakeTimeoutMs :: int where
  "kHandshakeTimeoutMs = 10000"

section \<open>Messages\<close>

definition plane_event_msg :: "int \<Rightarrow> u32 \<Rightarrow> bool \<Rightarrow> wire_msg" where
  "plane_event_msg planeId generation recovered =
     (make_message PlaneEvent)\<lparr>wm_planeId := word_of_int planeId, wm_generation := generation,
        wm_done := if recovered then 1 else 0\<rparr>"

definition send_plane_event ::
    "'w env \<Rightarrow> int \<Rightarrow> u32 \<Rightarrow> bool \<Rightarrow> (('w, 'z) comm_st_scheme, nccl_result) prog" where
  "send_plane_event env planeId generation recovered =
     seq (gets peer_fd) (\<lambda>fd.
     if 0 \<le> fd then send_message env (plane_event_msg planeId generation recovered)
     else ret ncclSuccess)"

text \<open>A message about one plane and generation, with a status.\<close>

definition plane_msg :: "u32 \<Rightarrow> u32 \<Rightarrow> u32 \<Rightarrow> u32 \<Rightarrow> wire_msg" where
  "plane_msg type planeId generation status =
     (make_message type)\<lparr>wm_planeId := planeId, wm_generation := generation, wm_status := status\<rparr>"

definition with_qp :: "wire_qp_info \<Rightarrow> wire_msg \<Rightarrow> wire_msg" where
  "with_qp info msg = msg\<lparr>wm_nQps := 1, wm_qps := (wm_qps msg)[0 := info]\<rparr>"

definition set_failed :: "(('w, 'z) comm_st_scheme, unit) prog" where
  "set_failed = modify comm_fail"

section \<open>A plane found broken by a completion\<close>

definition mark_local_plane_broken_from_cq ::
    "'w env \<Rightarrow> nat \<Rightarrow> (('w, 'z) comm_st_scheme, nccl_result) prog" where
  "mark_local_plane_broken_from_cq env i =
     seq (get_slot i) (\<lambda>slot.
     seq (table_op_at env (\<lambda>now. mark_broken now (qs_planeId slot) (Some ''local-cq-error''))) (\<lambda>snapshot.
     case snapshot of
       None \<Rightarrow> seq set_failed (\<lambda>_. ret ncclInternalError)
     | Some snapshot \<Rightarrow>
         seq (for_slots_of_plane (qs_planeId slot) (\<lambda>j.
           seq (abort_recovery_at env j) (\<lambda>_.
           seq (update_slot j quarantine) (\<lambda>_.
           demote_plane (qs_planeId slot))))) (\<lambda>_.
         seq (send_plane_event env (qs_planeId slot) (ps_generation snapshot) False) (\<lambda>r.
         if r \<noteq> ncclSuccess then seq set_failed (\<lambda>_. ret r) else ret ncclSuccess))))"

section \<open>The recovery probe\<close>

definition record_cqe :: "u64 \<Rightarrow> wc_status \<Rightarrow> qp_slot \<Rightarrow> qp_slot" where
  "record_cqe wrId status slot =
     (if \<not> is_internal_wr_id wrId then slot
      else if internal_wr_generation wrId \<noteq> qs_probeGeneration slot then slot
      else if status \<noteq> IBV_WC_SUCCESS then slot\<lparr>qs_probeFailed := True\<rparr>
      else if internal_wr_kind wrId = RecoverySend then slot\<lparr>qs_probeSendDone := True\<rparr>
      else if internal_wr_kind wrId = RecoveryRecv then slot\<lparr>qs_probeRecvDone := True\<rparr>
      else slot)"

definition record_internal_cqe ::
    "nat \<Rightarrow> work_completion \<Rightarrow> (('w, 'z) comm_st_scheme, unit) prog" where
  "record_internal_cqe i wc = update_slot i (record_cqe (wc_wr_id wc) (wc_status wc))"

definition probe_step ::
    "'w env \<Rightarrow> nat \<Rightarrow> u64 \<Rightarrow> int \<Rightarrow> unit
     \<Rightarrow> (('w, 'z) comm_st_scheme, unit + nccl_result) prog" where
  "probe_step env i kind deadline u =
     seq (call (clock_ms env)) (\<lambda>now.
     if deadline \<le> int now then ret (Inr ncclInvalidUsage)
     else seq (get_slot i) (\<lambda>slot.
       if qs_probeFailed slot then ret (Inr ncclInvalidUsage)
       else if kind = RecoverySend \<and> qs_probeSendDone slot then ret (Inr ncclSuccess)
       else if kind = RecoveryRecv \<and> qs_probeRecvDone slot then ret (Inr ncclSuccess)
       else seq (poll_endpoint env (qs_shadow slot) 4) (\<lambda>polled.
         case polled of
           None \<Rightarrow> ret (Inr ncclSystemError)
         | Some wcs \<Rightarrow>
             seq (for_all_do wcs (\<lambda>wc.
               if is_internal_wr_id (wc_wr_id wc) then record_internal_cqe i wc else ret ())) (\<lambda>_.
             seq (call_void (sleep_ms env 1)) (\<lambda>_. ret (Inl ()))))))"

definition wait_for_internal_probe ::
    "'w env \<Rightarrow> nat \<Rightarrow> u64 \<Rightarrow> u32 \<Rightarrow> int \<Rightarrow> (('w, 'z) comm_st_scheme, nccl_result) prog" where
  "wait_for_internal_probe env i kind generation timeoutMs =
     seq (get_slot i) (\<lambda>slot.
     if ep_qp (qs_shadow slot) = null \<or> qs_probeGeneration slot \<noteq> generation
     then ret ncclInternalError
     else seq (call (clock_ms env)) (\<lambda>now.
       loop (env_fuel env) (probe_step env i kind (int now + timeoutMs)) ()))"

section \<open>Building and committing the shadow endpoint\<close>

text \<open>\<open>createEndpoint(device, generation, &slot->shadow)\<close> writes the shadow also when it fails.\<close>

definition ensure_recovery_shadow ::
    "'w env \<Rightarrow> nat \<Rightarrow> u32 \<Rightarrow> (('w, 'z) comm_st_scheme, nccl_result) prog" where
  "ensure_recovery_shadow env i generation =
     seq (get_slot i) (\<lambda>slot.
     seq (if ep_qp (qs_shadow slot) \<noteq> null \<and> ep_generation (qs_shadow slot) \<noteq> generation
          then seq (destroy_endpoint env (qs_shadow slot))
                 (\<lambda>shadow. put_slot i (slot\<lparr>qs_shadow := shadow\<rparr>))
          else ret ()) (\<lambda>_.
     seq (get_slot i) (\<lambda>slot.
     if ep_qp (qs_shadow slot) \<noteq> null then ret ncclSuccess
     else seq (gets devices) (\<lambda>ds.
       case find_plane_device ds (qs_planeId slot) of
         None \<Rightarrow> ret ncclInternalError
       | Some d \<Rightarrow>
           nccl_check (refresh_plane_device env (Some d))
             (seq (create_endpoint env (Some d) generation) (\<lambda>(r, shadow).
             seq (update_slot i (\<lambda>slot. slot\<lparr>qs_shadow := shadow\<rparr>)) (\<lambda>_.
             if r \<noteq> ncclSuccess then ret r
             else seq (update_slot i (\<lambda>slot. (reset_probe generation slot)\<lparr>qs_state := SlotRebuilding\<rparr>))
                    (\<lambda>_. ret ncclSuccess))))))))"

definition probe_passed :: "u32 \<Rightarrow> qp_slot \<Rightarrow> bool" where
  "probe_passed generation slot \<longleftrightarrow>
     qs_probeGeneration slot = generation \<and> \<not> qs_probeFailed slot \<and>
     (qs_probeSendDone slot \<or> qs_probeRecvDone slot)"

definition swap_shadow :: "qp_slot \<Rightarrow> qp_slot" where
  "swap_shadow slot =
     (clear_probe ((retire_active slot)\<lparr>qs_active := qs_shadow slot, qs_shadow := default_endpoint\<rparr>))
       \<lparr>qs_state := SlotActive\<rparr>"

definition commit_shadow ::
    "'w env \<Rightarrow> int \<Rightarrow> u32 \<Rightarrow> (('w, 'z) comm_st_scheme, nccl_result) prog" where
  "commit_shadow env planeId generation =
     seq (gets (\<lambda>s. find_slot_by_plane (cm_slots s) planeId)) (\<lambda>found.
     case found of
       None \<Rightarrow> ret ncclInternalError
     | Some i \<Rightarrow>
         seq (get_slot i) (\<lambda>slot.
         if ep_qp (qs_shadow slot) = null \<or> \<not> ep_ready (qs_shadow slot) \<or>
            ep_generation (qs_shadow slot) \<noteq> generation
         then ret ncclInternalError
         else if \<not> probe_passed generation slot then ret ncclInternalError
         else seq (put_slot i (swap_shadow slot)) (\<lambda>_.
           seq (destroy_retired_if_unused env i) (\<lambda>_. ret ncclSuccess))))"

section \<open>Queries\<close>

definition repost_recv_for_seq ::
    "'w env \<Rightarrow> u64 \<Rightarrow> (('w, 'z) comm_st_scheme, nccl_result \<times> bool) prog" where
  "repost_recv_for_seq env sequence =
     seq (gets (\<lambda>s. find_index (\<lambda>req. rq_kind req = ReqRecv \<and> rq_seq req = sequence) (cm_requests s))) (\<lambda>found.
     case found of
       None \<Rightarrow> ret (ncclSuccess, False)
     | Some k \<Rightarrow>
         seq (get_request k) (\<lambda>req.
         if rq_state req = ReqDone then ret (ncclSuccess, False)
         else
           seq (put_request k (req\<lparr>rq_state := ReqNeedsReplay\<rparr>)) (\<lambda>_.
           seq (post_request env k) (\<lambda>r.
           ret (if r = ncclInvalidUsage then (ncclSuccess, False)
                else if r \<noteq> ncclSuccess then (r, False)
                else (ncclSuccess, True))))))"

definition handle_query :: "'w env \<Rightarrow> wire_msg \<Rightarrow> (('w, 'z) comm_st_scheme, nccl_result) prog" where
  "handle_query env msg =
     (let resp = (make_message QueryResp)\<lparr>wm_seq := wm_seq msg\<rparr> in
      seq (gets (recv_done (wm_seq msg))) (\<lambda>received.
      if received then send_message env (resp\<lparr>wm_done := 1\<rparr>)
      else seq (repost_recv_for_seq env (wm_seq msg)) (\<lambda>(r, reposted).
        send_message env
          (if r \<noteq> ncclSuccess then resp\<lparr>wm_status := StatusFailed\<rparr>
           else if \<not> reposted then resp\<lparr>wm_status := StatusRetry\<rparr>
           else resp\<lparr>wm_done := 0\<rparr>))))"

section \<open>The receiving side of a recovery\<close>

text \<open>\<open>peer_.sendMessage(resp)\<close> with its result dropped.\<close>

definition send_ignoring :: "'w env \<Rightarrow> wire_msg \<Rightarrow> (('w, 'z) comm_st_scheme, unit) prog" where
  "send_ignoring env msg = seq (send_message env msg) (\<lambda>_. ret ())"

definition recovery_request_ok :: "wire_msg \<Rightarrow> bool" where
  "recovery_request_ok msg \<longleftrightarrow>
     wm_nQps msg = 1 \<and> valid_qp_info (wm_qps msg ! 0) \<and>
     wq_planeId (wm_qps msg ! 0) = wm_planeId msg \<and>
     wq_generation (wm_qps msg ! 0) = wm_generation msg"

definition handle_recovery_req ::
    "'w env \<Rightarrow> wire_msg \<Rightarrow> (('w, 'z) comm_st_scheme, nccl_result) prog" where
  "handle_recovery_req env msg =
     (let planeId = sint (wm_planeId msg); generation = wm_generation msg;
          resp = plane_msg RecoveryResp (wm_planeId msg) generation in
      seq (gets (\<lambda>s. find_slot_by_plane (cm_slots s) planeId)) (\<lambda>found.
      case found of
        None \<Rightarrow> ret ncclRemoteError
      | Some i \<Rightarrow>
          if \<not> recovery_request_ok msg then ret ncclRemoteError
          else seq (table_op_at env (\<lambda>now t.
                 case apply_remote_event now planeId Recovering generation (Some ''recovery-req'') t of
                   (snapshot, applied, t') \<Rightarrow> (snapshot, t'))) (\<lambda>snapshot.
          case snapshot of
            None \<Rightarrow> ret ncclRemoteError
          | Some plane \<Rightarrow>
              if ps_generation plane \<noteq> generation \<or> \<not> plane_allows_qp_recovery plane
              then seq (send_ignoring env (resp StatusRetry)) (\<lambda>_. ret ncclSuccess)
              else
                seq (get_slot i) (\<lambda>slot.
                seq (if ep_qp (qs_shadow slot) \<noteq> null then abort_recovery_at env i else ret ()) (\<lambda>_.
                seq (ensure_recovery_shadow env i generation) (\<lambda>r.
                if r \<noteq> ncclSuccess
                then seq (send_ignoring env
                            (resp (if r = ncclInvalidUsage then StatusRetry else StatusFailed)))
                       (\<lambda>_. ret (if r = ncclInvalidUsage then ncclSuccess else r))
                else
                  seq (get_slot i) (\<lambda>slot.
                  seq (endpoint_to_rtr_rts env (qs_shadow slot) (wm_qps msg ! 0)) (\<lambda>(r, shadow).
                  seq (update_slot i (\<lambda>slot. slot\<lparr>qs_shadow := shadow\<rparr>)) (\<lambda>_.
                  if r \<noteq> ncclSuccess
                  then seq (send_ignoring env (resp StatusFailed)) (\<lambda>_.
                       seq (abort_recovery_at env i) (\<lambda>_. ret r))
                  else
                    seq (update_slot i (\<lambda>slot. (reset_probe generation slot)\<lparr>qs_state := SlotReadyPending\<rparr>)) (\<lambda>_.
                    seq (post_empty_recv env shadow (make_internal_wr_id RecoveryRecv generation)) (\<lambda>r.
                    if r \<noteq> ncclSuccess
                    then seq (send_ignoring env (resp StatusFailed)) (\<lambda>_.
                         seq (abort_recovery_at env i) (\<lambda>_. ret r))
                    else
                      seq (endpoint_info env shadow) (\<lambda>info.
                      send_message env (with_qp info (resp StatusOk))))))))))))))"

definition handle_recovery_resp :: "wire_msg \<Rightarrow> (('w, 'z) comm_st_scheme, nccl_result) prog" where
  "handle_recovery_resp msg = ret ncclSuccess"

definition recovery_ready_ok :: "u32 \<Rightarrow> qp_slot \<Rightarrow> plane_snapshot option \<Rightarrow> bool" where
  "recovery_ready_ok generation slot plane \<longleftrightarrow>
     (case plane of
        None \<Rightarrow> False
      | Some plane \<Rightarrow>
          plane_allows_qp_recovery plane \<and> ps_generation plane = generation \<and>
          ep_generation (qs_shadow slot) = generation)"

definition mark_healthy_after_recovery ::
    "'w env \<Rightarrow> int \<Rightarrow> u32 \<Rightarrow> (('w, 'z) comm_st_scheme, bool) prog" where
  "mark_healthy_after_recovery env planeId generation =
     table_op_at env (\<lambda>now t.
       case mark_healthy_if_generation now planeId generation (Some ''qp-recovery'') t of
         (ok, out, t') \<Rightarrow> (ok, t'))"

definition handle_recovery_ready ::
    "'w env \<Rightarrow> wire_msg \<Rightarrow> (('w, 'z) comm_st_scheme, nccl_result) prog" where
  "handle_recovery_ready env msg =
     (let generation = wm_generation msg; ack = plane_msg RecoveryAck (wm_planeId msg) generation in
      seq (gets (\<lambda>s. find_slot_by_plane (cm_slots s) (sint (wm_planeId msg)))) (\<lambda>found.
      case found of
        None \<Rightarrow> seq (send_ignoring env (ack StatusFailed)) (\<lambda>_. ret ncclRemoteError)
      | Some i \<Rightarrow>
          seq (get_slot i) (\<lambda>slot.
          seq (table_get env (qs_planeId slot)) (\<lambda>plane.
          if \<not> recovery_ready_ok generation slot plane
          then seq (send_ignoring env (ack StatusRetry)) (\<lambda>_. ret ncclSuccess)
          else seq (wait_for_internal_probe env i RecoveryRecv generation kHandshakeTimeoutMs) (\<lambda>r.
          if r \<noteq> ncclSuccess
          then seq (send_ignoring env (ack StatusRetry)) (\<lambda>_.
               seq (abort_recovery_at env i) (\<lambda>_. ret ncclSuccess))
          else seq (commit_shadow env (qs_planeId slot) generation) (\<lambda>r.
          if r \<noteq> ncclSuccess
          then seq (send_ignoring env (ack StatusFailed)) (\<lambda>_. ret r)
          else seq (mark_healthy_after_recovery env (qs_planeId slot) generation) (\<lambda>ok.
          if \<not> ok
          then seq (send_ignoring env (ack StatusRetry)) (\<lambda>_.
               seq (update_slot i quarantine) (\<lambda>_. ret ncclSuccess))
          else send_message env (ack StatusOk))))))))"

section \<open>Dispatch\<close>

definition handle_plane_event ::
    "'w env \<Rightarrow> wire_msg \<Rightarrow> (('w, 'z) comm_st_scheme, nccl_result) prog" where
  "handle_plane_event env msg =
     (let planeId = sint (wm_planeId msg); recovered = (wm_done msg \<noteq> 0);
          health = (if recovered then Recovering else Broken) in
      seq (table_op_at env (\<lambda>now t.
             case apply_remote_event now planeId health (wm_generation msg) (Some ''peer-control'') t of
               (snapshot, applied, t') \<Rightarrow> ((snapshot, applied), t'))) (\<lambda>(snapshot, applied).
      case snapshot of
        None \<Rightarrow> ret ncclSuccess
      | Some snapshot \<Rightarrow>
          if \<not> applied then ret ncclSuccess
          else if recovered then
            seq (for_slots_of_plane planeId (\<lambda>i.
              seq (get_slot i) (\<lambda>slot.
              seq (if ep_qp (qs_shadow slot) \<noteq> null \<and>
                      ep_generation (qs_shadow slot) \<noteq> ps_generation snapshot
                   then abort_recovery_at env i else ret ()) (\<lambda>_.
              update_slot i (rebuild_unless_current (ps_generation snapshot))))))
            (\<lambda>_. ret ncclSuccess)
          else
            seq (for_slots_of_plane planeId (\<lambda>i.
              seq (abort_recovery_at env i) (\<lambda>_.
              seq (update_slot i quarantine) (\<lambda>_.
              demote_plane planeId))))
            (\<lambda>_. ret ncclSuccess)))"

definition handle_control ::
    "'w env \<Rightarrow> wire_msg \<Rightarrow> (('w, 'z) comm_st_scheme, nccl_result) prog" where
  "handle_control env msg =
     (if wm_type msg = PlaneEvent then handle_plane_event env msg
      else if wm_type msg = Query then handle_query env msg
      else if wm_type msg = RecoveryReq then handle_recovery_req env msg
      else if wm_type msg = RecoveryReady then handle_recovery_ready env msg
      else if wm_type msg = RecoveryAck then ret ncclSuccess
      else if wm_type msg = WireError then seq set_failed (\<lambda>_. ret ncclRemoteError)
      else ret ncclSuccess)"

section \<open>Asking the peer whether a message arrived\<close>

text \<open>The result, and the \<open>done\<close> and \<open>retry\<close> flags; the loop makes at most 50 rounds.\<close>

fun query_rounds ::
    "'w env \<Rightarrow> u64 \<Rightarrow> nat \<Rightarrow> (('w, 'z) comm_st_scheme, nccl_result \<times> bool \<times> bool) prog" where
  "query_rounds env sequence 0 = ret (ncclSuccess, False, True)"
| "query_rounds env sequence (Suc n) =
     seq (recv_message env 100) (\<lambda>(r, got).
     if r = ncclInternalError then ret (ncclSuccess, False, True)
     else case got of
       None \<Rightarrow> ret (r, False, False)
     | Some resp \<Rightarrow>
         if wm_type resp = QueryResp \<and> wm_seq resp = sequence then
           (if wm_status resp = StatusRetry then ret (ncclSuccess, wm_done resp \<noteq> 0, True)
            else if wm_status resp = StatusFailed then ret (ncclRemoteError, False, False)
            else ret (ncclSuccess, wm_done resp \<noteq> 0, False))
         else
           seq (handle_control env resp) (\<lambda>r.
           if r \<noteq> ncclSuccess then ret (r, False, False) else query_rounds env sequence n))"

definition query_remote ::
    "'w env \<Rightarrow> u64 \<Rightarrow> (('w, 'z) comm_st_scheme, nccl_result \<times> bool \<times> bool) prog" where
  "query_remote env sequence =
     seq (send_message env ((make_message Query)\<lparr>wm_seq := sequence\<rparr>)) (\<lambda>r.
     if r \<noteq> ncclSuccess then ret (r, False, False) else query_rounds env sequence 50)"

end
