(* ===== verification/CommProgress.thy ===== *)
theory CommProgress
  imports CommControl
begin

text \<open>
  The engine of a communicator: polling completions, draining control messages, replaying, driving
  the sender's side of a recovery (\<open>comm.cc\<close>, \<open>replay_engine.{h,cc}\<close>), and the four operations the
  transport calls: \<open>isend\<close>, \<open>irecv\<close>, \<open>iflush\<close> and \<open>test\<close>.

  \<open>progressCqs\<close> iterates over \<open>slot.retired\<close> while completions may erase from that vector.  The
  model keeps what the iteration holds: whether the reference to the endpoint being polled, and the
  end iterator, are still valid.  Using either afterwards is undefined behaviour, as in the source.
\<close>

section \<open>Completions\<close>

datatype polled_role = RoleActive | RoleShadow | RoleRetired nat

text \<open>The reference \<open>pollOne\<close> is called with.\<close>

definition endpoint_at :: "nat \<Rightarrow> polled_role \<Rightarrow> (('w, 'z) comm_st_scheme, qp_endpoint) prog" where
  "endpoint_at i role =
     seq (get_slot i) (\<lambda>slot.
     case role of
       RoleActive \<Rightarrow> ret (qs_active slot)
     | RoleShadow \<Rightarrow> ret (qs_shadow slot)
     | RoleRetired k \<Rightarrow>
         if k < length (qs_retired slot) then ret (qs_retired slot ! k) else crash Undefined_behaviour)"

definition current_active_qp :: "polled_role \<Rightarrow> qp_slot \<Rightarrow> request \<Rightarrow> bool" where
  "current_active_qp role slot req \<longleftrightarrow>
     role = RoleActive \<and> qs_state slot = SlotActive \<and>
     rq_planeId req = qs_planeId slot \<and> rq_generation req = ep_generation (qs_active slot)"

text \<open>One work completion: the code that leaves \<open>pollOne\<close> when it is not success, and the first
  position erased from \<open>slot.retired\<close>.\<close>

definition handle_completion ::
    "'w env \<Rightarrow> nat \<Rightarrow> polled_role \<Rightarrow> work_completion
     \<Rightarrow> (('w, 'z) comm_st_scheme, nccl_result \<times> nat option) prog" where
  "handle_completion env i role wc =
     (if is_internal_wr_id (wc_wr_id wc)
      then seq (record_internal_cqe i wc) (\<lambda>_. ret (ncclSuccess, None))
      else
        let idx = wr_request_index (wc_wr_id wc); gen = wr_generation (wc_wr_id wc) in
        if idx < 0 \<or> int NCCL_NET_MAX_REQUESTS \<le> idx then ret (ncclSuccess, None)
        else seq (get_request (nat idx)) (\<lambda>req.
          if rq_generation req \<noteq> gen then ret (ncclSuccess, None)
          else seq (get_slot i) (\<lambda>slot.
            case classify_cq_status (wc_status wc) (current_active_qp role slot req) of
              CqSuccess \<Rightarrow>
                seq (put_request (nat idx)
                      (req\<lparr>rq_completedSize := sint (wc_byte_len wc), rq_state := ReqDone\<rparr>)) (\<lambda>_.
                seq (if rq_kind req = ReqRecv then mark_recv_done (rq_seq req) else ret ()) (\<lambda>_.
                seq (destroy_retired_if_unused env i) (\<lambda>erased. ret (ncclSuccess, erased))))
            | StaleNonFatal \<Rightarrow>
                seq (put_request (nat idx) (demote req)) (\<lambda>_.
                seq (destroy_retired_if_unused env i) (\<lambda>erased. ret (ncclSuccess, erased)))
            | TransportRecoverable \<Rightarrow>
                seq (mark_local_plane_broken_from_cq env i) (\<lambda>r.
                if r \<noteq> ncclSuccess then ret (r, None)
                else seq (update_request (nat idx) demote) (\<lambda>_. ret (ncclSuccess, None)))
            | RequestFatal \<Rightarrow>
                seq (put_request (nat idx) (req\<lparr>rq_state := ReqFailed\<rparr>)) (\<lambda>_.
                seq set_failed (\<lambda>_. ret (ncclSystemError, None))))))"

text \<open>The two validity flags: is the polled reference dangling, is the end iterator invalid.\<close>

definition note_erased :: "polled_role \<Rightarrow> nat option \<Rightarrow> bool \<times> bool \<Rightarrow> bool \<times> bool" where
  "note_erased role erased = (\<lambda>(dangling, endInvalid).
     case erased of
       None \<Rightarrow> (dangling, endInvalid)
     | Some j \<Rightarrow> (dangling \<or> (case role of RoleRetired k \<Rightarrow> j \<le> k | _ \<Rightarrow> False), True))"

fun handle_completions ::
    "'w env \<Rightarrow> nat \<Rightarrow> polled_role \<Rightarrow> work_completion list \<Rightarrow> bool \<times> bool
     \<Rightarrow> (('w, 'z) comm_st_scheme, nccl_result \<times> bool \<times> bool) prog" where
  "handle_completions env i role [] flags = ret (ncclSuccess, flags)"
| "handle_completions env i role (wc # wcs) flags =
     seq (handle_completion env i role wc) (\<lambda>(r, erased).
     if r \<noteq> ncclSuccess then ret (r, note_erased role erased flags)
     else handle_completions env i role wcs (note_erased role erased flags))"

text \<open>The result of \<open>pollOne\<close> and whether the end iterator of \<open>slot.retired\<close> is invalid now.\<close>

definition poll_round ::
    "'w env \<Rightarrow> nat \<Rightarrow> polled_role \<Rightarrow> bool \<times> bool
     \<Rightarrow> (('w, 'z) comm_st_scheme, (bool \<times> bool) + nccl_result \<times> bool) prog" where
  "poll_round env i role flags =
     (if fst flags then crash Undefined_behaviour
      else seq (endpoint_at i role) (\<lambda>endpoint.
        seq (poll_endpoint env endpoint 8) (\<lambda>polled.
        case polled of
          None \<Rightarrow> seq set_failed (\<lambda>_. ret (Inr (ncclSystemError, snd flags)))
        | Some wcs \<Rightarrow>
            if wcs = [] then ret (Inr (ncclSuccess, snd flags))
            else seq (handle_completions env i role wcs flags) (\<lambda>(r, flags').
              if r \<noteq> ncclSuccess then ret (Inr (r, snd flags')) else ret (Inl flags')))))"

definition poll_one ::
    "'w env \<Rightarrow> nat \<Rightarrow> polled_role \<Rightarrow> (('w, 'z) comm_st_scheme, nccl_result \<times> bool) prog" where
  "poll_one env i role = loop (env_fuel env) (poll_round env i role) (False, False)"

definition poll_checked ::
    "'w env \<Rightarrow> nat \<Rightarrow> polled_role \<Rightarrow> (('w, 'z) comm_st_scheme, nccl_result) prog" where
  "poll_checked env i role =
     seq (poll_one env i role) (\<lambda>(r, endInvalid).
     if r \<noteq> ncclSuccess then ret r
     else case role of
            RoleRetired k \<Rightarrow> if endInvalid then crash Undefined_behaviour else ret ncclSuccess
          | _ \<Rightarrow> ret ncclSuccess)"

definition progress_cqs :: "'w env \<Rightarrow> (('w, 'z) comm_st_scheme, nccl_result) prog" where
  "progress_cqs env =
     seq (gets (\<lambda>s. length (cm_slots s))) (\<lambda>n.
     for_each [0..<n] (\<lambda>i.
       nccl_check (poll_checked env i RoleActive)
       (nccl_check (poll_checked env i RoleShadow)
       (seq (get_slot i) (\<lambda>slot.
        for_each [0..<length (qs_retired slot)] (\<lambda>k. poll_checked env i (RoleRetired k)))))))"

section \<open>Control messages\<close>

definition kControlProgressBudget :: nat where
  "kControlProgressBudget = 8"

fun control_rounds :: "'w env \<Rightarrow> nat \<Rightarrow> (('w, 'z) comm_st_scheme, nccl_result) prog" where
  "control_rounds env 0 = ret ncclSuccess"
| "control_rounds env (Suc n) =
     seq (progress_recv env) (\<lambda>(r, got).
     if r \<noteq> ncclSuccess then ret r
     else case got of
            None \<Rightarrow> ret ncclSuccess
          | Some msg \<Rightarrow> nccl_check (handle_control env msg) (control_rounds env n))"

definition progress_control :: "'w env \<Rightarrow> (('w, 'z) comm_st_scheme, nccl_result) prog" where
  "progress_control env =
     seq (gets peer_fd) (\<lambda>fd.
     if fd < 0 then ret ncclRemoteError else control_rounds env kControlProgressBudget)"

section \<open>Replay\<close>

definition replay_query ::
    "'w env \<Rightarrow> nat \<Rightarrow> (('w, 'z) comm_st_scheme, nccl_result \<times> bool) prog" where
  "replay_query env k =
     seq (get_request k) (\<lambda>req.
     seq (query_remote env (rq_seq req)) (\<lambda>(r, remoteDone, retry).
     if r \<noteq> ncclSuccess then ret (r, True)
     else if remoteDone
     then seq (update_request k (\<lambda>req. req\<lparr>rq_state := ReqDone,
             rq_completedSize := sint (ucast (rq_size req) :: u32)\<rparr>)) (\<lambda>_. ret (ncclSuccess, True))
     else seq (if \<not> retry then update_request k (\<lambda>req. req\<lparr>rq_state := ReqNeedsReplay\<rparr>) else ret ())
            (\<lambda>_. ret (ncclSuccess, False))))"

definition replay_post :: "'w env \<Rightarrow> nat \<Rightarrow> (('w, 'z) comm_st_scheme, nccl_result) prog" where
  "replay_post env k =
     seq (post_request env k) (\<lambda>r.
     if r = ncclInvalidUsage then ret ncclSuccess
     else if r \<noteq> ncclSuccess then ret r
     else seq (update_request k (\<lambda>req. req\<lparr>rq_replayed := True\<rparr>)) (\<lambda>_. ret ncclSuccess))"

definition replay_progress :: "'w env \<Rightarrow> nat \<Rightarrow> (('w, 'z) comm_st_scheme, nccl_result) prog" where
  "replay_progress env k =
     seq (get_request k) (\<lambda>req.
     if rq_state req = ReqFree \<or> rq_state req = ReqDone \<or> rq_state req = ReqFailed then ret ncclSuccess
     else
       seq (if rq_kind req = ReqSend \<and> rq_state req = ReqNeedsQuery then replay_query env k
            else ret (ncclSuccess, False)) (\<lambda>(r, leave).
       if leave then ret r
       else seq (get_request k) (\<lambda>req.
         if rq_kind req = ReqSend \<and> rq_state req = ReqNeedsReplay then replay_post env k
         else ret ncclSuccess)))"

section \<open>The sending side of a recovery\<close>

text \<open>\<open>for (;;)\<close> until a message of the awaited type, plane and generation; others are handled.\<close>

definition await_step ::
    "'w env \<Rightarrow> u32 \<Rightarrow> u32 \<Rightarrow> u32 \<Rightarrow> unit
     \<Rightarrow> (('w, 'z) comm_st_scheme, unit + nccl_result \<times> wire_msg) prog" where
  "await_step env type planeId generation u =
     seq (recv_message env kHandshakeTimeoutMs) (\<lambda>(r, got).
     case got of
       None \<Rightarrow> ret (Inr (r, default_msg))
     | Some resp \<Rightarrow>
         if r \<noteq> ncclSuccess then ret (Inr (r, default_msg))
         else if wm_type resp = type \<and> wm_planeId resp = planeId \<and> wm_generation resp = generation
         then ret (Inr (ncclSuccess, resp))
         else seq (handle_control env resp) (\<lambda>r.
           if r \<noteq> ncclSuccess then ret (Inr (r, default_msg)) else ret (Inl ())))"

definition await_msg ::
    "'w env \<Rightarrow> u32 \<Rightarrow> u32 \<Rightarrow> u32 \<Rightarrow> (('w, 'z) comm_st_scheme, nccl_result \<times> wire_msg) prog" where
  "await_msg env type planeId generation =
     loop (env_fuel env) (await_step env type planeId generation) ()"

definition recovery_response_ok :: "u32 \<Rightarrow> u32 \<Rightarrow> wire_msg \<Rightarrow> bool" where
  "recovery_response_ok planeId generation resp \<longleftrightarrow>
     wm_status resp = StatusOk \<and> wm_nQps resp = 1 \<and> valid_qp_info (wm_qps resp ! 0) \<and>
     wq_planeId (wm_qps resp ! 0) = planeId \<and> wq_generation (wm_qps resp ! 0) = generation"

text \<open>The rest of the iteration after the peer acknowledged: commit if the plane is still at the
  generation of the recovery.\<close>

definition recovery_commit ::
    "'w env \<Rightarrow> nat \<Rightarrow> int \<Rightarrow> u32 \<Rightarrow> (('w, 'z) comm_st_scheme, nccl_result) prog" where
  "recovery_commit env i planeId generation =
     seq (table_get env planeId) (\<lambda>current.
     if (case current of None \<Rightarrow> True
         | Some p \<Rightarrow> \<not> plane_allows_qp_recovery p \<or> ps_generation p \<noteq> generation)
     then seq (abort_recovery_at env i) (\<lambda>_. ret ncclSuccess)
     else
       nccl_check (commit_shadow env planeId generation)
       (seq (mark_healthy_after_recovery env planeId generation) (\<lambda>ok.
        seq (if \<not> ok then update_slot i quarantine else ret ()) (\<lambda>_. ret ncclSuccess))))"

text \<open>The iteration from the peer's answer on.\<close>

definition recovery_connect ::
    "'w env \<Rightarrow> nat \<Rightarrow> int \<Rightarrow> u32 \<Rightarrow> wire_msg \<Rightarrow> (('w, 'z) comm_st_scheme, nccl_result) prog" where
  "recovery_connect env i planeId generation resp =
     seq (get_slot i) (\<lambda>slot.
     seq (endpoint_to_rtr_rts env (qs_shadow slot) (wm_qps resp ! 0)) (\<lambda>(r, shadow).
     seq (update_slot i (\<lambda>slot. slot\<lparr>qs_shadow := shadow\<rparr>)) (\<lambda>_.
     if r \<noteq> ncclSuccess then ret r
     else
       seq (update_slot i (\<lambda>slot. (reset_probe generation slot)\<lparr>qs_state := SlotReadyPending\<rparr>)) (\<lambda>_.
       nccl_check (post_empty_send env shadow (make_internal_wr_id RecoverySend generation))
       (seq (wait_for_internal_probe env i RecoverySend generation kHandshakeTimeoutMs) (\<lambda>r.
        if r \<noteq> ncclSuccess then seq (abort_recovery_at env i) (\<lambda>_. ret ncclSuccess)
        else
          nccl_check (send_message env (plane_msg RecoveryReady (word_of_int planeId) generation StatusOk))
          (seq (await_msg env RecoveryAck (word_of_int planeId) generation) (\<lambda>(r, ack).
           if r \<noteq> ncclSuccess then ret r
           else if wm_status ack \<noteq> StatusOk then seq (abort_recovery_at env i) (\<lambda>_. ret ncclSuccess)
           else recovery_commit env i planeId generation))))))))"

definition recover_slot :: "'w env \<Rightarrow> nat \<Rightarrow> (('w, 'z) comm_st_scheme, nccl_result) prog" where
  "recover_slot env i =
     seq (get_slot i) (\<lambda>slot.
     let planeId = qs_planeId slot in
     seq (table_get env planeId) (\<lambda>plane.
     case plane of
       None \<Rightarrow> ret ncclSuccess
     | Some plane \<Rightarrow>
         let generation = ps_generation plane in
         if \<not> plane_allows_qp_recovery plane \<or> slot_at_generation slot generation then ret ncclSuccess
         else seq (ensure_recovery_shadow env i generation) (\<lambda>r.
           if r = ncclInvalidUsage then ret ncclSuccess
           else if r \<noteq> ncclSuccess then ret r
           else seq (get_slot i) (\<lambda>slot.
             seq (endpoint_info env (qs_shadow slot)) (\<lambda>info.
             nccl_check (send_message env
                 (with_qp info (plane_msg RecoveryReq (word_of_int planeId) generation StatusOk)))
             (seq (await_msg env RecoveryResp (word_of_int planeId) generation) (\<lambda>(r, resp).
              if r \<noteq> ncclSuccess then ret r
              else if wm_status resp = StatusRetry
              then seq (abort_recovery_at env i) (\<lambda>_. ret ncclSuccess)
              else if \<not> recovery_response_ok (word_of_int planeId) generation resp
              then ret ncclRemoteError
              else recovery_connect env i planeId generation resp)))))))"

definition progress_recovery :: "'w env \<Rightarrow> (('w, 'z) comm_st_scheme, nccl_result) prog" where
  "progress_recovery env =
     seq (gets (\<lambda>s. (cm_sendSide s, length (cm_slots s)))) (\<lambda>(sendSide, n).
     if \<not> sendSide then ret ncclSuccess
     else for_each [0..<n] (recover_slot env))"

section \<open>The operations of the transport\<close>

definition comm_progress :: "'w env \<Rightarrow> (('w, 'z) comm_st_scheme, nccl_result) prog" where
  "comm_progress env =
     seq (gets cm_failed) (\<lambda>failed.
     if failed then ret ncclSystemError
     else nccl_check (progress_control env)
          (nccl_check (progress_cqs env)
          (nccl_check (seq (gets (\<lambda>s. length (cm_requests s)))
                         (\<lambda>n. for_each [0..<n] (replay_progress env)))
          (progress_recovery env))))"

text \<open>The part \<open>isend\<close> and \<open>irecv\<close> share once the arguments are checked: the result and the request.\<close>

definition submit ::
    "'w env \<Rightarrow> request_kind \<Rightarrow> u64 \<Rightarrow> u64 \<Rightarrow> int \<Rightarrow> ptr
     \<Rightarrow> (('w, 'z) comm_st_scheme, nccl_result \<times> nat option) prog" where
  "submit env kind data sz tag mhandle =
     seq (comm_progress env) (\<lambda>r.
     if r \<noteq> ncclSuccess then ret (r, None)
     else seq (gets (\<lambda>s. (cm_failed s, has_outstanding s))) (\<lambda>(failed, busy).
       if failed then ret (ncclSystemError, None)
       else if busy then ret (ncclSuccess, None)
       else seq alloc_request (\<lambda>found.
         case found of
           None \<Rightarrow> ret (ncclSuccess, None)
         | Some k \<Rightarrow>
             seq (gets cm_nextSeq) (\<lambda>sequence.
             seq (modify (\<lambda>s. s\<lparr>cm_nextSeq := sequence + 1\<rparr>)) (\<lambda>_.
             seq (update_request k (\<lambda>req. req\<lparr>rq_kind := kind, rq_seq := sequence, rq_data := data,
                    rq_size := sz, rq_tag := tag, rq_mhandle := mhandle\<rparr>)) (\<lambda>_.
             seq (post_request env k) (\<lambda>r.
             if r = ncclInvalidUsage
             then seq (update_request k (\<lambda>req. req\<lparr>rq_state := ReqFree\<rparr>)) (\<lambda>_. ret (ncclSuccess, None))
             else if r \<noteq> ncclSuccess
             then seq (update_request k (\<lambda>req. req\<lparr>rq_state := ReqFailed\<rparr>)) (\<lambda>_. ret (r, None))
             else ret (ncclSuccess, Some k))))))))"

definition comm_isend ::
    "'w env \<Rightarrow> u64 \<Rightarrow> u64 \<Rightarrow> int \<Rightarrow> ptr
     \<Rightarrow> (('w, 'z) comm_st_scheme, nccl_result \<times> nat option) prog" where
  "comm_isend env data sz tag mhandle =
     (if sz > kMaxPluginBytes then ret (ncclInvalidArgument, None)
      else submit env ReqSend data sz tag mhandle)"

text \<open>The arrays hold one buffer each when \<open>n\<close> is 1; \<open>tags\<close> may be null.\<close>

definition comm_irecv ::
    "'w env \<Rightarrow> int \<Rightarrow> u64 \<Rightarrow> u64 \<Rightarrow> int option \<Rightarrow> ptr
     \<Rightarrow> (('w, 'z) comm_st_scheme, nccl_result \<times> nat option) prog" where
  "comm_irecv env n data sz tag mhandle =
     (if n \<noteq> 1 \<or> sz > kMaxPluginBytes then ret (ncclInvalidUsage, None)
      else submit env ReqRecv data sz (case tag of None \<Rightarrow> 0 | Some t \<Rightarrow> t) mhandle)"

definition comm_iflush ::
    "int \<Rightarrow> int option \<Rightarrow> (('w, 'z) comm_st_scheme, nccl_result \<times> nat option) prog" where
  "comm_iflush n sz =
     seq alloc_request (\<lambda>found.
     case found of
       None \<Rightarrow> ret (ncclSuccess, None)
     | Some k \<Rightarrow>
         seq (update_request k (\<lambda>req. req\<lparr>rq_kind := ReqFlush, rq_state := ReqDone,
                rq_completedSize := (case sz of None \<Rightarrow> 0 | Some z \<Rightarrow> if 0 < n then z else 0)\<rparr>))
           (\<lambda>_. ret (ncclSuccess, Some k)))"

text \<open>The result and, when the request is complete, its size; a null request is \<^term>\<open>None\<close>.\<close>

definition comm_test ::
    "'w env \<Rightarrow> nat option \<Rightarrow> (('w, 'z) comm_st_scheme, nccl_result \<times> int option) prog" where
  "comm_test env request =
     seq (comm_progress env) (\<lambda>r.
     if r \<noteq> ncclSuccess then ret (r, None)
     else case request of
            None \<Rightarrow> ret (ncclInvalidArgument, None)
          | Some k \<Rightarrow>
              seq (get_request k) (\<lambda>req.
              if rq_state req = ReqFailed then ret (ncclSystemError, None)
              else if rq_state req = ReqDone
              then seq (put_request k (req\<lparr>rq_state := ReqFree\<rparr>))
                     (\<lambda>_. ret (ncclSuccess, Some (rq_completedSize req)))
              else ret (ncclSuccess, None)))"

end
