(* ===== verification/CommSetup.thy ===== *)
theory CommSetup
  imports CommProgress
begin

text \<open>
  Bringing a communicator up (\<open>comm.cc\<close>): the TCP connection, one slot per opened device, the
  exchange of queue pair descriptions and the transition of the active endpoints.
\<close>

definition tcp_connect :: "'w env \<Rightarrow> net_handle \<Rightarrow> (('w, 'z) machine_scheme, int) prog" where
  "tcp_connect env handle =
     seq (call (sys_socket env TcpSocket)) (\<lambda>fd.
     if fd < 0 then ret (-1)
     else seq (call (sys_connect env fd (nh_ipv4 handle) (nh_port handle))) (\<lambda>connected.
       if \<not> connected then seq (call_void (sys_close env fd)) (\<lambda>_. ret (-1)) else ret fd))"

text \<open>The loop over the devices from index \<open>index\<close> on.\<close>

fun create_slots ::
    "'w env \<Rightarrow> nat \<Rightarrow> plane_device list \<Rightarrow> (('w, 'z) comm_st_scheme, nccl_result) prog" where
  "create_slots env index [] = ret ncclSuccess"
| "create_slots env index (device # rest) =
     seq (table_op env (\<lambda>t. (plane_generation_of (pd_planeId device) t, t))) (\<lambda>generation.
     seq (create_endpoint env (Some index) generation) (\<lambda>(r, active).
     if r \<noteq> ncclSuccess then ret r
     else seq (modify (\<lambda>s. s\<lparr>cm_slots := cm_slots s @
            [default_slot\<lparr>qs_planeId := pd_planeId device, qs_planeIndex := int index,
               qs_state := SlotRebuilding, qs_active := active\<rparr>]\<rparr>))
          (\<lambda>_. create_slots env (Suc index) rest)))"

definition create_initial_slots :: "'w env \<Rightarrow> (('w, 'z) comm_st_scheme, nccl_result) prog" where
  "create_initial_slots env =
     seq (modify (\<lambda>s. s\<lparr>cm_slots := []\<rparr>)) (\<lambda>_.
     seq (gets devices) (\<lambda>ds.
     nccl_check (create_slots env 0 ds)
     (seq (gets cm_slots) (\<lambda>slots. ret (if slots = [] then ncclSystemError else ncclSuccess)))))"

fun export_infos ::
    "'w env \<Rightarrow> qp_slot list \<Rightarrow> (('w, 'z) comm_st_scheme, wire_qp_info list) prog" where
  "export_infos env [] = ret []"
| "export_infos env (slot # slots) =
     seq (endpoint_info env (qs_active slot)) (\<lambda>info.
     seq (export_infos env slots) (\<lambda>infos. ret (info # infos)))"

definition export_qps ::
    "'w env \<Rightarrow> u32 \<Rightarrow> (('w, 'z) comm_st_scheme, nccl_result \<times> wire_msg) prog" where
  "export_qps env type =
     seq (gets cm_slots) (\<lambda>slots.
     let msg = (make_message type)\<lparr>wm_nQps := of_nat (length slots)\<rparr> in
     if wm_nQps msg > of_nat kMaxPlanes then ret (ncclInvalidUsage, msg)
     else seq (export_infos env slots) (\<lambda>infos.
       ret (ncclSuccess, msg\<lparr>wm_qps := infos @ drop (length infos) (wm_qps msg)\<rparr>)))"

fun import_infos ::
    "'w env \<Rightarrow> wire_qp_info list \<Rightarrow> (('w, 'z) comm_st_scheme, nccl_result) prog" where
  "import_infos env [] = ret ncclSuccess"
| "import_infos env (info # infos) =
     seq (gets (\<lambda>s. find_slot_by_plane (cm_slots s) (sint (wq_planeId info)))) (\<lambda>found.
     case found of
       None \<Rightarrow> ret ncclRemoteError
     | Some i \<Rightarrow>
         seq (get_slot i) (\<lambda>slot.
         if ep_generation (qs_active slot) \<noteq> wq_generation info then ret ncclRemoteError
         else seq (endpoint_to_rtr_rts env (qs_active slot) info) (\<lambda>(r, active).
           seq (update_slot i (\<lambda>slot. slot\<lparr>qs_active := active\<rparr>)) (\<lambda>_.
           if r \<noteq> ncclSuccess then ret r
           else seq (update_slot i (\<lambda>slot. slot\<lparr>qs_state := SlotActive\<rparr>))
                  (\<lambda>_. import_infos env infos)))))"

definition import_remote_qps ::
    "'w env \<Rightarrow> wire_msg \<Rightarrow> (('w, 'z) comm_st_scheme, nccl_result) prog" where
  "import_remote_qps env msg =
     (if \<not> valid_message msg then ret ncclRemoteError
      else import_infos env (take (unat (wm_nQps msg)) (wm_qps msg)))"

definition register_comm :: "(('w, 'z) comm_st_scheme, unit) prog" where
  "register_comm = modify (\<lambda>s. s\<lparr>cm_registered := True\<rparr>)"

definition init_as_connector ::
    "'w env \<Rightarrow> net_handle \<Rightarrow> (('w, 'z) comm_st_scheme, nccl_result) prog" where
  "init_as_connector env handle =
     seq (tcp_connect env handle) (\<lambda>fd.
     if fd < 0 then ret ncclSystemError
     else seq (peer_reset env fd) (\<lambda>_.
       nccl_check (create_initial_slots env)
       (seq (export_qps env InitReq) (\<lambda>(r, initReq).
        if r \<noteq> ncclSuccess then ret r
        else nccl_check (send_message env initReq)
        (seq (recv_message env kHandshakeTimeoutMs) (\<lambda>(r, got).
         case got of
           None \<Rightarrow> ret r
         | Some initResp \<Rightarrow>
             if r \<noteq> ncclSuccess then ret r
             else if wm_type initResp \<noteq> InitResp then ret ncclRemoteError
             else nccl_check (import_remote_qps env initResp)
                  (seq register_comm (\<lambda>_. ret ncclSuccess))))))))"

definition init_from_accepted_fd ::
    "'w env \<Rightarrow> int \<Rightarrow> wire_msg \<Rightarrow> (('w, 'z) comm_st_scheme, nccl_result) prog" where
  "init_from_accepted_fd env fd initReq =
     seq (peer_reset env fd) (\<lambda>_.
     nccl_check (create_initial_slots env)
     (nccl_check (import_remote_qps env initReq)
     (seq (export_qps env InitResp) (\<lambda>(r, initResp).
      if r \<noteq> ncclSuccess then ret r
      else nccl_check (send_message env initResp)
           (seq register_comm (\<lambda>_. ret ncclSuccess))))))"

end
