(* ===== verification/NetContext.thy ===== *)
theory NetContext
  imports CommSetup IcmpProbe
begin

text \<open>
  The process-wide context and the plugin's API: \<open>context.{h,cc}\<close>, \<open>DpfrNet\<close> of \<open>comm.cc\<close> and the
  version 10 adapters of \<open>plugin.cc\<close>.

  Communicators and listeners live in stores, lists whose deleted entries are \<^term>\<open>None\<close>; the
  pointer of the entry at position \<open>k\<close> is \<open>k + 1\<close>.  An operation on a communicator runs on the
  context's state extended with the object's members; on a deleted object it is undefined
  behaviour.  A request handle is the pair of its communicator and its index.
\<close>

record comm_obj =
  co_fd :: int
  co_rx :: "u8 list"
  co_registered :: bool
  co_sendSide :: bool
  co_closed :: bool
  co_failed :: bool
  co_slots :: "qp_slot list"
  co_requests :: "request list"
  co_nextSeq :: u64
  co_recvJournal :: "u64 set"
  co_recvJournalOrder :: "u64 list"

record listen_obj =
  lo_fd :: int
  lo_handle :: net_handle

record 'w net_st = "'w table_st" +
  cx_config :: plugin_config
  cx_initialized :: bool
  cx_monitor :: bool
  cx_comms :: "nat list"
  cx_objects :: "comm_obj option list"
  cx_listeners :: "listen_obj option list"

section \<open>Communicators as objects\<close>

definition enter :: "'w net_st \<Rightarrow> comm_obj \<Rightarrow> 'w comm_st" where
  "enter s c =
     \<lparr>world = world s, psn_seed = psn_seed s, devices = devices s, mr_heap = mr_heap s,
      planes = planes s, peer_fd = co_fd c, peer_rx = co_rx c, cm_registered = co_registered c,
      cm_sendSide = co_sendSide c, cm_closed = co_closed c, cm_failed = co_failed c,
      cm_slots = co_slots c, cm_requests = co_requests c, cm_nextSeq = co_nextSeq c,
      cm_recvJournal = co_recvJournal c, cm_recvJournalOrder = co_recvJournalOrder c\<rparr>"

definition object_of :: "'w comm_st \<Rightarrow> comm_obj" where
  "object_of t =
     \<lparr>co_fd = peer_fd t, co_rx = peer_rx t, co_registered = cm_registered t,
      co_sendSide = cm_sendSide t, co_closed = cm_closed t, co_failed = cm_failed t,
      co_slots = cm_slots t, co_requests = cm_requests t, co_nextSeq = cm_nextSeq t,
      co_recvJournal = cm_recvJournal t, co_recvJournalOrder = cm_recvJournalOrder t\<rparr>"

text \<open>\<open>registerComm\<close> appends the pointer to the context's vector, \<open>unregisterComm\<close> removes it.\<close>

definition leave :: "nat \<Rightarrow> 'w comm_st \<Rightarrow> 'w net_st \<Rightarrow> 'w net_st" where
  "leave k t s =
     s\<lparr>world := world t, psn_seed := psn_seed t, devices := devices t, mr_heap := mr_heap t,
       planes := planes t, cx_objects := (cx_objects s)[k := Some (object_of t)],
       cx_comms := (if \<not> cm_registered t then filter (\<lambda>j. j \<noteq> k) (cx_comms s)
                    else if k \<in> set (cx_comms s) then cx_comms s else cx_comms s @ [k])\<rparr>"

definition on_comm :: "nat \<Rightarrow> ('w comm_st, 'a) prog \<Rightarrow> ('w net_st, 'a) prog" where
  "on_comm k m =
     (\<lambda>s. if length (cx_objects s) \<le> k then Inl Undefined_behaviour
          else case cx_objects s ! k of
                 None \<Rightarrow> Inl Undefined_behaviour
               | Some c \<Rightarrow> (case m (enter s c) of
                              Inl f \<Rightarrow> Inl f
                            | Inr (x, t) \<Rightarrow> Inr (x, leave k t s)))"

definition blank_object :: "bool \<Rightarrow> comm_obj" where
  "blank_object sendSide =
     \<lparr>co_fd = -1, co_rx = [], co_registered = False, co_sendSide = sendSide, co_closed = False,
      co_failed = False, co_slots = [], co_requests = initial_requests, co_nextSeq = 1,
      co_recvJournal = {}, co_recvJournalOrder = []\<rparr>"

text \<open>\<open>new DpfrComm(context, sendSide)\<close> and \<open>delete comm\<close>, whose destructor closes.\<close>

definition new_comm_object :: "bool \<Rightarrow> ('w net_st, nat) prog" where
  "new_comm_object sendSide =
     (\<lambda>s. Inr (length (cx_objects s), s\<lparr>cx_objects := cx_objects s @ [Some (blank_object sendSide)]\<rparr>))"

definition delete_comm :: "'w env \<Rightarrow> nat \<Rightarrow> ('w net_st, unit) prog" where
  "delete_comm env k =
     seq (on_comm k (comm_close env)) (\<lambda>_.
     modify (\<lambda>s. s\<lparr>cx_objects := (cx_objects s)[k := None]\<rparr>))"

section \<open>The context\<close>

text \<open>\<open>planeTable_.reset\<close> reads the clock once per plane.\<close>

fun read_clock :: "'w env \<Rightarrow> nat \<Rightarrow> ('w net_st, u64 list) prog" where
  "read_clock env 0 = ret []"
| "read_clock env (Suc n) =
     seq (call (clock_usec env)) (\<lambda>now. seq (read_clock env n) (\<lambda>rest. ret (now # rest)))"

definition context_init :: "'w env \<Rightarrow> environ \<Rightarrow> ('w net_st, nccl_result) prog" where
  "context_init env getenv =
     seq (gets cx_initialized) (\<lambda>initialized.
     if initialized then ret ncclSuccess
     else let (r, config) = load_config getenv in
       seq (modify (\<lambda>s. s\<lparr>cx_config := config\<rparr>)) (\<lambda>_.
       if r \<noteq> ncclSuccess then ret r
       else nccl_check (open_plane_devices env config)
         (seq (gets (\<lambda>s. map pd_planeId (devices s))) (\<lambda>planeIds.
          seq (read_clock env (length planeIds)) (\<lambda>times.
          seq (modify (\<lambda>s. s\<lparr>planes := snd (plane_reset (\<lambda>i. times ! i) planeIds)\<rparr>)) (\<lambda>_.
          seq (modify (\<lambda>s. s\<lparr>cx_monitor := True, cx_initialized := True\<rparr>)) (\<lambda>_.
          ret ncclSuccess)))))))"

definition context_finalize :: "'w env \<Rightarrow> ('w net_st, nccl_result) prog" where
  "context_finalize env =
     seq (modify (\<lambda>s. s\<lparr>cx_monitor := False\<rparr>)) (\<lambda>_.
     seq (close_plane_devices env) (\<lambda>_.
     seq (modify (\<lambda>s. s\<lparr>cx_initialized := False\<rparr>)) (\<lambda>_.
     ret ncclSuccess)))"

text \<open>
  \<open>applyPlaneEvent\<close> in two parts: the table and the copy of the communicators' pointers, taken
  under the mutex, and the notifications, which run without it.
\<close>

definition plane_event_begin ::
    "'w env \<Rightarrow> int \<Rightarrow> bool \<Rightarrow> string \<Rightarrow> ('w net_st, (plane_snapshot \<times> nat list) option) prog" where
  "plane_event_begin env planeId recovered source =
     seq (table_op_at env (\<lambda>now. if recovered then mark_recovering now planeId (Some source)
                                 else mark_broken now planeId (Some source))) (\<lambda>snapshot.
     case snapshot of
       None \<Rightarrow> ret None
     | Some snapshot \<Rightarrow> seq (gets cx_comms) (\<lambda>comms. ret (Some (snapshot, comms))))"

definition plane_event_notify ::
    "'w env \<Rightarrow> int \<Rightarrow> bool \<Rightarrow> bool \<Rightarrow> u32 \<Rightarrow> nat list \<Rightarrow> ('w net_st, unit) prog" where
  "plane_event_notify env planeId recovered broadcast generation comms =
     for_all_do comms (\<lambda>k.
       seq (on_comm k (if recovered then on_plane_recovering env planeId generation
                       else on_plane_broken env planeId generation)) (\<lambda>_.
       if broadcast
       then seq (on_comm k (send_plane_event env planeId generation recovered)) (\<lambda>_. ret ())
       else ret ()))"

definition apply_plane_event ::
    "'w env \<Rightarrow> int \<Rightarrow> bool \<Rightarrow> string \<Rightarrow> bool \<Rightarrow> ('w net_st, unit) prog" where
  "apply_plane_event env planeId recovered source broadcast =
     seq (plane_event_begin env planeId recovered source) (\<lambda>begun.
     case begun of
       None \<Rightarrow> ret ()
     | Some (snapshot, comms) \<Rightarrow>
         plane_event_notify env planeId recovered broadcast (ps_generation snapshot) comms)"

section \<open>The API\<close>

definition net_init :: "'w env \<Rightarrow> environ \<Rightarrow> ('w net_st, nccl_result) prog" where
  "net_init env getenv = context_init env getenv"

definition net_devices :: "'w net_st \<Rightarrow> nccl_result \<times> int" where
  "net_devices s = (ncclSuccess, if cx_initialized s \<and> devices s \<noteq> [] then 1 else 0)"

record net_properties =
  np_name :: string
  np_ptrSupport :: u32
  np_speed :: int
  np_maxComms :: nat
  np_maxRecvs :: nat
  np_ndevs :: nat
  np_devs0 :: nat
  np_maxP2pBytes :: u64
  np_maxCollBytes :: u64
  np_maxMultiRequestSize :: nat

text \<open>\<open>NCCL_PTR_HOST | NCCL_PTR_CUDA\<close>; the fields not named are zero.\<close>

definition net_get_properties :: "int \<Rightarrow> 'w net_st \<Rightarrow> nccl_result \<times> net_properties option" where
  "net_get_properties dev s =
     (if dev \<noteq> 0 then (ncclInvalidArgument, None)
      else (ncclSuccess, Some
        \<lparr>np_name = ''DPFR_IB'', np_ptrSupport = 1 OR 2,
         np_speed = cast_int (100000 * cast_int (int (max 1 (length (devices s))))),
         np_maxComms = 1024 * 1024, np_maxRecvs = 1, np_ndevs = 1, np_devs0 = 0,
         np_maxP2pBytes = kMaxPluginBytes, np_maxCollBytes = kMaxPluginBytes,
         np_maxMultiRequestSize = 1\<rparr>))"

text \<open>The version 10 structure has no \<open>maxMultiRequestSize\<close>.\<close>

definition plugin_get_properties_v10 ::
    "int \<Rightarrow> 'w net_st \<Rightarrow> nccl_result \<times> net_properties option" where
  "plugin_get_properties_v10 dev s =
     (case net_get_properties dev s of
        (r, p) \<Rightarrow> if r \<noteq> ncclSuccess then (r, None)
                  else (ncclSuccess, map_option (\<lambda>p. p\<lparr>np_maxMultiRequestSize := 0\<rparr>) p))"

definition net_listen ::
    "'w env \<Rightarrow> int \<Rightarrow> ('w net_st, nccl_result \<times> (nat \<times> net_handle) option) prog" where
  "net_listen env dev =
     (if dev \<noteq> 0 then ret (ncclInvalidArgument, None)
      else seq (call (sys_socket env TcpSocket)) (\<lambda>fd.
      if fd < 0 then ret (ncclSystemError, None)
      else seq (call (sys_bind env fd 0)) (\<lambda>bound.
      seq (if bound then call (sys_listen env fd 64) else ret False) (\<lambda>listening.
      if \<not> listening
      then seq (call_void (sys_close env fd)) (\<lambda>_. ret (ncclSystemError, None))
      else seq (call (sys_getsockname env fd)) (\<lambda>port.
      case port of
        None \<Rightarrow> seq (call_void (sys_close env fd)) (\<lambda>_. ret (ncclSystemError, None))
      | Some port \<Rightarrow>
          seq (set_socket_non_blocking env fd True) (\<lambda>_.
          seq (gets (\<lambda>s. cf_controlAddr (cx_config s))) (\<lambda>controlAddr.
          seq (if controlAddr = [] then first_non_loopback_ipv4 env else ret controlAddr) (\<lambda>addrText.
          seq (gets (\<lambda>s. length (cx_listeners s))) (\<lambda>k.
          let handle = default_handle\<lparr>nh_ipv4 := (case inet_pton env addrText of None \<Rightarrow> 0 | Some a \<Rightarrow> a),
                nh_port := port, nh_nonce := of_nat (k + 1)\<rparr> in
          seq (modify (\<lambda>s. s\<lparr>cx_listeners := cx_listeners s @ [Some \<lparr>lo_fd = fd, lo_handle = handle\<rparr>]\<rparr>)) (\<lambda>_.
          ret (ncclSuccess, Some (k, handle))))))))))))"

definition net_connect ::
    "'w env \<Rightarrow> int \<Rightarrow> net_handle \<Rightarrow> ('w net_st, nccl_result \<times> nat option) prog" where
  "net_connect env dev handle =
     (if dev \<noteq> 0 \<or> \<not> valid_handle handle then ret (ncclInvalidArgument, None)
      else seq (new_comm_object True) (\<lambda>k.
      seq (on_comm k (init_as_connector env handle)) (\<lambda>r.
      if r \<noteq> ncclSuccess then seq (delete_comm env k) (\<lambda>_. ret (r, None))
      else ret (ncclSuccess, Some k))))"

definition net_accept ::
    "'w env \<Rightarrow> nat \<Rightarrow> ('w net_st, nccl_result \<times> nat option) prog" where
  "net_accept env l =
     seq (gets (\<lambda>s. if l < length (cx_listeners s) then cx_listeners s ! l else None)) (\<lambda>found.
     case found of
       None \<Rightarrow> crash Undefined_behaviour
     | Some lo \<Rightarrow>
         seq (call (sys_accept env (lo_fd lo))) (\<lambda>accepted.
         case accepted of
           AcceptError e \<Rightarrow>
             if e = EAGAIN \<or> e = EWOULDBLOCK then ret (ncclSuccess, None) else ret (ncclSystemError, None)
         | Accepted fd \<Rightarrow>
             seq (set_socket_non_blocking env fd False) (\<lambda>_.
             seq (recv_all env fd msg_size kHandshakeTimeoutMs) (\<lambda>(r, bytes).
             let initReq = msg_of_bytes bytes in
             if r \<noteq> ncclSuccess \<or> wm_type initReq \<noteq> InitReq \<or> \<not> valid_message initReq
             then seq (call_void (sys_close env fd))
                    (\<lambda>_. ret (if r = ncclSuccess then ncclRemoteError else r, None))
             else seq (new_comm_object False) (\<lambda>k.
               seq (on_comm k (init_from_accepted_fd env fd initReq)) (\<lambda>r.
               if r \<noteq> ncclSuccess then seq (delete_comm env k) (\<lambda>_. ret (r, None))
               else ret (ncclSuccess, Some k)))))))"

definition net_reg_mr ::
    "'w env \<Rightarrow> u64 \<Rightarrow> u64 \<Rightarrow> int \<Rightarrow> ('w net_st, nccl_result \<times> ptr) prog" where
  "net_reg_mr env data sz type = register_mr env data sz type"

definition net_reg_mr_dma_buf :: "('w net_st, nccl_result) prog" where
  "net_reg_mr_dma_buf = ret ncclInvalidUsage"

definition net_dereg_mr :: "'w env \<Rightarrow> ptr \<Rightarrow> ('w net_st, nccl_result) prog" where
  "net_dereg_mr env mhandle = deregister_mr env mhandle"

definition net_isend ::
    "'w env \<Rightarrow> nat \<Rightarrow> u64 \<Rightarrow> u64 \<Rightarrow> int \<Rightarrow> ptr \<Rightarrow> ('w net_st, nccl_result \<times> (nat \<times> nat) option) prog" where
  "net_isend env k data sz tag mhandle =
     seq (on_comm k (comm_isend env data sz tag mhandle)) (\<lambda>(r, req). ret (r, map_option (Pair k) req))"

definition net_irecv ::
    "'w env \<Rightarrow> nat \<Rightarrow> int \<Rightarrow> u64 \<Rightarrow> u64 \<Rightarrow> int option \<Rightarrow> ptr
     \<Rightarrow> ('w net_st, nccl_result \<times> (nat \<times> nat) option) prog" where
  "net_irecv env k n data sz tag mhandle =
     seq (on_comm k (comm_irecv env n data sz tag mhandle)) (\<lambda>(r, req). ret (r, map_option (Pair k) req))"

definition net_iflush ::
    "nat \<Rightarrow> int \<Rightarrow> int option \<Rightarrow> ('w net_st, nccl_result \<times> (nat \<times> nat) option) prog" where
  "net_iflush k n sz =
     seq (on_comm k (comm_iflush n sz)) (\<lambda>(r, req). ret (r, map_option (Pair k) req))"

definition net_test ::
    "'w env \<Rightarrow> (nat \<times> nat) option \<Rightarrow> ('w net_st, nccl_result \<times> int option) prog" where
  "net_test env request =
     (case request of
        None \<Rightarrow> ret (ncclInvalidArgument, None)
      | Some (k, req) \<Rightarrow> on_comm k (comm_test env (Some req)))"

definition net_close_send :: "'w env \<Rightarrow> nat \<Rightarrow> ('w net_st, nccl_result) prog" where
  "net_close_send env k = seq (delete_comm env k) (\<lambda>_. ret ncclSuccess)"

definition net_close_recv :: "'w env \<Rightarrow> nat \<Rightarrow> ('w net_st, nccl_result) prog" where
  "net_close_recv env k = seq (delete_comm env k) (\<lambda>_. ret ncclSuccess)"

definition net_close_listen :: "'w env \<Rightarrow> nat option \<Rightarrow> ('w net_st, nccl_result) prog" where
  "net_close_listen env listenComm =
     (case listenComm of
        None \<Rightarrow> ret ncclSuccess
      | Some l \<Rightarrow>
          seq (gets (\<lambda>s. if l < length (cx_listeners s) then cx_listeners s ! l else None)) (\<lambda>found.
          case found of
            None \<Rightarrow> crash Undefined_behaviour
          | Some lo \<Rightarrow>
              seq (if 0 \<le> lo_fd lo then call_void (sys_close env (lo_fd lo)) else ret ()) (\<lambda>_.
              seq (modify (\<lambda>s. s\<lparr>cx_listeners := (cx_listeners s)[l := None]\<rparr>)) (\<lambda>_.
              ret ncclSuccess))))"

definition net_finalize :: "'w env \<Rightarrow> ('w net_st, nccl_result) prog" where
  "net_finalize env = context_finalize env"

end
