(* ===== verification/Monitor.thy ===== *)
theory Monitor
  imports NetContext
begin

text \<open>
  The monitor of \<open>plugins/net/dpfr_ib/src/monitor.{h,cc}\<close>: the three threads that turn control lines
  over TCP, datagrams over UDP and ICMP probes into plane events.  Each thread is a loop that reads
  the stop flag; it runs on fuel, as the flag is set by another thread.  The counters of the probe
  thread are arrays of \<open>kMaxPlanes\<close> entries; an index outside of them is undefined behaviour.

  The lemmas give the hysteresis of the probe: how many consecutive results an event needs.
\<close>

section \<open>Lines and probes\<close>

definition char_of_byte :: "u8 \<Rightarrow> char" where
  "char_of_byte b = char_of (unat b)"

text \<open>One iteration of \<open>readLineFromFd\<close>; the result is the returned flag and the line.\<close>

definition read_line_step ::
    "'w env \<Rightarrow> int \<Rightarrow> string \<Rightarrow> (('w, 'z) machine_scheme, string + bool \<times> string) prog" where
  "read_line_step env fd line =
     seq (call (sys_recv env fd 1)) (\<lambda>r.
     case r of
       Received (b # _) \<Rightarrow>
         let c = char_of_byte b in
         if c = CHR 0x0A then ret (Inr (True, line))
         else let line = (if c \<noteq> CHR 0x0D then line @ [c] else line) in
           if 256 < length line then ret (Inr (True, line)) else ret (Inl line)
     | Received [] \<Rightarrow> ret (Inr (line \<noteq> [], line))
     | EndOfStream \<Rightarrow> ret (Inr (line \<noteq> [], line))
     | RecvError e \<Rightarrow> if e = EINTR then ret (Inl line) else ret (Inr (False, line)))"

definition read_line_from_fd ::
    "'w env \<Rightarrow> int \<Rightarrow> (('w, 'z) machine_scheme, bool \<times> string) prog" where
  "read_line_from_fd env fd = loop (env_fuel env) (read_line_step env fd) []"

text \<open>At most four attempts to receive the reply; a poll that is not ready ends them.\<close>

fun probe_attempts ::
    "'w env \<Rightarrow> int \<Rightarrow> u32 \<Rightarrow> u16 \<Rightarrow> u16 \<Rightarrow> nat \<Rightarrow> (('w, 'z) machine_scheme, bool) prog" where
  "probe_attempts env fd addr ident sequence 0 = ret False"
| "probe_attempts env fd addr ident sequence (Suc n) =
     seq (call (sys_poll env fd 500)) (\<lambda>pr.
     case pr of
       PollReady nval \<Rightarrow>
         seq (call (sys_recv env fd 512)) (\<lambda>r.
         case r of
           Received bs \<Rightarrow>
             if bs = [] then probe_attempts env fd addr ident sequence n
             else (case parse_icmp_echo_reply (Some (take 512 bs)) addr ident sequence of
                     None \<Rightarrow> crash Undefined_behaviour
                   | Some matched \<Rightarrow>
                       if matched then ret True else probe_attempts env fd addr ident sequence n)
         | _ \<Rightarrow> probe_attempts env fd addr ident sequence n)
     | _ \<Rightarrow> ret False)"

definition icmp_probe ::
    "'w env \<Rightarrow> plane_config \<Rightarrow> u16 \<Rightarrow> u16 \<Rightarrow> (('w, 'z) machine_scheme, bool) prog" where
  "icmp_probe env plane ident sequence =
     seq (call (sys_socket env RawIcmpSocket)) (\<lambda>fd.
     if fd < 0 then ret False
     else seq (if pc_probeIface plane \<noteq> [] then call (sys_bind_device env fd (pc_probeIface plane))
               else ret True) (\<lambda>bound.
       if \<not> bound then seq (call_void (sys_close env fd)) (\<lambda>_. ret False)
       else case inet_pton env (pc_probeIp plane) of
              None \<Rightarrow> seq (call_void (sys_close env fd)) (\<lambda>_. ret False)
            | Some addr \<Rightarrow>
                seq (call (sys_sendto env fd addr (echo_request ident sequence))) (\<lambda>sent.
                if \<not> sent then seq (call_void (sys_close env fd)) (\<lambda>_. ret False)
                else seq (probe_attempts env fd addr ident sequence 4) (\<lambda>matched.
                  seq (call_void (sys_close env fd)) (\<lambda>_. ret matched)))))"

section \<open>The probe thread\<close>

text \<open>The counters of one plane after a result, and the event to report.  \<open>broken\<close> is what the
  table says; it is only read when the result is a hit.\<close>

definition probe_update :: "bool \<Rightarrow> bool \<Rightarrow> int \<times> int \<Rightarrow> (int \<times> int) \<times> bool option" where
  "probe_update ok broken = (\<lambda>(misses, hits).
     if ok then ((0, hits + 1), if 2 \<le> hits + 1 \<and> broken then Some True else None)
     else ((misses + 1, 0), if 3 \<le> misses + 1 then Some False else None))"

record probe_locals =
  pl_seq :: u16
  pl_misses :: "int list"
  pl_hits :: "int list"

definition initial_probe_locals :: probe_locals where
  "initial_probe_locals =
     \<lparr>pl_seq = 0, pl_misses = replicate kMaxPlanes 0, pl_hits = replicate kMaxPlanes 0\<rparr>"

text \<open>The body of the loop over the planes.\<close>

definition probe_plane ::
    "'w env \<Rightarrow> u16 \<Rightarrow> plane_config \<Rightarrow> probe_locals \<Rightarrow> ('w net_st, probe_locals) prog" where
  "probe_plane env ident plane l =
     (if pc_probeIp plane = [] then ret l
      else
        let sequence = pl_seq l + 1; p = pc_planeId plane; i = nat p in
        seq (icmp_probe env plane ident sequence) (\<lambda>ok.
        if p < 0 \<or> int (length (pl_misses l)) \<le> p \<or> int (length (pl_hits l)) \<le> p
        then crash Undefined_behaviour
        else
          seq (if ok \<and> 2 \<le> pl_hits l ! i + 1
               then table_op env (\<lambda>t. (plane_health_of p t = Broken, t)) else ret False) (\<lambda>broken.
          case probe_update ok broken (pl_misses l ! i, pl_hits l ! i) of
            ((misses, hits), event) \<Rightarrow>
              seq (case event of
                     None \<Rightarrow> ret ()
                   | Some recovered \<Rightarrow> apply_plane_event env p recovered ''probe'' True) (\<lambda>_.
              ret (l\<lparr>pl_seq := sequence, pl_misses := (pl_misses l)[i := misses],
                     pl_hits := (pl_hits l)[i := hits]\<rparr>)))))"

fun probe_planes ::
    "'w env \<Rightarrow> u16 \<Rightarrow> plane_config list \<Rightarrow> probe_locals \<Rightarrow> ('w net_st, probe_locals) prog" where
  "probe_planes env ident [] l = ret l"
| "probe_planes env ident (plane # rest) l =
     seq (probe_plane env ident plane l) (probe_planes env ident rest)"

definition probe_thread_step ::
    "'w env \<Rightarrow> u16 \<Rightarrow> plane_config list \<Rightarrow> probe_locals \<Rightarrow> ('w net_st, probe_locals + unit) prog" where
  "probe_thread_step env ident cfgs l =
     seq (call (stop_requested env)) (\<lambda>stop.
     if stop then ret (Inr ())
     else seq (probe_planes env ident cfgs l) (\<lambda>l'.
       seq (call_void (sleep_ms env 1000)) (\<lambda>_. ret (Inl l'))))"

definition probe_thread_main :: "'w env \<Rightarrow> plugin_config \<Rightarrow> ('w net_st, unit) prog" where
  "probe_thread_main env config =
     seq (call (sys_socket env RawIcmpSocket)) (\<lambda>testFd.
     if testFd < 0 then ret ()
     else seq (call_void (sys_close env testFd)) (\<lambda>_.
       seq (call (sys_getpid env)) (\<lambda>pid.
       loop (env_fuel env) (probe_thread_step env (ucast (pid AND 0xffff)) (cf_planes config))
         initial_probe_locals)))"

section \<open>The control threads\<close>

definition control_line :: "'w env \<Rightarrow> string \<Rightarrow> string \<Rightarrow> ('w net_st, unit) prog" where
  "control_line env source line =
     (case parse_plane_control_line line (-1) False of
        (ok, plane, recovered) \<Rightarrow>
          if ok then apply_plane_event env plane recovered source True else ret ())"

text \<open>The lines of one connection: \<open>while (!stop_ && readLineFromFd(fd, &line))\<close>.\<close>

definition connection_step :: "'w env \<Rightarrow> int \<Rightarrow> unit \<Rightarrow> ('w net_st, unit + unit) prog" where
  "connection_step env fd u =
     seq (call (stop_requested env)) (\<lambda>stop.
     if stop then ret (Inr ())
     else seq (read_line_from_fd env fd) (\<lambda>(more, line).
       if \<not> more then ret (Inr ())
       else seq (control_line env ''tcp-control'' line) (\<lambda>_. ret (Inl ()))))"

definition serve_connection :: "'w env \<Rightarrow> int \<Rightarrow> ('w net_st, unit) prog" where
  "serve_connection env fd =
     seq (loop (env_fuel env) (connection_step env fd) ()) (\<lambda>_. call_void (sys_close env fd))"

text \<open>The accept loop of the server mode.\<close>

definition accept_step :: "'w env \<Rightarrow> int \<Rightarrow> unit \<Rightarrow> ('w net_st, unit + unit) prog" where
  "accept_step env fd u =
     seq (call (stop_requested env)) (\<lambda>stop.
     if stop then ret (Inr ())
     else seq (call (sys_poll env fd 500)) (\<lambda>pr.
       case pr of
         PollReady nval \<Rightarrow>
           seq (call (sys_accept env fd)) (\<lambda>client.
           case client of
             Accepted c \<Rightarrow>
               if c < 0 then ret (Inl ()) else seq (serve_connection env c) (\<lambda>_. ret (Inl ()))
           | AcceptError e \<Rightarrow> ret (Inl ()))
       | _ \<Rightarrow> ret (Inl ())))"

definition tcp_thread_step :: "'w env \<Rightarrow> plugin_config \<Rightarrow> unit \<Rightarrow> ('w net_st, unit + unit) prog" where
  "tcp_thread_step env config u =
     (let port = (word_of_int (cf_controlTcpPort config) :: u16) in
      seq (call (stop_requested env)) (\<lambda>stop.
      if stop then ret (Inr ())
      else seq (call (sys_socket env TcpSocket)) (\<lambda>fd.
        if fd < 0 then ret (Inr ())
        else if cf_controlTcpServer config \<noteq> [] then
          seq (case inet_pton env (cf_controlTcpServer config) of
                 None \<Rightarrow> ret False
               | Some addr \<Rightarrow> call (sys_connect env fd addr port)) (\<lambda>connected.
          if \<not> connected
          then seq (call_void (sys_close env fd)) (\<lambda>_.
               seq (call_void (sleep_ms env 500)) (\<lambda>_. ret (Inl ())))
          else seq (serve_connection env fd) (\<lambda>_. ret (Inl ())))
        else
          seq (call (sys_bind env fd port)) (\<lambda>bound.
          seq (if bound then call (sys_listen env fd 16) else ret False) (\<lambda>listening.
          if \<not> listening then seq (call_void (sys_close env fd)) (\<lambda>_. ret (Inr ()))
          else seq (loop (env_fuel env) (accept_step env fd) ()) (\<lambda>_.
            seq (call_void (sys_close env fd)) (\<lambda>_. ret (Inl ()))))))))"

definition tcp_thread_main :: "'w env \<Rightarrow> plugin_config \<Rightarrow> ('w net_st, unit) prog" where
  "tcp_thread_main env config = loop (env_fuel env) (tcp_thread_step env config) ()"

text \<open>A datagram is a C string of at most 255 bytes: it ends at its first zero byte.\<close>

definition datagram_text :: "u8 list \<Rightarrow> string" where
  "datagram_text bs = map char_of_byte (takeWhile (\<lambda>b. b \<noteq> 0) (take 255 bs))"

definition udp_thread_step :: "'w env \<Rightarrow> int \<Rightarrow> unit \<Rightarrow> ('w net_st, unit + unit) prog" where
  "udp_thread_step env fd u =
     seq (call (stop_requested env)) (\<lambda>stop.
     if stop then ret (Inr ())
     else seq (call (sys_poll env fd 500)) (\<lambda>pr.
       case pr of
         PollReady nval \<Rightarrow>
           seq (call (sys_recv env fd 255)) (\<lambda>r.
           case r of
             Received bs \<Rightarrow>
               if bs = [] then ret (Inl ())
               else seq (control_line env ''dpfr-udp'' (datagram_text bs)) (\<lambda>_. ret (Inl ()))
           | _ \<Rightarrow> ret (Inl ()))
       | _ \<Rightarrow> ret (Inl ())))"

definition udp_thread_main :: "'w env \<Rightarrow> plugin_config \<Rightarrow> ('w net_st, unit) prog" where
  "udp_thread_main env config =
     seq (call (sys_socket env UdpSocket)) (\<lambda>fd.
     if fd < 0 then ret ()
     else seq (call (sys_bind env fd (word_of_int (cf_dpfrUdpPort config)))) (\<lambda>bound.
       if \<not> bound then call_void (sys_close env fd)
       else seq (loop (env_fuel env) (udp_thread_step env fd) ()) (\<lambda>_.
         call_void (sys_close env fd))))"

text \<open>The threads \<open>start\<close> creates, in their order.\<close>

datatype monitor_thread = TcpThread | UdpThread | ProbeThread

definition monitor_threads :: "plugin_config \<Rightarrow> monitor_thread list" where
  "monitor_threads config =
     (if 0 < cf_controlTcpPort config then [TcpThread] else []) @
     (if 0 < cf_dpfrUdpPort config then [UdpThread] else []) @
     (if \<exists>plane \<in> set (cf_planes config). pc_probeIp plane \<noteq> [] then [ProbeThread] else [])"

fun thread_main :: "'w env \<Rightarrow> plugin_config \<Rightarrow> monitor_thread \<Rightarrow> ('w net_st, unit) prog" where
  "thread_main env config TcpThread = tcp_thread_main env config"
| "thread_main env config UdpThread = udp_thread_main env config"
| "thread_main env config ProbeThread = probe_thread_main env config"

section \<open>The hysteresis of the probe\<close>

text \<open>The counters after a history of results, the oldest first.\<close>

fun probe_history :: "bool list \<Rightarrow> int \<times> int" where
  "probe_history [] = (0, 0)"
| "probe_history (r # rs) = fst (probe_update r False (probe_history rs))"

definition trailing :: "bool \<Rightarrow> bool list \<Rightarrow> nat" where
  "trailing b rs = length (takeWhile (\<lambda>r. r = b) rs)"

lemma probe_history_counts:
  "probe_history rs = (int (trailing False rs), int (trailing True rs))"
  by (induction rs) (auto simp: probe_update_def trailing_def)

text \<open>The probe's hysteresis: with the results of a plane listed newest first, the newest result
  reports the plane broken exactly when it and the two before it are misses, and reports it
  recovering exactly when it and the one before it are hits and the table holds it broken.\<close>

theorem probe_hysteresis:
  "snd (probe_update r broken (probe_history rs)) =
     (if r then (if 2 \<le> trailing True (r # rs) \<and> broken then Some True else None)
      else if 3 \<le> trailing False (r # rs) then Some False else None)"
  by (simp add: probe_update_def probe_history_counts trailing_def)

end
