(* ===== verification/CommInvariant.thy ===== *)
theory CommInvariant
  imports CommSetup
begin

text \<open>
  What every operation of a communicator keeps, \<open>comm_ok\<close>: an active slot has a ready queue pair, the
  32 requests stay at their indices, the receive journal stays within its window, and every posted
  request is backed by a live queue pair of its plane and generation.

  The programs of the lower layers (sockets, verbs, plane table) only touch the state below the
  communicator; \<open>frame\<close> says so, and each of them is shown to respect it.  The operations of the
  communicator respect \<open>evolves\<close>: the invariant is kept, slots keep their planes, a failure is
  sticky.
\<close>

section \<open>Programs below the communicator\<close>

definition frame :: "('w, 'z) peer_st_scheme \<Rightarrow> ('w, 'z) peer_st_scheme \<Rightarrow> bool" where
  "frame s t \<longleftrightarrow> peer_st.more t = peer_st.more s"

interpretation frame_order: step_order frame
  by unfold_locales (auto simp: frame_def)

lemma call_frame: "moves frame (call f)"
  by (rule call_moves) (simp add: frame_def)

lemma call_void_frame: "moves frame (call_void f)"
  by (rule call_void_moves) (simp add: frame_def)

lemma modify_frame:
  "moves frame (modify (\<lambda>s. s\<lparr>peer_fd := fd\<rparr>))" "moves frame (modify (\<lambda>s. s\<lparr>peer_rx := f s\<rparr>))"
  "moves frame (modify (\<lambda>s. s\<lparr>peer_fd := fd, peer_rx := rx\<rparr>))" "moves frame (modify (\<lambda>s. s\<lparr>devices := g s\<rparr>))"
  by (rule frame_order.modify_moves, simp add: frame_def)+

lemmas frame_rules = frame_order.rules call_frame call_void_frame modify_frame

lemma next_psn_frame: "moves frame next_psn"
  by (rule movesI) (auto simp: next_psn_def frame_def Let_def)

lemma deref_device_frame: "moves frame (deref_device dev)"
  by (rule movesI) (auto simp: deref_device_def frame_def split: option.splits if_splits)

lemma deref_mr_frame: "moves frame (deref_mr mhandle)"
  by (rule movesI) (auto simp: deref_mr_def frame_def split: option.splits if_splits)

lemma destroy_endpoint_frame: "moves frame (destroy_endpoint env ep)"
  unfolding destroy_endpoint_def by (intro frame_rules)

lemma create_endpoint_frame: "moves frame (create_endpoint env dev generation)"
  unfolding create_endpoint_def Let_def
  by (intro frame_rules next_psn_frame deref_device_frame destroy_endpoint_frame)

lemma endpoint_info_frame: "moves frame (endpoint_info env ep)"
  unfolding endpoint_info_def by (intro frame_rules deref_device_frame)

lemma endpoint_to_rtr_rts_frame: "moves frame (endpoint_to_rtr_rts env ep remote)"
  unfolding endpoint_to_rtr_rts_def by (intro frame_rules deref_device_frame)

lemma post_frame:
  "moves frame (post_send env ep data sz lkey wrId)" "moves frame (post_recv env ep data sz lkey wrId)"
  "moves frame (post_empty_send env ep wrId)" "moves frame (post_empty_recv env ep wrId)"
  unfolding post_send_def post_recv_def post_empty_send_def post_empty_recv_def by (intro frame_rules)+

lemma poll_endpoint_frame: "moves frame (poll_endpoint env ep n)"
  unfolding poll_endpoint_def by (intro frame_rules)

lemma mr_for_plane_frame: "moves frame (mr_for_plane mhandle planeId)"
  unfolding mr_for_plane_def by (intro frame_rules deref_mr_frame)

lemma refresh_plane_device_frame: "moves frame (refresh_plane_device env dev)"
  unfolding refresh_plane_device_def Let_def by (intro frame_rules)

lemma table_op_frame: "moves frame (table_op env f)"
  unfolding table_op_def
  by (intro frame_rules) (rule movesI, auto simp: frame_def split: prod.splits)

lemma table_op_at_frame: "moves frame (table_op_at env f)"
  unfolding table_op_at_def by (intro frame_rules table_op_frame)

lemma select_frame: "moves frame (select env slots sequence)"
proof -
  have "moves frame (select_from env slots start is)" for start "is"
    by (induction "is") (auto simp: Let_def table_get_def intro!: frame_rules table_op_frame)
  then show ?thesis unfolding select_def by (intro frame_rules)
qed

lemma send_message_frame: "moves frame (send_message env msg)"
  unfolding send_message_def send_all_def send_step_def
  by (intro frame_rules) (auto intro!: frame_rules split: send_result.split)

lemma pop_message_frame: "moves frame pop_message"
  unfolding pop_message_def Let_def by (intro frame_rules)

lemma read_available_frame: "moves frame (read_available env ms)"
  unfolding read_available_def poll_step_def chunk_step_def
  by (intro frame_rules) (auto intro!: frame_rules split: poll_result.split recv_result.split)

lemma recv_message_frame: "moves frame (recv_message env ms)"
  unfolding recv_message_def recv_message_step_def
  by (intro frame_rules pop_message_frame read_available_frame)

lemma progress_recv_frame: "moves frame (progress_recv env)"
  unfolding progress_recv_def by (intro frame_rules pop_message_frame read_available_frame)

lemma peer_close_frame: "moves frame (peer_close env)"
  unfolding peer_close_def by (intro frame_rules)

lemma peer_reset_frame: "moves frame (peer_reset env fd)"
  unfolding peer_reset_def by (intro frame_rules peer_close_frame)


section \<open>The invariant\<close>

definition slot_ok :: "qp_slot \<Rightarrow> bool" where
  "slot_ok slot \<longleftrightarrow> qs_state slot \<noteq> SlotDraining \<and>
     (qs_state slot = SlotActive \<longrightarrow> ep_qp (qs_active slot) \<noteq> null \<and> ep_ready (qs_active slot))"

text \<open>The generations at which a slot still has a queue pair that may complete work.\<close>

definition live_generations :: "qp_slot \<Rightarrow> u32 set" where
  "live_generations slot = ep_generation ` {ep \<in> set (qs_active slot # qs_retired slot). ep_qp ep \<noteq> null}"

lemma live_generationsI:
  "ep \<in> set (qs_active slot # qs_retired slot) \<Longrightarrow> ep_qp ep \<noteq> null \<Longrightarrow> ep_generation ep \<in> live_generations slot"
  unfolding live_generations_def by (rule imageI) simp

definition backed :: "qp_slot list \<Rightarrow> request \<Rightarrow> bool" where
  "backed slots req \<longleftrightarrow> (rq_state req = ReqPosted \<longrightarrow>
     (\<exists>slot \<in> set slots. qs_planeId slot = rq_planeId req \<and> rq_generation req \<in> live_generations slot))"

definition requests_ok :: "request list \<Rightarrow> bool" where
  "requests_ok reqs \<longleftrightarrow> length reqs = NCCL_NET_MAX_REQUESTS \<and> (\<forall>k < length reqs. rq_index (reqs ! k) = int k)"

definition journal_ok :: "u64 list \<Rightarrow> u64 set \<Rightarrow> bool" where
  "journal_ok order journal \<longleftrightarrow> journal \<subseteq> set order \<and> length order \<le> kJournalCapacity"

definition comm_ok :: "('w, 'z) comm_st_scheme \<Rightarrow> bool" where
  "comm_ok s \<longleftrightarrow> (\<forall>slot \<in> set (cm_slots s). slot_ok slot) \<and> requests_ok (cm_requests s) \<and>
     (\<forall>req \<in> set (cm_requests s). backed (cm_slots s) req) \<and>
     journal_ok (cm_recvJournalOrder s) (cm_recvJournal s)"

definition evolves :: "('w, 'z) comm_st_scheme \<Rightarrow> ('w, 'z) comm_st_scheme \<Rightarrow> bool" where
  "evolves s t \<longleftrightarrow> (comm_ok s \<longrightarrow> comm_ok t \<and>
     map qs_planeId (cm_slots t) = map qs_planeId (cm_slots s) \<and> cm_nextSeq t = cm_nextSeq s \<and>
     (cm_failed s \<longrightarrow> cm_failed t) \<and> cm_closed t = cm_closed s \<and> cm_registered t = cm_registered s \<and>
     cm_sendSide t = cm_sendSide s)"

interpretation evolves_order: step_order evolves
  by unfold_locales (auto simp: evolves_def)

lemma frame_cm:
  assumes "frame s t"
  shows "cm_slots t = cm_slots s" "cm_requests t = cm_requests s" "cm_nextSeq t = cm_nextSeq s"
    "cm_failed t = cm_failed s" "cm_closed t = cm_closed s" "cm_registered t = cm_registered s"
    "cm_sendSide t = cm_sendSide s" "cm_recvJournal t = cm_recvJournal s"
    "cm_recvJournalOrder t = cm_recvJournalOrder s"
  using assms by (cases s; cases t; simp add: frame_def)+

lemma frame_evolves: "frame s t \<Longrightarrow> evolves s t"
  by (simp add: evolves_def comm_ok_def frame_cm)

lemma frame_moves: "moves frame m \<Longrightarrow> moves evolves m"
  by (rule movesI) (auto dest: movesD frame_evolves)

lemmas lower_evolves =
  call_frame [THEN frame_moves] call_void_frame [THEN frame_moves] table_op_frame [THEN frame_moves]
  table_op_at_frame [THEN frame_moves] destroy_endpoint_frame [THEN frame_moves]
  create_endpoint_frame [THEN frame_moves] endpoint_info_frame [THEN frame_moves]
  endpoint_to_rtr_rts_frame [THEN frame_moves] post_frame [THEN frame_moves]
  poll_endpoint_frame [THEN frame_moves] refresh_plane_device_frame [THEN frame_moves]
  send_message_frame [THEN frame_moves] recv_message_frame [THEN frame_moves]
  progress_recv_frame [THEN frame_moves] select_frame [THEN frame_moves] mr_for_plane_frame [THEN frame_moves]

section \<open>Updates of one slot\<close>

definition slot_grows :: "qp_slot \<Rightarrow> qp_slot \<Rightarrow> bool" where
  "slot_grows slot slot' \<longleftrightarrow> (slot_ok slot \<longrightarrow> slot_ok slot') \<and> qs_planeId slot' = qs_planeId slot \<and>
     live_generations slot \<subseteq> live_generations slot'"

lemma backed_mono:
  assumes "backed slots req" and "i < length slots" and "slot_grows (slots ! i) slot'"
  shows "backed (slots[i := slot']) req"
  using assms unfolding backed_def slot_grows_def
  by (metis in_set_conv_nth length_list_update nth_list_update_eq nth_list_update_neq subsetD)

lemma put_slot_grows:
  assumes "comm_ok s" and "i < length (cm_slots s)" and "slot_grows (cm_slots s ! i) slot'"
  shows "evolves s (s\<lparr>cm_slots := (cm_slots s)[i := slot']\<rparr>)"
proof -
  have "slot_ok slot'" using assms by (simp add: comm_ok_def slot_grows_def)
  moreover have "map qs_planeId ((cm_slots s)[i := slot']) = map qs_planeId (cm_slots s)"
    using assms by (simp add: map_update slot_grows_def list_update_same_conv)
  ultimately show ?thesis using assms backed_mono [OF _ assms(2,3)]
    by (auto simp: evolves_def comm_ok_def dest!: set_update_subset_insert [THEN subsetD])
qed

text \<open>Programs that run while the slot at an index is known.\<close>

definition at_slot :: "nat \<Rightarrow> qp_slot \<Rightarrow> ('w, 'z) comm_st_scheme \<Rightarrow> ('w, 'z) comm_st_scheme \<Rightarrow> bool" where
  "at_slot i slot s t \<longleftrightarrow> (i < length (cm_slots s) \<and> cm_slots s ! i = slot \<longrightarrow> evolves s t)"

lemma at_slot_moves: "moves evolves m \<Longrightarrow> moves (at_slot i slot) m"
  by (simp add: moves_def at_slot_def)

lemma get_slot_evolves:
  assumes "\<And>slot. slot_ok slot \<Longrightarrow> moves (at_slot i slot) (k slot)"
  shows "moves evolves (seq (get_slot i) k)"
proof (rule movesI)
  fix s x t assume run: "seq (get_slot i) k s = Inr (x, t)"
  then have i: "i < length (cm_slots s)" "k (cm_slots s ! i) s = Inr (x, t)"
    by (auto simp: get_slot_def seq_def split: if_splits)
  show "evolves s t"
  proof (cases "comm_ok s")
    case True
    then have "slot_ok (cm_slots s ! i)" using i by (simp add: comm_ok_def)
    from movesD [OF assms [OF this] i(2)] i(1) show ?thesis by (simp add: at_slot_def)
  qed (simp add: evolves_def)
qed

lemma get_slot_any: "(\<And>slot. moves evolves (k slot)) \<Longrightarrow> moves evolves (seq (get_slot i) k)"
  by (rule get_slot_evolves, rule at_slot_moves)

lemma at_slot_frame_seq:
  assumes "moves frame m" and "\<And>x. moves (at_slot i slot) (k x)"
  shows "moves (at_slot i slot) (seq m k)"
proof (rule movesI)
  fix s y u assume "seq m k s = Inr (y, u)"
  then obtain x t where run: "m s = Inr (x, t)" "k x t = Inr (y, u)" by (rule seq_InrE)
  have "frame s t" using assms(1) run(1) by (rule movesD)
  moreover have "at_slot i slot t u" using assms(2) run(2) by (rule movesD)
  ultimately show "at_slot i slot s u"
    unfolding at_slot_def using evolves_order.trans [OF frame_evolves] by (metis frame_cm(1))
qed

lemma at_slot_seq:
  assumes "moves (at_slot i slot) m" and "\<And>x. moves evolves (k x)"
  shows "moves (at_slot i slot) (seq m k)"
proof (rule movesI)
  fix s y u assume "seq m k s = Inr (y, u)"
  then obtain x t where run: "m s = Inr (x, t)" "k x t = Inr (y, u)" by (rule seq_InrE)
  have "at_slot i slot s t" using assms(1) run(1) by (rule movesD)
  moreover have "evolves t u" using assms(2) run(2) by (rule movesD)
  ultimately show "at_slot i slot s u" unfolding at_slot_def using evolves_order.trans by metis
qed

lemma at_slot_ret: "moves (at_slot i slot) (ret x)"
  by (rule at_slot_moves, rule evolves_order.ret_moves)

lemma put_slot_at:
  assumes grows: "slot_grows slot slot'"
  shows "moves (at_slot i slot) (put_slot i slot')"
proof (rule movesI)
  fix s x t assume "put_slot i slot' s = Inr (x, t)"
  then have t: "t = s\<lparr>cm_slots := (cm_slots s)[i := slot']\<rparr>" by (simp add: put_slot_def modify_def)
  have "evolves s t" if "i < length (cm_slots s)" "cm_slots s ! i = slot"
    using put_slot_grows [of s i slot'] that grows unfolding t by (cases "comm_ok s") (simp_all add: evolves_def)
  then show "at_slot i slot s t" by (simp add: at_slot_def)
qed

lemma update_slot_evolves: "(\<And>slot. slot_ok slot \<Longrightarrow> slot_grows slot (f slot)) \<Longrightarrow> moves evolves (update_slot i f)"
  unfolding update_slot_def by (rule get_slot_evolves) (rule put_slot_at)


text \<open>Functions on a slot that leave its endpoints in service.\<close>

lemma same_endpoints_grow:
  "qs_planeId slot' = qs_planeId slot \<Longrightarrow> qs_active slot' = qs_active slot \<Longrightarrow> qs_retired slot' = qs_retired slot \<Longrightarrow>
   qs_state slot' \<noteq> SlotDraining \<Longrightarrow> qs_state slot' \<noteq> SlotActive \<or> qs_state slot' = qs_state slot \<Longrightarrow> slot_grows slot slot'"
  by (auto simp: slot_grows_def slot_ok_def live_generations_def)

lemma quarantine_grows: "slot_ok slot \<Longrightarrow> slot_grows slot (quarantine slot)"
  by (rule same_endpoints_grow) (auto simp: quarantine_def slot_ok_def)

lemma rebuild_unless_current_grows: "slot_ok slot \<Longrightarrow> slot_grows slot (rebuild_unless_current g slot)"
  by (rule same_endpoints_grow) (auto simp: rebuild_unless_current_def slot_ok_def)

lemma record_cqe_grows: "slot_ok slot \<Longrightarrow> slot_grows slot (record_cqe wrId status slot)"
  by (rule same_endpoints_grow) (auto simp: record_cqe_def slot_ok_def)

lemma shadow_grows: "slot_ok slot \<Longrightarrow> slot_grows slot (slot\<lparr>qs_shadow := shadow\<rparr>)"
  by (rule same_endpoints_grow) (auto simp: slot_ok_def)

lemma reset_probe_grows:
  "slot_ok slot \<Longrightarrow> st = SlotRebuilding \<or> st = SlotReadyPending \<Longrightarrow>
   slot_grows slot ((reset_probe g slot)\<lparr>qs_state := st\<rparr>)"
  by (rule same_endpoints_grow) (auto simp: reset_probe_def slot_ok_def)

lemma swap_shadow_grows:
  "ep_qp (qs_shadow slot) \<noteq> null \<Longrightarrow> ep_ready (qs_shadow slot) \<Longrightarrow> slot_grows slot (swap_shadow slot)"
  by (auto simp: slot_grows_def slot_ok_def swap_shadow_def clear_probe_def reset_probe_def retire_active_def
      live_generations_def)

lemma abort_recovery_grows:
  assumes "abort_recovery env slot s = Inr (slot', t)" and "slot_ok slot"
  shows "slot_grows slot slot'"
proof -
  obtain shadow where "slot' = (let slot = clear_probe (slot\<lparr>qs_shadow := shadow\<rparr>) in
      if qs_state slot = SlotRebuilding \<or> qs_state slot = SlotReadyPending
      then slot\<lparr>qs_state := if ep_qp (qs_active slot) \<noteq> null then SlotQuarantined else SlotDead\<rparr> else slot)"
    using assms(1) unfolding abort_recovery_def by (auto simp: ret_def Let_def elim!: seq_InrE)
  with assms(2) show ?thesis
    by (cases "qs_state slot")
      (simp_all add: same_endpoints_grow Let_def slot_ok_def clear_probe_def reset_probe_def)
qed

lemma abort_recovery_frame: "moves frame (abort_recovery env slot)"
  unfolding abort_recovery_def Let_def by (intro frame_rules destroy_endpoint_frame)

lemma abort_recovery_at_evolves: "moves evolves (abort_recovery_at env i)"
  unfolding abort_recovery_at_def
proof (rule get_slot_evolves)
  fix slot assume ok: "slot_ok slot"
  show "moves (at_slot i slot) (seq (abort_recovery env slot) (put_slot i))"
  proof (rule movesI)
    fix s x t assume "seq (abort_recovery env slot) (put_slot i) s = Inr (x, t)"
    then obtain slot' u where run: "abort_recovery env slot s = Inr (slot', u)" "put_slot i slot' u = Inr (x, t)"
      by (rule seq_InrE)
    have "frame s u" using abort_recovery_frame run(1) by (rule movesD)
    moreover have "at_slot i slot u t"
      using put_slot_at [OF abort_recovery_grows [OF run(1) ok]] run(2) by (rule movesD)
    ultimately show "at_slot i slot s t"
      unfolding at_slot_def using evolves_order.trans [OF frame_evolves] by (metis frame_cm(1))
  qed
qed

section \<open>Updates of requests\<close>

definition request_keeps :: "request \<Rightarrow> request \<Rightarrow> bool" where
  "request_keeps req req' \<longleftrightarrow> rq_index req' = rq_index req \<and>
     (rq_state req' = ReqPosted \<longrightarrow> rq_state req = ReqPosted \<and> rq_planeId req' = rq_planeId req \<and>
        rq_generation req' = rq_generation req)"

lemma request_keeps_simps:
  "rq_state req' \<noteq> ReqPosted \<Longrightarrow> rq_index req' = rq_index req \<Longrightarrow> request_keeps req req'"
  by (simp add: request_keeps_def)

lemma demote_keeps: "request_keeps req (demote req)"
  by (simp add: request_keeps_def demote_def)

lemma set_requests_evolves:
  assumes "length reqs = length (cm_requests s)"
    and "\<And>k. k < length (cm_requests s) \<Longrightarrow> request_keeps (cm_requests s ! k) (reqs ! k)"
  shows "evolves s (s\<lparr>cm_requests := reqs\<rparr>)"
proof -
  have "backed (cm_slots s) (reqs ! k)" if "comm_ok s" "k < length reqs" for k
    using assms that by (simp add: comm_ok_def backed_def request_keeps_def)
  then show ?thesis using assms
    by (auto simp: evolves_def comm_ok_def requests_ok_def request_keeps_def in_set_conv_nth)
qed

lemma put_request_evolves:
  "rq_index req = int k \<Longrightarrow> rq_state req \<noteq> ReqPosted \<Longrightarrow> moves evolves (put_request k req)"
proof (rule movesI)
  fix s x t assume req: "rq_index req = int k" "rq_state req \<noteq> ReqPosted" and "put_request k req s = Inr (x, t)"
  then have t: "t = s\<lparr>cm_requests := (cm_requests s)[k := req]\<rparr>" by (simp add: put_request_def modify_def)
  have "evolves s t" if "comm_ok s" unfolding t
  proof (rule set_requests_evolves)
    fix j assume j: "j < length (cm_requests s)"
    then have "rq_index (cm_requests s ! j) = int j" using that by (simp add: comm_ok_def requests_ok_def)
    with j req show "request_keeps (cm_requests s ! j) ((cm_requests s)[k := req] ! j)"
      by (cases "j = k") (simp_all add: request_keeps_def)
  qed simp
  then show "evolves s t" by (auto simp: evolves_def)
qed

lemma requests_ok_update:
  assumes "requests_ok reqs" and "rq_index req = rq_index (reqs ! k)"
  shows "requests_ok (reqs[k := req])"
  unfolding requests_ok_def
proof (intro conjI allI impI)
  show "length (reqs[k := req]) = NCCL_NET_MAX_REQUESTS" using assms(1) by (simp add: requests_ok_def)
  fix j assume "j < length (reqs[k := req])"
  with assms show "rq_index (reqs[k := req] ! j) = int j" by (cases "j = k") (simp_all add: requests_ok_def)
qed

lemma get_request_evolves:
  assumes "\<And>req. rq_index req = int k \<Longrightarrow> moves evolves (m req)"
  shows "moves evolves (seq (get_request k) m)"
proof (rule movesI)
  fix s x t assume "seq (get_request k) m s = Inr (x, t)"
  then have k: "k < length (cm_requests s)" "m (cm_requests s ! k) s = Inr (x, t)"
    by (auto simp: get_request_def seq_def split: if_splits)
  show "evolves s t"
  proof (cases "comm_ok s")
    case True
    then have "rq_index (cm_requests s ! k) = int k" using k by (simp add: comm_ok_def requests_ok_def)
    from movesD [OF assms [OF this] k(2)] show ?thesis .
  qed (simp add: evolves_def)
qed

lemma update_request_evolves: "(\<And>req. request_keeps req (f req)) \<Longrightarrow> moves evolves (update_request k f)"
proof (rule movesI)
  fix s x t assume f: "\<And>req. request_keeps req (f req)" and "update_request k f s = Inr (x, t)"
  then have t: "t = s\<lparr>cm_requests := (cm_requests s)[k := f (cm_requests s ! k)]\<rparr>"
    by (auto simp: update_request_def get_request_def put_request_def seq_def modify_def split: if_splits)
  show "evolves s t" unfolding t
  proof (rule set_requests_evolves)
    fix j assume "j < length (cm_requests s)"
    with f show "request_keeps (cm_requests s ! j) ((cm_requests s)[k := f (cm_requests s ! k)] ! j)"
      by (cases "j = k") (simp_all add: request_keeps_def)
  qed simp
qed

lemma demote_plane_evolves: "moves evolves (demote_plane planeId)"
  unfolding demote_plane_def
  by (rule evolves_order.modify_moves, rule set_requests_evolves) (auto simp: demote_keeps, auto simp: request_keeps_def)

lemma set_failed_evolves: "moves evolves set_failed"
  unfolding set_failed_def
  by (rule evolves_order.modify_moves) (simp add: evolves_def comm_ok_def comm_fail_def)

lemma evict_short: "length order \<le> kJournalCapacity \<Longrightarrow> evict order journal = (order, journal)"
  by (cases order) simp_all

lemma mark_recv_done_evolves: "moves evolves (mark_recv_done sequence)"
  unfolding mark_recv_done_def
proof (rule evolves_order.modify_moves)
  fix s :: "('w, 'z) comm_st_scheme"
  let ?order = "cm_recvJournalOrder s @ [sequence]" and ?journal = "insert sequence (cm_recvJournal s)"
  have "case evict ?order ?journal of (order, journal) \<Rightarrow> journal_ok order journal" if "comm_ok s"
  proof -
    have ok: "?journal \<subseteq> set ?order" "length ?order \<le> Suc kJournalCapacity"
      using that by (auto simp: comm_ok_def journal_ok_def)
    show ?thesis
    proof (cases "length ?order \<le> kJournalCapacity")
      case True
      with ok show ?thesis by (simp add: evict_short journal_ok_def)
    next
      case False
      then obtain q qs where order: "?order = q # qs" by (cases ?order) auto
      with ok False have "length qs = kJournalCapacity" by simp
      then have "evict ?order ?journal = (qs, ?journal - {q})" using False order by (simp add: evict_short)
      with ok order \<open>length qs = kJournalCapacity\<close> show ?thesis by (auto simp: journal_ok_def)
    qed
  qed
  then show "evolves s (let (order, journal) = evict ?order ?journal
      in s\<lparr>cm_recvJournal := journal, cm_recvJournalOrder := order\<rparr>)"
    by (auto simp: evolves_def comm_ok_def split: prod.splits)
qed


section \<open>Retired endpoints and posting\<close>

text \<open>An endpoint some outstanding request still needs is not destroyed.\<close>

lemma filter_retired_backed:
  assumes "backed slots req" and "req \<in> set reqs" and i: "i < length slots"
  defines "slot' \<equiv> (slots ! i)\<lparr>qs_retired := filter (endpoint_in_use reqs (qs_planeId (slots ! i))) (qs_retired (slots ! i))\<rparr>"
  shows "backed (slots[i := slot']) req"
  unfolding backed_def
proof
  assume posted: "rq_state req = ReqPosted"
  with assms(1) obtain slot where slot: "slot \<in> set slots" "qs_planeId slot = rq_planeId req"
    "rq_generation req \<in> live_generations slot" by (auto simp: backed_def)
  then obtain j where j: "j < length slots" "slots ! j = slot" by (auto simp: in_set_conv_nth)
  show "\<exists>slot \<in> set (slots[i := slot']). qs_planeId slot = rq_planeId req \<and> rq_generation req \<in> live_generations slot"
  proof (cases "j = i")
    case False
    then have "slots[i := slot'] ! j = slot" using j by simp
    with j slot show ?thesis by (metis length_list_update nth_mem)
  next
    case True
    from slot(3) obtain ep where ep: "ep \<in> set (qs_active slot # qs_retired slot)" "ep_qp ep \<noteq> null"
      "ep_generation ep = rq_generation req"
      unfolding live_generations_def by (metis (mono_tags, lifting) imageE mem_Collect_eq)
    then have "endpoint_in_use reqs (qs_planeId (slots ! i)) ep"
      using posted assms(2) slot(2) j True by (auto simp: endpoint_in_use_def outstanding_def)
    with ep j True have "ep \<in> set (qs_active slot' # qs_retired slot')" by (auto simp: slot'_def)
    with ep have "rq_generation req \<in> live_generations slot'"
      using live_generationsI by metis
    moreover have "qs_planeId slot' = rq_planeId req" using slot(2) j True by (simp add: slot'_def)
    moreover have "slot' \<in> set (slots[i := slot'])" using i by (simp add: set_update_memI)
    ultimately show ?thesis by blast
  qed
qed

lemma destroy_retired_if_unused_evolves: "moves evolves (destroy_retired_if_unused env i)"
proof (rule movesI)
  fix s x t assume run: "destroy_retired_if_unused env i s = Inr (x, t)"
  have loop: "moves frame (for_all_do eps (\<lambda>ep. seq (destroy_endpoint env ep) (\<lambda>_. ret ())))" for eps
    by (intro frame_rules destroy_endpoint_frame)
  from run obtain u y where i: "i < length (cm_slots s)"
    and body: "for_all_do (filter (\<lambda>ep. \<not> endpoint_in_use (cm_requests s) (qs_planeId (cm_slots s ! i)) ep)
      (qs_retired (cm_slots s ! i))) (\<lambda>ep. seq (destroy_endpoint env ep) (\<lambda>_. ret ())) s = Inr (y, u)"
    and t: "t = u\<lparr>cm_slots := (cm_slots u)[i := (cm_slots s ! i)\<lparr>qs_retired :=
      filter (endpoint_in_use (cm_requests s) (qs_planeId (cm_slots s ! i))) (qs_retired (cm_slots s ! i))\<rparr>]\<rparr>"
    unfolding destroy_retired_if_unused_def Let_def
    by (elim seq_InrE) (auto simp: get_slot_def gets_def put_slot_def modify_def ret_def split: if_splits)
  have u: "frame s u" using loop body by (rule movesD)
  have "slot_ok (slot\<lparr>qs_retired := eps\<rparr>) = slot_ok slot" for slot eps by (simp add: slot_ok_def)
  then have "evolves u t" unfolding t
    using i frame_cm(1,2) [OF u] filter_retired_backed [of "cm_slots s" _ "cm_requests s" i]
    by (auto simp: evolves_def comm_ok_def map_update list_update_same_conv
        dest!: set_update_subset_insert [THEN subsetD])
  then show "evolves s t" using frame_evolves [OF u] evolves_order.trans by metis
qed

lemma select_from_usable:
  "select_from env slots start is s = Inr (Some i, t) \<Longrightarrow> slots \<noteq> [] \<Longrightarrow>
   i < length slots \<and> (\<exists>plane. selectable (slots ! i) plane)"
proof (induction "is" arbitrary: s)
  case (Cons j js)
  from Cons.prems(1) show ?case
    unfolding select_from.simps Let_def
    using Cons.IH [OF _ Cons.prems(2)] Cons.prems(2)
    by (elim seq_InrE) (auto simp: ret_def split: option.splits if_splits)
qed (simp add: ret_def)

lemma select_usable:
  "select env slots sequence s = Inr (Some i, t) \<Longrightarrow> i < length slots \<and> (\<exists>plane. selectable (slots ! i) plane)"
  unfolding select_def by (auto simp: ret_def split: if_splits dest: select_from_usable)

text \<open>What \<open>postRequest\<close> does: nothing to the communicator if it fails; else the request is posted on the
  active queue pair of a usable slot, and nothing else changes.\<close>

definition posted_on :: "nat \<Rightarrow> qp_slot list \<Rightarrow> request \<Rightarrow> request" where
  "posted_on i slots req = req\<lparr>rq_slotIndex := int i, rq_planeId := qs_planeId (slots ! i),
     rq_generation := ep_generation (qs_active (slots ! i)), rq_state := ReqPosted\<rparr>"

lemma post_request_effect:
  assumes "post_request env k s = Inr (r, t)"
  shows "if r = ncclSuccess
    then \<exists>u i plane. frame s u \<and> k < length (cm_requests s) \<and> i < length (cm_slots s) \<and>
      selectable (cm_slots s ! i) plane \<and>
      t = u\<lparr>cm_requests := (cm_requests s)[k := posted_on i (cm_slots s) (cm_requests s ! k)]\<rparr>
    else frame s t"
proof -
  from assms obtain selected s1 where k: "k < length (cm_requests s)"
    and sel: "select env (cm_slots s) (rq_seq (cm_requests s ! k)) s = Inr (selected, s1)"
    and rest: "(case selected of None \<Rightarrow> ret ncclInvalidUsage | Some i \<Rightarrow>
      let slot = cm_slots s ! i; req = cm_requests s ! k in
      seq (mr_for_plane (rq_mhandle req) (qs_planeId slot)) (\<lambda>mr.
      if mr = null then ret ncclInvalidArgument
      else let wrId = make_wr_id (rq_index req) (ep_generation (qs_active slot)) in
        seq (gets (\<lambda>s. ibv_mr_lkey env mr (world s))) (\<lambda>lkey.
        nccl_check
          (if rq_kind req = ReqSend
           then post_send env (qs_active slot) (rq_data req) (rq_size req) lkey wrId
           else post_recv env (qs_active slot) (rq_data req) (rq_size req) lkey wrId)
          (seq (put_request k (posted_on i (cm_slots s) req)) (\<lambda>_. ret ncclSuccess))))) s1 = Inr (r, t)"
    unfolding post_request_def posted_on_def Let_def
    by (elim seq_InrE) (auto simp: get_request_def gets_def split: if_splits)
  have s1: "frame s s1" using select_frame sel by (rule movesD)
  show ?thesis
  proof (cases selected)
    case None
    with rest s1 show ?thesis by (auto simp: ret_def)
  next
    case (Some i)
    let ?slot = "cm_slots s ! i" and ?req = "cm_requests s ! k"
    from select_usable [OF sel [unfolded Some]] obtain plane where i: "i < length (cm_slots s)" "selectable ?slot plane"
      by blast
    from rest [unfolded Some option.case Let_def] obtain mr s2 where
      mr: "mr_for_plane (rq_mhandle ?req) (qs_planeId ?slot) s1 = Inr (mr, s2)"
      and rest: "(if mr = null then ret ncclInvalidArgument
        else seq (gets (\<lambda>s. ibv_mr_lkey env mr (world s))) (\<lambda>lkey. nccl_check
          (if rq_kind ?req = ReqSend
           then post_send env (qs_active ?slot) (rq_data ?req) (rq_size ?req) lkey
             (make_wr_id (rq_index ?req) (ep_generation (qs_active ?slot)))
           else post_recv env (qs_active ?slot) (rq_data ?req) (rq_size ?req) lkey
             (make_wr_id (rq_index ?req) (ep_generation (qs_active ?slot))))
          (seq (put_request k (posted_on i (cm_slots s) ?req)) (\<lambda>_. ret ncclSuccess)))) s2 = Inr (r, t)"
      by (elim seq_InrE)
    have s2: "frame s s2" using s1 movesD [OF mr_for_plane_frame mr] by (rule frame_order.trans)
    show ?thesis
    proof (cases "mr = null")
      case True
      with rest s2 show ?thesis by (auto simp: ret_def)
    next
      case False
      with rest obtain lkey where post: "nccl_check
          (if rq_kind ?req = ReqSend
           then post_send env (qs_active ?slot) (rq_data ?req) (rq_size ?req) lkey
             (make_wr_id (rq_index ?req) (ep_generation (qs_active ?slot)))
           else post_recv env (qs_active ?slot) (rq_data ?req) (rq_size ?req) lkey
             (make_wr_id (rq_index ?req) (ep_generation (qs_active ?slot))))
          (seq (put_request k (posted_on i (cm_slots s) ?req)) (\<lambda>_. ret ncclSuccess)) s2 = Inr (r, t)"
        by (auto simp: gets_def elim: seq_InrE)
      have posting: "moves frame (if rq_kind ?req = ReqSend
           then post_send env (qs_active ?slot) (rq_data ?req) (rq_size ?req) lkey
             (make_wr_id (rq_index ?req) (ep_generation (qs_active ?slot)))
           else post_recv env (qs_active ?slot) (rq_data ?req) (rq_size ?req) lkey
             (make_wr_id (rq_index ?req) (ep_generation (qs_active ?slot))))"
        by (intro moves_if post_frame)
      from post show ?thesis
      proof (cases rule: nccl_check_InrE)
        case stop
        with movesD [OF posting stop(1)] s2 show ?thesis using frame_order.trans by auto
      next
        case (go u)
        then have "frame s u" using movesD [OF posting go(1)] s2 frame_order.trans by blast
        moreover from go(2) have "r = ncclSuccess \<and>
            t = u\<lparr>cm_requests := (cm_requests u)[k := posted_on i (cm_slots s) ?req]\<rparr>"
          by (auto simp: put_request_def modify_def ret_def elim!: seq_InrE)
        ultimately show ?thesis using k i frame_cm(2) [OF \<open>frame s u\<close>] by auto
      qed
    qed
  qed
qed

lemma post_request_evolves: "moves evolves (post_request env k)"
proof (rule movesI)
  fix s r t assume "post_request env k s = Inr (r, t)"
  note effect = post_request_effect [OF this]
  show "evolves s t"
  proof (cases "r = ncclSuccess")
    case False
    with effect show ?thesis by (simp add: frame_evolves)
  next
    case True
    with effect obtain u i plane where u: "frame s u" "k < length (cm_requests s)" "i < length (cm_slots s)"
      "selectable (cm_slots s ! i) plane"
      and t: "t = u\<lparr>cm_requests := (cm_requests s)[k := posted_on i (cm_slots s) (cm_requests s ! k)]\<rparr>" by auto
    have "ep_generation (qs_active (cm_slots s ! i)) \<in> live_generations (cm_slots s ! i)"
      using u(4) by (intro live_generationsI) (simp_all add: selectable_def)
    then have "backed (cm_slots s) (posted_on i (cm_slots s) (cm_requests s ! k))"
      using u(3) by (auto simp: backed_def posted_on_def)
    moreover have "requests_ok (cm_requests s) \<Longrightarrow>
        requests_ok ((cm_requests s)[k := posted_on i (cm_slots s) (cm_requests s ! k)])"
      by (rule requests_ok_update) (simp_all add: posted_on_def)
    ultimately show ?thesis unfolding t
      by (auto simp: evolves_def comm_ok_def frame_cm [OF u(1)] dest!: set_update_subset_insert [THEN subsetD])
  qed
qed


section \<open>Control messages\<close>

lemma get_slot_moves: "moves evolves (get_slot i)"
  by (rule movesI) (auto simp: get_slot_def evolves_order.refl split: if_splits)

lemma get_request_moves: "moves evolves (get_request k)"
  by (rule movesI) (auto simp: get_request_def evolves_order.refl split: if_splits)

lemmas comm_rules =
  evolves_order.rules lower_evolves get_slot_moves get_request_moves abort_recovery_at_evolves
  demote_plane_evolves set_failed_evolves mark_recv_done_evolves destroy_retired_if_unused_evolves
  post_request_evolves

lemma for_slots_of_plane_evolves: "(\<And>i. moves evolves (body i)) \<Longrightarrow> moves evolves (for_slots_of_plane planeId body)"
  unfolding for_slots_of_plane_def by (intro comm_rules)

lemma update_slot_rules:
  "moves evolves (update_slot i quarantine)"
  "moves evolves (update_slot i (rebuild_unless_current g))"
  "moves evolves (update_slot i (record_cqe wrId status))"
  "moves evolves (update_slot i (\<lambda>slot. slot\<lparr>qs_shadow := shadow\<rparr>))"
  "moves evolves (update_slot i (\<lambda>slot. (reset_probe g slot)\<lparr>qs_state := SlotRebuilding\<rparr>))"
  "moves evolves (update_slot i (\<lambda>slot. (reset_probe g slot)\<lparr>qs_state := SlotReadyPending\<rparr>))"
  by (intro update_slot_evolves quarantine_grows rebuild_unless_current_grows record_cqe_grows shadow_grows
      reset_probe_grows; simp)+

lemma on_plane_broken_evolves: "moves evolves (on_plane_broken env planeId g)"
  unfolding on_plane_broken_def by (intro for_slots_of_plane_evolves comm_rules update_slot_rules)

lemma on_plane_recovering_evolves: "moves evolves (on_plane_recovering env planeId g)"
  unfolding on_plane_recovering_def by (intro for_slots_of_plane_evolves comm_rules update_slot_rules)

lemma send_plane_event_evolves: "moves evolves (send_plane_event env planeId g recovered)"
  unfolding send_plane_event_def by (intro comm_rules)

lemma mark_local_plane_broken_evolves: "moves evolves (mark_local_plane_broken_from_cq env i)"
  unfolding mark_local_plane_broken_from_cq_def
  by (intro for_slots_of_plane_evolves comm_rules update_slot_rules send_plane_event_evolves)

lemma wait_for_internal_probe_evolves: "moves evolves (wait_for_internal_probe env i kind g ms)"
  unfolding wait_for_internal_probe_def probe_step_def record_internal_cqe_def
  by (intro comm_rules update_slot_rules)

lemma ensure_recovery_shadow_evolves: "moves evolves (ensure_recovery_shadow env i g)"
  unfolding ensure_recovery_shadow_def
proof (rule get_slot_evolves)
  fix slot assume ok: "slot_ok slot"
  have "moves (at_slot i slot) (if ep_qp (qs_shadow slot) \<noteq> null \<and> ep_generation (qs_shadow slot) \<noteq> g
      then seq (destroy_endpoint env (qs_shadow slot)) (\<lambda>shadow. put_slot i (slot\<lparr>qs_shadow := shadow\<rparr>)) else ret ())"
    by (intro moves_if at_slot_frame_seq destroy_endpoint_frame put_slot_at shadow_grows ok at_slot_ret)
  then show "moves (at_slot i slot) (seq (if ep_qp (qs_shadow slot) \<noteq> null \<and> ep_generation (qs_shadow slot) \<noteq> g
      then seq (destroy_endpoint env (qs_shadow slot)) (\<lambda>shadow. put_slot i (slot\<lparr>qs_shadow := shadow\<rparr>)) else ret ()) (\<lambda>_.
     seq (get_slot i) (\<lambda>slot.
     if ep_qp (qs_shadow slot) \<noteq> null then ret ncclSuccess
     else seq (gets devices) (\<lambda>ds.
       case find_plane_device ds (qs_planeId slot) of
         None \<Rightarrow> ret ncclInternalError
       | Some d \<Rightarrow>
           nccl_check (refresh_plane_device env (Some d))
             (seq (create_endpoint env (Some d) g) (\<lambda>(r, shadow).
             seq (update_slot i (\<lambda>slot. slot\<lparr>qs_shadow := shadow\<rparr>)) (\<lambda>_.
             if r \<noteq> ncclSuccess then ret r
             else seq (update_slot i (\<lambda>slot. (reset_probe g slot)\<lparr>qs_state := SlotRebuilding\<rparr>))
                    (\<lambda>_. ret ncclSuccess))))))))"
    by (rule at_slot_seq) (intro comm_rules update_slot_rules)
qed

lemma commit_shadow_evolves: "moves evolves (commit_shadow env planeId g)"
  unfolding commit_shadow_def
proof (rule evolves_order.seq_moves [OF evolves_order.gets_moves], rule moves_option, rule evolves_order.ret_moves,
    rule get_slot_evolves)
  fix i slot assume "slot_ok slot"
  show "moves (at_slot i slot)
     (if ep_qp (qs_shadow slot) = null \<or> \<not> ep_ready (qs_shadow slot) \<or> ep_generation (qs_shadow slot) \<noteq> g
      then ret ncclInternalError
      else if \<not> probe_passed g slot then ret ncclInternalError
      else seq (put_slot i (swap_shadow slot)) (\<lambda>_. seq (destroy_retired_if_unused env i) (\<lambda>_. ret ncclSuccess)))"
    by (intro moves_if at_slot_ret at_slot_seq put_slot_at swap_shadow_grows comm_rules) auto
qed


lemma mark_healthy_evolves: "moves evolves (mark_healthy_after_recovery env planeId g)"
  unfolding mark_healthy_after_recovery_def by (intro comm_rules)

lemma repost_recv_evolves: "moves evolves (repost_recv_for_seq env sequence)"
  unfolding repost_recv_for_seq_def
  by (intro evolves_order.seq_moves [OF evolves_order.gets_moves] moves_option get_request_evolves comm_rules
      put_request_evolves) simp_all

lemma handle_query_evolves: "moves evolves (handle_query env msg)"
  unfolding handle_query_def Let_def by (intro comm_rules repost_recv_evolves)

lemma handle_recovery_req_evolves: "moves evolves (handle_recovery_req env msg)"
  unfolding handle_recovery_req_def Let_def send_ignoring_def
  by (intro comm_rules update_slot_rules ensure_recovery_shadow_evolves)

lemma handle_recovery_ready_evolves: "moves evolves (handle_recovery_ready env msg)"
  unfolding handle_recovery_ready_def Let_def send_ignoring_def table_get_def
  by (intro comm_rules update_slot_rules wait_for_internal_probe_evolves commit_shadow_evolves mark_healthy_evolves)

lemma handle_plane_event_evolves: "moves evolves (handle_plane_event env msg)"
  unfolding handle_plane_event_def Let_def
  by (intro for_slots_of_plane_evolves comm_rules update_slot_rules)

lemma handle_control_evolves: "moves evolves (handle_control env msg)"
  unfolding handle_control_def
  by (intro comm_rules handle_plane_event_evolves handle_query_evolves handle_recovery_req_evolves
      handle_recovery_ready_evolves)

lemma query_remote_evolves: "moves evolves (query_remote env sequence)"
proof -
  have "moves evolves (query_rounds env sequence n)" for n
    by (induction n) (auto intro!: comm_rules handle_control_evolves split: option.split)
  then show ?thesis unfolding query_remote_def by (intro comm_rules)
qed

section \<open>Progress\<close>

lemma handle_completion_evolves: "moves evolves (handle_completion env i role wc)"
proof -
  have "moves evolves (case classify_cq_status (wc_status wc) current of
      CqSuccess \<Rightarrow> seq (put_request k (req\<lparr>rq_completedSize := n, rq_state := ReqDone\<rparr>)) (\<lambda>_.
        seq (if rq_kind req = ReqRecv then mark_recv_done (rq_seq req) else ret ()) (\<lambda>_.
        seq (destroy_retired_if_unused env i) (\<lambda>erased. ret (ncclSuccess, erased))))
    | StaleNonFatal \<Rightarrow> seq (put_request k (demote req)) (\<lambda>_.
        seq (destroy_retired_if_unused env i) (\<lambda>erased. ret (ncclSuccess, erased)))
    | TransportRecoverable \<Rightarrow> seq (mark_local_plane_broken_from_cq env i) (\<lambda>r.
        if r \<noteq> ncclSuccess then ret (r, None)
        else seq (update_request k demote) (\<lambda>_. ret (ncclSuccess, None)))
    | RequestFatal \<Rightarrow> seq (put_request k (req\<lparr>rq_state := ReqFailed\<rparr>)) (\<lambda>_.
        seq set_failed (\<lambda>_. ret (ncclSystemError, None))))" if "rq_index req = int k" for req current k n
    using that by (cases "classify_cq_status (wc_status wc) current")
      (auto intro!: comm_rules put_request_evolves update_request_evolves mark_local_plane_broken_evolves
        demote_keeps simp: demote_def)
  then show ?thesis
    unfolding handle_completion_def Let_def record_internal_cqe_def
    by (intro moves_if evolves_order.seq_moves [OF update_slot_rules(3)] evolves_order.ret_moves
      get_request_evolves evolves_order.seq_moves [OF get_slot_moves])
qed

lemma handle_completions_evolves: "moves evolves (handle_completions env i role wcs flags)"
proof (induction wcs arbitrary: flags)
  case (Cons wc wcs)
  show ?case unfolding handle_completions.simps by (intro comm_rules handle_completion_evolves Cons.IH)
qed (simp add: evolves_order.ret_moves)

lemma poll_checked_evolves: "moves evolves (poll_checked env i role)"
proof -
  have "moves evolves (poll_round env i role flags)" for flags
    unfolding poll_round_def endpoint_at_def
    by (auto intro!: comm_rules handle_completions_evolves split: polled_role.split)
  then have "moves evolves (poll_one env i role)" unfolding poll_one_def by (intro comm_rules)
  then show ?thesis unfolding poll_checked_def by (cases role; simp only: polled_role.case; intro comm_rules)
qed

lemma progress_cqs_evolves: "moves evolves (progress_cqs env)"
  unfolding progress_cqs_def by (intro comm_rules poll_checked_evolves)

lemma progress_control_evolves: "moves evolves (progress_control env)"
proof -
  have "moves evolves (control_rounds env n)" for n
    by (induction n) (auto intro!: comm_rules handle_control_evolves split: option.split)
  then show ?thesis unfolding progress_control_def by (intro comm_rules)
qed

lemma replay_progress_evolves: "moves evolves (replay_progress env k)"
  unfolding replay_progress_def replay_query_def replay_post_def
  by (intro comm_rules update_request_evolves query_remote_evolves) (auto simp: request_keeps_def)

lemma recover_slot_evolves: "moves evolves (recover_slot env i)"
  unfolding recover_slot_def recovery_connect_def recovery_commit_def await_msg_def await_step_def table_get_def Let_def
  by (intro comm_rules update_slot_rules ensure_recovery_shadow_evolves wait_for_internal_probe_evolves
      commit_shadow_evolves mark_healthy_evolves handle_control_evolves)

lemma comm_progress_evolves: "moves evolves (comm_progress env)"
  unfolding comm_progress_def progress_recovery_def
  by (intro comm_rules progress_control_evolves progress_cqs_evolves replay_progress_evolves recover_slot_evolves)

end
