(* ===== verification/CommSamples.thy ===== *)
theory CommSamples
  imports CommInvariant SampleWorld
begin

text \<open>
  A communicator on one adapter, in the scripted world of \<open>SampleWorld\<close> with a socket that takes all it
  is given and has nothing to deliver: how it comes out of the accepting handshake, and the first
  message sent on it.  The concrete runs of the communicator's properties start here.
\<close>

section \<open>Nothing to do\<close>

lemma for_each_skip:
  "(\<And>x. x \<in> set xs \<Longrightarrow> body x s = Inr (ncclSuccess, s)) \<Longrightarrow> for_each xs body s = Inr (ncclSuccess, s)"
  by (induction xs) (simp_all add: prog_simps)

lemma replay_idle:
  "k < length (cm_requests s) \<Longrightarrow> \<not> outstanding (cm_requests s ! k) \<Longrightarrow> replay_progress env k s = Inr (ncclSuccess, s)"
  by (cases "rq_state (cm_requests s ! k)") (simp_all add: replay_progress_def outstanding_def get_request_def prog_simps)

lemma replay_all_idle:
  "\<not> has_outstanding s \<Longrightarrow> for_each [0..<length (cm_requests s)] (replay_progress env) s = Inr (ncclSuccess, s)"
  by (rule for_each_skip, rule replay_idle) (auto simp: has_outstanding_def)

section \<open>The communicator\<close>

definition quick_env :: "sample_world env" where
  "quick_env = sample_env\<lparr>env_fuel := 3, sys_poll := (\<lambda>fd ms w. (PollTimeout, w)),
     sys_send := (\<lambda>fd bs w. (Sent (length bs), w))\<rparr>"

definition sample_device :: plane_device where
  "sample_device = default_plane_device\<lparr>pd_context := 5, pd_pd := 6, pd_portAttr := sample_port\<rparr>"

definition sample_comm :: "sample_world comm_st" where
  "sample_comm =
     \<lparr>world = start_world\<lparr>sw_next := 102\<rparr>, psn_seed = 12345, devices = [sample_device],
      mr_heap = [Some \<lparr>mr_base = 0, mr_size = 4096, mr_type = 1, mr_planeMrs = [77]\<rparr>],
      planes = [default_snapshot], peer_fd = 3, peer_rx = [], cm_registered = True, cm_sendSide = False,
      cm_closed = False, cm_failed = False,
      cm_slots = [default_slot\<lparr>qs_state := SlotActive, qs_active := \<lparr>ep_device = Some 0, ep_cq = 100, ep_qp = 101,
         ep_generation = 1, ep_psn = 12345, ep_ready = True\<rparr>\<rparr>],
      cm_requests = initial_requests, cm_nextSeq = 1, cm_recvJournal = {}, cm_recvJournalOrder = []\<rparr>"

lemmas world_samples = quick_env_def sample_env_def start_world_def fresh_def verdict_def

lemma initial_requests_free:
  "k < 32 \<Longrightarrow> initial_requests ! k = default_request\<lparr>rq_index := int k\<rparr>" "length initial_requests = 32"
  by (simp_all add: initial_requests_def NCCL_NET_MAX_REQUESTS_def)

lemma initial_idle: "\<not> (\<exists>req \<in> set initial_requests. outstanding req)"
  by (auto simp: initial_requests_def default_request_def outstanding_def)

lemma pop_short: "length (peer_rx s) < msg_size \<Longrightarrow> pop_message s = Inr ((ncclSuccess, None), s)"
  by (simp add: pop_message_def prog_simps)

lemma quiet_control:
  assumes "0 \<le> peer_fd s" "peer_rx s = []"
  shows "progress_control quick_env s = Inr (ncclSuccess, s)"
proof -
  have "progress_recv quick_env s = Inr ((ncclSuccess, None), s)"
    using assms by (simp add: progress_recv_def pop_short prog_simps msg_size_def read_available_def poll_step_def
       kMaxPlanes_def kControlTextBytes_def
      numeral_3_eq_3 world_samples)
  then show ?thesis using assms by (simp add: progress_control_def kControlProgressBudget_def prog_simps numeral_eq_Suc)
qed

lemma sample_progress: "comm_progress quick_env sample_comm = Inr (ncclSuccess, sample_comm)"
proof -
  have ctl: "progress_control quick_env sample_comm = Inr (ncclSuccess, sample_comm)"
    by (rule quiet_control) (simp_all add: sample_comm_def)
  have cqs: "progress_cqs quick_env sample_comm = Inr (ncclSuccess, sample_comm)"
    by (simp add: progress_cqs_def poll_checked_def poll_one_def poll_round_def endpoint_at_def poll_endpoint_def
      get_slot_def prog_simps sample_comm_def default_slot_def default_endpoint_def numeral_3_eq_3 world_samples)
  have rep: "for_each [0..<length (cm_requests sample_comm)] (replay_progress quick_env) sample_comm = Inr (ncclSuccess, sample_comm)"
    by (rule replay_all_idle) (use initial_idle in \<open>auto simp: has_outstanding_def sample_comm_def\<close>)
  have rec: "progress_recovery quick_env sample_comm = Inr (ncclSuccess, sample_comm)"
    by (simp add: progress_recovery_def recover_slot_def prog_simps get_slot_def table_get_def table_op_def apply_ops_def
       sample_comm_def default_slot_def default_snapshot_def plane_get_def find_plane_def world_samples Let_def
       plane_allows_qp_recovery_def slot_at_generation_def)
  show ?thesis by (simp add: comm_progress_def prog_simps ctl cqs rep rec) (simp add: sample_comm_def)
qed


text \<open>The first message sent on it.\<close>

definition posted_comm :: "sample_world comm_st" where
  "posted_comm = sample_comm\<lparr>cm_nextSeq := 2, cm_requests := initial_requests[0 := default_request\<lparr>rq_index := 0,
     rq_state := ReqPosted, rq_seq := 1, rq_slotIndex := 0, rq_planeId := 0, rq_generation := 1, rq_data := 0x1000,
     rq_size := 64, rq_mhandle := 1\<rparr>]\<rparr>"

lemma posted_run: "comm_isend quick_env 0x1000 64 0 1 sample_comm = Inr ((ncclSuccess, Some 0), posted_comm)"
proof -
  have alloc: "find_index reusable initial_requests = Some 0"
    by (simp add: find_index_Some_iff initial_requests_free reusable_def default_request_def)
  have room: "0 < length initial_requests" by (simp add: initial_requests_free)
  have idle: "\<not> has_outstanding sample_comm" using initial_idle by (simp add: has_outstanding_def sample_comm_def)
  show ?thesis
    using room
    by (simp add: comm_isend_def submit_def prog_simps sample_progress kMaxPluginBytes_def idle)
      (simp add: sample_comm_def posted_comm_def alloc_request_def alloc prog_simps put_request_def update_request_def get_request_def
       post_request_def select_def table_get_def table_op_def apply_ops_def default_slot_def default_snapshot_def plane_get_def find_plane_def
       selectable_def mr_for_plane_def deref_mr_def post_send_def sample_device_def default_plane_device_def default_request_def UINT32_MAX_def Let_def world_samples)
qed

lemma sample_isend:
  "\<exists>t. comm_isend quick_env 0x1000 64 0 1 sample_comm = Inr ((ncclSuccess, Some 0), t) \<and>
     rq_state (cm_requests t ! 0) = ReqPosted"
  using posted_run by (simp add: posted_comm_def sample_comm_def initial_requests_free)


definition sample_peer_qp :: wire_qp_info where
  "sample_peer_qp = default_qp_info\<lparr>wq_generation := 1, wq_qpn := 9, wq_lid := 4, wq_mtu := 3\<rparr>"

lemma quick_send: "0 \<le> peer_fd s \<Longrightarrow> send_message quick_env msg s = Inr (ncclSuccess, s)"
  by (simp add: send_message_def send_all_def send_step_def prog_simps numeral_3_eq_3 world_samples)

lemma one_le_eight: "(1 :: u32) \<le> 8"
  by simp

lemma sample_accept:
  "init_from_accepted_fd quick_env 3 (with_qp sample_peer_qp (make_message InitReq))
     (new_comm False (sample_comm\<lparr>world := start_world, psn_seed := 0\<rparr>)) = Inr (ncclSuccess, sample_comm)"
proof -
  let ?s = "new_comm False (sample_comm\<lparr>world := start_world, psn_seed := 0\<rparr>)"
  have 1: "peer_reset quick_env 3 ?s = Inr ((), ?s\<lparr>peer_fd := 3\<rparr>)"
    by (simp add: peer_reset_def peer_close_def prog_simps new_comm_def)
  have 2: "create_initial_slots quick_env (?s\<lparr>peer_fd := 3\<rparr>) = Inr (ncclSuccess, sample_comm\<lparr>cm_registered := False, cm_slots :=
     map (\<lambda>slot. slot\<lparr>qs_state := SlotRebuilding, qs_active := (qs_active slot)\<lparr>ep_ready := False\<rparr>\<rparr>) (cm_slots sample_comm)\<rparr>)"
    by (simp add: create_initial_slots_def prog_simps new_comm_def sample_comm_def sample_device_def default_plane_device_def
      create_endpoint_def table_op_def apply_ops_def world_samples next_psn_def deref_device_def default_slot_def
      default_endpoint_def default_snapshot_def plane_generation_of_def plane_get_def find_plane_def Let_def)
  have 3: "import_remote_qps quick_env (with_qp sample_peer_qp (make_message InitReq)) (sample_comm\<lparr>cm_registered := False, cm_slots :=
     map (\<lambda>slot. slot\<lparr>qs_state := SlotRebuilding, qs_active := (qs_active slot)\<lparr>ep_ready := False\<rparr>\<rparr>) (cm_slots sample_comm)\<rparr>)
     = Inr (ncclSuccess, sample_comm\<lparr>cm_registered := False\<rparr>)"
    using one_le_eight
    by (simp add: import_remote_qps_def valid_message_def with_qp_def make_message_def default_msg_def prog_simps kMaxPlanes_def
      sample_peer_qp_def default_qp_info_def sample_comm_def find_slot_by_plane_def default_slot_def get_slot_def
      update_slot_def put_slot_def endpoint_to_rtr_rts_def deref_device_def world_samples sample_device_def
      default_plane_device_def valid_qp_info_def Let_def sample_port_def numeral_eq_Suc)
  have 4: "\<exists>msg. export_qps quick_env InitResp (sample_comm\<lparr>cm_registered := False\<rparr>) =
      Inr ((ncclSuccess, msg), sample_comm\<lparr>cm_registered := False\<rparr>)"
    by (simp add: export_qps_def prog_simps sample_comm_def endpoint_info_def deref_device_def sample_device_def Let_def
      default_slot_def kMaxPlanes_def world_samples)
  then obtain msg where msg: "export_qps quick_env InitResp (sample_comm\<lparr>cm_registered := False\<rparr>) =
      Inr ((ncclSuccess, msg), sample_comm\<lparr>cm_registered := False\<rparr>)" by blast
  have "0 \<le> peer_fd (sample_comm\<lparr>cm_registered := False\<rparr>)" "sample_comm\<lparr>cm_registered := True\<rparr> = sample_comm"
    by (simp_all add: sample_comm_def)
  then show ?thesis
    by (simp add: init_from_accepted_fd_def prog_simps 1 2 3 msg quick_send register_comm_def)
qed

end
