(* ===== verification/CommReach.thy ===== *)
theory CommReach
  imports CommSamples
begin

text \<open>
  The life of a communicator: set up by one of the two handshakes, then any sequence of the
  transport's operations, plane events delivered by the context, and changes other threads make to
  the state all communicators share.  Every state it goes through satisfies \<open>comm_ok\<close>.
\<close>

lemma evolves_keeps: "moves evolves m \<Longrightarrow> moves (kept comm_ok) m"
  by (auto simp: moves_def evolves_def kept_def)

section \<open>Set-up\<close>

text \<open>During set-up no request is in use, and queue pairs may be replaced freely.\<close>

definition idle :: "('w, 'z) comm_st_scheme \<Rightarrow> bool" where
  "idle s \<longleftrightarrow> comm_ok s \<and> (\<forall>req \<in> set (cm_requests s). rq_state req \<noteq> ReqPosted)"

lemma idle_frame: "frame s t \<Longrightarrow> idle t = idle s"
  by (simp add: idle_def comm_ok_def frame_cm)

lemma frame_idle: "moves frame m \<Longrightarrow> moves (kept idle) m"
  by (auto simp: moves_def kept_def dest: idle_frame)

lemma idle_set_slots: "idle s \<Longrightarrow> (\<And>slot. slot \<in> set slots \<Longrightarrow> slot_ok slot) \<Longrightarrow> idle (s\<lparr>cm_slots := slots\<rparr>)"
  by (auto simp: idle_def comm_ok_def backed_def)

lemma idle_put_slot: "idle s \<Longrightarrow> slot_ok slot \<Longrightarrow> idle (s\<lparr>cm_slots := (cm_slots s)[i := slot]\<rparr>)"
  by (rule idle_set_slots) (auto simp: idle_def comm_ok_def dest!: set_update_subset_insert [THEN subsetD])

lemma new_comm_idle: "idle (new_comm sendSide s)"
  by (simp add: idle_def comm_ok_def new_comm_def initial_requests_def requests_ok_def default_request_def
      backed_def journal_ok_def)

lemma create_slots_idle: "moves (kept idle) (create_slots env index ds)"
proof (induction ds arbitrary: index)
  case Nil
  show ?case by (simp add: kept_order.ret_moves)
next
  case (Cons device rest)
  have "moves (kept idle) (modify (\<lambda>s. s\<lparr>cm_slots := cm_slots s @
      [default_slot\<lparr>qs_planeId := pd_planeId device, qs_planeIndex := int index,
         qs_state := SlotRebuilding, qs_active := active\<rparr>]\<rparr>))" for active
    by (rule kept_order.modify_moves)
      (auto simp: kept_def idle_def comm_ok_def slot_ok_def default_slot_def backed_def)
  then show ?case unfolding create_slots.simps
    by (intro kept_order.rules frame_idle [OF table_op_frame] frame_idle [OF create_endpoint_frame] Cons.IH)
qed

lemma create_initial_slots_idle: "moves (kept idle) (create_initial_slots env)"
  unfolding create_initial_slots_def
  by (intro kept_order.rules create_slots_idle)
    (rule kept_order.modify_moves, auto simp: kept_def intro: idle_set_slots)

lemma export_qps_idle: "moves (kept idle) (export_qps env type)"
proof -
  have "moves (kept idle) (export_infos env slots)" for slots
    by (induction slots) (auto intro!: kept_order.rules frame_idle [OF endpoint_info_frame])
  then show ?thesis unfolding export_qps_def Let_def by (intro kept_order.rules)
qed

lemma endpoint_to_rtr_rts_result:
  "endpoint_to_rtr_rts env ep remote s = Inr ((r, ep'), t) \<Longrightarrow>
   if r = ncclSuccess then ep' = ep\<lparr>ep_ready := True\<rparr> \<and> ep_qp ep \<noteq> null else ep' = ep"
  unfolding endpoint_to_rtr_rts_def by (auto simp: ret_def crash_def elim!: seq_InrE split: if_splits)

text \<open>One round of the import: the state in which it leaves the function or goes on.\<close>

lemma import_round_idle:
  assumes ok: "idle s" and i: "i < length (cm_slots s)"
    and ready: "endpoint_to_rtr_rts env (qs_active (cm_slots s ! i)) info s = Inr ((r, active), u)"
  shows "idle (u\<lparr>cm_slots := (cm_slots u)[i := (cm_slots u ! i)\<lparr>qs_active := active\<rparr>]\<rparr>)"
    and "r = ncclSuccess \<Longrightarrow> idle (u\<lparr>cm_slots := (cm_slots u)[i := (cm_slots u ! i)\<lparr>qs_active := active, qs_state := SlotActive\<rparr>]\<rparr>)"
proof -
  have frame: "frame s u" using endpoint_to_rtr_rts_frame ready by (rule movesD)
  then have u: "idle u" "cm_slots u = cm_slots s"
    using ok by (simp_all add: idle_def comm_ok_def frame_cm)
  have slot: "slot_ok (cm_slots s ! i)" using ok i by (simp add: idle_def comm_ok_def)
  note result = endpoint_to_rtr_rts_result [OF ready]
  show "idle (u\<lparr>cm_slots := (cm_slots u)[i := (cm_slots u ! i)\<lparr>qs_active := active\<rparr>]\<rparr>)"
    using result slot u by (intro idle_put_slot) (auto simp: slot_ok_def split: if_splits)
  show "idle (u\<lparr>cm_slots := (cm_slots u)[i := (cm_slots u ! i)\<lparr>qs_active := active, qs_state := SlotActive\<rparr>]\<rparr>)"
    if "r = ncclSuccess"
    using result u that by (intro idle_put_slot) (auto simp: slot_ok_def)
qed


lemma import_infos_idle: "import_infos env infos s = Inr (r, t) \<Longrightarrow> idle s \<Longrightarrow> idle t"
proof (induction infos arbitrary: s)
  case Nil
  then show ?case by (simp add: ret_def)
next
  case (Cons info infos)
  show ?case
  proof (cases "find_slot_by_plane (cm_slots s) (sint (wq_planeId info))")
    case None
    with Cons.prems show ?thesis by (simp add: seq_def gets_def ret_def)
  next
    case (Some i)
    then have i: "i < length (cm_slots s)" unfolding find_slot_by_plane_def using find_index_SomeD by blast
    let ?slot = "cm_slots s ! i"
    show ?thesis
    proof (cases "ep_generation (qs_active ?slot) \<noteq> wq_generation info")
      case True
      with Cons.prems Some i show ?thesis by (simp add: seq_def gets_def ret_def get_slot_def)
    next
      case False
      with Cons.prems(1) Some i have "seq (endpoint_to_rtr_rts env (qs_active ?slot) info) (\<lambda>(r, active).
          seq (update_slot i (\<lambda>slot. slot\<lparr>qs_active := active\<rparr>)) (\<lambda>_.
          if r \<noteq> ncclSuccess then ret r
          else seq (update_slot i (\<lambda>slot. slot\<lparr>qs_state := SlotActive\<rparr>)) (\<lambda>_. import_infos env infos))) s = Inr (r, t)"
        by (simp add: prog_simps get_slot_def)
      then obtain r1 active u where
        ready: "endpoint_to_rtr_rts env (qs_active ?slot) info s = Inr ((r1, active), u)"
        and rest: "seq (update_slot i (\<lambda>slot. slot\<lparr>qs_active := active\<rparr>)) (\<lambda>_.
           if r1 \<noteq> ncclSuccess then ret r1
           else seq (update_slot i (\<lambda>slot. slot\<lparr>qs_state := SlotActive\<rparr>)) (\<lambda>_. import_infos env infos)) u = Inr (r, t)"
        by (elim seq_InrE) auto
      have "frame s u" using endpoint_to_rtr_rts_frame ready by (rule movesD)
      then have iu: "i < length (cm_slots u)" using i by (simp add: frame_cm)
      note round = import_round_idle [OF Cons.prems(2) i ready]
      show ?thesis
      proof (cases "r1 = ncclSuccess")
        case False
        with rest iu have "t = u\<lparr>cm_slots := (cm_slots u)[i := (cm_slots u ! i)\<lparr>qs_active := active\<rparr>]\<rparr>"
          by (auto simp: update_slot_def get_slot_def put_slot_def modify_def ret_def elim!: seq_InrE)
        with round(1) show ?thesis by simp
      next
        case True
        with rest iu have "import_infos env infos
            (u\<lparr>cm_slots := (cm_slots u)[i := (cm_slots u ! i)\<lparr>qs_active := active, qs_state := SlotActive\<rparr>]\<rparr>) = Inr (r, t)"
          by (auto simp: update_slot_def get_slot_def put_slot_def modify_def ret_def elim!: seq_InrE)
        then show ?thesis using Cons.IH round(2) [OF True] by blast
      qed
    qed
  qed
qed

lemma import_remote_qps_idle: "moves (kept idle) (import_remote_qps env msg)"
  unfolding import_remote_qps_def
  by (intro kept_order.rules) (auto simp: moves_def kept_def dest: import_infos_idle)

lemma register_comm_idle: "moves (kept idle) register_comm"
  unfolding register_comm_def by (rule kept_order.modify_moves) (simp add: kept_def idle_def comm_ok_def)

lemma tcp_connect_frame: "moves frame (tcp_connect env handle)"
  unfolding tcp_connect_def by (intro frame_rules)

lemmas set_up_rules =
  kept_order.rules frame_idle [OF tcp_connect_frame] frame_idle [OF peer_reset_frame]
  frame_idle [OF send_message_frame] frame_idle [OF recv_message_frame]
  create_initial_slots_idle export_qps_idle import_remote_qps_idle register_comm_idle

lemma init_as_connector_idle: "moves (kept idle) (init_as_connector env handle)"
  unfolding init_as_connector_def by (intro set_up_rules)

lemma init_from_accepted_fd_idle: "moves (kept idle) (init_from_accepted_fd env fd msg)"
  unfolding init_from_accepted_fd_def by (intro set_up_rules)

section \<open>The operations of the transport\<close>

lemma alloc_request_evolves: "moves evolves alloc_request"
  unfolding alloc_request_def by (intro comm_rules put_request_evolves) (simp_all add: default_request_def)

lemma comm_iflush_evolves: "moves evolves (comm_iflush n sz)"
  unfolding comm_iflush_def
  by (intro comm_rules alloc_request_evolves update_request_evolves) (simp add: request_keeps_def)

lemma comm_test_evolves: "moves evolves (comm_test env request)"
  unfolding comm_test_def
  by (intro evolves_order.seq_moves [OF comm_progress_evolves] moves_if evolves_order.ret_moves moves_option
      get_request_evolves evolves_order.seq_moves [OF put_request_evolves]) simp_all

lemma submit_keeps: "moves (kept comm_ok) (submit env kind data sz tag mhandle)"
proof -
  have next_seq: "moves (kept comm_ok) (modify (\<lambda>s. s\<lparr>cm_nextSeq := q\<rparr>))" for q
    by (rule kept_order.modify_moves) (simp add: kept_def comm_ok_def)
  have fill: "moves (kept comm_ok) (update_request k (\<lambda>req. req\<lparr>rq_kind := kind, rq_seq := sequence,
      rq_data := data, rq_size := sz, rq_tag := tag, rq_mhandle := mhandle\<rparr>))" for k sequence
    by (intro evolves_keeps update_request_evolves) (simp add: request_keeps_def)
  have leave: "moves (kept comm_ok) (update_request k (\<lambda>req. req\<lparr>rq_state := st\<rparr>))" if "st \<noteq> ReqPosted" for k st
    using that by (intro evolves_keeps update_request_evolves) (simp add: request_keeps_def)
  show ?thesis unfolding submit_def
    by (intro kept_order.rules next_seq fill leave evolves_keeps [OF comm_progress_evolves]
        evolves_keeps [OF alloc_request_evolves] evolves_keeps [OF post_request_evolves]) simp_all
qed

lemma comm_isend_keeps: "moves (kept comm_ok) (comm_isend env data sz tag mhandle)"
  unfolding comm_isend_def by (intro kept_order.rules submit_keeps)

lemma comm_irecv_keeps: "moves (kept comm_ok) (comm_irecv env n data sz tag mhandle)"
  unfolding comm_irecv_def by (intro kept_order.rules submit_keeps)

lemma mark_dead_frame: "moves frame (mark_dead env slot)"
  unfolding mark_dead_def by (intro frame_rules destroy_endpoint_frame)


section \<open>The life of a communicator\<close>

text \<open>The steps between the end of the set-up and the closing.  \<open>others\<close>: another thread changes the
  state the communicators share, but not the connection or the members of this one.\<close>

inductive comm_step :: "'w env \<Rightarrow> 'w comm_st \<Rightarrow> 'w comm_st \<Rightarrow> bool" for env where
  step_isend: "comm_isend env data sz tag mhandle s = Inr (r, t) \<Longrightarrow> comm_step env s t"
| step_irecv: "comm_irecv env n data sz tag' mhandle s = Inr (r, t) \<Longrightarrow> comm_step env s t"
| step_iflush: "comm_iflush n sz' s = Inr (r, t) \<Longrightarrow> comm_step env s t"
| step_test: "comm_test env request s = Inr (r', t) \<Longrightarrow> comm_step env s t"
| step_broken: "on_plane_broken env planeId generation s = Inr (u, t) \<Longrightarrow> comm_step env s t"
| step_recovering: "on_plane_recovering env planeId generation s = Inr (u, t) \<Longrightarrow> comm_step env s t"
| step_others: "frame s t \<Longrightarrow> peer_fd t = peer_fd s \<Longrightarrow> peer_rx t = peer_rx s \<Longrightarrow> comm_step env s t"

inductive comm_reachable :: "'w env \<Rightarrow> 'w comm_st \<Rightarrow> bool" for env where
  connected: "init_as_connector env handle (new_comm True s) = Inr (r, t) \<Longrightarrow> comm_reachable env t"
| accepted: "init_from_accepted_fd env fd msg (new_comm False s) = Inr (r, t) \<Longrightarrow> comm_reachable env t"
| stepped: "comm_reachable env s \<Longrightarrow> comm_step env s t \<Longrightarrow> comm_reachable env t"

inductive_cases comm_stepE: "comm_step env s t"

lemma comm_step_keeps: "comm_step env s t \<Longrightarrow> comm_ok s \<Longrightarrow> comm_ok t"
proof (induction rule: comm_step.induct)
  case step_isend
  then show ?case using keptD [OF comm_isend_keeps] by blast
next
  case step_irecv
  then show ?case using keptD [OF comm_irecv_keeps] by blast
next
  case step_iflush
  then show ?case using keptD [OF evolves_keeps [OF comm_iflush_evolves]] by blast
next
  case step_test
  then show ?case using keptD [OF evolves_keeps [OF comm_test_evolves]] by blast
next
  case step_broken
  then show ?case using keptD [OF evolves_keeps [OF on_plane_broken_evolves]] by blast
next
  case step_recovering
  then show ?case using keptD [OF evolves_keeps [OF on_plane_recovering_evolves]] by blast
next
  case (step_others s t)
  then show ?case using frame_evolves by (auto simp: evolves_def)
qed

lemma set_up_ok:
  "init_as_connector env handle (new_comm True s) = Inr (r, t) \<Longrightarrow> comm_ok t"
  "init_from_accepted_fd env fd msg (new_comm False s) = Inr (r, t) \<Longrightarrow> comm_ok t"
  using keptD [OF init_as_connector_idle] keptD [OF init_from_accepted_fd_idle] new_comm_idle
  by (metis idle_def)+

lemma reachable_ok: "comm_reachable env s \<Longrightarrow> comm_ok s"
  by (induction rule: comm_reachable.induct) (auto dest: set_up_ok comm_step_keeps)

text \<open>C1. In every state a communicator goes through between its set-up and its closing, whatever the
  network, the adapters, the peer and the other threads do: an active slot has a connected queue
  pair; a posted request has a queue pair of its plane and generation that still exists, so that
  its completion can arrive; the 32 requests are at their indices; and the receive journal stays
  within 4096 entries.\<close>

theorem reachable_comm_ok:
  assumes "comm_reachable env s"
  shows "(\<forall>slot \<in> set (cm_slots s). qs_state slot = SlotActive \<longrightarrow>
      ep_qp (qs_active slot) \<noteq> null \<and> ep_ready (qs_active slot))
    \<and> (\<forall>req \<in> set (cm_requests s). rq_state req = ReqPosted \<longrightarrow>
      (\<exists>slot \<in> set (cm_slots s). qs_planeId slot = rq_planeId req \<and>
        (\<exists>ep \<in> set (qs_active slot # qs_retired slot). ep_qp ep \<noteq> null \<and> ep_generation ep = rq_generation req)))
    \<and> length (cm_requests s) = NCCL_NET_MAX_REQUESTS \<and> (\<forall>k < NCCL_NET_MAX_REQUESTS. rq_index (cm_requests s ! k) = int k)
    \<and> length (cm_recvJournalOrder s) \<le> kJournalCapacity \<and> cm_recvJournal s \<subseteq> set (cm_recvJournalOrder s)"
proof -
  have ok: "comm_ok s" using assms by (rule reachable_ok)
  have "\<exists>ep \<in> set (qs_active slot # qs_retired slot). ep_qp ep \<noteq> null \<and> ep_generation ep = g"
    if "g \<in> live_generations slot" for slot g
    using that unfolding live_generations_def by blast
  then show ?thesis using ok
    by (simp add: comm_ok_def slot_ok_def backed_def requests_ok_def journal_ok_def) blast
qed

lemma sample_reachable: "comm_reachable quick_env sample_comm"
  using sample_accept by (rule accepted)

lemma posted_reachable: "comm_reachable quick_env posted_comm"
  using sample_reachable step_isend [OF posted_run] by (rule stepped)

theorem reachable_comm_ok_witness:
  "\<exists>t. comm_isend quick_env 0x1000 64 0 1 sample_comm = Inr ((ncclSuccess, Some 0), t) \<and>
     rq_state (cm_requests t ! 0) = ReqPosted \<and>
     (\<exists>slot \<in> set (cm_slots t). qs_planeId slot = rq_planeId (cm_requests t ! 0) \<and>
        (\<exists>ep \<in> set (qs_active slot # qs_retired slot). ep_qp ep \<noteq> null \<and>
           ep_generation ep = rq_generation (cm_requests t ! 0)))"
proof -
  obtain t where t: "comm_isend quick_env 0x1000 64 0 1 sample_comm = Inr ((ncclSuccess, Some 0), t)"
    "rq_state (cm_requests t ! 0) = ReqPosted" using sample_isend by blast
  have "comm_reachable quick_env t"
    using sample_reachable step_isend [OF t(1)] by (rule stepped)
  note ok = reachable_comm_ok [OF this]
  then have "cm_requests t ! 0 \<in> set (cm_requests t)" by (intro nth_mem) (simp add: NCCL_NET_MAX_REQUESTS_def)
  with ok t show ?thesis by blast
qed

section \<open>Submitting a message\<close>

lemma alloc_request_result:
  "alloc_request s = Inr (Some k, t) \<Longrightarrow> k < length (cm_requests s) \<and> reusable (cm_requests s ! k) \<and>
   t = s\<lparr>cm_requests := (cm_requests s)[k := default_request\<lparr>rq_index := int k\<rparr>]\<rparr>"
  unfolding alloc_request_def
  by (auto simp: gets_def put_request_def modify_def ret_def elim!: seq_InrE split: option.splits
      dest: find_index_SomeD)

definition submit_tail ::
    "'w env \<Rightarrow> request_kind \<Rightarrow> u64 \<Rightarrow> u64 \<Rightarrow> int \<Rightarrow> ptr \<Rightarrow> nat \<Rightarrow> (('w, 'z) comm_st_scheme, nccl_result \<times> nat option) prog" where
  "submit_tail env kind data sz tag mhandle k =
     seq (gets cm_nextSeq) (\<lambda>sequence.
     seq (modify (\<lambda>s. s\<lparr>cm_nextSeq := sequence + 1\<rparr>)) (\<lambda>_.
     seq (update_request k (\<lambda>req. req\<lparr>rq_kind := kind, rq_seq := sequence, rq_data := data,
            rq_size := sz, rq_tag := tag, rq_mhandle := mhandle\<rparr>)) (\<lambda>_.
     seq (post_request env k) (\<lambda>r.
     if r = ncclInvalidUsage
     then seq (update_request k (\<lambda>req. req\<lparr>rq_state := ReqFree\<rparr>)) (\<lambda>_. ret (ncclSuccess, None))
     else if r \<noteq> ncclSuccess
     then seq (update_request k (\<lambda>req. req\<lparr>rq_state := ReqFailed\<rparr>)) (\<lambda>_. ret (r, None))
     else ret (ncclSuccess, Some k)))))"

lemma update_request_run:
  "k < length (cm_requests s) \<Longrightarrow>
   update_request k f s = Inr ((), s\<lparr>cm_requests := (cm_requests s)[k := f (cm_requests s ! k)]\<rparr>)"
  by (simp add: update_request_def get_request_def put_request_def prog_simps)

lemma submit_tail_effect:
  assumes run: "submit_tail env kind data sz tag mhandle k s = Inr ((r, got), t)"
    and k: "k < length (cm_requests s)"
  defines "req \<equiv> (cm_requests s ! k)\<lparr>rq_kind := kind, rq_seq := cm_nextSeq s, rq_data := data,
            rq_size := sz, rq_tag := tag, rq_mhandle := mhandle\<rparr>"
  shows "cm_nextSeq t = cm_nextSeq s + 1 \<and> cm_slots t = cm_slots s \<and>
    (case got of None \<Rightarrow> True
     | Some k' \<Rightarrow> k' = k \<and> r = ncclSuccess \<and> (\<exists>i < length (cm_slots s). \<exists>plane. selectable (cm_slots s ! i) plane \<and>
         cm_requests t = (cm_requests s)[k := posted_on i (cm_slots s) req]))"
proof -
  let ?s = "s\<lparr>cm_nextSeq := cm_nextSeq s + 1, cm_requests := (cm_requests s)[k := req]\<rparr>"
  have "seq (post_request env k) (\<lambda>r.
     if r = ncclInvalidUsage
     then seq (update_request k (\<lambda>req. req\<lparr>rq_state := ReqFree\<rparr>)) (\<lambda>_. ret (ncclSuccess, None))
     else if r \<noteq> ncclSuccess
     then seq (update_request k (\<lambda>req. req\<lparr>rq_state := ReqFailed\<rparr>)) (\<lambda>_. ret (r, None))
     else ret (ncclSuccess, Some k)) ?s = Inr ((r, got), t)"
    using run k unfolding submit_tail_def by (simp add: prog_simps update_request_run req_def)
  then obtain r2 u where post: "post_request env k ?s = Inr (r2, u)"
    and rest: "(if r2 = ncclInvalidUsage
     then seq (update_request k (\<lambda>req. req\<lparr>rq_state := ReqFree\<rparr>)) (\<lambda>_. ret (ncclSuccess, None))
     else if r2 \<noteq> ncclSuccess
     then seq (update_request k (\<lambda>req. req\<lparr>rq_state := ReqFailed\<rparr>)) (\<lambda>_. ret (r2, None))
     else ret (ncclSuccess, Some k)) u = Inr ((r, got), t)"
    by (elim seq_InrE)
  note effect = post_request_effect [OF post]
  show ?thesis
  proof (cases "r2 = ncclSuccess")
    case True
    with effect obtain v i plane where v: "frame ?s v" "i < length (cm_slots s)" "selectable (cm_slots s ! i) plane"
      and u: "u = v\<lparr>cm_requests := (cm_requests ?s)[k := posted_on i (cm_slots s) (cm_requests ?s ! k)]\<rparr>" by auto
    have t: "t = u" "got = Some k" "r = ncclSuccess" using rest True by (auto simp: ret_def)
    have "cm_requests t = (cm_requests s)[k := posted_on i (cm_slots s) req]" using u t k by simp
    moreover have "cm_nextSeq t = cm_nextSeq s + 1" "cm_slots t = cm_slots s"
      using u t frame_cm [OF v(1)] by simp_all
    ultimately show ?thesis using t v by auto
  next
    case False
    with effect have u: "frame ?s u" by simp
    with k have ku: "k < length (cm_requests u)" by (simp add: frame_cm)
    have "got = None \<and> cm_nextSeq t = cm_nextSeq u \<and> cm_slots t = cm_slots u"
      using rest False ku by (auto simp: ret_def update_request_run elim!: seq_InrE split: if_splits)
    with frame_cm [OF u] show ?thesis by simp
  qed
qed

lemma submit_effect:
  assumes run: "submit env kind data sz tag mhandle s = Inr ((r, got), t)" and ok: "comm_ok s"
  shows "case got of
      None \<Rightarrow> cm_nextSeq t \<in> {cm_nextSeq s, cm_nextSeq s + 1}
    | Some k \<Rightarrow> r = ncclSuccess \<and> k < NCCL_NET_MAX_REQUESTS \<and> cm_nextSeq t = cm_nextSeq s + 1 \<and>
        (let req = cm_requests t ! k in rq_state req = ReqPosted \<and> rq_index req = int k \<and> rq_kind req = kind \<and>
          rq_seq req = cm_nextSeq s \<and> rq_data req = data \<and> rq_size req = sz \<and> rq_mhandle req = mhandle) \<and>
        (\<exists>slot \<in> set (cm_slots t). qs_state slot = SlotActive \<and> qs_planeId slot = rq_planeId (cm_requests t ! k) \<and>
          ep_generation (qs_active slot) = rq_generation (cm_requests t ! k)) \<and>
        (\<forall>j < NCCL_NET_MAX_REQUESTS. j \<noteq> k \<longrightarrow> \<not> outstanding (cm_requests t ! j))"
proof -
  from run obtain r1 s1 where progress: "comm_progress env s = Inr (r1, s1)"
    and rest: "(if r1 \<noteq> ncclSuccess then ret (r1, None)
     else seq (gets (\<lambda>s. (cm_failed s, has_outstanding s))) (\<lambda>(failed, busy).
       if failed then ret (ncclSystemError, None)
       else if busy then ret (ncclSuccess, None)
       else seq alloc_request (\<lambda>found. case found of
           None \<Rightarrow> ret (ncclSuccess, None)
         | Some k \<Rightarrow> submit_tail env kind data sz tag mhandle k))) s1 = Inr ((r, got), t)"
    unfolding submit_def submit_tail_def by (elim seq_InrE) auto
  have ev: "evolves s s1" using comm_progress_evolves progress by (rule movesD)
  then have s1: "comm_ok s1" "cm_nextSeq s1 = cm_nextSeq s" using ok by (simp_all add: evolves_def)
  show ?thesis
  proof (cases "r1 \<noteq> ncclSuccess \<or> cm_failed s1 \<or> has_outstanding s1")
    case True
    with rest s1 show ?thesis by (auto simp: ret_def gets_def elim!: seq_InrE split: if_splits)
  next
    case False
    with rest obtain found s2 where alloc: "alloc_request s1 = Inr (found, s2)"
      and tail: "(case found of None \<Rightarrow> ret (ncclSuccess, None) | Some k \<Rightarrow> submit_tail env kind data sz tag mhandle k) s2
        = Inr ((r, got), t)"
      by (auto simp: gets_def elim!: seq_InrE)
    show ?thesis
    proof (cases found)
      case None
      have "evolves s1 s2" using alloc_request_evolves alloc by (rule movesD)
      with None tail s1 show ?thesis by (auto simp: ret_def evolves_def)
    next
      case (Some k)
      note alloc = alloc_request_result [OF alloc [unfolded Some]]
      have k: "k < NCCL_NET_MAX_REQUESTS" using alloc s1(1) by (simp add: comm_ok_def requests_ok_def)
      have none: "\<not> outstanding req" if "req \<in> set (cm_requests s1)" for req
        using False that by (auto simp: has_outstanding_def)
      have len: "length (cm_requests s1) = NCCL_NET_MAX_REQUESTS" using s1(1) by (simp add: comm_ok_def requests_ok_def)
      have s2: "cm_nextSeq s2 = cm_nextSeq s" "cm_slots s2 = cm_slots s1" "k < length (cm_requests s2)"
        "cm_requests s2 = (cm_requests s1)[k := default_request\<lparr>rq_index := int k\<rparr>]"
        using alloc s1(2) by simp_all
      note effect = submit_tail_effect [OF tail [unfolded Some option.case] s2(3)]
      show ?thesis
      proof (cases got)
        case None
        with effect s2(1) show ?thesis by simp
      next
        case (Some k')
        with effect obtain i plane where i: "i < length (cm_slots s1)" "selectable (cm_slots s1 ! i) plane"
          and t: "k' = k" "r = ncclSuccess" "cm_nextSeq t = cm_nextSeq s + 1" "cm_slots t = cm_slots s1"
          "cm_requests t = (cm_requests s2)[k := posted_on i (cm_slots s1) ((cm_requests s2 ! k)\<lparr>rq_kind := kind,
             rq_seq := cm_nextSeq s, rq_data := data, rq_size := sz, rq_tag := tag, rq_mhandle := mhandle\<rparr>)]"
          unfolding s2(1,2) by auto
        have "cm_requests t ! j = cm_requests s1 ! j" if "j \<noteq> k" for j using that t(5) s2(4) by simp
        then have "\<not> outstanding (cm_requests t ! j)" if "j < NCCL_NET_MAX_REQUESTS" "j \<noteq> k" for j
          using that none len by simp
        moreover have "cm_requests t ! k = posted_on i (cm_slots s1) (default_request\<lparr>rq_index := int k, rq_kind := kind,
             rq_seq := cm_nextSeq s, rq_data := data, rq_size := sz, rq_tag := tag, rq_mhandle := mhandle\<rparr>)"
          using t(5) s2(3,4) len k by simp
        moreover have "cm_slots s1 ! i \<in> set (cm_slots t)" using i(1) t(4) by simp
        ultimately show ?thesis using Some t(1-3) k i(2)
          by (auto simp: posted_on_def selectable_def intro!: bexI [of _ "cm_slots s1 ! i"])
      qed
    qed
  qed
qed

text \<open>C2. Submitting on a communicator in service: when \<open>isend\<close> or \<open>irecv\<close> hands out a request, that request
  is posted with the arguments of the call and the next sequence number, on an active queue pair of its
  plane and generation, and it is the only message in flight; when it hands out none, at most the
  sequence number moved on.\<close>

theorem submission_is_posted:
  assumes "comm_reachable env s" and "kind \<in> {ReqSend, ReqRecv}"
    and "(if kind = ReqSend then comm_isend env data sz tag mhandle
          else comm_irecv env 1 data sz (Some tag) mhandle) s = Inr ((r, got), t)"
  shows "case got of
      None \<Rightarrow> cm_nextSeq t \<in> {cm_nextSeq s, cm_nextSeq s + 1}
    | Some k \<Rightarrow> r = ncclSuccess \<and> k < NCCL_NET_MAX_REQUESTS \<and> cm_nextSeq t = cm_nextSeq s + 1 \<and>
        (let req = cm_requests t ! k in rq_state req = ReqPosted \<and> rq_index req = int k \<and> rq_kind req = kind \<and>
          rq_seq req = cm_nextSeq s \<and> rq_data req = data \<and> rq_size req = sz \<and> rq_mhandle req = mhandle) \<and>
        (\<exists>slot \<in> set (cm_slots t). qs_state slot = SlotActive \<and> qs_planeId slot = rq_planeId (cm_requests t ! k) \<and>
          ep_generation (qs_active slot) = rq_generation (cm_requests t ! k)) \<and>
        (\<forall>j < NCCL_NET_MAX_REQUESTS. j \<noteq> k \<longrightarrow> \<not> outstanding (cm_requests t ! j))"
proof -
  have ok: "comm_ok s" using assms(1) by (rule reachable_ok)
  show ?thesis
  proof (cases "sz > kMaxPluginBytes")
    case True
    with assms(2,3) have "got = None \<and> t = s"
      by (auto simp: comm_isend_def comm_irecv_def ret_def split: if_splits)
    then show ?thesis by simp
  next
    case False
    with assms(2,3) have "submit env kind data sz tag mhandle s = Inr ((r, got), t)"
      by (auto simp: comm_isend_def comm_irecv_def split: if_splits)
    then show ?thesis using ok by (rule submit_effect)
  qed
qed

theorem submission_is_posted_witness:
  "\<exists>t. comm_isend quick_env 0x1000 64 0 1 sample_comm = Inr ((ncclSuccess, Some 0), t) \<and>
     cm_nextSeq t = 2 \<and> rq_seq (cm_requests t ! 0) = 1 \<and> rq_data (cm_requests t ! 0) = 0x1000"
proof -
  obtain t where t: "comm_isend quick_env 0x1000 64 0 1 sample_comm = Inr ((ncclSuccess, Some 0), t)"
    using sample_isend by blast
  have "cm_nextSeq sample_comm = 1" by (simp add: sample_comm_def)
  with submission_is_posted [OF sample_reachable, where kind = ReqSend and data = "0x1000" and sz = 64 and tag = 0
      and mhandle = 1, simplified, OF t [simplified]] t show ?thesis by (simp add: Let_def)
qed

end
