(* ===== verification/CommSafety.thy ===== *)
theory CommSafety
  imports CommReach
begin

text \<open>
  What a communicator does when a plane breaks: whatever reports it, the plane's queue pairs are
  taken out of service and the messages in flight on it wait for the peer, while the other planes
  are left alone.  Further the window of the receive journal and the bound on the wait for a probe.
\<close>

section \<open>Draining a plane\<close>

text \<open>The slot keeps its endpoints in service but is not used any more.\<close>

definition calmed :: "qp_slot \<Rightarrow> qp_slot \<Rightarrow> bool" where
  "calmed slot slot' \<longleftrightarrow> qs_state slot' \<noteq> SlotActive \<and> qs_planeId slot' = qs_planeId slot \<and>
     qs_active slot' = qs_active slot \<and> qs_retired slot' = qs_retired slot"

definition drains_on :: "nat set \<Rightarrow> int \<Rightarrow> ('w, 'z) comm_st_scheme \<Rightarrow> ('w, 'z) comm_st_scheme \<Rightarrow> bool" where
  "drains_on js p s t \<longleftrightarrow>
     length (cm_slots t) = length (cm_slots s) \<and>
     (\<forall>j < length (cm_slots s).
        (qs_planeId (cm_slots s ! j) = p \<and> j \<in> js \<longrightarrow> calmed (cm_slots s ! j) (cm_slots t ! j)) \<and>
        (\<not> (qs_planeId (cm_slots s ! j) = p \<and> j \<in> js) \<longrightarrow> cm_slots t ! j = cm_slots s ! j)) \<and>
     cm_requests t = (if \<exists>j < length (cm_slots s). j \<in> js \<and> qs_planeId (cm_slots s ! j) = p
       then map (\<lambda>req. if rq_planeId req = p then demote req else req) (cm_requests s) else cm_requests s)"

lemma demote_again: "demote (demote req) = demote req"
  by (simp add: demote_def)

lemma demote_plane_of [simp]: "rq_planeId (demote req) = rq_planeId req"
  by (simp add: demote_def)

lemma calmed_trans: "calmed a b \<Longrightarrow> calmed b c \<Longrightarrow> calmed a c"
  by (simp add: calmed_def)

lemma calmed_in_turn:
  "(P \<and> A \<longrightarrow> calmed a b) \<and> (\<not> (P \<and> A) \<longrightarrow> b = a) \<Longrightarrow>
   (P \<and> B \<longrightarrow> calmed b c) \<and> (\<not> (P \<and> B) \<longrightarrow> c = b) \<Longrightarrow>
   (P \<and> (A \<or> B) \<longrightarrow> calmed a c) \<and> (\<not> (P \<and> (A \<or> B)) \<longrightarrow> c = a)"
  by (cases P; cases A; cases B) (simp_all add: calmed_trans [of a b c])

lemma calmed_plane: "calmed a b \<Longrightarrow> qs_planeId b = qs_planeId a"
  by (simp add: calmed_def)

lemma drains_on_none: "drains_on {} p s s"
  by (simp add: drains_on_def)

lemma drains_on_planes:
  "drains_on js p s t \<Longrightarrow> j < length (cm_slots s) \<Longrightarrow> qs_planeId (cm_slots t ! j) = qs_planeId (cm_slots s ! j)"
  by (auto simp: drains_on_def dest: calmed_plane split: if_splits)

lemma drains_on_union:
  assumes "drains_on js p s t" and "drains_on ks p t u"
  shows "drains_on (js \<union> ks) p s u"
proof -
  let ?n = "length (cm_slots s)"
  have n: "length (cm_slots t) = ?n" "length (cm_slots u) = ?n" using assms by (simp_all add: drains_on_def)
  note planes = drains_on_planes [OF assms(1)]
  have "(qs_planeId (cm_slots s ! j) = p \<and> j \<in> js \<union> ks \<longrightarrow> calmed (cm_slots s ! j) (cm_slots u ! j)) \<and>
      (\<not> (qs_planeId (cm_slots s ! j) = p \<and> j \<in> js \<union> ks) \<longrightarrow> cm_slots u ! j = cm_slots s ! j)" if "j < ?n" for j
  proof -
    have "(qs_planeId (cm_slots s ! j) = p \<and> j \<in> js \<longrightarrow> calmed (cm_slots s ! j) (cm_slots t ! j)) \<and>
        (\<not> (qs_planeId (cm_slots s ! j) = p \<and> j \<in> js) \<longrightarrow> cm_slots t ! j = cm_slots s ! j)"
      "(qs_planeId (cm_slots s ! j) = p \<and> j \<in> ks \<longrightarrow> calmed (cm_slots t ! j) (cm_slots u ! j)) \<and>
        (\<not> (qs_planeId (cm_slots s ! j) = p \<and> j \<in> ks) \<longrightarrow> cm_slots u ! j = cm_slots t ! j)"
      using assms that n planes [OF that] by (simp_all add: drains_on_def)
    then show ?thesis unfolding Un_iff by (rule calmed_in_turn)
  qed
  moreover have "cm_requests u = (if \<exists>j < ?n. j \<in> js \<union> ks \<and> qs_planeId (cm_slots s ! j) = p
       then map (\<lambda>req. if rq_planeId req = p then demote req else req) (cm_requests s) else cm_requests s)"
  proof -
    let ?D = "map (\<lambda>req. if rq_planeId req = p then demote req else req)"
    let ?A = "\<exists>j < ?n. j \<in> js \<and> qs_planeId (cm_slots s ! j) = p"
    let ?B = "\<exists>j < ?n. j \<in> ks \<and> qs_planeId (cm_slots s ! j) = p"
    have B: "(\<exists>j < ?n. j \<in> ks \<and> qs_planeId (cm_slots t ! j) = p) = ?B"
      by (intro ex_cong1) (auto simp: planes)
    have AB: "(\<exists>j < ?n. j \<in> js \<union> ks \<and> qs_planeId (cm_slots s ! j) = p) = (?A \<or> ?B)" by blast
    have t: "cm_requests t = (if ?A then ?D (cm_requests s) else cm_requests s)"
      and u: "cm_requests u = (if ?B then ?D (cm_requests t) else cm_requests t)"
      using assms n B unfolding drains_on_def by simp_all
    have "?D (?D reqs) = ?D reqs" for reqs by (simp add: demote_again)
    then show ?thesis unfolding u t AB by (cases ?A; cases ?B) (simp_all only: if_True if_False simp_thms)
  qed
  ultimately show ?thesis using n by (simp add: drains_on_def)
qed

text \<open>A loop drains what its rounds drain.\<close>

lemma for_all_do_drains:
  assumes "\<And>j s t. body j s = Inr ((), t) \<Longrightarrow> drains_on {j} p s t"
  shows "for_all_do js body s = Inr ((), t) \<Longrightarrow> drains_on (set js) p s t"
proof (induction js arbitrary: s)
  case Nil
  then show ?case by (simp add: ret_def drains_on_none)
next
  case (Cons j js)
  then obtain u where "body j s = Inr ((), u)" "for_all_do js body u = Inr ((), t)"
    by (auto elim: seq_InrE)
  with assms Cons.IH have "drains_on ({j} \<union> set js) p s t" by (blast intro: drains_on_union)
  then show ?case by simp
qed

lemma for_slots_drains:
  assumes body: "\<And>j s t. j < length (cm_slots s) \<Longrightarrow> qs_planeId (cm_slots s ! j) = p \<Longrightarrow>
      body j s = Inr ((), t) \<Longrightarrow> drains_on {j} p s t"
    and run: "for_slots_of_plane p body s = Inr ((), t)"
  shows "drains_on {..< length (cm_slots s)} p s t"
proof -
  have "drains_on (set [0..< length (cm_slots s)]) p s t"
  proof (rule for_all_do_drains)
    show "for_all_do [0..< length (cm_slots s)]
        (\<lambda>i. seq (get_slot i) (\<lambda>slot. if qs_planeId slot \<noteq> p then ret () else body i)) s = Inr ((), t)"
      using run unfolding for_slots_of_plane_def by (auto simp: gets_def elim: seq_InrE)
    show "drains_on {j} p u v"
      if r: "seq (get_slot j) (\<lambda>slot. if qs_planeId slot \<noteq> p then ret () else body j) u = Inr ((), v)" for j u v
    proof -
      from r have j: "j < length (cm_slots u)" by (auto simp: get_slot_def elim!: seq_InrE split: if_splits)
      with r have v: "(if qs_planeId (cm_slots u ! j) \<noteq> p then ret () else body j) u = Inr ((), v)"
        by (simp add: seq_def get_slot_def)
      show ?thesis
      proof (cases "qs_planeId (cm_slots u ! j) = p")
        case True
        with v j show ?thesis by (simp add: body)
      next
        case False
        with v have "v = u" by (simp add: ret_def)
        with False show ?thesis by (auto simp: drains_on_def)
      qed
    qed
  qed
  then show ?thesis by (simp add: atLeast_upt)
qed

text \<open>One round: the recovery of the slot is aborted or not, then it is quarantined.\<close>

lemma abort_recovery_run:
  assumes "abort_recovery_at env j s = Inr ((), t)"
  shows "\<exists>u slot. frame s u \<and> j < length (cm_slots s) \<and> t = u\<lparr>cm_slots := (cm_slots s)[j := slot]\<rparr> \<and>
    qs_planeId slot = qs_planeId (cm_slots s ! j) \<and> qs_active slot = qs_active (cm_slots s ! j) \<and>
    qs_retired slot = qs_retired (cm_slots s ! j)"
proof -
  from assms obtain slot u where j: "j < length (cm_slots s)" and u: "abort_recovery env (cm_slots s ! j) s = Inr (slot, u)"
    and t: "t = u\<lparr>cm_slots := (cm_slots u)[j := slot]\<rparr>"
    unfolding abort_recovery_at_def
    by (auto simp: get_slot_def put_slot_def modify_def elim!: seq_InrE split: if_splits)
  from u obtain shadow where d: "destroy_endpoint env (qs_shadow (cm_slots s ! j)) s = Inr (shadow, u)"
    and slot: "qs_planeId slot = qs_planeId (cm_slots s ! j) \<and> qs_active slot = qs_active (cm_slots s ! j) \<and>
      qs_retired slot = qs_retired (cm_slots s ! j)"
    unfolding abort_recovery_def Let_def
    by (auto simp: ret_def clear_probe_def reset_probe_def elim!: seq_InrE)
  have "frame s u" using destroy_endpoint_frame d by (rule movesD)
  with j t slot show ?thesis by (auto simp: frame_cm)
qed

lemma quarantine_calms: "calmed slot (quarantine slot)"
  by (simp add: calmed_def quarantine_def)

lemma quarantine_round_drains:
  assumes run: "seq (update_slot j quarantine) (\<lambda>_. demote_plane p) s = Inr ((), t)"
    and "qs_planeId (cm_slots s ! j) = p"
  shows "drains_on {j} p s t"
proof -
  from run have "j < length (cm_slots s)" and "t = s\<lparr>cm_slots := (cm_slots s)[j := quarantine (cm_slots s ! j)],
      cm_requests := map (\<lambda>req. if rq_planeId req = p then demote req else req) (cm_requests s)\<rparr>"
    by (auto simp: update_slot_def get_slot_def put_slot_def demote_plane_def modify_def ret_def
        elim!: seq_InrE split: if_splits)
  then show ?thesis using assms(2) quarantine_calms by (auto simp: drains_on_def nth_list_update)
qed

lemma abort_round_drains:
  assumes run: "seq (abort_recovery_at env j) (\<lambda>_. seq (update_slot j quarantine) (\<lambda>_. demote_plane p)) s = Inr ((), t)"
    and p: "qs_planeId (cm_slots s ! j) = p"
  shows "drains_on {j} p s t"
proof -
  from run obtain v where v: "abort_recovery_at env j s = Inr ((), v)"
    and rest: "seq (update_slot j quarantine) (\<lambda>_. demote_plane p) v = Inr ((), t)" by (auto elim: seq_InrE)
  from abort_recovery_run [OF v] obtain u slot where u: "frame s u" and j: "j < length (cm_slots s)"
    and v: "v = u\<lparr>cm_slots := (cm_slots s)[j := slot]\<rparr>"
    and slot: "qs_planeId slot = p" "qs_active slot = qs_active (cm_slots s ! j)" "qs_retired slot = qs_retired (cm_slots s ! j)"
    using p by auto
  have "drains_on {j} p v t" using rest by (rule quarantine_round_drains) (use v j slot in simp)
  with v j slot p u show ?thesis
    by (auto simp: drains_on_def calmed_def nth_list_update frame_cm split: if_splits)
qed

section \<open>The three reports of a broken plane\<close>

definition drains :: "int \<Rightarrow> ('w, 'z) comm_st_scheme \<Rightarrow> ('w, 'z) comm_st_scheme \<Rightarrow> bool" where
  "drains p s t \<longleftrightarrow>
     length (cm_slots t) = length (cm_slots s) \<and>
     (\<forall>j < length (cm_slots s).
        (qs_planeId (cm_slots s ! j) = p \<longrightarrow> calmed (cm_slots s ! j) (cm_slots t ! j)) \<and>
        (qs_planeId (cm_slots s ! j) \<noteq> p \<longrightarrow> cm_slots t ! j = cm_slots s ! j)) \<and>
     cm_requests t = map (\<lambda>req. if rq_planeId req = p then demote req else req) (cm_requests s)"

lemma drains_on_all:
  assumes "drains_on {..< length (cm_slots s)} p s t" and "comm_ok s"
  shows "drains p s t"
proof -
  have "map (\<lambda>req. if rq_planeId req = p then demote req else req) (cm_requests s) = cm_requests s"
    if "\<not> (\<exists>j < length (cm_slots s). qs_planeId (cm_slots s ! j) = p)"
  proof (rule map_idI)
    fix req assume "req \<in> set (cm_requests s)"
    with assms(2) have "backed (cm_slots s) req" by (simp add: comm_ok_def)
    with that have "rq_planeId req = p \<Longrightarrow> rq_state req \<noteq> ReqPosted" by (auto simp: backed_def in_set_conv_nth)
    then show "(if rq_planeId req = p then demote req else req) = req" by (simp add: demote_def)
  qed
  with assms(1) show ?thesis by (auto simp: drains_on_def drains_def)
qed

lemma drains_framed: "frame s s' \<Longrightarrow> drains p s' t' \<Longrightarrow> frame t' t \<Longrightarrow> drains p s t"
  using frame_cm(1,2) [of s s'] frame_cm(1,2) [of t' t] by (simp add: drains_def)

lemma on_plane_broken_drains:
  assumes "on_plane_broken env p g s = Inr ((), t)" and "comm_ok s"
  shows "drains p s t"
proof (rule drains_on_all [OF for_slots_drains assms(2)])
  show "for_slots_of_plane p (\<lambda>i. seq (get_slot i) (\<lambda>slot.
       seq (if ep_qp (qs_shadow slot) \<noteq> null \<and> ep_generation (qs_shadow slot) \<le> g
            then abort_recovery_at env i else ret ()) (\<lambda>_.
       seq (update_slot i quarantine) (\<lambda>_. demote_plane p)))) s = Inr ((), t)"
    using assms(1) by (simp add: on_plane_broken_def)
next
  fix j and s t :: "('a, 'b) comm_st_scheme"
  assume j: "j < length (cm_slots s)" "qs_planeId (cm_slots s ! j) = p"
    and run: "seq (get_slot j) (\<lambda>slot.
       seq (if ep_qp (qs_shadow slot) \<noteq> null \<and> ep_generation (qs_shadow slot) \<le> g
            then abort_recovery_at env j else ret ()) (\<lambda>_.
       seq (update_slot j quarantine) (\<lambda>_. demote_plane p))) s = Inr ((), t)"
  from j run have "seq (if ep_qp (qs_shadow (cm_slots s ! j)) \<noteq> null \<and> ep_generation (qs_shadow (cm_slots s ! j)) \<le> g
        then abort_recovery_at env j else ret ()) (\<lambda>_. seq (update_slot j quarantine) (\<lambda>_. demote_plane p)) s = Inr ((), t)"
    by (simp add: seq_def get_slot_def)
  then show "drains_on {j} p s t"
    using abort_round_drains [OF _ j(2)] quarantine_round_drains [OF _ j(2)]
    by (cases "ep_qp (qs_shadow (cm_slots s ! j)) \<noteq> null \<and> ep_generation (qs_shadow (cm_slots s ! j)) \<le> g")
      (simp_all add: seq_def ret_def split: if_splits)
qed

lemma abort_rounds_drain:
  "for_slots_of_plane p (\<lambda>i. seq (abort_recovery_at env i) (\<lambda>_. seq (update_slot i quarantine) (\<lambda>_. demote_plane p))) s
    = Inr ((), t) \<Longrightarrow> comm_ok s \<Longrightarrow> drains p s t"
  by (rule drains_on_all, rule for_slots_drains, rule abort_round_drains)

lemma frame_comm_ok: "frame s t \<Longrightarrow> comm_ok t = comm_ok s"
  by (simp add: comm_ok_def frame_cm)


text \<open>What other threads did to the table before an operation got the lock does not add or remove planes.\<close>

lemma apply_ops_knows: "plane_get p (apply_ops ops t) = None \<longleftrightarrow> plane_get p t = None"
  by (induction ops arbitrary: t) (auto simp: apply_ops_def plane_get_step split: if_splits)

definition table_seen :: "'w env \<Rightarrow> ('w, 'z) table_st_scheme \<Rightarrow> plane_table" where
  "table_seen env s =
     (let (now, w) = clock_usec env (world s); (ops, w) = interference env w in apply_ops ops (planes s))"

lemma table_seen_knows: "plane_get p (table_seen env s) = None \<longleftrightarrow> plane_get p (planes s) = None"
  unfolding table_seen_def Let_def by (simp only: apply_ops_knows split: prod.split) simp

definition newer_event :: "int \<Rightarrow> u32 \<Rightarrow> plane_table \<Rightarrow> bool" where
  "newer_event p g t \<longleftrightarrow> (case plane_get p t of None \<Rightarrow> False | Some plane \<Rightarrow> ps_generation plane < g)"

lemma table_op_at_sees:
  "table_op_at env f s = Inr (x, u) \<Longrightarrow> \<exists>now. x = fst (f now (table_seen env s))"
  by (auto simp: table_op_at_def table_op_def table_seen_def seq_def call_def Let_def split: prod.splits) (metis fst_conv)

lemma mark_broken_finds: "fst (mark_broken now p src t) = None \<longleftrightarrow> plane_get p t = None"
  by (simp add: mark_broken_def plane_get_def Let_def split: option.split)

lemma broken_event_applied:
  "apply_remote_event now p Broken g src t = (found, applied, t') \<Longrightarrow>
   (found \<noteq> None \<and> applied) \<longleftrightarrow> newer_event p g t"
  using word_gt_0_no [where 'a = 32]
  by (auto simp: apply_remote_event_def newer_event_def plane_get_def Let_def word_gt_0 split: option.splits if_splits)

lemma mark_local_drains:
  assumes run: "mark_local_plane_broken_from_cq env i s = Inr (r, t)" and ok: "comm_ok s"
    and known: "plane_get (qs_planeId (cm_slots s ! i)) (planes s) \<noteq> None"
  shows "drains (qs_planeId (cm_slots s ! i)) s t"
proof -
  let ?p = "qs_planeId (cm_slots s ! i)"
  let ?rounds = "for_slots_of_plane ?p (\<lambda>j. seq (abort_recovery_at env j) (\<lambda>_.
           seq (update_slot j quarantine) (\<lambda>_. demote_plane ?p)))"
  from run have "i < length (cm_slots s)"
    by (auto simp: mark_local_plane_broken_from_cq_def get_slot_def elim!: seq_InrE split: if_splits)
  with run obtain found u where u: "table_op_at env (\<lambda>now. mark_broken now ?p (Some ''local-cq-error'')) s = Inr (found, u)"
    and rest: "(case found of None \<Rightarrow> seq set_failed (\<lambda>_. ret ncclInternalError)
     | Some snapshot \<Rightarrow> seq ?rounds (\<lambda>_. seq (send_plane_event env ?p (ps_generation snapshot) False) (\<lambda>r.
         if r \<noteq> ncclSuccess then seq set_failed (\<lambda>_. ret r) else ret ncclSuccess))) u = Inr (r, t)"
    unfolding mark_local_plane_broken_from_cq_def by (auto simp: get_slot_def elim!: seq_InrE split: if_splits)
  have su: "frame s u" using table_op_at_frame u by (rule movesD)
  have "plane_get ?p (table_seen env s) \<noteq> None" using known by (simp only: table_seen_knows not_False_eq_True)
  then obtain snapshot where "found = Some snapshot" using table_op_at_sees [OF u] mark_broken_finds by fastforce
  with rest obtain v r' w where v: "?rounds u = Inr ((), v)"
    and w: "send_plane_event env ?p (ps_generation snapshot) False v = Inr (r', w)"
    and rest: "(if r' \<noteq> ncclSuccess then seq set_failed (\<lambda>_. ret r') else ret ncclSuccess) w = Inr (r, t)"
    by (auto elim!: seq_InrE)
  have t: "cm_slots t = cm_slots w" "cm_requests t = cm_requests w"
    using rest by (auto simp: ret_def set_failed_def comm_fail_def modify_def elim!: seq_InrE split: if_splits)
  have "moves frame (send_plane_event env ?p (ps_generation snapshot) False)"
    unfolding send_plane_event_def by (intro frame_rules send_message_frame)
  then have "frame v w" using w by (rule movesD)
  moreover have "drains ?p u v" using v ok frame_comm_ok [OF su] by (intro abort_rounds_drain) simp_all
  ultimately have "drains ?p s w" using su drains_framed by blast
  then show ?thesis by (simp add: drains_def t)
qed

lemma handle_plane_event_drains:
  assumes run: "handle_plane_event env msg s = Inr (r, t)" and ok: "comm_ok s" and broken: "wm_done msg = 0"
  shows "if newer_event (sint (wm_planeId msg)) (wm_generation msg) (table_seen env s)
    then drains (sint (wm_planeId msg)) s t else frame s t"
proof -
  let ?p = "sint (wm_planeId msg)"
  let ?rounds = "for_slots_of_plane ?p (\<lambda>j. seq (abort_recovery_at env j) (\<lambda>_.
           seq (update_slot j quarantine) (\<lambda>_. demote_plane ?p)))"
  from run broken obtain found applied u where u: "table_op_at env (\<lambda>now t.
         case apply_remote_event now ?p Broken (wm_generation msg) (Some ''peer-control'') t of
           (snapshot, applied, t') \<Rightarrow> ((snapshot, applied), t')) s = Inr ((found, applied), u)"
    and rest: "(case found of None \<Rightarrow> ret ncclSuccess | Some snapshot \<Rightarrow>
        if \<not> applied then ret ncclSuccess else seq ?rounds (\<lambda>_. ret ncclSuccess)) u = Inr (r, t)"
    unfolding handle_plane_event_def Let_def by (elim seq_InrE) (auto cong: option.case_cong if_cong)
  have su: "frame s u" using table_op_at_frame u by (rule movesD)
  have news: "(found \<noteq> None \<and> applied) \<longleftrightarrow> newer_event ?p (wm_generation msg) (table_seen env s)"
    using table_op_at_sees [OF u] broken_event_applied by (fastforce split: prod.splits)
  show ?thesis
  proof (cases "found = None \<or> \<not> applied")
    case True
    with rest have "t = u" by (auto simp: ret_def split: option.splits if_splits)
    with su True news show ?thesis by auto
  next
    case False
    with rest have "?rounds u = Inr ((), t)" by (auto simp: ret_def elim!: seq_InrE split: option.splits)
    then have "drains ?p u t" using ok frame_comm_ok [OF su] by (intro abort_rounds_drain) simp_all
    then have "drains ?p s t" using su drains_framed frame_order.refl by blast
    with False news show ?thesis by simp
  qed
qed

text \<open>C3. When the context reports that a plane broke, when an error completion does so for a plane of the table - whatever the
  call then returns - or when the peer does so with a generation newer than the table's, the communicator takes every queue pair of the
  plane out of service without destroying the active and retired ones, turns every message posted on the
  plane into one that must be queried (sends) or replayed (receives), and leaves the slots and requests of
  all other planes as they are.  An event of the peer that is not newer changes nothing of the communicator.\<close>

theorem broken_plane_is_drained:
  assumes "comm_reachable env s"
  shows "(on_plane_broken env p g s = Inr ((), t) \<longrightarrow> drains p s t) \<and>
    (mark_local_plane_broken_from_cq env i s = Inr (r, t) \<and> plane_get (qs_planeId (cm_slots s ! i)) (planes s) \<noteq> None \<longrightarrow>
      drains (qs_planeId (cm_slots s ! i)) s t) \<and>
    (handle_plane_event env msg s = Inr (r, t) \<and> wm_done msg = 0 \<longrightarrow>
      (if newer_event (sint (wm_planeId msg)) (wm_generation msg) (table_seen env s)
       then drains (sint (wm_planeId msg)) s t else frame s t))"
  using on_plane_broken_drains mark_local_drains handle_plane_event_drains reachable_ok [OF assms] by blast


lemma posted_breaks: "\<exists>t. on_plane_broken quick_env 0 1 posted_comm = Inr ((), t)"
  by (simp add: posted_comm_def sample_comm_def on_plane_broken_def for_slots_of_plane_def prog_simps get_slot_def default_slot_def
     default_endpoint_def update_slot_def put_slot_def demote_plane_def)

theorem broken_plane_is_drained_witness:
  "\<exists>t. on_plane_broken quick_env 0 1 posted_comm = Inr ((), t) \<and> rq_state (cm_requests t ! 0) = ReqNeedsQuery \<and>
     qs_state (cm_slots t ! 0) \<noteq> SlotActive"
proof -
  obtain t where t: "on_plane_broken quick_env 0 1 posted_comm = Inr ((), t)" using posted_breaks by blast
  with broken_plane_is_drained [OF posted_reachable] have d: "drains 0 posted_comm t" by blast
  have "0 < length initial_requests" by (simp add: initial_requests_free)
  then have "rq_state (cm_requests t ! 0) = ReqNeedsQuery \<and> qs_state (cm_slots t ! 0) \<noteq> SlotActive"
    using d by (simp add: drains_def calmed_def posted_comm_def sample_comm_def default_slot_def demote_def default_request_def)
  with t show ?thesis by blast
qed


section \<open>The window of the receive journal\<close>

lemma evict_full: "length xs = kJournalCapacity \<Longrightarrow> evict (x # xs) J = (xs, J - {x})"
  by (cases xs) simp_all

lemma mark_recv_done_run:
  assumes "length (cm_recvJournalOrder s) \<le> kJournalCapacity" and "cm_recvJournal s = set (cm_recvJournalOrder s)"
    and "distinct (cm_recvJournalOrder s @ [q])"
  shows "\<exists>t. mark_recv_done q s = Inr ((), t) \<and> cm_recvJournal t = set (cm_recvJournalOrder t) \<and>
    cm_recvJournalOrder t = drop (Suc (length (cm_recvJournalOrder s)) - kJournalCapacity) (cm_recvJournalOrder s @ [q])"
proof (cases "length (cm_recvJournalOrder s) = kJournalCapacity")
  case False
  then have "length (cm_recvJournalOrder s @ [q]) \<le> kJournalCapacity" using assms(1) by simp
  from evict_short [OF this] show ?thesis using assms False by (simp add: mark_recv_done_def modify_def)
next
  case True
  then obtain x xs where x: "cm_recvJournalOrder s = x # xs" by (cases "cm_recvJournalOrder s") (auto simp: kJournalCapacity_def)
  with True have "length (xs @ [q]) = kJournalCapacity" by simp
  from evict_full [OF this] have "evict (cm_recvJournalOrder s @ [q]) J = (xs @ [q], J - {x})" for J
    using x by simp
  with assms True x show ?thesis by (auto simp: mark_recv_done_def modify_def Let_def)
qed

lemma marks_run:
  "for_all_do qs mark_recv_done s = Inr ((), t) \<Longrightarrow> length (cm_recvJournalOrder s) \<le> kJournalCapacity \<Longrightarrow>
   cm_recvJournal s = set (cm_recvJournalOrder s) \<Longrightarrow> distinct (cm_recvJournalOrder s @ qs) \<Longrightarrow>
   cm_recvJournal t = set (drop (length (cm_recvJournalOrder s) + length qs - kJournalCapacity) (cm_recvJournalOrder s @ qs))"
proof (induction qs arbitrary: s)
  case Nil
  then show ?case by (simp add: ret_def)
next
  case (Cons q qs)
  let ?o = "cm_recvJournalOrder s" and ?c = kJournalCapacity
  have "distinct (?o @ [q])" using Cons.prems(4) by simp
  from mark_recv_done_run [OF Cons.prems(2,3) this] obtain u where u: "mark_recv_done q s = Inr ((), u)"
    "cm_recvJournal u = set (cm_recvJournalOrder u)" "cm_recvJournalOrder u = drop (Suc (length ?o) - ?c) (?o @ [q])" by blast
  with Cons.prems(1) have rest: "for_all_do qs mark_recv_done u = Inr ((), t)" by (simp add: seq_def)
  have "1 \<le> ?c" by (simp add: kJournalCapacity_def)
  then have d: "Suc (length ?o) - ?c \<le> length (?o @ [q])" by simp
  have len: "length (cm_recvJournalOrder u) = Suc (length ?o) - (Suc (length ?o) - ?c)" using u(3) by simp
  have all: "cm_recvJournalOrder u @ qs = drop (Suc (length ?o) - ?c) (?o @ q # qs)"
    using u(3) d drop_append [of "Suc (length ?o) - ?c" "?o @ [q]" qs] by simp
  have "cm_recvJournal t = set (drop (length (cm_recvJournalOrder u) + length qs - ?c) (cm_recvJournalOrder u @ qs))"
  proof (rule Cons.IH [OF rest _ u(2)])
    show "length (cm_recvJournalOrder u) \<le> ?c" using len Cons.prems(2) by simp
    show "distinct (cm_recvJournalOrder u @ qs)" unfolding all using Cons.prems(4) by (rule distinct_drop)
  qed
  moreover have "length (cm_recvJournalOrder u) + length qs - ?c + (Suc (length ?o) - ?c) = length ?o + length (q # qs) - ?c"
    using len Cons.prems(2) by simp
  ultimately show ?case unfolding all drop_drop by simp
qed

text \<open>C21. The receive journal is a window: after the completions of receives with distinct sequence numbers on
  a new communicator, exactly the last 4096 of them are answered as received to the peer's query.\<close>

theorem journal_window:
  assumes "for_all_do qs mark_recv_done (new_comm sendSide s) = Inr ((), t)" and "distinct qs"
  shows "recv_done q t \<longleftrightarrow> q \<in> set (drop (length qs - kJournalCapacity) qs)"
  using marks_run [OF assms(1)] assms(2) by (simp add: new_comm_def recv_done_def)

theorem journal_window_witness:
  "\<exists>t. for_all_do [5, 6] mark_recv_done (new_comm False sample_comm) = Inr ((), t) \<and> recv_done 5 t \<and> \<not> recv_done 7 t"
proof -
  have "\<exists>t. for_all_do [5, 6] mark_recv_done (new_comm False sample_comm) = Inr ((), t)"
    by (simp add: mark_recv_done_def prog_simps)
  then obtain t where t: "for_all_do [5, 6] mark_recv_done (new_comm False sample_comm) = Inr ((), t)" by blast
  with journal_window [OF t] show ?thesis by (auto simp: kJournalCapacity_def)
qed

section \<open>The wait for a probe\<close>

text \<open>What the wait relies on: the clock does not run backwards and sleeping takes time.\<close>

definition ticking :: "'w env \<Rightarrow> ('w \<Rightarrow> nat) \<Rightarrow> bool" where
  "ticking env time \<longleftrightarrow>
     (\<forall>w n w'. clock_ms env w = (n, w') \<longrightarrow> n = time w \<and> time w \<le> time w') \<and>
     (\<forall>w. time w < time (sleep_ms env 1 w)) \<and>
     (\<forall>cq n w r w'. ibv_poll_cq env cq n w = (r, w') \<longrightarrow> time w \<le> time w')"

lemma record_all_run:
  "i < length (cm_slots s) \<Longrightarrow> \<exists>u. for_all_do wcs (\<lambda>wc. if is_internal_wr_id (wc_wr_id wc) then record_internal_cqe i wc else ret ()) s
     = Inr ((), u) \<and> length (cm_slots u) = length (cm_slots s) \<and> world u = world s"
proof (induction wcs arbitrary: s)
  case Nil
  show ?case by (simp add: ret_def)
next
  case (Cons wc wcs)
  let ?body = "\<lambda>wc. if is_internal_wr_id (wc_wr_id wc) then record_internal_cqe i wc else ret ()"
  have "\<exists>v. ?body wc s = Inr ((), v) \<and> length (cm_slots v) = length (cm_slots s) \<and> world v = world s"
    using Cons.prems by (simp add: record_internal_cqe_def update_slot_def get_slot_def put_slot_def seq_def modify_def ret_def)
  then obtain v where v: "?body wc s = Inr ((), v)" "length (cm_slots v) = length (cm_slots s)" "world v = world s" by blast
  with Cons.prems Cons.IH [of v] show ?case by (auto simp: seq_def)
qed

lemma probe_step_returns:
  assumes tick: "ticking env time" and i: "i < length (cm_slots s)"
  shows "\<exists>r u. probe_step env i kind deadline l s = Inr (r, u) \<and>
    (case r of Inl l' \<Rightarrow> i < length (cm_slots u) \<and>
        nat (deadline - int (time (world u))) < nat (deadline - int (time (world s)))
     | Inr y \<Rightarrow> i < length (cm_slots u) \<and> (y = ncclSuccess \<longrightarrow> \<not> qs_probeFailed (cm_slots u ! i) \<and>
        (kind = RecoverySend \<and> qs_probeSendDone (cm_slots u ! i) \<or> kind = RecoveryRecv \<and> qs_probeRecvDone (cm_slots u ! i))))"
proof -
  obtain now w where clock: "clock_ms env (world s) = (now, w)" by fastforce
  with tick have now: "now = time (world s)" "time (world s) \<le> time w" unfolding ticking_def by blast+
  let ?s = "s\<lparr>world := w\<rparr>" and ?slot = "cm_slots s ! i"
  show ?thesis
  proof (cases "deadline \<le> int now \<or> qs_probeFailed ?slot \<or> kind = RecoverySend \<and> qs_probeSendDone ?slot \<or>
      kind = RecoveryRecv \<and> qs_probeRecvDone ?slot")
    case True
    with clock i show ?thesis by (auto simp: probe_step_def seq_def call_def ret_def get_slot_def)
  next
    case False
    obtain polled v where poll: "poll_endpoint env (qs_shadow ?slot) 4 ?s = Inr (polled, ?s\<lparr>world := v\<rparr>)"
      and v: "time w \<le> time v"
    proof (cases "ep_cq (qs_shadow ?slot) = null")
      case True
      then show thesis using that [of "Some []" w] by (simp add: poll_endpoint_def ret_def)
    next
      case False
      obtain r v where r: "ibv_poll_cq env (ep_cq (qs_shadow ?slot)) 4 w = (r, v)" by fastforce
      with tick have "time w \<le> time v" unfolding ticking_def by blast
      with r False show thesis using that [of r v] by (simp add: poll_endpoint_def call_def)
    qed
    have c: "call (clock_ms env) s = Inr (now, ?s)" using clock by (simp add: call_def)
    have g: "get_slot i ?s = Inr (?slot, ?s)" using i by (simp add: get_slot_def)
    from False have step: "probe_step env i kind deadline l s = seq (poll_endpoint env (qs_shadow ?slot) 4)
        (\<lambda>polled. case polled of None \<Rightarrow> ret (Inr ncclSystemError)
         | Some wcs \<Rightarrow> seq (for_all_do wcs (\<lambda>wc. if is_internal_wr_id (wc_wr_id wc) then record_internal_cqe i wc else ret ()))
             (\<lambda>_. seq (call_void (sleep_ms env 1)) (\<lambda>_. ret (Inl ())))) ?s"
      by (auto simp: probe_step_def seq_apply_Inr [of "call (clock_ms env)", OF c] seq_apply_Inr [of "get_slot i", OF g])
    show ?thesis
    proof (cases polled)
      case None
      with poll i show ?thesis unfolding step by (simp add: seq_def ret_def)
    next
      case (Some wcs)
      from i record_all_run [of i "?s\<lparr>world := v\<rparr>" wcs] obtain u where
        u: "for_all_do wcs (\<lambda>wc. if is_internal_wr_id (wc_wr_id wc) then record_internal_cqe i wc else ret ()) (?s\<lparr>world := v\<rparr>)
          = Inr ((), u)" "length (cm_slots u) = length (cm_slots s)" "world u = v" by auto
      have "time v < time (sleep_ms env 1 v)" using tick unfolding ticking_def by blast
      with u v now False poll Some i show ?thesis unfolding step
        by (simp add: seq_def ret_def call_void_def modify_def)
    qed
  qed
qed

text \<open>Every call of the environment takes at most \<open>d\<close> milliseconds.\<close>

definition paced :: "'w env \<Rightarrow> ('w \<Rightarrow> nat) \<Rightarrow> nat \<Rightarrow> bool" where
  "paced env time d \<longleftrightarrow>
     (\<forall>w n w'. clock_ms env w = (n, w') \<longrightarrow> time w' \<le> time w + d) \<and>
     (\<forall>w. time (sleep_ms env 1 w) \<le> time w + d) \<and>
     (\<forall>cq n w r w'. ibv_poll_cq env cq n w = (r, w') \<longrightarrow> time w' \<le> time w + d)"

lemma poll_paced: "paced env time d \<Longrightarrow> poll_endpoint env ep n s = Inr (x, u) \<Longrightarrow> time (world u) \<le> time (world s) + d"
  by (auto simp: paced_def poll_endpoint_def ret_def call_def split: if_splits prod.splits)

lemma record_all_world:
  "for_all_do wcs (\<lambda>wc. if is_internal_wr_id (wc_wr_id wc) then record_internal_cqe i wc else ret ()) s = Inr ((), u) \<Longrightarrow> world u = world s"
proof (induction wcs arbitrary: s)
  case (Cons wc wcs)
  then obtain v where "(if is_internal_wr_id (wc_wr_id wc) then record_internal_cqe i wc else ret ()) s = Inr ((), v)" "world u = world v"
    by (auto elim!: seq_InrE)
  then show ?case
    by (auto simp: record_internal_cqe_def update_slot_def get_slot_def put_slot_def modify_def ret_def elim!: seq_InrE split: if_splits)
qed (simp add: ret_def)

text \<open>A round that starts at the deadline or later is the last one, and only reads the clock.\<close>

lemma probe_step_paced:
  assumes tick: "ticking env time" and pace: "paced env time d" and run: "probe_step env i kind deadline l s = Inr (r, u)"
  shows "(\<exists>y. r = Inr y) \<and> time (world u) \<le> time (world s) + d \<or>
    int (time (world s)) < deadline \<and> time (world u) \<le> time (world s) + 3 * d"
proof -
  obtain now w where clock: "clock_ms env (world s) = (now, w)" by fastforce
  then have now: "now = time (world s)" "time w \<le> time (world s) + d" using tick pace unfolding ticking_def paced_def by blast+
  from run obtain v where v: "v = s\<lparr>world := w\<rparr>" and rest: "(if deadline \<le> int now then ret (Inr ncclInvalidUsage)
     else seq (get_slot i) (\<lambda>slot.
       if qs_probeFailed slot then ret (Inr ncclInvalidUsage)
       else if kind = RecoverySend \<and> qs_probeSendDone slot then ret (Inr ncclSuccess)
       else if kind = RecoveryRecv \<and> qs_probeRecvDone slot then ret (Inr ncclSuccess)
       else seq (poll_endpoint env (qs_shadow slot) 4) (\<lambda>polled.
         case polled of
           None \<Rightarrow> ret (Inr ncclSystemError)
         | Some wcs \<Rightarrow>
             seq (for_all_do wcs (\<lambda>wc.
               if is_internal_wr_id (wc_wr_id wc) then record_internal_cqe i wc else ret ())) (\<lambda>_.
             seq (call_void (sleep_ms env 1)) (\<lambda>_. ret (Inl ())))))) v = Inr (r, u)"
    unfolding probe_step_def using clock by (auto simp: call_def elim!: seq_InrE)
  show ?thesis
  proof (cases "deadline \<le> int now")
    case True
    then show ?thesis using rest now v by (auto simp: ret_def)
  next
    case False
    obtain slot v' where get: "get_slot i v = Inr (slot, v')" and
      rest: "(if qs_probeFailed slot then ret (Inr ncclInvalidUsage)
       else if kind = RecoverySend \<and> qs_probeSendDone slot then ret (Inr ncclSuccess)
       else if kind = RecoveryRecv \<and> qs_probeRecvDone slot then ret (Inr ncclSuccess)
       else seq (poll_endpoint env (qs_shadow slot) 4) (\<lambda>polled.
         case polled of
           None \<Rightarrow> ret (Inr ncclSystemError)
         | Some wcs \<Rightarrow>
             seq (for_all_do wcs (\<lambda>wc.
               if is_internal_wr_id (wc_wr_id wc) then record_internal_cqe i wc else ret ())) (\<lambda>_.
             seq (call_void (sleep_ms env 1)) (\<lambda>_. ret (Inl ()))))) v' = Inr (r, u)"
      by (rule seq_InrE [OF rest [unfolded if_not_P [OF False]]]) (rule that)
    have v': "v' = v" using get by (simp add: get_slot_def split: if_splits)
    show ?thesis
    proof (cases "qs_probeFailed slot \<or> kind = RecoverySend \<and> qs_probeSendDone slot \<or> kind = RecoveryRecv \<and> qs_probeRecvDone slot")
      case True
      then have "u = v" using rest v' by (auto simp: ret_def split: if_splits)
      then show ?thesis using now v False by auto
    next
      case more: False
      with rest v' obtain polled p where polled: "poll_endpoint env (qs_shadow slot) 4 v = Inr (polled, p)"
        and rest: "(case polled of None \<Rightarrow> ret (Inr ncclSystemError)
         | Some wcs \<Rightarrow> seq (for_all_do wcs (\<lambda>wc.
               if is_internal_wr_id (wc_wr_id wc) then record_internal_cqe i wc else ret ())) (\<lambda>_.
             seq (call_void (sleep_ms env 1)) (\<lambda>_. ret (Inl ())))) p = Inr (r, u)"
        by (auto simp del: One_nat_def elim!: seq_InrE)
      have p: "time (world p) \<le> time (world v) + d" using pace polled by (rule poll_paced)
      have sleep: "time (sleep_ms env 1 w) \<le> time w + d" for w using pace unfolding paced_def by blast
      show ?thesis
      proof (cases polled)
        case None
        then show ?thesis using rest p now v False by (simp add: ret_def)
      next
        case (Some wcs)
        with rest have "world u = sleep_ms env 1 (world p)"
          by (auto simp: call_void_def modify_def ret_def simp del: One_nat_def elim!: seq_InrE dest!: record_all_world)
        then show ?thesis using sleep [of "world p"] p now v False by auto
      qed
    qed
  qed
qed

text \<open>C20. The wait for a recovery probe ends in time: with a clock that advances while sleeping, the loop of
  \<open>waitForInternalProbe\<close> needs at most as many rounds as the timeout has milliseconds, and if no call takes
  more than \<open>d\<close> milliseconds it returns at most four calls after the timeout.  It reports success only when the
  probe it waits for was recorded and none failed.\<close>

theorem wait_for_internal_probe_returns:
  assumes "ticking env time" and "paced env time d" and "i < length (cm_slots s)" and "nat timeoutMs < env_fuel env"
  shows "\<exists>r t. wait_for_internal_probe env i kind g timeoutMs s = Inr (r, t) \<and>
    time (world t) \<le> time (world s) + nat timeoutMs + 4 * d \<and>
    (r = ncclSuccess \<longrightarrow> \<not> qs_probeFailed (cm_slots t ! i) \<and>
       (kind = RecoverySend \<and> qs_probeSendDone (cm_slots t ! i) \<or> kind = RecoveryRecv \<and> qs_probeRecvDone (cm_slots t ! i)))"
proof (cases "ep_qp (qs_shadow (cm_slots s ! i)) = null \<or> qs_probeGeneration (cm_slots s ! i) \<noteq> g")
  case True
  with assms(3) show ?thesis by (simp add: wait_for_internal_probe_def seq_def get_slot_def ret_def)
next
  case False
  obtain now w where clock: "clock_ms env (world s) = (now, w)" by fastforce
  with assms(1,2) have now: "now = time (world s)" "time (world s) \<le> time w" "time w \<le> time (world s) + d"
    unfolding ticking_def paced_def by blast+
  let ?s = "s\<lparr>world := w\<rparr>" and ?d = "int now + timeoutMs" and ?b = "time (world s) + nat timeoutMs"
  note step = probe_step_returns [OF assms(1), where kind = kind and deadline = ?d]
  have "\<exists>r t. loop (env_fuel env) (probe_step env i kind ?d) () ?s = Inr (r, t)"
  proof (rule loop_returns [where I = "\<lambda>_ u. i < length (cm_slots u)" and m = "\<lambda>_ u. nat (?d - int (time (world u)))"])
    show "i < length (cm_slots ?s)" using assms(3) by simp
    show "nat (?d - int (time (world ?s))) < env_fuel env" using now assms(4) by simp
    show "\<exists>r v. probe_step env i kind ?d l u = Inr (r, v) \<and> (case r of
        Inl l' \<Rightarrow> i < length (cm_slots v) \<and> nat (?d - int (time (world v))) < nat (?d - int (time (world u)))
      | Inr y \<Rightarrow> True)" if "i < length (cm_slots u)" for l u
      using step [OF that, of l] by (auto split: sum.splits)
  qed
  then obtain r t where t: "loop (env_fuel env) (probe_step env i kind ?d) () ?s = Inr (r, t)" by blast
  have "r = ncclSuccess \<longrightarrow> \<not> qs_probeFailed (cm_slots t ! i) \<and>
       (kind = RecoverySend \<and> qs_probeSendDone (cm_slots t ! i) \<or> kind = RecoveryRecv \<and> qs_probeRecvDone (cm_slots t ! i))"
    by (rule loop_invariant [OF t, where I = "\<lambda>_ u. i < length (cm_slots u)"]) (use assms(3) step in force)+
  moreover have "time (world t) \<le> ?b + 4 * d"
  proof (rule loop_invariant [OF t, where I = "\<lambda>_ u. time (world u) \<le> ?b + 3 * d"])
    show "time (world ?s) \<le> ?b + 3 * d" using now by simp
    fix l u l' v assume "time (world u) \<le> ?b + 3 * d" "probe_step env i kind ?d l u = Inr (Inl l', v)"
    then show "time (world v) \<le> ?b + 3 * d" using probe_step_paced [OF assms(1,2)] now by fastforce
  next
    fix l u y v assume "time (world u) \<le> ?b + 3 * d" "probe_step env i kind ?d l u = Inr (Inr y, v)"
    then show "time (world v) \<le> ?b + 4 * d" using probe_step_paced [OF assms(1,2)] now by fastforce
  qed
  ultimately show ?thesis using t False clock assms(3) by (simp add: wait_for_internal_probe_def seq_def get_slot_def call_def)
qed

text \<open>A probe that is never answered.\<close>

definition probing_comm :: "sample_world comm_st" where
  "probing_comm = sample_comm\<lparr>cm_slots := [default_slot\<lparr>qs_shadow := default_endpoint\<lparr>ep_cq := 6, ep_qp := 7\<rparr>, qs_probeGeneration := 1\<rparr>]\<rparr>"

theorem wait_for_internal_probe_returns_witness:
  "\<exists>r t. wait_for_internal_probe sample_env 0 RecoverySend 1 500 probing_comm = Inr (r, t) \<and> sw_clock (world t) \<le> 504"
proof -
  have "ticking sample_env sw_clock"
    by (auto simp: ticking_def sample_env_def split: list.splits)
  moreover have "paced sample_env sw_clock 1"
    by (auto simp: paced_def sample_env_def split: list.splits)
  moreover have "0 < length (cm_slots probing_comm)" "nat 500 < env_fuel sample_env" "sw_clock (world probing_comm) = 0"
    by (simp_all add: probing_comm_def sample_comm_def sample_env_def start_world_def)
  ultimately show ?thesis
    using wait_for_internal_probe_returns [of sample_env sw_clock 1 0 probing_comm 500 RecoverySend 1] by auto
qed

end
