(* ===== verification/CommDefects.thy ===== *)
theory CommDefects
  imports CommReach
begin

text \<open>
  Runs of the communicator that do not go as the code means them to: a late completion on a retired
  queue pair, a submission turned away for lack of a plane, and a query for it.
\<close>

lemmas comm_samples =
  sample_comm_def default_slot_def default_endpoint_def default_snapshot_def default_request_def
  sample_device_def default_plane_device_def plane_get_def find_plane_def

section \<open>A late completion on a retired queue pair\<close>

definition late_completion :: work_completion where
  "late_completion = \<lparr>wc_wr_id = make_wr_id 0 1, wc_status = IBV_WC_SUCCESS, wc_byte_len = 64\<rparr>"

definition retired_endpoint :: qp_endpoint where
  "retired_endpoint =
     \<lparr>ep_device = Some 0, ep_cq = 100, ep_qp = 101, ep_generation = 1, ep_psn = 12345, ep_ready = True\<rparr>"

definition late_comm :: "sample_world comm_st" where
  "late_comm = posted_comm\<lparr>world := start_world\<lparr>sw_next := 105, sw_cqes := [[], [late_completion]]\<rparr>,
     cm_slots := [default_slot\<lparr>qs_state := SlotActive,
       qs_active := \<lparr>ep_device = Some 0, ep_cq = 103, ep_qp = 104, ep_generation = 2, ep_psn = 0, ep_ready = True\<rparr>,
       qs_retired := [retired_endpoint]\<rparr>]\<rparr>"

lemma late_ok: "comm_ok late_comm"
proof -
  have "backed (cm_slots late_comm) req" if "req \<in> set (cm_requests late_comm)" for req
  proof -
    from that have "req \<in> set initial_requests \<or> rq_planeId req = 0 \<and> rq_generation req = 1"
      by (auto simp: late_comm_def posted_comm_def sample_comm_def dest!: set_update_subset_insert [THEN subsetD])
    moreover have "1 \<in> live_generations (hd (cm_slots late_comm))"
      using live_generationsI [of retired_endpoint "hd (cm_slots late_comm)"]
      by (simp add: late_comm_def retired_endpoint_def)
    ultimately show ?thesis
      by (auto simp: initial_requests_def backed_def late_comm_def default_request_def default_slot_def)
  qed
  moreover have "requests_ok (cm_requests late_comm)"
    by (auto simp: requests_ok_def late_comm_def posted_comm_def sample_comm_def initial_requests_def NCCL_NET_MAX_REQUESTS_def
      default_request_def nth_list_update)
  ultimately show ?thesis
    by (simp add: comm_ok_def) (simp add: late_comm_def posted_comm_def comm_samples slot_ok_def journal_ok_def)
qed

lemma late_id: "make_wr_id 0 1 = 0xd1f0000000010000"
  by (simp add: make_wr_id_def kWrMagic_def)

lemma erased_at:
  assumes "k < length xs" and "\<not> used (xs ! k)"
  obtains j where "find_index (\<lambda>x. \<not> used x) xs = Some j" and "j \<le> k"
proof -
  have "find_index (\<lambda>x. \<not> used x) xs \<noteq> None" using assms nth_mem by (auto simp: find_index_None)
  then obtain j where "find_index (\<lambda>x. \<not> used x) xs = Some j" by blast
  then show ?thesis using that find_index_SomeD assms by (metis linorder_not_le)
qed

lemma destroy_all_runs: "\<exists>t. for_all_do eps (\<lambda>ep. seq (destroy_endpoint env ep) (\<lambda>_. ret ())) s = Inr ((), t)"
proof (induction eps arbitrary: s)
  case (Cons ep eps)
  obtain u where "seq (destroy_endpoint env ep) (\<lambda>_. ret ()) s = Inr ((), u)"
    by (cases "ep_qp ep = null"; cases "ep_cq ep = null") (simp_all add: destroy_endpoint_def prog_simps)
  then show ?case using Cons [of u] by (simp add: seq_def)
qed (simp add: prog_simps)

lemma for_all_do_keeps_slots:
  "for_all_do eps (\<lambda>ep. seq (destroy_endpoint env ep) (\<lambda>_. ret ())) s = Inr ((), t) \<Longrightarrow> cm_slots t = cm_slots s"
proof (induction eps arbitrary: s)
  case (Cons ep eps)
  then obtain u where "seq (destroy_endpoint env ep) (\<lambda>_. ret ()) s = Inr ((), u)"
      "for_all_do eps (\<lambda>ep. seq (destroy_endpoint env ep) (\<lambda>_. ret ())) u = Inr ((), t)" by (auto elim: seq_InrE)
  then show ?case using Cons.IH [of u]
    by (auto simp: destroy_endpoint_def call_void_def modify_def ret_def elim!: seq_InrE split: if_splits)
qed (simp add: ret_def)

lemma destroy_retired_erases:
  assumes "i < length (cm_slots s)" and "k < length (qs_retired (cm_slots s ! i))"
    and "\<not> endpoint_in_use (cm_requests s) (qs_planeId (cm_slots s ! i)) (qs_retired (cm_slots s ! i) ! k)"
  obtains j t where "destroy_retired_if_unused env i s = Inr (Some j, t)" and "j \<le> k"
proof -
  let ?slot = "cm_slots s ! i"
  let ?used = "endpoint_in_use (cm_requests s) (qs_planeId ?slot)"
  obtain j where j: "find_index (\<lambda>ep. \<not> ?used ep) (qs_retired ?slot) = Some j" "j \<le> k"
    using erased_at [where used = ?used, OF assms(2,3)] by blast
  obtain u where u: "for_all_do (filter (\<lambda>ep. \<not> ?used ep) (qs_retired ?slot)) (\<lambda>ep. seq (destroy_endpoint env ep) (\<lambda>_. ret ())) s = Inr ((), u)"
    using destroy_all_runs by blast
  then have "i < length (cm_slots u)" using for_all_do_keeps_slots assms(1) by metis
  then show ?thesis using that [of j] j u assms(1)
    by (simp add: destroy_retired_if_unused_def get_slot_def put_slot_def prog_simps Let_def)
qed

lemma not_in_use_update:
  assumes "r < length reqs" and "\<not> outstanding req"
    and "\<not> endpoint_in_use (reqs[r := default_request]) p ep"
  shows "\<not> endpoint_in_use (reqs[r := req]) p ep"
proof
  assume "endpoint_in_use (reqs[r := req]) p ep"
  then obtain q where q: "q < length reqs" "outstanding (reqs[r := req] ! q)" "rq_planeId (reqs[r := req] ! q) = p"
      "rq_generation (reqs[r := req] ! q) = ep_generation ep"
    by (auto simp: endpoint_in_use_def in_set_conv_nth)
  then have "q \<noteq> r" using assms(1,2) by auto
  then have "reqs[r := default_request] ! q = reqs[r := req] ! q" by simp
  moreover have "reqs[r := default_request] ! q \<in> set (reqs[r := default_request])" using q(1) by (intro nth_mem) simp
  ultimately show False using assms(3) q unfolding endpoint_in_use_def by metis
qed

text \<open>C22. A late completion for a retired queue pair is undefined behaviour, in whatever state of the communicator it arrives:
  when it is polled alone and completes the last message that still refers to the endpoint being polled,
  \<open>destroyRetiredIfUnused\<close> erases that endpoint, and \<open>pollOne\<close> goes on polling through its reference into
  \<open>slot.retired\<close>.  So does \<open>progressCqs\<close>, which makes that call in its loop over \<open>slot.retired\<close>.\<close>

theorem late_completion_is_undefined:
  assumes slot: "i < length (cm_slots s)" "k < length (qs_retired (cm_slots s ! i))"
    and ep: "ep = qs_retired (cm_slots s ! i) ! k" "ep_cq ep \<noteq> null"
    and polled: "ibv_poll_cq env (ep_cq ep) 8 (world s) = (Some [wc], w)"
    and wc: "wc_status wc = IBV_WC_SUCCESS" "wc_wr_id wc = make_wr_id (int r) (ep_generation ep)"
    and req: "requests_ok (cm_requests s)" "r < NCCL_NET_MAX_REQUESTS" "rq_generation (cm_requests s ! r) = ep_generation ep"
    and last: "\<not> endpoint_in_use ((cm_requests s)[r := default_request]) (qs_planeId (cm_slots s ! i)) ep"
    and fuel: "2 \<le> env_fuel env"
  shows "poll_checked env i (RoleRetired k) s = Inl Undefined_behaviour \<and>
    (i = 0 \<and> k = 0 \<and> cm_slots s0 \<noteq> [] \<and> poll_checked env 0 RoleActive s0 = Inr (ncclSuccess, s1) \<and>
      poll_checked env 0 RoleShadow s1 = Inr (ncclSuccess, s) \<longrightarrow> progress_cqs env s0 = Inl Undefined_behaviour)"
proof -
  let ?s = "s\<lparr>world := w\<rparr>" and ?slot = "cm_slots s ! i" and ?req = "cm_requests s ! r"
  let ?done = "?req\<lparr>rq_completedSize := sint (wc_byte_len wc), rq_state := ReqDone\<rparr>"
  let ?v = "?s\<lparr>cm_requests := (cm_requests s)[r := ?done]\<rparr>"
  have len: "r < length (cm_requests s)" using req(1,2) by (simp add: requests_ok_def)
  have idx: "wr_request_index (wc_wr_id wc) = int r" using req(2) unfolding wc(2) by (simp add: NCCL_NET_MAX_REQUESTS_def)
  obtain u where u: "(if rq_kind ?req = ReqRecv then mark_recv_done (rq_seq ?req) else ret ()) ?v = Inr ((), u)"
      "cm_slots u = cm_slots s" "cm_requests u = (cm_requests s)[r := ?done]"
    by (cases "rq_kind ?req = ReqRecv") (auto simp: mark_recv_done_def modify_def ret_def split: prod.splits)
  have "\<not> outstanding ?done" by (simp add: outstanding_def)
  then have "\<not> endpoint_in_use (cm_requests u) (qs_planeId ?slot) ep"
    using last not_in_use_update [OF len] unfolding u(3) by blast
  then obtain j t where j: "destroy_retired_if_unused env i u = Inr (Some j, t)" "j \<le> k"
    using destroy_retired_erases [of i u k env] slot ep(1) u(2) by auto
  have handled: "handle_completion env i (RoleRetired k) wc ?s = Inr ((ncclSuccess, Some j), t)"
    using idx wc req len slot(1) u(1) j(1) unfolding handle_completion_def
    by (simp add: get_request_def put_request_def get_slot_def prog_simps classify_cq_status_def Let_def)
  have "poll_endpoint env ep 8 s = Inr (Some [wc], ?s)" using polled ep(2) by (simp add: poll_endpoint_def prog_simps)
  then have round: "poll_round env i (RoleRetired k) (False, False) s = Inr (Inl (True, True), t)"
    using slot ep(1) handled j(2) by (simp add: poll_round_def endpoint_at_def get_slot_def prog_simps note_erased_def)
  obtain n where "env_fuel env = Suc (Suc n)" using fuel by (metis add_2_eq_Suc le_Suc_ex)
  then have "poll_one env i (RoleRetired k) s = Inl Undefined_behaviour"
    by (simp add: poll_one_def seq_def round) (simp add: poll_round_def crash_def)
  then have call: "poll_checked env i (RoleRetired k) s = Inl Undefined_behaviour" by (simp add: poll_checked_def seq_def)
  moreover have "progress_cqs env s0 = Inl Undefined_behaviour"
    if h: "i = 0" "k = 0" "cm_slots s0 \<noteq> []" "poll_checked env 0 RoleActive s0 = Inr (ncclSuccess, s1)"
      "poll_checked env 0 RoleShadow s1 = Inr (ncclSuccess, s)"
  proof -
    obtain m where "length (cm_slots s0) = Suc m" using h(3) by (cases "cm_slots s0") simp_all
    moreover obtain m' where "length (qs_retired (cm_slots s ! 0)) = Suc m'" using slot(2) h(1) by (cases "qs_retired (cm_slots s ! 0)") simp_all
    ultimately show ?thesis using h call slot(1)
      by (simp add: progress_cqs_def upt_conv_Cons get_slot_def prog_simps del: upt_Suc)
  qed
  ultimately show ?thesis by blast
qed
theorem late_completion_is_undefined_witness:
  "comm_ok late_comm \<and> progress_cqs quick_env late_comm = Inl Undefined_behaviour"
proof -
  let ?polled = "late_comm\<lparr>world := (world late_comm)\<lparr>sw_cqes := [[late_completion]]\<rparr>\<rparr>"
  have room: "length initial_requests = 32" by (simp add: initial_requests_free)
  have active: "poll_checked quick_env 0 RoleActive late_comm = Inr (ncclSuccess, ?polled)"
    by (simp add: poll_checked_def poll_one_def poll_round_def endpoint_at_def poll_endpoint_def get_slot_def prog_simps
      late_comm_def posted_comm_def comm_samples numeral_3_eq_3 world_samples)
  have shadow: "poll_checked quick_env 0 RoleShadow ?polled = Inr (ncclSuccess, ?polled)"
    by (simp add: poll_checked_def poll_one_def poll_round_def endpoint_at_def poll_endpoint_def get_slot_def prog_simps
      late_comm_def posted_comm_def comm_samples numeral_3_eq_3 world_samples)
  have free: "\<not> outstanding req" if "req \<in> set (initial_requests[0 := default_request])" for req
    using that initial_idle by (auto simp: default_request_def outstanding_def dest!: set_update_subset_insert [THEN subsetD])
  have "requests_ok (cm_requests ?polled)" using late_ok by (simp add: comm_ok_def)
  moreover have "\<not> endpoint_in_use ((cm_requests ?polled)[0 := default_request]) (qs_planeId (cm_slots ?polled ! 0)) retired_endpoint"
    using free unfolding endpoint_in_use_def by (auto simp: late_comm_def posted_comm_def sample_comm_def)
  ultimately show ?thesis
    using late_completion_is_undefined [of 0 ?polled 0 retired_endpoint quick_env late_completion "(world late_comm)\<lparr>sw_cqes := []\<rparr>" 0
        late_comm ?polled] late_ok active shadow room
    by (simp add: late_comm_def retired_endpoint_def late_completion_def posted_comm_def sample_comm_def world_samples NCCL_NET_MAX_REQUESTS_def)
qed


section \<open>A submission without a usable plane\<close>

definition broken_plane :: plane_snapshot where
  "broken_plane = default_snapshot\<lparr>ps_health := Broken\<rparr>"

definition receiver :: "bool \<Rightarrow> sample_world comm_st" where
  "receiver plane_up = sample_comm\<lparr>planes := [if plane_up then default_snapshot else broken_plane]\<rparr>"

lemma quiet_progress:
  assumes "cm_slots s = cm_slots sample_comm" "cm_failed s = False" "planes s = [plane]" "ps_planeId plane = 0"
    "ps_health plane = Broken" "peer_fd s = 3" "peer_rx s = []" "\<not> has_outstanding s" "world s = world sample_comm"
  shows "comm_progress quick_env s = Inr (ncclSuccess, s)"
proof -
  have "progress_cqs quick_env s = Inr (ncclSuccess, s)"
    using assms by (simp add: progress_cqs_def poll_checked_def poll_one_def poll_round_def endpoint_at_def poll_endpoint_def
      get_slot_def prog_simps comm_samples numeral_3_eq_3 world_samples)
  moreover have "progress_recovery quick_env s = Inr (ncclSuccess, s)"
    using assms by (simp add: progress_recovery_def recover_slot_def prog_simps get_slot_def table_get_def table_op_def apply_ops_def
       comm_samples world_samples Let_def plane_allows_qp_recovery_def slot_at_generation_def)
  moreover have "progress_control quick_env s = Inr (ncclSuccess, s)"
    using assms by (intro quiet_control) simp_all
  ultimately show ?thesis
    using replay_all_idle [OF assms(8)] assms(2) by (simp add: comm_progress_def prog_simps)
qed


definition turned_away :: "request_kind \<Rightarrow> sample_world comm_st" where
  "turned_away kind = (receiver False)\<lparr>cm_nextSeq := 2, cm_requests := initial_requests[0 := default_request\<lparr>rq_index := 0,
     rq_kind := kind, rq_seq := 1, rq_data := 0x1000, rq_size := 64, rq_mhandle := 1\<rparr>]\<rparr>"

lemma turned_away_run: "submit quick_env kind 0x1000 64 0 1 (receiver False) = Inr ((ncclSuccess, None), turned_away kind)"
proof -
  have alloc: "find_index reusable initial_requests = Some 0"
    by (simp add: find_index_Some_iff initial_requests_free reusable_def default_request_def)
  have room: "0 < length initial_requests" by (simp add: initial_requests_free)
  have idle: "\<not> has_outstanding (receiver False)" using initial_idle by (simp add: has_outstanding_def receiver_def sample_comm_def)
  have progress: "comm_progress quick_env (receiver False) = Inr (ncclSuccess, receiver False)"
    by (rule quiet_progress [where plane = broken_plane])
      (use idle in \<open>simp_all add: receiver_def broken_plane_def default_snapshot_def sample_comm_def\<close>)
  show ?thesis
    using room
    by (simp add: submit_def prog_simps progress idle)
      (simp add: receiver_def turned_away_def broken_plane_def comm_samples alloc_request_def alloc prog_simps put_request_def
       update_request_def get_request_def post_request_def select_def table_get_def table_op_def apply_ops_def selectable_def
       UINT32_MAX_def Let_def world_samples)
qed

text \<open>A submission turned away consumes a sequence number: with its plane broken \<open>isend\<close> returns success
  and no request, yet the next message is numbered one higher, while the peer's receive keeps the
  number the message would have had.\<close>

theorem turned_away_send_burns_a_number:
  "comm_isend quick_env 0x1000 64 0 1 (receiver False) = Inr ((ncclSuccess, None), turned_away ReqSend) \<and>
   cm_nextSeq (receiver False) = 1 \<and> cm_nextSeq (turned_away ReqSend) = 2"
  using turned_away_run [of ReqSend]
  by (simp add: comm_isend_def kMaxPluginBytes_def) (simp add: receiver_def turned_away_def sample_comm_def)





end
