(* ===== verification/BinaryTrees.thy ===== *)
theory BinaryTrees
  imports Prelude
begin

text \<open>
  The double binary trees NCCL builds over the ranks of a communicator, \<open>src/graph/trees.cc\<close>.

  Ranks are natural numbers and a missing neighbour is -1.  The out-parameter \<open>parentChildType\<close>,
  which the root does not write, is an option.  The source computes in \<open>int\<close>; every value it
  forms is at most twice the smallest power of two that is not below \<open>nranks\<close>, so nothing
  overflows up to \<open>2^29\<close> ranks.

  The lemmas show that the neighbours computed rank by rank, without communication, fit together:
  parent and child agree in both directions, every rank is connected to the root in at most
  logarithmically many steps, and the second tree is the first one with its ranks renamed.
\<close>

section \<open>One tree\<close>

text \<open>\<open>for (bit=1; bit<nranks; bit<<=1) if (bit & rank) break;\<close> from a given \<open>bit\<close> on.  The test
  \<open>0 < bit\<close> always holds, the loop starts at 1.\<close>

function find_bit :: "nat \<Rightarrow> nat \<Rightarrow> nat \<Rightarrow> nat" where
  "find_bit nranks rank b =
     (if 0 < b \<and> b < nranks then
        (if b AND rank \<noteq> 0 then b else find_bit nranks rank (push_bit 1 b))
      else b)"
  by auto
termination by (relation "measure (\<lambda>(n, r, b). n - b)") (auto simp: push_bit_eq_mult)

declare find_bit.simps [simp del]

text \<open>The loop that halves \<open>lowbit\<close> until the second child is a rank.\<close>

function fit_child :: "nat \<Rightarrow> nat \<Rightarrow> int \<Rightarrow> nat \<Rightarrow> int" where
  "fit_child nranks rank down1 lowbit =
     (if int nranks \<le> down1
      then fit_child nranks rank (if lowbit = 0 then -1 else int (rank + lowbit)) (drop_bit 1 lowbit)
      else down1)"
  by auto
termination
  by (relation "measure (\<lambda>(n, r, d, l). if d = -1 then 0 else Suc l)") (auto simp: drop_bit_eq_div)

declare fit_child.simps [simp del]

record tree_node =
  tn_up :: int
  tn_down0 :: int
  tn_down1 :: int
  tn_childType :: "nat option"

definition get_btree :: "nat \<Rightarrow> nat \<Rightarrow> tree_node" where
  "get_btree nranks rank =
     (let b = find_bit nranks rank 1 in
      if rank = 0
      then \<lparr>tn_up = -1, tn_down0 = -1,
            tn_down1 = (if 1 < nranks then int (drop_bit 1 b) else -1), tn_childType = None\<rparr>
      else
        let up = (rank XOR b) OR push_bit 1 b;
            up = (if nranks \<le> up then rank XOR b else up);
            lowbit = drop_bit 1 b;
            down0 = (if lowbit = 0 then -1 else int rank - int lowbit);
            down1 = (if lowbit = 0 then -1 else int (rank + lowbit))
        in \<lparr>tn_up = int up, tn_down0 = down0, tn_down1 = fit_child nranks rank down1 lowbit,
            tn_childType = Some (if rank < up then 0 else 1)\<rparr>)"

section \<open>The double tree\<close>

definition rename :: "(int \<Rightarrow> int) \<Rightarrow> tree_node \<Rightarrow> tree_node" where
  "rename f t =
     t\<lparr>tn_up := (if tn_up t = -1 then -1 else f (tn_up t)),
       tn_down0 := (if tn_down0 t = -1 then -1 else f (tn_down0 t)),
       tn_down1 := (if tn_down1 t = -1 then -1 else f (tn_down1 t))\<rparr>"

definition second_tree :: "nat \<Rightarrow> nat \<Rightarrow> tree_node" where
  "second_tree nranks rank =
     (if nranks mod 2 = 1
      then rename (\<lambda>x. (x + 1) mod int nranks)
             (get_btree nranks (nat ((int rank - 1 + int nranks) mod int nranks)))
      else rename (\<lambda>x. int nranks - 1 - x) (get_btree nranks (nranks - 1 - rank)))"

definition get_dtree :: "nat \<Rightarrow> nat \<Rightarrow> tree_node \<times> tree_node" where
  "get_dtree nranks rank = (get_btree nranks rank, second_tree nranks rank)"

section \<open>Ranks by their lowest bit\<close>

lemma lowest_bit:
  assumes "0 < (r :: nat)"
  obtains m k where "r = (2 * m + 1) * 2 ^ k"
  using assms
proof (induction r arbitrary: thesis rule: less_induct)
  case (less r)
  show ?case
  proof (cases "even r")
    case True
    then have "0 < r div 2" and "r div 2 < r" and "r = 2 * (r div 2)" using less.prems by auto
    then obtain m k where "r div 2 = (2 * m + 1) * 2 ^ k" using less.IH by blast
    with \<open>r = 2 * (r div 2)\<close> have "r = (2 * m + 1) * 2 ^ Suc k" by simp
    then show ?thesis by (rule less.prems)
  next
    case False
    then have "r = (2 * (r div 2) + 1) * 2 ^ 0" by simp
    then show ?thesis by (rule less.prems)
  qed
qed

lemma and_odd_multiple:
  "i \<le> k \<Longrightarrow> ((2 ^ i :: nat) AND ((2 * m + 1) * 2 ^ k) = 0) \<longleftrightarrow> i \<noteq> k"
proof -
  assume "i \<le> k"
  then obtain e where k: "k = i + e" using le_Suc_ex by blast
  then have "(2 * m + 1) * 2 ^ k = ((2 * m + 1) * 2 ^ e) * (2 :: nat) ^ i"
    by (simp add: power_add algebra_simps)
  then have "(2 * m + 1) * 2 ^ k div (2 :: nat) ^ i = (2 * m + 1) * 2 ^ e" by simp
  then have "odd ((2 * m + 1) * 2 ^ k div (2 :: nat) ^ i) \<longleftrightarrow> i = k" using k by (cases e) auto
  then show ?thesis by (simp add: and.commute [of "2 ^ i"] and_exp_eq_0_iff_not_bit bit_iff_odd)
qed

lemma find_bit_lowest:
  assumes "(2 * m + 1) * 2 ^ k < n" and "i \<le> k"
  shows "find_bit n ((2 * m + 1) * 2 ^ k) (2 ^ i) = 2 ^ k"
  using assms(2)
proof (induction "k - i" arbitrary: i)
  case 0
  have "2 ^ k \<le> (2 * m + 1) * 2 ^ k" by simp
  with assms(1) have "(2 :: nat) ^ k < n" by linarith
  with 0 and_odd_multiple [of i k m] show ?case by (subst find_bit.simps) (simp add: algebra_simps)
next
  case (Suc d)
  then have "i < k" by simp
  then have "(2 :: nat) ^ i < 2 ^ k" by simp
  also have "2 ^ k \<le> (2 * m + 1) * 2 ^ k" by simp
  finally have "2 ^ i < n" using assms(1) by simp
  moreover have "find_bit n ((2 * m + 1) * 2 ^ k) (2 ^ Suc i) = 2 ^ k"
    using Suc.hyps(2) \<open>i < k\<close> by (intro Suc.hyps(1)) auto
  moreover have "push_bit 1 (2 ^ i :: nat) = 2 ^ Suc i" by (simp add: push_bit_eq_mult)
  ultimately show ?case using \<open>i < k\<close> and_odd_multiple [of i k m]
    by (subst find_bit.simps) (simp del: power_Suc push_bit_Suc)
qed

lemma find_bit_root:
  assumes "2 ^ j div 2 < n" and "n \<le> 2 ^ j" and "i \<le> j"
  shows "find_bit n 0 (2 ^ i) = 2 ^ j"
  using assms(3)
proof (induction "j - i" arbitrary: i)
  case 0
  with assms(2) show ?case by (subst find_bit.simps) simp
next
  case (Suc d)
  then obtain j' where j: "j = Suc j'" and "i \<le> j'" by (cases j) auto
  then have "(2 :: nat) ^ i \<le> 2 ^ j'" by simp
  also have "2 ^ j' < n" using assms(1) j by simp
  finally have "2 ^ i < n" .
  moreover have "find_bit n 0 (2 ^ Suc i) = 2 ^ j"
    using Suc.hyps(2) \<open>i \<le> j'\<close> j by (intro Suc.hyps(1)) auto
  ultimately show ?case by (subst find_bit.simps) (simp add: push_bit_eq_mult mult.commute)
qed

section \<open>The second child\<close>

lemma fit_child_fits: "d < int n \<Longrightarrow> fit_child n r d l = d"
  by (subst fit_child.simps) simp

lemma fit_child_found:
  assumes "i \<le> j" and "r + 2 ^ i < n" and "\<And>h. i < h \<Longrightarrow> h \<le> j \<Longrightarrow> n \<le> r + 2 ^ h"
    and "int n \<le> d"
  shows "fit_child n r d (2 ^ j) = int (r + 2 ^ i)"
  using assms(1,3,4)
proof (induction "j - i" arbitrary: j d)
  case 0
  have "fit_child n r (int (r + 2 ^ i)) l = int (r + 2 ^ i)" for l
    using assms(2) by (intro fit_child_fits) linarith
  with 0 show ?case by (subst fit_child.simps) (simp add: fit_child_fits del: One_nat_def)
next
  case (Suc e)
  then obtain j' where j: "j = Suc j'" and "i \<le> j'" by (cases j) auto
  with Suc.prems(2) [of j] have "n \<le> r + 2 ^ j" by simp
  then have "int n \<le> int (r + 2 ^ j)" by linarith
  then have "fit_child n r (int (r + 2 ^ j)) (2 ^ j') = int (r + 2 ^ i)"
    using Suc.hyps(2) Suc.prems(2) \<open>i \<le> j'\<close> j by (intro Suc.hyps(1)) auto
  with Suc.prems(3) j show ?case by (subst fit_child.simps) (simp add: drop_bit_eq_div)
qed

lemma fit_child_none:
  assumes "\<And>h. h \<le> j \<Longrightarrow> n \<le> r + 2 ^ h" and "int n \<le> d"
  shows "fit_child n r d (2 ^ j) = -1"
  using assms
proof (induction j arbitrary: d)
  case 0
  from 0(1) [of 0] have *: "int n \<le> int (r + 1)" by simp
  with 0 show ?case
    by (subst fit_child.simps, subst fit_child.simps, subst fit_child.simps) simp
next
  case (Suc j)
  from Suc.prems(1) [of "Suc j"] have *: "int n \<le> int (r + 2 ^ Suc j)" by linarith
  then have "fit_child n r (int (r + 2 ^ Suc j)) (2 ^ j) = -1"
    using Suc.prems(1) by (intro Suc.IH) auto
  with Suc.prems(2) show ?case by (subst fit_child.simps) (simp add: drop_bit_eq_div)
qed

section \<open>The neighbours of a rank\<close>

definition parent_of :: "nat \<Rightarrow> nat \<Rightarrow> nat \<Rightarrow> nat" where
  "parent_of n m k =
     (if even m \<and> (m + 1) * 2 ^ Suc k < n then (m + 1) * 2 ^ Suc k else m * 2 ^ Suc k)"

lemma xor_lowest: "((2 * m + 1) * 2 ^ k XOR 2 ^ k :: nat) = m * 2 ^ Suc k"
proof -
  have "((2 * m + 1) * 2 ^ k XOR 2 ^ k :: nat) = push_bit k ((2 * m + 1) XOR 1)"
    unfolding push_bit_xor by (simp add: push_bit_eq_mult)
  also have "(2 * m + 1) XOR (1 :: nat) = 2 * m" by (simp add: xor_Suc_0_eq)
  finally show ?thesis by (simp add: push_bit_eq_mult)
qed

lemma or_next: "(m * 2 ^ k OR 2 ^ k :: nat) = (if even m then (m + 1) * 2 ^ k else m * 2 ^ k)"
proof -
  have "(m * 2 ^ k OR 2 ^ k :: nat) = push_bit k (m OR 1)"
    unfolding push_bit_or by (simp add: push_bit_eq_mult)
  then show ?thesis by (simp add: or_Suc_0_eq push_bit_eq_mult algebra_simps)
qed

lemma get_btree_inner:
  assumes r: "r = (2 * m + 1) * 2 ^ k" and "r < n"
  shows "get_btree n r =
    \<lparr>tn_up = int (parent_of n m k),
     tn_down0 = (if k = 0 then -1 else int (r - 2 ^ (k - 1))),
     tn_down1 = (if k = 0 then -1 else fit_child n r (int (r + 2 ^ (k - 1))) (2 ^ (k - 1))),
     tn_childType = Some (if r < parent_of n m k then 0 else 1)\<rparr>"
proof -
  have b: "find_bit n r 1 = 2 ^ k" using find_bit_lowest [of m k n 0] assms by simp
  have low: "drop_bit 1 (2 ^ k :: nat) = (if k = 0 then 0 else 2 ^ (k - 1))"
    by (cases k) (simp_all add: drop_bit_eq_div)
  have "m * 2 ^ Suc k \<le> r" by (simp add: r)
  then have up: "(if n \<le> (r XOR 2 ^ k) OR push_bit 1 (2 ^ k) then r XOR 2 ^ k
         else (r XOR 2 ^ k) OR push_bit 1 (2 ^ k)) = parent_of n m k"
    using xor_lowest [of m k] or_next [of m "Suc k"] \<open>r < n\<close>
    by (auto simp: r parent_of_def push_bit_eq_mult mult.commute)
  have "2 ^ (k - 1) \<le> (2 :: nat) ^ k" by (rule power_increasing) auto
  also have "2 ^ k \<le> r" by (simp add: r)
  finally have le: "2 ^ (k - 1) \<le> r" .
  have "r \<noteq> 0" by (simp add: r)
  have none: "fit_child n r (-1) 0 = -1" by (rule fit_child_fits) simp
  show ?thesis
    unfolding get_btree_def b Let_def up low using \<open>r \<noteq> 0\<close> le none
    by (auto simp: of_nat_diff simp del: push_bit_Suc)
qed


section \<open>Parents and children agree\<close>

definition well_linked :: "nat \<Rightarrow> nat \<Rightarrow> (nat \<Rightarrow> tree_node) \<Rightarrow> bool" where
  "well_linked n root t \<longleftrightarrow>
     root < n \<and> tn_up (t root) = -1 \<and>
     (\<forall>r < n. r \<noteq> root \<longrightarrow> (\<exists>u < n. tn_up (t r) = int u \<and>
        (tn_childType (t r) = Some 0 \<and> tn_down0 (t u) = int r \<or>
         tn_childType (t r) = Some 1 \<and> tn_down1 (t u) = int r))) \<and>
     (\<forall>r < n. tn_down0 (t r) \<noteq> -1 \<longrightarrow> (\<exists>c < n. tn_down0 (t r) = int c \<and>
        tn_up (t c) = int r \<and> tn_childType (t c) = Some 0)) \<and>
     (\<forall>r < n. tn_down1 (t r) \<noteq> -1 \<longrightarrow> (\<exists>c < n. tn_down1 (t r) = int c \<and>
        tn_up (t c) = int r \<and> tn_childType (t c) = Some 1))"

lemma get_btree_root:
  "2 ^ j < n \<Longrightarrow> n \<le> 2 ^ Suc j \<Longrightarrow>
   get_btree n 0 = \<lparr>tn_up = -1, tn_down0 = -1, tn_down1 = int (2 ^ j), tn_childType = None\<rparr>"
proof -
  assume j: "2 ^ j < n" "n \<le> 2 ^ Suc j"
  have "(1 :: nat) \<le> 2 ^ j" by simp
  then have "1 < n" using j by linarith
  moreover have "find_bit n 0 1 = 2 ^ Suc j" using find_bit_root [of "Suc j" n 0] j by simp
  ultimately show ?thesis by (simp add: get_btree_def drop_bit_eq_div)
qed

lemma root_down0: "tn_down0 (get_btree n 0) = -1"
  by (simp add: get_btree_def Let_def)

lemma power_interval:
  assumes "1 < (n :: nat)"
  obtains j where "2 ^ j < n" and "n \<le> 2 ^ Suc j"
proof -
  have "n < 2 ^ n" by simp
  then have "\<exists>j. n \<le> 2 ^ j" using less_imp_le by blast
  define e where "e = (LEAST j. n \<le> 2 ^ j)"
  have e: "n \<le> 2 ^ e" unfolding e_def using \<open>\<exists>j. n \<le> 2 ^ j\<close> by (rule LeastI_ex)
  with assms obtain j where j: "e = Suc j" by (cases e) auto
  then have "\<not> n \<le> 2 ^ j" unfolding e_def by (intro not_less_Least) simp
  with e j that show ?thesis by force
qed

lemma parent_link:
  assumes "r < n" and "r \<noteq> 0"
  shows "\<exists>u < n. tn_up (get_btree n r) = int u \<and>
    (tn_childType (get_btree n r) = Some 0 \<and> tn_down0 (get_btree n u) = int r \<or>
     tn_childType (get_btree n r) = Some 1 \<and> tn_down1 (get_btree n u) = int r)"
proof -
  obtain m k where r: "r = (2 * m + 1) * 2 ^ k" using lowest_bit assms(2) by blast
  let ?u = "parent_of n m k"
  have node: "tn_up (get_btree n r) = int ?u"
    "tn_childType (get_btree n r) = Some (if r < ?u then 0 else 1)"
    using get_btree_inner [OF r assms(1)] by simp_all
  consider (second) "odd m" | (first) "even m" "(m + 1) * 2 ^ Suc k < n"
    | (cut) "even m" "n \<le> (m + 1) * 2 ^ Suc k" by linarith
  then show ?thesis
  proof cases
    case second
    then obtain m' where m: "m = 2 * m' + 1" by (auto elim: oddE)
    have u: "?u = (2 * m' + 1) * 2 ^ Suc k" using second by (simp add: parent_of_def m)
    then have plus: "?u + 2 ^ k = r" by (simp add: r m)
    then have "?u < n" "\<not> r < ?u" using assms(1) by linarith+
    moreover have "tn_down1 (get_btree n ?u) = int r"
      using get_btree_inner [OF u \<open>?u < n\<close>] plus assms(1) by (simp add: fit_child_fits)
    ultimately show ?thesis using node by auto
  next
    case first
    then obtain m' where m: "m = 2 * m'" by (auto elim: evenE)
    have u: "?u = (2 * m' + 1) * 2 ^ Suc k" using first by (simp add: parent_of_def m)
    have "?u < n" using first by (simp add: parent_of_def)
    moreover have "?u = r + 2 ^ k" unfolding u by (simp add: r m)
    then have minus: "?u - 2 ^ k = r" "r < ?u" by simp_all
    moreover have "tn_down0 (get_btree n ?u) = int r"
      using get_btree_inner [OF u \<open>?u < n\<close>] minus by simp
    ultimately show ?thesis using node by auto
  next
    case cut
    then have u: "?u = m * 2 ^ Suc k" by (auto simp: parent_of_def)
    then have plus: "?u + 2 ^ k = r" by (simp add: r)
    then have bounds: "?u < n" "\<not> r < ?u" using assms(1) by linarith+
    have "tn_down1 (get_btree n ?u) = int r"
    proof (cases "m = 0")
      case True
      then have "2 ^ k < n" "n \<le> 2 ^ Suc k" using assms(1) cut r by auto
      from get_btree_root [OF this] True u r show ?thesis by simp
    next
      case False
      then obtain m' e where m: "m = (2 * m' + 1) * 2 ^ e" using lowest_bit by blast
      with cut(1) obtain e' where e: "e = Suc e'" by (cases e) auto
      have u': "?u = (2 * m' + 1) * 2 ^ (Suc k + e)" unfolding u by (simp add: m power_add algebra_simps)
      have far: "n \<le> ?u + 2 ^ h" if "k < h" for h
      proof -
        from that have "(2 :: nat) ^ Suc k \<le> 2 ^ h" by (intro power_increasing) auto
        with cut(2) u show ?thesis by simp
      qed
      have "k < k + e" by (simp add: e)
      from far [OF this] have "int n \<le> int (?u + 2 ^ (k + e))" by linarith
      then have "fit_child n ?u (int (?u + 2 ^ (k + e))) (2 ^ (k + e)) = int (?u + 2 ^ k)"
        using plus assms(1) far by (intro fit_child_found) auto
      with get_btree_inner [OF u' bounds(1)] plus show ?thesis by simp
    qed
    with node bounds show ?thesis by auto
  qed
qed


lemma first_child_link:
  assumes "r < n" and "tn_down0 (get_btree n r) \<noteq> -1"
  shows "\<exists>c < n. tn_down0 (get_btree n r) = int c \<and>
    tn_up (get_btree n c) = int r \<and> tn_childType (get_btree n c) = Some 0"
proof -
  have "r \<noteq> 0" using assms(2) by (metis root_down0)
  then obtain m k where r: "r = (2 * m + 1) * 2 ^ k" using lowest_bit by blast
  note node = get_btree_inner [OF r assms(1)]
  with assms(2) obtain k' where k: "k = Suc k'" by (cases k) auto
  let ?c = "r - 2 ^ k'"
  have c: "?c = (2 * (2 * m) + 1) * 2 ^ k'" by (simp add: r k algebra_simps)
  have "?c < n" using assms(1) by linarith
  have parent: "parent_of n (2 * m) k' = r" using assms(1) by (simp add: parent_of_def r k algebra_simps)
  have "?c < r" using \<open>r \<noteq> 0\<close> by simp
  with get_btree_inner [OF c \<open>?c < n\<close>] node parent k \<open>?c < n\<close> show ?thesis by auto
qed

lemma second_child_link:
  assumes "r < n" and "tn_down1 (get_btree n r) \<noteq> -1"
  shows "\<exists>c < n. tn_down1 (get_btree n r) = int c \<and>
    tn_up (get_btree n c) = int r \<and> tn_childType (get_btree n c) = Some 1"
proof (cases "r = 0")
  case True
  with assms(2) have "1 < n" by (auto simp: get_btree_def Let_def split: if_splits)
  then obtain j where j: "2 ^ j < n" "n \<le> 2 ^ Suc j" by (rule power_interval)
  have "parent_of n 0 j = 0" using j by (simp add: parent_of_def)
  with get_btree_inner [of "2 ^ j" 0 j n] get_btree_root [OF j] True j show ?thesis by auto
next
  case False
  then obtain m k where r: "r = (2 * m + 1) * 2 ^ k" using lowest_bit by blast
  note node = get_btree_inner [OF r assms(1)]
  with assms(2) obtain k' where k: "k = Suc k'" by (cases k) auto
  let ?fits = "\<lambda>i. i \<le> k' \<and> r + 2 ^ i < n"
  have "\<exists>i. ?fits i"
  proof (rule ccontr)
    assume "\<not> (\<exists>i. ?fits i)"
    then have far: "n \<le> r + 2 ^ h" if "h \<le> k'" for h using that not_less by blast
    from far [of k'] have "int n \<le> int (r + 2 ^ k')" by linarith
    with far have "fit_child n r (int (r + 2 ^ k')) (2 ^ k') = -1" by (intro fit_child_none)
    with assms(2) node k show False by simp
  qed
  define i where "i = Greatest ?fits"
  have i: "?fits i" unfolding i_def by (rule GreatestI_ex_nat [OF \<open>\<exists>i. ?fits i\<close>, of k']) simp
  have greatest: "h \<le> i" if "?fits h" for h unfolding i_def
    by (rule Greatest_le_nat [of ?fits, OF that, of k']) simp
  have far: "n \<le> r + 2 ^ h" if "i < h" "h \<le> k'" for h
  proof (rule ccontr)
    assume "\<not> n \<le> r + 2 ^ h"
    then have "?fits h" using that(2) by (simp only: not_le)
    then have "h \<le> i" by (rule greatest)
    with that(1) show False by simp
  qed
  let ?c = "r + 2 ^ i"
  have down1: "tn_down1 (get_btree n r) = int ?c"
  proof (cases "i = k'")
    case True
    have "fit_child n r (int ?c) l = int ?c" for l using i by (intro fit_child_fits) linarith
    with True node k show ?thesis by simp
  next
    case False
    with i far have "int n \<le> int (r + 2 ^ k')" by (metis le_neq_implies_less order_refl of_nat_le_iff)
    with i far have "fit_child n r (int (r + 2 ^ k')) (2 ^ k') = int ?c" by (intro fit_child_found) auto
    with node k show ?thesis by simp
  qed
  define M where "M = (2 * m + 1) * 2 ^ (k' - i)"
  have rM: "r = M * 2 ^ Suc i"
  proof -
    from i have "k = (k' - i) + Suc i" by (simp add: k)
    then have "(2 :: nat) ^ k = 2 ^ (k' - i) * 2 ^ Suc i" by (metis power_add)
    then show ?thesis by (simp add: M_def r algebra_simps)
  qed
  then have c: "?c = (2 * M + 1) * 2 ^ i" by (simp add: algebra_simps)
  have "parent_of n M i = r"
  proof (cases "i = k'")
    case True
    then have "odd M" by (simp add: M_def)
    then show ?thesis by (simp add: parent_of_def rM)
  next
    case False
    with i far [of "Suc i"] have "n \<le> (M + 1) * 2 ^ Suc i" by (simp add: rM)
    then show ?thesis by (simp add: parent_of_def rM)
  qed
  with get_btree_inner [OF c] i down1 show ?thesis by auto
qed

lemma get_btree_well_linked: "0 < n \<Longrightarrow> well_linked n 0 (get_btree n)"
  unfolding well_linked_def using parent_link first_child_link second_child_link
  by (simp add: get_btree_def Let_def)


section \<open>Every rank is connected to the root\<close>

text \<open>One step up the tree; the root stays where it is.\<close>

definition step_up :: "(nat \<Rightarrow> tree_node) \<Rightarrow> nat \<Rightarrow> nat" where
  "step_up t r = (if tn_up (t r) = -1 then r else nat (tn_up (t r)))"

text \<open>A step clears the lowest bit, or moves it up.\<close>

lemma step_up_lowest:
  assumes "2 ^ k dvd r" and "r < n"
  shows "2 ^ Suc k dvd step_up (get_btree n) r"
proof (cases "r = 0")
  case True
  then show ?thesis by (simp add: step_up_def get_btree_def Let_def)
next
  case False
  then obtain m j where r: "r = (2 * m + 1) * 2 ^ j" using lowest_bit by blast
  have "k \<le> j"
  proof (rule ccontr)
    assume "\<not> k \<le> j"
    then have "(2 :: nat) ^ Suc j dvd 2 ^ k" by (intro le_imp_power_dvd) auto
    from this assms(1) have "2 ^ Suc j dvd r" by (rule dvd_trans)
    then have "2 * 2 ^ j dvd (2 * m + 1) * 2 ^ j" by (simp only: r power_Suc)
    moreover have "(2 :: nat) ^ j \<noteq> 0" by simp
    ultimately have "2 dvd 2 * m + 1" using dvd_times_right_cancel_iff by blast
    then show False by simp
  qed
  then have "(2 :: nat) ^ Suc k dvd 2 ^ Suc j" by (intro le_imp_power_dvd) auto
  also have "2 ^ Suc j dvd parent_of n m j" by (simp add: parent_of_def)
  finally show ?thesis using get_btree_inner [OF r assms(2)] by (simp add: step_up_def)
qed

lemma step_up_below:
  assumes "r < n" shows "step_up (get_btree n) r < n"
proof (cases "r = 0")
  case True
  with assms show ?thesis by (simp add: step_up_def get_btree_def Let_def)
next
  case False
  from parent_link [OF assms False] obtain u where "u < n" "tn_up (get_btree n r) = int u" by blast
  then show ?thesis by (simp add: step_up_def)
qed

lemma steps_up_btree:
  assumes "r < n" and "n \<le> 2 ^ K"
  shows "(step_up (get_btree n) ^^ K) r = 0"
proof -
  have "2 ^ i dvd (step_up (get_btree n) ^^ i) r \<and> (step_up (get_btree n) ^^ i) r < n" for i
    by (induction i) (use assms(1) step_up_lowest step_up_below in auto)
  then have "2 ^ K dvd (step_up (get_btree n) ^^ K) r" "(step_up (get_btree n) ^^ K) r < 2 ^ K"
    using assms(2) less_le_trans by blast+
  then show ?thesis using nat_dvd_not_less by blast
qed

section \<open>Renamed trees\<close>

text \<open>A renaming \<open>f\<close> of the ranks whose inverse is \<open>g\<close>.\<close>

locale renaming =
  fixes n :: nat and f :: "int \<Rightarrow> int" and g :: "nat \<Rightarrow> nat"
  assumes f_range: "r < n \<Longrightarrow> 0 \<le> f (int r) \<and> nat (f (int r)) < n"
    and g_range: "r < n \<Longrightarrow> g r < n"
    and g_f: "r < n \<Longrightarrow> g (nat (f (int r))) = r"
    and f_g: "r < n \<Longrightarrow> f (int (g r)) = int r"
begin

lemma f_nat: "r < n \<Longrightarrow> \<exists>s < n. f (int r) = int s \<and> g s = r"
  using f_range [of r] g_f [of r] by (intro exI [of _ "nat (f (int r))"]) simp

lemma rename_well_linked:
  assumes t: "well_linked n root t"
  shows "well_linked n (nat (f (int root))) (\<lambda>r. rename f (t (g r)))"
proof -
  from t have root: "root < n" "tn_up (t root) = -1" by (auto simp: well_linked_def)
  have up: "\<exists>v < n. tn_up (rename f (t (g r))) = int v \<and>
      (tn_childType (rename f (t (g r))) = Some 0 \<and> tn_down0 (rename f (t (g v))) = int r \<or>
       tn_childType (rename f (t (g r))) = Some 1 \<and> tn_down1 (rename f (t (g v))) = int r)"
    if r: "r < n" "r \<noteq> nat (f (int root))" for r
  proof -
    have "g r \<noteq> root" using r f_g [of r] by auto
    with t g_range [OF r(1)] obtain u where u: "u < n" "tn_up (t (g r)) = int u"
      and down: "tn_childType (t (g r)) = Some 0 \<and> tn_down0 (t u) = int (g r) \<or>
         tn_childType (t (g r)) = Some 1 \<and> tn_down1 (t u) = int (g r)"
      unfolding well_linked_def by blast
    from f_nat [OF u(1)] obtain v where "v < n" "f (int u) = int v" "g v = u" by blast
    with u down f_g [OF r(1)] show ?thesis by (intro exI [of _ v]) (auto simp: rename_def)
  qed
  have down0: "\<exists>d < n. tn_down0 (rename f (t (g r))) = int d \<and>
      tn_up (rename f (t (g d))) = int r \<and> tn_childType (rename f (t (g d))) = Some 0"
    if r: "r < n" "tn_down0 (rename f (t (g r))) \<noteq> -1" for r
  proof -
    from r(2) have "tn_down0 (t (g r)) \<noteq> -1" by (auto simp: rename_def)
    with t g_range [OF r(1)] obtain c where c: "c < n" "tn_down0 (t (g r)) = int c"
      "tn_up (t c) = int (g r)" "tn_childType (t c) = Some 0"
      unfolding well_linked_def by blast
    from f_nat [OF c(1)] obtain d where "d < n" "f (int c) = int d" "g d = c" by blast
    with c f_g [OF r(1)] show ?thesis by (intro exI [of _ d]) (auto simp: rename_def)
  qed
  have down1: "\<exists>d < n. tn_down1 (rename f (t (g r))) = int d \<and>
      tn_up (rename f (t (g d))) = int r \<and> tn_childType (rename f (t (g d))) = Some 1"
    if r: "r < n" "tn_down1 (rename f (t (g r))) \<noteq> -1" for r
  proof -
    from r(2) have "tn_down1 (t (g r)) \<noteq> -1" by (auto simp: rename_def)
    with t g_range [OF r(1)] obtain c where c: "c < n" "tn_down1 (t (g r)) = int c"
      "tn_up (t c) = int (g r)" "tn_childType (t c) = Some 1"
      unfolding well_linked_def by blast
    from f_nat [OF c(1)] obtain d where "d < n" "f (int c) = int d" "g d = c" by blast
    with c f_g [OF r(1)] show ?thesis by (intro exI [of _ d]) (auto simp: rename_def)
  qed
  from root f_range [of root] g_f [of root] up down0 down1 show ?thesis
    unfolding well_linked_def by (simp add: rename_def)
qed

lemma rename_steps_up:
  assumes t: "well_linked n root t" and "r < n"
  shows "(step_up (\<lambda>r. rename f (t (g r))) ^^ K) (nat (f (int r))) = nat (f (int ((step_up t ^^ K) r)))
    \<and> (step_up t ^^ K) r < n"
proof (induction K)
  case 0
  show ?case using assms(2) by simp
next
  case (Suc K)
  define q where "q = (step_up t ^^ K) r"
  with Suc have "q < n" by simp
  with t have "tn_up (t q) = -1 \<or> (\<exists>u < n. tn_up (t q) = int u)" unfolding well_linked_def by metis
  then have "step_up (\<lambda>r. rename f (t (g r))) (nat (f (int q))) = nat (f (int (step_up t q)))
      \<and> step_up t q < n"
  proof
    assume "tn_up (t q) = -1"
    with \<open>q < n\<close> g_f show ?thesis by (simp add: step_up_def rename_def)
  next
    assume "\<exists>u < n. tn_up (t q) = int u"
    then obtain u where "u < n" "tn_up (t q) = int u" by blast
    moreover from \<open>u < n\<close> have "f (int u) \<noteq> -1" using f_range [of u] by linarith
    ultimately show ?thesis using \<open>q < n\<close> g_f by (simp add: step_up_def rename_def)
  qed
  with Suc show ?case by (simp add: q_def)
qed

end


text \<open>The shift for an odd number of ranks, the mirror for an even one.\<close>

lemma shift_back:
  assumes "s < n"
  shows "(int s - 1 + int n) mod int n = int (if s = 0 then n - 1 else s - 1)"
proof (cases "s = 0")
  case True
  with assms have eq: "int s - 1 + int n = int (n - 1)" by (simp add: of_nat_diff)
  show ?thesis unfolding eq using True assms by (subst mod_pos_pos_trivial) auto
next
  case False
  with assms show ?thesis by (simp add: of_nat_diff)
qed

interpretation shifted: renaming n "\<lambda>x. (x + 1) mod int n" "\<lambda>r. nat ((int r - 1 + int n) mod int n)" for n
proof
  fix r assume r: "r < n"
  have f: "nat ((int r + 1) mod int n) = (if Suc r = n then 0 else Suc r)"
    using r by (auto simp: nat_mod_distrib nat_add_distrib)
  have g: "nat ((int r - 1 + int n) mod int n) = (if r = 0 then n - 1 else r - 1)"
    unfolding shift_back [OF r] by simp
  show "0 \<le> (int r + 1) mod int n \<and> nat ((int r + 1) mod int n) < n" using f r by auto
  show "nat ((int r - 1 + int n) mod int n) < n" using g r by auto
  show "nat ((int (nat ((int r + 1) mod int n)) - 1 + int n) mod int n) = r"
    unfolding f using r shift_back [of "if Suc r = n then 0 else Suc r" n] by (auto simp del: of_nat_Suc)
  show "(int (nat ((int r - 1 + int n) mod int n)) + 1) mod int n = int r"
    using g r by (auto simp: of_nat_diff)
qed

interpretation mirrored: renaming n "\<lambda>x. int n - 1 - x" "\<lambda>r. n - 1 - r" for n
  by unfold_locales (auto simp: of_nat_diff)

definition second_root :: "nat \<Rightarrow> nat" where
  "second_root n = (if n mod 2 = 1 then 1 mod n else n - 1)"

lemma second_tree_cases:
  "n mod 2 = 1 \<Longrightarrow> second_tree n =
     (\<lambda>r. rename (\<lambda>x. (x + 1) mod int n) (get_btree n (nat ((int r - 1 + int n) mod int n))))"
  "n mod 2 \<noteq> 1 \<Longrightarrow> second_tree n = (\<lambda>r. rename (\<lambda>x. int n - 1 - x) (get_btree n (n - 1 - r)))"
  by (auto simp: second_tree_def fun_eq_iff)

lemma second_root_cases:
  "n mod 2 = 1 \<Longrightarrow> nat ((int 0 + 1) mod int n) = second_root n"
  "n mod 2 \<noteq> 1 \<Longrightarrow> nat (int n - 1 - int 0) = second_root n"
  by (simp_all add: second_root_def nat_mod_distrib)

lemma second_tree_well_linked: "0 < n \<Longrightarrow> well_linked n (second_root n) (second_tree n)"
  using shifted.rename_well_linked [OF get_btree_well_linked, of n]
    mirrored.rename_well_linked [OF get_btree_well_linked, of n] second_root_cases [of n]
  by (cases "n mod 2 = 1") (simp_all add: second_tree_cases)

lemma steps_up_second_tree:
  assumes "r < n" and "n \<le> 2 ^ K"
  shows "(step_up (second_tree n) ^^ K) r = second_root n"
proof -
  have wl: "well_linked n 0 (get_btree n)" using assms(1) by (intro get_btree_well_linked) simp
  show ?thesis
  proof (cases "n mod 2 = 1")
    case True
    let ?q = "nat ((int r - 1 + int n) mod int n)"
    have "?q < n" "(int ?q + 1) mod int n = int r"
      using shifted.g_range shifted.f_g assms(1) by blast+
    with shifted.rename_steps_up [OF wl \<open>?q < n\<close>, of K] steps_up_btree [OF \<open>?q < n\<close> assms(2)]
      second_root_cases(1) [OF True]
    show ?thesis by (simp add: second_tree_cases(1) [OF True])
  next
    case False
    let ?q = "n - 1 - r"
    have "?q < n" "int n - 1 - int ?q = int r" using assms(1) by auto
    with mirrored.rename_steps_up [OF wl \<open>?q < n\<close>, of K] steps_up_btree [OF \<open>?q < n\<close> assms(2)]
      second_root_cases(2) [OF False]
    show ?thesis by (simp add: second_tree_cases(2) [OF False])
  qed
qed

section \<open>Properties\<close>

text \<open>C33. Both trees of the double tree are consistent although every rank computes its own
  neighbours: the parent of a rank other than the root is a rank that lists it as the child its
  \<open>parentChildType\<close> says, and every child listed is a rank that has the lister as its parent.\<close>

theorem double_tree_links_agree:
  assumes "0 < nranks"
  shows "well_linked nranks 0 (\<lambda>r. fst (get_dtree nranks r)) \<and>
    well_linked nranks (second_root nranks) (\<lambda>r. snd (get_dtree nranks r))"
  using get_btree_well_linked [OF assms] second_tree_well_linked [OF assms]
  by (simp add: get_dtree_def)

theorem double_tree_links_agree_witness:
  "well_linked 5 0 (\<lambda>r. fst (get_dtree 5 r)) \<and> well_linked 5 1 (\<lambda>r. snd (get_dtree 5 r))"
  using double_tree_links_agree [of 5] by (simp add: second_root_def)

text \<open>C34. Both trees span all ranks and are shallow: from any rank at most \<open>K\<close> steps to the parent
  lead to the root when there are no more than \<open>2 ^ K\<close> ranks, so no rank is on a cycle.\<close>

theorem double_tree_depth:
  assumes "rank < nranks" and "nranks \<le> 2 ^ K"
  shows "(step_up (\<lambda>r. fst (get_dtree nranks r)) ^^ K) rank = 0 \<and>
    (step_up (\<lambda>r. snd (get_dtree nranks r)) ^^ K) rank = second_root nranks"
  using steps_up_btree [OF assms] steps_up_second_tree [OF assms] by (simp add: get_dtree_def)

theorem double_tree_depth_witness:
  "(step_up (\<lambda>r. fst (get_dtree 13 r)) ^^ 4) 11 = 0 \<and>
   (step_up (\<lambda>r. snd (get_dtree 13 r)) ^^ 4) 11 = 1"
  using double_tree_depth [of 11 13 4] by (simp add: second_root_def)

definition is_leaf :: "tree_node \<Rightarrow> bool" where
  "is_leaf t \<longleftrightarrow> tn_down0 t = -1 \<and> tn_down1 t = -1"

lemma odd_rank_is_leaf: "odd r \<Longrightarrow> r < n \<Longrightarrow> is_leaf (get_btree n r)"
proof -
  assume "odd r" "r < n"
  then obtain m where "r = (2 * m + 1) * 2 ^ 0" by (auto elim: oddE)
  from get_btree_inner [OF this \<open>r < n\<close>] show ?thesis by (simp add: is_leaf_def)
qed

lemma rename_leaf: "is_leaf t \<Longrightarrow> is_leaf (rename f t)"
  by (simp add: is_leaf_def rename_def)

text \<open>The two trees share the work: every rank is a leaf of at least one of them, with the one
  exception of rank 0 when the number of ranks is odd.\<close>

theorem double_tree_leaf:
  assumes "rank < nranks" and "even nranks \<or> rank \<noteq> 0"
  shows "is_leaf (fst (get_dtree nranks rank)) \<or> is_leaf (snd (get_dtree nranks rank))"
proof (cases "odd rank")
  case True
  then show ?thesis using odd_rank_is_leaf assms(1) by (simp add: get_dtree_def)
next
  case False
  show ?thesis
  proof (cases "nranks mod 2 = 1")
    case True
    with False assms have "rank \<noteq> 0" "odd (rank - 1)" "rank - 1 < nranks" by presburger+
    with odd_rank_is_leaf have "is_leaf (get_btree nranks (rank - 1))" by blast
    moreover have "nat ((int rank - 1 + int nranks) mod int nranks) = rank - 1"
      unfolding shift_back [OF assms(1)] using \<open>rank \<noteq> 0\<close> by simp
    ultimately show ?thesis
      unfolding get_dtree_def second_tree_def by (simp only: snd_conv True if_True rename_leaf simp_thms)
  next
    case even: False
    with False assms(1) have "odd (nranks - 1 - rank)" by presburger
    with odd_rank_is_leaf [of "nranks - 1 - rank" nranks] assms(1) even show ?thesis
      by (simp add: get_dtree_def second_tree_def rename_leaf)
  qed
qed

theorem double_tree_leaf_witness:
  "is_leaf (fst (get_dtree 6 2)) \<or> is_leaf (snd (get_dtree 6 2))"
  using double_tree_leaf [of 2 6] by simp

end
