(* ===== verification/RankRings.thy ===== *)
theory RankRings
  imports Prelude
begin

text \<open>
  Building the rings of the channels from the successor of every rank, \<open>src/graph/rings.cc\<close>: the
  ring of a channel is walked from the own rank on, and a walk that does not come back after
  \<open>nranks\<close> steps, or that misses a rank, is an internal error.

  The state is the array of the rings and the bitmap of the ranks found, 64 to a word.  The
  arrays' bounds are those of the lists; an access outside is undefined behaviour.  Whether
  the bitmap can be allocated is an argument.  Printing the rings has no effect on the state.
\<close>

record ring_st =
  rg_rings :: "int list"
  rg_found :: "u64 list"

section \<open>The walk along one ring\<close>

definition mark_rank :: "int \<Rightarrow> (ring_st, unit) prog" where
  "mark_rank current = (\<lambda>s.
     let w = nat (current div 64); b = nat (current mod 64) in
     if current < 0 \<or> length (rg_found s) \<le> w then Inl Undefined_behaviour
     else Inr ((), s\<lparr>rg_found := (rg_found s)[w := rg_found s ! w OR push_bit b 1]\<rparr>))"

definition put_ring :: "nat \<Rightarrow> int \<Rightarrow> (ring_st, unit) prog" where
  "put_ring k current = (\<lambda>s.
     if length (rg_rings s) \<le> k then Inl Undefined_behaviour
     else Inr ((), s\<lparr>rg_rings := (rg_rings s)[k := current]\<rparr>))"

definition read_next :: "int list \<Rightarrow> int \<Rightarrow> (ring_st, int) prog" where
  "read_next nexts k =
     (if k < 0 \<or> int (length nexts) \<le> k then crash Undefined_behaviour else ret (nexts ! nat k))"

text \<open>The iterations from \<open>i\<close> on, of which \<open>c\<close> are left.\<close>

fun walk_ring :: "int list \<Rightarrow> nat \<Rightarrow> nat \<Rightarrow> nat \<Rightarrow> nat \<Rightarrow> int \<Rightarrow> (ring_st, int) prog" where
  "walk_ring nexts nranks r i 0 current = ret current"
| "walk_ring nexts nranks r i (Suc c) current =
     seq (mark_rank current) (\<lambda>_.
     seq (put_ring (r * nranks + i) current) (\<lambda>_.
     seq (read_next nexts (int (r * nranks) + current))
       (walk_ring nexts nranks r (Suc i) c)))"

section \<open>The check that all ranks were found\<close>

text \<open>The first rank from \<open>i\<close> on that is missing.  A full word is skipped at its first bit.\<close>

function missing_rank :: "u64 list \<Rightarrow> nat \<Rightarrow> nat \<Rightarrow> nat option" where
  "missing_rank found nranks i =
     (if i < nranks then
        let bits = found ! (i div 64); mask = push_bit (i mod 64) 1 :: u64 in
        if mask = 1 \<and> bits = 0xffffffffffffffff then missing_rank found nranks (i + 64)
        else if bits AND mask = 0 then Some i
        else missing_rank found nranks (i + 1)
      else None)"
  by auto
termination by (relation "measure (\<lambda>(f, n, i). n - i)") auto

declare missing_rank.simps [simp del]

definition build_ring ::
    "int list \<Rightarrow> int \<Rightarrow> nat \<Rightarrow> nat \<Rightarrow> (ring_st, nccl_result) prog" where
  "build_ring nexts rank nranks r =
     seq (walk_ring nexts nranks r 0 nranks rank) (\<lambda>current.
     if current \<noteq> rank then ret ncclInternalError
     else seq (gets rg_found) (\<lambda>found.
       case missing_rank found nranks 0 of
         Some i \<Rightarrow> ret ncclInternalError
       | None \<Rightarrow> seq (modify (\<lambda>s. s\<lparr>rg_found := map (\<lambda>_. 0) (rg_found s)\<rparr>)) (\<lambda>_. ret ncclSuccess)))"

definition build_rings ::
    "bool \<Rightarrow> nat \<Rightarrow> int \<Rightarrow> nat \<Rightarrow> int list \<Rightarrow> (ring_st, nccl_result) prog" where
  "build_rings allocated nrings rank nranks nexts =
     (if \<not> allocated then ret ncclSystemError
      else seq (modify (\<lambda>s. s\<lparr>rg_found := replicate ((nranks + 63) div 64) 0\<rparr>)) (\<lambda>_.
        for_each [0..<nrings] (build_ring nexts rank nranks)))"

section \<open>The bitmap\<close>

definition found_ranks :: "u64 list \<Rightarrow> nat set" where
  "found_ranks found = {y. y div 64 < length found \<and> bit (found ! (y div 64)) (y mod 64)}"

lemma found_ranks_zeros [simp]: "found_ranks (map (\<lambda>_. 0) found) = {}"
  by (auto simp: found_ranks_def)

lemma found_ranks_replicate [simp]: "found_ranks (replicate k 0) = {}"
  by (auto simp: found_ranks_def)

lemma mark_rank_found:
  assumes "y div 64 < length (rg_found s)"
  shows "\<exists>found. mark_rank (int y) s = Inr ((), s\<lparr>rg_found := found\<rparr>) \<and>
    length found = length (rg_found s) \<and> found_ranks found = insert y (found_ranks (rg_found s))"
proof -
  let ?found = "(rg_found s)[y div 64 := rg_found s ! (y div 64) OR push_bit (y mod 64) 1]"
  have nats: "nat (int y div 64) = y div 64" "nat (int y mod 64) = y mod 64"
    by (simp_all add: nat_div_distrib nat_mod_distrib)
  have "bit (?found ! (x div 64)) (x mod 64) \<longleftrightarrow> x = y \<or> bit (rg_found s ! (x div 64)) (x mod 64)"
    if "x div 64 < length (rg_found s)" for x
  proof -
    have "x mod 64 < 64" "x = y \<longleftrightarrow> x div 64 = y div 64 \<and> x mod 64 = y mod 64"
      by (simp, metis div_mult_mod_eq)
    with that assms show ?thesis by (auto simp: nth_list_update bit_simps)
  qed
  then have "found_ranks ?found = insert y (found_ranks (rg_found s))"
    using assms by (auto simp: found_ranks_def)
  with assms show ?thesis by (intro exI [of _ ?found]) (simp add: mark_rank_def nats Let_def)
qed

lemma single_bit_one:
  assumes "b < 64" and eq: "push_bit b 1 = (1 :: u64)"
  shows "b = 0"
proof -
  have "bit (push_bit b 1 :: u64) b" using assms(1) by (simp add: bit_simps)
  then show ?thesis unfolding eq by (simp add: bit_1_iff)
qed

lemma all_ones: "(0xffffffffffffffff :: u64) = -1"
  by transfer simp

lemma missing_rank_None:
  assumes "(nranks + 63) div 64 \<le> length found"
  shows "missing_rank found nranks i = None \<longleftrightarrow> (\<forall>y. i \<le> y \<longrightarrow> y < nranks \<longrightarrow> y \<in> found_ranks found)"
  using assms
proof (induction found nranks i rule: missing_rank.induct)
  case (1 found nranks i)
  let ?bits = "found ! (i div 64)" and ?mask = "push_bit (i mod 64) 1 :: u64"
  have within: "y div 64 < length found" if "y < nranks" for y using that 1 by linarith
  consider (over) "nranks \<le> i" | (skip) "i < nranks" "?mask = 1" "?bits = 0xffffffffffffffff"
    | (test) "i < nranks" "\<not> (?mask = 1 \<and> ?bits = 0xffffffffffffffff)" by linarith
  then show ?case
  proof cases
    case over
    then show ?thesis by (subst missing_rank.simps) auto
  next
    case skip
    then have "i mod 64 = 0" using single_bit_one [of "i mod 64"] by simp
    have "y \<in> found_ranks found" if "i \<le> y" "y < i + 64" "y < nranks" for y
    proof -
      from that obtain e where e: "y = i + e" "e < 64" by (metis le_Suc_ex add_less_cancel_left)
      from \<open>i mod 64 = 0\<close> have "i = 64 * (i div 64)" using mult_div_mod_eq [of 64 i] by simp
      then obtain q where q: "i = 64 * q" by blast
      have "y div 64 = i div 64" unfolding e(1) q using e(2) by simp
      moreover have "bit (0xffffffffffffffff :: u64) (y mod 64)"
        unfolding all_ones by (simp add: bit_simps)
      ultimately show ?thesis using within [OF that(3)] skip by (simp add: found_ranks_def)
    qed
    then have "(\<forall>y. i \<le> y \<longrightarrow> y < nranks \<longrightarrow> y \<in> found_ranks found) \<longleftrightarrow>
       (\<forall>y. i + 64 \<le> y \<longrightarrow> y < nranks \<longrightarrow> y \<in> found_ranks found)"
      by (auto simp: not_less) (metis not_less)
    with 1 skip show ?thesis by (subst missing_rank.simps) (simp add: Let_def)
  next
    case test
    have here: "i \<in> found_ranks found \<longleftrightarrow> ?bits AND ?mask \<noteq> 0"
      using within [OF test(1)] by (simp add: found_ranks_def and_exp_eq_0_iff_not_bit)
    have split: "(\<forall>y. i \<le> y \<longrightarrow> y < nranks \<longrightarrow> y \<in> found_ranks found) \<longleftrightarrow>
      i \<in> found_ranks found \<and> (\<forall>y. i + 1 \<le> y \<longrightarrow> y < nranks \<longrightarrow> y \<in> found_ranks found)"
      using test(1) by (metis Suc_eq_plus1 Suc_leD le_refl not_less_eq_eq le_antisym)
    show ?thesis
    proof (cases "?bits AND ?mask = 0")
      case True
      with here split test show ?thesis by (subst missing_rank.simps) (auto simp: Let_def)
    next
      case False
      with 1 here split test show ?thesis by (subst missing_rank.simps) (auto simp: Let_def)
    qed
  qed
qed


section \<open>What a walk leaves behind\<close>

definition successor :: "int list \<Rightarrow> nat \<Rightarrow> nat \<Rightarrow> nat \<Rightarrow> nat" where
  "successor nexts nranks r x = nat (nexts ! (r * nranks + x))"

definition orbit :: "(nat \<Rightarrow> nat) \<Rightarrow> nat \<Rightarrow> nat \<Rightarrow> nat set" where
  "orbit f x c = (\<lambda>j. (f ^^ j) x) ` {..<c}"

lemma orbit_Suc: "orbit f x (Suc c) = insert x (orbit f (f x) c)"
proof -
  have "{..<Suc c} = insert 0 (Suc ` {..<c})" by (auto simp: image_iff less_Suc_eq_0_disj)
  then show ?thesis by (simp add: orbit_def image_image funpow_swap1)
qed

text \<open>The successors of a channel are ranks, and the arrays are long enough.\<close>

definition ring_input :: "int list \<Rightarrow> nat \<Rightarrow> nat \<Rightarrow> bool" where
  "ring_input nexts nrings nranks \<longleftrightarrow>
     length nexts = nrings * nranks \<and> (\<forall>x \<in> set nexts. 0 \<le> x \<and> x < int nranks)"

lemma ring_index: "r < nrings \<Longrightarrow> x < n \<Longrightarrow> r * n + x < nrings * (n :: nat)"
proof -
  assume "r < nrings" "x < n"
  then have "r * n + x < Suc r * n" by simp
  also have "Suc r * n \<le> nrings * n" using \<open>r < nrings\<close> by (intro mult_le_mono1) simp
  finally show ?thesis .
qed

lemma successor_in_range:
  assumes "ring_input nexts nrings n" and "r < nrings" and "x < n"
  shows "successor nexts n r x < n" and "nexts ! (r * n + x) = int (successor nexts n r x)"
proof -
  have "r * n + x < length nexts" using assms ring_index by (simp add: ring_input_def)
  then have "nexts ! (r * n + x) \<in> set nexts" by simp
  with assms(1) have "0 \<le> nexts ! (r * n + x)" "nexts ! (r * n + x) < int n"
    by (auto simp: ring_input_def)
  then show "successor nexts n r x < n" "nexts ! (r * n + x) = int (successor nexts n r x)"
    by (simp_all add: successor_def)
qed

lemma walk_ring_spec:
  assumes input: "ring_input nexts nrings n" "r < nrings"
  shows "x < n \<Longrightarrow> i + c \<le> n \<Longrightarrow> (n + 63) div 64 \<le> length (rg_found s) \<Longrightarrow>
    length (rg_rings s) = nrings * n \<Longrightarrow>
    \<exists>s'. walk_ring nexts n r i c (int x) s = Inr (int ((successor nexts n r ^^ c) x), s') \<and>
      length (rg_found s') = length (rg_found s) \<and>
      found_ranks (rg_found s') = found_ranks (rg_found s) \<union> orbit (successor nexts n r) x c \<and>
      length (rg_rings s') = nrings * n \<and>
      (\<forall>k < nrings * n. rg_rings s' ! k =
        (if r * n + i \<le> k \<and> k < r * n + i + c
         then int ((successor nexts n r ^^ (k - (r * n + i))) x) else rg_rings s ! k))"
proof (induction c arbitrary: i x s)
  case 0
  then show ?case by (simp add: ret_def orbit_def)
next
  case (Suc c)
  let ?f = "successor nexts n r"
  have "x div 64 < length (rg_found s)" using Suc.prems by linarith
  from mark_rank_found [OF this] obtain found where
    mark: "mark_rank (int x) s = Inr ((), s\<lparr>rg_found := found\<rparr>)"
    and found: "length found = length (rg_found s)" "found_ranks found = insert x (found_ranks (rg_found s))"
    by blast
  have k: "r * n + i < nrings * n" using Suc.prems input(2) by (intro ring_index) simp_all
  let ?t = "s\<lparr>rg_found := found, rg_rings := (rg_rings s)[r * n + i := int x]\<rparr>"
  have put: "put_ring (r * n + i) (int x) (s\<lparr>rg_found := found\<rparr>) = Inr ((), ?t)"
    using k Suc.prems by (simp add: put_ring_def)
  have "r * n + x < length nexts" using input Suc.prems ring_index by (simp add: ring_input_def)
  then have read: "read_next nexts (int (r * n) + int x) ?t = Inr (int (?f x), ?t)"
    using successor_in_range(2) [OF input Suc.prems(1)]
    unfolding of_nat_add [symmetric] read_next_def nat_int
    by (simp add: ret_def del: of_nat_add of_nat_mult)
  have "?f x < n" by (rule successor_in_range(1) [OF input Suc.prems(1)])
  from Suc.IH [OF this, of "Suc i" ?t] obtain s' where
    walk: "walk_ring nexts n r (Suc i) c (int (?f x)) ?t = Inr (int ((?f ^^ c) (?f x)), s')"
    and s': "length (rg_found s') = length (rg_found s)"
      "found_ranks (rg_found s') = found_ranks found \<union> orbit ?f (?f x) c"
      "length (rg_rings s') = nrings * n"
      "\<And>k. k < nrings * n \<Longrightarrow> rg_rings s' ! k =
        (if r * n + Suc i \<le> k \<and> k < r * n + Suc i + c
         then int ((?f ^^ (k - (r * n + Suc i))) (?f x)) else rg_rings ?t ! k)"
    using Suc.prems found by auto
  have "walk_ring nexts n r i (Suc c) (int x) s = Inr (int ((?f ^^ Suc c) x), s')"
    using mark put read walk by (simp add: seq_def funpow_swap1)
  moreover have "rg_rings s' ! k = (if r * n + i \<le> k \<and> k < r * n + i + Suc c
       then int ((?f ^^ (k - (r * n + i))) x) else rg_rings s ! k)" if "k < nrings * n" for k
  proof -
    have "(?f ^^ (k - (r * n + Suc i))) (?f x) = (?f ^^ (k - (r * n + i))) x" if "r * n + Suc i \<le> k"
    proof -
      from that have "k - (r * n + i) = Suc (k - (r * n + Suc i))" by simp
      then show ?thesis by (simp add: funpow_swap1)
    qed
    with s'(4) [OF that] that Suc.prems k show ?thesis by (auto simp: nth_list_update)
  qed
  ultimately show ?case using s' found by (simp add: orbit_Suc)
qed


section \<open>Whole rings\<close>

definition full_cycle :: "(nat \<Rightarrow> nat) \<Rightarrow> nat \<Rightarrow> nat \<Rightarrow> bool" where
  "full_cycle f n x \<longleftrightarrow> (f ^^ n) x = x \<and> {..<n} \<subseteq> orbit f x n"

lemma build_ring_spec:
  assumes input: "ring_input nexts nrings n" "r < nrings" and "x < n"
    and s: "(n + 63) div 64 \<le> length (rg_found s)" "found_ranks (rg_found s) = {}"
      "length (rg_rings s) = nrings * n"
  shows "\<exists>s'. build_ring nexts (int x) n r s =
      Inr (if full_cycle (successor nexts n r) n x then ncclSuccess else ncclInternalError, s') \<and>
    (full_cycle (successor nexts n r) n x \<longrightarrow>
      length (rg_found s') = length (rg_found s) \<and> found_ranks (rg_found s') = {} \<and>
      length (rg_rings s') = nrings * n \<and>
      (\<forall>k < nrings * n. rg_rings s' ! k =
        (if r * n \<le> k \<and> k < r * n + n
         then int ((successor nexts n r ^^ (k - r * n)) x) else rg_rings s ! k)))"
proof -
  let ?f = "successor nexts n r"
  from walk_ring_spec [OF input assms(3), of 0 n s] s obtain s' where
    walk: "walk_ring nexts n r 0 n (int x) s = Inr (int ((?f ^^ n) x), s')"
    and s': "length (rg_found s') = length (rg_found s)" "found_ranks (rg_found s') = orbit ?f x n"
      "length (rg_rings s') = nrings * n"
      "\<forall>k < nrings * n. rg_rings s' ! k =
        (if r * n \<le> k \<and> k < r * n + n then int ((?f ^^ (k - r * n)) x) else rg_rings s ! k)"
    by auto
  have "missing_rank (rg_found s') n 0 = None \<longleftrightarrow> {..<n} \<subseteq> orbit ?f x n"
    using missing_rank_None [of n "rg_found s'" 0] s s' by auto
  with walk s' show ?thesis
    by (auto simp: build_ring_def full_cycle_def seq_def ret_def gets_def modify_def split: option.splits)
qed

definition ring_of :: "int list \<Rightarrow> nat \<Rightarrow> nat \<Rightarrow> nat \<Rightarrow> int" where
  "ring_of nexts nranks rank k =
     int ((successor nexts nranks (k div nranks) ^^ (k mod nranks)) rank)"

lemma in_ring: "r * n \<le> k \<Longrightarrow> k < r * n + n \<Longrightarrow> k div n = r \<and> k mod n = k - r * (n :: nat)"
proof -
  assume "r * n \<le> k" "k < r * n + n"
  then obtain e where e: "k = r * n + e" "e < n" by (metis le_Suc_ex add_less_cancel_left)
  then show ?thesis by simp
qed

lemma build_rings_from:
  assumes input: "ring_input nexts nrings n" and "x < n"
  shows "r \<le> nrings \<Longrightarrow> (n + 63) div 64 \<le> length (rg_found s) \<Longrightarrow> found_ranks (rg_found s) = {} \<Longrightarrow>
    length (rg_rings s) = nrings * n \<Longrightarrow>
    (\<forall>k < r * n. rg_rings s ! k = ring_of nexts n x k) \<Longrightarrow>
    \<exists>s'. for_each [r..<nrings] (build_ring nexts (int x) n) s =
        Inr (if \<forall>q. r \<le> q \<longrightarrow> q < nrings \<longrightarrow> full_cycle (successor nexts n q) n x
             then ncclSuccess else ncclInternalError, s') \<and>
      ((\<forall>q. r \<le> q \<longrightarrow> q < nrings \<longrightarrow> full_cycle (successor nexts n q) n x) \<longrightarrow>
         rg_rings s' = map (ring_of nexts n x) [0..<nrings * n])"
proof (induction "nrings - r" arbitrary: r s)
  case 0
  then have "r = nrings" by simp
  with 0 show ?case by (auto simp: ret_def intro!: nth_equalityI)
next
  case (Suc d)
  then have r: "r < nrings" by simp
  let ?full = "\<lambda>q. full_cycle (successor nexts n q) n x"
  have cons: "[r..<nrings] = r # [Suc r..<nrings]" using r by (simp add: upt_conv_Cons)
  from build_ring_spec [OF input r assms(2) Suc.prems(2,3,4)] obtain t where
    t: "build_ring nexts (int x) n r s = Inr (if ?full r then ncclSuccess else ncclInternalError, t)"
    and kept: "?full r \<Longrightarrow> length (rg_found t) = length (rg_found s) \<and> found_ranks (rg_found t) = {} \<and>
      length (rg_rings t) = nrings * n \<and> (\<forall>k < nrings * n. rg_rings t ! k =
        (if r * n \<le> k \<and> k < r * n + n
         then int ((successor nexts n r ^^ (k - r * n)) x) else rg_rings s ! k))"
    by blast
  have all: "(\<forall>q. r \<le> q \<longrightarrow> q < nrings \<longrightarrow> ?full q) \<longleftrightarrow>
      ?full r \<and> (\<forall>q. Suc r \<le> q \<longrightarrow> q < nrings \<longrightarrow> ?full q)"
    using r by (metis Suc_leI le_less order_refl Suc_le_lessD)
  show ?case
  proof (cases "?full r")
    case False
    with all have "\<not> (\<forall>q. r \<le> q \<longrightarrow> q < nrings \<longrightarrow> ?full q)" by blast
    with t False show ?thesis by (auto simp: cons nccl_check_def seq_def ret_def)
  next
    case True
    have rings: "\<forall>k < Suc r * n. rg_rings t ! k = ring_of nexts n x k"
    proof (intro allI impI)
      fix k assume "k < Suc r * n"
      moreover have "Suc r * n \<le> nrings * n" using r by (intro mult_le_mono1) simp
      ultimately show "rg_rings t ! k = ring_of nexts n x k"
        using kept [OF True] Suc.prems(5) in_ring [of r n k] by (auto simp: ring_of_def not_le)
    qed
    have "d = nrings - Suc r" "Suc r \<le> nrings" using Suc.hyps(2) r by simp_all
    moreover have "(n + 63) div 64 \<le> length (rg_found t)" "found_ranks (rg_found t) = {}"
      "length (rg_rings t) = nrings * n" using kept [OF True] Suc.prems(2) by simp_all
    ultimately obtain s' where "for_each [Suc r..<nrings] (build_ring nexts (int x) n) t =
        Inr (if \<forall>q. Suc r \<le> q \<longrightarrow> q < nrings \<longrightarrow> ?full q then ncclSuccess else ncclInternalError, s') \<and>
      ((\<forall>q. Suc r \<le> q \<longrightarrow> q < nrings \<longrightarrow> ?full q) \<longrightarrow>
         rg_rings s' = map (ring_of nexts n x) [0..<nrings * n])"
      using Suc.hyps(1) [of "Suc r" t] rings by blast
    with t True all show ?thesis by (simp add: cons nccl_check_def seq_def ret_def)
  qed
qed

section \<open>Properties\<close>

text \<open>C35. The rings are built correctly or refused: when all successors are ranks, nothing is read or
  written out of bounds, and the result is success exactly when in every channel the successors
  lead from the own rank through all ranks back to it; the entry \<open>i\<close> of a channel's ring is then
  the rank \<open>i\<close> steps from the own one.  Otherwise the result is an internal error.\<close>

theorem build_rings_spec:
  assumes "ring_input nexts nrings nranks" and "rank < nranks" and "length (rg_rings s) = nrings * nranks"
  shows "\<exists>s'. build_rings True nrings (int rank) nranks nexts s =
      Inr (if \<forall>r < nrings. full_cycle (successor nexts nranks r) nranks rank
           then ncclSuccess else ncclInternalError, s') \<and>
    ((\<forall>r < nrings. full_cycle (successor nexts nranks r) nranks rank) \<longrightarrow>
       rg_rings s' = map (ring_of nexts nranks rank) [0..<nrings * nranks])"
  using build_rings_from [OF assms(1,2), of 0 "s\<lparr>rg_found := replicate ((nranks + 63) div 64) 0\<rparr>"] assms(3)
  by (simp add: build_rings_def seq_def modify_def)

theorem build_rings_spec_witness:
  "\<exists>s'. build_rings True 1 0 3 [2, 0, 1] \<lparr>rg_rings = [7, 7, 7], rg_found = []\<rparr> = Inr (ncclSuccess, s') \<and>
     rg_rings s' = [0, 2, 1]"
proof -
  have upt: "[0..<3] = [0, 1, 2 :: nat]" "{..<3} = {0, 1, 2 :: nat}" by (auto simp: upt_rec)
  have "full_cycle (successor [2, 0, 1] 3 0) 3 0"
    unfolding full_cycle_def orbit_def upt by (simp add: successor_def numeral_eq_Suc)
  then have all: "(\<forall>r < 1. full_cycle (successor [2, 0, 1] 3 r) 3 0) = True" by simp
  have rings: "map (ring_of [2, 0, 1] 3 0) [0..<1 * 3] = [0, 2, 1]"
    unfolding mult_1 upt by (simp add: ring_of_def successor_def numeral_2_eq_2)
  have "ring_input [2, 0, 1] 1 3" by (simp add: ring_input_def)
  from build_rings_spec [OF this, of 0 "\<lparr>rg_rings = [7, 7, 7], rg_found = []\<rparr>"]
  show ?thesis unfolding all rings by simp
qed

end
