(* ===== verification/Space.thy ===== *)
theory Space
  imports Prelude
begin

text \<open>
  \<open>ncclSpace\<close> of \<open>src/allocator.cc\<close>: an allocator of contiguous segments of the non-negative
  integers, kept as a sorted array of cuts between full and empty segments.

  The live prefix of the array is a list and the size of its block is kept, so that an access
  beyond the block would show.  \<open>int64_t\<close> and \<open>size_t\<close> values are integers with the conversions
  between the two types written out.

  The abstract state is the set of allocated offsets, \<open>allocated\<close>: an offset is allocated if and
  only if the number of cuts above it is odd.  The lemmas show that the array stays strictly
  sorted and inside of its block, and that both operations implement their effect on that set.
\<close>

record space =
  sp_cuts :: "int list"
  sp_capacity :: nat

definition space_construct :: space where
  "space_construct = \<lparr>sp_cuts = [], sp_capacity = 0\<rparr>"

definition size_t :: "int \<Rightarrow> int" where
  "size_t x = x mod 2 ^ 64"

definition int64 :: "int \<Rightarrow> int" where
  "int64 x = signed_take_bit 63 x"

text \<open>\<open>alignUp\<close> of \<open>src/include/bitops.h\<close> on \<open>size_t\<close>.\<close>

definition align_up :: "int \<Rightarrow> int \<Rightarrow> int" where
  "align_up x a = size_t ((x + a - 1) AND (- a))"

section \<open>Inserting a segment\<close>

text \<open>The filter loop: \<open>out\<close> is the part of the array below the write cursor, the list what the read
  cursor has not reached.\<close>

fun drop_repeats :: "int list \<Rightarrow> int \<Rightarrow> int list \<Rightarrow> int list" where
  "drop_repeats out prev [] = out"
| "drop_repeats out prev (cur # rest) =
     (let out = out @ [cur] in
      if prev = cur
      then drop_repeats (take (length out - (if length out = 1 then 1 else 2)) out) 0 rest
      else drop_repeats out cur rest)"

definition grown_capacity :: "nat \<Rightarrow> nat \<Rightarrow> nat" where
  "grown_capacity count capacity =
     (if capacity < count + 2 then if 2 * capacity = 0 then 16 else 2 * capacity else capacity)"

definition insert_segment :: "nat \<Rightarrow> int \<Rightarrow> int \<Rightarrow> space \<Rightarrow> space" where
  "insert_segment index lo hi a =
     (let cuts = sp_cuts a in
      \<lparr>sp_cuts = drop_repeats (take index cuts) (if index = 0 then 0 else cuts ! (index - 1))
                   ([lo, hi] @ drop index cuts),
       sp_capacity = grown_capacity (length cuts) (sp_capacity a)\<rparr>)"

section \<open>Allocation and release\<close>

text \<open>The search from the empty segment that ends at cut \<open>i\<close> on.\<close>

function alloc_from ::
    "int \<Rightarrow> int \<Rightarrow> int \<Rightarrow> space \<Rightarrow> nat \<Rightarrow> (int \<times> space) option" where
  "alloc_from limit sz align a i =
     (let cuts = sp_cuts a in
      if i \<le> length cuts then
        let lo = (if i = 0 then 0 else size_t (cuts ! (i - 1)));
            hi = size_t (if i = length cuts then limit else cuts ! i);
            off = align_up lo align; top = size_t (off + sz) in
        if top \<le> hi then
          Some (int64 off,
            if i = 0 \<or> top = hi then insert_segment i (int64 off) (int64 top) a
            else a\<lparr>sp_cuts := cuts[i - 1 := int64 top]\<rparr>)
        else alloc_from limit sz align a (i + 2)
      else None)"
  by auto
termination by (relation "measure (\<lambda>(l, s, al, a, i). Suc (length (sp_cuts a)) - i)") auto

declare alloc_from.simps [simp del]

definition space_alloc :: "int \<Rightarrow> int \<Rightarrow> int \<Rightarrow> space \<Rightarrow> (int \<times> space) option" where
  "space_alloc limit sz align a = alloc_from limit sz align a (length (sp_cuts a) mod 2)"

text \<open>\<open>while (a->cuts[i] <= offset) i += 2;\<close>.  Running off the array is undefined behaviour.\<close>

function segment_of :: "int list \<Rightarrow> int \<Rightarrow> nat \<Rightarrow> nat option" where
  "segment_of cuts offset i =
     (if length cuts \<le> i then None
      else if cuts ! i \<le> offset then segment_of cuts offset (i + 2) else Some i)"
  by auto
termination by (relation "measure (\<lambda>(c, x, i). length c - i)") auto

declare segment_of.simps [simp del]

datatype free_result = Freed space | Not_allocated | Out_of_bounds

definition space_free :: "int \<Rightarrow> int \<Rightarrow> space \<Rightarrow> free_result" where
  "space_free offset sz a =
     (let cuts = sp_cuts a in
      if cuts = [] \<or> cuts ! (length cuts - 1) \<le> offset then Not_allocated
      else case segment_of cuts offset (1 - length cuts mod 2) of
             None \<Rightarrow> Out_of_bounds
           | Some i \<Rightarrow>
               let lo = (if i = 0 then 0 else cuts ! (i - 1)); hi = cuts ! i in
               if offset < lo \<or> hi < offset + sz then Not_allocated
               else if i \<noteq> 0 \<and> lo = offset \<and> offset + sz \<noteq> hi
               then Freed (a\<lparr>sp_cuts := cuts[i - 1 := offset + sz]\<rparr>)
               else if lo \<noteq> offset \<and> offset + sz = hi
               then Freed (a\<lparr>sp_cuts := cuts[i := offset]\<rparr>)
               else Freed (insert_segment i offset (offset + sz) a))"

section \<open>The abstract state\<close>

definition above :: "int \<Rightarrow> int list \<Rightarrow> nat" where
  "above x cuts = length (filter (\<lambda>c. x < c) cuts)"

definition allocated :: "space \<Rightarrow> int \<Rightarrow> bool" where
  "allocated a x \<longleftrightarrow> 0 \<le> x \<and> odd (above x (sp_cuts a))"

definition space_ok :: "space \<Rightarrow> bool" where
  "space_ok a \<longleftrightarrow> sorted_wrt (<) (sp_cuts a) \<and> (\<forall>c \<in> set (sp_cuts a). 0 < c) \<and>
     length (sp_cuts a) \<le> sp_capacity a \<and> (sp_capacity a = 0 \<or> 16 \<le> sp_capacity a)"

lemma above_simps [simp]:
  "above x [] = 0"
  "above x (c # cs) = (if x < c then 1 else 0) + above x cs"
  "above x (cs @ ds) = above x cs + above x ds"
  by (simp_all add: above_def)

section \<open>The filter loop\<close>

text \<open>What holds between two iterations.\<close>

definition filtering :: "int list \<Rightarrow> int \<Rightarrow> int list \<Rightarrow> bool" where
  "filtering out prev rest \<longleftrightarrow>
     sorted_wrt (<) out \<and> sorted rest \<and> (\<forall>o1 \<in> set out. 0 < o1) \<and> (\<forall>r \<in> set rest. 0 \<le> r) \<and>
     (\<forall>o1 \<in> set out. \<forall>r \<in> set rest. o1 \<le> r) \<and>
     (if prev = 0 then \<forall>o1 \<in> set out. \<forall>r \<in> set rest. o1 < r else out \<noteq> [] \<and> last out = prev)"

lemma filtering_step:
  assumes "filtering out prev (cur # rest)"
  shows "if prev \<noteq> cur then filtering (out @ [cur]) cur rest
         else if out = [] then cur = 0 \<and> filtering [] 0 rest
         else filtering (butlast out) 0 rest \<and> last out = cur"
proof -
  note f = assms [unfolded filtering_def]
  show ?thesis
  proof (cases "prev = cur")
    case False
    have "o1 < cur" if "o1 \<in> set out" for o1
    proof (cases "prev = 0")
      case True
      with f that show ?thesis by auto
    next
      case prev: False
      with f have "out \<noteq> []" "last out = prev" by auto
      then have "out = butlast out @ [prev]" by (metis append_butlast_last_id)
      with f that have "o1 \<le> prev" by (metis Un_iff empty_iff insert_iff less_imp_le list.set(1,2) order_refl set_append sorted_wrt_append)
      moreover have "prev \<le> cur" using f \<open>out \<noteq> []\<close> \<open>last out = prev\<close> by (metis last_in_set list.set_intros(1))
      ultimately show ?thesis using False by linarith
    qed
    moreover have "cur = 0 \<Longrightarrow> out = []" using f calculation by (metis last_in_set not_less_iff_gr_or_eq)
    ultimately show ?thesis using f False by (auto simp: filtering_def sorted_wrt_append less_imp_le)
  next
    case True
    show ?thesis
    proof (cases "out = []")
      case True
      with f \<open>prev = cur\<close> show ?thesis by (auto simp: filtering_def split: if_splits)
    next
      case False
      then have "last out \<in> set out" by simp
      with f have "0 < last out" "prev = 0 \<Longrightarrow> last out < cur" by auto
      with True have "prev \<noteq> 0" by linarith
      with f have "last out = prev" by simp
      with False have out: "out = butlast out @ [cur]" using True by (metis append_butlast_last_id)
      then have "sorted_wrt (<) (butlast out @ [cur])" using f by metis
      then have below: "\<forall>o1 \<in> set (butlast out). o1 < cur" "sorted_wrt (<) (butlast out)"
        by (auto simp: sorted_wrt_append)
      moreover have beyond: "\<forall>r \<in> set rest. cur \<le> r" "sorted rest" using f by auto
      moreover from below beyond have "\<forall>o1 \<in> set (butlast out). \<forall>r \<in> set rest. o1 < r"
        by (meson less_le_trans)
      ultimately show ?thesis using f True False \<open>last out = prev\<close>
        by (auto simp: filtering_def dest: in_set_butlastD)
    qed
  qed
qed


lemma drop_repeats_spec:
  "filtering out prev rest \<Longrightarrow>
   sorted_wrt (<) (drop_repeats out prev rest) \<and> (\<forall>c \<in> set (drop_repeats out prev rest). 0 < c) \<and>
   length (drop_repeats out prev rest) \<le> length out + length rest \<and>
   (\<forall>x. 0 \<le> x \<longrightarrow> odd (above x (drop_repeats out prev rest)) = odd (above x out + above x rest))"
proof (induction out prev rest rule: drop_repeats.induct)
  case (1 out prev)
  then show ?case by (auto simp: filtering_def)
next
  case (2 out prev cur rest)
  note step = filtering_step [OF "2.prems"]
  show ?case
  proof (cases "prev = cur")
    case False
    with step "2.IH"(2) [OF refl] show ?thesis by (simp add: Let_def ac_simps)
  next
    case True
    show ?thesis
    proof (cases "out = []")
      case True
      with step \<open>prev = cur\<close> "2.IH"(1) [OF refl] show ?thesis by (simp add: Let_def)
    next
      case False
      with step True have f: "filtering (butlast out) 0 rest" and last: "last out = cur" by auto
      from False last have out: "out = butlast out @ [cur]" by (metis append_butlast_last_id)
      then have above: "above x out = above x (butlast out) + (if x < cur then 1 else 0)" for x
        by (metis above_simps(1-3) add.right_neutral)
      have "Suc (length out) \<noteq> 1" "take (length out - 1) out = butlast out"
        using False by (simp_all add: butlast_conv_take)
      then have drop: "drop_repeats out prev (cur # rest) = drop_repeats (butlast out) 0 rest"
        using True False by (simp add: Let_def)
      have "length (butlast out) = length out - 1" by simp
      with "2.IH"(1) [OF refl True] f False True show ?thesis
        unfolding drop by (auto simp: above butlast_conv_take split: if_splits)
    qed
  qed
qed

lemma insert_segment_spec:
  assumes ok: "space_ok a" and index: "index \<le> length (sp_cuts a)" and seg: "0 \<le> lo" "lo \<le> hi"
    and left: "\<forall>c \<in> set (take index (sp_cuts a)). c \<le> lo"
    and right: "\<forall>c \<in> set (drop index (sp_cuts a)). hi \<le> c"
  shows "space_ok (insert_segment index lo hi a) \<and>
    allocated (insert_segment index lo hi a) x =
      (if lo \<le> x \<and> x < hi then \<not> allocated a x else allocated a x)"
proof -
  let ?l = "take index (sp_cuts a)" and ?r = "drop index (sp_cuts a)"
  let ?prev = "if index = 0 then 0 else sp_cuts a ! (index - 1)"
  have cuts: "sp_cuts a = ?l @ ?r" by simp
  from ok have "sorted_wrt (<) (?l @ ?r)" "\<forall>c \<in> set (?l @ ?r). 0 < c"
    by (simp_all add: space_ok_def)
  then have sorted: "sorted_wrt (<) ?l" "sorted ?r" "\<forall>c \<in> set ?l. 0 < c" "\<forall>c \<in> set ?r. 0 < c"
    by (auto simp: sorted_wrt_append strict_sorted_imp_sorted simp del: append_take_drop_id)
  have prev: "if ?prev = 0 then ?l = [] else ?l \<noteq> [] \<and> last ?l = ?prev"
  proof (cases "index = 0")
    case False
    then have "?l \<noteq> []" using index by auto
    then have "last ?l = ?l ! (length ?l - 1)" by (rule last_conv_nth)
    with False index have "last ?l = ?prev" by (simp add: min_def)
    with \<open>?l \<noteq> []\<close> sorted(3) show ?thesis by (metis last_in_set less_irrefl)
  qed simp
  have "filtering ?l ?prev ([lo, hi] @ ?r)"
    using sorted seg left right prev unfolding filtering_def by (auto split: if_splits) fastforce+
  from drop_repeats_spec [OF this]
  have res: "sorted_wrt (<) (sp_cuts (insert_segment index lo hi a))"
    "\<forall>c \<in> set (sp_cuts (insert_segment index lo hi a)). 0 < c"
    "length (sp_cuts (insert_segment index lo hi a)) \<le> length (sp_cuts a) + 2"
    "0 \<le> x \<Longrightarrow> odd (above x (sp_cuts (insert_segment index lo hi a))) =
       odd (above x ?l + above x ([lo, hi] @ ?r))"
    using index by (auto simp: insert_segment_def Let_def)
  have "sp_capacity (insert_segment index lo hi a) = grown_capacity (length (sp_cuts a)) (sp_capacity a)"
    by (simp add: insert_segment_def Let_def)
  moreover have "length (sp_cuts a) + 2 \<le> grown_capacity (length (sp_cuts a)) (sp_capacity a)"
    "16 \<le> grown_capacity (length (sp_cuts a)) (sp_capacity a)"
    using ok by (auto simp: grown_capacity_def space_ok_def)
  moreover have "above x (sp_cuts a) = above x ?l + above x ?r" by (metis cuts above_simps(3))
  ultimately show ?thesis using res seg by (auto simp: space_ok_def allocated_def)
qed


section \<open>Segments\<close>

definition seg_lo :: "space \<Rightarrow> nat \<Rightarrow> int" where
  "seg_lo a i = (if i = 0 then 0 else sp_cuts a ! (i - 1))"

definition seg_hi :: "int \<Rightarrow> space \<Rightarrow> nat \<Rightarrow> int" where
  "seg_hi limit a i = (if i = length (sp_cuts a) then limit else sp_cuts a ! i)"

lemma cut_pos: "space_ok a \<Longrightarrow> i < length (sp_cuts a) \<Longrightarrow> 0 < sp_cuts a ! i"
  by (simp add: space_ok_def)

lemma cuts_less: "space_ok a \<Longrightarrow> i < j \<Longrightarrow> j < length (sp_cuts a) \<Longrightarrow> sp_cuts a ! i < sp_cuts a ! j"
  by (auto simp: space_ok_def sorted_wrt_iff_nth_less)

lemma cuts_le: "space_ok a \<Longrightarrow> i \<le> j \<Longrightarrow> j < length (sp_cuts a) \<Longrightarrow> sp_cuts a ! i \<le> sp_cuts a ! j"
  using cuts_less [of a i j] by (cases "i = j") auto

lemma seg_left: "space_ok a \<Longrightarrow> i \<le> length (sp_cuts a) \<Longrightarrow> c \<in> set (take i (sp_cuts a)) \<Longrightarrow> c \<le> seg_lo a i"
  using cuts_le [of a _ "i - 1"] by (auto simp: in_set_conv_nth seg_lo_def)

lemma seg_right:
  "space_ok a \<Longrightarrow> c \<in> set (drop i (sp_cuts a)) \<Longrightarrow> i < length (sp_cuts a) \<and> seg_hi limit a i \<le> c"
  using cuts_le [of a i] by (auto simp: in_set_conv_nth seg_hi_def)

lemma seg_lo_nonneg: "space_ok a \<Longrightarrow> i \<le> length (sp_cuts a) \<Longrightarrow> 0 \<le> seg_lo a i"
  using cut_pos [of a "i - 1"] by (cases "i = 0") (auto simp: seg_lo_def less_imp_le)

text \<open>Between two neighbouring cuts the state of an offset is the parity of the position.\<close>

lemma above_in_segment:
  assumes "space_ok a" and "i \<le> length (sp_cuts a)" and "seg_lo a i \<le> x"
    and "i < length (sp_cuts a) \<Longrightarrow> x < sp_cuts a ! i"
  shows "above x (sp_cuts a) = length (sp_cuts a) - i"
proof -
  have "above x (sp_cuts a) = above x (take i (sp_cuts a)) + above x (drop i (sp_cuts a))"
    by (metis above_simps(3) append_take_drop_id)
  also have "above x (take i (sp_cuts a)) = 0"
    using seg_left [OF assms(1,2)] assms(3) by (force simp: above_def filter_empty_conv)
  also have "filter (\<lambda>c. x < c) (drop i (sp_cuts a)) = drop i (sp_cuts a)"
    using seg_right [OF assms(1), of _ i 0] assms(4) by (force simp: filter_id_conv seg_hi_def)
  then have "above x (drop i (sp_cuts a)) = length (sp_cuts a) - i" by (simp add: above_def)
  finally show ?thesis by simp
qed

lemma segment_exists:
  assumes "space_ok a" and "0 \<le> x"
  obtains i where "i \<le> length (sp_cuts a)" and "seg_lo a i \<le> x"
    and "i < length (sp_cuts a) \<longrightarrow> x < sp_cuts a ! i"
proof -
  let ?P = "\<lambda>i. i \<le> length (sp_cuts a) \<and> (\<forall>j < i. sp_cuts a ! j \<le> x)"
  have "?P 0" by simp
  define i where "i = Greatest ?P"
  have i: "?P i" unfolding i_def
    by (rule GreatestI_nat [of ?P 0 "length (sp_cuts a)"]) (use \<open>?P 0\<close> in auto)
  have "x < sp_cuts a ! i" if "i < length (sp_cuts a)"
  proof (rule ccontr)
    assume "\<not> x < sp_cuts a ! i"
    with i that have "?P (Suc i)" by (auto simp: less_Suc_eq)
    then have "Suc i \<le> i" unfolding i_def
      by (rule Greatest_le_nat [of ?P _ "length (sp_cuts a)"]) auto
    then show False by simp
  qed
  moreover have "seg_lo a i \<le> x" using i assms(2) by (auto simp: seg_lo_def)
  ultimately show ?thesis using i that by blast
qed

section \<open>Alignment\<close>

lemma and_minus_power: "(y :: int) AND - (2 ^ k) = 2 ^ k * (y div 2 ^ k)"
proof -
  have "y AND NOT (mask k) = push_bit k (drop_bit k y)"
    by (rule bit_eqI) (auto simp: bit_simps)
  then show ?thesis
    by (simp add: push_bit_eq_mult drop_bit_eq_div mult.commute flip: minus_exp_eq_not_mask)
qed

lemma align_up_spec:
  assumes "0 \<le> x" and "x \<le> 2 ^ 62" and "k \<le> 31"
  shows "2 ^ k dvd align_up x (2 ^ k) \<and> x \<le> align_up x (2 ^ k) \<and> align_up x (2 ^ k) < x + 2 ^ k"
proof -
  let ?y = "x + 2 ^ k - 1"
  have "(2 :: int) ^ k \<le> 2 ^ 31" using assms(3) by (intro power_increasing) auto
  have pos: "0 < (2 :: int) ^ k" by simp
  have y: "2 ^ k * (?y div 2 ^ k) = ?y - ?y mod 2 ^ k" by (simp add: minus_mod_eq_mult_div)
  moreover have "0 \<le> ?y mod 2 ^ k" "?y mod 2 ^ k < 2 ^ k" using pos by simp_all
  ultimately have range: "x \<le> 2 ^ k * (?y div 2 ^ k)" "2 ^ k * (?y div 2 ^ k) < x + 2 ^ k" by linarith+
  have "align_up x (2 ^ k) = size_t (2 ^ k * (?y div 2 ^ k))"
    by (simp add: align_up_def and_minus_power)
  also have "\<dots> = 2 ^ k * (?y div 2 ^ k)"
    unfolding size_t_def using range assms \<open>2 ^ k \<le> 2 ^ 31\<close> by (intro mod_pos_pos_trivial) auto
  finally show ?thesis using range by simp
qed

section \<open>Allocation\<close>

text \<open>The numbers stay in the range of the machine types: every cut is at most the limit, and
  limit and size are at most \<open>2^62\<close>.\<close>

definition within :: "int \<Rightarrow> space \<Rightarrow> bool" where
  "within limit a \<longleftrightarrow> 0 \<le> limit \<and> limit \<le> 2 ^ 62 \<and> (\<forall>c \<in> set (sp_cuts a). c \<le> limit)"

lemma seg_hi_le: "within limit a \<Longrightarrow> i \<le> length (sp_cuts a) \<Longrightarrow> seg_hi limit a i \<le> limit"
  by (auto simp: within_def seg_hi_def)

lemma seg_lo_le: "within limit a \<Longrightarrow> i \<le> length (sp_cuts a) \<Longrightarrow> seg_lo a i \<le> limit"
  by (auto simp: within_def seg_lo_def)

lemma size_t_id: "0 \<le> x \<Longrightarrow> x < 2 ^ 64 \<Longrightarrow> size_t x = x"
  by (simp add: size_t_def)

lemma int64_id: "0 \<le> x \<Longrightarrow> x < 2 ^ 63 \<Longrightarrow> int64 x = x"
  unfolding int64_def by (rule signed_take_bit_int_eq_self) auto

definition place :: "space \<Rightarrow> int \<Rightarrow> nat \<Rightarrow> int" where
  "place a align i = align_up (seg_lo a i) align"

definition occupy :: "int \<Rightarrow> int \<Rightarrow> int \<Rightarrow> space \<Rightarrow> nat \<Rightarrow> space" where
  "occupy limit sz align a i =
     (let off = place a align i in
      if i = 0 \<or> off + sz = seg_hi limit a i then insert_segment i off (off + sz) a
      else a\<lparr>sp_cuts := (sp_cuts a)[i - 1 := off + sz]\<rparr>)"

lemma place_spec:
  assumes "space_ok a" and "within limit a" and "i \<le> length (sp_cuts a)" and "k \<le> 31"
  shows "2 ^ k dvd place a (2 ^ k) i \<and> seg_lo a i \<le> place a (2 ^ k) i \<and>
    place a (2 ^ k) i < seg_lo a i + 2 ^ k \<and> 0 \<le> place a (2 ^ k) i"
proof -
  have "0 \<le> seg_lo a i" "seg_lo a i \<le> 2 ^ 62"
    using seg_lo_nonneg [OF assms(1,3)] seg_lo_le [OF assms(2,3)] assms(2) by (auto simp: within_def)
  with align_up_spec [of "seg_lo a i" k] assms(4) show ?thesis unfolding place_def by force
qed

lemma alloc_from_unfold:
  assumes "space_ok a" and "within limit a" and "0 \<le> sz" and "sz \<le> 2 ^ 62" and "k \<le> 31"
  shows "alloc_from limit sz (2 ^ k) a i =
    (if i \<le> length (sp_cuts a) then
       if place a (2 ^ k) i + sz \<le> seg_hi limit a i
       then Some (place a (2 ^ k) i, occupy limit sz (2 ^ k) a i)
       else alloc_from limit sz (2 ^ k) a (i + 2)
     else None)"
proof (cases "i \<le> length (sp_cuts a)")
  case False
  then show ?thesis by (subst alloc_from.simps) (simp add: Let_def)
next
  case True
  have pow: "(2 :: int) ^ k \<le> 2 ^ 31" using assms(5) by (intro power_increasing) auto
  note place = place_spec [OF assms(1,2) True assms(5)]
  have limit: "0 \<le> limit" "limit \<le> 2 ^ 62" using assms(2) by (auto simp: within_def)
  have lo: "0 \<le> seg_lo a i" "seg_lo a i \<le> limit"
    using seg_lo_nonneg [OF assms(1) True] seg_lo_le [OF assms(2) True] by auto
  have hi: "0 \<le> seg_hi limit a i" "seg_hi limit a i \<le> limit"
    using cut_pos [OF assms(1), of i] limit True seg_hi_le [OF assms(2) True]
    by (auto simp: seg_hi_def)
  have lo_eq: "(if i = 0 then 0 else size_t (sp_cuts a ! (i - 1))) = seg_lo a i"
    using lo limit by (auto simp: seg_lo_def intro: size_t_id)
  have hi_eq: "size_t (if i = length (sp_cuts a) then limit else sp_cuts a ! i) = seg_hi limit a i"
    using hi limit by (simp add: seg_hi_def [symmetric] size_t_id)
  have top_eq: "size_t (place a (2 ^ k) i + sz) = place a (2 ^ k) i + sz"
    using place lo limit assms(3,4) pow by (intro size_t_id) auto
  have ints: "int64 (place a (2 ^ k) i) = place a (2 ^ k) i"
    "place a (2 ^ k) i + sz \<le> seg_hi limit a i \<Longrightarrow> int64 (place a (2 ^ k) i + sz) = place a (2 ^ k) i + sz"
    using place lo hi limit assms(3,4) pow by (auto intro!: int64_id)
  show ?thesis
    unfolding place_def [symmetric]
    by (subst alloc_from.simps, unfold lo_eq hi_eq Let_def, fold place_def, unfold top_eq)
      (simp add: True ints occupy_def Let_def)
qed


lemma drop_repeats_subset: "set (drop_repeats out prev rest) \<subseteq> set out \<union> set rest"
proof (induction out prev rest rule: drop_repeats.induct)
  case (2 out prev cur rest)
  have sub: "set (take k (out @ [cur])) \<subseteq> set out \<union> {cur}" for k
    using set_take_subset [of k "out @ [cur]"] by simp
  show ?case
  proof (cases "prev = cur")
    case True
    let ?k = "length (out @ [cur]) - (if length (out @ [cur]) = 1 then 1 else 2)"
    have "drop_repeats out prev (cur # rest) = drop_repeats (take ?k (out @ [cur])) 0 rest"
      using True by (simp add: Let_def)
    also have "set \<dots> \<subseteq> set (take ?k (out @ [cur])) \<union> set rest" by (rule "2.IH"(1) [OF refl True])
    also have "\<dots> \<subseteq> set out \<union> set (cur # rest)" using sub [of ?k] by auto
    finally show ?thesis .
  next
    case False
    with "2.IH"(2) [OF refl False] show ?thesis by (simp add: Let_def)
  qed
qed simp

lemma insert_segment_within:
  assumes "within limit a" and "lo \<le> limit" and "hi \<le> limit"
  shows "within limit (insert_segment index lo hi a)"
proof -
  have "set (sp_cuts (insert_segment index lo hi a)) \<subseteq>
      set (take index (sp_cuts a)) \<union> set ([lo, hi] @ drop index (sp_cuts a))"
    unfolding insert_segment_def Let_def space.simps by (rule drop_repeats_subset)
  with assms show ?thesis by (auto simp: within_def dest!: subsetD in_set_takeD in_set_dropD)
qed

text \<open>Moving one cut.\<close>

lemma move_cut:
  assumes ok: "space_ok a" and i: "i < length (sp_cuts a)" and v: "0 < v"
    and left: "0 < i \<Longrightarrow> sp_cuts a ! (i - 1) < v"
    and right: "i + 1 < length (sp_cuts a) \<Longrightarrow> v < sp_cuts a ! (i + 1)"
  shows "space_ok (a\<lparr>sp_cuts := (sp_cuts a)[i := v]\<rparr>) \<and>
    allocated (a\<lparr>sp_cuts := (sp_cuts a)[i := v]\<rparr>) x =
      (if 0 \<le> x \<and> min (sp_cuts a ! i) v \<le> x \<and> x < max (sp_cuts a ! i) v
       then \<not> allocated a x else allocated a x)"
proof
  let ?c = "sp_cuts a ! i"
  have "(sp_cuts a)[i := v] ! p < (sp_cuts a)[i := v] ! q" if "p < q" "q < length (sp_cuts a)" for p q
  proof -
    consider "p = i" "q = Suc i" | "p = i" "Suc i < q" | "q = i" "p = i - 1" "0 < i" | "q = i" "p < i - 1"
      | "p \<noteq> i" "q \<noteq> i" using \<open>p < q\<close> by linarith
    moreover have "sp_cuts a ! p < sp_cuts a ! (i - 1)" if "p < i - 1"
      using that i by (intro cuts_less [OF ok]) auto
    ultimately show ?thesis
      using that left right i cuts_less [OF ok \<open>p < q\<close> that(2)] cuts_less [OF ok, of "Suc i" q]
      by cases (auto simp: nth_list_update)
  qed
  moreover have "\<forall>c \<in> set ((sp_cuts a)[i := v]). 0 < c"
    using ok v set_update_subset_insert [of "sp_cuts a" i v] by (auto simp: space_ok_def)
  ultimately show "space_ok (a\<lparr>sp_cuts := (sp_cuts a)[i := v]\<rparr>)"
    using ok by (simp add: space_ok_def sorted_wrt_iff_nth_less)
  let ?l = "take i (sp_cuts a)" and ?r = "drop (Suc i) (sp_cuts a)"
  have "above x (sp_cuts a) = above x ?l + ((if x < ?c then 1 else 0) + above x ?r)"
    by (subst id_take_nth_drop [OF i]) simp
  moreover have "above x ((sp_cuts a)[i := v]) = above x ?l + ((if x < v then 1 else 0) + above x ?r)"
    by (subst upd_conv_take_nth_drop [OF i]) simp
  ultimately show "allocated (a\<lparr>sp_cuts := (sp_cuts a)[i := v]\<rparr>) x =
      (if 0 \<le> x \<and> min ?c v \<le> x \<and> x < max ?c v then \<not> allocated a x else allocated a x)"
    by (auto simp: allocated_def)
qed

lemma not_allocated_in_segment:
  assumes "space_ok a" and "i \<le> length (sp_cuts a)" and "even (length (sp_cuts a) - i)"
    and "seg_lo a i \<le> x" and "x < seg_hi limit a i"
  shows "\<not> allocated a x"
  using above_in_segment [OF assms(1,2,4)] assms(3,5) by (auto simp: allocated_def seg_hi_def split: if_splits)

text \<open>The effect of taking a place at an empty segment.  Offsets below the place, less than the
  alignment away, may become allocated with it.\<close>

lemma occupy_spec:
  assumes ok: "space_ok a" "within limit a" and i: "i \<le> length (sp_cuts a)" "even (length (sp_cuts a) - i)"
    and sz: "0 < sz" and k: "k \<le> 31" and fits: "place a (2 ^ k) i + sz \<le> seg_hi limit a i"
  defines "off \<equiv> place a (2 ^ k) i"
  shows "space_ok (occupy limit sz (2 ^ k) a i) \<and> within limit (occupy limit sz (2 ^ k) a i) \<and>
    (off \<le> x \<longrightarrow> x < off + sz \<longrightarrow> \<not> allocated a x \<and> allocated (occupy limit sz (2 ^ k) a i) x) \<and>
    (x \<le> off - 2 ^ k \<or> off + sz \<le> x \<or> allocated a x \<longrightarrow>
      allocated (occupy limit sz (2 ^ k) a i) x = allocated a x)"
proof -
  note place = place_spec [OF ok i(1) k, folded off_def]
  note fits = fits [folded off_def]
  have hi: "seg_hi limit a i \<le> limit" by (rule seg_hi_le [OF ok(2) i(1)])
  have empty: "\<not> allocated a x" if "seg_lo a i \<le> x" "x < off + sz" for x
    using not_allocated_in_segment [OF ok(1) i that(1), of limit] that(2) fits by simp
  show ?thesis
  proof (cases "i = 0 \<or> off + sz = seg_hi limit a i")
    case True
    then have eq: "occupy limit sz (2 ^ k) a i = insert_segment i off (off + sz) a"
      by (simp add: occupy_def off_def Let_def)
    have "\<forall>c \<in> set (take i (sp_cuts a)). c \<le> off" using seg_left [OF ok(1) i(1)] place by force
    moreover have "\<forall>c \<in> set (drop i (sp_cuts a)). off + sz \<le> c"
      using seg_right [OF ok(1), of _ i limit] fits by force
    ultimately have ins: "space_ok (insert_segment i off (off + sz) a) \<and>
      allocated (insert_segment i off (off + sz) a) x =
        (if off \<le> x \<and> x < off + sz then \<not> allocated a x else allocated a x)"
      using insert_segment_spec [OF ok(1) i(1), of off "off + sz"] place sz by simp
    have "within limit (insert_segment i off (off + sz) a)"
      using ok(2) fits hi sz by (intro insert_segment_within) auto
    moreover have "off \<le> x \<Longrightarrow> x < off + sz \<Longrightarrow> \<not> allocated a x" using empty place by simp
    moreover have "x < off" if "x \<le> off - 2 ^ k"
      using that zero_less_power [of "2 :: int" k] by linarith
    ultimately show ?thesis unfolding eq using ins by force
  next
    case False
    then have i0: "0 < i" and less: "off + sz < seg_hi limit a i" using fits by auto
    have eq: "occupy limit sz (2 ^ k) a i = a\<lparr>sp_cuts := (sp_cuts a)[i - 1 := off + sz]\<rparr>"
      using False by (simp add: occupy_def off_def Let_def)
    have lo: "seg_lo a i = sp_cuts a ! (i - 1)" using i0 by (simp add: seg_lo_def)
    have "space_ok (a\<lparr>sp_cuts := (sp_cuts a)[i - 1 := off + sz]\<rparr>) \<and>
      allocated (a\<lparr>sp_cuts := (sp_cuts a)[i - 1 := off + sz]\<rparr>) x =
      (if 0 \<le> x \<and> min (sp_cuts a ! (i - 1)) (off + sz) \<le> x \<and> x < max (sp_cuts a ! (i - 1)) (off + sz)
       then \<not> allocated a x else allocated a x)"
    proof (rule move_cut [OF ok(1)])
      show "i - 1 < length (sp_cuts a)" using i(1) i0 by simp
      show "0 < off + sz" using place sz by simp
      show "sp_cuts a ! (i - 1 - 1) < off + sz" if "0 < i - 1"
      proof -
        have "sp_cuts a ! (i - 1 - 1) < sp_cuts a ! (i - 1)"
          using that i(1) by (intro cuts_less [OF ok(1)]) auto
        with place lo sz show ?thesis by linarith
      qed
      show "off + sz < sp_cuts a ! (i - 1 + 1)" if "i - 1 + 1 < length (sp_cuts a)"
        using less that i0 by (simp add: seg_hi_def)
    qed
    moreover have "within limit (a\<lparr>sp_cuts := (sp_cuts a)[i - 1 := off + sz]\<rparr>)"
      using ok(2) hi less set_update_subset_insert [of "sp_cuts a" "i - 1" "off + sz"]
      by (auto simp: within_def dest!: subsetD)
    ultimately show ?thesis unfolding eq using place sz empty lo
      by (auto simp: min_def max_def split: if_splits)
  qed
qed


text \<open>The search takes the first empty segment that is long enough.\<close>

lemma alloc_from_found:
  assumes "space_ok a" and "within limit a" and "0 \<le> sz" and "sz \<le> 2 ^ 62" and "k \<le> 31"
  shows "i + 2 * e \<le> length (sp_cuts a) \<Longrightarrow>
    place a (2 ^ k) (i + 2 * e) + sz \<le> seg_hi limit a (i + 2 * e) \<Longrightarrow>
    (\<And>e'. e' < e \<Longrightarrow> seg_hi limit a (i + 2 * e') < place a (2 ^ k) (i + 2 * e') + sz) \<Longrightarrow>
    alloc_from limit sz (2 ^ k) a i =
      Some (place a (2 ^ k) (i + 2 * e), occupy limit sz (2 ^ k) a (i + 2 * e))"
proof (induction e arbitrary: i)
  case 0
  then show ?case by (simp add: alloc_from_unfold [OF assms, of i])
next
  case (Suc e)
  have shift: "i + 2 + 2 * e' = i + 2 * Suc e'" for e' by simp
  have "alloc_from limit sz (2 ^ k) a i = alloc_from limit sz (2 ^ k) a (i + 2)"
    using Suc.prems(1) Suc.prems(3) [of 0] by (simp add: alloc_from_unfold [OF assms, of i])
  also have "\<dots> = Some (place a (2 ^ k) (i + 2 + 2 * e), occupy limit sz (2 ^ k) a (i + 2 + 2 * e))"
    using Suc.prems(1,2) Suc.prems(3) [of "Suc e'" for e'] by (intro Suc.IH) (simp_all only: shift Suc_less_eq)
  finally show ?case by (simp only: shift)
qed

lemma alloc_from_missing:
  assumes "space_ok a" and "within limit a" and "0 \<le> sz" and "sz \<le> 2 ^ 62" and "k \<le> 31"
  shows "(\<And>e. i + 2 * e \<le> length (sp_cuts a) \<Longrightarrow>
    seg_hi limit a (i + 2 * e) < place a (2 ^ k) (i + 2 * e) + sz) \<Longrightarrow>
    alloc_from limit sz (2 ^ k) a i = None"
proof (induction "Suc (length (sp_cuts a)) - i" arbitrary: i rule: less_induct)
  case less
  have shift: "i + 2 + 2 * e = i + 2 * Suc e" for e by simp
  have "i \<le> length (sp_cuts a) \<Longrightarrow> alloc_from limit sz (2 ^ k) a (i + 2) = None"
    using less.prems [of "Suc e" for e] by (intro less.hyps) (auto simp only: shift)
  with less.prems [of 0] show ?case
    by (cases "i \<le> length (sp_cuts a)") (simp_all add: alloc_from_unfold [OF assms, of i])
qed

text \<open>Any free aligned place of the right length lies in an empty segment which the search accepts.\<close>

lemma free_place_fits:
  assumes ok: "space_ok a" "within limit a" and k: "k \<le> 31" and sz: "0 < sz"
    and o: "0 \<le> o'" "2 ^ k dvd o'" "o' + sz \<le> limit"
    and free: "\<And>x. o' \<le> x \<Longrightarrow> x < o' + sz \<Longrightarrow> \<not> allocated a x"
  obtains i where "i \<le> length (sp_cuts a)" and "even (length (sp_cuts a) - i)"
    and "place a (2 ^ k) i \<le> o'" and "o' + sz \<le> seg_hi limit a i"
proof -
  obtain i where i: "i \<le> length (sp_cuts a)" "seg_lo a i \<le> o'"
    and hi': "i < length (sp_cuts a) \<longrightarrow> o' < sp_cuts a ! i"
    by (rule segment_exists [OF ok(1) o(1)])
  then have hi: "o' < sp_cuts a ! i" if "i < length (sp_cuts a)" using that by simp
  have even: "even (length (sp_cuts a) - i)"
    using above_in_segment [OF ok(1) i hi] free [of o'] sz o(1) by (simp add: allocated_def)
  note place = place_spec [OF ok i(1) k]
  have "place a (2 ^ k) i \<le> o'"
  proof (rule ccontr)
    assume "\<not> place a (2 ^ k) i \<le> o'"
    then have "0 < place a (2 ^ k) i - o'" "place a (2 ^ k) i - o' < 2 ^ k" using place i(2) by auto
    moreover have "2 ^ k dvd place a (2 ^ k) i - o'" using place o(2) by (simp add: dvd_diff)
    ultimately show False using zdvd_imp_le by force
  qed
  moreover have "o' + sz \<le> seg_hi limit a i"
  proof (cases "i = length (sp_cuts a)")
    case False
    with i have less: "i < length (sp_cuts a)" by simp
    have "allocated a (sp_cuts a ! i)"
    proof -
      have "above (sp_cuts a ! i) (sp_cuts a) = length (sp_cuts a) - Suc i"
        using less by (intro above_in_segment [OF ok(1)]) (auto simp: seg_lo_def intro: cuts_less [OF ok(1)])
      with even less cut_pos [OF ok(1) less] show ?thesis by (auto simp: allocated_def)
    qed
    with free [of "sp_cuts a ! i"] hi [OF less] less show ?thesis by (force simp: seg_hi_def)
  qed (use o in \<open>simp add: seg_hi_def\<close>)
  ultimately show ?thesis using that i(1) even by blast
qed

lemma same_parity: "i \<le> (n :: nat) \<Longrightarrow> even (n - i) \<longleftrightarrow> (\<exists>e. i = n mod 2 + 2 * e)"
proof
  assume i: "i \<le> n" and "even (n - i)"
  then obtain d where "n - i = 2 * d" by (elim evenE)
  with i have "n = i + d * 2" by simp
  then have "n mod 2 = i mod 2" by simp
  then have "i = n mod 2 + 2 * (i div 2)" by simp
  then show "\<exists>e. i = n mod 2 + 2 * e" ..
next
  assume i: "i \<le> n" and ex: "\<exists>e. i = n mod 2 + 2 * e"
  from ex obtain e where e: "i = n mod 2 + 2 * e" ..
  have "n = n mod 2 + 2 * (n div 2)" by simp
  with e have "n - i = 2 * (n div 2 - e)" by (simp only: diff_mult_distrib2)
  then show "even (n - i)" by simp
qed

definition fits_at :: "int \<Rightarrow> int \<Rightarrow> int \<Rightarrow> space \<Rightarrow> int \<Rightarrow> bool" where
  "fits_at limit sz align a off \<longleftrightarrow> 0 \<le> off \<and> align dvd off \<and> off + sz \<le> limit \<and>
     (\<forall>x. off \<le> x \<longrightarrow> x < off + sz \<longrightarrow> \<not> allocated a x)"

lemma occupied_place:
  assumes ok: "space_ok a" "within limit a" and i: "i \<le> length (sp_cuts a)" "even (length (sp_cuts a) - i)"
    and sz: "0 < sz" and k: "k \<le> 31" and fits: "place a (2 ^ k) i + sz \<le> seg_hi limit a i"
  shows "fits_at limit sz (2 ^ k) a (place a (2 ^ k) i)"
  using occupy_spec [OF ok i sz k fits] place_spec [OF ok i(1) k] seg_hi_le [OF ok(2) i(1)] fits
  unfolding fits_at_def by force

lemma space_alloc_effect:
  assumes "space_ok a" and "within limit a" and "0 < sz" and "sz \<le> 2 ^ 62" and "k \<le> 31"
  shows "case space_alloc limit sz (2 ^ k) a of
      None \<Rightarrow> \<not> (\<exists>off. fits_at limit sz (2 ^ k) a off)
    | Some (off, a') \<Rightarrow> fits_at limit sz (2 ^ k) a off \<and>
        (\<forall>off'. fits_at limit sz (2 ^ k) a off' \<longrightarrow> off \<le> off') \<and>
        space_ok a' \<and> within limit a' \<and>
        (\<forall>x. off \<le> x \<longrightarrow> x < off + sz \<longrightarrow> allocated a' x) \<and>
        (\<forall>x. x \<le> off - 2 ^ k \<or> off + sz \<le> x \<or> allocated a x \<longrightarrow> allocated a' x = allocated a x)"
proof -
  let ?n = "length (sp_cuts a)"
  let ?fits = "\<lambda>e. place a (2 ^ k) (?n mod 2 + 2 * e) + sz \<le> seg_hi limit a (?n mod 2 + 2 * e)"
  note search = assms(1,2) less_imp_le [OF assms(3)] assms(4,5)
  have found: "\<exists>e. ?n mod 2 + 2 * e \<le> ?n \<and> ?fits e \<and> place a (2 ^ k) (?n mod 2 + 2 * e) \<le> off'"
    if off': "fits_at limit sz (2 ^ k) a off'" for off'
  proof -
    obtain i where i: "i \<le> ?n" "even (?n - i)" "place a (2 ^ k) i \<le> off'" "off' + sz \<le> seg_hi limit a i"
      using free_place_fits [OF assms(1,2,5,3), of off'] off' unfolding fits_at_def by blast
    then obtain e where "i = ?n mod 2 + 2 * e" using same_parity by blast
    with i show ?thesis by (intro exI [of _ e]) simp
  qed
  show ?thesis
  proof (cases "\<exists>e. ?n mod 2 + 2 * e \<le> ?n \<and> ?fits e")
    case False
    then have "space_alloc limit sz (2 ^ k) a = None"
      unfolding space_alloc_def by (intro alloc_from_missing [OF search]) (meson not_le)
    with False found show ?thesis by fastforce
  next
    case True
    define e where "e = (LEAST e. ?n mod 2 + 2 * e \<le> ?n \<and> ?fits e)"
    define j where "j = ?n mod 2 + 2 * e"
    have e: "?n mod 2 + 2 * e \<le> ?n \<and> ?fits e" unfolding e_def using True by (rule LeastI_ex)
    have earlier: "\<not> (?n mod 2 + 2 * e' \<le> ?n \<and> ?fits e')" if "e' < e" for e'
      using that unfolding e_def by (rule not_less_Least)
    define off where "off = place a (2 ^ k) j"
    define a' where "a' = occupy limit sz (2 ^ k) a j"
    have j: "j \<le> ?n" "even (?n - j)" and fits: "off + sz \<le> seg_hi limit a j"
      using e same_parity [of j ?n] by (auto simp: j_def off_def)
    have Some: "space_alloc limit sz (2 ^ k) a = Some (off, a')"
      unfolding space_alloc_def off_def a'_def j_def
      using e earlier by (intro alloc_from_found [OF search]) (auto simp: not_le)
    note eff = occupy_spec [OF assms(1,2) j assms(3,5) fits [unfolded off_def], folded off_def a'_def]
    have "off \<le> off'" if "fits_at limit sz (2 ^ k) a off'" for off'
    proof -
      from found [OF that] obtain f where f: "?n mod 2 + 2 * f \<le> ?n" "?fits f"
        "place a (2 ^ k) (?n mod 2 + 2 * f) \<le> off'" by blast
      with earlier have "\<not> f < e" by blast
      moreover have "off \<le> off'" if "e < f"
      proof -
        let ?i = "?n mod 2 + 2 * f"
        have less: "j < ?i" using that by (simp add: j_def)
        with f(1) have "off + sz \<le> sp_cuts a ! j" using fits by (simp add: seg_hi_def split: if_splits)
        also have "\<dots> \<le> seg_lo a ?i" using less f(1) cuts_le [OF assms(1), of j "?i - 1"] by (simp add: seg_lo_def)
        also have "\<dots> \<le> off'" using f(3) place_spec [OF assms(1,2) f(1) assms(5)] by simp
        finally show ?thesis using assms(3) by simp
      qed
      ultimately show ?thesis using f(3) unfolding off_def j_def by (cases "e = f") auto
    qed
    moreover have "fits_at limit sz (2 ^ k) a off"
      using occupied_place [OF assms(1,2) j assms(3,5) fits [unfolded off_def]] off_def by simp
    ultimately show ?thesis using Some eff by simp
  qed
qed


section \<open>Release\<close>

lemma segment_of_spec:
  "i + 2 * d < length cuts \<Longrightarrow> offset < cuts ! (i + 2 * d) \<Longrightarrow>
   \<exists>e \<le> d. segment_of cuts offset i = Some (i + 2 * e) \<and> offset < cuts ! (i + 2 * e) \<and>
     (0 < e \<longrightarrow> cuts ! (i + 2 * e - 2) \<le> offset)"
proof (induction d arbitrary: i)
  case 0
  then show ?case by (simp add: segment_of.simps)
next
  case (Suc d)
  show ?case
  proof (cases "cuts ! i \<le> offset")
    case False
    with Suc.prems show ?thesis by (intro exI [of _ 0]) (simp add: segment_of.simps)
  next
    case True
    have "segment_of cuts offset i = segment_of cuts offset (i + 2)"
      using True Suc.prems by (subst segment_of.simps) simp
    moreover from Suc.IH [of "i + 2"] Suc.prems obtain e where "e \<le> d"
      "segment_of cuts offset (i + 2) = Some (i + 2 + 2 * e)" "offset < cuts ! (i + 2 + 2 * e)"
      "0 < e \<longrightarrow> cuts ! (i + 2 + 2 * e - 2) \<le> offset" by (auto simp: algebra_simps)
    ultimately show ?thesis using True by (cases "e = 0") (auto intro!: exI [of _ "Suc e"])
  qed
qed

lemma first_full_segment:
  assumes "0 < (n :: nat)"
  obtains d where "n - 1 = 1 - n mod 2 + 2 * d"
proof (cases "even n")
  case True
  then obtain h where "n = 2 * h" by (rule evenE)
  with assms that [of "h - 1"] show ?thesis by (cases h) auto
next
  case False
  then obtain h where "n = 2 * h + 1" by (rule oddE)
  with that [of h] show ?thesis by simp
qed

definition shrink :: "int \<Rightarrow> int \<Rightarrow> space \<Rightarrow> nat \<Rightarrow> space" where
  "shrink offset sz a i =
     (if i \<noteq> 0 \<and> seg_lo a i = offset \<and> offset + sz \<noteq> sp_cuts a ! i
      then a\<lparr>sp_cuts := (sp_cuts a)[i - 1 := offset + sz]\<rparr>
      else if seg_lo a i \<noteq> offset \<and> offset + sz = sp_cuts a ! i
      then a\<lparr>sp_cuts := (sp_cuts a)[i := offset]\<rparr>
      else insert_segment i offset (offset + sz) a)"

lemma within_move:
  "within limit a \<Longrightarrow> v \<le> limit \<Longrightarrow> within limit (a\<lparr>sp_cuts := (sp_cuts a)[i := v]\<rparr>)"
  using set_update_subset_insert [of "sp_cuts a" i v] by (auto simp: within_def)

lemma shrink_spec:
  assumes ok: "space_ok a" and i: "i < length (sp_cuts a)" and sz: "0 < sz"
    and inside: "seg_lo a i \<le> offset" "offset + sz \<le> sp_cuts a ! i"
  shows "space_ok (shrink offset sz a i) \<and>
    allocated (shrink offset sz a i) x =
      (if offset \<le> x \<and> x < offset + sz then \<not> allocated a x else allocated a x) \<and>
    (within limit a \<longrightarrow> within limit (shrink offset sz a i))"
proof -
  let ?c = "sp_cuts a"
  have lo: "0 \<le> seg_lo a i" using seg_lo_nonneg [OF ok] i by simp
  have limit: "?c ! i \<le> limit" if "within limit a" using that i by (simp add: within_def)
  consider (low) "i \<noteq> 0" "seg_lo a i = offset" "offset + sz \<noteq> ?c ! i"
    | (high) "seg_lo a i \<noteq> offset" "offset + sz = ?c ! i"
    | (slow) "shrink offset sz a i = insert_segment i offset (offset + sz) a"
    unfolding shrink_def by argo
  then show ?thesis
  proof cases
    case low
    then have r: "shrink offset sz a i = a\<lparr>sp_cuts := ?c[i - 1 := offset + sz]\<rparr>" by (simp add: shrink_def)
    have "space_ok (shrink offset sz a i) \<and> allocated (shrink offset sz a i) x =
        (if 0 \<le> x \<and> min (?c ! (i - 1)) (offset + sz) \<le> x \<and> x < max (?c ! (i - 1)) (offset + sz)
         then \<not> allocated a x else allocated a x)" unfolding r
    proof (rule move_cut [OF ok])
      show "?c ! (i - 1 - 1) < offset + sz" if "0 < i - 1"
      proof -
        have "?c ! (i - 1 - 1) < ?c ! (i - 1)" using that i by (intro cuts_less [OF ok]) auto
        with low sz show ?thesis by (simp add: seg_lo_def)
      qed
    qed (use low i inside lo sz in \<open>auto simp: seg_lo_def\<close>)
    moreover have "?c ! (i - 1) = offset" using low by (simp add: seg_lo_def)
    moreover have "within limit a \<longrightarrow> within limit (shrink offset sz a i)"
      unfolding r using limit inside by (auto intro!: within_move)
    ultimately show ?thesis using lo low sz by auto
  next
    case high
    then have r: "shrink offset sz a i = a\<lparr>sp_cuts := ?c[i := offset]\<rparr>" by (simp add: shrink_def)
    have "space_ok (shrink offset sz a i) \<and> allocated (shrink offset sz a i) x =
        (if 0 \<le> x \<and> min (?c ! i) offset \<le> x \<and> x < max (?c ! i) offset
         then \<not> allocated a x else allocated a x)" unfolding r
    proof (rule move_cut [OF ok i])
      show "offset < ?c ! (i + 1)" if "i + 1 < length ?c"
        using cuts_less [OF ok _ that, of i] high sz by simp
    qed (use high lo inside in \<open>auto simp: seg_lo_def\<close>)
    moreover have "within limit a \<longrightarrow> within limit (shrink offset sz a i)"
      unfolding r using limit high sz by (auto intro!: within_move)
    ultimately show ?thesis using lo high inside sz by auto
  next
    case slow
    have "\<forall>c \<in> set (take i ?c). c \<le> offset" using seg_left [OF ok less_imp_le [OF i]] inside by force
    moreover have "\<forall>c \<in> set (drop i ?c). offset + sz \<le> c"
      using seg_right [OF ok, of _ i 0] inside i by (force simp: seg_hi_def)
    ultimately show ?thesis unfolding slow
      using insert_segment_spec [OF ok less_imp_le [OF i], of offset "offset + sz" x]
        insert_segment_within [of limit a offset "offset + sz" i] limit inside lo sz by auto
  qed
qed

lemma space_free_shrink:
  "space_free offset sz a =
    (if sp_cuts a = [] \<or> sp_cuts a ! (length (sp_cuts a) - 1) \<le> offset then Not_allocated
     else case segment_of (sp_cuts a) offset (1 - length (sp_cuts a) mod 2) of
            None \<Rightarrow> Out_of_bounds
          | Some i \<Rightarrow> if offset < seg_lo a i \<or> sp_cuts a ! i < offset + sz then Not_allocated
                      else Freed (shrink offset sz a i))"
  unfolding space_free_def shrink_def seg_lo_def Let_def if_distrib [of Freed] by (rule refl)

lemma space_free_effect:
  assumes ok: "space_ok a" and off: "0 \<le> offset" and sz: "0 < sz"
  shows "if \<forall>x. offset \<le> x \<longrightarrow> x < offset + sz \<longrightarrow> allocated a x
    then \<exists>a'. space_free offset sz a = Freed a' \<and> space_ok a' \<and>
      (\<forall>x. allocated a' x \<longleftrightarrow> allocated a x \<and> \<not> (offset \<le> x \<and> x < offset + sz)) \<and>
      (\<forall>limit. within limit a \<longrightarrow> within limit a')
    else space_free offset sz a = Not_allocated"
proof -
  let ?n = "length (sp_cuts a)" and ?c = "sp_cuts a"
  show ?thesis
  proof (cases "?c = [] \<or> ?c ! (?n - 1) \<le> offset")
    case True
    have "\<not> allocated a offset"
    proof (cases "?c = []")
      case False
      with True have "seg_lo a ?n \<le> offset" by (simp add: seg_lo_def)
      then show ?thesis using above_in_segment [OF ok order_refl, of offset] by (simp add: allocated_def)
    qed (simp add: allocated_def)
    moreover have "space_free offset sz a = Not_allocated" using True by (simp add: space_free_def Let_def)
    ultimately show ?thesis using sz by (metis add_less_same_cancel1 less_add_same_cancel1 order_refl)
  next
    case False
    have n: "0 < ?n" "offset < ?c ! (?n - 1)" using False by auto
    obtain d where d: "?n - 1 = 1 - ?n mod 2 + 2 * d" by (rule first_full_segment [OF n(1)])
    with n have "1 - ?n mod 2 + 2 * d < ?n" "offset < ?c ! (1 - ?n mod 2 + 2 * d)" by simp_all
    from segment_of_spec [OF this] obtain e where e: "e \<le> d"
      "segment_of ?c offset (1 - ?n mod 2) = Some (1 - ?n mod 2 + 2 * e)"
      "offset < ?c ! (1 - ?n mod 2 + 2 * e)"
      "0 < e \<longrightarrow> ?c ! (1 - ?n mod 2 + 2 * e - 2) \<le> offset" by blast
    define m where "m = 1 - ?n mod 2 + 2 * e"
    have m: "m < ?n" "odd (?n - m)" "segment_of ?c offset (1 - ?n mod 2) = Some m" "offset < ?c ! m"
    proof -
      have "?n = m + (1 + 2 * (d - e))" using d n(1) e(1) unfolding m_def by (simp add: diff_mult_distrib2)
      then show "m < ?n" "odd (?n - m)" by simp_all
    qed (use e in \<open>simp_all add: m_def\<close>)
    have before: "seg_lo a (m - 1) \<le> offset"
      using e(4) off unfolding m_def seg_lo_def by (cases "e = 0") (auto simp: numeral_2_eq_2 split: if_splits)
    have full: "allocated a x" if "seg_lo a m \<le> x" "x < ?c ! m" for x
      using above_in_segment [OF ok less_imp_le [OF m(1)], of x] that m(2) seg_lo_nonneg [OF ok less_imp_le [OF m(1)]]
      by (simp add: allocated_def)
    have gap: "\<not> allocated a offset" if "offset < seg_lo a m"
    proof -
      have "0 < m" using that off by (cases m) (auto simp: seg_lo_def)
      then have "above offset ?c = ?n - (m - 1)"
        using m(1) that before by (intro above_in_segment [OF ok]) (auto simp: seg_lo_def)
      with m \<open>0 < m\<close> show ?thesis by (simp add: allocated_def)
    qed
    have next_gap: "\<not> allocated a (?c ! m)"
    proof -
      have "above (?c ! m) ?c = ?n - Suc m"
        using m(1) by (intro above_in_segment [OF ok]) (auto simp: seg_lo_def intro: cuts_less [OF ok])
      with m show ?thesis by (simp add: allocated_def)
    qed
    have code: "space_free offset sz a = (if offset < seg_lo a m \<or> ?c ! m < offset + sz then Not_allocated
        else Freed (shrink offset sz a m))"
      unfolding space_free_shrink using False by (simp only: m(3) option.case if_False)
    show ?thesis
    proof (cases "offset < seg_lo a m \<or> ?c ! m < offset + sz")
      case True
      then have "\<exists>x. offset \<le> x \<and> x < offset + sz \<and> \<not> allocated a x"
        using gap next_gap m(4) sz by (meson less_add_same_cancel1 less_imp_le order_refl)
      with True show ?thesis by (auto simp: code)
    next
      case inside: False
      then have all: "\<forall>x. offset \<le> x \<longrightarrow> x < offset + sz \<longrightarrow> allocated a x" using full by simp
      have freed: "space_free offset sz a = Freed (shrink offset sz a m)" using inside by (simp add: code)
      note eff = shrink_spec [OF ok m(1) sz, of offset]
      have "allocated (shrink offset sz a m) x \<longleftrightarrow> allocated a x \<and> \<not> (offset \<le> x \<and> x < offset + sz)" for x
        using eff [of x] inside all by auto
      moreover have "space_ok (shrink offset sz a m)" "\<forall>limit. within limit a \<longrightarrow> within limit (shrink offset sz a m)"
        using eff inside by simp_all
      ultimately have "\<exists>a'. space_free offset sz a = Freed a' \<and> space_ok a' \<and>
        (\<forall>x. allocated a' x \<longleftrightarrow> allocated a x \<and> \<not> (offset \<le> x \<and> x < offset + sz)) \<and>
        (\<forall>limit. within limit a \<longrightarrow> within limit a')" using freed by blast
      then show ?thesis unfolding if_P [OF all] .
    qed
  qed
qed


section \<open>Clients\<close>

text \<open>A client's history: the blocks it holds, the youngest first.  It releases only what it holds.\<close>

inductive space_run :: "int \<Rightarrow> space \<Rightarrow> (int \<times> int) list \<Rightarrow> bool" for limit where
  run_start: "space_run limit space_construct []"
| run_alloc: "space_run limit a live \<Longrightarrow> 0 < sz \<Longrightarrow> sz \<le> 2 ^ 62 \<Longrightarrow> k \<le> 31 \<Longrightarrow>
    space_alloc limit sz (2 ^ k) a = Some (off, a') \<Longrightarrow> space_run limit a' ((off, sz) # live)"
| run_free: "space_run limit a live \<Longrightarrow> (off, sz) \<in> set live \<Longrightarrow>
    space_free off sz a = Freed a' \<Longrightarrow> space_run limit a' (remove1 (off, sz) live)"

definition apart :: "int \<times> int \<Rightarrow> int \<times> int \<Rightarrow> bool" where
  "apart b c \<longleftrightarrow> fst b + snd b \<le> fst c \<or> fst c + snd c \<le> fst b"

definition live_ok :: "int \<Rightarrow> space \<Rightarrow> (int \<times> int) list \<Rightarrow> bool" where
  "live_ok limit a live \<longleftrightarrow> space_ok a \<and> within limit a \<and> sorted_wrt apart live \<and>
     (\<forall>(off, sz) \<in> set live. 0 \<le> off \<and> 0 < sz \<and> off + sz \<le> limit \<and>
       (\<forall>x. off \<le> x \<longrightarrow> x < off + sz \<longrightarrow> allocated a x))"

lemma sorted_wrt_remove1: "sorted_wrt P xs \<Longrightarrow> sorted_wrt P (remove1 x xs)"
  by (induction xs) (auto dest: set_remove1_subset [THEN subsetD])

lemma live_blocks_apart:
  assumes "sorted_wrt apart live" and "\<forall>b \<in> set live. 0 < snd b" and "b \<in> set live"
    and "c \<in> set (remove1 b live)"
  shows "apart b c"
  using assms by (induction live) (auto simp: apart_def split: if_splits)

lemma space_start_ok: "space_ok space_construct" "sp_cuts space_construct = []"
  by (simp_all add: space_ok_def space_construct_def)

lemma live_alloc:
  assumes live: "live_ok limit a live" and sz: "0 < sz" "sz \<le> 2 ^ 62" "k \<le> 31"
    and alloc: "space_alloc limit sz (2 ^ k) a = Some (off, a')"
    and effect: "fits_at limit sz (2 ^ k) a off" "space_ok a'" "within limit a'"
      "\<And>x. off \<le> x \<Longrightarrow> x < off + sz \<Longrightarrow> allocated a' x" "\<And>x. allocated a x \<Longrightarrow> allocated a' x"
  shows "live_ok limit a' ((off, sz) # live)"
proof -
  have "apart (off, sz) b" if "b \<in> set live" for b
  proof (rule ccontr)
    obtain o' s' where b: "b = (o', s')" by (cases b)
    assume "\<not> apart (off, sz) b"
    then have "max off o' < off + sz" "max off o' < o' + s'" using sz live that b
      by (auto simp: apart_def live_ok_def)
    then have "allocated a (max off o')" using live that b by (auto simp: live_ok_def)
    with effect(1) \<open>max off o' < off + sz\<close> show False by (simp add: fits_at_def)
  qed
  with live effect sz show ?thesis by (fastforce simp: live_ok_def fits_at_def)
qed

lemma live_free:
  assumes live: "live_ok limit a live" and b: "(off, sz) \<in> set live"
    and effect: "space_ok a'" "within limit a'"
      "\<And>x. allocated a' x \<longleftrightarrow> allocated a x \<and> \<not> (off \<le> x \<and> x < off + sz)"
  shows "live_ok limit a' (remove1 (off, sz) live)"
proof -
  have pos: "\<forall>b \<in> set live. 0 < snd b" using live by (auto simp: live_ok_def)
  have "\<forall>x. o' \<le> x \<longrightarrow> x < o' + s' \<longrightarrow> allocated a' x" if "(o', s') \<in> set (remove1 (off, sz) live)" for o' s'
  proof -
    have "apart (off, sz) (o', s')" using live_blocks_apart [OF _ pos b that] live by (simp add: live_ok_def)
    moreover have "(o', s') \<in> set live" using that by (rule set_remove1_subset [THEN subsetD])
    ultimately show ?thesis using live effect(3) by (fastforce simp: apart_def live_ok_def)
  qed
  moreover have "set (remove1 (off, sz) live) \<subseteq> set live" by (rule set_remove1_subset)
  ultimately show ?thesis using live effect by (auto simp: live_ok_def intro: sorted_wrt_remove1)
qed


lemma space_run_live_ok:
  assumes "space_run limit a live" and "0 \<le> limit" and "limit \<le> 2 ^ 62"
  shows "live_ok limit a live"
  using assms
proof (induction rule: space_run.induct)
  case run_start
  then show ?case by (simp add: live_ok_def space_start_ok within_def)
next
  case (run_alloc a live sz k off a')
  then have live: "live_ok limit a live" by simp
  then have ok: "space_ok a" "within limit a" by (simp_all add: live_ok_def)
  have "case Some (off, a') of None \<Rightarrow> True | Some (off, a') \<Rightarrow> fits_at limit sz (2 ^ k) a off \<and>
      space_ok a' \<and> within limit a' \<and> (\<forall>x. off \<le> x \<longrightarrow> x < off + sz \<longrightarrow> allocated a' x) \<and>
      (\<forall>x. allocated a x \<longrightarrow> allocated a' x)"
    using space_alloc_effect [OF ok run_alloc.hyps(2,3,4), unfolded run_alloc.hyps(5)] by simp
  then show ?case by (intro live_alloc [OF live run_alloc.hyps(2-5)]) simp_all
next
  case (run_free a live off sz a')
  then have live: "live_ok limit a live" by simp
  with run_free have blk: "0 \<le> off" "0 < sz" "\<forall>x. off \<le> x \<longrightarrow> x < off + sz \<longrightarrow> allocated a x" "space_ok a" "within limit a"
    by (auto simp: live_ok_def)
  from space_free_effect [OF blk(4,1,2), unfolded if_P [OF blk(3)]] run_free.hyps(3) blk(5)
  show ?case by (intro live_free [OF live run_free.hyps(2)]) auto
qed

text \<open>C36. \<open>ncclSpaceAlloc\<close> with a power-of-two alignment returns the lowest aligned offset below the
  limit whose whole range is free, and fails only when there is none.  On success the range becomes
  allocated, nothing that was allocated is lost, and only offsets of the range or less than the
  alignment below it change; the array of cuts stays well formed.\<close>

theorem space_alloc_first_fit:
  assumes "space_ok a" and "within limit a" and "0 < sz" and "sz \<le> 2 ^ 62" and "k \<le> 31"
  shows "case space_alloc limit sz (2 ^ k) a of
      None \<Rightarrow> \<not> (\<exists>off. fits_at limit sz (2 ^ k) a off)
    | Some (off, a') \<Rightarrow> fits_at limit sz (2 ^ k) a off \<and>
        (\<forall>off'. fits_at limit sz (2 ^ k) a off' \<longrightarrow> off \<le> off') \<and>
        space_ok a' \<and> within limit a' \<and>
        (\<forall>x. off \<le> x \<longrightarrow> x < off + sz \<longrightarrow> allocated a' x) \<and>
        (\<forall>x. x \<le> off - 2 ^ k \<or> off + sz \<le> x \<or> allocated a x \<longrightarrow> allocated a' x = allocated a x)"
  by (rule space_alloc_effect [OF assms])

text \<open>\<open>ncclSpaceFree\<close> succeeds if and only if the whole range is allocated; it then releases
  exactly that range and keeps the array of cuts well formed.  Otherwise it reports that there is no
  such allocation.  The search loop never runs off the array.\<close>

theorem space_free_spec:
  assumes ok: "space_ok a" and off: "0 \<le> offset" and sz: "0 < sz"
  shows "if \<forall>x. offset \<le> x \<longrightarrow> x < offset + sz \<longrightarrow> allocated a x
    then \<exists>a'. space_free offset sz a = Freed a' \<and> space_ok a' \<and>
      (\<forall>x. allocated a' x \<longleftrightarrow> allocated a x \<and> \<not> (offset \<le> x \<and> x < offset + sz)) \<and>
      (\<forall>limit. within limit a \<longrightarrow> within limit a')
    else space_free offset sz a = Not_allocated"
  by (rule space_free_effect [OF assms])

text \<open>Whatever a client allocates and releases, the blocks it holds lie between zero and the
  limit and are pairwise disjoint, and any block it holds can be released.\<close>

theorem space_clients:
  assumes "space_run limit a live" and "0 \<le> limit" and "limit \<le> 2 ^ 62"
  shows "sorted_wrt apart live \<and> (\<forall>(off, sz) \<in> set live. 0 \<le> off \<and> off + sz \<le> limit \<and>
    (\<exists>a'. space_free off sz a = Freed a'))"
proof -
  have live: "live_ok limit a live" using assms by (rule space_run_live_ok)
  have "\<exists>a'. space_free off sz a = Freed a'" if b: "(off, sz) \<in> set live" for off sz
  proof -
    from live b have blk: "0 \<le> off" "0 < sz" "\<forall>x. off \<le> x \<longrightarrow> x < off + sz \<longrightarrow> allocated a x" "space_ok a"
      by (auto simp: live_ok_def)
    from space_free_effect [OF blk(4,1,2), unfolded if_P [OF blk(3)]] show ?thesis by blast
  qed
  with live show ?thesis by (auto simp: live_ok_def)
qed

section \<open>Samples\<close>

text \<open>Two blocks, of alignments 1 and 16: the second is appended to the segment of the first, and
  the padding between them is swallowed.\<close>

definition one_block :: space where
  "one_block = \<lparr>sp_cuts = [1], sp_capacity = 16\<rparr>"

definition padded :: space where
  "padded = \<lparr>sp_cuts = [32], sp_capacity = 16\<rparr>"

lemma sample_allocs:
  "space_alloc 64 1 (2 ^ 0) space_construct = Some (0, one_block)"
  "space_alloc 64 16 (2 ^ 4) one_block = Some (16, padded)"
  by code_simp+

lemma sample_run: "space_run 64 padded [(16, 16), (0, 1)]"
  using run_alloc [OF run_alloc [OF run_start, of 1 0 64 0 one_block], of 16 4 16 padded] sample_allocs
  by simp

lemma sample_ok: "space_ok one_block" "within 64 one_block"
  by (simp_all add: space_ok_def within_def one_block_def)

theorem space_alloc_first_fit_witness:
  "fits_at 64 16 16 one_block 16"
  using space_alloc_first_fit [OF sample_ok, of 16 4, unfolded sample_allocs] by simp

theorem space_free_spec_witness: "space_free 8 4 one_block = Not_allocated"
proof -
  have "\<not> allocated one_block 8" by (simp add: one_block_def allocated_def)
  then have "\<not> (\<forall>x. 8 \<le> x \<longrightarrow> x < 8 + 4 \<longrightarrow> allocated one_block x)" by (metis add_less_cancel_left order_refl zero_less_numeral add.right_neutral)
  from space_free_spec [OF sample_ok(1), of 8 4, unfolded if_not_P [OF this]] show ?thesis by simp
qed

theorem space_clients_witness: "\<exists>a'. space_free 16 16 padded = Freed a'"
  using space_clients [OF sample_run] by simp

text \<open>Alignment padding leaks: two blocks of one byte and of sixteen bytes aligned to sixteen are
  allocated and both released, yet the offsets between them stay allocated, so that a further block
  of the whole space is refused.\<close>

theorem alignment_padding_leaks:
  "\<exists>a1 a2. space_free 0 1 padded = Freed a1 \<and> space_free 16 16 a1 = Freed a2 \<and>
    space_run 64 a2 [] \<and> allocated a2 8 \<and> space_alloc 64 64 (2 ^ 0) a2 = None"
proof -
  let ?a1 = "\<lparr>sp_cuts = [1, 32], sp_capacity = 16\<rparr>" and ?a2 = "\<lparr>sp_cuts = [1, 16], sp_capacity = 16\<rparr>"
  have "space_free 0 1 padded = Freed ?a1" "space_free 16 16 ?a1 = Freed ?a2"
    "space_alloc 64 64 (2 ^ 0) ?a2 = None" "allocated ?a2 8" by code_simp+
  moreover from this have "space_run 64 ?a2 []"
    using run_free [OF run_free [OF sample_run, of 0 1 ?a1], of 16 16 ?a2] by simp
  ultimately show ?thesis by blast
qed

end
