(* ===== verification/AddressMap.thy ===== *)
theory AddressMap
  imports Prelude
begin

text \<open>
  The intrusive address map of \<open>src/misc/utils.cc\<close>: a hash table whose buckets are linked lists
  threaded through the objects of the caller.

  The objects live in a heap from addresses to nodes, since the operations rewrite the link fields
  of objects that the map does not own.  A loop over a bucket follows these links and is a partial
  function: \<open>None\<close> says that it does not return (a circular list).

  The abstract state is the finite map from keys to objects.  \<open>represents\<close> ties it to the table:
  the lemmas show that insertion, with the growth of the table, lookup and removal implement
  update, application and deletion, and always return.
\<close>

record node =
  key :: u64
  nxt :: ptr

type_synonym heap = "ptr \<Rightarrow> node"

record address_map =
  am_hbits :: nat
  am_count :: int
  am_table :: "ptr list"

definition empty_map :: address_map where
  "empty_map = \<lparr>am_hbits = 0, am_count = 0, am_table = []\<rparr>"

definition hash_pointer :: "nat \<Rightarrow> u64 \<Rightarrow> nat" where
  "hash_pointer hbits p =
     (let h = p XOR drop_bit 32 p; h = h * 0x9e3779b97f4a7c13 in unat (drop_bit (64 - hbits) h))"

text \<open>\<open>memcpy\<close> of \<open>keySize\<close> bytes into a zeroed word, on a little-endian machine.\<close>

definition read_key :: "int \<Rightarrow> node \<Rightarrow> u64" where
  "read_key sz n = take_bit (8 * nat sz) (key n)"

definition read_next_ptr :: "heap \<Rightarrow> ptr \<Rightarrow> ptr" where
  "read_next_ptr h obj = nxt (h obj)"

definition write_next_ptr :: "ptr \<Rightarrow> ptr \<Rightarrow> heap \<Rightarrow> heap" where
  "write_next_ptr obj p h = h(obj := (h obj)\<lparr>nxt := p\<rparr>)"

section \<open>Insertion\<close>

text \<open>The loop over one bucket of the old table, on the new table and the heap.\<close>

partial_function (option) rehash_chain :: "int \<Rightarrow> nat \<Rightarrow> ptr \<Rightarrow> ptr list \<times> heap \<Rightarrow> (ptr list \<times> heap) option" where
  "rehash_chain sz hbits obj s =
     (if obj = null then Some s
      else let (table, h) = s;
               next = read_next_ptr h obj;
               b = hash_pointer hbits (read_key sz (h obj));
               h = write_next_ptr obj (table ! b) h
           in rehash_chain sz hbits next (table[b := obj], h))"

fun rehash :: "int \<Rightarrow> nat \<Rightarrow> ptr list \<Rightarrow> ptr list \<times> heap \<Rightarrow> (ptr list \<times> heap) option" where
  "rehash sz hbits [] s = Some s"
| "rehash sz hbits (p # ps) s = Option.bind (rehash_chain sz hbits p s) (rehash sz hbits ps)"

definition grow_map :: "int \<Rightarrow> address_map \<Rightarrow> heap \<Rightarrow> (address_map \<times> heap) option" where
  "grow_map sz m h =
     map_option (\<lambda>(table, h). (m\<lparr>am_hbits := am_hbits m + 1, am_table := table\<rparr>, h))
       (rehash sz (am_hbits m + 1) (am_table m) (replicate (2 ^ (am_hbits m + 1)) null, h))"

definition push_object :: "u64 \<Rightarrow> ptr \<Rightarrow> address_map \<Rightarrow> heap \<Rightarrow> address_map \<times> heap" where
  "push_object k obj m h =
     (let b = hash_pointer (am_hbits m) k in
      (m\<lparr>am_table := (am_table m)[b := obj], am_count := am_count m + 1\<rparr>,
       write_next_ptr obj (am_table m ! b) h))"

definition valid_key_size :: "int \<Rightarrow> bool" where
  "valid_key_size sz \<longleftrightarrow> 0 < sz \<and> sz \<le> 8"

text \<open>\<open>None\<close> as the map is the null pointer; \<open>memory\<close> says whether the allocation of a table succeeds.\<close>

definition map_insert ::
    "bool \<Rightarrow> int \<Rightarrow> u64 \<Rightarrow> ptr \<Rightarrow> address_map option \<Rightarrow> heap \<Rightarrow>
      (nccl_result \<times> address_map option \<times> heap) option" where
  "map_insert memory sz k obj mp h =
     (case mp of
        None \<Rightarrow> Some (ncclInvalidUsage, None, h)
      | Some m \<Rightarrow>
          if obj = null \<or> \<not> valid_key_size sz then Some (ncclInvalidUsage, Some m, h)
          else if am_hbits m = 0 \<and> \<not> memory then Some (ncclSystemError, Some (m\<lparr>am_table := []\<rparr>), h)
          else
            let m = (if am_hbits m = 0 then m\<lparr>am_hbits := 4, am_table := replicate (2 ^ 4) null\<rparr> else m) in
            if am_count m + 1 > 2 * 2 ^ am_hbits m \<and> \<not> memory then Some (ncclSystemError, Some m, h)
            else
              map_option (\<lambda>(m, h). let (m, h) = push_object k obj m h in (ncclSuccess, Some m, h))
                (if am_count m + 1 > 2 * 2 ^ am_hbits m then grow_map sz m h else Some (m, h)))"

section \<open>Lookup and removal\<close>

text \<open>The result of a lookup has no object where the code leaves the output unwritten.\<close>

partial_function (option) find_in_chain :: "int \<Rightarrow> u64 \<Rightarrow> heap \<Rightarrow> ptr \<Rightarrow> ptr option" where
  "find_in_chain sz k h obj =
     (if obj = null then Some null
      else if read_key sz (h obj) = k then Some obj
      else find_in_chain sz k h (read_next_ptr h obj))"

definition map_find :: "int \<Rightarrow> u64 \<Rightarrow> address_map option \<Rightarrow> heap \<Rightarrow> (nccl_result \<times> ptr option) option" where
  "map_find sz k mp h =
     (case mp of
        None \<Rightarrow> Some (ncclInvalidUsage, None)
      | Some m \<Rightarrow>
          if \<not> valid_key_size sz then Some (ncclInvalidUsage, None)
          else if am_hbits m = 0 then Some (ncclSuccess, Some null)
          else map_option (\<lambda>obj. (ncclSuccess, Some obj)) (find_in_chain sz k h (am_table m ! hash_pointer (am_hbits m) k)))"

text \<open>The object with the key and the one before it, null pointers for none.\<close>

partial_function (option) find_with_prev :: "int \<Rightarrow> u64 \<Rightarrow> heap \<Rightarrow> ptr \<Rightarrow> ptr \<Rightarrow> (ptr \<times> ptr) option" where
  "find_with_prev sz k h prev obj =
     (if obj = null then Some (prev, null)
      else if read_key sz (h obj) = k then Some (prev, obj)
      else find_with_prev sz k h obj (read_next_ptr h obj))"

definition unlink_object :: "nat \<Rightarrow> ptr \<Rightarrow> ptr \<Rightarrow> address_map \<Rightarrow> heap \<Rightarrow> address_map \<times> heap" where
  "unlink_object b prev obj m h =
     (let next = read_next_ptr h obj;
          (m, h) = (if prev = null then (m\<lparr>am_table := (am_table m)[b := next]\<rparr>, h)
                    else (m, write_next_ptr prev next h));
          m = m\<lparr>am_count := am_count m - 1\<rparr>
      in (if am_count m = 0 then empty_map else m, h))"

definition map_remove ::
    "int \<Rightarrow> u64 \<Rightarrow> address_map option \<Rightarrow> heap \<Rightarrow> (nccl_result \<times> address_map option \<times> heap) option" where
  "map_remove sz k mp h =
     (case mp of
        None \<Rightarrow> Some (ncclInvalidUsage, None, h)
      | Some m \<Rightarrow>
          if \<not> valid_key_size sz then Some (ncclInvalidUsage, Some m, h)
          else if am_hbits m = 0 then Some (ncclSuccess, Some m, h)
          else
            let b = hash_pointer (am_hbits m) k in
            map_option (\<lambda>(prev, obj).
                if obj = null then (ncclSuccess, Some m, h)
                else let (m, h) = unlink_object b prev obj m h in (ncclSuccess, Some m, h))
              (find_with_prev sz k h null (am_table m ! b)))"

section \<open>Lists in the heap\<close>

primrec chain :: "heap \<Rightarrow> ptr \<Rightarrow> ptr list \<Rightarrow> bool" where
  "chain h p [] \<longleftrightarrow> p = null"
| "chain h p (x # xs) \<longleftrightarrow> p = x \<and> x \<noteq> null \<and> chain h (nxt (h x)) xs"

lemma chain_frame: "(\<And>x. x \<in> set xs \<Longrightarrow> nxt (h' x) = nxt (h x)) \<Longrightarrow> chain h' p xs = chain h p xs"
  by (induction xs arbitrary: p) auto

lemma chain_null: "chain h null xs \<longleftrightarrow> xs = []"
  by (cases xs) auto

lemma chain_not_null: "p \<noteq> null \<Longrightarrow> chain h p xs \<longleftrightarrow> (\<exists>ys. xs = p # ys \<and> chain h (nxt (h p)) ys)"
  by (cases xs) auto

lemma write_next_ptr_simps [simp]:
  "nxt (write_next_ptr obj p h x) = (if x = obj then p else nxt (h x))"
  "key (write_next_ptr obj p h x) = key (h x)"
  "x \<noteq> obj \<Longrightarrow> write_next_ptr obj p h x = h x"
  by (simp_all add: write_next_ptr_def)

lemma read_key_cong: "key n = key n' \<Longrightarrow> read_key sz n = read_key sz n'"
  by (simp add: read_key_def)

lemma hash_pointer_less: "hbits \<le> 64 \<Longrightarrow> hash_pointer hbits p < 2 ^ hbits"
proof -
  assume "hbits \<le> 64"
  have "unat (drop_bit (64 - hbits) w) < 2 ^ hbits" for w :: u64
  proof -
    have "unat w < 2 ^ hbits * 2 ^ (64 - hbits)"
      using unsigned_less [of w] \<open>hbits \<le> 64\<close> by (simp flip: power_add)
    then show ?thesis
      by (subst unat_drop_bit_eq, subst drop_bit_eq_div, intro less_mult_imp_div_less)
  qed
  then show ?thesis by (simp add: hash_pointer_def Let_def)
qed


section \<open>The table as buckets\<close>

definition buckets_ok :: "int \<Rightarrow> nat \<Rightarrow> heap \<Rightarrow> ptr list \<Rightarrow> ptr list list \<Rightarrow> bool" where
  "buckets_ok sz hbits h table bs \<longleftrightarrow>
     hbits \<le> 64 \<and> length table = 2 ^ hbits \<and> length bs = 2 ^ hbits \<and> distinct (concat bs) \<and>
     (\<forall>i < 2 ^ hbits. chain h (table ! i) (bs ! i) \<and>
       (\<forall>x \<in> set (bs ! i). hash_pointer hbits (read_key sz (h x)) = i))"

lemma buckets_ok_empty: "hbits \<le> 64 \<Longrightarrow> buckets_ok sz hbits h (replicate (2 ^ hbits) null) (replicate (2 ^ hbits) [])"
  by (simp add: buckets_ok_def)

lemma set_concat_update:
  "i < length bs \<Longrightarrow> set (concat (bs[i := x # bs ! i])) = insert x (set (concat bs))"
proof (induction bs arbitrary: i)
  case (Cons b bs)
  then show ?case by (cases i) auto
qed simp

lemma distinct_concat_update:
  "i < length bs \<Longrightarrow> distinct (concat bs) \<Longrightarrow> x \<notin> set (concat bs) \<Longrightarrow> distinct (concat (bs[i := x # bs ! i]))"
proof (induction bs arbitrary: i)
  case (Cons b bs)
  then show ?case
  proof (cases i)
    case (Suc j)
    with Cons show ?thesis using set_concat_update [of j bs x] by auto
  qed auto
qed simp

text \<open>Pushing one object, as insertion and growth do.\<close>

lemma push_ok:
  assumes ok: "buckets_ok sz hbits h table bs" and x: "x \<notin> set (concat bs)" "x \<noteq> null"
  defines "b \<equiv> hash_pointer hbits (read_key sz (h x))"
  shows "buckets_ok sz hbits (write_next_ptr x (table ! b) h) (table[b := x]) (bs[b := x # bs ! b])"
proof -
  have b: "b < 2 ^ hbits" using ok hash_pointer_less by (simp add: b_def buckets_ok_def)
  then have "b < length bs" "b < length table" using ok by (simp_all add: buckets_ok_def)
  have other: "y \<noteq> x" if "i < 2 ^ hbits" "y \<in> set (bs ! i)" for i y
    using that x(1) ok by (auto simp: buckets_ok_def)
  have keys: "read_key sz (write_next_ptr x p h y) = read_key sz (h y)" for p y
    by (rule read_key_cong) simp
  have frame: "chain (write_next_ptr x p h) q (bs ! i) = chain h q (bs ! i)" if "i < 2 ^ hbits" for i p q
    using other [OF that] by (intro chain_frame) auto
  have "chain (write_next_ptr x (table ! b) h) (table[b := x] ! i) (bs[b := x # bs ! b] ! i) \<and>
      (\<forall>y \<in> set (bs[b := x # bs ! b] ! i). hash_pointer hbits (read_key sz (write_next_ptr x (table ! b) h y)) = i)"
    if "i < 2 ^ hbits" for i
  proof -
    have i: "chain h (table ! i) (bs ! i)" "\<forall>y \<in> set (bs ! i). hash_pointer hbits (read_key sz (h y)) = i"
      using ok that by (simp_all add: buckets_ok_def)
    show ?thesis
    proof (cases "i = b")
      case True
      have "hash_pointer hbits (read_key sz (h x)) = b" by (simp add: b_def)
      with i [unfolded True] frame [OF b] x \<open>b < length bs\<close> \<open>b < length table\<close> show ?thesis
        unfolding True by (simp add: keys)
    next
      case False
      with i frame [OF that] show ?thesis by (simp add: keys)
    qed
  qed
  moreover have "distinct (concat (bs[b := x # bs ! b]))"
    using ok x \<open>b < length bs\<close> by (intro distinct_concat_update) (auto simp: buckets_ok_def)
  ultimately show ?thesis using ok by (simp add: buckets_ok_def)
qed

lemma rehash_chain_ok:
  "chain h p xs \<Longrightarrow> buckets_ok sz hbits h table bs \<Longrightarrow> distinct xs \<Longrightarrow> set xs \<inter> set (concat bs) = {} \<Longrightarrow>
   \<exists>table' h' bs'. rehash_chain sz hbits p (table, h) = Some (table', h') \<and>
     buckets_ok sz hbits h' table' bs' \<and> set (concat bs') = set xs \<union> set (concat bs) \<and>
     (\<forall>x. key (h' x) = key (h x)) \<and> (\<forall>x. x \<notin> set xs \<longrightarrow> h' x = h x)"
proof (induction xs arbitrary: p h table bs)
  case Nil
  then show ?case by (subst rehash_chain.simps) auto
next
  case (Cons x xs)
  let ?b = "hash_pointer hbits (read_key sz (h x))"
  let ?h = "write_next_ptr x (table ! ?b) h" and ?bs = "bs[?b := x # bs ! ?b]"
  have px: "p = x" "x \<noteq> null" "chain h (nxt (h x)) xs" using Cons.prems(1) by auto
  have "?b < length bs" using Cons.prems(2) hash_pointer_less [of hbits] by (simp add: buckets_ok_def)
  then have set_bs: "set (concat ?bs) = insert x (set (concat bs))" by (rule set_concat_update)
  have ok: "buckets_ok sz hbits ?h (table[?b := x]) ?bs"
    using Cons.prems px by (intro push_ok) auto
  have rest: "chain ?h (nxt (h x)) xs" using Cons.prems(3) px(3) by (subst chain_frame [of xs _ h]) auto
  have disj: "set xs \<inter> set (concat ?bs) = {}" using Cons.prems(3,4) unfolding set_bs by auto
  have "rehash_chain sz hbits p (table, h) = rehash_chain sz hbits (nxt (h x)) (table[?b := x], ?h)"
    using px by (subst rehash_chain.simps) (simp add: Let_def read_next_ptr_def)
  with Cons.IH [OF rest ok _ disj] Cons.prems(3) set_bs show ?case by fastforce
qed

lemma rehash_ok:
  "list_all2 (chain h) ps xss \<Longrightarrow> buckets_ok sz hbits h table bs \<Longrightarrow> distinct (concat xss) \<Longrightarrow>
   set (concat xss) \<inter> set (concat bs) = {} \<Longrightarrow>
   \<exists>table' h' bs'. rehash sz hbits ps (table, h) = Some (table', h') \<and>
     buckets_ok sz hbits h' table' bs' \<and> set (concat bs') = set (concat xss) \<union> set (concat bs) \<and>
     (\<forall>x. key (h' x) = key (h x)) \<and> (\<forall>x. x \<notin> set (concat xss) \<longrightarrow> h' x = h x)"
proof (induction ps arbitrary: xss h table bs)
  case Nil
  then show ?case by auto
next
  case (Cons p ps)
  then obtain xs yss where xss: "xss = xs # yss" "chain h p xs" "list_all2 (chain h) ps yss"
    by (auto simp: list_all2_Cons1)
  have disj: "set xs \<inter> set (concat bs) = {}" "distinct xs" "set xs \<inter> set (concat yss) = {}" "distinct (concat yss)"
    using Cons.prems(3,4) unfolding xss(1) by auto
  from rehash_chain_ok [OF xss(2) Cons.prems(2) disj(2,1)] obtain table' h' bs'
    where step: "rehash_chain sz hbits p (table, h) = Some (table', h')"
      "buckets_ok sz hbits h' table' bs'" "set (concat bs') = set xs \<union> set (concat bs)"
      "\<forall>x. key (h' x) = key (h x)" "\<forall>x. x \<notin> set xs \<longrightarrow> h' x = h x" by blast
  have "list_all2 (chain h') ps yss"
    using xss(3)
  proof (rule list.rel_mono_strong)
    fix q ys assume q: "ys \<in> set yss" "chain h q ys"
    then have "set ys \<inter> set xs = {}" using disj(3) by auto
    with step(5) have "nxt (h' x) = nxt (h x)" if "x \<in> set ys" for x using that by (metis disjoint_iff)
    from chain_frame [of ys h' h q, OF this] q(2) show "chain h' q ys" by blast
  qed
  moreover have "set (concat yss) \<inter> set (concat bs') = {}"
    using Cons.prems(4) disj(3) unfolding xss(1) step(3) by auto
  ultimately obtain table'' h'' bs'' where
    "rehash sz hbits ps (table', h') = Some (table'', h'')" "buckets_ok sz hbits h'' table'' bs''"
    "set (concat bs'') = set (concat yss) \<union> set (concat bs')"
    "\<forall>x. key (h'' x) = key (h' x)" "\<forall>x. x \<notin> set (concat yss) \<longrightarrow> h'' x = h' x"
    using Cons.IH [of h' yss table' bs'] step(2) disj(4) by blast
  with step xss(1) show ?case by (auto intro!: exI)
qed


section \<open>The abstract map\<close>

definition represents :: "int \<Rightarrow> address_map \<Rightarrow> heap \<Rightarrow> (u64 \<rightharpoonup> ptr) \<Rightarrow> bool" where
  "represents sz m h F \<longleftrightarrow>
     (\<forall>k obj. F k = Some obj \<longrightarrow> read_key sz (h obj) = k) \<and>
     (if am_hbits m = 0 then m = empty_map \<and> F = Map.empty
      else F \<noteq> Map.empty \<and> am_hbits m \<le> 30 \<and>
        (\<exists>bs. buckets_ok sz (am_hbits m) h (am_table m) bs \<and> set (concat bs) = ran F \<and>
          am_count m = int (length (concat bs))))"

lemma represents_empty: "represents sz empty_map h Map.empty"
  by (simp add: represents_def empty_map_def)

lemma represents_same_length:
  assumes "distinct (concat bs)" and "distinct (concat bs')" and "set (concat bs') = set (concat bs)"
  shows "length (concat bs') = length (concat bs)"
  using assms by (metis distinct_card)

text \<open>The state of the table before the object is pushed: created or grown if need be.\<close>

definition table_ready :: "int \<Rightarrow> address_map \<Rightarrow> heap \<Rightarrow> ptr set \<Rightarrow> bool" where
  "table_ready sz m h S \<longleftrightarrow> 0 < am_hbits m \<and> am_hbits m \<le> 30 \<and>
     (\<exists>bs. buckets_ok sz (am_hbits m) h (am_table m) bs \<and> set (concat bs) = S \<and>
        am_count m = int (length (concat bs)))"

lemma table_ready_grow:
  assumes "table_ready sz m h S" and "am_hbits m < 30"
  shows "\<exists>m' h'. grow_map sz m h = Some (m', h') \<and> table_ready sz m' h' S \<and>
    (\<forall>x. key (h' x) = key (h x)) \<and> (\<forall>x. x \<notin> S \<longrightarrow> h' x = h x)"
proof -
  let ?n = "am_hbits m + 1"
  from assms obtain bs where bs: "buckets_ok sz (am_hbits m) h (am_table m) bs" "set (concat bs) = S"
    "am_count m = int (length (concat bs))" by (auto simp: table_ready_def)
  have "list_all2 (chain h) (am_table m) bs" using bs(1) by (simp add: buckets_ok_def list_all2_conv_all_nth)
  moreover have "buckets_ok sz ?n h (replicate (2 ^ ?n) null) (replicate (2 ^ ?n) [])"
    using assms(2) by (intro buckets_ok_empty) simp
  moreover have dist: "distinct (concat bs)" using bs(1) by (simp add: buckets_ok_def)
  moreover have none: "set (concat (replicate (2 ^ ?n) ([] :: ptr list))) = {}" by simp
  ultimately obtain table' h' bs' where r:
    "rehash sz ?n (am_table m) (replicate (2 ^ ?n) null, h) = Some (table', h')"
    "buckets_ok sz ?n h' table' bs'" "set (concat bs') = S"
    "\<forall>x. key (h' x) = key (h x)" "\<forall>x. x \<notin> S \<longrightarrow> h' x = h x"
    using rehash_ok [of h "am_table m" bs sz ?n "replicate (2 ^ ?n) null" "replicate (2 ^ ?n) []"]
    unfolding bs(2) none by (metis Int_empty_right Un_empty_right)
  have "length (concat bs') = length (concat bs)"
    using r(2,3) bs(2) dist by (intro represents_same_length) (auto simp: buckets_ok_def)
  with r bs assms show ?thesis unfolding grow_map_def table_ready_def by auto
qed

lemma table_ready_push:
  assumes ready: "table_ready sz m h S" and x: "x \<notin> S" "x \<noteq> null" "read_key sz (h x) = k"
  shows "\<exists>m' h'. push_object k x m h = (m', h') \<and> table_ready sz m' h' (insert x S) \<and>
    (\<forall>y. key (h' y) = key (h y)) \<and> (\<forall>y. y \<noteq> x \<longrightarrow> h' y = h y)"
proof -
  from ready obtain bs where bs: "buckets_ok sz (am_hbits m) h (am_table m) bs" "set (concat bs) = S"
    "am_count m = int (length (concat bs))" by (auto simp: table_ready_def)
  let ?b = "hash_pointer (am_hbits m) k"
  let ?bs = "bs[?b := x # bs ! ?b]"
  have ok: "buckets_ok sz (am_hbits m) (write_next_ptr x (am_table m ! ?b) h) ((am_table m)[?b := x]) ?bs"
    using push_ok [OF bs(1), of x] x unfolding bs(2) by simp
  have "?b < length bs" using bs(1) hash_pointer_less by (simp add: buckets_ok_def)
  then have set: "set (concat ?bs) = insert x S" using set_concat_update bs(2) by metis
  have "distinct (concat ?bs)" "distinct (concat bs)" using ok bs(1) by (simp_all add: buckets_ok_def)
  then have "length (concat ?bs) = card (insert x S)" "length (concat bs) = card S"
    using set bs(2) distinct_card by metis+
  moreover have "finite S" using bs(2) by (metis List.finite_set)
  ultimately have "length (concat ?bs) = Suc (length (concat bs))" using x(1) by simp
  with ready ok set bs show ?thesis
    unfolding push_object_def table_ready_def Let_def by (auto simp: write_next_ptr_def)
qed

lemma represents_ready:
  assumes "represents sz m h F"
  shows "table_ready sz (if am_hbits m = 0 then m\<lparr>am_hbits := 4, am_table := replicate (2 ^ 4) null\<rparr> else m) h (ran F)"
proof (cases "am_hbits m = 0")
  case True
  with assms have "m = empty_map" "F = Map.empty" by (auto simp: represents_def)
  moreover have "set (concat (replicate (2 ^ 4) ([] :: ptr list))) = {}" by simp
  ultimately show ?thesis using buckets_ok_empty [of 4 sz h]
    by (auto simp: table_ready_def empty_map_def intro!: exI [of _ "replicate (2 ^ 4) []"])
next
  case False
  with assms show ?thesis by (simp add: represents_def table_ready_def)
qed

lemma ready_represents:
  assumes "table_ready sz m h (ran F)" and "F \<noteq> Map.empty" and "\<forall>k obj. F k = Some obj \<longrightarrow> read_key sz (h obj) = k"
  shows "represents sz m h F"
  using assms by (simp add: table_ready_def represents_def)

lemma ran_fresh: "F k = None \<Longrightarrow> ran (F(k \<mapsto> x)) = insert x (ran F)"
  by (rule ran_map_upd)


section \<open>Lookup and removal in a bucket\<close>

lemma find_in_chain_eq:
  "chain h p xs \<Longrightarrow> find_in_chain sz k h p =
    Some (case List.find (\<lambda>x. read_key sz (h x) = k) xs of None \<Rightarrow> null | Some x \<Rightarrow> x)"
proof (induction xs arbitrary: p)
  case Nil
  then show ?case by (subst find_in_chain.simps) simp
next
  case (Cons x xs)
  then show ?case by (subst find_in_chain.simps) (simp add: read_next_ptr_def)
qed

lemma find_with_prev_missing:
  "chain h p xs \<Longrightarrow> \<forall>x \<in> set xs. read_key sz (h x) \<noteq> k \<Longrightarrow> \<exists>q. find_with_prev sz k h prev p = Some (q, null)"
proof (induction xs arbitrary: p prev)
  case Nil
  then show ?case by (subst find_with_prev.simps) simp
next
  case (Cons x xs)
  then show ?case by (subst find_with_prev.simps) (simp add: read_next_ptr_def)
qed

lemma find_with_prev_found:
  "chain h p (ys @ x # zs) \<Longrightarrow> \<forall>y \<in> set ys. read_key sz (h y) \<noteq> k \<Longrightarrow> read_key sz (h x) = k \<Longrightarrow>
   find_with_prev sz k h prev p = Some (if ys = [] then prev else last ys, x)"
proof (induction ys arbitrary: p prev)
  case Nil
  then show ?case by (subst find_with_prev.simps) simp
next
  case (Cons y ys)
  then show ?case by (subst find_with_prev.simps) (simp add: read_next_ptr_def)
qed

lemma chain_unlink_head: "chain h p (x # zs) \<Longrightarrow> chain h (nxt (h x)) zs"
  by simp

lemma chain_unlink:
  "chain h p (ys @ x # zs) \<Longrightarrow> distinct (ys @ x # zs) \<Longrightarrow> ys \<noteq> [] \<Longrightarrow>
   last ys \<noteq> null \<and> chain (write_next_ptr (last ys) (nxt (h x)) h) p (ys @ zs)"
proof (induction ys arbitrary: p)
  case (Cons y ys)
  show ?case
  proof (cases "ys = []")
    case True
    with Cons.prems have "chain h (nxt (h x)) zs" "y \<notin> set zs" by auto
    then have "chain (write_next_ptr y (nxt (h x)) h) (nxt (h x)) zs" by (subst chain_frame [of zs _ h]) auto
    with True Cons.prems show ?thesis by auto
  next
    case False
    then have "last ys \<in> set ys" by simp
    with Cons.prems(2) have "last ys \<noteq> y" by auto
    with Cons.IH [of "nxt (h y)"] Cons.prems False show ?thesis by auto
  qed
qed simp

lemma chain_append_not_null: "chain h p (ys @ x # zs) \<Longrightarrow> x \<noteq> null"
  by (induction ys arbitrary: p) auto

text \<open>Replacing one bucket by itself without one of its objects.\<close>

lemma concat_update_remove:
  "i < length bs \<Longrightarrow> bs ! i = ys @ x # zs \<Longrightarrow> distinct (concat bs) \<Longrightarrow>
   distinct (concat (bs[i := ys @ zs])) \<and> set (concat (bs[i := ys @ zs])) = set (concat bs) - {x} \<and>
   Suc (length (concat (bs[i := ys @ zs]))) = length (concat bs)"
proof (induction bs arbitrary: i)
  case (Cons b bs)
  show ?case
  proof (cases i)
    case 0
    with Cons.prems show ?thesis by auto
  next
    case (Suc j)
    with Cons have "distinct (concat (bs[j := ys @ zs]))" "set (concat (bs[j := ys @ zs])) = set (concat bs) - {x}"
      "Suc (length (concat (bs[j := ys @ zs]))) = length (concat bs)" by auto
    moreover have "x \<in> set (concat bs)"
      using Cons.prems(1,2) Suc nth_mem [of j bs] by (force intro: bexI [of _ "ys @ x # zs"])
    then have "x \<notin> set b" using Cons.prems(3) by auto
    ultimately show ?thesis using Suc Cons.prems(3) by auto
  qed
qed simp

lemma represents_bucket:
  assumes "buckets_ok sz hbits h table bs" and "x \<in> set (concat bs)"
  shows "x \<in> set (bs ! hash_pointer hbits (read_key sz (h x)))"
proof -
  from assms(2) obtain i where "i < length bs" "x \<in> set (bs ! i)"
    by (metis UN_E in_set_conv_nth set_concat)
  with assms(1) show ?thesis by (auto simp: buckets_ok_def)
qed

lemma unlink_ok:
  assumes ok: "buckets_ok sz hbits h table bs" and b: "b < 2 ^ hbits" and split: "bs ! b = ys @ x # zs"
  defines "h' \<equiv> if ys = [] then h else write_next_ptr (last ys) (nxt (h x)) h"
    and "table' \<equiv> if ys = [] then table[b := nxt (h x)] else table"
  shows "buckets_ok sz hbits h' table' (bs[b := ys @ zs])"
proof -
  have len: "b < length bs" "b < length table" using ok b by (simp_all add: buckets_ok_def)
  have dist: "distinct (concat bs)" using ok by (simp add: buckets_ok_def)
  note rem = concat_update_remove [OF len(1) split dist]
  have keys: "read_key sz (h' y) = read_key sz (h y)" for y unfolding h'_def by (rule read_key_cong) simp
  have bucket: "chain h (table ! b) (ys @ x # zs)" "\<forall>y \<in> set (ys @ x # zs). hash_pointer hbits (read_key sz (h y)) = b"
    using ok b split by (auto simp: buckets_ok_def)
  have "distinct (ys @ x # zs)" using dist split len(1) by (metis distinct_concat_iff nth_mem)
  then have new: "chain h' (table' ! b) (ys @ zs)"
    using bucket(1) chain_unlink [of h "table ! b" ys x zs] len unfolding h'_def table'_def by auto
  have "chain h' (table' ! i) (bs ! i)" if "i < 2 ^ hbits" "i \<noteq> b" for i
  proof -
    have "ys \<noteq> [] \<Longrightarrow> last ys \<notin> set (bs ! i)"
    proof
      assume "ys \<noteq> []" "last ys \<in> set (bs ! i)"
      moreover have "hash_pointer hbits (read_key sz (h y)) = i" if "y \<in> set (bs ! i)" for y
        using that ok \<open>i < 2 ^ hbits\<close> by (simp add: buckets_ok_def)
      moreover have "last ys \<in> set (ys @ x # zs)" using \<open>ys \<noteq> []\<close> by simp
      ultimately show False using bucket(2) that(2) by blast
    qed
    then have "chain h' (table ! i) (bs ! i) = chain h (table ! i) (bs ! i)"
      unfolding h'_def by (intro chain_frame) auto
    with ok that show ?thesis by (simp add: buckets_ok_def table'_def)
  qed
  with new bucket(2) rem len ok b show ?thesis
    unfolding buckets_ok_def by (auto simp: nth_list_update keys table'_def)
qed


section \<open>The operations implement a finite map\<close>

lemma map_insert_effect:
  assumes rep: "represents sz m h F" and args: "valid_key_size sz" "obj \<noteq> null" "read_key sz (h obj) = k"
    and fresh: "F k = None" "obj \<notin> ran F" and small: "am_hbits m < 30"
  shows "\<exists>m' h'. map_insert True sz k obj (Some m) h = Some (ncclSuccess, Some m', h') \<and>
    represents sz m' h' (F(k \<mapsto> obj)) \<and> (\<forall>x. key (h' x) = key (h x)) \<and>
    (\<forall>x. x \<notin> insert obj (ran F) \<longrightarrow> h' x = h x)"
proof -
  let ?m = "if am_hbits m = 0 then m\<lparr>am_hbits := 4, am_table := replicate (2 ^ 4) null\<rparr> else m"
  have ready: "table_ready sz ?m h (ran F)" by (rule represents_ready [OF rep])
  have "\<exists>m1 h1. (if am_count ?m + 1 > 2 * 2 ^ am_hbits ?m then grow_map sz ?m h else Some (?m, h)) = Some (m1, h1) \<and>
      table_ready sz m1 h1 (ran F) \<and> (\<forall>x. key (h1 x) = key (h x)) \<and> (\<forall>x. x \<notin> ran F \<longrightarrow> h1 x = h x)"
    using table_ready_grow [OF ready] ready small by auto
  then obtain m1 h1 where one:
    "(if am_count ?m + 1 > 2 * 2 ^ am_hbits ?m then grow_map sz ?m h else Some (?m, h)) = Some (m1, h1)"
    "table_ready sz m1 h1 (ran F)" "\<forall>x. key (h1 x) = key (h x)" "\<forall>x. x \<notin> ran F \<longrightarrow> h1 x = h x" by blast
  have "read_key sz (h1 obj) = k" using one(3) args(3) read_key_cong by metis
  from table_ready_push [OF one(2) fresh(2) args(2) this] obtain m2 h2 where two:
    "push_object k obj m1 h1 = (m2, h2)" "table_ready sz m2 h2 (insert obj (ran F))"
    "\<forall>y. key (h2 y) = key (h1 y)" "\<forall>y. y \<noteq> obj \<longrightarrow> h2 y = h1 y" by blast
  have keys: "\<forall>x. key (h2 x) = key (h x)" using one(3) two(3) by simp
  have "represents sz m2 h2 (F(k \<mapsto> obj))"
  proof (rule ready_represents)
    show "table_ready sz m2 h2 (ran (F(k \<mapsto> obj)))" using two(2) fresh(1) by simp
    show "\<forall>k' obj'. (F(k \<mapsto> obj)) k' = Some obj' \<longrightarrow> read_key sz (h2 obj') = k'"
      using rep args(3) read_key_cong keys by (metis fun_upd_apply option.inject represents_def)
  qed simp
  moreover have "map_insert True sz k obj (Some m) h = Some (ncclSuccess, Some m2, h2)"
    using args(1,2) one(1) two(1) by (simp add: map_insert_def Let_def split del: if_split)
  ultimately show ?thesis using keys one(4) two(4) by auto
qed

text \<open>C37. Inserting an object that is not in the map, under a key that the map does not hold yet, succeeds when there is memory and
  returns: the table, grown if need be, represents the map with the key added, and no object outside of the
  map but the new one is written to.  (For a key the map holds already the code keeps both objects,
  which is not an update.)\<close>

theorem map_insert_refines_update:
  assumes "represents sz m h F" and "valid_key_size sz" "obj \<noteq> null" "read_key sz (h obj) = k"
    and "F k = None" "obj \<notin> ran F" and "am_hbits m < 30"
  shows "\<exists>m' h'. map_insert True sz k obj (Some m) h = Some (ncclSuccess, Some m', h') \<and>
    represents sz m' h' (F(k \<mapsto> obj)) \<and> (\<forall>x. x \<notin> insert obj (ran F) \<longrightarrow> h' x = h x)"
  using map_insert_effect [OF assms] by blast

text \<open>Nor does it write a key: only the links of the objects are modified.\<close>

lemma map_insert_writes_links_only:
  assumes "represents sz m h F" and "valid_key_size sz" "obj \<noteq> null" "read_key sz (h obj) = k"
    and "F k = None" "obj \<notin> ran F" and "am_hbits m < 30"
    and "map_insert True sz k obj (Some m) h = Some (ncclSuccess, Some m', h')"
  shows "key (h' x) = key (h x)"
  using map_insert_effect [OF assms(1-7)] assms(8) by auto

text \<open>Without memory, insertion either needs none, or fails with the table and the objects as
  they were.\<close>

theorem map_insert_out_of_memory:
  assumes "represents sz m h F" and "valid_key_size sz" and "obj \<noteq> null"
  shows "map_insert False sz k obj (Some m) h \<in>
    {Some (ncclSystemError, Some m, h), map_insert True sz k obj (Some m) h}"
proof -
  have "am_hbits m = 0 \<Longrightarrow> m\<lparr>am_table := []\<rparr> = m"
    using assms(1) by (simp add: represents_def empty_map_def)
  with assms(2,3) show ?thesis by (simp add: map_insert_def Let_def)
qed

text \<open>Lookup returns, and its result is the object of the key in the represented map, or the
  null pointer.\<close>

theorem map_find_refines_lookup:
  assumes rep: "represents sz m h F" and sz: "valid_key_size sz"
  shows "map_find sz k (Some m) h = Some (ncclSuccess, Some (case F k of None \<Rightarrow> null | Some obj \<Rightarrow> obj))"
proof (cases "am_hbits m = 0")
  case True
  with rep sz show ?thesis by (simp add: map_find_def represents_def)
next
  case False
  with rep obtain bs where bs: "buckets_ok sz (am_hbits m) h (am_table m) bs" "set (concat bs) = ran F"
    by (auto simp: represents_def)
  let ?b = "hash_pointer (am_hbits m) k"
  have b: "?b < 2 ^ am_hbits m" using bs(1) hash_pointer_less by (simp add: buckets_ok_def)
  then have "chain h (am_table m ! ?b) (bs ! ?b)" "?b < length bs" using bs(1) by (simp_all add: buckets_ok_def)
  have key_F: "x \<in> ran F \<Longrightarrow> read_key sz (h x) = k \<Longrightarrow> F k = Some x" for x
    using rep by (auto simp: ran_def represents_def)
  have "List.find (\<lambda>x. read_key sz (h x) = k) (bs ! ?b) = F k"
  proof (cases "List.find (\<lambda>x. read_key sz (h x) = k) (bs ! ?b)")
    case None
    have "F k = None"
    proof (rule ccontr)
      assume "F k \<noteq> None"
      then obtain x where x: "F k = Some x" by auto
      then have "x \<in> set (concat bs)" "read_key sz (h x) = k"
        using bs(2) rep by (auto simp: represents_def intro: ranI)
      with represents_bucket [OF bs(1), of x] None show False by (auto simp: find_None_iff)
    qed
    with None show ?thesis by simp
  next
    case (Some x)
    then have "x \<in> set (bs ! ?b)" "read_key sz (h x) = k" by (auto simp: find_Some_iff)
    moreover from this have "x \<in> ran F" using bs(2) \<open>?b < length bs\<close> by (metis UN_I nth_mem set_concat)
    ultimately show ?thesis using key_F Some by simp
  qed
  with False sz find_in_chain_eq [OF \<open>chain h (am_table m ! ?b) (bs ! ?b)\<close>, of sz k] show ?thesis
    by (simp add: map_find_def)
qed


lemma find_split:
  assumes "\<exists>x \<in> set xs. P x"
  obtains ys x zs where "xs = ys @ x # zs" and "P x" and "\<forall>y \<in> set ys. \<not> P y"
  using assms split_list_first_prop [of xs P] by blast

lemma map_remove_found:
  "valid_key_size sz \<Longrightarrow> am_hbits m \<noteq> 0 \<Longrightarrow>
   find_with_prev sz k h null (am_table m ! hash_pointer (am_hbits m) k) = Some (prev, x) \<Longrightarrow> x \<noteq> null \<Longrightarrow>
   unlink_object (hash_pointer (am_hbits m) k) prev x m h = (m', h') \<Longrightarrow>
   map_remove sz k (Some m) h = Some (ncclSuccess, Some m', h')"
  by (simp add: map_remove_def)

text \<open>C38. Removal succeeds and returns: the table represents the map without the key, no key field
  is written and no object outside of the map is touched.  When the last object goes, the table is
  freed and the map is the empty one again.\<close>

theorem map_remove_refines_delete:
  assumes rep: "represents sz m h F" and sz: "valid_key_size sz"
  shows "\<exists>m' h'. map_remove sz k (Some m) h = Some (ncclSuccess, Some m', h') \<and>
    represents sz m' h' (F(k := None)) \<and> (\<forall>x. key (h' x) = key (h x)) \<and>
    (\<forall>x. x \<notin> ran F \<longrightarrow> h' x = h x)"
proof (cases "am_hbits m = 0")
  case True
  with rep sz show ?thesis by (auto simp: map_remove_def represents_def)
next
  case False
  with rep obtain bs where bs: "buckets_ok sz (am_hbits m) h (am_table m) bs" "set (concat bs) = ran F"
    and count: "am_count m = int (length (concat bs))" and small: "am_hbits m \<le> 30"
    by (auto simp: represents_def)
  let ?b = "hash_pointer (am_hbits m) k" and ?key = "\<lambda>x. read_key sz (h x) = k"
  have b: "?b < 2 ^ am_hbits m" using bs(1) hash_pointer_less by (simp add: buckets_ok_def)
  then have chain: "chain h (am_table m ! ?b) (bs ! ?b)" and len: "?b < length bs"
    using bs(1) by (simp_all add: buckets_ok_def)
  have key_F: "x \<in> ran F \<Longrightarrow> ?key x \<Longrightarrow> F k = Some x" for x
    using rep by (auto simp: ran_def represents_def)
  show ?thesis
  proof (cases "\<exists>x \<in> set (bs ! ?b). ?key x")
    case none: False
    have "F k = None"
    proof (rule ccontr)
      assume "F k \<noteq> None"
      then obtain x where x: "F k = Some x" by auto
      then have "x \<in> set (concat bs)" "?key x" using bs(2) rep by (auto simp: represents_def intro: ranI)
      with represents_bucket [OF bs(1), of x] none show False by auto
    qed
    then have "F(k := None) = F" by auto
    moreover obtain q where "find_with_prev sz k h null (am_table m ! ?b) = Some (q, null)"
      using find_with_prev_missing [OF chain] none by blast
    ultimately show ?thesis using False sz rep by (simp add: map_remove_def Let_def)
  next
    case True
    then obtain ys x zs where split: "bs ! ?b = ys @ x # zs" and x: "?key x" and ys: "\<forall>y \<in> set ys. \<not> ?key y"
      by (rule find_split)
    have "x \<in> set (bs ! ?b)" by (simp add: split)
    then have "x \<in> set (concat bs)" using len by auto
    then have Fk: "F k = Some x" using key_F x unfolding bs(2) by blast
    have "distinct (concat bs)" using bs(1) by (simp add: buckets_ok_def)
    note rem = concat_update_remove [OF len split this]
    have "distinct (ys @ x # zs)" using rem split len \<open>distinct (concat bs)\<close> by (metis distinct_concat_iff nth_mem)
    with chain split have ends: "x \<noteq> null" "ys \<noteq> [] \<Longrightarrow> last ys \<noteq> null"
      using chain_unlink [of h _ ys x zs] chain_append_not_null [of h] by auto
    define h' where "h' = (if ys = [] then h else write_next_ptr (last ys) (nxt (h x)) h)"
    define table' where "table' = (if ys = [] then (am_table m)[?b := nxt (h x)] else am_table m)"
    have ok: "buckets_ok sz (am_hbits m) h' table' (bs[?b := ys @ zs])"
      unfolding h'_def table'_def by (rule unlink_ok [OF bs(1) b split])
    let ?m = "if am_count m = 1 then empty_map else m\<lparr>am_table := table', am_count := am_count m - 1\<rparr>"
    have eq: "unlink_object ?b (if ys = [] then null else last ys) x m h = (?m, h')"
    proof (cases "ys = []")
      case True
      then show ?thesis by (simp add: unlink_object_def h'_def table'_def read_next_ptr_def)
    next
      case False
      with ends(2) show ?thesis by (simp add: unlink_object_def h'_def table'_def read_next_ptr_def)
    qed
    have "find_with_prev sz k h null (am_table m ! ?b) = Some (if ys = [] then null else last ys, x)"
      by (rule find_with_prev_found [OF chain [unfolded split] ys x])
    from map_remove_found [OF sz False this ends(1) eq]
    have run: "map_remove sz k (Some m) h = Some (ncclSuccess, Some ?m, h')" .
    have keys: "key (h' y) = key (h y)" for y by (simp add: h'_def)
    have ran: "ran (F(k := None)) = ran F - {x}"
    proof -
      have "F k' = Some y \<Longrightarrow> read_key sz (h y) = k'" for k' y using rep by (simp add: represents_def)
      then have "(\<exists>k'. k' \<noteq> k \<and> F k' = Some y) \<longleftrightarrow> (\<exists>k'. F k' = Some y) \<and> y \<noteq> x" for y
        using Fk x by (metis option.inject)
      moreover have "(F(k := None)) k' = Some y \<longleftrightarrow> k' \<noteq> k \<and> F k' = Some y" for k' y by simp
      ultimately show ?thesis unfolding ran_def by blast
    qed
    have "represents sz ?m h' (F(k := None))"
    proof (cases "am_count m = 1")
      case True
      then have "concat (bs[?b := ys @ zs]) = []" using rem count by auto
      then have "ran (F(k := None)) = {}" using rem bs(2) ran by (metis empty_set)
      then have "F(k := None) = Map.empty" by (simp add: ran_def fun_eq_iff) (metis option.exhaust)
      with True show ?thesis by (simp add: represents_empty)
    next
      case more: False
      have "am_count m - 1 = int (length (concat (bs[?b := ys @ zs])))" using rem count by linarith
      moreover have "concat (bs[?b := ys @ zs]) \<noteq> []"
      proof
        assume "concat (bs[?b := ys @ zs]) = []"
        with calculation have "am_count m - 1 = int (length ([] :: ptr list))" by metis
        with more show False by simp
      qed
      then have "set (concat (bs[?b := ys @ zs])) \<noteq> {}" by (simp only: set_empty not_False_eq_True)
      then have "ran (F(k := None)) \<noteq> {}" using rem bs(2) ran by metis
      then have "F(k := None) \<noteq> Map.empty" by (metis ran_empty)
      moreover have "\<forall>k' y. (F(k := None)) k' = Some y \<longrightarrow> read_key sz (h' y) = k'"
        using rep keys read_key_cong by (metis fun_upd_apply option.distinct(1) represents_def)
      ultimately show ?thesis using False small ok rem bs(2) ran more
        unfolding represents_def by (simp del: set_concat concat.simps) blast
    qed
    moreover have "h' y = h y" if "y \<notin> ran F" for y
    proof -
      have "ys \<noteq> [] \<Longrightarrow> last ys \<in> set (bs ! ?b)" by (simp add: split)
      then have "ys \<noteq> [] \<Longrightarrow> last ys \<in> ran F" using len bs(2) by (metis UN_I nth_mem set_concat)
      with that have "ys \<noteq> [] \<Longrightarrow> y \<noteq> last ys" by metis
      then show ?thesis unfolding h'_def by simp
    qed
    ultimately show ?thesis using run keys by blast
  qed
qed

section \<open>Samples\<close>

definition sample_heap :: heap where
  "sample_heap = (\<lambda>p. \<lparr>key = of_nat p, nxt = null\<rparr>)"

lemma sample_key: "read_key 8 (sample_heap 5) = 5"
  by (simp add: sample_heap_def read_key_def)

theorem map_insert_refines_update_witness:
  "\<exists>m' h'. map_insert True 8 5 5 (Some empty_map) sample_heap = Some (ncclSuccess, Some m', h') \<and>
    represents 8 m' h' [5 \<mapsto> 5]"
  using map_insert_refines_update [OF represents_empty, of 8 5 sample_heap 5] sample_key
  by (auto simp: valid_key_size_def empty_map_def)

theorem map_insert_out_of_memory_witness:
  "map_insert False 8 5 5 (Some empty_map) sample_heap \<in>
    {Some (ncclSystemError, Some empty_map, sample_heap), map_insert True 8 5 5 (Some empty_map) sample_heap}"
  using map_insert_out_of_memory [OF represents_empty, of 8 5 5] by (simp add: valid_key_size_def)

definition one_object :: address_map where
  "one_object = \<lparr>am_hbits = 4, am_count = 1, am_table = (replicate 16 null)[hash_pointer 4 5 := 5]\<rparr>"

lemma one_object_represents: "represents 8 one_object sample_heap [5 \<mapsto> 5]"
proof -
  have "buckets_ok 8 4 (write_next_ptr 5 null sample_heap) ((replicate (2 ^ 4) null)[hash_pointer 4 5 := 5])
      ((replicate (2 ^ 4) [])[hash_pointer 4 5 := [5]])"
    using push_ok [OF buckets_ok_empty [of 4 8 sample_heap], of 5] hash_pointer_less [of 4 5]
    by (simp add: sample_key)
  moreover have "write_next_ptr 5 null sample_heap = sample_heap"
    by (rule ext) (simp add: write_next_ptr_def sample_heap_def)
  moreover have "set (concat ((replicate (2 ^ 4) [])[hash_pointer 4 5 := [5 :: ptr]])) = {5}"
    using set_concat_update [of "hash_pointer 4 5" "replicate (2 ^ 4) []" "5 :: ptr"] hash_pointer_less [of 4 5] by simp
  moreover from this have "length (concat ((replicate (2 ^ 4) [])[hash_pointer 4 5 := [5 :: ptr]])) = 1"
    using calculation(1) distinct_card by (fastforce simp: buckets_ok_def)
  ultimately show ?thesis
    unfolding represents_def one_object_def by (auto simp: sample_key intro!: exI)
qed

theorem map_find_refines_lookup_witness:
  "map_find 8 5 (Some one_object) sample_heap = Some (ncclSuccess, Some 5)"
  using map_find_refines_lookup [OF one_object_represents, of 5] by (simp add: valid_key_size_def)

theorem map_remove_refines_delete_witness:
  "\<exists>m' h'. map_remove 8 5 (Some one_object) sample_heap = Some (ncclSuccess, Some m', h') \<and>
    represents 8 m' h' Map.empty"
  using map_remove_refines_delete [OF one_object_represents, of 5] by (auto simp: valid_key_size_def)

end
