(* ===== verification/RegCache.thy ===== *)
theory RegCache
  imports Prelude
begin

text \<open>
  The cache of registered user buffers of \<open>src/register/register.cc\<close>, with the lookup of
  \<open>src/include/register_inline.h\<close>.

  Registrations live in a heap, the cache holds their addresses in an array sorted by start address;
  a handle is such an address.  The live prefix of the array is a list; the number of elements its
  block was allocated for is kept beside the capacity field, so that a write beyond the block shows
  (\<open>None\<close>).  What the transports and CUDA return is in an environment, and the calls that release
  resources are recorded in order.
\<close>

record reg =
  beg_addr :: u64
  end_addr :: u64
  local_refs :: int
  graph_refs :: int
  reg_state :: u32
  net_handles :: "(ptr \<times> ptr) list"
  reg_addr :: u64
  reg_dev :: int
  coll_handle :: ptr
  coll_proxyconn :: ptr
  ipc_infos :: "ptr list"
  host_peer_addrs :: ptr
  dev_peer_addrs :: ptr

definition zero_reg :: reg where
  "zero_reg = \<lparr>beg_addr = 0, end_addr = 0, local_refs = 0, graph_refs = 0, reg_state = 0, net_handles = [],
     reg_addr = 0, reg_dev = 0, coll_handle = null, coll_proxyconn = null, ipc_infos = [],
     host_peer_addrs = null, dev_peer_addrs = null\<rparr>"

record reg_cache =
  rc_slots :: "ptr list"
  rc_capacity :: nat
  rc_block :: nat
  rc_page_size :: u64

datatype release =
    Net_dereg ptr ptr
  | Nvls_dereg u64 int
  | Collnet_dereg ptr ptr
  | Ipc_dereg ptr
  | Cuda_free ptr

record reg_st =
  cache :: reg_cache
  regs :: "ptr \<Rightarrow> reg"
  cuda_device :: int
  releases :: "release list"

text \<open>\<open>re_comm_check\<close> is the result of \<open>CommCheck\<close>; \<open>re_ptr_check\<close> that of \<open>CudaPtrCheck\<close>, and success
  when the check mode is the default one.\<close>

record reg_env =
  re_comm_check :: nccl_result
  re_ptr_check :: nccl_result
  re_comm_device :: int
  re_cuda_get :: nccl_result
  re_cuda_set :: "int \<Rightarrow> nccl_result"
  re_cuda_free :: "ptr \<Rightarrow> nccl_result"

section \<open>Registration\<close>

definition page_floor :: "u64 \<Rightarrow> u64 \<Rightarrow> u64" where
  "page_floor page data = data AND (- page)"

definition page_ceiling :: "u64 \<Rightarrow> u64 \<Rightarrow> u64 \<Rightarrow> u64" where
  "page_ceiling page data bytes = (data + bytes + page - 1) AND (- page)"

datatype slot_search = Insert_at nat | Covered_by nat

fun search_slot :: "(ptr \<Rightarrow> reg) \<Rightarrow> u64 \<Rightarrow> u64 \<Rightarrow> ptr list \<Rightarrow> nat \<Rightarrow> slot_search" where
  "search_slot rs b e [] i = Insert_at i"
| "search_slot rs b e (r # slots) i =
     (if b < beg_addr (rs r) then Insert_at i
      else if beg_addr (rs r) \<le> b \<and> e \<le> end_addr (rs r) then Covered_by i
      else search_slot rs b e slots (Suc i))"

definition add_ref :: "bool \<Rightarrow> reg \<Rightarrow> reg" where
  "add_ref graph r = (if graph then r\<lparr>graph_refs := graph_refs r + 1\<rparr> else r\<lparr>local_refs := local_refs r + 1\<rparr>)"

text \<open>The new slot.  \<open>grown\<close> says whether \<open>ncclRealloc\<close> finds memory, \<open>fresh\<close> is what \<open>ncclCalloc\<close>
  allocates, if anything.  The capacity is raised before the array is; the array is shifted before the
  registration is allocated.\<close>

definition insert_slot ::
    "nat \<Rightarrow> u64 \<Rightarrow> u64 \<Rightarrow> bool \<Rightarrow> bool \<Rightarrow> ptr option \<Rightarrow> reg_st \<Rightarrow> (nccl_result \<times> ptr option \<times> reg_st) option" where
  "insert_slot slot b e graph grown fresh s =
     (let c = cache s; slots = rc_slots c; n = length slots;
          grow = (n = rc_capacity c);
          c = (if grow then c\<lparr>rc_capacity := (if rc_capacity c < 32 then 32 else 2 * rc_capacity c)\<rparr> else c)
      in if grow \<and> \<not> grown then Some (ncclSystemError, None, s\<lparr>cache := c\<rparr>)
         else
           let c = (if grow then c\<lparr>rc_block := rc_capacity c\<rparr> else c) in
           if slot < n \<and> rc_block c \<le> n then None
           else case fresh of
                  None \<Rightarrow>
                    let slots = (if slot < n then take n (take slot slots @ slots ! slot # drop slot slots) else slots)
                    in Some (ncclSystemError, None, s\<lparr>cache := c\<lparr>rc_slots := slots\<rparr>\<rparr>)
                | Some p \<Rightarrow>
                    if rc_block c \<le> n then None
                    else
                      let r = zero_reg\<lparr>beg_addr := b, end_addr := e\<rparr>;
                          r = (if graph then r\<lparr>graph_refs := 1\<rparr> else r\<lparr>local_refs := 1\<rparr>)
                      in Some (ncclSuccess, Some p,
                           s\<lparr>cache := c\<lparr>rc_slots := take slot slots @ p # drop slot slots\<rparr>, regs := (regs s)(p := r)\<rparr>))"

definition nccl_register ::
    "reg_env \<Rightarrow> u64 \<Rightarrow> u64 \<Rightarrow> bool \<Rightarrow> bool \<Rightarrow> ptr option \<Rightarrow> reg_st \<Rightarrow> (nccl_result \<times> ptr option \<times> reg_st) option" where
  "nccl_register env data bytes graph grown fresh s =
     (let page = rc_page_size (cache s); b = page_floor page data; e = page_ceiling page data bytes in
      if re_comm_check env \<noteq> ncclSuccess then Some (re_comm_check env, None, s)
      else if re_ptr_check env \<noteq> ncclSuccess then Some (re_ptr_check env, None, s)
      else case search_slot (regs s) b e (rc_slots (cache s)) 0 of
             Insert_at i \<Rightarrow> insert_slot i b e graph grown fresh s
           | Covered_by i \<Rightarrow>
               let p = rc_slots (cache s) ! i in
               Some (ncclSuccess, Some p, s\<lparr>regs := (regs s)(p := add_ref graph (regs s p))\<rparr>))"

text \<open>The two entry points.  A null handle is \<open>Some null\<close>.\<close>

definition comm_register ::
    "int \<Rightarrow> bool \<Rightarrow> reg_env \<Rightarrow> u64 \<Rightarrow> u64 \<Rightarrow> bool \<Rightarrow> ptr option \<Rightarrow> reg_st \<Rightarrow>
      (nccl_result \<times> ptr option \<times> reg_st) option" where
  "comm_register local_register p2p_memcpy env buff bytes grown fresh s =
     (if local_register = 0 \<or> p2p_memcpy then Some (ncclSuccess, Some null, s)
      else nccl_register env buff bytes False grown fresh s)"

definition comm_graph_register ::
    "bool \<Rightarrow> reg_env \<Rightarrow> u64 \<Rightarrow> u64 \<Rightarrow> bool \<Rightarrow> ptr option \<Rightarrow> reg_st \<Rightarrow>
      (nccl_result \<times> ptr option \<times> reg_st) option" where
  "comm_graph_register p2p_memcpy env buff bytes grown fresh s =
     (if p2p_memcpy then Some (ncclSuccess, Some null, s)
      else nccl_register env buff bytes True grown fresh s)"

text \<open>A null argument leaves the output as it is, here \<open>None\<close>.\<close>

definition reg_local_is_valid :: "reg option \<Rightarrow> bool option" where
  "reg_local_is_valid r = map_option (\<lambda>r. local_refs r \<noteq> 0) r"

section \<open>Lookup\<close>

fun find_slot :: "(ptr \<Rightarrow> reg) \<Rightarrow> u64 \<Rightarrow> u64 \<Rightarrow> ptr list \<Rightarrow> ptr" where
  "find_slot rs data bytes [] = null"
| "find_slot rs data bytes (r # slots) =
     (if data < beg_addr (rs r) then null
      else if data + bytes \<le> end_addr (rs r) then r
      else find_slot rs data bytes slots)"

definition reg_find :: "u64 \<Rightarrow> u64 \<Rightarrow> reg_st \<Rightarrow> ptr" where
  "reg_find data bytes s = find_slot (regs s) data bytes (rc_slots (cache s))"

section \<open>Release\<close>

definition NET_REG_COMPLETE :: u32 where "NET_REG_COMPLETE = 0x01"
definition NVLS_REG_COMPLETE :: u32 where "NVLS_REG_COMPLETE = 0x02"
definition COLLNET_REG_COMPLETE :: u32 where "COLLNET_REG_COMPLETE = 0x10"
definition IPC_REG_COMPLETE :: u32 where "IPC_REG_COMPLETE = 0x20"

text \<open>Failures of the transports are only logged; that of \<open>ncclCudaFree\<close> is returned.\<close>

definition reg_cleanup :: "reg_env \<Rightarrow> reg \<Rightarrow> nccl_result \<times> release list" where
  "reg_cleanup env r =
     (let has = (\<lambda>flag. reg_state r AND flag \<noteq> 0);
          dev = dev_peer_addrs r;
          calls =
            (if has NET_REG_COMPLETE then map (\<lambda>(handle, conn). Net_dereg conn handle) (net_handles r) else []) @
            (if has NVLS_REG_COMPLETE then [Nvls_dereg (reg_addr r) (reg_dev r)] else []) @
            (if has COLLNET_REG_COMPLETE then [Collnet_dereg (coll_proxyconn r) (coll_handle r)] else []) @
            (if has IPC_REG_COMPLETE
             then map Ipc_dereg (filter (\<lambda>info. info \<noteq> null) (ipc_infos r)) @ (if dev \<noteq> null then [Cuda_free dev] else [])
             else [])
      in (if has IPC_REG_COMPLETE \<and> dev \<noteq> null then re_cuda_free env dev else ncclSuccess, calls))"

text \<open>\<open>ncclRegCleanup\<close>, over the slots from the first on; the first failure ends it.\<close>

fun cleanup_slots :: "reg_env \<Rightarrow> (ptr \<Rightarrow> reg) \<Rightarrow> ptr list \<Rightarrow> nccl_result \<times> release list" where
  "cleanup_slots env rs [] = (ncclSuccess, [])"
| "cleanup_slots env rs (p # slots) =
     (let (res, calls) = reg_cleanup env (rs p) in
      if res \<noteq> ncclSuccess then (res, calls)
      else let (res', calls') = cleanup_slots env rs slots in (res', calls @ calls'))"

definition reg_cache_cleanup :: "reg_env \<Rightarrow> reg_st \<Rightarrow> nccl_result \<times> reg_st" where
  "reg_cache_cleanup env s =
     (let (res, calls) = cleanup_slots env (regs s) (rc_slots (cache s))
      in (res, s\<lparr>releases := releases s @ calls\<rparr>))"

definition drop_ref :: "bool \<Rightarrow> reg \<Rightarrow> reg" where
  "drop_ref graph r = (if graph then r\<lparr>graph_refs := graph_refs r - 1\<rparr> else r\<lparr>local_refs := local_refs r - 1\<rparr>)"

text \<open>The part of \<open>commDeregister\<close> that runs on the device of the communicator.\<close>

definition deregister_on_device :: "reg_env \<Rightarrow> bool \<Rightarrow> int \<Rightarrow> ptr \<Rightarrow> reg_st \<Rightarrow> nccl_result \<times> reg_st" where
  "deregister_on_device env graph save_dev p s =
     (case find_index (\<lambda>q. q = p) (rc_slots (cache s)) of
        None \<Rightarrow> (ncclInvalidUsage, s)
      | Some slot \<Rightarrow>
          let s = s\<lparr>regs := (regs s)(p := drop_ref graph (regs s p))\<rparr> in
          if local_refs (regs s p) \<noteq> 0 \<or> graph_refs (regs s p) \<noteq> 0 then (ncclSuccess, s)
          else
            let (res, calls) = reg_cleanup env (regs s p);
                s = s\<lparr>releases := releases s @ calls\<rparr> in
            if res \<noteq> ncclSuccess then (res, s)
            else
              let slots = rc_slots (cache s);
                  s = s\<lparr>cache := (cache s)\<lparr>rc_slots := take slot slots @ drop (slot + 1) slots\<rparr>\<rparr> in
              if re_cuda_set env save_dev \<noteq> ncclSuccess then (re_cuda_set env save_dev, s)
              else (ncclSuccess, s\<lparr>cuda_device := save_dev\<rparr>))"

definition comm_deregister :: "reg_env \<Rightarrow> bool \<Rightarrow> ptr \<Rightarrow> reg_st \<Rightarrow> nccl_result \<times> reg_st" where
  "comm_deregister env graph p s =
     (if re_comm_check env \<noteq> ncclSuccess then (re_comm_check env, s)
      else if p = null then (ncclSuccess, s)
      else if re_cuda_get env \<noteq> ncclSuccess then (re_cuda_get env, s)
      else if re_cuda_set env (re_comm_device env) \<noteq> ncclSuccess then (re_cuda_set env (re_comm_device env), s)
      else deregister_on_device env graph (cuda_device s) p (s\<lparr>cuda_device := re_comm_device env\<rparr>))"


section \<open>Well-formed caches\<close>

definition slots_sorted :: "(ptr \<Rightarrow> reg) \<Rightarrow> ptr list \<Rightarrow> bool" where
  "slots_sorted rs slots \<longleftrightarrow> sorted (map (\<lambda>p. beg_addr (rs p)) slots)"

definition cache_ok :: "reg_st \<Rightarrow> bool" where
  "cache_ok s \<longleftrightarrow> slots_sorted (regs s) (rc_slots (cache s)) \<and> distinct (rc_slots (cache s)) \<and>
     null \<notin> set (rc_slots (cache s)) \<and> length (rc_slots (cache s)) \<le> rc_capacity (cache s) \<and>
     rc_block (cache s) = rc_capacity (cache s)"

definition covers :: "reg \<Rightarrow> u64 \<Rightarrow> u64 \<Rightarrow> bool" where
  "covers r b e \<longleftrightarrow> beg_addr r \<le> b \<and> e \<le> end_addr r"

lemma slots_sorted_simps [simp]:
  "slots_sorted rs []"
  "slots_sorted rs (p # slots) \<longleftrightarrow> (\<forall>q \<in> set slots. beg_addr (rs p) \<le> beg_addr (rs q)) \<and> slots_sorted rs slots"
  "slots_sorted rs (slots @ slots') \<longleftrightarrow> slots_sorted rs slots \<and> slots_sorted rs slots' \<and>
     (\<forall>p \<in> set slots. \<forall>q \<in> set slots'. beg_addr (rs p) \<le> beg_addr (rs q))"
  by (auto simp: slots_sorted_def sorted_append)

lemma slots_sorted_cong:
  "(\<And>p. p \<in> set slots \<Longrightarrow> beg_addr (rs' p) = beg_addr (rs p)) \<Longrightarrow> slots_sorted rs' slots = slots_sorted rs slots"
  by (simp add: slots_sorted_def cong: map_cong)

lemma add_ref_simps [simp]:
  "beg_addr (add_ref graph r) = beg_addr r" "end_addr (add_ref graph r) = end_addr r"
  "reg_state (add_ref graph r) = reg_state r"
  by (simp_all add: add_ref_def)

lemma drop_ref_simps [simp]:
  "beg_addr (drop_ref graph r) = beg_addr r" "end_addr (drop_ref graph r) = end_addr r"
  "reg_state (drop_ref graph r) = reg_state r" "drop_ref graph (add_ref graph r) = r"
  by (simp_all add: drop_ref_def add_ref_def)

text \<open>What the search over the slots returns.\<close>

lemma search_slot_spec:
  assumes "slots_sorted rs slots"
  shows "case search_slot rs b e slots n of
      Covered_by i \<Rightarrow> n \<le> i \<and> i < n + length slots \<and> covers (rs (slots ! (i - n))) b e
    | Insert_at i \<Rightarrow> n \<le> i \<and> i \<le> n + length slots \<and> (\<forall>p \<in> set slots. \<not> covers (rs p) b e) \<and>
        (\<forall>p \<in> set (take (i - n) slots). beg_addr (rs p) \<le> b) \<and> (\<forall>p \<in> set (drop (i - n) slots). b < beg_addr (rs p))"
  using assms
proof (induction slots arbitrary: n)
  case (Cons p slots)
  consider "b < beg_addr (rs p)" | "beg_addr (rs p) \<le> b" "e \<le> end_addr (rs p)"
    | "beg_addr (rs p) \<le> b" "\<not> e \<le> end_addr (rs p)" by (meson not_le)
  then show ?case
  proof cases
    case 1
    with Cons.prems have "\<forall>q \<in> set (p # slots). b < beg_addr (rs q)" by (auto intro: less_le_trans)
    then show ?thesis using 1 by (auto simp: covers_def)
  next
    case 2
    then show ?thesis by (auto simp: covers_def)
  next
    case 3
    then have eq: "search_slot rs b e (p # slots) n = search_slot rs b e slots (Suc n)" by auto
    note ih = Cons.IH [of "Suc n"]
    show ?thesis
    proof (cases "search_slot rs b e slots (Suc n)")
      case (Insert_at i)
      with ih Cons.prems have i: "Suc n \<le> i" "i \<le> Suc n + length slots" "\<forall>p \<in> set slots. \<not> covers (rs p) b e"
        "\<forall>p \<in> set (take (i - Suc n) slots). beg_addr (rs p) \<le> b"
        "\<forall>p \<in> set (drop (i - Suc n) slots). b < beg_addr (rs p)" by simp_all
      then have "i - n = Suc (i - Suc n)" by simp
      with i 3 show ?thesis unfolding eq Insert_at by (simp add: covers_def)
    next
      case (Covered_by i)
      with ih Cons.prems have i: "Suc n \<le> i" "i < Suc n + length slots" "covers (rs (slots ! (i - Suc n))) b e"
        by simp_all
      then have "i - n = Suc (i - Suc n)" by simp
      with i show ?thesis unfolding eq Covered_by by simp
    qed
  qed
qed simp

lemma insert_slot_ok:
  assumes ok: "cache_ok s" and p: "p \<notin> set (rc_slots (cache s))" "p \<noteq> null"
    and i: "i \<le> length (rc_slots (cache s))"
    and left: "\<forall>q \<in> set (take i (rc_slots (cache s))). beg_addr (regs s q) \<le> b"
    and right: "\<forall>q \<in> set (drop i (rc_slots (cache s))). b < beg_addr (regs s q)"
  shows "\<exists>s'. insert_slot i b e graph True (Some p) s = Some (ncclSuccess, Some p, s') \<and> cache_ok s' \<and>
    rc_slots (cache s') = take i (rc_slots (cache s)) @ p # drop i (rc_slots (cache s)) \<and>
    regs s' = (regs s)(p := add_ref graph (zero_reg\<lparr>beg_addr := b, end_addr := e\<rparr>)) \<and>
    cuda_device s' = cuda_device s \<and> releases s' = releases s"
proof -
  let ?slots = "rc_slots (cache s)" and ?r = "add_ref graph (zero_reg\<lparr>beg_addr := b, end_addr := e\<rparr>)"
  let ?rs = "(regs s)(p := ?r)" and ?new = "take i ?slots @ p # drop i ?slots"
  have parts: "set (take i ?slots) \<subseteq> set ?slots" "set (drop i ?slots) \<subseteq> set ?slots"
    by (rule set_take_subset, rule set_drop_subset)
  have sorted: "slots_sorted (regs s) (take i ?slots @ drop i ?slots)" "distinct (take i ?slots @ drop i ?slots)"
    using ok by (simp_all add: cache_ok_def)
  have "slots_sorted ?rs (take i ?slots) = slots_sorted (regs s) (take i ?slots)"
    "slots_sorted ?rs (drop i ?slots) = slots_sorted (regs s) (drop i ?slots)"
    using p(1) parts by (intro slots_sorted_cong; auto)+
  moreover have "\<forall>q \<in> set (take i ?slots) \<union> set (drop i ?slots). q \<noteq> p" using p(1) parts by auto
  ultimately have "slots_sorted ?rs ?new"
    using sorted(1) left right by (auto simp: less_imp_le simp del: append_take_drop_id)
  moreover have "distinct ?new" using sorted(2) p(1) parts by (auto simp del: append_take_drop_id)
  moreover have "null \<notin> set ?new" using ok p(2) parts by (auto simp: cache_ok_def)
  moreover have "length ?new = Suc (length ?slots)" using i by simp
  ultimately have new: "slots_sorted ?rs ?new" "distinct ?new" "null \<notin> set ?new" "length ?new = Suc (length ?slots)"
    by blast+
  have cap: "length ?slots \<le> rc_capacity (cache s)" "rc_block (cache s) = rc_capacity (cache s)"
    using ok by (simp_all add: cache_ok_def)
  have r: "(let r = zero_reg\<lparr>beg_addr := b, end_addr := e\<rparr> in
      if graph then r\<lparr>graph_refs := 1\<rparr> else r\<lparr>local_refs := 1\<rparr>) = ?r"
    by (simp add: add_ref_def zero_reg_def)
  define cap' where "cap' = (if rc_capacity (cache s) < 32 then 32 else 2 * rc_capacity (cache s))"
  define c where "c = (if length ?slots = rc_capacity (cache s)
    then (cache s)\<lparr>rc_capacity := cap', rc_block := cap'\<rparr> else cache s)"
  have c: "Suc (length ?slots) \<le> rc_capacity c" "rc_block c = rc_capacity c"
    using cap by (auto simp: c_def cap'_def)
  have "insert_slot i b e graph True (Some p) s = Some (ncclSuccess, Some p, s\<lparr>cache := c\<lparr>rc_slots := ?new\<rparr>, regs := ?rs\<rparr>)"
    using cap c r unfolding insert_slot_def c_def cap'_def
    by (cases "length ?slots = rc_capacity (cache s)") (simp_all add: Let_def)
  then show ?thesis using new c by (auto simp: cache_ok_def simp del: append_take_drop_id)
qed


lemma find_slot_spec:
  "slots_sorted rs slots \<Longrightarrow> null \<notin> set slots \<Longrightarrow>
   (if \<exists>p \<in> set slots. covers (rs p) data (data + bytes)
    then find_slot rs data bytes slots \<in> set slots \<and> covers (rs (find_slot rs data bytes slots)) data (data + bytes)
    else find_slot rs data bytes slots = null)"
proof (induction slots)
  case (Cons p slots)
  show ?case
  proof (cases "data < beg_addr (rs p)")
    case True
    with Cons.prems(1) have "data < beg_addr (rs q)" if "q \<in> set (p # slots)" for q
      using that by (auto intro: less_le_trans)
    then have "\<not> covers (rs q) data (data + bytes)" if "q \<in> set (p # slots)" for q
      using that by (meson covers_def leD)
    with True show ?thesis by auto
  next
    case False
    show ?thesis
    proof (cases "data + bytes \<le> end_addr (rs p)")
      case True
      with False show ?thesis by (auto simp: covers_def not_less)
    next
      case beyond: False
      then have "find_slot rs data bytes (p # slots) = find_slot rs data bytes slots"
        "(\<exists>q \<in> set (p # slots). covers (rs q) data (data + bytes)) \<longleftrightarrow>
         (\<exists>q \<in> set slots. covers (rs q) data (data + bytes))"
        using False by (auto simp: covers_def)
      with Cons show ?thesis by (simp del: find_slot.simps) 
    qed
  qed
qed simp

section \<open>Rounding to pages\<close>

lemma page_floor_le: "page_floor page data \<le> data"
  by (simp add: page_floor_def word_and_le2)

lemma and_minus_exp: "(y :: u64) AND - (2 ^ k) = y - take_bit k y"
proof -
  have "y AND NOT (mask k) = push_bit k (drop_bit k y)" by (rule bit_word_eqI) (auto simp: bit_simps)
  moreover have "push_bit k (drop_bit k y) + take_bit k y = y" by (rule bits_ident)
  ultimately show ?thesis by (simp add: algebra_simps flip: minus_exp_eq_not_mask)
qed

lemma word_nat_id: "word_of_nat (unat x) = (x :: u64)"
  by simp

lemma page_ceiling_ge:
  assumes "k < 64" and "unat data + unat bytes + 2 ^ k \<le> 2 ^ 64"
  shows "unat data + unat bytes \<le> unat (page_ceiling (2 ^ k) data bytes)"
proof -
  let ?y = "data + bytes + 2 ^ k - 1"
  define z where "z = unat data + unat bytes + (2 ^ k - 1)"
  have one: "(1 :: nat) \<le> 2 ^ k" by simp
  have "(2 :: u64) ^ k - 1 = word_of_nat (2 ^ k - 1)"
    by (simp only: of_nat_diff [OF one]) simp
  then have "word_of_nat z = data + bytes + (2 ^ k - 1)"
    by (simp only: z_def of_nat_add word_nat_id)
  then have "?y = word_of_nat z" by (simp add: algebra_simps)
  moreover have "z < 2 ^ 64" using assms(2) one unfolding z_def by linarith
  ultimately have y: "unat ?y = z" by (simp add: unat_of_nat)
  have "unat (take_bit k ?y) = take_bit k (unat ?y)" by (rule unsigned_take_bit_eq)
  then have "unat (take_bit k ?y) = z mod 2 ^ k" by (simp only: y take_bit_eq_mod)
  then have less: "unat (take_bit k ?y) < 2 ^ k" "unat (take_bit k ?y) \<le> unat ?y" by (simp_all add: y)
  then have "unat (?y - take_bit k ?y) = z - unat (take_bit k ?y)"
    using y by (simp add: unat_sub word_le_nat_alt)
  then show ?thesis unfolding page_ceiling_def and_minus_exp using less z_def by linarith
qed

section \<open>The operations\<close>

lemma nccl_register_effect:
  assumes ok: "cache_ok s" and p: "p \<notin> set (rc_slots (cache s))" "p \<noteq> null"
    and checks: "re_comm_check env = ncclSuccess" "re_ptr_check env = ncclSuccess"
    and b: "b = page_floor (rc_page_size (cache s)) data" and e: "e = page_ceiling (rc_page_size (cache s)) data bytes"
  shows "\<exists>h s'. nccl_register env data bytes graph True (Some p) s = Some (ncclSuccess, Some h, s') \<and>
    cache_ok s' \<and> h \<in> set (rc_slots (cache s')) \<and> covers (regs s' h) b e \<and>
    (if \<exists>q \<in> set (rc_slots (cache s)). covers (regs s q) b e
     then rc_slots (cache s') = rc_slots (cache s) \<and> regs s' = (regs s)(h := add_ref graph (regs s h))
     else h = p \<and> set (rc_slots (cache s')) = insert p (set (rc_slots (cache s))) \<and>
       regs s' = (regs s)(p := add_ref graph (zero_reg\<lparr>beg_addr := b, end_addr := e\<rparr>)))"
proof -
  let ?slots = "rc_slots (cache s)"
  have sorted: "slots_sorted (regs s) ?slots" using ok by (simp add: cache_ok_def)
  note found = search_slot_spec [OF sorted, where b = b and e = e and n = 0]
  show ?thesis
  proof (cases "search_slot (regs s) b e ?slots 0")
    case (Covered_by i)
    let ?h = "?slots ! i"
    let ?s = "s\<lparr>regs := (regs s)(?h := add_ref graph (regs s ?h))\<rparr>"
    have h: "?h \<in> set ?slots" "covers (regs s ?h) b e" using found Covered_by by simp_all
    have "nccl_register env data bytes graph True (Some p) s = Some (ncclSuccess, Some ?h, ?s)"
      using checks Covered_by b e by (simp add: nccl_register_def Let_def)
    moreover have "cache_ok ?s"
      using ok slots_sorted_cong [of ?slots "(regs s)(?h := add_ref graph (regs s ?h))" "regs s"]
      by (simp add: cache_ok_def)
    ultimately show ?thesis using h by (auto simp: covers_def)
  next
    case (Insert_at i)
    with found have i: "i \<le> length ?slots" "\<forall>q \<in> set ?slots. \<not> covers (regs s q) b e"
      "\<forall>q \<in> set (take i ?slots). beg_addr (regs s q) \<le> b" "\<forall>q \<in> set (drop i ?slots). b < beg_addr (regs s q)"
      by simp_all
    from insert_slot_ok [OF ok p i(1,3,4), of e graph] obtain s' where s':
      "insert_slot i b e graph True (Some p) s = Some (ncclSuccess, Some p, s')" "cache_ok s'"
      "rc_slots (cache s') = take i ?slots @ p # drop i ?slots"
      "regs s' = (regs s)(p := add_ref graph (zero_reg\<lparr>beg_addr := b, end_addr := e\<rparr>))" by blast
    have "set (rc_slots (cache s')) = insert p (set (take i ?slots @ drop i ?slots))" 
      unfolding s'(3) by (simp only: set_append list.set Un_insert_right)
    then have "set (rc_slots (cache s')) = insert p (set ?slots)" by (simp only: append_take_drop_id)
    moreover have "nccl_register env data bytes graph True (Some p) s = Some (ncclSuccess, Some p, s')"
      using checks Insert_at b e s'(1) by (simp add: nccl_register_def)
    ultimately show ?thesis using i(2) s' by (auto simp: covers_def zero_reg_def)
  qed
qed

lemma insert_slot_any:
  assumes ok: "cache_ok s" and i: "i \<le> length (rc_slots (cache s))"
  shows "if fresh \<noteq> None \<and> (grown \<or> length (rc_slots (cache s)) \<noteq> rc_capacity (cache s))
    then insert_slot i b e graph grown fresh s = insert_slot i b e graph True fresh s
    else \<exists>s'. insert_slot i b e graph grown fresh s = Some (ncclSystemError, None, s') \<and> regs s' = regs s"
  using ok i by (auto simp: insert_slot_def cache_ok_def Let_def)

text \<open>C39. From a consistent cache \<open>ncclRegister\<close> stays within the bounds of its array, whatever its two allocations do.  When a
  registration covers the page-rounded buffer already, or when there is memory, it succeeds: the cache is
  consistent again, and the result is a registration of the cache that covers the buffer, one reference the richer -
  the one that covered it already, or else the new one, which is then the only addition.  When memory
  is needed and not found, it fails and leaves every registration as it was (the array it leaves then
  need not be consistent).\<close>

theorem nccl_register_spec:
  assumes ok: "cache_ok s" and p: "\<forall>p. fresh = Some p \<longrightarrow> p \<notin> set (rc_slots (cache s)) \<and> p \<noteq> null"
    and checks: "re_comm_check env = ncclSuccess" "re_ptr_check env = ncclSuccess"
    and b: "b = page_floor (rc_page_size (cache s)) data" and e: "e = page_ceiling (rc_page_size (cache s)) data bytes"
  shows "\<exists>r h s'. nccl_register env data bytes graph grown fresh s = Some (r, h, s') \<and>
    (let known = (\<exists>q \<in> set (rc_slots (cache s)). covers (regs s q) b e) in
     if known \<or> fresh \<noteq> None \<and> (grown \<or> length (rc_slots (cache s)) \<noteq> rc_capacity (cache s))
     then r = ncclSuccess \<and> cache_ok s' \<and>
       (\<exists>q. h = Some q \<and> q \<in> set (rc_slots (cache s')) \<and> covers (regs s' q) b e \<and>
         (if known then rc_slots (cache s') = rc_slots (cache s) \<and> regs s' = (regs s)(q := add_ref graph (regs s q))
          else fresh = Some q \<and> set (rc_slots (cache s')) = insert q (set (rc_slots (cache s))) \<and>
            regs s' = (regs s)(q := add_ref graph (zero_reg\<lparr>beg_addr := b, end_addr := e\<rparr>))))
     else r = ncclSystemError \<and> h = None \<and> regs s' = regs s)"
proof -
  let ?slots = "rc_slots (cache s)"
  let ?known = "\<exists>q \<in> set ?slots. covers (regs s q) b e"
  have "slots_sorted (regs s) ?slots" using ok by (simp add: cache_ok_def)
  note found = search_slot_spec [OF this, where b = b and e = e and n = 0]
  obtain p' where p': "p' \<notin> set ?slots" "p' \<noteq> null" "\<forall>q. fresh = Some q \<longrightarrow> p' = q"
  proof (cases fresh)
    case None
    obtain q where "q \<notin> insert null (set ?slots)" using ex_new_if_finite [OF infinite_UNIV_nat] finite_insert finite_set by metis
    then show thesis using that None by auto
  next
    case (Some q)
    then show thesis using that p by simp
  qed
  from nccl_register_effect [OF ok p'(1,2) checks b e] obtain q s' where
    did: "nccl_register env data bytes graph True (Some p') s = Some (ncclSuccess, Some q, s')" "cache_ok s'"
      "q \<in> set (rc_slots (cache s'))" "covers (regs s' q) b e"
    and effect: "if ?known then rc_slots (cache s') = ?slots \<and> regs s' = (regs s)(q := add_ref graph (regs s q))
      else q = p' \<and> set (rc_slots (cache s')) = insert p' (set ?slots) \<and>
        regs s' = (regs s)(p' := add_ref graph (zero_reg\<lparr>beg_addr := b, end_addr := e\<rparr>))" by blast
  show ?thesis
  proof (cases "search_slot (regs s) b e ?slots 0")
    case (Covered_by i)
    then have ?known using found by auto
    moreover have "nccl_register env data bytes graph grown fresh s = nccl_register env data bytes graph True (Some p') s"
      using checks Covered_by b e by (simp add: nccl_register_def Let_def)
    ultimately show ?thesis using did effect by (simp add: Let_def)
  next
    case (Insert_at i)
    with found have i: "i \<le> length ?slots" and new: "\<not> ?known" by auto
    have call: "nccl_register env data bytes graph grown' fresh' s = insert_slot i b e graph grown' fresh' s" for grown' fresh'
      using checks Insert_at b e by (simp add: nccl_register_def Let_def)
    show ?thesis
    proof (cases "fresh \<noteq> None \<and> (grown \<or> length ?slots \<noteq> rc_capacity (cache s))")
      case True
      then have "fresh = Some p'" using p'(3) by auto
      then have "nccl_register env data bytes graph grown fresh s = Some (ncclSuccess, Some q, s')"
        using insert_slot_any [OF ok i, of fresh grown b e graph] True did(1) unfolding call by simp
      then show ?thesis using True new did effect \<open>fresh = Some p'\<close> by (simp add: Let_def)
    next
      case False
      then show ?thesis using insert_slot_any [OF ok i, of fresh grown b e graph] new unfolding call by (auto simp: Let_def)
    qed
  qed
qed

text \<open>\<open>ncclRegFind\<close> returns a registration that covers the range if the cache has one, and the null
  pointer otherwise.\<close>

theorem reg_find_spec:
  assumes "cache_ok s"
  shows "if \<exists>p \<in> set (rc_slots (cache s)). covers (regs s p) data (data + bytes)
    then reg_find data bytes s \<in> set (rc_slots (cache s)) \<and> covers (regs s (reg_find data bytes s)) data (data + bytes)
    else reg_find data bytes s = null"
  unfolding reg_find_def using assms by (intro find_slot_spec) (simp_all add: cache_ok_def)


text \<open>A buffer that was registered is found again, whole or in part, as long as the page-rounded
  end does not wrap around.\<close>

theorem registered_buffer_is_found:
  assumes ok: "cache_ok s" and p: "p \<notin> set (rc_slots (cache s))" "p \<noteq> null"
    and checks: "re_comm_check env = ncclSuccess" "re_ptr_check env = ncclSuccess"
    and page: "rc_page_size (cache s) = 2 ^ k" "k < 64" "unat data + unat bytes + 2 ^ k \<le> 2 ^ 64"
    and sub: "data \<le> d" "unat d + unat n \<le> unat data + unat bytes"
    and run: "nccl_register env data bytes graph True (Some p) s = Some (ncclSuccess, Some h, s')"
  shows "reg_find d n s' \<in> set (rc_slots (cache s')) \<and> covers (regs s' (reg_find d n s')) d (d + n)"
proof -
  let ?b = "page_floor (2 ^ k) data" and ?e = "page_ceiling (2 ^ k) data bytes"
  obtain h' s'' where
    "nccl_register env data bytes graph True (Some p) s = Some (ncclSuccess, Some h', s'')"
    "cache_ok s''" "h' \<in> set (rc_slots (cache s''))" "covers (regs s'' h') ?b ?e"
    using nccl_register_effect [OF ok p checks] page(1) by metis
  with run have h: "cache_ok s'" "h \<in> set (rc_slots (cache s'))" "covers (regs s' h) ?b ?e" by simp_all
  have "unat (d + n) = unat d + unat n"
  proof -
    have "unat d + unat n < 2 ^ 64" using sub(2) page(3) zero_less_power [of "2 :: nat" k] by linarith
    then show ?thesis by (subst unat_plus_simple [THEN iffD1]) (simp_all add: no_olen_add_nat)
  qed
  then have "d + n \<le> ?e" using page_ceiling_ge [OF page(2,3)] sub(2) by (simp add: word_le_nat_alt)
  moreover have "?b \<le> d" using page_floor_le sub(1) by (rule order_trans)
  ultimately have "covers (regs s' h) d (d + n)" using h(3) unfolding covers_def by (meson order_trans)
  with h show ?thesis using find_slot_spec [of "regs s'" "rc_slots (cache s')" d n]
    by (auto simp: reg_find_def cache_ok_def split: if_splits)
qed

lemma remove_slot_ok:
  assumes "cache_ok s" and "\<And>q. beg_addr (rs q) = beg_addr (regs s q)"
  shows "cache_ok (s\<lparr>cache := (cache s)\<lparr>rc_slots := take i (rc_slots (cache s)) @ drop (Suc i) (rc_slots (cache s))\<rparr>,
    regs := rs\<rparr>)"
proof -
  let ?slots = "rc_slots (cache s)"
  have "slots_sorted rs ?slots" using assms by (simp add: cache_ok_def slots_sorted_def)
  moreover have "?slots = take i ?slots @ drop i ?slots" by simp
  ultimately have "slots_sorted rs (take i ?slots @ drop i ?slots)" by metis
  moreover have "drop (Suc i) ?slots = drop 1 (drop i ?slots)" by simp
  ultimately have "slots_sorted rs (take i ?slots @ drop (Suc i) ?slots)"
    by (cases "drop i ?slots") auto
  moreover have "distinct (take i ?slots @ drop (Suc i) ?slots)"
    using assms(1) by (simp add: cache_ok_def) (meson distinct_drop distinct_take set_take_disj_set_drop_if_distinct lessI less_imp_le)
  moreover have "set (take i ?slots @ drop (Suc i) ?slots) \<subseteq> set ?slots"
    using set_take_subset [of i ?slots] set_drop_subset [of "Suc i" ?slots] by simp
  moreover have "length (take i ?slots @ drop (Suc i) ?slots) \<le> length ?slots" by simp
  ultimately show ?thesis using assms(1) unfolding cache_ok_def by auto
qed


text \<open>\<open>commDeregister\<close>, when the CUDA calls succeed: an unknown handle is refused; a registration
  with references left only loses one; the last reference removes it from the cache and releases its
  resources once, in order.  Other registrations are untouched and the cache stays well formed.\<close>

theorem comm_deregister_spec:
  assumes ok: "cache_ok s" and h: "h \<noteq> null" and check: "re_comm_check env = ncclSuccess"
    and cuda: "re_cuda_get env = ncclSuccess" "\<And>d. re_cuda_set env d = ncclSuccess" "\<And>p. re_cuda_free env p = ncclSuccess"
    and r_def: "r = drop_ref graph (regs s h)"
  shows "\<exists>res s'. comm_deregister env graph h s = (res, s') \<and> cache_ok s' \<and>
    (if h \<notin> set (rc_slots (cache s)) then res = ncclInvalidUsage \<and> cache s' = cache s \<and> regs s' = regs s
     else res = ncclSuccess \<and> regs s' = (regs s)(h := r) \<and>
      (if local_refs r \<noteq> 0 \<or> graph_refs r \<noteq> 0
       then cache s' = cache s \<and> releases s' = releases s
       else set (rc_slots (cache s')) = set (rc_slots (cache s)) - {h} \<and>
         releases s' = releases s @ snd (reg_cleanup env r) \<and> cuda_device s' = cuda_device s))"
proof (cases "find_index (\<lambda>q. q = h) (rc_slots (cache s))")
  case None
  then have "h \<notin> set (rc_slots (cache s))" unfolding find_index_None by blast
  moreover have "comm_deregister env graph h s = (ncclInvalidUsage, s\<lparr>cuda_device := re_comm_device env\<rparr>)"
    using None h check cuda by (simp add: comm_deregister_def deregister_on_device_def)
  ultimately show ?thesis using ok by (simp add: cache_ok_def)
next
  case (Some i)
  let ?slots = "rc_slots (cache s)"
  have i: "i < length ?slots" "?slots ! i = h" using find_index_SomeD [OF Some] by auto
  have rs: "beg_addr (((regs s)(h := r)) q) = beg_addr (regs s q)" for q by (simp add: r_def)
  have mem: "h \<in> set ?slots" using i nth_mem by metis
  let ?a = "take i ?slots" and ?b = "drop (Suc i) ?slots"
  have split: "?slots = ?a @ h # ?b" using i id_take_nth_drop by metis
  have "distinct ?slots" using ok by (simp add: cache_ok_def)
  then have "distinct (?a @ h # ?b)" using split by metis
  then have "h \<notin> set ?a" "h \<notin> set ?b" by simp_all
  moreover have "set ?slots = set (?a @ h # ?b)" using split by metis
  ultimately have rest: "set (?a @ ?b) = set ?slots - {h}" by auto
  have clean: "fst (reg_cleanup env r) = ncclSuccess" using cuda(3) by (simp add: reg_cleanup_def Let_def)
  show ?thesis
  proof (cases "local_refs r \<noteq> 0 \<or> graph_refs r \<noteq> 0")
    case True
    let ?s = "s\<lparr>cuda_device := re_comm_device env, regs := (regs s)(h := r)\<rparr>"
    have "comm_deregister env graph h s = (ncclSuccess, ?s)"
      using True Some h check cuda by (simp add: comm_deregister_def deregister_on_device_def Let_def r_def)
    moreover have "cache_ok ?s" using ok rs slots_sorted_cong [of ?slots "(regs s)(h := r)" "regs s"]
      by (simp add: cache_ok_def)
    ultimately show ?thesis using True mem by simp
  next
    case False
    let ?s = "s\<lparr>cache := (cache s)\<lparr>rc_slots := take i ?slots @ drop (Suc i) ?slots\<rparr>, regs := (regs s)(h := r),
        cuda_device := cuda_device s, releases := releases s @ snd (reg_cleanup env r)\<rparr>"
    have "comm_deregister env graph h s = (ncclSuccess, ?s)"
      using False Some h check cuda clean
      by (simp add: comm_deregister_def deregister_on_device_def Let_def r_def split_def)
    moreover have "cache_ok ?s"
      using remove_slot_ok [OF ok, of "(regs s)(h := r)" i] rs by (simp add: cache_ok_def)
    ultimately show ?thesis using False mem rest by simp
  qed
qed

section \<open>Samples\<close>

definition sample_env :: reg_env where
  "sample_env = \<lparr>re_comm_check = ncclSuccess, re_ptr_check = ncclSuccess, re_comm_device = 1,
     re_cuda_get = ncclSuccess, re_cuda_set = (\<lambda>_. ncclSuccess), re_cuda_free = (\<lambda>_. ncclSuccess)\<rparr>"

definition sample_start :: reg_st where
  "sample_start = \<lparr>cache = \<lparr>rc_slots = [], rc_capacity = 0, rc_block = 0, rc_page_size = 2 ^ 12\<rparr>,
     regs = (\<lambda>_. zero_reg), cuda_device = 0, releases = []\<rparr>"

definition sample_reg :: reg where
  "sample_reg = zero_reg\<lparr>beg_addr := 0x1000, end_addr := 0x2000, local_refs := 2\<rparr>"

definition sample_shared :: reg_st where
  "sample_shared = \<lparr>cache = \<lparr>rc_slots = [7], rc_capacity = 32, rc_block = 32, rc_page_size = 2 ^ 12\<rparr>,
     regs = (\<lambda>_. zero_reg)(7 := sample_reg), cuda_device = 0, releases = []\<rparr>"

lemma sample_env_simps [simp]:
  "re_comm_check sample_env = ncclSuccess" "re_ptr_check sample_env = ncclSuccess"
  "re_cuda_get sample_env = ncclSuccess" "re_cuda_set sample_env d = ncclSuccess"
  "re_cuda_free sample_env p = ncclSuccess" "re_comm_device sample_env = 1"
  by (simp_all add: sample_env_def)

lemma sample_caches_ok: "cache_ok sample_start" "cache_ok sample_shared"
  by (simp_all add: cache_ok_def sample_start_def sample_shared_def)

theorem nccl_register_spec_witness:
  "\<exists>h s'. nccl_register sample_env 0x1010 0x20 False True (Some 5) sample_start = Some (ncclSuccess, Some h, s') \<and>
    cache_ok s'"
proof -
  have "\<forall>p. Some (5 :: ptr) = Some p \<longrightarrow> p \<notin> set (rc_slots (cache sample_start)) \<and> p \<noteq> null" by (simp add: sample_start_def)
  from nccl_register_spec [OF sample_caches_ok(1) this _ _ refl refl, of sample_env "0x1010" "0x20" False True]
  show ?thesis by (auto simp: Let_def)
qed

theorem reg_find_spec_witness: "reg_find 0x1010 0x20 sample_shared = 7"
  using reg_find_spec [where data = "0x1010" and bytes = "0x20", OF sample_caches_ok(2)]
  by (simp add: sample_shared_def covers_def sample_reg_def)

lemma sample_register:
  "nccl_register sample_env 0x1010 0x20 False True (Some 5) sample_start =
    Some (ncclSuccess, Some 5, sample_start\<lparr>cache := \<lparr>rc_slots = [5], rc_capacity = 32, rc_block = 32, rc_page_size = 2 ^ 12\<rparr>,
      regs := (\<lambda>_. zero_reg)(5 := zero_reg\<lparr>beg_addr := 0x1000, end_addr := 0x2000, local_refs := 1\<rparr>)\<rparr>)"
  by (simp add: nccl_register_def insert_slot_def sample_start_def page_floor_def page_ceiling_def Let_def)

theorem registered_buffer_is_found_witness:
  "reg_find 0x1018 8 (sample_start\<lparr>cache := \<lparr>rc_slots = [5], rc_capacity = 32, rc_block = 32, rc_page_size = 2 ^ 12\<rparr>,
      regs := (\<lambda>_. zero_reg)(5 := zero_reg\<lparr>beg_addr := 0x1000, end_addr := 0x2000, local_refs := 1\<rparr>)\<rparr>) = 5"
  using registered_buffer_is_found [where k = 12 and d = "0x1018" and n = 8, OF sample_caches_ok(1) _ _ _ _ _ _ _ _ _ sample_register]
  by (simp add: sample_start_def)

theorem comm_deregister_spec_witness:
  "fst (comm_deregister sample_env False 7 sample_shared) = ncclSuccess"
  using comm_deregister_spec [where h = 7 and env = sample_env and graph = False, OF sample_caches_ok(2)]
  by (auto simp: sample_shared_def)

text \<open>Releasing one of two references leaves the caller's current device set to the one of the
  communicator: the early return skips the call that restores it.\<close>

theorem shared_deregister_keeps_device:
  "cuda_device sample_shared = 0 \<and>
   (\<exists>s'. comm_deregister sample_env False 7 sample_shared = (ncclSuccess, s') \<and> cuda_device s' = 1)"
  by (simp add: comm_deregister_def deregister_on_device_def sample_shared_def sample_reg_def zero_reg_def
    drop_ref_def Let_def)

text \<open>When the array cannot grow, registration fails but keeps the raised capacity: the next
  registration writes beyond the block.\<close>

theorem failed_growth_then_overflow:
  "\<exists>s'. nccl_register sample_env 0x1010 0x20 False False (Some 5) sample_start = Some (ncclSystemError, None, s') \<and>
    nccl_register sample_env 0x1010 0x20 False True (Some 5) s' = None"
  by (simp add: nccl_register_def insert_slot_def sample_start_def page_floor_def page_ceiling_def Let_def)

end
