(* ===== verification/FastDivision.thy ===== *)
theory FastDivision
  imports Prelude
begin

text \<open>
  Division by precomputed reciprocals, from \<open>src/include/bitops.h\<close>.  The 32-bit and the 64-bit routines
  share their code; what they need of the multiplication and of the reciprocal is the locale
  \<open>reciprocal\<close>, interpreted at both widths.  \<open>idivRcp\<close> divides by its argument, so 0 is no argument of it.
\<close>

section \<open>Reciprocals\<close>

definition is_pow2 :: "'a::len word \<Rightarrow> bool" where
  "is_pow2 x \<longleftrightarrow> x AND (x - 1) = 0"

definition idiv_rcp32 :: "u32 \<Rightarrow> u32" where
  "idiv_rcp32 x = ucast ((0x100000000 :: u64) div ucast x)"

definition idiv_rcp64 :: "u64 \<Rightarrow> u64" where
  "idiv_rcp64 x = - 1 div x + (if is_pow2 x then 1 else 0)"

definition mul32hi :: "u32 \<Rightarrow> u32 \<Rightarrow> u32" where
  "mul32hi a b = ucast (drop_bit 32 (ucast a * ucast b :: u64))"

definition mul64hi :: "u64 \<Rightarrow> u64 \<Rightarrow> u64" where
  "mul64hi a b = ucast (drop_bit 64 (ucast a * ucast b :: 128 word))"

text \<open>The two widths share their code but for the multiplication.\<close>

definition imul_rcp ::
    "('a::len word \<Rightarrow> 'a word \<Rightarrow> 'a word) \<Rightarrow> 'a word \<Rightarrow> 'a word \<Rightarrow> 'a word \<Rightarrow> 'a word \<Rightarrow> 'a word" where
  "imul_rcp mulhi x xrcp y yrcp =
     (if xrcp = 0 then yrcp
      else if yrcp = 0 then xrcp
      else let rcp = mulhi xrcp yrcp; rem = - x * y * rcp
           in if x * y \<le> rem then rcp + 1 else rcp)"

definition imul_rcp32 :: "u32 \<Rightarrow> u32 \<Rightarrow> u32 \<Rightarrow> u32 \<Rightarrow> u32" where
  "imul_rcp32 = imul_rcp mul32hi"

definition imul_rcp64 :: "u64 \<Rightarrow> u64 \<Rightarrow> u64 \<Rightarrow> u64 \<Rightarrow> u64" where
  "imul_rcp64 = imul_rcp mul64hi"

text \<open>Quotient and remainder.\<close>

definition idivmod_fast ::
    "('a::len word \<Rightarrow> 'a word \<Rightarrow> 'a word) \<Rightarrow> 'a word \<Rightarrow> 'a word \<Rightarrow> 'a word \<Rightarrow> 'a word \<times> 'a word" where
  "idivmod_fast mulhi x y yrcp =
     (if yrcp \<noteq> 0
      then let q = mulhi x yrcp; r = x - y * q
           in if r \<ge> y then (q + 1, r - y) else (q, r)
      else (x, 0))"

definition idivmod_fast32 :: "u32 \<Rightarrow> u32 \<Rightarrow> u32 \<Rightarrow> u32 \<times> u32" where
  "idivmod_fast32 = idivmod_fast mul32hi"

definition idivmod_fast64 :: "u64 \<Rightarrow> u64 \<Rightarrow> u64 \<Rightarrow> u64 \<times> u64" where
  "idivmod_fast64 = idivmod_fast mul64hi"

definition idiv_fast32 :: "u32 \<Rightarrow> u32 \<Rightarrow> u32 \<Rightarrow> u32" where
  "idiv_fast32 x y yrcp = fst (idivmod_fast32 x y yrcp)"

definition imod_fast32 :: "u32 \<Rightarrow> u32 \<Rightarrow> u32 \<Rightarrow> u32" where
  "imod_fast32 x y yrcp = snd (idivmod_fast32 x y yrcp)"

text \<open>The 64-bit variants return \<open>uint32_t\<close>.\<close>

definition idiv_fast64 :: "u64 \<Rightarrow> u64 \<Rightarrow> u64 \<Rightarrow> u32" where
  "idiv_fast64 x y yrcp = ucast (fst (idivmod_fast64 x y yrcp))"

definition imod_fast64 :: "u64 \<Rightarrow> u64 \<Rightarrow> u64 \<Rightarrow> u32" where
  "imod_fast64 x y yrcp = ucast (snd (idivmod_fast64 x y yrcp))"

section \<open>The arithmetic of reciprocals\<close>

lemma reciprocal_quotient:
  fixes W x y :: nat
  assumes "0 < y" and "x < W"
  defines "q \<equiv> x * (W div y) div W"
  shows "y * q \<le> x" and "x < y * q + 2 * y"
proof -
  have W: "0 < W" using assms(2) by simp
  have "q * W \<le> x * (W div y)" unfolding q_def by simp
  then have "y * (q * W) \<le> y * (x * (W div y))" by simp
  also have "\<dots> = x * (W div y * y)" by (simp add: algebra_simps)
  also have "\<dots> \<le> x * W" by simp
  finally have "(y * q) * W \<le> x * W" by (simp add: mult.assoc)
  with W show "y * q \<le> x" by simp
  have "x * (W div y) < Suc q * W" unfolding q_def using W by (simp add: dividend_less_div_times)
  then have "y * (x * (W div y)) < y * (Suc q * W)" using assms(1) by simp
  moreover have "x * W = y * (x * (W div y)) + x * (W mod y)"
    by (metis add_mult_distrib2 mult.left_commute mult_div_mod_eq)
  moreover have "x * (W mod y) \<le> W * y" using assms(1,2) by (intro mult_mono) simp_all
  ultimately have "x * W < (y * Suc q + y) * W" by (simp add: algebra_simps)
  then have "x < y * Suc q + y" using W by simp
  then show "x < y * q + 2 * y" by simp
qed

lemma reciprocal_product:
  fixes W x y :: nat
  assumes "2 \<le> x" and "2 \<le> y" and "0 < W"
  defines "r \<equiv> (W div x) * (W div y) div W"
  shows "x * y * r \<le> W" and "W < x * y * (r + 2)"
proof -
  let ?a = "W div x" and ?b = "W div y"
  have "r * W \<le> ?a * ?b" unfolding r_def by simp
  then have "x * y * (r * W) \<le> x * y * (?a * ?b)" by simp
  also have "\<dots> = (x * ?a) * (y * ?b)" by simp
  also have "\<dots> \<le> W * W" by (intro mult_mono) simp_all
  finally have "(x * y * r) * W \<le> W * W" by (simp add: mult.assoc)
  with assms(3) show "x * y * r \<le> W" by simp
  have "?a * ?b < Suc r * W" unfolding r_def using assms(3) by (simp add: dividend_less_div_times)
  then have "x * y * (?a * ?b) < x * y * (Suc r * W)" using assms(1,2) by simp
  then have up: "(x * ?a) * (y * ?b) < x * y * Suc r * W" by (simp add: algebra_simps)
  have xa: "x * ?a + W mod x = W" and yb: "y * ?b + W mod y = W" by simp_all
  have "W * W = (x * ?a) * (y * ?b) + (x * ?a) * (W mod y) + (W mod x) * W"
    by (metis xa yb add_mult_distrib add_mult_distrib2)
  also have "\<dots> \<le> (x * ?a) * (y * ?b) + W * (W mod y) + (W mod x) * W"
    by (intro add_mono mult_mono) simp_all
  also have "\<dots> < x * y * Suc r * W + W * (W mod y) + (W mod x) * W" using up by simp
  also have "\<dots> = (x * y * Suc r + W mod y + W mod x) * W" by (simp add: algebra_simps)
  finally have "W < x * y * Suc r + W mod y + W mod x" using assms(3) by simp
  moreover have "W mod y < y" "W mod x < x" using assms(1,2) by simp_all
  moreover have "x + y \<le> x * y"
  proof -
    obtain i j where "x = i + 2" "y = j + 2" using assms(1,2) by (metis le_add_diff_inverse2)
    then show ?thesis by simp
  qed
  ultimately show "W < x * y * (r + 2)" by (simp add: algebra_simps)
qed

lemma unat_exp:
  assumes "k < LENGTH('a)"
  shows "unat (2 ^ k :: 'a::len word) = 2 ^ k"
proof -
  have "unat (of_nat (2 ^ k) :: 'a word) = 2 ^ k" using assms unfolding unat_of_nat by simp
  then show ?thesis by simp
qed

lemma unat_negated:
  fixes w :: "'a::len word"
  assumes "w \<noteq> 0"
  shows "unat (- w) = 2 ^ LENGTH('a) - unat w"
proof -
  have "unat w \<le> 2 ^ LENGTH('a)" by (rule less_imp_le, rule unsigned_less)
  then have "- w = of_nat (2 ^ LENGTH('a) - unat w)" by (simp add: of_nat_diff)
  moreover have "0 < unat w" using assms by (simp add: unat_gt_0)
  then have "2 ^ LENGTH('a) - unat w < 2 ^ LENGTH('a)" by (simp add: diff_less)
  ultimately show ?thesis by (simp add: unat_of_nat)
qed

lemma unat_widened:
  fixes w :: "'a::len word"
  assumes "LENGTH('a) \<le> LENGTH('b)"
  shows "unat (ucast w :: 'b::len word) = unat w"
proof -
  have "unat w < 2 ^ LENGTH('a)" by (rule unsigned_less)
  also have "\<dots> \<le> 2 ^ LENGTH('b)" using assms by (simp add: power_increasing)
  finally show ?thesis by (simp add: unsigned_ucast_eq take_bit_nat_eq_self)
qed

lemma two_le_unat: "y \<noteq> 0 \<Longrightarrow> y \<noteq> 1 \<Longrightarrow> 2 \<le> unat y"
  by (simp add: word_unat_eq_iff)

text \<open>What the fast routines rely on: the high half of the product and the reciprocal of a divisor.\<close>

locale reciprocal =
  fixes mulhi :: "'a::len word \<Rightarrow> 'a word \<Rightarrow> 'a word" and rcp :: "'a word \<Rightarrow> 'a word"
  assumes mulhi: "unat (mulhi a b) = unat a * unat b div 2 ^ LENGTH('a)"
    and rcp: "y \<noteq> 0 \<Longrightarrow> unat (rcp y) = 2 ^ LENGTH('a) div unat y mod 2 ^ LENGTH('a)"
begin

lemma rcp_large:
  assumes "2 \<le> unat y"
  shows "unat (rcp y) = 2 ^ LENGTH('a) div unat y"
proof -
  have "2 ^ LENGTH('a) div unat y < 2 ^ LENGTH('a)"
    using assms by (intro div_less_dividend) simp_all
  moreover have "y \<noteq> 0" using assms by auto
  ultimately show ?thesis by (simp add: rcp)
qed

lemma rcp_zero_iff: "y \<noteq> 0 \<Longrightarrow> rcp y = 0 \<longleftrightarrow> y = 1"
proof
  assume y: "y \<noteq> 0" and z: "rcp y = 0"
  show "y = 1"
  proof (rule ccontr)
    assume "y \<noteq> 1"
    with y have "2 \<le> unat y" by (rule two_le_unat)
    from rcp_large [OF this] z have "2 ^ LENGTH('a) div unat y = 0" by simp
    then have "2 ^ LENGTH('a) < unat y \<or> unat y = 0" by (simp add: div_eq_0_iff)
    moreover have "unat y < 2 ^ LENGTH('a)" "0 < unat y" using y by (simp_all add: unsigned_less unat_gt_0)
    ultimately show False by simp
  qed
next
  assume "y \<noteq> 0" and "y = 1"
  then show "rcp y = 0" using rcp [of y] by (simp add: unat_eq_zero)
qed

lemma fast_division:
  assumes y: "y \<noteq> 0"
  shows "idivmod_fast mulhi x y (rcp y) = (x div y, x mod y)"
proof (cases "y = 1")
  case True
  with rcp_zero_iff [OF y] show ?thesis by (simp add: idivmod_fast_def)
next
  case False
  then have nz: "rcp y \<noteq> 0" using rcp_zero_iff [OF y] by simp
  have y2: "2 \<le> unat y" using y False by (rule two_le_unat)
  let ?q = "mulhi x (rcp y)"
  have q: "unat ?q = unat x * (2 ^ LENGTH('a) div unat y) div 2 ^ LENGTH('a)"
    by (simp add: mulhi rcp_large [OF y2])
  have low: "unat y * unat ?q \<le> unat x" and high: "unat x < unat y * unat ?q + 2 * unat y"
    unfolding q using y2 reciprocal_quotient [of "unat y" "unat x" "2 ^ LENGTH('a)"] by (simp_all add: unsigned_less)
  have prod: "unat (y * ?q) = unat y * unat ?q"
    using low unsigned_less [of x] by (simp add: unat_word_ariths le_less_trans)
  then have r: "unat (x - y * ?q) = unat x - unat y * unat ?q" using low by (simp add: unat_sub word_le_nat_alt)
  show ?thesis
  proof (cases "x - y * ?q \<ge> y")
    case True
    then have ge: "unat y \<le> unat x - unat y * unat ?q" by (simp add: word_le_nat_alt r)
    then have bound: "unat y * Suc (unat ?q) \<le> unat x" using low by simp
    have "unat x div unat y = Suc (unat ?q)"
      using high bound by (intro div_nat_eqI) (simp_all add: algebra_simps)
    moreover have "unat x mod unat y = unat x - unat y * unat ?q - unat y"
      using \<open>unat x div unat y = Suc (unat ?q)\<close> by (simp add: minus_div_mult_eq_mod [symmetric] algebra_simps)
    moreover have "Suc (unat ?q) < 2 ^ LENGTH('a)"
      using le_less_trans [OF div_le_dividend unsigned_less, of x "unat y"]
      unfolding \<open>unat x div unat y = Suc (unat ?q)\<close> by simp
    then have "unat (?q + 1) = Suc (unat ?q)" by (simp add: unat_word_ariths)
    ultimately have "?q + 1 = x div y" "x - y * ?q - y = x mod y"
      using True by (simp_all add: word_unat_eq_iff unat_div unat_mod unat_sub r)
    with True nz show ?thesis by (simp add: idivmod_fast_def Let_def)
  next
    case False
    then have lt: "unat x - unat y * unat ?q < unat y" by (simp add: word_le_nat_alt r)
    then have "unat x div unat y = unat ?q" using low by (intro div_nat_eqI) (simp_all add: algebra_simps)
    moreover from this have "unat x mod unat y = unat x - unat y * unat ?q"
      by (simp add: minus_div_mult_eq_mod [symmetric] algebra_simps)
    ultimately have "?q = x div y" "x - y * ?q = x mod y"
      by (simp_all add: word_unat_eq_iff unat_div unat_mod r)
    with False nz show ?thesis by (simp add: idivmod_fast_def Let_def)
  qed
qed

lemma reciprocal_of_product:
  assumes "x \<noteq> 0" and "y \<noteq> 0" and fits: "unat x * unat y \<le> 2 ^ (LENGTH('a) - 1)"
  shows "imul_rcp mulhi x (rcp x) y (rcp y) = rcp (x * y)"
proof (cases "x = 1 \<or> y = 1")
  case True
  with assms(1,2) show ?thesis by (auto simp: imul_rcp_def rcp_zero_iff)
next
  case False
  let ?W = "2 ^ LENGTH('a) :: nat"
  have W: "?W = 2 * 2 ^ (LENGTH('a) - 1)" by (simp flip: power_Suc)
  have x: "2 \<le> unat x" and y: "2 \<le> unat y" using assms(1,2) False by (auto intro: two_le_unat)
  have "0 < (2 :: nat) ^ (LENGTH('a) - 1)" by simp
  then have "unat x * unat y < ?W" using fits unfolding W by linarith
  then have xy: "unat (x * y) = unat x * unat y" by (simp add: unat_word_ariths)
  let ?r = "mulhi (rcp x) (rcp y)"
  have r: "unat ?r = (?W div unat x) * (?W div unat y) div ?W"
    by (simp add: mulhi rcp_large x y)
  have low: "unat (x * y) * unat ?r \<le> ?W" and high: "?W < unat (x * y) * (unat ?r + 2)"
    unfolding r xy using reciprocal_product [OF x y, of ?W] by simp_all
  have p4: "4 \<le> unat (x * y)" unfolding xy using mult_le_mono [OF x y] by simp
  have "0 < unat ?r"
  proof (rule ccontr)
    assume "\<not> 0 < unat ?r"
    with high have "?W < 2 * unat (x * y)" by simp
    with fits W xy show False by simp
  qed
  then have "unat (x * y) * unat ?r \<noteq> 0" using p4 by simp
  then have rem: "unat (- (x * y * ?r)) = ?W - unat (x * y) * unat ?r"
  proof -
    assume pos: "unat (x * y) * unat ?r \<noteq> 0"
    have "unat (- (x * y * ?r)) = (?W - unat (x * y) * unat ?r) mod ?W"
    proof (cases "unat (x * y) * unat ?r = ?W")
      case True
      then have "x * y * ?r = 0" by (simp add: word_unat_eq_iff unat_word_ariths(2) [of "x * y"])
      with True show ?thesis by simp
    next
      case False
      with low have lt: "unat (x * y) * unat ?r < ?W" by simp
      then have "unat (x * y * ?r) = unat (x * y) * unat ?r" by (simp add: unat_word_ariths(2) [of "x * y"])
      with pos show ?thesis by (simp add: unat_negated word_unat_eq_iff)
    qed
    with pos show ?thesis by simp
  qed
  have xy2: "2 \<le> unat (x * y)" using p4 by simp
  show ?thesis
  proof (cases "x * y \<le> - x * y * ?r")
    case True
    then have "unat (x * y) * Suc (unat ?r) \<le> ?W" using low by (simp add: word_le_nat_alt rem)
    then have "?W div unat (x * y) = Suc (unat ?r)" using high by (intro div_nat_eqI) (simp_all add: algebra_simps)
    then have R: "unat (rcp (x * y)) = Suc (unat ?r)" using rcp_large [OF xy2] by simp
    have "Suc (unat ?r) < ?W" unfolding R [symmetric] by (rule unsigned_less)
    then have "unat (?r + 1) = Suc (unat ?r)" by (simp add: unat_word_ariths)
    with R have "?r + 1 = rcp (x * y)" by (simp add: word_unat_eq_iff)
    with True assms False show ?thesis by (auto simp: imul_rcp_def rcp_zero_iff Let_def)
  next
    case n: False
    then have "?W < unat (x * y) * Suc (unat ?r)" using low by (simp add: word_le_nat_alt rem)
    then have "?W div unat (x * y) = unat ?r" using low by (intro div_nat_eqI) (simp_all add: algebra_simps)
    then have "?r = rcp (x * y)" using rcp_large [OF xy2] by (simp add: word_unat_eq_iff)
    with n assms False show ?thesis by (auto simp: imul_rcp_def rcp_zero_iff Let_def)
  qed
qed

end


section \<open>The lowest bit\<close>

text \<open>\<open>x & (x - 1)\<close> clears the lowest bit of \<open>x\<close>.\<close>

lemma lowest_set_bit:
  fixes x :: "'a::len word"
  assumes "x \<noteq> 0"
  obtains k where "k < LENGTH('a)" and "bit x k" and "\<And>i. i < k \<Longrightarrow> \<not> bit x i"
    and "x AND (x - 1) = unset_bit k x"
proof -
  from assms obtain j where "bit x j" by (auto simp: bit_eq_iff)
  define k where "k = (LEAST j. bit x j)"
  have k: "bit x k" unfolding k_def using \<open>bit x j\<close> by (rule LeastI)
  have low: "\<not> bit x i" if "i < k" for i using not_less_Least that unfolding k_def by blast
  have len: "k < LENGTH('a)" using k by (rule bit_imp_le_length)
  let ?h = "unset_bit k x"
  have x: "x = ?h OR 2 ^ k" using k len by (intro bit_word_eqI) (auto simp: bit_simps)
  have "x = ?h + 2 ^ k" unfolding x [symmetric] by (subst x, rule disjunctive_add [symmetric]) (auto simp: bit_simps)
  then have "x - 1 = ?h + (2 ^ k - 1)" by simp
  also have "\<dots> = ?h + mask k" by (simp add: mask_eq_exp_minus_1)
  also have "\<dots> = ?h OR mask k" by (rule disjunctive_add) (auto simp: bit_simps low)
  finally have "x AND (x - 1) = ?h" by (intro bit_word_eqI) (auto simp: bit_simps low)
  with that len k low show thesis by blast
qed


lemma odd_dvd_power_two: "odd (m :: nat) \<Longrightarrow> m dvd 2 ^ n \<Longrightarrow> m = 1"
proof (induction n)
  case 0
  then show ?case by simp
next
  case (Suc n)
  then have "coprime m 2" by simp
  with Suc.prems(2) have "m dvd 2 ^ n" by (simp add: coprime_dvd_mult_right_iff)
  with Suc show ?case by blast
qed

lemma is_pow2_iff:
  fixes x :: "'a::len word"
  assumes "x \<noteq> 0"
  shows "is_pow2 x \<longleftrightarrow> unat x dvd 2 ^ LENGTH('a)"
proof -
  from lowest_set_bit [OF assms] obtain k where k: "k < LENGTH('a)" "bit x k" "\<And>i. i < k \<Longrightarrow> \<not> bit x i"
    and low: "x AND (x - 1) = unset_bit k x" by blast
  have pow: "unat x = 2 ^ k \<longleftrightarrow> unset_bit k x = 0"
  proof -
    have "unset_bit k x = 0 \<longleftrightarrow> x = 2 ^ k"
    proof
      assume "unset_bit k x = 0"
      moreover have "x = unset_bit k x OR 2 ^ k" using k by (intro bit_word_eqI) (auto simp: bit_simps)
      ultimately show "x = 2 ^ k" by simp
    next
      assume "x = 2 ^ k"
      then show "unset_bit k x = 0" by (intro bit_word_eqI) (auto simp: bit_simps)
    qed
    moreover have "unat (2 ^ k :: 'a word) = 2 ^ k" using k(1) by (rule unat_exp)
    ultimately show ?thesis by (metis word_unat_eq_iff)
  qed
  have "take_bit k (unat x) = 0" using k(3) by (intro bit_eqI) (simp add: bit_simps)
  then have "unat x mod 2 ^ k = 0" by (simp add: take_bit_eq_mod)
  then have split: "unat x = 2 ^ k * (unat x div 2 ^ k)" by auto
  have odd: "odd (unat x div 2 ^ k)" using k(2) by (simp add: bit_iff_odd bit_unsigned_iff flip: bit_iff_odd)
  show ?thesis
  proof
    assume "is_pow2 x"
    then have "unat x = 2 ^ k" using low pow by (simp add: is_pow2_def)
    then show "unat x dvd 2 ^ LENGTH('a)" using k(1) by (simp add: le_imp_power_dvd)
  next
    assume "unat x dvd 2 ^ LENGTH('a)"
    then have "unat x div 2 ^ k dvd 2 ^ LENGTH('a)" by (metis split dvd_trans dvd_triv_right)
    with odd have "unat x div 2 ^ k = 1" by (rule odd_dvd_power_two)
    with split have "unat x = 2 ^ k" by simp
    with low pow show "is_pow2 x" by (simp add: is_pow2_def)
  qed
qed

section \<open>The two widths\<close>

lemma mul32hi_high: "unat (mul32hi a b) = unat a * unat b div 2 ^ 32"
proof -
  have "unat a * unat b < 2 ^ 32 * 2 ^ 32"
    using unsigned_less [of a] unsigned_less [of b] by (intro mult_strict_mono) simp_all
  then have "unat (ucast a * ucast b :: u64) = unat a * unat b" by (simp add: unat_word_ariths unat_widened)
  moreover have "unat a * unat b div 2 ^ 32 < 2 ^ 32"
    using \<open>unat a * unat b < 2 ^ 32 * 2 ^ 32\<close> by (simp add: less_mult_imp_div_less)
  ultimately show ?thesis by (simp add: mul32hi_def unsigned_ucast_eq unsigned_drop_bit_eq drop_bit_eq_div take_bit_eq_mod unat_div)
qed

lemma mul64hi_high: "unat (mul64hi a b) = unat a * unat b div 2 ^ 64"
proof -
  have "unat a * unat b < 2 ^ 64 * 2 ^ 64"
    using unsigned_less [of a] unsigned_less [of b] by (intro mult_strict_mono) simp_all
  then have "unat (ucast a * ucast b :: 128 word) = unat a * unat b" by (simp add: unat_word_ariths unat_widened)
  moreover have "unat a * unat b div 2 ^ 64 < 2 ^ 64"
    using \<open>unat a * unat b < 2 ^ 64 * 2 ^ 64\<close> by (simp add: less_mult_imp_div_less)
  ultimately show ?thesis by (simp add: mul64hi_def unsigned_ucast_eq unsigned_drop_bit_eq drop_bit_eq_div take_bit_eq_mod unat_div)
qed

lemma idiv_rcp32_quotient: "unat (idiv_rcp32 y) = 2 ^ 32 div unat y mod 2 ^ 32"
proof -
  have "unat (idiv_rcp32 y) = take_bit LENGTH(32) (unat ((0x100000000 :: u64) div ucast y))"
    unfolding idiv_rcp32_def by (rule unsigned_ucast_eq)
  moreover have "unat (ucast y :: u64) = unat y" by (rule unat_widened) simp
  ultimately show ?thesis by (simp add: unat_div take_bit_eq_mod)
qed

lemma idiv_rcp64_quotient:
  assumes "y \<noteq> 0"
  shows "unat (idiv_rcp64 y) = 2 ^ 64 div unat y mod 2 ^ 64"
proof -
  have y: "0 < unat y" using assms by (simp add: unat_gt_0)
  have max: "unat (- 1 :: u64) = 2 ^ 64 - 1" by (simp add: unsigned_minus_1_eq_mask mask_eq_exp_minus_1)
  have plus: "(2 ^ 64 - 1) div unat y + (if is_pow2 y then 1 else 0) = 2 ^ 64 div unat y"
  proof (cases "is_pow2 y")
    case True
    then have "unat y dvd 2 ^ 64" using is_pow2_iff [OF assms] by simp
    then obtain m where m: "2 ^ 64 = unat y * m" ..
    then have "0 < m" by (metis gr0I mult_0_right power_eq_0_iff zero_neq_numeral)
    have "(unat y * m - 1) div unat y = m - 1"
      using y \<open>0 < m\<close> by (intro div_nat_eqI) (simp_all add: algebra_simps)
    moreover have "2 ^ 64 div unat y = m" unfolding m using y by simp
    ultimately show ?thesis using True \<open>0 < m\<close> unfolding m by simp
  next
    case False
    then have "\<not> unat y dvd 2 ^ 64" using is_pow2_iff [OF assms] by simp
    then have "0 < 2 ^ 64 mod unat y" by (simp add: mod_greater_zero_iff_not_dvd)
    have "(2 ^ 64 - 1) div unat y = 2 ^ 64 div unat y"
    proof (rule div_nat_eqI)
      have "2 ^ 64 div unat y * unat y + 2 ^ 64 mod unat y = (2 :: nat) ^ 64" by (rule div_mult_mod_eq)
      with \<open>0 < 2 ^ 64 mod unat y\<close> show "unat y * (2 ^ 64 div unat y) \<le> 2 ^ 64 - 1"
        unfolding mult.commute [of "unat y"] by linarith
      have "(2 :: nat) ^ 64 < unat y + 2 ^ 64 div unat y * unat y" using y by (rule dividend_less_div_times)
      then show "2 ^ 64 - 1 < unat y * Suc (2 ^ 64 div unat y)"
        unfolding mult_Suc_right mult.commute [of "unat y"] by linarith
    qed
    with False show ?thesis by simp
  qed
  have "unat (- 1 div y) = (2 ^ 64 - 1) div unat y" by (simp only: unat_div max)
  moreover have "(2 ^ 64 - 1) div unat y < (2 :: nat) ^ 64" by (rule le_less_trans [OF div_le_dividend]) simp
  ultimately have "unat (idiv_rcp64 y) = ((2 ^ 64 - 1) div unat y + (if is_pow2 y then 1 else 0)) mod 2 ^ 64"
    unfolding idiv_rcp64_def by (cases "is_pow2 y") (simp_all add: unat_word_ariths(1))
  then show ?thesis unfolding plus .
qed

interpretation narrow: reciprocal mul32hi idiv_rcp32
  by unfold_locales (simp_all only: mul32hi_high idiv_rcp32_quotient len_of_numeral_defs, simp_all)

interpretation wide: reciprocal mul64hi idiv_rcp64
  by unfold_locales (simp_all add: mul64hi_high idiv_rcp64_quotient)

text \<open>C40. Division by a precomputed reciprocal is division: for every dividend and every divisor but zero,
  \<open>idivmodFast\<close> with \<open>idivRcp\<close> of the divisor returns the exact quotient and remainder, at both widths.\<close>

theorem fast_division_is_exact:
  assumes "y \<noteq> 0" and "y' \<noteq> 0"
  shows "idivmod_fast32 x y (idiv_rcp32 y) = (x div y, x mod y) \<and>
    idivmod_fast64 x' y' (idiv_rcp64 y') = (x' div y', x' mod y')"
  unfolding idivmod_fast32_def idivmod_fast64_def
  using narrow.fast_division [OF assms(1)] wide.fast_division [OF assms(2)] by blast

theorem fast_division_is_exact_witness: "idivmod_fast32 100 7 (idiv_rcp32 7) = (14, 2)"
  using fast_division_is_exact [of 7 1 100 0] by simp

text \<open>Reciprocals multiply: as long as the product of the divisors is at most half of the range,
  \<open>imulRcp\<close> computes from their reciprocals the reciprocal of the product.\<close>

theorem reciprocal_of_product_is_exact:
  assumes "x \<noteq> 0" "y \<noteq> 0" "unat x * unat y \<le> 2 ^ 31"
    and "x' \<noteq> 0" "y' \<noteq> 0" "unat x' * unat y' \<le> 2 ^ 63"
  shows "imul_rcp32 x (idiv_rcp32 x) y (idiv_rcp32 y) = idiv_rcp32 (x * y) \<and>
    imul_rcp64 x' (idiv_rcp64 x') y' (idiv_rcp64 y') = idiv_rcp64 (x' * y')"
  unfolding imul_rcp32_def imul_rcp64_def
  using narrow.reciprocal_of_product [of x y] wide.reciprocal_of_product [of x' y'] assms by simp

theorem reciprocal_of_product_is_exact_witness:
  "imul_rcp32 12 (idiv_rcp32 12) 8 (idiv_rcp32 8) = idiv_rcp32 96"
  using reciprocal_of_product_is_exact [of 12 8 1 1] by simp

text \<open>Beyond that bound the product is lost: with divisors 3 and 1400000000, whose product fits,
  \<open>imulRcp32\<close> returns 0, which \<open>idivmodFast32\<close> takes for the reciprocal of 1, so that 7 divided by 4200000000 is 7.\<close>

theorem large_product_has_no_reciprocal:
  "imul_rcp32 3 (idiv_rcp32 3) 1400000000 (idiv_rcp32 1400000000) = 0 \<and> idiv_rcp32 (3 * 1400000000) = 1 \<and>
   idiv_fast32 7 (3 * 1400000000) (imul_rcp32 3 (idiv_rcp32 3) 1400000000 (idiv_rcp32 1400000000)) = 7"
  by (simp add: imul_rcp32_def imul_rcp_def idiv_rcp32_def mul32hi_def idiv_fast32_def idivmod_fast32_def idivmod_fast_def)

text \<open>The 64-bit quotient is cut to 32 bits: \<open>idivFast64\<close> is declared to return \<open>uint32_t\<close>, so it is not
  the quotient its comment promises once that does not fit.\<close>

theorem fast_quotient_is_truncated:
  "(idiv_fast64 x 1 (idiv_rcp64 1) = ucast x) \<and> idiv_fast64 0x100000000 1 (idiv_rcp64 1) = 0"
  using wide.fast_division [of 1] by (simp add: idiv_fast64_def idivmod_fast64_def)

end
