(* ===== verification/Bitops.thy ===== *)
theory Bitops
  imports FastDivision
begin

text \<open>
  The rest of \<open>src/include/bitops.h\<close>: rounding, positions of bits, logarithms and the reversal of bits.

  A template over an integer type is a definition on words of any length.  The compiler's \<open>clz\<close>,
  \<open>ffs\<close>, \<open>popcount\<close> and \<open>bswap\<close> are defined by the positions of the bits they count or move; \<open>clz\<close> is only
  called on values that are not 0.  A shift by at least the width is undefined in the source.
\<close>

section \<open>Rounding\<close>

definition div_up :: "'a::len word \<Rightarrow> 'a word \<Rightarrow> 'a word" where
  "div_up x y = (x + y - 1) div y"

definition round_up :: "'a::len word \<Rightarrow> 'a word \<Rightarrow> 'a word" where
  "round_up x y = (x + y - 1) - (x + y - 1) mod y"

definition round_down :: "'a::len word \<Rightarrow> 'a word \<Rightarrow> 'a word" where
  "round_down x y = x - x mod y"

definition align_down :: "'a::len word \<Rightarrow> 'a word \<Rightarrow> 'a word" where
  "align_down x a = x AND (- a)"

section \<open>Positions of bits\<close>

definition popcount :: "'a::len word \<Rightarrow> nat" where
  "popcount x = length (filter (bit x) [0..<LENGTH('a)])"

definition ffs :: "'a::len word \<Rightarrow> nat" where
  "ffs x = (case find_index (bit x) [0..<LENGTH('a)] of None \<Rightarrow> 0 | Some i \<Rightarrow> Suc i)"

definition clz :: "'a::len word \<Rightarrow> nat" where
  "clz x = (case find_index (\<lambda>i. bit x (LENGTH('a) - 1 - i)) [0..<LENGTH('a)] of
     None \<Rightarrow> LENGTH('a) | Some i \<Rightarrow> i)"

definition count_one_bits :: "'a::len word \<Rightarrow> int" where
  "count_one_bits x = int (popcount x)"

definition first_one_bit :: "'a::len word \<Rightarrow> int" where
  "first_one_bit m = int (ffs m) - 1"

text \<open>The index, and the mask written back.\<close>

definition pop_first_one_bit :: "'a::len word \<Rightarrow> int \<times> 'a word" where
  "pop_first_one_bit m = (first_one_bit m, m AND (m - 1))"

definition log2_down :: "'a::len word \<Rightarrow> int" where
  "log2_down x = (if x = 0 then - 1 else int LENGTH('a) - 1 - int (clz x))"

definition log2_up :: "'a::len word \<Rightarrow> int" where
  "log2_up x = (let x = (if x \<noteq> 0 then x - 1 else x) in
     if x = 0 then 0 else int LENGTH('a) - int (clz x))"

definition pow2_up :: "'a::len word \<Rightarrow> 'a word" where
  "pow2_up x = push_bit (nat (log2_up x)) 1"

definition pow2_down :: "'a::len word \<Rightarrow> 'a word" where
  "pow2_down x = push_bit (nat (log2_down x)) 1"

text \<open>The loop the callers of \<open>popFirstOneBit\<close> write: until the mask is empty.\<close>

lemma cleared_less:
  fixes x :: "'a::len word"
  assumes "x \<noteq> 0"
  shows "unat (x AND (x - 1)) < unat x"
proof -
  have "x AND (x - 1) \<le> x - 1" by (rule word_and_le1)
  also have "x - 1 < x" using assms by (simp add: word_less_nat_alt unat_minus_one unat_gt_0)
  finally show ?thesis by (simp add: word_less_nat_alt)
qed

function pop_all :: "'a::len word \<Rightarrow> int list" where
  "pop_all m = (if m = 0 then [] else let (i, m') = pop_first_one_bit m in i # pop_all m')"
  by auto
termination
  by (relation "measure unat") (simp_all add: pop_first_one_bit_def cleared_less)

declare pop_all.simps [simp del]

lemma pop_all_bits:
  fixes m :: "'a::len word"
  shows "pop_all m = map int (filter (bit m) [0..<LENGTH('a)])"
proof (induction m rule: pop_all.induct)
  case (1 m)
  show ?case
  proof (cases "m = 0")
    case True
    then show ?thesis by (simp add: pop_all.simps)
  next
    case False
    from lowest_set_bit [OF False] obtain k where k: "k < LENGTH('a)" "bit m k" "\<And>i. i < k \<Longrightarrow> \<not> bit m i"
      and cleared: "m AND (m - 1) = unset_bit k m" by blast
    have "find_index (bit m) [0..<LENGTH('a)] = Some k" using k by (simp add: find_index_Some_iff)
    then have first: "first_one_bit m = int k" by (simp add: first_one_bit_def ffs_def)
    have split: "[0..<LENGTH('a)] = [0..<k] @ k # [Suc k..<LENGTH('a)]"
      using k(1) by (metis le_add_same_cancel1 less_imp_le_nat upt_conv_Cons upt_add_eq_append zero_le le_add_diff_inverse)
    have none: "filter (bit m) [0..<k] = []" "filter (bit (unset_bit k m)) [0..<k] = []"
      using k(3) by (auto simp: filter_empty_conv bit_simps)
    have same: "filter (bit (unset_bit k m)) [Suc k..<LENGTH('a)] = filter (bit m) [Suc k..<LENGTH('a)]"
      by (rule filter_cong) (auto simp: bit_simps)
    have "pop_all m = int k # pop_all (unset_bit k m)"
      using False by (subst pop_all.simps) (simp add: pop_first_one_bit_def first cleared)
    also have "pop_all (unset_bit k m) = map int (filter (bit (unset_bit k m)) [0..<LENGTH('a)])"
      using 1 [OF False refl] by (simp add: pop_first_one_bit_def cleared)
    finally show ?thesis
      unfolding split using k(2) by (simp add: none same bit_simps)
  qed
qed

text \<open>Popping bits until the mask is empty yields the positions of exactly its one bits, in ascending
  order, and as many as \<open>countOneBits\<close> counts.\<close>

theorem pop_first_one_bit_enumerates:
  "pop_all m = map int (filter (bit m) [0..<LENGTH('a)]) \<and> int (length (pop_all m)) = count_one_bits m"
  for m :: "'a::len word"
  by (simp add: pop_all_bits count_one_bits_def popcount_def)

section \<open>Logarithms\<close>

lemma highest_bit:
  fixes x :: "'a::len word"
  assumes "x \<noteq> 0"
  obtains k where "k < LENGTH('a)" and "clz x = LENGTH('a) - 1 - k" and "2 ^ k \<le> unat x" and "unat x < 2 ^ Suc k"
proof -
  let ?top = "\<lambda>i. bit x (LENGTH('a) - 1 - i)"
  have "find_index ?top [0..<LENGTH('a)] \<noteq> None"
  proof
    assume "find_index ?top [0..<LENGTH('a)] = None"
    then have none: "\<forall>i < LENGTH('a). \<not> ?top i" by (simp add: find_index_None)
    have "\<not> bit x j" if "j < LENGTH('a)" for j using none [rule_format, of "LENGTH('a) - 1 - j"] that by simp
    with assms show False by (simp add: bit_eq_iff)
  qed
  then obtain i where found: "find_index ?top [0..<LENGTH('a)] = Some i" by blast
  have i: "clz x = i" unfolding clz_def found by simp
  have i: "clz x = i" "i < LENGTH('a)" "?top i" "\<And>j. j < i \<Longrightarrow> \<not> ?top j"
    using i find_index_SomeD [OF found] by auto
  let ?k = "LENGTH('a) - 1 - i"
  have above: "\<not> bit x j" if "?k < j" for j
  proof
    assume "bit x j"
    then have "j < LENGTH('a)" by (rule bit_imp_le_length)
    with that have "LENGTH('a) - 1 - j < i" by simp
    from i(4) [OF this] \<open>j < LENGTH('a)\<close> \<open>bit x j\<close> show False by simp
  qed
  then have "bit x j \<Longrightarrow> j < Suc ?k" for j by (metis not_less_eq)
  then have "take_bit (Suc ?k) x = x" by (intro bit_word_eqI) (auto simp: bit_simps)
  then have "take_bit (Suc ?k) (unat x) = unat x" by (metis unsigned_take_bit_eq)
  then have "unat x < 2 ^ Suc ?k" by (metis take_bit_nat_less_exp)
  moreover have "2 ^ ?k \<le> unat x"
  proof (rule ccontr)
    assume "\<not> 2 ^ ?k \<le> unat x"
    then have "take_bit ?k (unat x) = unat x" by (simp add: take_bit_nat_eq_self)
    then have "bit (unat x) ?k = bit (take_bit ?k (unat x)) ?k" by simp
    then have "\<not> bit (unat x) ?k" by (simp add: bit_simps)
    with i(3) show False by (simp add: bit_simps)
  qed
  moreover have "clz x = LENGTH('a) - 1 - ?k" "?k < LENGTH('a)" using i(1,2) by simp_all
  ultimately show thesis using that by blast
qed

lemma log2_down_bounds:
  fixes x :: "'a::len word"
  assumes "x \<noteq> 0"
  obtains k where "log2_down x = int k" and "k < LENGTH('a)" and "2 ^ k \<le> unat x" and "unat x < 2 ^ Suc k"
proof -
  from highest_bit [OF assms] obtain k where k: "k < LENGTH('a)" "clz x = LENGTH('a) - 1 - k" "2 ^ k \<le> unat x"
    "unat x < 2 ^ Suc k" by blast
  then have "log2_down x = int k" using assms by (simp add: log2_down_def of_nat_diff)
  with k that show thesis by blast
qed


lemma log2_up_bounds:
  fixes x :: "'a::len word"
  assumes "2 \<le> unat x"
  obtains k where "log2_up x = int (Suc k)" and "k < LENGTH('a)" and "2 ^ k < unat x" and "unat x \<le> 2 ^ Suc k"
proof -
  have x: "x \<noteq> 0" using assms by auto
  then have pred: "unat (x - 1) = unat x - 1" by (simp add: unat_minus_one)
  then have "x - 1 \<noteq> 0" using assms by (simp add: word_unat_eq_iff)
  from highest_bit [OF this] obtain k where k: "k < LENGTH('a)" "clz (x - 1) = LENGTH('a) - 1 - k"
    "2 ^ k \<le> unat (x - 1)" "unat (x - 1) < 2 ^ Suc k" by blast
  have "log2_up x = int (Suc k)" using x \<open>x - 1 \<noteq> 0\<close> k(1,2) by (simp add: log2_up_def Let_def of_nat_diff)
  moreover have "2 ^ k < unat x" "unat x \<le> 2 ^ Suc k" using k(3,4) assms unfolding pred by linarith+
  ultimately show thesis using k(1) that by blast
qed

lemma log2_up_one: "log2_up 1 = 0" "log2_up 0 = 0"
  by (simp_all add: log2_up_def)

lemma log2_down_tight:
  fixes x :: "'a::len word"
  assumes "x \<noteq> 0"
  defines "d \<equiv> nat (log2_down x)"
  shows "log2_down x = int d \<and> 2 ^ d \<le> unat x \<and> unat x < 2 ^ Suc d \<and> unat (pow2_down x) = 2 ^ d"
proof -
  from log2_down_bounds [OF assms(1)] obtain k where k: "log2_down x = int k" "k < LENGTH('a)" "2 ^ k \<le> unat x"
    "unat x < 2 ^ Suc k" by blast
  then show ?thesis by (simp add: d_def pow2_down_def push_bit_eq_mult unat_exp)
qed

lemma log2_up_tight:
  fixes x :: "'a::len word"
  assumes "x \<noteq> 0"
  defines "u \<equiv> nat (log2_up x)"
  shows "log2_up x = int u \<and> unat x \<le> 2 ^ u \<and> (0 < u \<longrightarrow> 2 ^ (u - 1) < unat x) \<and>
    (unat x \<le> 2 ^ (LENGTH('a) - 1) \<longrightarrow> unat (pow2_up x) = 2 ^ u)"
proof (cases "x = 1")
  case True
  then show ?thesis by (simp add: u_def pow2_up_def log2_up_one)
next
  case False
  with assms(1) have "2 \<le> unat x" by (rule two_le_unat)
  from log2_up_bounds [OF this] obtain k where k: "log2_up x = int (Suc k)" "2 ^ k < unat x"
    "unat x \<le> 2 ^ Suc k" by blast
  have "Suc k < LENGTH('a)" if "unat x \<le> 2 ^ (LENGTH('a) - 1)"
  proof -
    have "(2 :: nat) ^ k < 2 ^ (LENGTH('a) - 1)" using k(2) that by (rule less_le_trans)
    then have "k < LENGTH('a) - 1" by (rule power_less_imp_less_exp [rotated]) simp
    then show ?thesis by simp
  qed
  then have "unat x \<le> 2 ^ (LENGTH('a) - 1) \<Longrightarrow> unat (2 ^ Suc k :: 'a word) = 2 ^ Suc k" by (rule unat_exp)
  with k show ?thesis by (simp add: u_def pow2_up_def push_bit_eq_mult nat_add_distrib)
qed

text \<open>The logarithms: for every number from 1 on, \<open>log2Down\<close> and \<open>log2Up\<close> return the exponents of the
  powers of two that enclose it most tightly from below and from above, and \<open>pow2Down\<close> and \<open>pow2Up\<close>
  those powers, the latter as long as it fits.\<close>

theorem logarithms_are_tight:
  fixes x :: "'a::len word"
  assumes "x \<noteq> 0"
  shows "(let d = nat (log2_down x) in log2_down x = int d \<and> 2 ^ d \<le> unat x \<and> unat x < 2 ^ Suc d \<and>
      unat (pow2_down x) = 2 ^ d) \<and>
    (let u = nat (log2_up x) in log2_up x = int u \<and> unat x \<le> 2 ^ u \<and> (0 < u \<longrightarrow> 2 ^ (u - 1) < unat x) \<and>
      (unat x \<le> 2 ^ (LENGTH('a) - 1) \<longrightarrow> unat (pow2_up x) = 2 ^ u))"
  using log2_down_tight [OF assms] log2_up_tight [OF assms] by (simp add: Let_def)

theorem logarithms_are_tight_witness:
  "2 ^ nat (log2_down (20 :: u32)) \<le> (20 :: nat) \<and> (20 :: nat) \<le> 2 ^ nat (log2_up (20 :: u32))"
  using logarithms_are_tight [of "20 :: u32"] by (simp add: Let_def)

section \<open>Reversal\<close>

definition bswap :: "'a::len word \<Rightarrow> 'a word" where
  "bswap x = foldr (\<lambda>i y. push_bit (LENGTH('a) - 8 - 8 * i) (take_bit 8 (drop_bit (8 * i) x)) OR y)
     [0..<LENGTH('a) div 8] 0"

text \<open>The step that exchanges neighbouring groups of \<open>n / 2\<close> bits.\<close>

definition swap_groups :: "nat \<Rightarrow> 'a::len word \<Rightarrow> 'a word" where
  "swap_groups n x = (let m = - 1 div (push_bit (n div 2) 1 + 1)
     in push_bit (n div 2) (x AND m) OR drop_bit (n div 2) (x AND NOT m))"

function reverse_sub_bits :: "nat \<Rightarrow> 'a::len word \<Rightarrow> 'a word" where
  "reverse_sub_bits n x =
     (if 16 \<le> n \<and> LENGTH('a) = n then reverse_sub_bits 8 (bswap x)
      else if n \<le> 1 then x
      else reverse_sub_bits (n div 2) (swap_groups n x))"
  by auto
termination
  by (relation "measure fst") auto

declare reverse_sub_bits.simps [simp del]

definition reverse_bits :: "'a::len word \<Rightarrow> nat \<Rightarrow> 'a word" where
  "reverse_bits x nBits =
     (if nBits = 0 then 0 else drop_bit (LENGTH('a) - nBits) (reverse_sub_bits LENGTH('a) x))"

text \<open>The mask of \<open>swapGroups\<close> has the even groups.\<close>

definition even_groups :: "nat \<Rightarrow> 'a::len word \<Rightarrow> bool" where
  "even_groups h m \<longleftrightarrow> (\<forall>j < LENGTH('a). bit m j = even (j div h))"

lemma swap_groups_bit:
  fixes x :: "'a::len word"
  assumes "even_groups h (- 1 div (push_bit h 1 + 1) :: 'a word)" and "2 * h dvd LENGTH('a)" and "0 < h"
    and j: "j < LENGTH('a)"
  shows "bit (swap_groups (2 * h) x) j = bit x (if even (j div h) then j + h else j - h)"
proof -
  let ?m = "- 1 div (push_bit h 1 + 1) :: 'a word"
  have up: "(j + h) div h = Suc (j div h)" using assms(3) by (simp add: div_add_self2)
  have bits: "bit (swap_groups (2 * h) x) j =
      (h \<le> j \<and> bit x (j - h) \<and> bit ?m (j - h) \<or> bit x (j + h) \<and> \<not> bit ?m (j + h) \<and> j + h < LENGTH('a))"
    using j by (auto simp: swap_groups_def Let_def bit_simps add.commute dest: bit_imp_le_length)
  show ?thesis
  proof (cases "even (j div h)")
    case True
    have "\<not> bit ?m (j - h)" if "h \<le> j"
    proof -
      have "j div h = Suc ((j - h) div h)" using that assms(3) by (simp add: le_div_geq)
      then have "odd ((j - h) div h)" using True by simp
      then show ?thesis using assms(1) j by (simp add: even_groups_def)
    qed
    moreover have "j + h < LENGTH('a) \<Longrightarrow> \<not> bit ?m (j + h)" using assms(1) True up by (simp add: even_groups_def)
    ultimately show ?thesis using True unfolding bits by (auto dest: bit_imp_le_length)
  next
    case False
    then have "h \<le> j" using div_less [of j h] by (metis even_zero not_le)
    moreover have "j div h = Suc ((j - h) div h)" using \<open>h \<le> j\<close> assms(3) by (simp add: le_div_geq)
    then have "bit ?m (j - h)" using assms(1) False j by (simp add: even_groups_def)
    moreover have "j + h < LENGTH('a) \<Longrightarrow> bit ?m (j + h)" using assms(1) False up by (simp add: even_groups_def)
    ultimately show ?thesis using False unfolding bits by auto
  qed
qed


lemma even_groups_list:
  "even_groups h (m :: 'a::len word) = list_all (\<lambda>j. bit m j = even (j div h)) [0..<LENGTH('a)]"
  by (auto simp: even_groups_def list_all_iff)

lemma drop_flip: "k < 3 \<Longrightarrow> flip_bit k j div 8 = j div 8" for j :: nat
proof -
  assume "k < 3"
  then have "drop_bit 3 (flip_bit k j) = drop_bit 3 j" by (intro bit_eqI) (auto simp: bit_simps)
  then show ?thesis by (simp add: drop_bit_eq_div)
qed

lemma take_flip: "k < 3 \<Longrightarrow> flip_bit k j mod 8 = flip_bit k (j mod 8)" for j :: nat
proof -
  assume "k < 3"
  then have "take_bit 3 (flip_bit k j) = flip_bit k (take_bit 3 j)" by (intro bit_eqI) (auto simp: bit_simps)
  then show ?thesis by (simp add: take_bit_eq_mod)
qed

text \<open>The index the three exchanges within a byte lead to.\<close>

definition byte_reversed :: "nat \<Rightarrow> nat" where
  "byte_reversed j = flip_bit 2 (flip_bit 1 (flip_bit 0 j))"

lemma byte_reversed_div: "byte_reversed j div 8 = j div 8"
  by (simp add: byte_reversed_def drop_flip)

lemma byte_reversed_mod: "byte_reversed j mod 8 = 7 - j mod 8"
proof -
  have "byte_reversed j mod 8 = byte_reversed (j mod 8)" by (simp add: byte_reversed_def take_flip)
  moreover have "list_all (\<lambda>r. byte_reversed r = 7 - r) [0..<8]" by code_simp
  then have "byte_reversed (j mod 8) = 7 - j mod 8" by (simp add: list_all_iff)
  ultimately show ?thesis by simp
qed

lemma flip_less: "k < 3 \<Longrightarrow> j < 8 * n \<Longrightarrow> flip_bit k j < 8 * n" for j :: nat
proof -
  assume k: "k < 3" and "j < 8 * n"
  then have "j div 8 < n" by (simp add: less_mult_imp_div_less mult.commute)
  then have "flip_bit k j div 8 < n" using k by (simp add: drop_flip)
  then show ?thesis by (simp add: div_less_iff_less_mult mult.commute)
qed

text \<open>Words whose three masks are right: checked at every width the code supports.\<close>

definition groups_ok :: "'a::len itself \<Rightarrow> bool" where
  "groups_ok t \<longleftrightarrow> 8 dvd LENGTH('a) \<and> (\<forall>h \<in> {1, 2, 4}. even_groups h (- 1 div (push_bit h 1 + 1) :: 'a word))"

lemma groups_ok_all: "groups_ok TYPE(8)" "groups_ok TYPE(16)" "groups_ok TYPE(32)" "groups_ok TYPE(64)"
  unfolding groups_ok_def even_groups_list by code_simp+

lemma reverse_in_bytes:
  fixes x :: "'a::len word"
  assumes ok: "groups_ok TYPE('a)" and j: "j < LENGTH('a)"
  shows "bit (reverse_sub_bits 8 x) j = bit x (byte_reversed j)"
proof -
  from ok obtain n where n: "LENGTH('a) = 8 * n" unfolding groups_ok_def dvd_def by blast
  have masks: "even_groups h (- 1 div (push_bit h 1 + 1) :: 'a word)" if "h \<in> {1, 2, 4}" for h
    using ok that unfolding groups_ok_def by blast
  have step: "bit (swap_groups (2 * 2 ^ k) y) i = bit y (flip_bit k i)"
    if "k < 3" and "i < LENGTH('a)" for k i and y :: "'a word"
  proof -
    have "k = 0 \<or> k = 1 \<or> k = 2" using that(1) by linarith
    then have h: "(2 :: nat) ^ k \<in> {1, 2, 4}" "2 * 2 ^ k dvd LENGTH('a)" unfolding n by auto
    have "set_bit k (unset_bit k i) = set_bit k i" by (rule bit_eqI) (auto simp: bit_simps)
    moreover have "bit i k \<Longrightarrow> set_bit k i = i" by (rule bit_eqI) (auto simp: bit_simps)
    ultimately have "bit i k \<Longrightarrow> unset_bit k i + 2 ^ k = i" by (simp add: set_bit_eq bit_simps)
    then have "flip_bit k i = (if even (i div 2 ^ k) then i + 2 ^ k else i - 2 ^ k)"
      by (auto simp: flip_bit_eq_if set_bit_eq bit_iff_odd)
    then show ?thesis using swap_groups_bit [OF masks [OF h(1)] h(2) _ that(2)] by simp
  qed
  have "reverse_sub_bits 8 x = swap_groups (2 * 2 ^ 0) (swap_groups (2 * 2 ^ 1) (swap_groups (2 * 2 ^ 2) x))"
    by (simp add: reverse_sub_bits.simps)
  then show ?thesis
    using step [of 0 j] step [of 1 "flip_bit 0 j"] step [of 2 "flip_bit 1 (flip_bit 0 j)"] flip_less [of _ _ n] j
    by (simp add: n byte_reversed_def)
qed

lemma bit_foldr_or: "bit (foldr (\<lambda>i y. f i OR y) xs (0 :: 'a::len word)) j = (\<exists>i \<in> set xs. bit (f i) j)"
  by (induction xs) (auto simp: bit_simps)

lemma same_byte: "r < 8 \<Longrightarrow> 8 * m \<le> 8 * q + r \<and> 8 * q + r - 8 * m < 8 \<longleftrightarrow> m = q" for m q r :: nat
proof
  assume r: "r < 8" and "8 * m \<le> 8 * q + r \<and> 8 * q + r - 8 * m < 8"
  then have "8 * m \<le> 8 * q + r" "8 * q + r < 8 * m + 8" by linarith+
  with r show "m = q" by linarith
qed simp

lemma mirrored: "j = 8 * q + r \<Longrightarrow> r < 8 \<Longrightarrow> 8 * (q + 1 + m) - 1 - j = 8 * m + (7 - r)" for j q r m :: nat
  by simp

lemma bswap_bit:
  fixes x :: "'a::len word"
  assumes n: "LENGTH('a) = 8 * n" and j: "j < 8 * n"
  shows "bit (bswap x) j = bit x (8 * (n - 1 - j div 8) + j mod 8)"
proof -
  let ?f = "\<lambda>i. push_bit (8 * n - 8 - 8 * i) (take_bit 8 (drop_bit (8 * i) x))"
  have f: "bit (?f i) j = (i = n - 1 - j div 8 \<and> bit x (8 * i + j mod 8))" if i: "i < n" for i
  proof -
    define q where "q = j div 8"
    define r where "r = j mod 8"
    have jq: "j = 8 * q + r" "r < 8" by (simp_all add: q_def r_def)
    obtain m where m: "n = i + 1 + m" using i by (metis Suc_eq_plus1 less_iff_Suc_add add_Suc_right add.commute)
    have shift: "8 * n - 8 - 8 * i = 8 * m" by (simp add: m)
    have "bit (?f i) j = (8 * m \<le> j \<and> j - 8 * m < 8 \<and> bit x (8 * i + (j - 8 * m)))"
      unfolding shift using j n by (simp add: bit_simps)
    moreover have "8 * m \<le> j \<and> j - 8 * m < 8 \<longleftrightarrow> m = q" unfolding jq(1) using jq(2) by (rule same_byte)
    moreover have "q < n" using j unfolding q_def by (simp add: less_mult_imp_div_less mult.commute)
    then have "i = n - 1 - q \<longleftrightarrow> m = q" unfolding m by auto
    moreover have "j - 8 * q = r" by (simp add: jq(1))
    ultimately show ?thesis unfolding q_def [symmetric] r_def [symmetric] by auto
  qed
  have "bit (bswap x) j = (\<exists>i < n. bit (?f i) j)"
    unfolding bswap_def n bit_foldr_or by auto
  also have "\<dots> = bit x (8 * (n - 1 - j div 8) + j mod 8)"
  proof -
    have "n - 1 - j div 8 < n" using j by simp
    then show ?thesis using f by blast
  qed
  finally show ?thesis .
qed

lemma reverse_sub_bits_bit:
  fixes x :: "'a::len word"
  assumes ok: "groups_ok TYPE('a)" and j: "j < LENGTH('a)"
  shows "bit (reverse_sub_bits LENGTH('a) x) j = bit x (LENGTH('a) - 1 - j)"
proof -
  from ok obtain n where n: "LENGTH('a) = 8 * n" unfolding groups_ok_def dvd_def by blast
  have n0: "0 < n" using j n by simp
  show ?thesis
  proof (cases "LENGTH('a) = 8")
    case True
    then have "byte_reversed j = 7 - j"
      using j byte_reversed_div [of j] byte_reversed_mod [of j] by (metis div_less mod_less mod_less_eq_dividend add_0 mult_0_right mult_div_mod_eq)
    with reverse_in_bytes [OF ok j] True show ?thesis by simp
  next
    case False
    then have "n \<noteq> 1" using n by simp
    then have "16 \<le> LENGTH('a)" using n n0 by simp
    then have rev: "reverse_sub_bits LENGTH('a) x = reverse_sub_bits 8 (bswap x)"
      by (subst reverse_sub_bits.simps) simp
    have q: "j div 8 < n" using j n by (simp add: less_mult_imp_div_less mult.commute)
    then have "byte_reversed j div 8 < n" by (simp add: byte_reversed_div)
    then have "byte_reversed j < 8 * n" by (simp add: div_less_iff_less_mult mult.commute)
    from bswap_bit [OF n this] have "bit (bswap x) (byte_reversed j) = bit x (8 * (n - 1 - j div 8) + (7 - j mod 8))"
      by (simp add: byte_reversed_div byte_reversed_mod)
    moreover have "8 * (n - 1 - j div 8) + (7 - j mod 8) = 8 * n - 1 - j"
    proof -
      obtain m where m: "n = j div 8 + 1 + m" using q by (metis less_iff_Suc_add Suc_eq_plus1 add_Suc_right add.commute)
      have "j = 8 * (j div 8) + j mod 8" "j mod 8 < 8" by simp_all
      then have "8 * (j div 8 + 1 + m) - 1 - j = 8 * m + (7 - j mod 8)" by (rule mirrored)
      moreover have "j div 8 + 1 + m - 1 - j div 8 = m" by simp
      ultimately show ?thesis using m by simp
    qed
    ultimately show ?thesis using reverse_in_bytes [OF ok j, of "bswap x"] by (simp add: n rev [unfolded n])
  qed
qed

lemma reverse_bits_bit:
  fixes x :: "'a::len word"
  assumes "groups_ok TYPE('a)" and "nBits \<le> LENGTH('a)"
  shows "bit (reverse_bits x nBits) i = (i < nBits \<and> bit x (nBits - 1 - i))"
proof (cases "i < nBits")
  case True
  then have "LENGTH('a) - nBits + i < LENGTH('a)" using assms(2) by simp
  moreover have "LENGTH('a) - 1 - (LENGTH('a) - nBits + i) = nBits - 1 - i" using assms(2) True by simp
  ultimately show ?thesis using True reverse_sub_bits_bit [OF assms(1), of "LENGTH('a) - nBits + i" x]
    by (simp add: reverse_bits_def bit_simps)
next
  case False
  then show ?thesis using assms(2) by (auto simp: reverse_bits_def bit_simps dest: bit_imp_le_length)
qed

text \<open>Bit reversal: at each of the four widths the recursion of byte swaps and masked group exchanges puts
  bit \<open>nBits - 1 - i\<close> of the argument at position \<open>i\<close>, and zeros above.\<close>

theorem reverse_bits_reverses:
  assumes "nBits \<le> 8"
  shows "bit (reverse_bits (x8 :: 8 word) nBits) i = (i < nBits \<and> bit x8 (nBits - 1 - i)) \<and>
    (k \<le> 16 \<longrightarrow> bit (reverse_bits (x16 :: 16 word) k) i = (i < k \<and> bit x16 (k - 1 - i))) \<and>
    (k \<le> 32 \<longrightarrow> bit (reverse_bits (x32 :: 32 word) k) i = (i < k \<and> bit x32 (k - 1 - i))) \<and>
    (k \<le> 64 \<longrightarrow> bit (reverse_bits (x64 :: 64 word) k) i = (i < k \<and> bit x64 (k - 1 - i)))"
  using assms by (simp add: reverse_bits_bit groups_ok_all)

theorem reverse_bits_reverses_witness: "bit (reverse_bits (1 :: 8 word) 3) 2"
  using reverse_bits_reverses [of 3 "1 :: 8 word" 2] by simp

end
