(* ===== verification/BitCodes.thy ===== *)
theory BitCodes
  imports Bitops
begin

text \<open>
  The codes of \<open>src/include/bitops.h\<close>: pointers that move in units of 4 GB within a window, the 8-bit
  floating point format that approximates chunk sizes, and the hash of byte strings.  The union of
  a 64-bit value with two 32-bit halves is little-endian, as are the chunks \<open>memcpy\<close> reads.
\<close>

section \<open>Pointers in units of 4 GB\<close>

definition high_half :: "u64 \<Rightarrow> u32" where
  "high_half p = ucast (drop_bit 32 p)"

definition with_high_half :: "u64 \<Rightarrow> u32 \<Rightarrow> u64" where
  "with_high_half p h = take_bit 32 p OR push_bit 32 (ucast h)"

definition add_4g :: "u64 \<Rightarrow> int \<Rightarrow> u64" where
  "add_4g base delta4G = with_high_half base (high_half base + word_of_int delta4G)"

definition inc_wrap_4g :: "u64 \<Rightarrow> u32 \<Rightarrow> u32 \<Rightarrow> u32 \<Rightarrow> u64" where
  "inc_wrap_4g p delta4G lo4G hi4G =
     (let h = high_half p + delta4G
      in with_high_half p (if h \<ge> hi4G then h - (hi4G - lo4G) else h))"

definition dec_wrap_4g :: "u64 \<Rightarrow> u32 \<Rightarrow> u32 \<Rightarrow> u32 \<Rightarrow> u64" where
  "dec_wrap_4g p delta4G lo4G hi4G =
     (let h = high_half p - delta4G
      in with_high_half p (if h < lo4G then h + (hi4G - lo4G) else h))"

lemma high_with_high [simp]: "high_half (with_high_half p h) = h"
  by (rule bit_word_eqI) (auto simp: high_half_def with_high_half_def bit_simps dest: bit_imp_le_length)

lemma with_high_twice [simp]: "with_high_half (with_high_half p h) h' = with_high_half p h'"
  by (rule bit_word_eqI) (auto simp: with_high_half_def bit_simps)

lemma with_own_high [simp]: "with_high_half p (high_half p) = p"
  by (rule bit_word_eqI) (auto simp: high_half_def with_high_half_def bit_simps dest: bit_imp_le_length)

text \<open>Moving a pointer forward in its window of 4 GB units wraps around and stays in the window, only the
  high half changes, and moving back by the same distance restores it, as long as the window doubled
  at its end is representable and the distance is no more than the start of the window.\<close>

theorem wrap_around_window:
  assumes "lo \<le> high_half p" and "high_half p < hi" and "delta \<le> hi - lo" and "unat hi + unat (hi - lo) < 2 ^ 32"
    and "delta \<le> lo"
  shows "lo \<le> high_half (inc_wrap_4g p delta lo hi) \<and> high_half (inc_wrap_4g p delta lo hi) < hi \<and>
    take_bit 32 (inc_wrap_4g p delta lo hi) = take_bit 32 p \<and>
    dec_wrap_4g (inc_wrap_4g p delta lo hi) delta lo hi = p"
proof -
  let ?h = "high_half p"
  have width: "unat (hi - lo) = unat hi - unat lo" using assms(1,2) by (intro unat_sub) simp
  have n: "unat lo \<le> unat ?h" "unat ?h < unat hi" "unat delta \<le> unat hi - unat lo" "unat delta \<le> unat lo"
    "unat hi + (unat hi - unat lo) < 2 ^ 32"
    using assms unfolding word_le_nat_alt word_less_nat_alt width by simp_all
  have sum: "unat (?h + delta) = unat ?h + unat delta" using n by (simp add: unat_word_ariths)
  define h' where "h' = (if ?h + delta \<ge> hi then ?h + delta - (hi - lo) else ?h + delta)"
  have moved: "inc_wrap_4g p delta lo hi = with_high_half p h'" by (simp add: inc_wrap_4g_def h'_def Let_def)
  have "lo \<le> h' \<and> h' < hi \<and> (if h' - delta < lo then h' - delta + (hi - lo) else h' - delta) = ?h"
  proof (cases "?h + delta \<ge> hi")
    case True
    then have ge: "unat hi \<le> unat ?h + unat delta" by (simp add: word_le_nat_alt sum)
    have h': "unat h' = unat ?h + unat delta - (unat hi - unat lo)"
      using True ge n by (simp add: h'_def unat_sub word_le_nat_alt sum width)
    have "unat (h' - delta) = unat h' - unat delta" using h' ge n by (intro unat_sub) (simp add: word_le_nat_alt)
    then have "unat (h' - delta) < unat lo" using h' ge n by simp
    then have "h' - delta < lo" by (simp add: word_less_nat_alt)
    moreover have "h' - delta + (hi - lo) = ?h" using True by (simp add: h'_def)
    moreover have "unat lo \<le> unat h'" "unat h' < unat hi" using h' ge n by linarith+
    ultimately show ?thesis by (simp add: word_le_nat_alt word_less_nat_alt)
  next
    case False
    then have "?h + delta < hi" by simp
    moreover have "lo \<le> ?h + delta" using n by (simp add: word_le_nat_alt sum)
    moreover have "\<not> ?h < lo" using assms(1) by simp
    moreover have "h' = ?h + delta" using False by (simp add: h'_def)
    ultimately show ?thesis by simp
  qed
  then show ?thesis unfolding moved by (simp add: dec_wrap_4g_def Let_def) (simp add: with_high_half_def bit_simps take_bit_or take_bit_push_bit)
qed

theorem wrap_around_window_witness:
  "inc_wrap_4g 0x0000000700000005 3 4 8 = 0x0000000600000005 \<and>
   dec_wrap_4g 0x0000000600000005 3 4 8 = (0x0000000700000005 :: u64)"
proof -
  have "inc_wrap_4g 0x0000000700000005 3 4 8 = 0x0000000600000005"
    by (simp add: inc_wrap_4g_def high_half_def with_high_half_def)
  with wrap_around_window [of 4 "0x0000000700000005" 8 3] show ?thesis by (simp add: high_half_def)
qed

section \<open>The 8-bit floating point format\<close>

definition u32fp_encode :: "u32 \<Rightarrow> nat \<Rightarrow> u32" where
  "u32fp_encode x bitsPerPow2 =
     (let log2x = 31 - clz (x OR 1);
          mantissa = drop_bit (if log2x \<ge> bitsPerPow2 then log2x - bitsPerPow2 else 0) x
            AND (push_bit bitsPerPow2 1 - 1);
          exponent = (if log2x \<ge> bitsPerPow2 then word_of_int (int log2x - (int bitsPerPow2 - 1)) else 0)
      in push_bit bitsPerPow2 exponent OR mantissa)"

definition u32fp_decode :: "u32 \<Rightarrow> nat \<Rightarrow> u32" where
  "u32fp_decode x bitsPerPow2 =
     (let exponent = drop_bit bitsPerPow2 x;
          mantissa = (x AND (push_bit bitsPerPow2 1 - 1)) OR (if exponent \<noteq> 0 then 8 else 0);
          exponent = (if exponent \<noteq> 0 then exponent - 1 else exponent)
      in push_bit (unat exponent) mantissa)"

definition u32fp8_max_value :: u32 where
  "u32fp8_max_value = 0xf0000000"

definition u32fp8_encode :: "u32 \<Rightarrow> u8" where
  "u32fp8_encode x = ucast (u32fp_encode x 3)"

definition u32fp8_decode :: "u8 \<Rightarrow> u32" where
  "u32fp8_decode x = u32fp_decode (ucast x) 3"

text \<open>A code: five bits of exponent and, below, the three bits that follow the leading one of a 4-bit
  significand.\<close>

definition fp_code :: "u32 \<Rightarrow> u32 \<Rightarrow> u32" where
  "fp_code a y = push_bit 3 a OR take_bit 3 y"

lemma low_three: "(push_bit 3 1 - 1 :: u32) = mask 3"
  by (simp add: mask_eq_exp_minus_1)

lemma fp_code_parts:
  assumes "take_bit 5 a = a"
  shows "drop_bit 3 (fp_code a y) = a" and "take_bit 3 (fp_code a y) = take_bit 3 y"
    and "take_bit 8 (fp_code a y) = fp_code a y"
proof -
  have high: "bit a i \<Longrightarrow> i < 5" for i by (metis assms bit_take_bit_iff)
  show "drop_bit 3 (fp_code a y) = a"
    by (rule bit_word_eqI) (auto simp: fp_code_def bit_simps dest: high)
  show "take_bit 3 (fp_code a y) = take_bit 3 y"
    by (rule bit_word_eqI) (auto simp: fp_code_def bit_simps)
  show "take_bit 8 (fp_code a y) = fp_code a y"
    by (rule bit_word_eqI) (auto simp: fp_code_def bit_simps dest: high)
qed

lemma significand:
  assumes "8 \<le> unat y" and "unat y < 16"
  shows "take_bit 3 y OR 8 = (y :: u32)"
proof -
  have "take_bit 4 (unat y) = unat y" using assms(2) by (simp add: take_bit_nat_eq_self)
  then have "take_bit 4 y = y" by (metis unsigned_take_bit_eq word_unat_eq_iff)
  then have high: "bit y i \<Longrightarrow> i < 4" for i by (metis bit_take_bit_iff)
  have "unat y div 8 = 1" using assms by (intro div_nat_eqI) simp_all
  then have "bit (unat y) 3" by (simp add: bit_iff_odd)
  then have "bit y 3" by (simp add: bit_simps)
  have eight: "bit (8 :: u32) n = (n = 3)" for n
    using bit_exp_iff [where 'a = "32 word" and m = 3 and n = n] by auto
  show ?thesis
  proof (rule bit_word_eqI)
    fix n
    have "n < 4 \<Longrightarrow> n \<noteq> 3 \<Longrightarrow> n < 3" for n :: nat by linarith
    then show "bit (take_bit 3 y OR 8) n = bit y n"
      using \<open>bit y 3\<close> high [of n] eight [of n] by (cases "n = 3") (auto simp: bit_or_iff bit_take_bit_iff)
  qed
qed

lemma clz_unique:
  fixes x :: u32
  assumes "2 ^ m \<le> unat x" and "unat x < 2 ^ Suc m"
  shows "31 - clz x = m"
proof -
  have "x \<noteq> 0" using assms(1) by auto
  from highest_bit [OF this] obtain k where k: "k < 32" "clz x = 31 - k" "2 ^ k \<le> unat x" "unat x < 2 ^ Suc k" by auto
  have "(2 :: nat) ^ k < 2 ^ Suc m" "(2 :: nat) ^ m < 2 ^ Suc k" using k assms by linarith+
  then have "k < Suc m" "m < Suc k" by (metis power_less_imp_less_exp one_less_numeral_iff semiring_norm(76))+
  then show ?thesis using k(1,2) by simp
qed

lemma log2_or_one:
  fixes x :: u32
  assumes "2 ^ m \<le> unat x" and "unat x < 2 ^ Suc m"
  shows "31 - clz (x OR 1) = m"
proof (rule clz_unique)
  have "unat (x OR 1) = unat x OR 1" by (simp only: unsigned_or_eq unsigned_1)
  then have "unat (x OR 1) = unat x + of_bool (even (unat x))" by (simp only: or_one_eq)
  moreover have "unat x + 1 < 2 ^ Suc m" if "even (unat x)" using that assms(2) by (simp, presburger)
  ultimately show "2 ^ m \<le> unat (x OR 1)" "unat (x OR 1) < 2 ^ Suc m" using assms by auto
qed

lemma encode_large:
  assumes "2 ^ (k + 3) \<le> unat x" and "unat x < 2 ^ (k + 4)" and "k < 29"
  shows "u32fp_encode x 3 = fp_code (of_nat (k + 1)) (drop_bit k x)"
proof -
  have "Suc (k + 3) = k + 4" by simp
  with assms(2) have "unat x < 2 ^ Suc (k + 3)" by (simp only:)
  with assms(1) have "31 - clz (x OR 1) = k + 3" by (rule log2_or_one)
  then show ?thesis unfolding u32fp_encode_def Let_def low_three
    by (simp add: fp_code_def take_bit_eq_mask)
qed

lemma encode_small:
  assumes "unat x < 8"
  shows "u32fp_encode x 3 = x"
proof -
  have "unat (x OR 1) = unat x OR 1" by (simp only: unsigned_or_eq unsigned_1)
  then have one: "unat (x OR 1) = unat x + of_bool (even (unat x))" by (simp only: or_one_eq)
  have "unat x + of_bool (even (unat x)) < 8" using assms by (cases "unat x = 7") auto
  with one have less: "unat (x OR 1) < 8" by simp
  have "x OR 1 \<noteq> 0" using one by (cases "unat x = 0") auto
  from highest_bit [OF this] obtain k where k: "k < 32" "clz (x OR 1) = 31 - k" "2 ^ k \<le> unat (x OR 1)" by auto
  have "(2 :: nat) ^ k < 2 ^ 3" using k(3) less by simp
  then have "k < 3" by (rule power_less_imp_less_exp [rotated]) simp
  then have "31 - clz (x OR 1) < 3" using k by simp
  moreover have "take_bit 3 (unat x) = unat x" using assms by (simp add: take_bit_nat_eq_self)
  then have "take_bit 3 x = x" by (simp add: word_unat_eq_iff unsigned_take_bit_eq)
  ultimately show ?thesis unfolding u32fp_encode_def Let_def low_three take_bit_eq_mask [symmetric] by simp
qed

lemma decode_large:
  assumes "8 \<le> unat y" and "unat y < 16" and "k < 29"
  shows "u32fp_decode (fp_code (of_nat (k + 1)) y) 3 = push_bit k y"
proof -
  have small: "unat (of_nat (k + 1) :: u32) = k + 1" using assms(3) unfolding unat_of_nat by simp
  then have "take_bit 5 (of_nat (k + 1) :: u32) = of_nat (k + 1)"
    using assms(3) by (simp add: word_unat_eq_iff unsigned_take_bit_eq take_bit_nat_eq_self)
  note parts = fp_code_parts [OF this, of y]
  have nz: "(of_nat (k + 1) :: u32) \<noteq> 0" using small by auto
  have "unat (of_nat k :: u32) = k" using assms(3) unfolding unat_of_nat by simp
  then show ?thesis unfolding u32fp_decode_def Let_def low_three parts(1) take_bit_eq_mask [symmetric] parts(2)
    using nz significand [OF assms(1,2)] by simp
qed

lemma of_code:
  assumes "take_bit 8 c = (c :: u32)"
  shows "ucast (ucast c :: u8) = c"
proof -
  have "ucast (ucast c :: u8) = take_bit 8 c" by (rule bit_word_eqI) (auto simp: bit_simps)
  with assms show ?thesis by simp
qed

lemma shifted_significand:
  assumes "unat y < 16" and "k < 29"
  shows "unat (push_bit k y :: u32) = 2 ^ k * unat y"
proof -
  have "(2 :: nat) ^ k \<le> 2 ^ 28" using assms(2) by (intro power_increasing) simp_all
  then have "2 ^ k * unat y < 2 ^ 28 * 16" using assms(1) by (intro mult_le_less_imp_less) simp_all
  then have "push_bit k (unat y) < 2 ^ 32" by (simp add: push_bit_eq_mult mult.commute)
  then have "take_bit 32 (push_bit k (unat y)) = push_bit k (unat y)" by (rule take_bit_nat_eq_self)
  then show ?thesis unfolding unsigned_push_bit_eq by (simp add: push_bit_eq_mult mult.commute)
qed

lemma unat_dropped: "unat (drop_bit k x :: u32) = unat x div 2 ^ k"
  unfolding unat_drop_bit_eq by (rule drop_bit_eq_div)

lemma fp8_rounds_down:
  "let v = u32fp8_decode (u32fp8_encode x) in unat v \<le> unat x \<and> 8 * (unat x - unat v) \<le> unat x"
proof (cases "unat x < 8")
  case True
  have "take_bit 8 (unat x) = unat x" using True by (simp add: take_bit_nat_eq_self)
  then have "take_bit 8 x = x" by (simp add: word_unat_eq_iff unsigned_take_bit_eq)
  moreover have "drop_bit 3 x = 0" using True by (simp add: word_unat_eq_iff unat_dropped)
  moreover have "take_bit 3 (unat x) = unat x" using True by (simp add: take_bit_nat_eq_self)
  then have "take_bit 3 x = x" by (simp add: word_unat_eq_iff unsigned_take_bit_eq)
  ultimately have "u32fp8_decode (u32fp8_encode x) = x"
    unfolding u32fp8_decode_def u32fp8_encode_def encode_small [OF True] u32fp_decode_def Let_def low_three
      take_bit_eq_mask [symmetric] by (simp add: of_code)
  then show ?thesis by simp
next
  case False
  then have "x \<noteq> 0" by auto
  from highest_bit [OF this] obtain m where m: "m < 32" "2 ^ m \<le> unat x" "unat x < 2 ^ Suc m" by auto
  have "3 \<le> m"
  proof (rule ccontr)
    assume "\<not> 3 \<le> m"
    then have "(2 :: nat) ^ Suc m \<le> 2 ^ 3" by (intro power_increasing) simp_all
    with m(3) False show False by simp
  qed
  then obtain k where k: "m = k + 3" by (metis le_add_diff_inverse2)
  have bounds: "2 ^ (k + 3) \<le> unat x" "unat x < 2 ^ (k + 4)" "k < 29" using m unfolding k by (simp_all add: numeral_eq_Suc)
  let ?y = "drop_bit k x"
  have div: "unat ?y = unat x div 2 ^ k" by (rule unat_dropped)
  have y8: "8 \<le> unat ?y" unfolding div using bounds(1) by (simp add: power_add less_eq_div_iff_mult_less_eq mult.commute)
  have y16: "unat ?y < 16" unfolding div using bounds(2) by (simp add: power_add div_less_iff_less_mult mult.commute)
  have small: "unat (of_nat (k + 1) :: u32) = k + 1" using bounds(3) unfolding unat_of_nat by simp
  have "take_bit 5 (k + 1) = k + 1" using bounds(3) by (simp add: take_bit_nat_eq_self)
  then have "take_bit 5 (of_nat (k + 1) :: u32) = of_nat (k + 1)"
    by (metis small unsigned_take_bit_eq word_unat_eq_iff)
  note code = fp_code_parts(3) [OF this, of ?y]
  have "u32fp8_decode (u32fp8_encode x) = push_bit k ?y"
    unfolding u32fp8_decode_def u32fp8_encode_def encode_large [OF bounds] of_code [OF code]
    by (rule decode_large [OF y8 y16 bounds(3)])
  moreover have "unat (push_bit k ?y) = 2 ^ k * (unat x div 2 ^ k)"
    unfolding shifted_significand [OF y16 bounds(3)] div ..
  ultimately have "unat (u32fp8_decode (u32fp8_encode x)) + unat x mod 2 ^ k = unat x" by (simp only: mult_div_mod_eq)
  moreover have "8 * (unat x mod 2 ^ k) \<le> unat x"
  proof -
    have "8 * 2 ^ k \<le> unat x" using bounds(1) by (simp add: power_add mult.commute)
    moreover have "unat x mod 2 ^ k < 2 ^ k" by simp
    ultimately show ?thesis by linarith
  qed
  ultimately show ?thesis unfolding Let_def by linarith
qed

lemma bit_eight: "bit (8 :: u32) n = (n = 3)"
  using bit_exp_iff [where 'a = "32 word" and m = 3 and n = n] by auto

lemma below_eight: "take_bit 3 c AND (8 :: u32) = 0"
proof (rule bit_word_eqI)
  fix n show "bit (take_bit 3 c AND 8) n = bit (0 :: u32) n" by (simp only: bit_and_iff bit_take_bit_iff bit_eight) simp
qed

lemma eight_above: "take_bit 3 (take_bit 3 c OR (8 :: u32)) = take_bit 3 c"
proof (rule bit_word_eqI)
  fix n show "bit (take_bit 3 (take_bit 3 c OR 8)) n = bit (take_bit 3 c) n"
    by (cases "n = 3") (auto simp: bit_or_iff bit_take_bit_iff bit_eight)
qed

lemma split_code: "push_bit 3 (drop_bit 3 c) OR take_bit 3 c = (c :: u32)"
proof (rule bit_word_eqI)
  fix n assume "n < LENGTH(32)"
  then show "bit (push_bit 3 (drop_bit 3 c) OR take_bit 3 c) n = bit c n"
    by (cases "n < 3") (simp_all add: bit_or_iff bit_push_bit_iff bit_drop_bit_eq bit_take_bit_iff)
qed

lemma fp8_code_kept:
  assumes "unat e < 240"
  shows "u32fp8_encode (u32fp8_decode e) = e"
proof -
  define c where "c = (ucast e :: u32)"
  have c: "unat c = unat e" unfolding c_def by (rule unat_widened) simp
  have narrow_again: "(ucast c :: u8) = e" unfolding c_def by (rule bit_word_eqI) (auto simp: bit_simps dest: bit_imp_le_length)
  let ?a = "drop_bit 3 c"
  have a: "unat ?a = unat e div 8" by (simp add: unat_dropped c)
  show ?thesis
  proof (cases "unat e < 8")
    case True
    then have "?a = 0" by (simp add: word_unat_eq_iff a)
    moreover have "take_bit 3 (unat c) = unat c" using True c by (simp add: take_bit_nat_eq_self)
    then have "take_bit 3 c = c" by (simp add: word_unat_eq_iff unsigned_take_bit_eq)
    ultimately have "u32fp8_decode e = c"
      unfolding u32fp8_decode_def c_def [symmetric] u32fp_decode_def Let_def low_three take_bit_eq_mask [symmetric] by simp
    then show ?thesis using encode_small [of c] True c by (simp add: u32fp8_encode_def narrow_again)
  next
    case False
    define k where "k = unat ?a - 1"
    define y where "y = take_bit 3 c OR 8"
    have "1 \<le> unat e div 8" using div_le_mono [of 8 "unat e" 8] False by simp
    moreover have "unat e div 8 < 30" using assms by (simp add: div_less_iff_less_mult)
    ultimately have k: "k < 29" "unat ?a = k + 1" unfolding k_def a by linarith+
    have "unat (of_nat (k + 1) :: u32) = k + 1" using k(1) unfolding unat_of_nat by simp
    then have a': "?a = of_nat (k + 1)" using k(2) by (simp add: word_unat_eq_iff)
    have y: "unat y = 8 + unat c mod 8"
    proof -
      have "y = take_bit 3 c + 8" unfolding y_def by (rule disjunctive_add_eq_or [symmetric]) (rule below_eight)
      moreover have "unat (take_bit 3 c) = unat c mod 8" unfolding unsigned_take_bit_eq by (simp add: take_bit_eq_mod)
      ultimately show ?thesis by (simp add: unat_word_ariths)
    qed
    have y': "8 \<le> unat y" "unat y < 16" unfolding y by simp_all
    have cc: "c = fp_code ?a y" unfolding fp_code_def y_def eight_above by (rule split_code [symmetric])
    have "u32fp_decode (fp_code ?a y) 3 = push_bit k y" unfolding a' by (rule decode_large [OF y' k(1)])
    then have dec: "u32fp8_decode e = push_bit k y" unfolding u32fp8_decode_def c_def [symmetric] cc [symmetric] .
    have v: "unat (push_bit k y) = 2 ^ k * unat y" by (rule shifted_significand [OF y'(2) k(1)])
    have "drop_bit k (push_bit k y) = y"
      by (simp add: word_unat_eq_iff unat_dropped v)
    moreover have "2 ^ (k + 3) \<le> unat (push_bit k y)" "unat (push_bit k y) < 2 ^ (k + 4)"
      unfolding v power_add using y' by simp_all
    ultimately have "u32fp_encode (push_bit k y) 3 = c" using encode_large [OF _ _ k(1), of "push_bit k y"] cc a' by simp
    then show ?thesis unfolding u32fp8_encode_def dec by (simp add: narrow_again)
  qed
qed

text \<open>The 8-bit chunk sizes: a size that is encoded and decoded comes back no larger and short by at most
  an eighth of itself, for every 32-bit size; and the codes are exact: each of the 240 codes below the
  maximum is recovered from the size it stands for.\<close>

theorem chunk_size_codes:
  assumes "unat e < 240"
  shows "(let v = u32fp8_decode (u32fp8_encode x) in unat v \<le> unat x \<and> 8 * (unat x - unat v) \<le> unat x) \<and>
    u32fp8_encode (u32fp8_decode e) = e"
  using fp8_rounds_down fp8_code_kept [OF assms] by blast

theorem chunk_size_codes_witness: "u32fp8_encode (u32fp8_decode 239) = 239"
  using chunk_size_codes [of 239] by simp

section \<open>The hash\<close>

fun le_word :: "u8 list \<Rightarrow> u64" where
  "le_word [] = 0"
| "le_word (b # bs) = ucast b OR push_bit 8 (le_word bs)"

definition mix_hash :: "u64 \<times> u64 \<Rightarrow> u64 \<times> u64" where
  "mix_hash = (\<lambda>(a, b).
     let a = a + b; b = b XOR a;
         a = a XOR drop_bit 31 a; a = a * 0x9de62bbc8cef3ce3;
         b = b XOR drop_bit 32 b; b = b * 0x485cd6311b599e79
     in (a, b))"

function eat_chunks :: "u64 \<times> u64 \<Rightarrow> u8 list \<Rightarrow> u64 \<times> u64" where
  "eat_chunks acc bytes =
     (if bytes = [] then acc
      else case mix_hash acc of (a, b) \<Rightarrow> eat_chunks (a + le_word (take 8 bytes), b) (drop 8 bytes))"
  by auto
termination
  by (relation "measure (length \<circ> snd)") auto

declare eat_chunks.simps [simp del]

definition eat_hash :: "u64 \<times> u64 \<Rightarrow> u8 list \<Rightarrow> u64 \<times> u64" where
  "eat_hash acc bytes = eat_chunks (fst acc XOR of_nat (length bytes), snd acc) bytes"

definition digest_hash :: "u64 \<times> u64 \<Rightarrow> u64" where
  "digest_hash acc =
     (let h = fst acc;
          h = h XOR drop_bit 31 h; h = h * 0xbac3bd562846de6b; h = h + snd acc;
          h = h XOR drop_bit 32 h; h = h * 0x995a187a14e7b445
      in h)"

definition get_hash :: "u8 list \<Rightarrow> u64" where
  "get_hash bytes = digest_hash (eat_hash (1, 1) bytes)"

subsection \<open>No short strings of one length collide\<close>

text \<open>Every step of the digest is a bijection of the 64-bit words: an exclusive or with the word shifted
  right is undone from the top bit down, a product with an odd constant by the inverse modulo \<open>2 ^ 64\<close>.\<close>

lemma xor_zero_eq: "a XOR b = (0 :: 'a::len word) \<Longrightarrow> a = b"
  by (metis word_bw_assocs(3) xor_self_eq xor.right_neutral xor.left_neutral)

lemma xor_shift_inject:
  fixes x y :: "'a::len word"
  assumes "x XOR drop_bit n x = y XOR drop_bit n y" and "0 < n"
  shows "x = y"
proof -
  let ?d = "x XOR y"
  have "?d XOR drop_bit n ?d = (x XOR drop_bit n x) XOR (y XOR drop_bit n y)"
    by (rule bit_word_eqI) (auto simp: bit_simps)
  also have "\<dots> = 0" unfolding assms(1) by simp
  finally have "?d = drop_bit n ?d" by (rule xor_zero_eq)
  then have "unat ?d = unat ?d div 2 ^ n" by (metis unat_drop_bit_eq drop_bit_eq_div)
  moreover have "unat ?d div 2 ^ n < unat ?d" if "0 < unat ?d"
    using that assms(2) by (intro div_less_dividend) (simp_all add: one_less_power [of "2 :: nat" n, simplified])
  ultimately have "unat ?d = 0" by linarith
  then have "?d = 0" by (simp add: unat_eq_zero)
  then show ?thesis by (rule xor_zero_eq)
qed

lemma product_inject:
  fixes x y c i :: "'a::len word"
  assumes "x * c = y * c" and "c * i = 1"
  shows "x = y"
  by (metis assms mult.assoc mult.right_neutral)

lemma digest_inject:
  assumes "digest_hash (a, b) = digest_hash (a', b)"
  shows "a = a'"
proof -
  let ?g = "\<lambda>a. (a XOR drop_bit 31 a) * 0xbac3bd562846de6b :: u64"
  let ?f = "\<lambda>h. (h XOR drop_bit 32 h) * 0x995a187a14e7b445 :: u64"
  have "?f (?g a + b) = ?f (?g a' + b)" using assms by (simp add: digest_hash_def Let_def)
  then have "(?g a + b) XOR drop_bit 32 (?g a + b) = (?g a' + b) XOR drop_bit 32 (?g a' + b)"
    by (rule product_inject [where i = "0xfb9918abf9e53e8d"]) simp
  then have "?g a + b = ?g a' + b" by (rule xor_shift_inject) simp
  then have "?g a = ?g a'" by simp
  then have "a XOR drop_bit 31 a = a' XOR drop_bit 31 a'"
    by (rule product_inject [where i = "0xd5216e0ca079de43"]) simp
  then show ?thesis by (rule xor_shift_inject) simp
qed

lemma bit_le_word: "bit (le_word bs) n \<Longrightarrow> n < 8 * length bs"
proof (induction bs arbitrary: n)
  case (Cons b bs)
  show ?case
  proof (cases "n < 8")
    case False
    then have "\<not> bit (ucast b :: u64) n" using bit_imp_le_length [of b n] by (auto simp: bit_simps)
    then have "bit (le_word bs) (n - 8)" using Cons.prems by (auto simp: bit_or_iff bit_push_bit_iff)
    from Cons.IH [OF this] show ?thesis by simp
  qed simp
qed simp

lemma le_word_first: "ucast (le_word (b # bs)) = (b :: u8)"
  by (rule bit_word_eqI) (auto simp: bit_simps)

lemma le_word_rest:
  assumes "length bs \<le> 7"
  shows "drop_bit 8 (le_word (b # bs)) = le_word bs"
proof (rule bit_word_eqI)
  fix n
  have "\<not> bit b (8 + n)" using bit_imp_le_length [of b "8 + n"] by auto
  moreover have "bit (le_word bs) n \<Longrightarrow> 8 + n < 64" using bit_le_word [of bs n] assms by linarith
  ultimately show "bit (drop_bit 8 (le_word (b # bs))) n = bit (le_word bs) n"
    by (auto simp: bit_drop_bit_eq bit_or_iff bit_push_bit_iff bit_ucast_iff)
qed

lemma le_word_inject: "length xs = length ys \<Longrightarrow> length xs \<le> 8 \<Longrightarrow> le_word xs = le_word ys \<Longrightarrow> xs = ys"
proof (induction xs ys rule: list_induct2)
  case (Cons x xs y ys)
  have "x = y" using le_word_first [of x xs] le_word_first [of y ys] Cons.prems(2) by simp
  moreover have "le_word xs = le_word ys"
  proof -
    have "length xs \<le> 7" "length ys \<le> 7" using Cons.hyps Cons.prems(1) by simp_all
    from le_word_rest [OF this(1), of x] le_word_rest [OF this(2), of y] Cons.prems(2) show ?thesis by argo
  qed
  ultimately show ?case using Cons.IH Cons.prems(1) by simp
qed simp

lemma get_hash_short:
  assumes "bytes \<noteq> []" and "length bytes \<le> 8"
  shows "get_hash bytes =
    (case mix_hash (1 XOR of_nat (length bytes), 1) of (a, b) \<Rightarrow> digest_hash (a + le_word bytes, b))"
  using assms by (simp add: get_hash_def eat_hash_def eat_chunks.simps split: prod.split)

text \<open>The hash does not collide on keys of one size of at most eight bytes: two byte strings of equal length
  up to 8 with the same hash are the same string.\<close>

theorem short_hash_injective:
  assumes "length xs = length ys" and "length xs \<le> 8" and "get_hash xs = get_hash ys"
  shows "xs = ys"
proof (cases "xs = []")
  case False
  then have ys: "ys \<noteq> []" "length ys \<le> 8" using assms(1,2) by auto
  obtain a b where "mix_hash (1 XOR of_nat (length xs), 1) = (a, b)" by force
  then have "digest_hash (a + le_word xs, b) = digest_hash (a + le_word ys, b)"
    using assms get_hash_short [OF False assms(2)] get_hash_short [OF ys] by simp
  then have "le_word xs = le_word ys" using digest_inject by fastforce
  with assms(1,2) show ?thesis by (rule le_word_inject)
qed (use assms(1) in simp)

theorem short_hash_injective_witness: "get_hash [1, 2] \<noteq> get_hash [2, 1]"
  using short_hash_injective [of "[1, 2]" "[2, 1]"] by auto

end
