(* ===== verification/Cluster.thy ===== *)
theory Cluster
  imports Prelude
begin

text \<open>
  The ranks of a communicator and the nodes they run on (\<open>initTransportsRank\<close> of \<open>src/init.cc\<close>): nodes
  are numbered in the order of their first rank, each rank gets a number within its node, and the
  table \<open>nodeRanks\<close> leads back from the two numbers to the rank.  What bootstrap gathered, the first rank
  of every rank's ring, is the argument \<open>firstRanks\<close>.
\<close>

section \<open>The tables\<close>

record cluster =
  cl_rankToNode :: "nat list"
  cl_rankToLocalRank :: "nat list"
  cl_nodeRanks :: "nat list list"
  cl_maxLocalRanks :: nat
  cl_minLocalRanks :: nat

definition node_index :: "int list \<Rightarrow> int \<Rightarrow> nat" where
  "node_index nodesFirstRank firstRank =
     (case find_index (\<lambda>f. f = firstRank) nodesFirstRank of Some node \<Rightarrow> node | None \<Rightarrow> length nodesFirstRank)"

fun number_nodes :: "int list \<Rightarrow> int list \<Rightarrow> nat list \<times> int list" where
  "number_nodes nodesFirstRank [] = ([], nodesFirstRank)"
| "number_nodes nodesFirstRank (firstRank # rest) =
     (let node = node_index nodesFirstRank firstRank;
          seen = (if node = length nodesFirstRank then nodesFirstRank @ [firstRank] else nodesFirstRank);
          (nodes, seen) = number_nodes seen rest
      in (node # nodes, seen))"

fun number_locals :: "nat list \<Rightarrow> nat list \<Rightarrow> nat list \<times> nat list" where
  "number_locals localRanks [] = ([], localRanks)"
| "number_locals localRanks (node # nodes) =
     (let local = localRanks ! node; (locals, localRanks) = number_locals (localRanks[node := local + 1]) nodes
      in (local # locals, localRanks))"

fun fill_ranks :: "nat \<Rightarrow> nat list \<Rightarrow> nat list list \<Rightarrow> nat list list" where
  "fill_ranks r [] nodeRanks = nodeRanks"
| "fill_ranks r (node # nodes) nodeRanks = fill_ranks (Suc r) nodes (nodeRanks[node := nodeRanks ! node @ [r]])"

definition INT_MAX :: nat where
  "INT_MAX = 2 ^ 31 - 1"

definition make_cluster :: "int list \<Rightarrow> cluster" where
  "make_cluster firstRanks =
     (let (rankToNode, nodesFirstRank) = number_nodes [] firstRanks;
          nNodes = length nodesFirstRank;
          (rankToLocalRank, localRanks) = number_locals (replicate nNodes 0) rankToNode
      in \<lparr>cl_rankToNode = rankToNode, cl_rankToLocalRank = rankToLocalRank,
          cl_nodeRanks = fill_ranks 0 rankToNode (replicate nNodes []),
          cl_maxLocalRanks = fold max localRanks 0, cl_minLocalRanks = fold min localRanks INT_MAX\<rparr>)"

section \<open>The tables are inverse to each other\<close>

text \<open>Each node is not empty, and the pairs of node and number within the node are in bijection with the ranks.\<close>

definition cluster_ok :: "cluster \<Rightarrow> bool" where
  "cluster_ok c \<longleftrightarrow> length (cl_rankToLocalRank c) = length (cl_rankToNode c) \<and>
     (\<forall>r < length (cl_rankToNode c).
        cl_rankToNode c ! r < length (cl_nodeRanks c) \<and>
        cl_rankToLocalRank c ! r < length (cl_nodeRanks c ! (cl_rankToNode c ! r)) \<and>
        cl_nodeRanks c ! (cl_rankToNode c ! r) ! (cl_rankToLocalRank c ! r) = r) \<and>
     (\<forall>n < length (cl_nodeRanks c). cl_nodeRanks c ! n \<noteq> [] \<and>
        (\<forall>l < length (cl_nodeRanks c ! n).
           cl_nodeRanks c ! n ! l < length (cl_rankToNode c) \<and>
           cl_rankToNode c ! (cl_nodeRanks c ! n ! l) = n \<and>
           cl_rankToLocalRank c ! (cl_nodeRanks c ! n ! l) = l))"

lemma number_nodes_spec:
  assumes "number_nodes seen fs = (nodes, all)" and "distinct seen"
  shows "length nodes = length fs \<and> distinct all \<and> length seen \<le> length all \<and> take (length seen) all = seen \<and>
    (\<forall>i < length fs. nodes ! i < length all \<and> all ! (nodes ! i) = fs ! i) \<and>
    (\<forall>n. length seen \<le> n \<and> n < length all \<longrightarrow> n \<in> set nodes)"
  using assms
proof (induction seen fs arbitrary: nodes all rule: number_nodes.induct)
  case (1 seen)
  then show ?case by simp
next
  case (2 seen f rest)
  let ?node = "node_index seen f"
  let ?seen = "if ?node = length seen then seen @ [f] else seen"
  obtain ns where ns: "number_nodes ?seen rest = (ns, all)" "nodes = ?node # ns"
    using 2(2) by (auto simp: Let_def split: prod.splits)
  have dist: "distinct ?seen"
    using 2(3) find_index_None [of "\<lambda>x. x = f" seen] find_index_SomeD [of "\<lambda>x. x = f" seen]
    by (auto simp: node_index_def split: option.splits)
  have here: "?node < length ?seen" "?seen ! ?node = f"
    using find_index_SomeD [of "\<lambda>x. x = f" seen]
    by (auto simp: node_index_def nth_append split: option.splits)
  note step = 2(1) [OF refl refl ns(1) dist]
  have all: "length ?seen \<le> length all" "take (length ?seen) all = ?seen" using step by blast+
  have "take (length ?seen) all ! ?node = all ! ?node" by (rule nth_take) (rule here(1))
  then have "all ! ?node = f" by (simp only: all(2) here(2))
  moreover have "length seen \<le> length all" using all(1) by (simp split: if_splits)
  moreover have "take (length seen) all = seen"
  proof -
    have "length seen \<le> length ?seen" by simp
    then have "take (length seen) all = take (length seen) (take (length ?seen) all)" by (simp add: min_absorb1 del: length_append)
    also have "\<dots> = seen" unfolding all(2) by simp
    finally show ?thesis .
  qed
  moreover have "n \<in> set nodes" if "length seen \<le> n" "n < length all" for n
    using step that ns(2) by (cases "n = ?node") (auto split: if_splits)
  ultimately show ?case using step here(1) all(1) ns(2) by (auto simp: nth_Cons split: nat.split)
qed

text \<open>The positions at which a node occurs, before position \<open>k\<close>.\<close>

definition positions :: "nat list \<Rightarrow> nat \<Rightarrow> nat \<Rightarrow> nat list" where
  "positions nodes n k = filter (\<lambda>i. nodes ! i = n) [0..<k]"

lemma positions_0 [simp]: "positions nodes n 0 = []"
  by (simp add: positions_def)

lemma positions_Cons: "positions (m # nodes) n (Suc k) = (if m = n then [0] else []) @ map Suc (positions nodes n k)"
proof -
  have "positions (m # nodes) n (Suc k) = filter (\<lambda>i. (m # nodes) ! i = n) (0 # map Suc [0..<k])"
    unfolding positions_def map_Suc_upt by (simp only: upt_conv_Cons zero_less_Suc One_nat_def)
  also have "\<dots> = (if m = n then [0] else []) @ map Suc (positions nodes n k)"
    by (simp add: positions_def filter_map comp_def)
  finally show ?thesis .
qed

lemma fill_ranks_spec:
  assumes "\<forall>n \<in> set nodes. n < length t"
  shows "length (fill_ranks r nodes t) = length t \<and>
    (\<forall>m < length t. fill_ranks r nodes t ! m = t ! m @ map ((+) r) (positions nodes m (length nodes)))"
  using assms
proof (induction r nodes t rule: fill_ranks.induct)
  case (2 r n nodes t)
  then have IH: "length (fill_ranks (Suc r) nodes (t[n := t ! n @ [r]])) = length t"
      "m < length t \<Longrightarrow> fill_ranks (Suc r) nodes (t[n := t ! n @ [r]]) ! m =
         t[n := t ! n @ [r]] ! m @ map ((+) (Suc r)) (positions nodes m (length nodes))" for m
    by simp_all
  show ?case using IH 2(2) by (auto simp: positions_Cons comp_def nth_list_update)
qed (simp add: positions_def)

lemma number_locals_spec:
  assumes "\<forall>n \<in> set nodes. n < length counts"
  shows "length (fst (number_locals counts nodes)) = length nodes \<and>
    length (snd (number_locals counts nodes)) = length counts \<and>
    (\<forall>i < length nodes. fst (number_locals counts nodes) ! i = counts ! (nodes ! i) + length (positions nodes (nodes ! i) i)) \<and>
    (\<forall>m < length counts. snd (number_locals counts nodes) ! m = counts ! m + length (positions nodes m (length nodes)))"
  using assms
proof (induction counts nodes rule: number_locals.induct)
  case (2 counts n nodes)
  let ?counts = "counts[n := counts ! n + 1]"
  obtain ls cs where r: "number_locals ?counts nodes = (ls, cs)" by force
  have IH: "length ls = length nodes" "length cs = length counts"
      "i < length nodes \<Longrightarrow> ls ! i = ?counts ! (nodes ! i) + length (positions nodes (nodes ! i) i)"
      "m < length counts \<Longrightarrow> cs ! m = ?counts ! m + length (positions nodes m (length nodes))" for i m
    using 2(1) [OF refl] 2(2) unfolding r by simp_all
  have "i < length (n # nodes) \<Longrightarrow> (counts ! n # ls) ! i = counts ! ((n # nodes) ! i) + length (positions (n # nodes) ((n # nodes) ! i) i)" for i
    using IH(3) 2(2) by (cases i) (auto simp: positions_Cons nth_list_update)
  moreover have "m < length counts \<Longrightarrow> cs ! m = counts ! m + length (positions (n # nodes) m (length (n # nodes)))" for m
    using IH(4) 2(2) by (auto simp: positions_Cons nth_list_update)
  moreover have "number_locals counts (n # nodes) = (counts ! n # ls, cs)" using r by (simp add: Let_def)
  ultimately show ?case using IH(1,2) by (simp del: number_locals.simps)
qed simp

lemma nth_positions:
  assumes "r < k" and "nodes ! r = n"
  shows "length (positions nodes n r) < length (positions nodes n k) \<and>
    positions nodes n k ! length (positions nodes n r) = r"
proof -
  have "[0..<k] = [0..<r] @ r # [Suc r..<k]" using assms(1) 
    by (metis less_imp_add_positive upt_add_eq_append upt_conv_Cons le0 less_add_same_cancel1)
  then have "positions nodes n k = positions nodes n r @ r # filter (\<lambda>i. nodes ! i = n) [Suc r..<k]"
    using assms(2) by (simp add: positions_def)
  then show ?thesis by (simp add: nth_append)
qed

lemma positions_nth:
  assumes "l < length (positions nodes n k)"
  shows "positions nodes n k ! l < k \<and> nodes ! (positions nodes n k ! l) = n \<and>
    length (positions nodes n (positions nodes n k ! l)) = l"
proof -
  let ?r = "positions nodes n k ! l"
  have "?r \<in> set (positions nodes n k)" using assms by simp
  then have r: "?r < k" "nodes ! ?r = n" unfolding positions_def by auto
  have "distinct (positions nodes n k)" by (simp add: positions_def)
  then have "length (positions nodes n ?r) = l"
    using nth_positions [OF r] assms nth_eq_iff_index_eq [of "positions nodes n k" "length (positions nodes n ?r)" l] by blast
  with r show ?thesis by simp
qed

lemma make_cluster_tables:
  fixes firstRanks
  defines "c \<equiv> make_cluster firstRanks"
  shows "cluster_ok c \<and> length (cl_rankToNode c) = length firstRanks \<and>
    cl_maxLocalRanks c = fold max (map length (cl_nodeRanks c)) 0 \<and>
    (\<forall>q < length firstRanks. \<forall>r < length firstRanks. cl_rankToNode c ! q = cl_rankToNode c ! r \<longleftrightarrow> firstRanks ! q = firstRanks ! r)"
proof -
  obtain nodes firsts where nodes: "number_nodes [] firstRanks = (nodes, firsts)" by force
  note num = number_nodes_spec [OF nodes]
  have n: "length nodes = length firstRanks" "distinct firsts" "\<forall>i < length firstRanks. nodes ! i < length firsts \<and> firsts ! (nodes ! i) = firstRanks ! i"
    "\<forall>k < length firsts. k \<in> set nodes" using num by simp_all
  have less: "\<forall>k \<in> set nodes. k < length firsts" using n(1,3) by (auto simp: in_set_conv_nth)
  define t where "t = fill_ranks 0 nodes (replicate (length firsts) [])"
  define ls where "ls = fst (number_locals (replicate (length firsts) 0) nodes)"
  have c: "cl_rankToNode c = nodes" "cl_rankToLocalRank c = ls" "cl_nodeRanks c = t"
    by (simp_all add: c_def make_cluster_def nodes t_def ls_def Let_def split: prod.split)
  have t: "length t = length firsts" "m < length firsts \<Longrightarrow> t ! m = positions nodes m (length nodes)" for m
    using fill_ranks_spec [of nodes "replicate (length firsts) []" 0] less by (simp_all add: t_def map_idI)
  have ls: "length ls = length nodes" "i < length nodes \<Longrightarrow> ls ! i = length (positions nodes (nodes ! i) i)" for i
    using number_locals_spec [of nodes "replicate (length firsts) 0"] less by (simp_all add: ls_def)
  have "cluster_ok c"
    unfolding cluster_ok_def c
  proof (intro conjI allI impI)
    show "length ls = length nodes" by (rule ls(1))
    fix r assume r: "r < length nodes"
    then have m: "nodes ! r < length firsts" using n by simp
    then show "nodes ! r < length t" by (simp add: t(1))
    show "ls ! r < length (t ! (nodes ! r))" "t ! (nodes ! r) ! (ls ! r) = r"
      using nth_positions [OF r refl] r m by (simp_all add: t(2) ls(2))
  next
    fix m assume "m < length t"
    then have m: "m < length firsts" by (simp add: t(1))
    with n(4) obtain r where r: "r < length nodes" "nodes ! r = m" by (metis in_set_conv_nth)
    then show "t ! m \<noteq> []" using nth_positions [OF r] m by (auto simp: t(2))
    fix l assume "l < length (t ! m)"
    then have "l < length (positions nodes m (length nodes))" using m by (simp add: t(2))
    from positions_nth [OF this] show "t ! m ! l < length nodes" "nodes ! (t ! m ! l) = m" "ls ! (t ! m ! l) = l"
      using m by (simp_all add: t(2) ls(2))
  qed
  moreover have "nodes ! q = nodes ! r \<longleftrightarrow> firstRanks ! q = firstRanks ! r" if "q < length firstRanks" "r < length firstRanks" for q r
    using that n(2,3) by (metis nth_eq_iff_index_eq)
  moreover have "snd (number_locals (replicate (length firsts) 0) nodes) = map length t"
    using number_locals_spec [of nodes "replicate (length firsts) 0"] less by (intro nth_equalityI) (simp_all add: t)
  then have "cl_maxLocalRanks c = fold max (map length t) 0"
    by (auto simp add: c_def make_cluster_def nodes Let_def split: prod.split)
  ultimately show ?thesis by (simp add: c n(1))
qed

end
