(* ===== verification/P2pSchedule.thy ===== *)
theory P2pSchedule
  imports Cluster Bitops
begin

text \<open>
  The schedule of point-to-point transfers (\<open>ncclP2pSchedule\<close> of \<open>src/init.cc\<close>).  Every rank computes, for each round,
  the rank it sends to and the rank it receives from.

  Counts are natural numbers; the group deltas are the 32-bit words of the source.  \<open>None\<close> is an access outside
  of an array or a division by zero.  The group size of the environment, \<open>ncclParamGroupSize\<close>, is an
  argument and taken as not negative.
\<close>

section \<open>Groups of ranks\<close>

function gcd_loop :: "nat \<Rightarrow> nat \<Rightarrow> nat" where
  "gcd_loop a b = (if b \<noteq> 0 then gcd_loop b (a mod b) else a)"
  by auto
termination by (relation "measure snd") auto

declare gcd_loop.simps [simp del]

fun fit_group_size :: "nat \<Rightarrow> nat list list \<Rightarrow> nat option" where
  "fit_group_size groupSize [] = Some groupSize"
| "fit_group_size groupSize (node # nodes) =
     (if groupSize = 0 then None
      else fit_group_size
        (if length node mod groupSize \<noteq> 0 \<or> length node < groupSize then gcd_loop groupSize (length node) else groupSize)
        nodes)"

definition p2p_group_size :: "nat \<Rightarrow> cluster \<Rightarrow> nat option" where
  "p2p_group_size param c =
     fit_group_size (if 1 < length (cl_nodeRanks c) then param else cl_maxLocalRanks c) (cl_nodeRanks c)"

text \<open>The node and the offset within the node of every group, and the number of the group of the caller, which
  starts as its number within its own node.\<close>

fun place_groups :: "nat \<Rightarrow> nat \<Rightarrow> nat \<Rightarrow> nat \<Rightarrow> nat list list \<Rightarrow> (nat \<times> nat) list \<Rightarrow> nat
    \<Rightarrow> (nccl_result + (nat \<times> nat) list \<times> nat) option" where
  "place_groups groupSize nGroups home n [] groups ownGroup = Some (Inr (groups, ownGroup))"
| "place_groups groupSize nGroups home n (node # nodes) groups ownGroup =
     (if length node mod groupSize \<noteq> 0 then Some (Inl ncclInternalError)
      else
        let nGroupsInNode = length node div groupSize;
            groups = groups @ map (\<lambda>g. (n, g * groupSize)) [0..<nGroupsInNode]
        in if nGroups < length groups then None
           else place_groups groupSize nGroups home (Suc n) nodes groups (if n < home then ownGroup + nGroupsInNode else ownGroup))"

section \<open>The rounds\<close>

record schedule_ctx =
  sc_nodeRanks :: "nat list list"
  sc_groups :: "(nat \<times> nat) list"
  sc_groupSize :: nat
  sc_nGroups :: nat
  sc_group :: nat
  sc_local :: nat
  sc_nRanks :: nat

definition rank_in_group :: "schedule_ctx \<Rightarrow> nat \<Rightarrow> nat \<Rightarrow> nat option" where
  "rank_in_group x g l =
     (if g < length (sc_groups x) then
        (case sc_groups x ! g of (node, offset) \<Rightarrow>
           if node < length (sc_nodeRanks x) \<and> offset + l < length (sc_nodeRanks x ! node)
           then Some (sc_nodeRanks x ! node ! (offset + l)) else None)
      else None)"

definition send_group :: "schedule_ctx \<Rightarrow> u32 \<Rightarrow> nat" where
  "send_group x groupDelta = unat ((of_nat (sc_group x) + groupDelta) mod (of_nat (sc_nGroups x) :: u32))"

definition recv_group :: "schedule_ctx \<Rightarrow> u32 \<Rightarrow> nat" where
  "recv_group x groupDelta =
     unat ((of_nat (sc_group x) - groupDelta + of_nat (sc_nGroups x)) mod (of_nat (sc_nGroups x) :: u32))"

definition send_local :: "schedule_ctx \<Rightarrow> nat \<Rightarrow> nat" where
  "send_local x delta = (sc_local x + delta) mod sc_groupSize x"

definition recv_local :: "schedule_ctx \<Rightarrow> nat \<Rightarrow> nat" where
  "recv_local x delta = nat ((int (sc_local x) - int delta + int (sc_groupSize x)) mod int (sc_groupSize x))"

fun schedule_deltas :: "schedule_ctx \<Rightarrow> u32 \<Rightarrow> nat list \<Rightarrow> (nat \<times> nat) list \<Rightarrow> (nat \<times> nat) list option" where
  "schedule_deltas x groupDelta [] rounds = Some rounds"
| "schedule_deltas x groupDelta (delta # deltas) rounds =
     (if length rounds < sc_nRanks x then
        (case (rank_in_group x (send_group x groupDelta) (send_local x delta),
               rank_in_group x (recv_group x groupDelta) (recv_local x delta)) of
           (Some sendRank, Some recvRank) \<Rightarrow>
             schedule_deltas x groupDelta deltas (rounds @ [(sendRank, recvRank)])
         | _ \<Rightarrow> None)
      else None)"

function schedule_rounds ::
    "schedule_ctx \<Rightarrow> u32 \<Rightarrow> u32 \<Rightarrow> u32 \<Rightarrow> (nat \<times> nat) list \<Rightarrow> (nat \<times> nat) list option" where
  "schedule_rounds x nGroupsPow2 groupRound groupDelta rounds =
     (case (if groupDelta < of_nat (sc_nGroups x)
            then schedule_deltas x groupDelta [0..<sc_groupSize x] rounds else Some rounds) of
        None \<Rightarrow> None
      | Some rounds \<Rightarrow>
          let groupRound = groupRound + 1; groupDelta = (groupDelta + groupRound) AND (nGroupsPow2 - 1) in
          if groupRound \<noteq> nGroupsPow2 then schedule_rounds x nGroupsPow2 groupRound groupDelta rounds else Some rounds)"
  by auto
termination
proof (relation "measure (\<lambda>(x, p, r, d, s). unat (p - (r + 1)))", goal_cases)
  case (2 x p r d s s' r' d')
  have down: "unat (w - 1) < unat w" if "w \<noteq> 0" for w :: u32
    using that by (simp add: unat_minus_one unat_gt_0)
  have "p - (r + 1) \<noteq> 0" using 2 by simp
  from down [OF this] show ?case using 2 by (simp add: diff_diff_add add.assoc)
qed simp

declare schedule_rounds.simps [simp del]

definition p2p_schedule :: "nat \<Rightarrow> cluster \<Rightarrow> nat \<Rightarrow> (nccl_result \<times> (nat \<times> nat) list) option" where
  "p2p_schedule param c rank =
     (case p2p_group_size param c of
        None \<Rightarrow> None
      | Some groupSize \<Rightarrow>
          if groupSize = 0 then None
          else
            let nRanks = length (cl_rankToNode c);
                local = cl_rankToLocalRank c ! rank mod groupSize;
                ownGroup = cl_rankToLocalRank c ! rank div groupSize;
                nGroups = nRanks div groupSize;
                nGroupsPow2 = pow2_up (of_nat nGroups :: u32)
            in (case place_groups groupSize nGroups (cl_rankToNode c ! rank) 0 (cl_nodeRanks c) [] ownGroup of
                  None \<Rightarrow> None
                | Some (Inl r) \<Rightarrow> Some (r, [])
                | Some (Inr (groups, ownGroup)) \<Rightarrow>
                    if length groups \<noteq> nGroups then Some (ncclInternalError, [])
                    else
                      (case schedule_rounds \<lparr>sc_nodeRanks = cl_nodeRanks c, sc_groups = groups, sc_groupSize = groupSize,
                               sc_nGroups = nGroups, sc_group = ownGroup, sc_local = local, sc_nRanks = nRanks\<rparr>
                             nGroupsPow2 0 0 [] of
                         None \<Rightarrow> None
                       | Some rounds \<Rightarrow>
                           Some (if length rounds = nRanks then ncclSuccess else ncclInternalError, rounds))))"

section \<open>Group sizes and groups\<close>

lemma gcd_loop_gcd: "gcd_loop a b = gcd a b"
proof (induction a b rule: gcd_loop.induct)
  case (1 a b)
  then show ?case by (subst gcd_loop.simps) (simp add: gcd_red_nat [of a b])
qed

lemma fit_group_size_spec:
  assumes "0 < groupSize"
  obtains g where "fit_group_size groupSize nodes = Some g" and "0 < g" and "g dvd groupSize"
    and "\<And>node. node \<in> set nodes \<Longrightarrow> g dvd length node"
  using assms
proof (induction nodes arbitrary: groupSize thesis)
  case (Cons node nodes)
  define h where "h = (if length node mod groupSize \<noteq> 0 \<or> length node < groupSize then gcd_loop groupSize (length node) else groupSize)"
  have h: "0 < h" "h dvd groupSize" "h dvd length node"
    using Cons.prems(2) by (auto simp: h_def gcd_loop_gcd mod_eq_0_iff_dvd)
  from Cons.IH [OF _ h(1)] obtain g where g: "fit_group_size h nodes = Some g" "0 < g" "g dvd h"
      "\<And>node. node \<in> set nodes \<Longrightarrow> g dvd length node" by blast
  show ?case
  proof (rule Cons.prems(1))
    show "fit_group_size groupSize (node # nodes) = Some g" using g(1) Cons.prems(2) by (simp add: h_def)
    show "0 < g" "g dvd groupSize" using g(2,3) h(2) by (auto intro: dvd_trans)
    show "g dvd length m" if "m \<in> set (node # nodes)" for m using that g(3,4) h(3) by (auto intro: dvd_trans)
  qed
qed simp

lemma fit_group_size_ok:
  assumes "0 < groupSize"
  shows "\<exists>g. fit_group_size groupSize nodes = Some g \<and> 0 < g \<and> (\<forall>node \<in> set nodes. g dvd length node)"
proof (rule fit_group_size_spec [OF assms, of nodes])
  fix g assume "fit_group_size groupSize nodes = Some g" "0 < g" "\<And>node. node \<in> set nodes \<Longrightarrow> g dvd length node"
  then show ?thesis by simp
qed

fun groups_of :: "nat \<Rightarrow> nat \<Rightarrow> 'a list list \<Rightarrow> (nat \<times> nat) list" where
  "groups_of g n [] = []"
| "groups_of g n (node # nodes) = map (\<lambda>k. (n, k * g)) [0..<length node div g] @ groups_of g (Suc n) nodes"

definition groups_before :: "nat \<Rightarrow> 'a list list \<Rightarrow> nat \<Rightarrow> nat" where
  "groups_before g nodes i = sum_list (map (\<lambda>node. length node div g) (take i nodes))"

lemma groups_before_simps [simp]:
  "groups_before g nodes 0 = 0"
  "groups_before g [] i = 0"
  "groups_before g (node # nodes) (Suc i) = length node div g + groups_before g nodes i"
  by (simp_all add: groups_before_def)

lemma length_groups_of: "length (groups_of g n nodes) = groups_before g nodes (length nodes)"
  by (induction g n nodes rule: groups_of.induct) simp_all

lemma place_groups_spec:
  assumes "\<forall>node \<in> set nodes. g dvd length node" and "length groups + length (groups_of g n nodes) \<le> cap"
  shows "place_groups g cap home n nodes groups own =
    Some (Inr (groups @ groups_of g n nodes, own + groups_before g nodes (home - n)))"
  using assms
proof (induction nodes arbitrary: n groups own)
  case (Cons node nodes)
  have "home - n = (if n < home then Suc (home - Suc n) else 0)" by (auto simp: Suc_diff_Suc)
  moreover have "home - Suc n = 0" if "\<not> n < home" using that by simp
  ultimately show ?case using Cons by (simp add: Let_def)
qed simp

lemma nth_groups_of:
  assumes "i < length nodes" and "k < length (nodes ! i) div g"
  shows "groups_before g nodes i + k < length (groups_of g n nodes) \<and>
    groups_of g n nodes ! (groups_before g nodes i + k) = (n + i, k * g)"
  using assms
proof (induction nodes arbitrary: i n)
  case (Cons node nodes)
  show ?case
  proof (cases i)
    case 0
    then show ?thesis using Cons.prems by (simp add: nth_append)
  next
    case (Suc j)
    then show ?thesis using Cons.IH [of j "Suc n"] Cons.prems by (simp add: nth_append)
  qed
qed simp

lemma groups_of_index:
  assumes "G < length (groups_of g n nodes)"
  obtains i k where "i < length nodes" and "k < length (nodes ! i) div g" and "G = groups_before g nodes i + k"
  using assms
proof (induction nodes arbitrary: G n thesis)
  case (Cons node nodes)
  show ?case
  proof (cases "G < length node div g")
    case True
    then show ?thesis using Cons.prems(1) [of 0 G] by simp
  next
    case False
    then have "G - length node div g < length (groups_of g (Suc n) nodes)" using Cons.prems(2) by simp
    from Cons.IH [OF _ this] obtain i k where ik: "i < length nodes" "k < length (nodes ! i) div g"
        "G - length node div g = groups_before g nodes i + k" by blast
    then show ?thesis using Cons.prems(1) [of "Suc i" k] False by simp
  qed
qed simp

lemma sum_list_div:
  assumes "\<forall>node \<in> set nodes. g dvd length node"
  shows "groups_before g nodes (length nodes) * g = sum_list (map length nodes)"
  using assms by (induction nodes) (simp_all add: algebra_simps)

lemma cluster_size:
  assumes "cluster_ok c"
  shows "sum_list (map length (cl_nodeRanks c)) = length (cl_rankToNode c)"
proof -
  let ?t = "cl_nodeRanks c" and ?N = "length (cl_rankToNode c)"
  let ?S = "SIGMA n : {..<length ?t}. {..<length (?t ! n)}"
  have "bij_betw (\<lambda>(n, l). ?t ! n ! l) ?S {..<?N}"
    using assms unfolding cluster_ok_def
    by (intro bij_betw_byWitness [where f' = "\<lambda>r. (cl_rankToNode c ! r, cl_rankToLocalRank c ! r)"]) auto
  then have "card ?S = ?N" by (simp add: bij_betw_same_card)
  moreover have "card ?S = (\<Sum>n < length ?t. length (?t ! n))" by simp
  moreover have "\<dots> = sum_list (map length ?t)" by (simp add: sum_list_sum_nth atLeast0LessThan)
  ultimately show ?thesis by simp
qed

section \<open>Triangular numbers run through the residues of a power of two\<close>

definition tri :: "nat \<Rightarrow> nat" where
  "tri j = j * (j + 1) div 2"

lemma two_tri: "2 * tri j = j * (j + 1)"
  by (simp add: tri_def)

lemma tri_Suc: "tri (Suc j) = tri j + Suc j"
proof -
  have "2 * tri (Suc j) = 2 * (tri j + Suc j)" unfolding distrib_left two_tri by (simp add: algebra_simps)
  then show ?thesis by simp
qed

lemma tri_0 [simp]: "tri 0 = 0"
  by (simp add: tri_def)

lemma tri_residues_differ:
  assumes "i < j" and "j < 2 ^ u"
  shows "tri i mod 2 ^ u \<noteq> tri j mod 2 ^ u"
proof
  assume "tri i mod 2 ^ u = tri j mod 2 ^ u"
  obtain d where d: "j = i + d" "0 < d" using assms(1) less_imp_add_positive by blast
  have two: "2 * tri j = 2 * tri i + d * (2 * i + d + 1)" unfolding two_tri d(1) by (simp add: algebra_simps)
  then have le: "tri i \<le> tri j" by simp
  from \<open>tri i mod 2 ^ u = tri j mod 2 ^ u\<close> have "2 ^ u dvd tri j - tri i"
    using mod_eq_dvd_iff_nat [OF le, of "2 ^ u"] by simp
  then have "2 * 2 ^ u dvd 2 * (tri j - tri i)" by (rule mult_dvd_mono [OF dvd_refl])
  moreover have "2 * (tri j - tri i) = d * (2 * i + d + 1)" using two by simp
  ultimately have dvd: "2 ^ Suc u dvd d * (2 * i + d + 1)" by simp
  show False
  proof (cases "even d")
    case True
    then have "coprime (2 ^ Suc u) (2 * i + d + 1)" by simp
    with dvd have "2 ^ Suc u dvd d" by (simp only: coprime_dvd_mult_left_iff)
    then have "2 ^ Suc u \<le> d" using d(2) by (rule dvd_imp_le)
    then show False using assms d by simp
  next
    case False
    then have "coprime (2 ^ Suc u) d" by simp
    with dvd have "2 ^ Suc u dvd 2 * i + d + 1" by (simp only: coprime_dvd_mult_right_iff)
    then have "2 ^ Suc u \<le> 2 * i + d + 1" by (rule dvd_imp_le) simp
    then show False using assms d by simp
  qed
qed

definition group_deltas :: "nat \<Rightarrow> nat \<Rightarrow> nat list" where
  "group_deltas u n = filter (\<lambda>d. d < n) (map (\<lambda>j. tri j mod 2 ^ u) [0..<2 ^ u])"

lemma group_deltas_permute:
  assumes "n \<le> 2 ^ u"
  shows "distinct (group_deltas u n) \<and> set (group_deltas u n) = {..<n}"
proof -
  let ?f = "\<lambda>j. tri j mod 2 ^ u"
  have inj: "inj_on ?f {0..<2 ^ u}"
    by (rule linorder_inj_onI) (auto dest: tri_residues_differ)
  have "?f ` {0..<2 ^ u} = {0..<2 ^ u}"
    using inj by (intro card_subset_eq) (auto simp: card_image)
  then have "set (map ?f [0..<2 ^ u]) = {0..<2 ^ u}" by simp
  moreover have "distinct (map ?f [0..<2 ^ u])" using inj by (simp add: distinct_map)
  ultimately show ?thesis using assms unfolding group_deltas_def by auto
qed

section \<open>The rounds of one rank\<close>

text \<open>A context is complete when every group has its ranks: the rank in group \<open>g\<close> at offset \<open>l\<close> is \<open>R g l\<close>.\<close>

definition complete_ctx :: "(nat \<Rightarrow> nat \<Rightarrow> nat) \<Rightarrow> schedule_ctx \<Rightarrow> bool" where
  "complete_ctx R x \<longleftrightarrow> 0 < sc_groupSize x \<and> sc_nGroups x \<le> 2 ^ 30 \<and> sc_group x < sc_nGroups x \<and>
     sc_local x < sc_groupSize x \<and> sc_nRanks x = sc_nGroups x * sc_groupSize x \<and>
     (\<forall>g < sc_nGroups x. \<forall>l < sc_groupSize x. rank_in_group x g l = Some (R g l))"

definition peers :: "(nat \<Rightarrow> nat \<Rightarrow> nat) \<Rightarrow> schedule_ctx \<Rightarrow> nat \<Rightarrow> nat \<Rightarrow> nat \<times> nat" where
  "peers R x d delta =
     (let n = sc_nGroups x; g = sc_groupSize x
      in (R ((sc_group x + d) mod n) ((sc_local x + delta) mod g),
          R ((sc_group x + n - d) mod n) ((sc_local x + g - delta) mod g)))"

lemma unat_small:
  assumes "a < 2 ^ 32"
  shows "unat (of_nat a :: u32) = a"
  using assms by (simp add: unat_of_nat take_bit_nat_eq_self)

lemma room: "(2 :: nat) ^ 30 + 2 ^ 30 < 2 ^ 32"
  by simp

lemma send_group_nat:
  assumes "complete_ctx R x" and "d < sc_nGroups x"
  shows "send_group x (of_nat d) = (sc_group x + d) mod sc_nGroups x"
proof -
  have "sc_group x + d < 2 ^ 32" "sc_nGroups x < 2 ^ 32" using assms by (simp_all add: complete_ctx_def)
  then show ?thesis unfolding send_group_def of_nat_add [symmetric] unat_mod_distrib by (simp only: unat_small)
qed

lemma recv_group_nat:
  assumes "complete_ctx R x" and "d < sc_nGroups x"
  shows "recv_group x (of_nat d) = (sc_group x + sc_nGroups x - d) mod sc_nGroups x"
proof -
  have "sc_nGroups x \<le> 2 ^ 30" "sc_group x < sc_nGroups x" using assms(1) by (simp_all add: complete_ctx_def)
  moreover have "sc_group x + sc_nGroups x - d \<le> sc_group x + sc_nGroups x" by (rule diff_le_self)
  ultimately have small: "sc_group x + sc_nGroups x - d < 2 ^ 32" "sc_nGroups x < 2 ^ 32" using room by linarith+
  have "(of_nat (sc_group x) - of_nat d + of_nat (sc_nGroups x) :: u32) = of_nat (sc_group x + sc_nGroups x - d)"
    using assms(2) by (simp add: of_nat_diff)
  then show ?thesis unfolding recv_group_def unat_mod_distrib using small by (simp only: unat_small)
qed

lemma recv_local_nat:
  assumes "delta < sc_groupSize x"
  shows "recv_local x delta = (sc_local x + sc_groupSize x - delta) mod sc_groupSize x"
proof -
  have "int (sc_local x) - int delta + int (sc_groupSize x) = int (sc_local x + sc_groupSize x - delta)"
    using assms by simp
  then show ?thesis unfolding recv_local_def by (simp only: zmod_int [symmetric] nat_int)
qed

lemma schedule_deltas_run:
  assumes "complete_ctx R x" and "d < sc_nGroups x" and "\<forall>delta \<in> set deltas. delta < sc_groupSize x"
    and "length rounds + length deltas \<le> sc_nRanks x"
  shows "schedule_deltas x (of_nat d) deltas rounds = Some (rounds @ map (peers R x d) deltas)"
  using assms(3,4)
proof (induction deltas arbitrary: rounds)
  case (Cons delta deltas)
  have "(sc_group x + d) mod sc_nGroups x < sc_nGroups x" "(sc_group x + sc_nGroups x - d) mod sc_nGroups x < sc_nGroups x"
      "(sc_local x + delta) mod sc_groupSize x < sc_groupSize x"
      "(sc_local x + sc_groupSize x - delta) mod sc_groupSize x < sc_groupSize x"
    using assms(1,2) by (simp_all add: complete_ctx_def)
  then show ?case
    using Cons assms(1,2) send_group_nat [OF assms(1,2)] recv_group_nat [OF assms(1,2)] recv_local_nat [of delta x]
    by (simp add: complete_ctx_def peers_def send_local_def Let_def)
qed simp

text \<open>What the loop still appends from its \<open>j\<close>-th iteration on.\<close>

definition rounds_from :: "(nat \<Rightarrow> nat \<Rightarrow> nat) \<Rightarrow> schedule_ctx \<Rightarrow> nat \<Rightarrow> nat \<Rightarrow> (nat \<times> nat) list" where
  "rounds_from R x u j = concat (map (\<lambda>d. map (peers R x d) [0..<sc_groupSize x])
     (filter (\<lambda>d. d < sc_nGroups x) (map (\<lambda>j. tri j mod 2 ^ u) [j..<2 ^ u])))"

lemma rounds_from_step:
  assumes "j < 2 ^ u"
  shows "rounds_from R x u j =
    (if tri j mod 2 ^ u < sc_nGroups x then map (peers R x (tri j mod 2 ^ u)) [0..<sc_groupSize x] else []) @
    rounds_from R x u (Suc j)"
  using assms by (simp add: rounds_from_def upt_conv_Cons)

lemma next_delta:
  assumes "u \<le> 30" and "j < 2 ^ u"
  shows "(of_nat (tri j mod 2 ^ u) + (of_nat j + 1)) AND (2 ^ u - 1 :: u32) = of_nat (tri (Suc j) mod 2 ^ u)"
proof -
  have "(2 :: nat) ^ u \<le> 2 ^ 30" using assms(1) by (intro power_increasing) simp_all
  moreover have "tri j mod 2 ^ u < 2 ^ u" "tri (Suc j) mod 2 ^ u < 2 ^ u" by simp_all
  ultimately have small: "tri j mod 2 ^ u + Suc j < 2 ^ 32" "tri (Suc j) mod 2 ^ u < 2 ^ 32"
    using assms(2) room by linarith+
  have "(2 ^ u - 1 :: u32) = mask u" by (simp add: mask_eq_decr_exp)
  then have "(of_nat (tri j mod 2 ^ u) + (of_nat j + 1)) AND (2 ^ u - 1 :: u32) =
      take_bit u (of_nat (tri j mod 2 ^ u + Suc j))"
    by (simp only: take_bit_eq_mask of_nat_add of_nat_Suc add.commute)
  moreover have "unat (take_bit u (of_nat (tri j mod 2 ^ u + Suc j) :: u32)) = (tri j mod 2 ^ u + Suc j) mod 2 ^ u"
    unfolding unsigned_take_bit_eq unat_small [OF small(1)] by (rule take_bit_eq_mod)
  moreover have "(tri j mod 2 ^ u + Suc j) mod 2 ^ u = tri (Suc j) mod 2 ^ u" unfolding tri_Suc by (rule mod_add_left_eq)
  ultimately show ?thesis unfolding word_unat_eq_iff unat_small [OF small(2)] by simp
qed

lemma schedule_rounds_run:
  assumes "complete_ctx R x" and "u \<le> 30" and "j < 2 ^ u"
    and "length rounds + length (rounds_from R x u j) \<le> sc_nRanks x"
  shows "schedule_rounds x (2 ^ u) (of_nat j) (of_nat (tri j mod 2 ^ u)) rounds = Some (rounds @ rounds_from R x u j)"
  using assms(3,4)
proof (induction "2 ^ u - j" arbitrary: j rounds)
  case (Suc k)
  let ?d = "tri j mod 2 ^ u"
  have pow: "(2 :: nat) ^ u \<le> 2 ^ 30" using assms(2) by (intro power_increasing) simp_all
  moreover have "?d < 2 ^ u" by simp
  moreover have "sc_nGroups x \<le> 2 ^ 30" using assms(1) by (simp add: complete_ctx_def)
  ultimately have small: "?d < 2 ^ 32" "sc_nGroups x < 2 ^ 32" "Suc j < 2 ^ 32" "(2 :: nat) ^ u < 2 ^ 32"
    using Suc.prems(1) room by linarith+
  have less: "(of_nat ?d :: u32) < of_nat (sc_nGroups x) \<longleftrightarrow> ?d < sc_nGroups x"
    unfolding word_less_nat_alt unat_small [OF small(1)] unat_small [OF small(2)] ..
  note split = rounds_from_step [OF Suc.prems(1), of R x]
  define new where "new = (if ?d < sc_nGroups x then map (peers R x ?d) [0..<sc_groupSize x] else [])"
  have appended: "(if (of_nat ?d :: u32) < of_nat (sc_nGroups x)
      then schedule_deltas x (of_nat ?d) [0..<sc_groupSize x] rounds else Some rounds) = Some (rounds @ new)"
  proof (cases "?d < sc_nGroups x")
    case True
    then have "length rounds + length [0..<sc_groupSize x] \<le> sc_nRanks x" using Suc.prems(2) split by simp
    with True show ?thesis using schedule_deltas_run [OF assms(1) True, of "[0..<sc_groupSize x]"] by (simp add: less new_def)
  qed (simp add: less new_def)
  have succ: "(of_nat j + 1 :: u32) = of_nat (Suc j)" by simp
  have last: "(of_nat (Suc j) :: u32) = 2 ^ u \<longleftrightarrow> Suc j = 2 ^ u"
  proof -
    have "(2 ^ u :: u32) = of_nat (2 ^ u)" by simp
    then show ?thesis unfolding word_unat_eq_iff by (simp only: unat_small [OF small(3)] unat_small [OF small(4)])
  qed
  show ?case
  proof (cases "Suc j = 2 ^ u")
    case True
    then have "rounds_from R x u (Suc j) = []" by (simp add: rounds_from_def)
    moreover have "(of_nat j + 1 :: u32) = 2 ^ u" unfolding succ last by (rule True)
    ultimately show ?thesis
      using split by (subst schedule_rounds.simps) (simp add: appended new_def [symmetric] Let_def)
  next
    case False
    then have "Suc j < 2 ^ u" using Suc.prems(1) by simp
    moreover have "length (rounds @ new) + length (rounds_from R x u (Suc j)) \<le> sc_nRanks x"
      using Suc.prems(2) split by (simp add: new_def)
    moreover have "k = 2 ^ u - Suc j" using Suc.hyps(2) by simp
    ultimately have "schedule_rounds x (2 ^ u) (of_nat (Suc j)) (of_nat (tri (Suc j) mod 2 ^ u)) (rounds @ new) =
        Some ((rounds @ new) @ rounds_from R x u (Suc j))" using Suc.hyps(1) by blast
    moreover have "(of_nat j + 1 :: u32) \<noteq> 2 ^ u" unfolding succ last by (rule False)
    ultimately show ?thesis
      using split by (subst schedule_rounds.simps)
        (simp add: appended new_def [symmetric] Let_def next_delta [OF assms(2) Suc.prems(1)] succ [symmetric] del: of_nat_Suc)
  qed
qed simp

section \<open>All ranks together\<close>

lemma mod_shift:
  fixes a d n :: nat
  assumes "a < n" and "d < n"
  shows "(a + d) mod n = (if a + d < n then a + d else a + d - n)"
    and "(a + n - d) mod n = (if d \<le> a then a - d else a + n - d)"
proof -
  show "(a + d) mod n = (if a + d < n then a + d else a + d - n)" using assms by (simp add: le_mod_geq)
  show "(a + n - d) mod n = (if d \<le> a then a - d else a + n - d)"
  proof (cases "d \<le> a")
    case True
    then have "a + n - d = (a - d) + n" by simp
    then have "(a + n - d) mod n = (a - d) mod n" by (simp only: mod_add_self2)
    with True assms show ?thesis by simp
  qed (use assms in simp)
qed

lemma mod_shift_inject:
  fixes a d n :: nat
  assumes "a < n" and "d < n" and "e < n"
  shows "(a + d) mod n = (a + e) mod n \<longleftrightarrow> d = e" and "(a + n - d) mod n = (a + n - e) mod n \<longleftrightarrow> d = e"
  using assms by (simp_all add: mod_shift) linarith+

lemma mod_shift_back:
  fixes a d n :: nat
  assumes "a < n" and "d < n"
  shows "((a + d) mod n + n - d) mod n = a"
proof -
  have "(a + d) mod n < n" using assms(1) by simp
  then show ?thesis using assms by (simp add: mod_shift) linarith
qed

lemma product_as_concat: "concat (map (\<lambda>x. map (f x) ys) xs) = map (\<lambda>(x, y). f x y) (List.product xs ys)"
  by (induction xs) simp_all

text \<open>The place of a rank: the number of its group and its number within the group.\<close>

definition group_of :: "nat \<Rightarrow> cluster \<Rightarrow> nat \<Rightarrow> nat" where
  "group_of g c a = cl_rankToLocalRank c ! a div g + groups_before g (cl_nodeRanks c) (cl_rankToNode c ! a)"

definition rank_ctx :: "nat \<Rightarrow> cluster \<Rightarrow> nat \<Rightarrow> schedule_ctx" where
  "rank_ctx g c a = \<lparr>sc_nodeRanks = cl_nodeRanks c, sc_groups = groups_of g 0 (cl_nodeRanks c), sc_groupSize = g,
     sc_nGroups = length (cl_rankToNode c) div g, sc_group = group_of g c a, sc_local = cl_rankToLocalRank c ! a mod g,
     sc_nRanks = length (cl_rankToNode c)\<rparr>"

definition rank_at :: "nat \<Rightarrow> cluster \<Rightarrow> nat \<Rightarrow> nat \<Rightarrow> nat" where
  "rank_at g c G l = (case groups_of g 0 (cl_nodeRanks c) ! G of (i, k) \<Rightarrow> cl_nodeRanks c ! i ! (k + l))"

lemma number_of_groups:
  assumes "cluster_ok c" and "0 < g" and "\<forall>node \<in> set (cl_nodeRanks c). g dvd length node"
  shows "length (groups_of g 0 (cl_nodeRanks c)) = length (cl_rankToNode c) div g"
    and "length (cl_rankToNode c) div g * g = length (cl_rankToNode c)"
proof -
  have "length (groups_of g 0 (cl_nodeRanks c)) * g = length (cl_rankToNode c)"
    unfolding length_groups_of sum_list_div [OF assms(3)] cluster_size [OF assms(1)] ..
  then show "length (groups_of g 0 (cl_nodeRanks c)) = length (cl_rankToNode c) div g"
    "length (cl_rankToNode c) div g * g = length (cl_rankToNode c)"
    using assms(2) by (metis nonzero_mult_div_cancel_right not_gr_zero)+
qed

lemma rank_placed:
  assumes "cluster_ok c" and "0 < g" and "\<forall>node \<in> set (cl_nodeRanks c). g dvd length node"
    and "a < length (cl_rankToNode c)"
  shows "group_of g c a < length (cl_rankToNode c) div g \<and> rank_at g c (group_of g c a) (cl_rankToLocalRank c ! a mod g) = a"
proof -
  let ?i = "cl_rankToNode c ! a" and ?l = "cl_rankToLocalRank c ! a" and ?t = "cl_nodeRanks c"
  have ok: "?i < length ?t" "?l < length (?t ! ?i)" "?t ! ?i ! ?l = a" using assms(1,4) by (simp_all add: cluster_ok_def)
  have "g dvd length (?t ! ?i)" using assms(3) ok(1) by simp
  then have "?l div g < length (?t ! ?i) div g" 
    using ok(2) assms(2) by (simp add: div_less_iff_less_mult)
  note placed = nth_groups_of [OF ok(1) this, of 0]
  then show ?thesis using number_of_groups(1) [OF assms(1-3)] ok(3)
    by (simp add: group_of_def rank_at_def add.commute)
qed

lemma place_ranked:
  assumes "cluster_ok c" and "0 < g" and "\<forall>node \<in> set (cl_nodeRanks c). g dvd length node"
    and "G < length (cl_rankToNode c) div g" and "l < g"
  shows "rank_in_group (rank_ctx g c b) G l = Some (rank_at g c G l) \<and> rank_at g c G l < length (cl_rankToNode c) \<and>
    group_of g c (rank_at g c G l) = G \<and> cl_rankToLocalRank c ! rank_at g c G l mod g = l"
proof -
  let ?t = "cl_nodeRanks c"
  have len: "G < length (groups_of g 0 ?t)" using assms(4) number_of_groups(1) [OF assms(1-3)] by simp
  from groups_of_index [OF this] obtain i k where ik: "i < length ?t" "k < length (?t ! i) div g" "G = groups_before g ?t i + k" .
  have nth: "groups_of g 0 ?t ! G = (i, k * g)" using nth_groups_of [OF ik(1,2), of 0] ik(3) by simp
  have "g dvd length (?t ! i)" using assms(3) ik(1) by simp
  then have "Suc k * g \<le> length (?t ! i)" using ik(2) by (metis Suc_leI dvd_div_mult_self mult_le_mono1)
  then have fits: "k * g + l < length (?t ! i)" using assms(5) by simp
  then have "?t ! i ! (k * g + l) < length (cl_rankToNode c)" "cl_rankToNode c ! (?t ! i ! (k * g + l)) = i"
    "cl_rankToLocalRank c ! (?t ! i ! (k * g + l)) = k * g + l"
    using assms(1) ik(1) by (simp_all add: cluster_ok_def)
  then show ?thesis using len ik(1) fits assms(5)
    by (simp add: rank_at_def nth rank_in_group_def rank_ctx_def group_of_def add.commute [of k] ik(3) [symmetric])
qed

lemma rank_ctx_complete:
  assumes "cluster_ok c" and "0 < g" and "\<forall>node \<in> set (cl_nodeRanks c). g dvd length node"
    and "a < length (cl_rankToNode c)" and "length (cl_rankToNode c) \<le> 2 ^ 30"
  shows "complete_ctx (rank_at g c) (rank_ctx g c a)"
proof -
  have "length (cl_rankToNode c) div g \<le> 2 ^ 30" using assms(5) div_le_dividend le_trans by blast
  then show ?thesis
    using rank_placed [OF assms(1-4)] place_ranked [OF assms(1-3)] number_of_groups(2) [OF assms(1-3)] assms(2)
    unfolding complete_ctx_def by (simp add: rank_ctx_def)
qed

lemma p2p_schedule_run:
  assumes "cluster_ok c" and "0 < param" and "a < length (cl_rankToNode c)" and "length (cl_rankToNode c) \<le> 2 ^ 30"
    and "cl_maxLocalRanks c = fold max (map length (cl_nodeRanks c)) 0"
  obtains g u where "0 < g" and "\<forall>node \<in> set (cl_nodeRanks c). g dvd length node"
    and "length (cl_rankToNode c) div g \<le> 2 ^ u"
    and "\<And>b. b < length (cl_rankToNode c) \<Longrightarrow>
      p2p_schedule param c b = Some (ncclSuccess, rounds_from (rank_at g c) (rank_ctx g c b) u 0)"
    and "\<And>b. length (rounds_from (rank_at g c) (rank_ctx g c b) u 0) = length (cl_rankToNode c)"
proof -
  let ?t = "cl_nodeRanks c" and ?N = "length (cl_rankToNode c)"
  define g0 where "g0 = (if 1 < length ?t then param else cl_maxLocalRanks c)"
  have t: "?t \<noteq> []" using assms(1,3) by (auto simp: cluster_ok_def)
  have "0 < g0"
  proof (cases "1 < length ?t")
    case False
    with t obtain node where "?t = [node]" by (cases ?t) auto
    moreover have "?t ! 0 \<noteq> []" using assms(1) t by (simp add: cluster_ok_def)
    ultimately show ?thesis by (simp add: g0_def assms(5))
  qed (simp add: g0_def assms(2))
  from fit_group_size_ok [OF this, of ?t] obtain g where g: "fit_group_size g0 ?t = Some g" "0 < g"
      "\<forall>node \<in> set ?t. g dvd length node" by auto
  note n = number_of_groups [OF assms(1) g(2,3)]
  let ?n = "?N div g"
  have "0 < ?n" using rank_placed [OF assms(1) g(2,3) assms(3)] by simp
  have "?n \<le> 2 ^ 30" using assms(4) div_le_dividend le_trans by blast
  have small: "unat (of_nat ?n :: u32) = ?n" by (rule unat_small) (use \<open>?n \<le> 2 ^ 30\<close> in simp)
  define u where "u = nat (log2_up (of_nat ?n :: u32))"
  have "(of_nat ?n :: u32) \<noteq> 0" using small \<open>0 < ?n\<close> by auto
  note log = log2_up_tight [OF this, folded u_def, unfolded small]
  have "u - 1 < 30" if "0 < u"
  proof (rule power_less_imp_less_exp [of "2 :: nat"])
    have "2 ^ (u - 1) < ?n" using log that by blast
    then show "2 ^ (u - 1) < (2 :: nat) ^ 30" using \<open>?n \<le> 2 ^ 30\<close> by (rule less_le_trans)
  qed simp
  then have "u \<le> 30" by linarith
  have "2 ^ u < (2 :: nat) ^ 32" using \<open>u \<le> 30\<close> by (intro power_strict_increasing) simp_all
  then have "unat (2 ^ u :: u32) = 2 ^ u" using unat_small [of "2 ^ u"] by simp
  moreover have "?n \<le> 2 ^ (LENGTH(32) - 1)" using \<open>?n \<le> 2 ^ 30\<close> by simp
  ultimately have pow: "pow2_up (of_nat ?n :: u32) = 2 ^ u" using log by (simp add: word_unat_eq_iff)
  have perm: "length (group_deltas u ?n) = ?n"
    using group_deltas_permute [of ?n u] log by (metis card_lessThan distinct_card)
  have count: "length (rounds_from (rank_at g c) (rank_ctx g c b) u 0) = ?N" for b
    using perm n(2) by (simp add: rounds_from_def rank_ctx_def group_deltas_def product_as_concat)
  have "p2p_schedule param c b = Some (ncclSuccess, rounds_from (rank_at g c) (rank_ctx g c b) u 0)" if b: "b < ?N" for b
  proof -
    note complete = rank_ctx_complete [OF assms(1) g(2,3) b assms(4)]
    have "schedule_rounds (rank_ctx g c b) (2 ^ u) 0 0 [] = Some (rounds_from (rank_at g c) (rank_ctx g c b) u 0)"
      using schedule_rounds_run [OF complete \<open>u \<le> 30\<close>, of 0 "[]"] count [of b] by (simp add: rank_ctx_def)
    moreover have "place_groups g ?n (cl_rankToNode c ! b) 0 ?t [] (cl_rankToLocalRank c ! b div g) =
        Some (Inr (groups_of g 0 ?t, group_of g c b))"
      using place_groups_spec [OF g(3), of "[]" 0 ?n "cl_rankToNode c ! b" "cl_rankToLocalRank c ! b div g"] n(1)
      by (simp add: group_of_def)
    moreover have "p2p_group_size param c = Some g" using g(1) by (simp add: p2p_group_size_def g0_def)
    ultimately show ?thesis using g(2) count [of b] by (simp add: p2p_schedule_def n(1) pow rank_ctx_def Let_def)
  qed
  then show thesis using that g(2,3) log count by blast
qed

definition round_table :: "nat \<Rightarrow> cluster \<Rightarrow> nat \<Rightarrow> nat \<Rightarrow> (nat \<times> nat) list" where
  "round_table g c u a = map (\<lambda>(d, delta). peers (rank_at g c) (rank_ctx g c a) d delta)
     (List.product (group_deltas u (length (cl_rankToNode c) div g)) [0..<g])"

lemma rounds_as_table: "rounds_from (rank_at g c) (rank_ctx g c a) u 0 = round_table g c u a"
  by (simp add: rounds_from_def round_table_def product_as_concat group_deltas_def rank_ctx_def)

lemma peers_of:
  "peers (rank_at g c) (rank_ctx g c a) d delta =
     (let n = length (cl_rankToNode c) div g; l = cl_rankToLocalRank c ! a mod g
      in (rank_at g c ((group_of g c a + d) mod n) ((l + delta) mod g),
          rank_at g c ((group_of g c a + n - d) mod n) ((l + g - delta) mod g)))"
  by (simp add: peers_def rank_ctx_def Let_def)

lemma rank_at_inject:
  assumes "cluster_ok c" and "0 < g" and "\<forall>node \<in> set (cl_nodeRanks c). g dvd length node"
    and "G < length (cl_rankToNode c) div g" "l < g" "H < length (cl_rankToNode c) div g" "m < g"
  shows "rank_at g c G l = rank_at g c H m \<longleftrightarrow> G = H \<and> l = m"
proof
  assume eq: "rank_at g c G l = rank_at g c H m"
  have "group_of g c (rank_at g c G l) = G" "cl_rankToLocalRank c ! rank_at g c G l mod g = l"
    by (simp_all add: place_ranked [OF assms(1-5)])
  moreover have "group_of g c (rank_at g c H m) = H" "cl_rankToLocalRank c ! rank_at g c H m mod g = m"
    by (simp_all add: place_ranked [OF assms(1-3) assms(6,7)])
  ultimately show "G = H \<and> l = m" unfolding eq by simp
qed simp

lemma round_table_permutes:
  assumes "cluster_ok c" and "0 < g" and "\<forall>node \<in> set (cl_nodeRanks c). g dvd length node"
    and "length (cl_rankToNode c) div g \<le> 2 ^ u" and "a < length (cl_rankToNode c)"
    and "h = fst \<or> h = snd"
  shows "distinct (map h (round_table g c u a)) \<and> set (map h (round_table g c u a)) = {..<length (cl_rankToNode c)}"
proof -
  let ?N = "length (cl_rankToNode c)"
  let ?n = "?N div g" and ?G = "group_of g c a" and ?l = "cl_rankToLocalRank c ! a mod g"
  let ?f = "\<lambda>(d, delta). h (peers (rank_at g c) (rank_ctx g c a) d delta)"
  let ?P = "List.product (group_deltas u ?n) [0..<g]"
  have perm: "distinct (group_deltas u ?n)" "set (group_deltas u ?n) = {..<?n}" using group_deltas_permute [OF assms(4)] by blast+
  then have P: "distinct ?P" "set ?P = {..<?n} \<times> {..<g}" by (simp_all add: distinct_product atLeast0LessThan)
  have G: "?G < ?n" "?l < g" using rank_placed [OF assms(1-3,5)] assms(2) by simp_all
  then have "0 < ?n" by simp
  have at: "x mod ?n < ?n" "y mod g < g" for x y using \<open>0 < ?n\<close> assms(2) by simp_all
  have inj: "inj_on ?f (set ?P)"
    using assms(6) mod_shift_inject [OF G(1)] mod_shift_inject [OF G(2)] unfolding P(2)
    by (auto intro!: inj_onI simp: peers_of Let_def rank_at_inject [OF assms(1-3) at at])
  have eq: "map h (round_table g c u a) = map ?f ?P" by (simp add: round_table_def case_prod_beta comp_def)
  have "distinct (map h (round_table g c u a))" unfolding eq using inj P(1) by (simp add: distinct_map)
  moreover have "?f ` set ?P \<subseteq> {..<?N}"
    using assms(6) place_ranked [OF assms(1-3) at] unfolding P(2) by (auto simp: peers_of Let_def)
  moreover have "card (?f ` set ?P) = card {..<?N}"
    unfolding card_image [OF inj] unfolding P(2) card_cartesian_product card_lessThan by (rule number_of_groups(2) [OF assms(1-3)])
  ultimately show ?thesis unfolding eq by (simp add: card_subset_eq)
qed

lemma round_table_matches:
  assumes "cluster_ok c" and "0 < g" and "\<forall>node \<in> set (cl_nodeRanks c). g dvd length node"
    and "length (cl_rankToNode c) div g \<le> 2 ^ u" and "a < length (cl_rankToNode c)" and "r < length (round_table g c u a)"
  shows "snd (round_table g c u (fst (round_table g c u a ! r)) ! r) = a"
proof -
  let ?n = "length (cl_rankToNode c) div g" and ?G = "group_of g c a" and ?l = "cl_rankToLocalRank c ! a mod g"
  let ?P = "List.product (group_deltas u ?n) [0..<g]"
  have r: "r < length ?P" using assms(6) by (simp add: round_table_def)
  obtain d delta where d: "?P ! r = (d, delta)" by force
  with nth_mem [OF r] have less: "d < ?n" "delta < g" using group_deltas_permute [OF assms(4)] by auto
  have G: "?G < ?n" "?l < g" using rank_placed [OF assms(1-3,5)] assms(2) by simp_all
  define b where "b = rank_at g c ((?G + d) mod ?n) ((?l + delta) mod g)"
  have "(?G + d) mod ?n < ?n" "(?l + delta) mod g < g" using G by simp_all
  note b = place_ranked [OF assms(1-3) this, folded b_def]
  have "fst (round_table g c u a ! r) = b" using r d by (simp add: round_table_def peers_of b_def Let_def)
  moreover have "snd (round_table g c u b ! r) = a"
    using r d b mod_shift_back [OF G(1) less(1)] mod_shift_back [OF G(2) less(2)] rank_placed [OF assms(1-3,5)]
    by (simp add: round_table_def peers_of Let_def)
  ultimately show ?thesis by simp
qed

text \<open>C30. The point-to-point schedules of all ranks fit together, for any distribution of up to \<open>2 ^ 30\<close> ranks
  over nodes: every rank obtains a schedule of one round per rank, in which it sends to each rank once and receives from each
  rank once, and in every round the rank it sends to is receiving from it.\<close>

theorem p2p_schedules_match:
  assumes "0 < param" and "length firstRanks \<le> 2 ^ 30"
  shows "\<exists>schedule. \<forall>a < length firstRanks.
    p2p_schedule param (make_cluster firstRanks) a = Some (ncclSuccess, schedule a) \<and>
    length (schedule a) = length firstRanks \<and>
    distinct (map fst (schedule a)) \<and> set (map fst (schedule a)) = {..<length firstRanks} \<and>
    distinct (map snd (schedule a)) \<and> set (map snd (schedule a)) = {..<length firstRanks} \<and>
    (\<forall>r < length firstRanks. snd (schedule (fst (schedule a ! r)) ! r) = a)"
proof (cases "firstRanks = []")
  case False
  define c where "c = make_cluster firstRanks"
  have c: "cluster_ok c" "length (cl_rankToNode c) = length firstRanks" "cl_maxLocalRanks c = fold max (map length (cl_nodeRanks c)) 0"
    unfolding c_def using make_cluster_tables [of firstRanks] by blast+
  have "0 < length (cl_rankToNode c)" "length (cl_rankToNode c) \<le> 2 ^ 30" using False assms(2) c(2) by simp_all
  from p2p_schedule_run [OF c(1) assms(1) this c(3)] obtain g u where run:
      "0 < g" "\<forall>node \<in> set (cl_nodeRanks c). g dvd length node" "length (cl_rankToNode c) div g \<le> 2 ^ u"
      "\<And>b. b < length (cl_rankToNode c) \<Longrightarrow> p2p_schedule param c b = Some (ncclSuccess, round_table g c u b)"
      "\<And>b. length (round_table g c u b) = length (cl_rankToNode c)"
    unfolding rounds_as_table by blast
  note permutes = round_table_permutes [OF c(1) run(1-3)] and matches = round_table_matches [OF c(1) run(1-3)]
  show ?thesis
    unfolding c_def [symmetric]
    using run(4,5) permutes [where h = fst] permutes [where h = snd] matches by (intro exI [of _ "round_table g c u"]) (simp add: c(2))
qed simp

theorem p2p_schedules_match_witness:
  "\<exists>schedule. p2p_schedule 8 (make_cluster [0, 0, 2, 2]) 3 = Some (ncclSuccess, schedule) \<and>
     distinct (map fst schedule) \<and> set (map fst schedule) = {..<4}"
proof -
  have "length [0, 0, 2, 2 :: int] \<le> 2 ^ 30" by simp
  from p2p_schedules_match [OF _ this, of 8] show ?thesis by auto
qed

end
