(* ===== verification/P2pParts.thy ===== *)
theory P2pParts
  imports Bitops
begin

text \<open>
  How one point-to-point transfer is spread over channels: \<open>ncclP2pPartBounds\<close>, \<open>ncclP2pChannelForPart\<close> and
  \<open>ncclP2pChannelToPart\<close> of \<open>src/include/device.h\<close> and \<open>ncclP2pChannelBaseForRound\<close> of
  \<open>src/include/channel.h\<close>.  An \<open>int\<close> that takes part in bit operations is a 32-bit word.
\<close>

section \<open>Parts of a transfer\<close>

definition align_up_word :: "'a::len word \<Rightarrow> 'a word \<Rightarrow> 'a word" where
  "align_up_word x a = (x + a - 1) AND (- a)"

definition part_size :: "u64 \<Rightarrow> u64 \<Rightarrow> u64" where
  "part_size nParts bytes = align_up_word (div_up bytes nParts) (push_bit 10 4)"

definition p2p_part_bounds :: "nat \<Rightarrow> nat \<Rightarrow> u64 \<Rightarrow> u64 \<times> u64" where
  "p2p_part_bounds nParts part bytes =
     (let partBytes = part_size (of_nat nParts) bytes
      in (min (of_nat part * partBytes) bytes, min (of_nat (part + 1) * partBytes) bytes))"

section \<open>Channels\<close>

definition NCCL_MAX_DEV_WORK_P2P_PER_BATCH :: nat where
  "NCCL_MAX_DEV_WORK_P2P_PER_BATCH = 8"

definition channel_for_part :: "u32 \<Rightarrow> u32 \<Rightarrow> u32 \<Rightarrow> u32" where
  "channel_for_part nP2pChannels base part = (base + part) AND (nP2pChannels - 1)"

definition channel_to_part :: "u32 \<Rightarrow> u32 \<Rightarrow> u32 \<Rightarrow> u32" where
  "channel_to_part nP2pChannels base channel = (channel - base) AND (nP2pChannels - 1)"

definition channel_base_for_round :: "nat \<Rightarrow> nat \<Rightarrow> u32 \<Rightarrow> nat \<Rightarrow> u8" where
  "channel_base_for_round nNodes groupSize p2pnChannels p2pRound =
     (let base = (if 1 < nNodes
        then p2pRound div groupSize * ((groupSize + NCCL_MAX_DEV_WORK_P2P_PER_BATCH - 1) div NCCL_MAX_DEV_WORK_P2P_PER_BATCH) +
          p2pRound mod groupSize div NCCL_MAX_DEV_WORK_P2P_PER_BATCH
        else p2pRound)
      in ucast (reverse_bits (of_nat base :: u32) (nat (log2_up p2pnChannels))))"

section \<open>The parts tile the transfer\<close>

lemma unat_small64: "a < 2 ^ 64 \<Longrightarrow> unat (of_nat a :: u64) = a"
  by (simp add: unat_of_nat take_bit_nat_eq_self)

lemma align_page:
  fixes x :: u64
  assumes "unat x + 4095 < 2 ^ 64"
  shows "unat (align_up_word x (push_bit 10 4)) = (unat x + 4095) div 4096 * 4096"
proof -
  have "align_up_word x (push_bit 10 4) = (x + 4095) AND NOT (mask 12)"
    by (simp add: align_up_word_def mask_eq_decr_exp add.commute)
  also have "\<dots> = push_bit 12 (drop_bit 12 (x + 4095))" by (rule bit_word_eqI) (auto simp: bit_simps)
  finally have "unat (align_up_word x (push_bit 10 4)) = unat (push_bit 12 (drop_bit 12 (x + 4095)))" by simp
  also have "\<dots> = take_bit 64 (push_bit 12 (drop_bit 12 (unat (x + 4095))))"
    unfolding unsigned_push_bit_eq unat_drop_bit_eq by simp
  also have "unat (x + 4095) = unat x + 4095" using assms by (simp add: unat_word_ariths)
  also have "take_bit 64 (push_bit 12 (drop_bit 12 (unat x + 4095))) = push_bit 12 (drop_bit 12 (unat x + 4095))"
  proof (rule take_bit_nat_eq_self)
    have "(unat x + 4095) div 4096 * 4096 \<le> unat x + 4095" by (rule div_times_less_eq_dividend)
    then show "push_bit 12 (drop_bit 12 (unat x + 4095)) < 2 ^ 64" using assms by (simp add: push_bit_eq_mult drop_bit_eq_div)
  qed
  finally show ?thesis by (simp add: push_bit_eq_mult drop_bit_eq_div)
qed

lemma part_size_spec:
  assumes "0 < nParts" and "unat bytes + 5000 * nParts < 2 ^ 64"
  shows "4096 dvd unat (part_size (of_nat nParts) bytes) \<and>
    unat bytes \<le> nParts * unat (part_size (of_nat nParts) bytes) \<and>
    nParts * unat (part_size (of_nat nParts) bytes) < 2 ^ 64"
proof -
  let ?b = "unat bytes" and ?q = "(unat bytes + nParts - 1) div nParts"
  have n: "unat (of_nat nParts :: u64) = nParts" by (rule unat_small64) (use assms in linarith)
  have "bytes + of_nat nParts - 1 = of_nat (?b + nParts - 1)" using assms(1) by (simp add: of_nat_diff)
  moreover have "?b + nParts - 1 < 2 ^ 64" using assms by linarith
  ultimately have q: "unat (div_up bytes (of_nat nParts)) = ?q"
    unfolding div_up_def unat_div_distrib n by (simp only: unat_small64)
  have "?q * nParts \<le> ?b + nParts - 1" by (rule div_times_less_eq_dividend)
  have "?q \<le> ?b + nParts - 1" by (rule div_le_dividend)
  then have fits: "?q + 4095 < 2 ^ 64" using assms by linarith
  let ?p = "(?q + 4095) div 4096 * 4096"
  have p: "unat (part_size (of_nat nParts) bytes) = ?p"
    unfolding part_size_def using align_page [of "div_up bytes (of_nat nParts)"] fits unfolding q by simp
  have le: "?p \<le> ?q + 4095" by (rule div_times_less_eq_dividend)
  have "?q + 4095 = ?p + (?q + 4095) mod 4096" by (rule div_mult_mod_eq [symmetric])
  moreover have "(?q + 4095) mod 4096 \<le> 4095" by simp
  ultimately have ge: "?q \<le> ?p" by linarith
  have "?b + nParts - 1 = ?q * nParts + (?b + nParts - 1) mod nParts" by (rule div_mult_mod_eq [symmetric])
  moreover have "(?b + nParts - 1) mod nParts < nParts" using assms(1) by simp
  ultimately have "?b \<le> ?q * nParts" using assms(1) by linarith
  also have "\<dots> \<le> ?p * nParts" using ge by (rule mult_le_mono1)
  finally have cover: "?b \<le> nParts * ?p" by (simp only: mult.commute)
  have "nParts * ?p \<le> nParts * (?q + 4095)" using le by (rule mult_le_mono2)
  also have "\<dots> = ?q * nParts + 4095 * nParts" by (simp add: algebra_simps)
  also have "\<dots> < 2 ^ 64" using \<open>?q * nParts \<le> ?b + nParts - 1\<close> assms by linarith
  finally show ?thesis unfolding p using cover by simp
qed

text \<open>C32. The parts of a transfer tile it: the first begins at 0, each begins where the one before it ends, the last
  ends at the size of the transfer, and every boundary inside is a multiple of 4 KB, for every size and every number of parts that leave
  room for the rounding below \<open>2 ^ 64\<close>.\<close>

theorem p2p_parts_tile:
  assumes "0 < nParts" and "unat bytes + 5000 * nParts < 2 ^ 64" and "part < nParts"
  shows "(let (lo, hi) = p2p_part_bounds nParts part bytes
    in lo \<le> hi \<and> (part = 0 \<longrightarrow> lo = 0) \<and> (part + 1 = nParts \<longrightarrow> hi = bytes) \<and>
       (part + 1 < nParts \<longrightarrow> fst (p2p_part_bounds nParts (part + 1) bytes) = hi) \<and>
       (hi \<noteq> bytes \<longrightarrow> 4096 dvd unat hi))"
proof -
  let ?p = "part_size (of_nat nParts) bytes"
  note p = part_size_spec [OF assms(1,2)]
  have at: "unat (of_nat k * ?p) = k * unat ?p" if "k \<le> nParts" for k
  proof -
    have "k * unat ?p \<le> nParts * unat ?p" using that by (rule mult_le_mono1)
    then have "k * unat ?p < 2 ^ 64" using p by linarith
    moreover have "of_nat k * ?p = of_nat (k * unat ?p)" by simp
    ultimately show ?thesis by (simp only: unat_small64)
  qed
  have "of_nat part * ?p \<le> of_nat (part + 1) * ?p"
    unfolding word_le_nat_alt using at [of part] at [of "part + 1"] assms(3) by simp
  moreover have "min (of_nat nParts * ?p) bytes = bytes"
    using at [of nParts] p by (simp add: word_le_nat_alt min_absorb2)
  moreover have "4096 dvd unat (of_nat (part + 1) * ?p)"
    using at [of "part + 1"] assms(3) p by (simp del: of_nat_Suc of_nat_add)
  ultimately show ?thesis by (auto simp: p2p_part_bounds_def Let_def min_def)
qed

theorem p2p_parts_tile_witness: "snd (p2p_part_bounds 3 2 10000) = 10000"
  using p2p_parts_tile [of 3 10000 2] by (simp add: case_prod_beta Let_def)

section \<open>Channels of the parts\<close>

lemma mask_below:
  assumes "n = (2 :: u32) ^ k"
  shows "x AND (n - 1) = take_bit k x"
  unfolding assms take_bit_eq_mask mask_eq_decr_exp ..

lemma log2_up_power:
  assumes "k < 32"
  shows "nat (log2_up (2 ^ k :: u32)) = k"
proof -
  have "(2 ^ k :: u32) \<noteq> 0" using assms by simp
  note log = log2_up_tight [OF this]
  have "unat (2 ^ k :: u32) = 2 ^ k" using assms by (rule unat_exp [where 'a = 32, simplified])
  with log have "2 ^ k \<le> (2 :: nat) ^ nat (log2_up (2 ^ k :: u32))"
    "0 < nat (log2_up (2 ^ k :: u32)) \<longrightarrow> (2 :: nat) ^ (nat (log2_up (2 ^ k :: u32)) - 1) < 2 ^ k" by auto
  then have "k \<le> nat (log2_up (2 ^ k :: u32))" "0 < nat (log2_up (2 ^ k :: u32)) \<longrightarrow> nat (log2_up (2 ^ k :: u32)) - 1 < k" by simp_all
  then show ?thesis by linarith
qed

lemma bit_small:
  fixes x :: u32
  assumes "unat x < 2 ^ k"
  shows "take_bit k x = x"
  using assms by (simp add: word_unat_eq_iff unsigned_take_bit_eq take_bit_nat_eq_self)

lemma low_bits_diff:
  fixes a b :: u32
  assumes "k \<le> 32"
  shows "take_bit k (take_bit k a - b) = take_bit k (a - b)"
proof -
  have diff: "uint (take_bit k (x - y)) = take_bit k (uint x - uint y)" for x y :: u32
  proof -
    have "uint (x - y) = take_bit 32 (uint x - uint y)" by (simp add: uint_word_ariths take_bit_eq_mod)
    then show ?thesis unfolding unsigned_take_bit_eq using assms by (simp add: min_absorb1)
  qed
  have "take_bit k (take_bit k (uint a) - uint b) = take_bit k (uint a - uint b)"
    using take_bit_diff [of k "take_bit k (uint a)" "uint b"] take_bit_diff [of k "uint a" "uint b"] by simp
  then show ?thesis by (simp only: word_uint_eq_iff diff) (simp only: unsigned_take_bit_eq)
qed

lemma base_determines_round:
  assumes "k \<le> 8" and "r < 2 ^ k" and "q < 2 ^ k"
    and "channel_base_for_round 1 g (2 ^ k) r = channel_base_for_round 1 g (2 ^ k) q"
  shows "r = q"
proof -
  have k: "nat (log2_up (2 ^ k :: u32)) = k" using assms(1) by (intro log2_up_power) simp
  have bits: "bit (channel_base_for_round 1 g (2 ^ k) m) i = (i < k \<and> bit (of_nat m :: u32) (k - 1 - i))" for m i
    using assms(1) reverse_bits_bit [of k "of_nat m :: u32" i]
    by (auto simp: channel_base_for_round_def k bit_ucast_iff groups_ok_all)
  have "(2 :: nat) ^ k \<le> 2 ^ 8" using assms(1) by (intro power_increasing) simp_all
  then have small: "r < 2 ^ 32" "q < 2 ^ 32" using assms(2,3) by simp_all
  have "bit (of_nat r :: u32) i = bit (of_nat q :: u32) i" if "i < k" for i
  proof -
    have "k - 1 - i < k" "k - 1 - (k - 1 - i) = i" using that by simp_all
    then show ?thesis using bits [of r "k - 1 - i"] bits [of q "k - 1 - i"] assms(4) by simp
  qed
  then have "take_bit k (of_nat r :: u32) = take_bit k (of_nat q)" by (intro bit_word_eqI) (auto simp: bit_take_bit_iff)
  moreover have "unat (of_nat m :: u32) = m" if "m < 2 ^ 32" for m
    using that by (simp add: unat_of_nat take_bit_nat_eq_self)
  ultimately have "(of_nat r :: u32) = of_nat q"
    using bit_small [of "of_nat r" k] bit_small [of "of_nat q" k] assms(2,3) small by simp
  then have "unat (of_nat r :: u32) = unat (of_nat q :: u32)" by (rule arg_cong)
  then show ?thesis using small by (simp add: unat_of_nat take_bit_nat_eq_self)
qed

text \<open>Channels and parts: with a power of two of at most 256 channels, the part a channel computes for itself is the
  part the host gave it, different parts of a transfer use different channels, and on one node the first parts of different
  rounds use different channels.\<close>

theorem p2p_channels_are_distinct:
  assumes "k \<le> 8" and "unat part < 2 ^ k" and "unat part' < 2 ^ k" and "r < 2 ^ k" and "q < 2 ^ k"
  shows "unat (channel_for_part (2 ^ k) base part) < 2 ^ k \<and>
    channel_to_part (2 ^ k) base (channel_for_part (2 ^ k) base part) = part \<and>
    (channel_for_part (2 ^ k) base part = channel_for_part (2 ^ k) base part' \<longleftrightarrow> part = part') \<and>
    (channel_base_for_round 1 g (2 ^ k) r = channel_base_for_round 1 g (2 ^ k) q \<longleftrightarrow> r = q)"
proof -
  have inverse: "channel_to_part (2 ^ k) base (channel_for_part (2 ^ k) base p) = p" if "unat p < 2 ^ k" for p
  proof -
    have "channel_to_part (2 ^ k) base (channel_for_part (2 ^ k) base p) = take_bit k (take_bit k (base + p) - base)"
      by (simp only: channel_to_part_def channel_for_part_def mask_below)
    also have "\<dots> = take_bit k (base + p - base)"
      using assms(1) by (intro low_bits_diff) simp
    also have "\<dots> = p" using bit_small [OF that] by simp
    finally show ?thesis .
  qed
  have "unat (channel_for_part (2 ^ k) base part) = take_bit k (unat (base + part))"
    by (simp only: channel_for_part_def mask_below unsigned_take_bit_eq)
  then have "unat (channel_for_part (2 ^ k) base part) < 2 ^ k" by (simp only: take_bit_nat_less_exp)
  then show ?thesis
  proof (intro conjI)
    show "channel_to_part (2 ^ k) base (channel_for_part (2 ^ k) base part) = part" by (rule inverse [OF assms(2)])
    show "channel_for_part (2 ^ k) base part = channel_for_part (2 ^ k) base part' \<longleftrightarrow> part = part'"
    proof
      assume "channel_for_part (2 ^ k) base part = channel_for_part (2 ^ k) base part'"
      from arg_cong [OF this, of "channel_to_part (2 ^ k) base"] show "part = part'"
        unfolding inverse [OF assms(2)] inverse [OF assms(3)] .
    qed simp
    show "channel_base_for_round 1 g (2 ^ k) r = channel_base_for_round 1 g (2 ^ k) q \<longleftrightarrow> r = q"
      by (rule iffI [OF base_determines_round [OF assms(1,4,5)]]) simp_all
  qed
qed

theorem p2p_channels_are_distinct_witness:
  "channel_to_part 16 5 (channel_for_part 16 5 13) = 13 \<and> channel_base_for_round 1 8 16 3 \<noteq> channel_base_for_round 1 8 16 5"
  using p2p_channels_are_distinct [of 4 13 13 3 5 5 8] by simp

end
