(* ===== verification/CollSplit.thy ===== *)
theory CollSplit
  imports Prelude
begin

text \<open>
  The distribution of collectives over channels: \<open>scheduleCollTasksToPlan\<close> of \<open>src/enqueue.cc\<close> cuts each
  collective into cells and gives consecutive channels a first, some middle and a last run of cells; a kernel and the
  proxy find their run with \<open>ncclCollCbdPart\<close> of \<open>src/include/device.h\<close>.

  Byte counts and traffic are natural numbers: products of buffer sizes are taken not to reach \<open>2 ^ 64\<close>.  The one
  subtraction that could wrap, \<open>trafficPerChannel - currentTraffic\<close>, is taken modulo \<open>2 ^ 64\<close>, and so is the
  conversion of the signed number of middle channels.  \<open>None\<close> is a division by zero.  What \<open>calcCollChunking\<close>
  returns for a number of bytes is an argument.  The tasks are those that fit the budget of one plan.
\<close>

section \<open>Data\<close>

datatype nccl_func = FuncBroadcast | FuncReduce | FuncAllGather | FuncReduceScatter | FuncAllReduce | FuncOther

datatype nccl_proto = ProtoLL | ProtoLL128 | ProtoSimple

datatype data_type = Int8 | Uint8 | Int32 | Uint32 | Int64 | Uint64 | Float16 | Float32 | Float64 | Bfloat16 | Float8e4m3 | Float8e5m2

fun type_size :: "data_type \<Rightarrow> nat" where
  "type_size Int8 = 1" | "type_size Uint8 = 1" | "type_size Float8e4m3 = 1" | "type_size Float8e5m2 = 1"
| "type_size Float16 = 2" | "type_size Bfloat16 = 2"
| "type_size Int32 = 4" | "type_size Uint32 = 4" | "type_size Float32 = 4"
| "type_size Int64 = 8" | "type_size Uint64 = 8" | "type_size Float64 = 8"

fun traffic_per_byte :: "nccl_func \<Rightarrow> nat \<Rightarrow> nat" where
  "traffic_per_byte FuncAllReduce nRanks = 2"
| "traffic_per_byte FuncAllGather nRanks = nRanks"
| "traffic_per_byte FuncReduceScatter nRanks = nRanks"
| "traffic_per_byte _ nRanks = 1"

fun proto_grain_size :: "nccl_proto \<Rightarrow> nat" where
  "proto_grain_size ProtoLL = 16"
| "proto_grain_size ProtoLL128 = 32 * 8 div (128 div 8) * (128 div 8 - 1) * 8"
| "proto_grain_size ProtoSimple = 512"

record coll_task =
  ct_func :: nccl_func
  ct_protocol :: nccl_proto
  ct_datatype :: data_type
  ct_count :: nat
  ct_trafficBytes :: nat
  ct_nMaxChannels :: nat
  ct_isCollnet :: bool
  ct_isNvls :: bool

record coll_work =
  cw_channelLo :: nat
  cw_channelHi :: nat
  cw_countLo :: nat
  cw_countMid :: nat
  cw_countHi :: nat
  cw_chunkGrainsLo :: nat
  cw_chunkGrainsMid :: nat
  cw_chunkGrainsHi :: nat

datatype dev_work = Cbd coll_work | Collnet nat nat nat

definition div_up_nat :: "nat \<Rightarrow> nat \<Rightarrow> nat" where
  "div_up_nat x y = (x + y - 1) div y"

definition size_of_int :: "int \<Rightarrow> nat" where
  "size_of_int x = nat (x mod 2 ^ 64)"

definition MinTrafficPerChannel :: nat where
  "MinTrafficPerChannel = push_bit 10 32"

definition task_kind :: "coll_task \<Rightarrow> nat" where
  "task_kind task = 2 * of_bool (ct_isCollnet task) + of_bool (ct_isNvls task)"

section \<open>The traffic of each kind of task\<close>

definition estimate_step :: "nat list \<Rightarrow> coll_task \<Rightarrow> (nat \<times> nat) list \<Rightarrow> (nat \<times> nat) list" where
  "estimate_step nMaxChannels task est =
     (let kind = task_kind task; (traffic, channels) = est ! kind
      in est[kind := (traffic + max MinTrafficPerChannel (ct_trafficBytes task),
                      min (channels + ct_nMaxChannels task) (nMaxChannels ! kind))])"

definition estimate :: "nat list \<Rightarrow> coll_task list \<Rightarrow> (nat \<times> nat) list" where
  "estimate nMaxChannels tasks = fold (estimate_step nMaxChannels) tasks (replicate 4 (0, 0))"

section \<open>The cells of one task\<close>

definition cell_size :: "nat \<Rightarrow> nat" where
  "cell_size trafficPerByte = div_up_nat (div_up_nat MinTrafficPerChannel trafficPerByte) 16 * 16"

text \<open>From the number of cells to the first channel, the cells of a middle channel, of the first channel, the number of
  middle channels and the cells of the last channel.\<close>

definition split_cells ::
    "nat \<Rightarrow> nat \<Rightarrow> nat \<Rightarrow> nat \<Rightarrow> nat \<Rightarrow> nat \<Rightarrow> (nat \<times> nat \<times> nat \<times> int \<times> nat) option" where
  "split_cells cells trafficPerCell trafficPerChannel nMax channelId currentTraffic =
     (let cellsPerChannel = min cells (div_up_nat trafficPerChannel trafficPerCell);
          cellsLo = (if channelId + 1 = nMax then cells
            else min cells (div_up_nat (size_of_int (int trafficPerChannel - int currentTraffic)) trafficPerCell))
      in if cellsPerChannel = 0 then None
         else
           let nMidChannels = int ((cells - cellsLo) div cellsPerChannel);
               cellsHi = (cells - cellsLo) mod cellsPerChannel;
               nChannels = of_bool (cellsLo \<noteq> 0) + nMidChannels + of_bool (cellsHi \<noteq> 0)
           in (case (if int nMax < int channelId + nChannels then
                       let nMidChannels = int nMax - int channelId - 2; d = size_of_int (nMidChannels + 1) in
                       if d = 0 then None
                       else Some (nMidChannels, (cells - cellsLo) div d, (cells - cellsLo) div d + (cells - cellsLo) mod d)
                     else Some (nMidChannels, cellsPerChannel, cellsHi)) of
                 None \<Rightarrow> None
               | Some (nMidChannels, cellsPerChannel, cellsHi) \<Rightarrow>
                   let (nMidChannels, cellsHi) = (if cellsHi = 0 \<and> nMidChannels \<noteq> 0
                         then (nMidChannels - 1, cellsPerChannel) else (nMidChannels, cellsHi))
                   in Some (if cellsLo = 0 then
                              if nMidChannels = 0 then (channelId + 1, cellsPerChannel, cellsHi, nMidChannels, 0)
                              else (channelId + 1, cellsPerChannel, cellsPerChannel, nMidChannels - 1, cellsHi)
                            else (channelId, cellsPerChannel, cellsLo, nMidChannels, cellsHi))))"

text \<open>The state of the loop over the tasks: kind of the previous task, traffic per channel, current channel and the
  traffic it has.\<close>

record split_st =
  ss_kindPrev :: "nat option"
  ss_trafficPerChannel :: nat
  ss_channelId :: nat
  ss_currentTraffic :: nat

definition advance_channel :: "nat \<Rightarrow> nat \<Rightarrow> nat \<Rightarrow> nat \<Rightarrow> nat \<times> nat" where
  "advance_channel nMax trafficPerChannel channelId currentTraffic =
     (if trafficPerChannel \<le> currentTraffic \<and> channelId + 1 \<noteq> nMax then (channelId + 1, 0) else (channelId, currentTraffic))"

definition schedule_cbd :: "(nat \<Rightarrow> nat) \<Rightarrow> nat \<Rightarrow> nat \<Rightarrow> coll_task \<Rightarrow> split_st \<Rightarrow> (coll_work \<times> split_st) option" where
  "schedule_cbd chunkGrains nRanks nMax task s =
     (let elementSize = type_size (ct_datatype task);
          trafficPerByte = traffic_per_byte (ct_func task) nRanks * (if ct_protocol task = ProtoLL then 4 else 1);
          cellSize = cell_size trafficPerByte;
          elementsPerCell = cellSize div elementSize;
          cells = div_up_nat (ct_count task * elementSize) cellSize;
          trafficPerElement = elementSize * trafficPerByte;
          trafficPerCell = cellSize * trafficPerByte
      in case split_cells cells trafficPerCell (ss_trafficPerChannel s) nMax (ss_channelId s) (ss_currentTraffic s) of
           None \<Rightarrow> None
         | Some (channelId, cellsPerChannel, cellsLo, nMidChannels, cellsHi) \<Rightarrow>
             let countMid = (if nMidChannels \<noteq> 0 then cellsPerChannel * elementsPerCell else 0);
                 countLo = cellsLo * elementsPerCell; countHi = cellsHi * elementsPerCell;
                 excess = cells * elementsPerCell - ct_count task;
                 (countLo, countHi) = (if countHi \<noteq> 0 then (countLo, countHi - excess) else (countLo - excess, countHi));
                 nChannels = of_bool (countLo \<noteq> 0) + nat nMidChannels + of_bool (cellsHi \<noteq> 0);
                 work = \<lparr>cw_channelLo = channelId, cw_channelHi = channelId + nChannels - 1,
                         cw_countLo = countLo, cw_countMid = countMid, cw_countHi = countHi,
                         cw_chunkGrainsLo = (if countLo \<noteq> 0 then chunkGrains countLo else 0),
                         cw_chunkGrainsMid = (if nMidChannels \<noteq> 0 then chunkGrains countMid else 0),
                         cw_chunkGrainsHi = (if countHi \<noteq> 0 then chunkGrains countHi else 0)\<rparr>;
                 (channelId, currentTraffic) =
                   (if countHi \<noteq> 0 then (channelId + nChannels - 1, cellsHi * elementsPerCell * trafficPerElement)
                    else if nMidChannels \<noteq> 0 then (channelId + nChannels, 0)
                    else (channelId, ss_currentTraffic s + cellsLo * elementsPerCell * trafficPerElement));
                 (channelId, currentTraffic) = advance_channel nMax (ss_trafficPerChannel s) channelId currentTraffic
             in Some (work, s\<lparr>ss_channelId := channelId, ss_currentTraffic := currentTraffic\<rparr>))"

definition enter_kind :: "(nat \<times> nat) list \<Rightarrow> coll_task \<Rightarrow> split_st \<Rightarrow> split_st option" where
  "enter_kind est task s =
     (if ss_kindPrev s = Some (task_kind task) then Some s
      else case est ! task_kind task of (traffic, channels) \<Rightarrow>
        if channels = 0 then None
        else Some \<lparr>ss_kindPrev = Some (task_kind task), ss_trafficPerChannel = div_up_nat (traffic div channels) 16 * 16,
                   ss_channelId = 0, ss_currentTraffic = 0\<rparr>)"

fun schedule_tasks :: "(nat \<Rightarrow> nat) \<Rightarrow> nat \<Rightarrow> nat list \<Rightarrow> (nat \<times> nat) list \<Rightarrow> coll_task list \<Rightarrow> split_st \<Rightarrow> dev_work list option" where
  "schedule_tasks chunkGrains nRanks nMaxChannels est [] s = Some []"
| "schedule_tasks chunkGrains nRanks nMaxChannels est (task # tasks) s =
     (case enter_kind est task s of
        None \<Rightarrow> None
      | Some s \<Rightarrow>
          if ct_isCollnet task then
            map_option ((#) (Collnet 0 (ct_nMaxChannels task - 1) (ct_count task)))
              (schedule_tasks chunkGrains nRanks nMaxChannels est tasks s)
          else (case schedule_cbd chunkGrains nRanks (nMaxChannels ! task_kind task) task s of
                  None \<Rightarrow> None
                | Some (work, s) \<Rightarrow> map_option ((#) (Cbd work)) (schedule_tasks chunkGrains nRanks nMaxChannels est tasks s)))"

definition schedule_coll_tasks :: "(nat \<Rightarrow> nat) \<Rightarrow> nat \<Rightarrow> nat \<Rightarrow> nat \<Rightarrow> coll_task list \<Rightarrow> dev_work list option" where
  "schedule_coll_tasks chunkGrains nRanks nChannels nvlsChannels tasks =
     (let nMaxChannels = [nChannels, nvlsChannels, nChannels, min nChannels nvlsChannels]
      in schedule_tasks chunkGrains nRanks nMaxChannels (estimate nMaxChannels tasks) tasks
           \<lparr>ss_kindPrev = None, ss_trafficPerChannel = 0, ss_channelId = 0, ss_currentTraffic = 0\<rparr>)"

section \<open>What a channel finds\<close>

definition coll_cbd_part :: "coll_work \<Rightarrow> nat \<Rightarrow> nccl_proto \<Rightarrow> nat \<Rightarrow> int \<times> int \<times> int \<times> int" where
  "coll_cbd_part work channelId proto eltSize =
     (let eltPerGrain = int (proto_grain_size proto div eltSize);
          nMidChannels = int (cw_channelHi work) - int (cw_channelLo work) - 1;
          count = int (cw_countLo work) + int (cw_countMid work) * nMidChannels + int (cw_countHi work)
      in if channelId = cw_channelLo work then
           (count, 0, int (cw_countLo work), int (cw_chunkGrainsLo work) * eltPerGrain)
         else if channelId = cw_channelHi work then
           (count, int (cw_countLo work) + nMidChannels * int (cw_countMid work), int (cw_countHi work),
            int (cw_chunkGrainsHi work) * eltPerGrain)
         else
           let mid = int channelId - int (cw_channelLo work) - 1
           in (count, int (cw_countLo work) + mid * int (cw_countMid work), int (cw_countMid work),
               int (cw_chunkGrainsMid work) * eltPerGrain))"

definition channel_mask :: "coll_work \<Rightarrow> u64" where
  "channel_mask work = push_bit (cw_channelHi work) 2 - push_bit (cw_channelLo work) 1"

section \<open>The cells are shared out\<close>

lemma div_up_nat_bounds:
  assumes "0 < y"
  shows "x \<le> div_up_nat x y * y" and "div_up_nat x y * y < x + y" and "0 < x \<Longrightarrow> 0 < div_up_nat x y"
proof -
  have "x + y - 1 = div_up_nat x y * y + (x + y - 1) mod y" unfolding div_up_nat_def by (rule div_mult_mod_eq [symmetric])
  moreover have "(x + y - 1) mod y < y" using assms by simp
  ultimately show "x \<le> div_up_nat x y * y" "div_up_nat x y * y < x + y" using assms by linarith+
  then show "0 < x \<Longrightarrow> 0 < div_up_nat x y" by (cases "div_up_nat x y") auto
qed

lemma size_of_int_id: "0 \<le> x \<Longrightarrow> x < 2 ^ 64 \<Longrightarrow> size_of_int x = nat x"
  by (simp add: size_of_int_def)

text \<open>Channels that do not fit: the rest goes evenly to those that are left.\<close>

lemma overflow_split:
  fixes rest d :: nat
  assumes "0 < d" and "d \<le> rest"
  shows "0 < rest div d" and "(d - 1) * (rest div d) + (rest div d + rest mod d) = rest"
proof -
  show "0 < rest div d" using assms by (simp add: div_greater_zero_iff)
  have "(d - 1) * (rest div d) + rest div d = d * (rest div d)" using assms(1) by (cases d) simp_all
  moreover have "d * (rest div d) + rest mod d = rest" by (rule mult_div_mod_eq)
  ultimately show "(d - 1) * (rest div d) + (rest div d + rest mod d) = rest" by linarith
qed

lemma split_cells_spec:
  assumes "0 < cells" and "0 < trafficPerCell" and "0 < tpc" and "tpc < 2 ^ 64" and "channelId < nMax" and "nMax < 2 ^ 31"
    and "ct < tpc \<or> channelId + 1 = nMax"
  shows "\<exists>cpc lo mid hi. split_cells cells trafficPerCell tpc nMax channelId ct = Some (channelId, cpc, lo, int mid, hi) \<and>
    0 < lo \<and> 0 < cpc \<and> lo + mid * cpc + hi = cells \<and> (hi = 0 \<longrightarrow> mid = 0) \<and> channelId + 1 + mid + of_bool (hi \<noteq> 0) \<le> nMax"
proof -
  define cpc where "cpc = min cells (div_up_nat tpc trafficPerCell)"
  define lo where "lo = (if channelId + 1 = nMax then cells
    else min cells (div_up_nat (size_of_int (int tpc - int ct)) trafficPerCell))"
  have cpc: "0 < cpc" using assms(1,3) div_up_nat_bounds(3) [OF assms(2)] by (simp add: cpc_def)
  have lo: "0 < lo" "lo \<le> cells"
  proof -
    have "0 < size_of_int (int tpc - int ct)" if "ct < tpc" using that assms(4) by (subst size_of_int_id) simp_all
    then show "0 < lo" using assms(1,7) div_up_nat_bounds(3) [OF assms(2)] by (auto simp: lo_def)
    show "lo \<le> cells" by (simp add: lo_def)
  qed
  let ?rest = "cells - lo"
  have rest: "?rest = ?rest div cpc * cpc + ?rest mod cpc" by (rule div_mult_mod_eq [symmetric])
  show ?thesis
  proof (cases "nMax < channelId + (1 + ?rest div cpc + of_bool (?rest mod cpc \<noteq> 0))")
    case False
    define mid where "mid = (if ?rest mod cpc = 0 then ?rest div cpc - 1 else ?rest div cpc)"
    define hi where "hi = (if ?rest mod cpc = 0 \<and> ?rest div cpc \<noteq> 0 then cpc else ?rest mod cpc)"
    have "split_cells cells trafficPerCell tpc nMax channelId ct = Some (channelId, cpc, lo, int mid, hi)"
      using False lo(1) cpc
      unfolding split_cells_def cpc_def [symmetric] lo_def [symmetric] Let_def
      by (cases "?rest mod cpc = 0"; cases "?rest div cpc = 0") (simp_all add: mid_def hi_def of_nat_diff)
    moreover have "mid * cpc + hi = ?rest"
      using rest by (cases "?rest div cpc") (simp_all add: mid_def hi_def)
    moreover have "hi = 0 \<longrightarrow> mid = 0" using cpc by (auto simp: mid_def hi_def)
    moreover have "mid + of_bool (hi \<noteq> 0) = ?rest div cpc + of_bool (?rest mod cpc \<noteq> 0)"
      using cpc by (auto simp: mid_def hi_def)
    ultimately show ?thesis using False lo cpc by (intro exI [of _ cpc] exI [of _ lo] exI [of _ mid] exI [of _ hi]) linarith
  next
    case True
    have two: "channelId + 2 \<le> nMax"
    proof (rule ccontr)
      assume "\<not> channelId + 2 \<le> nMax"
      then have "channelId + 1 = nMax" using assms(5) by linarith
      then have "lo = cells" by (simp add: lo_def)
      then show False using True \<open>channelId + 1 = nMax\<close> by simp
    qed
    define mid where "mid = nMax - channelId - 2"
    define d where "d = mid + 1"
    have fits: "size_of_int (int mid + 1) = d"
      using two assms(6) by (subst size_of_int_id) (simp_all add: d_def mid_def)
    have nm: "int nMax - int channelId - 2 = int mid" using two by (simp add: mid_def)
    have "?rest div cpc * 1 \<le> ?rest div cpc * cpc" using cpc by (intro mult_le_mono2) simp
    moreover have "of_bool (?rest mod cpc \<noteq> 0) \<le> ?rest mod cpc" by simp
    ultimately have "d \<le> ?rest" using True rest two unfolding d_def mid_def by linarith
    moreover have "0 < d" by (simp add: d_def)
    ultimately have share: "0 < ?rest div d" "(d - 1) * (?rest div d) + (?rest div d + ?rest mod d) = ?rest"
      using overflow_split [of d ?rest] by blast+
    have "split_cells cells trafficPerCell tpc nMax channelId ct =
        Some (channelId, ?rest div d, lo, int mid, ?rest div d + ?rest mod d)"
    proof -
      have "int nMax < int channelId + (of_bool (lo \<noteq> 0) + int (?rest div cpc) + of_bool (?rest mod cpc \<noteq> 0))"
        using True lo(1) by (cases "?rest mod cpc = 0") simp_all
      then show ?thesis
        using lo(1) cpc share(1) \<open>0 < d\<close>
        unfolding split_cells_def cpc_def [symmetric] lo_def [symmetric] Let_def
        by (simp only: if_True if_False simp_thms fits nm option.case prod.case) simp
    qed
    moreover have "lo + mid * (?rest div d) + (?rest div d + ?rest mod d) = cells" using share(2) lo(2) by (simp add: d_def)
    moreover have "channelId + 1 + mid + 1 \<le> nMax" using two by (simp add: mid_def)
    ultimately show ?thesis using lo(1) share(1)
      by (intro exI [of _ "?rest div d"] exI [of _ lo] exI [of _ mid] exI [of _ "?rest div d + ?rest mod d"]) simp
  qed
qed

section \<open>The counts tile the collective\<close>

definition split_ok :: "nat \<Rightarrow> split_st \<Rightarrow> bool" where
  "split_ok nMax s \<longleftrightarrow> 0 < ss_trafficPerChannel s \<and> ss_trafficPerChannel s < 2 ^ 64 \<and> ss_channelId s < nMax \<and>
     (ss_currentTraffic s < ss_trafficPerChannel s \<or> ss_channelId s + 1 = nMax)"

text \<open>What a description of a collective must satisfy: consecutive runs on the channels from \<open>cw_channelLo\<close> to
  \<open>cw_channelHi\<close> that are not empty and add up.\<close>

definition work_ok :: "nat \<Rightarrow> nat \<Rightarrow> coll_work \<Rightarrow> bool" where
  "work_ok nMax count work \<longleftrightarrow> cw_channelLo work \<le> cw_channelHi work \<and> cw_channelHi work < nMax \<and> 0 < cw_countLo work \<and>
     (let mid = cw_channelHi work - cw_channelLo work - 1
      in cw_countLo work + mid * cw_countMid work + cw_countHi work = count \<and> (0 < mid \<longrightarrow> 0 < cw_countMid work)) \<and>
     (if cw_channelLo work = cw_channelHi work then cw_countMid work = 0 \<and> cw_countHi work = 0 else 0 < cw_countHi work)"

lemma type_size_cases: "type_size t \<in> {1, 2, 4, 8}"
  by (cases t) simp_all

lemma cell_of_elements:
  assumes "0 < tpb"
  shows "0 < cell_size tpb" and "cell_size tpb div type_size t * type_size t = cell_size tpb"
    and "0 < cell_size tpb div type_size t"
proof -
  have "0 < div_up_nat MinTrafficPerChannel tpb"
    using div_up_nat_bounds(3) [OF assms, of MinTrafficPerChannel] by (simp add: MinTrafficPerChannel_def)
  then show pos: "0 < cell_size tpb" using div_up_nat_bounds(3) [of 16] by (simp add: cell_size_def)
  have "type_size t dvd 16" by (cases t) simp_all
  then have "type_size t dvd cell_size tpb" unfolding cell_size_def by (rule dvd_mult)
  then show eq: "cell_size tpb div type_size t * type_size t = cell_size tpb" by (rule dvd_div_mult_self)
  show "0 < cell_size tpb div type_size t" using pos eq by (cases "cell_size tpb div type_size t") auto
qed

lemma cells_cover:
  fixes epc :: nat
  assumes "0 < epc" and "0 < es" and "0 < count"
  defines "cells \<equiv> div_up_nat (count * es) (epc * es)"
  shows "0 < cells" and "count \<le> cells * epc" and "cells * epc - count < epc"
proof -
  have pos: "0 < epc * es" using assms by simp
  note b = div_up_nat_bounds [OF pos, of "count * es", folded cells_def]
  show "0 < cells" using b(3) assms by simp
  have "count * es \<le> (cells * epc) * es" using b(1) by (simp only: mult.assoc)
  then show ge: "count \<le> cells * epc" using assms(2) by simp
  have "(cells * epc) * es < (count + epc) * es" using b(2) by (simp only: mult.assoc distrib_right)
  then have "cells * epc < count + epc" using assms(2) by simp
  then show "cells * epc - count < epc" using ge by linarith
qed

lemma traffic_pos: "0 < nRanks \<Longrightarrow> 0 < traffic_per_byte f nRanks"
  by (cases f) simp_all

lemma advance_ok:
  assumes "c < nMax" and "0 < tpc"
  shows "fst (advance_channel nMax tpc c t) < nMax \<and>
    (snd (advance_channel nMax tpc c t) < tpc \<or> fst (advance_channel nMax tpc c t) + 1 = nMax)"
  using assms by (auto simp: advance_channel_def)

lemma schedule_cbd_spec:
  assumes "split_ok nMax s" and "0 < ct_count task" and "0 < nRanks" and "nMax < 2 ^ 31"
  shows "\<exists>work t. schedule_cbd chunkGrains nRanks nMax task s = Some (work, t) \<and> work_ok nMax (ct_count task) work \<and>
    split_ok nMax t \<and> ss_kindPrev t = ss_kindPrev s"
proof -
  define tpb where "tpb = traffic_per_byte (ct_func task) nRanks * (if ct_protocol task = ProtoLL then 4 else 1)"
  let ?es = "type_size (ct_datatype task)"
  define epc where "epc = cell_size tpb div ?es"
  define cells where "cells = div_up_nat (ct_count task * ?es) (cell_size tpb)"
  have tpb: "0 < tpb" using traffic_pos [OF assms(3)] by (simp add: tpb_def)
  note cell = cell_of_elements(1) [OF tpb] cell_of_elements(2,3) [OF tpb, where t = "ct_datatype task", folded epc_def]
  have es: "0 < ?es" using type_size_cases [of "ct_datatype task"] by auto
  note cover = cells_cover [OF cell(3) es assms(2), unfolded cell(2), folded cells_def]
  have "0 < cell_size tpb * tpb" using cell(1) tpb by simp
  from split_cells_spec [OF cover(1) this] assms(1,4) obtain cpc lo mid hi where
    split: "split_cells cells (cell_size tpb * tpb) (ss_trafficPerChannel s) nMax (ss_channelId s) (ss_currentTraffic s) =
        Some (ss_channelId s, cpc, lo, int mid, hi)" and
    ok: "0 < lo" "0 < cpc" "lo + mid * cpc + hi = cells" "hi = 0 \<longrightarrow> mid = 0" "ss_channelId s + 1 + mid + of_bool (hi \<noteq> 0) \<le> nMax"
    unfolding split_ok_def by blast
  let ?excess = "cells * epc - ct_count task"
  have total: "lo * epc + mid * cpc * epc + hi * epc = ct_count task + ?excess"
    using cover(2) ok(3) by (metis distrib_right le_add_diff_inverse)
  have whole: "epc \<le> n * epc" if "0 < n" for n using that by simp
  show ?thesis
  proof (cases "hi = 0")
    case True
    then have mid: "mid = 0" using ok(4) by simp
    have "0 < lo * epc - ?excess" using whole [OF ok(1)] cover(3) by linarith
    moreover have "lo * epc - ?excess = ct_count task" using total True mid by simp
    ultimately show ?thesis
      using advance_ok [of "ss_channelId s" nMax "ss_trafficPerChannel s"] assms(1) ok
      by (simp add: schedule_cbd_def tpb_def [symmetric] epc_def [symmetric] cells_def [symmetric] split True mid Let_def
          work_ok_def split_ok_def case_prod_beta)
  next
    case False
    then have "0 < hi * epc - ?excess" using whole [of hi] cover(3) by linarith
    moreover have "?excess \<le> hi * epc" using whole [of hi] cover(3) False by linarith
    moreover have all: "lo * epc + mid * (cpc * epc) + hi * epc - ?excess = ct_count task" using total by (simp add: mult.assoc)
    moreover have "lo * epc + hi * epc - ?excess = ct_count task" if "mid = 0" using all that by simp
    ultimately show ?thesis
      using advance_ok [of "ss_channelId s + 1 + mid" nMax "ss_trafficPerChannel s"] assms(1) ok False cell(3)
      by (simp add: schedule_cbd_def tpb_def [symmetric] epc_def [symmetric] cells_def [symmetric] split Let_def
          work_ok_def split_ok_def case_prod_beta)
  qed
qed

section \<open>All tasks of a plan\<close>

definition estimate_ok :: "nat list \<Rightarrow> coll_task list \<Rightarrow> (nat \<times> nat) list \<Rightarrow> bool" where
  "estimate_ok nMaxChannels tasks est \<longleftrightarrow> length est = 4 \<and>
     (\<forall>k < 4. fst (est ! k) \<le> (\<Sum>task \<leftarrow> tasks. max MinTrafficPerChannel (ct_trafficBytes task)) \<and> snd (est ! k) \<le> nMaxChannels ! k) \<and>
     (\<forall>task \<in> set tasks. MinTrafficPerChannel \<le> fst (est ! task_kind task) \<and> 0 < snd (est ! task_kind task))"

lemma task_kind_less: "task_kind task < 4"
  by (simp add: task_kind_def)

lemma estimate_spec:
  assumes "\<forall>task \<in> set tasks. 0 < ct_nMaxChannels task \<and> 0 < nMaxChannels ! task_kind task"
  shows "estimate_ok nMaxChannels tasks (estimate nMaxChannels tasks)"
  using assms
proof (induction tasks rule: rev_induct)
  case Nil
  then show ?case by (auto simp: estimate_def estimate_ok_def less_Suc_eq numeral_eq_Suc)
next
  case (snoc task tasks)
  define est where "est = estimate nMaxChannels tasks"
  have IH: "estimate_ok nMaxChannels tasks est" using snoc by (simp add: est_def)
  have new: "estimate nMaxChannels (tasks @ [task]) = estimate_step nMaxChannels task est"
    by (simp add: estimate_def est_def)
  have pos: "0 < ct_nMaxChannels task" "0 < nMaxChannels ! task_kind task" using snoc.prems by simp_all
  let ?k = "task_kind task"
  have step: "estimate_step nMaxChannels task est =
      est[?k := (fst (est ! ?k) + max MinTrafficPerChannel (ct_trafficBytes task),
                 min (snd (est ! ?k) + ct_nMaxChannels task) (nMaxChannels ! ?k))]"
    by (simp add: estimate_step_def Let_def case_prod_beta)
  have k: "?k < length est" using IH task_kind_less [of task] by (simp add: estimate_ok_def)
  show ?case
    unfolding new step estimate_ok_def
  proof (intro conjI allI impI ballI)
    show "length (est[?k := (fst (est ! ?k) + max MinTrafficPerChannel (ct_trafficBytes task),
        min (snd (est ! ?k) + ct_nMaxChannels task) (nMaxChannels ! ?k))]) = 4" using IH by (simp add: estimate_ok_def)
  next
    fix j :: nat assume "j < 4"
    then have "fst (est ! j) \<le> (\<Sum>task \<leftarrow> tasks. max MinTrafficPerChannel (ct_trafficBytes task))" "snd (est ! j) \<le> nMaxChannels ! j"
      using IH by (simp_all add: estimate_ok_def)
    then show "fst (est[?k := (fst (est ! ?k) + max MinTrafficPerChannel (ct_trafficBytes task),
        min (snd (est ! ?k) + ct_nMaxChannels task) (nMaxChannels ! ?k))] ! j)
        \<le> (\<Sum>task \<leftarrow> tasks @ [task]. max MinTrafficPerChannel (ct_trafficBytes task))"
      "snd (est[?k := (fst (est ! ?k) + max MinTrafficPerChannel (ct_trafficBytes task),
        min (snd (est ! ?k) + ct_nMaxChannels task) (nMaxChannels ! ?k))] ! j) \<le> nMaxChannels ! j"
      using k by (cases "j = ?k"; simp)+
  next
    fix t assume "t \<in> set (tasks @ [task])"
    then have "t = task \<or> MinTrafficPerChannel \<le> fst (est ! task_kind t) \<and> 0 < snd (est ! task_kind t)"
      using IH by (auto simp: estimate_ok_def)
    then show "MinTrafficPerChannel \<le> fst (est[?k := (fst (est ! ?k) + max MinTrafficPerChannel (ct_trafficBytes task),
        min (snd (est ! ?k) + ct_nMaxChannels task) (nMaxChannels ! ?k))] ! task_kind t)"
      "0 < snd (est[?k := (fst (est ! ?k) + max MinTrafficPerChannel (ct_trafficBytes task),
        min (snd (est ! ?k) + ct_nMaxChannels task) (nMaxChannels ! ?k))] ! task_kind t)"
      using k pos by (cases "task_kind t = ?k"; force)+
  qed
qed

text \<open>A collective and what the plan says of it.\<close>

definition scheduled_ok :: "nat list \<Rightarrow> coll_task \<Rightarrow> dev_work \<Rightarrow> bool" where
  "scheduled_ok nMaxChannels task w \<longleftrightarrow>
     (case w of Cbd work \<Rightarrow> \<not> ct_isCollnet task \<and> work_ok (nMaxChannels ! task_kind task) (ct_count task) work
      | Collnet lo hi n \<Rightarrow> ct_isCollnet task \<and> lo = 0 \<and> hi = ct_nMaxChannels task - 1 \<and> n = ct_count task)"

lemma enter_kind_spec:
  assumes "estimate_ok nMaxChannels all est" and "task \<in> set all" and "nMaxChannels ! task_kind task \<le> 64"
    and "(\<Sum>task \<leftarrow> all. max MinTrafficPerChannel (ct_trafficBytes task)) < 2 ^ 63"
    and "\<forall>k. ss_kindPrev s = Some k \<longrightarrow> split_ok (nMaxChannels ! k) s"
  obtains t where "enter_kind est task s = Some t" and "ss_kindPrev t = Some (task_kind task)"
    and "split_ok (nMaxChannels ! task_kind task) t"
proof (cases "ss_kindPrev s = Some (task_kind task)")
  case True
  then show ?thesis using that [of s] assms(5) by (simp add: enter_kind_def)
next
  case False
  obtain traffic channels where est: "est ! task_kind task = (traffic, channels)" by force
  have b: "MinTrafficPerChannel \<le> traffic" "0 < channels" "channels \<le> nMaxChannels ! task_kind task" "traffic < 2 ^ 63"
    using assms(1,2,4) est task_kind_less [of task] unfolding estimate_ok_def by force+
  define tpc where "tpc = div_up_nat (traffic div channels) 16 * 16"
  have "channels \<le> traffic" using b assms(3) by (simp add: MinTrafficPerChannel_def)
  then have "0 < traffic div channels" using b(2) by (simp add: div_greater_zero_iff)
  then have "0 < tpc" using div_up_nat_bounds(3) [of 16] by (simp add: tpc_def)
  moreover have "tpc < 2 ^ 64"
  proof -
    have "tpc < traffic div channels + 16" unfolding tpc_def by (rule div_up_nat_bounds(2)) simp
    moreover have "traffic div channels \<le> traffic" by (rule div_le_dividend)
    moreover have "(2 :: nat) ^ 63 + 16 < 2 ^ 64" by simp
    ultimately show ?thesis using b(4) by linarith
  qed
  ultimately have "split_ok (nMaxChannels ! task_kind task) \<lparr>ss_kindPrev = Some (task_kind task), ss_trafficPerChannel = tpc,
      ss_channelId = 0, ss_currentTraffic = 0\<rparr>" using b by (simp add: split_ok_def)
  then show ?thesis using that [of "\<lparr>ss_kindPrev = Some (task_kind task), ss_trafficPerChannel = tpc, ss_channelId = 0, ss_currentTraffic = 0\<rparr>"]
    False b(2) by (simp add: enter_kind_def est tpc_def)
qed

lemma schedule_tasks_spec:
  assumes "estimate_ok nMaxChannels all est" and "\<forall>k < 4. nMaxChannels ! k \<le> 64" and "0 < nRanks"
    and "(\<Sum>task \<leftarrow> all. max MinTrafficPerChannel (ct_trafficBytes task)) < 2 ^ 63"
    and "set tasks \<subseteq> set all" and "\<forall>task \<in> set tasks. 0 < ct_count task"
    and "\<forall>k. ss_kindPrev s = Some k \<longrightarrow> split_ok (nMaxChannels ! k) s"
  shows "\<exists>works. schedule_tasks chunkGrains nRanks nMaxChannels est tasks s = Some works \<and>
    list_all2 (scheduled_ok nMaxChannels) tasks works"
  using assms(5,6,7)
proof (induction tasks arbitrary: s)
  case (Cons task tasks)
  have small: "nMaxChannels ! task_kind task \<le> 64" using assms(2) task_kind_less by simp
  have "task \<in> set all" using Cons.prems(1) by simp
  from enter_kind_spec [OF assms(1) this small assms(4) Cons.prems(3)]
  obtain t where t: "enter_kind est task s = Some t" "ss_kindPrev t = Some (task_kind task)" "split_ok (nMaxChannels ! task_kind task) t" .
  have rest: "set tasks \<subseteq> set all" "\<forall>task \<in> set tasks. 0 < ct_count task" using Cons.prems by simp_all
  show ?case
  proof (cases "ct_isCollnet task")
    case True
    have "\<forall>k. ss_kindPrev t = Some k \<longrightarrow> split_ok (nMaxChannels ! k) t" using t by simp
    from Cons.IH [OF rest this] True t show ?thesis by (auto simp: scheduled_ok_def)
  next
    case False
    have "0 < ct_count task" "nMaxChannels ! task_kind task < 2 ^ 31" using Cons.prems(2) small by simp_all
    from schedule_cbd_spec [OF t(3) this(1) assms(3) this(2)] obtain work t' where
      w: "schedule_cbd chunkGrains nRanks (nMaxChannels ! task_kind task) task t = Some (work, t')"
        "work_ok (nMaxChannels ! task_kind task) (ct_count task) work" "split_ok (nMaxChannels ! task_kind task) t'"
        "ss_kindPrev t' = ss_kindPrev t" by blast
    have "\<forall>k. ss_kindPrev t' = Some k \<longrightarrow> split_ok (nMaxChannels ! k) t'" using w t(2) by simp
    from Cons.IH [OF rest this] False t w show ?thesis by (auto simp: scheduled_ok_def)
  qed
qed simp

section \<open>What the channels see\<close>

definition part_offset :: "coll_work \<Rightarrow> nat \<Rightarrow> int" where
  "part_offset work c = fst (snd (coll_cbd_part work c ProtoSimple 1))"

definition part_count :: "coll_work \<Rightarrow> nat \<Rightarrow> int" where
  "part_count work c = fst (snd (snd (coll_cbd_part work c ProtoSimple 1)))"

text \<open>The parts of the channels of a collective are not empty, each begins where the one before it ends, and the last
  ends at the count; the mask of the plan has exactly these channels.\<close>

definition tiled :: "nat \<Rightarrow> nat \<Rightarrow> coll_work \<Rightarrow> bool" where
  "tiled nMax count work \<longleftrightarrow> cw_channelLo work \<le> cw_channelHi work \<and> cw_channelHi work < nMax \<and>
     part_offset work (cw_channelLo work) = 0 \<and>
     (\<forall>c \<in> {cw_channelLo work..cw_channelHi work}. 0 < part_count work c \<and>
        part_offset work c + part_count work c =
          (if c = cw_channelHi work then int count else part_offset work (c + 1))) \<and>
     (\<forall>c < 64. bit (channel_mask work) c \<longleftrightarrow> c \<in> {cw_channelLo work..cw_channelHi work})"

lemma channel_mask_bit:
  assumes "cw_channelLo work \<le> cw_channelHi work" and "cw_channelHi work < 64" and "c < 64"
  shows "bit (channel_mask work) c \<longleftrightarrow> c \<in> {cw_channelLo work..cw_channelHi work}"
proof -
  let ?l = "cw_channelLo work" and ?h = "cw_channelHi work"
  have "Suc ?h = ?l + (Suc ?h - ?l)" using assms(1) by simp
  then have "(2 :: u64) ^ Suc ?h = 2 ^ ?l * 2 ^ (Suc ?h - ?l)" by (metis power_add)
  then have "channel_mask work = push_bit ?l (mask (Suc ?h - ?l))"
    by (simp add: channel_mask_def push_bit_eq_mult mask_eq_decr_exp algebra_simps)
  then show ?thesis using assms by (auto simp: bit_push_bit_iff bit_mask_iff)
qed

lemma work_ok_tiled:
  assumes "work_ok nMax count work" and "nMax \<le> 64"
  shows "tiled nMax count work"
proof -
  let ?l = "cw_channelLo work" and ?h = "cw_channelHi work"
  define mid where "mid = ?h - ?l - 1"
  have ok: "?l \<le> ?h" "?h < nMax" "0 < cw_countLo work" "cw_countLo work + mid * cw_countMid work + cw_countHi work = count"
    "0 < mid \<longrightarrow> 0 < cw_countMid work" "if ?l = ?h then cw_countMid work = 0 \<and> cw_countHi work = 0 else 0 < cw_countHi work"
    using assms(1) by (simp_all add: work_ok_def mid_def Let_def)
  have hi: "int ?h - int ?l - 1 = int mid" if "?l \<noteq> ?h" using that ok(1) by (simp add: mid_def)
  have sum: "int (cw_countLo work) + int mid * int (cw_countMid work) + int (cw_countHi work) = int count"
    using arg_cong [OF ok(4), of int] by simp
  have "0 < part_count work c \<and> part_offset work c + part_count work c = (if c = ?h then int count else part_offset work (c + 1))"
    if c: "?l \<le> c" "c \<le> ?h" for c
  proof (cases "?l = ?h")
    case True
    then show ?thesis using c ok by (simp add: part_count_def part_offset_def coll_cbd_part_def Let_def)
  next
    case False
    define k where "k = c - ?l"
    have ck: "c = ?l + k" "k \<le> mid + 1" "c = ?h \<longleftrightarrow> k = mid + 1" "c = ?l \<longleftrightarrow> k = 0" "c + 1 = ?h \<longleftrightarrow> k = mid"
      using c False ok(1) by (auto simp: k_def mid_def)
    consider "k = 0" | "0 < k" "k \<le> mid" | "k = mid + 1" using ck(2) by linarith
    then show ?thesis
    proof cases
      case 1
      then show ?thesis using ok(3) ck False hi
        by (auto simp: part_count_def part_offset_def coll_cbd_part_def Let_def)
    next
      case 2
      then have "0 < cw_countMid work" using ok(5) by simp
      then show ?thesis using 2 ck False hi
        by (auto simp: part_count_def part_offset_def coll_cbd_part_def Let_def algebra_simps)
    next
      case 3
      then have c: "c = ?h" using ck(3) by simp
      have "part_offset work ?h = int (cw_countLo work) + int mid * int (cw_countMid work)" "part_count work ?h = int (cw_countHi work)"
        using False by (simp_all add: part_offset_def part_count_def coll_cbd_part_def Let_def hi [OF False])
      then show ?thesis using ok(6) False sum unfolding c by simp
    qed
  qed
  moreover have "part_offset work ?l = 0" by (simp add: part_offset_def coll_cbd_part_def Let_def)
  ultimately show ?thesis using ok(1,2) channel_mask_bit [OF ok(1)] assms(2) unfolding tiled_def by auto
qed

text \<open>C31. Collectives are distributed over channels exactly: for every list of tasks with a positive count, every task
  that is not for CollNet gets consecutive channels of its kind, on which the parts that \<open>ncclCollCbdPart\<close> computes
  are not empty and tile the collective from its first element to its last, and the mask of the plan holds exactly those channels.\<close>

theorem collectives_are_tiled:
  assumes "0 < nRanks" and "0 < nChannels" "nChannels \<le> 64" "nvlsChannels \<le> 64"
    and "\<forall>task \<in> set tasks. 0 < ct_count task \<and> 0 < ct_nMaxChannels task \<and> (ct_isNvls task \<longrightarrow> 0 < nvlsChannels)"
    and "(\<Sum>task \<leftarrow> tasks. max MinTrafficPerChannel (ct_trafficBytes task)) < 2 ^ 63"
  shows "\<exists>works. schedule_coll_tasks chunkGrains nRanks nChannels nvlsChannels tasks = Some works \<and>
    list_all2 (\<lambda>task w. if ct_isCollnet task then w = Collnet 0 (ct_nMaxChannels task - 1) (ct_count task)
       else \<exists>work. w = Cbd work \<and> tiled (if ct_isNvls task then nvlsChannels else nChannels) (ct_count task) work) tasks works"
proof -
  define nMax where "nMax = [nChannels, nvlsChannels, nChannels, min nChannels nvlsChannels]"
  have kinds: "nMax ! task_kind task =
      (if ct_isNvls task then if ct_isCollnet task then min nChannels nvlsChannels else nvlsChannels else nChannels)" for task
    by (simp add: nMax_def task_kind_def numeral_3_eq_3 numeral_2_eq_2)
  have small: "\<forall>k < 4. nMax ! k \<le> 64" using assms(3,4) by (auto simp: nMax_def less_Suc_eq numeral_eq_Suc)
  have "\<forall>task \<in> set tasks. 0 < ct_nMaxChannels task \<and> 0 < nMax ! task_kind task" using assms(2,5) by (simp add: kinds)
  note est = estimate_spec [OF this]
  have count: "\<forall>task \<in> set tasks. 0 < ct_count task" using assms(5) by simp
  let ?s = "\<lparr>ss_kindPrev = None, ss_trafficPerChannel = 0, ss_channelId = 0, ss_currentTraffic = 0\<rparr>"
  have "\<forall>k. ss_kindPrev ?s = Some k \<longrightarrow> split_ok (nMax ! k) ?s" by simp
  from schedule_tasks_spec [OF est small assms(1,6) subset_refl count this]
  obtain works where w: "schedule_coll_tasks chunkGrains nRanks nChannels nvlsChannels tasks = Some works"
      "list_all2 (scheduled_ok nMax) tasks works"
    unfolding schedule_coll_tasks_def Let_def nMax_def by blast
  have "if ct_isCollnet task then v = Collnet 0 (ct_nMaxChannels task - 1) (ct_count task)
       else \<exists>work. v = Cbd work \<and> tiled (if ct_isNvls task then nvlsChannels else nChannels) (ct_count task) work"
    if "scheduled_ok nMax task v" for task v
  proof (cases v)
    case (Cbd work)
    moreover have "nMax ! task_kind task \<le> 64" using small task_kind_less by simp
    ultimately show ?thesis using that work_ok_tiled [of "nMax ! task_kind task" "ct_count task" work]
      by (cases "ct_isNvls task"; cases "ct_isCollnet task") (simp_all add: scheduled_ok_def kinds)
  next
    case (Collnet lo hi n)
    then show ?thesis using that by (simp add: scheduled_ok_def)
  qed
  with w(2) have "list_all2 (\<lambda>task w. if ct_isCollnet task then w = Collnet 0 (ct_nMaxChannels task - 1) (ct_count task)
       else \<exists>work. w = Cbd work \<and> tiled (if ct_isNvls task then nvlsChannels else nChannels) (ct_count task) work) tasks works"
    by (rule list_all2_mono)
  with w(1) show ?thesis by blast
qed

definition sample_task :: coll_task where
  "sample_task = \<lparr>ct_func = FuncAllReduce, ct_protocol = ProtoSimple, ct_datatype = Float32, ct_count = 1000000,
     ct_trafficBytes = 8000000, ct_nMaxChannels = 4, ct_isCollnet = False, ct_isNvls = False\<rparr>"

theorem collectives_are_tiled_witness:
  "\<exists>work. schedule_coll_tasks (\<lambda>n. n div 512) 8 4 0 [sample_task] = Some [Cbd work] \<and> tiled 4 1000000 work"
proof -
  have "\<exists>works. schedule_coll_tasks (\<lambda>n. n div 512) 8 4 0 [sample_task] = Some works \<and>
      list_all2 (\<lambda>task w. if ct_isCollnet task then w = Collnet 0 (ct_nMaxChannels task - 1) (ct_count task)
         else \<exists>work. w = Cbd work \<and> tiled (if ct_isNvls task then 0 else 4) (ct_count task) work) [sample_task] works"
    by (rule collectives_are_tiled) (simp_all add: sample_task_def MinTrafficPerChannel_def)
  then show ?thesis by (auto simp: sample_task_def list_all2_Cons1)
qed

end
