(* ===== verification/DevicePrims.thy ===== *)
theory DevicePrims
  imports Prelude
begin

text \<open>
  The communication primitives of the device code, in the form of the LL protocol
  (\<open>src/device/prims_ll.h\<close>, \<open>src/device/primitives.h\<close>).

  A primitive is one \<open>LLGenericOp\<close>: wait for a free slot if it sends and for data if it receives,
  combine the received elements with its own, pass the result on and store it.  An element is one cell of the memory of a
  rank, of which the send and the receive buffer are two ranges that may overlap.  Flags, lines, the cooperation of the threads
  and the user's abort are left out; a primitive has at most one peer to receive from and one to send to, as on a ring.
\<close>

section \<open>Primitives\<close>

datatype buf_id = InputBuf | OutputBuf

record prim_op =
  po_recv :: bool
  po_send :: bool
  po_src :: "(buf_id \<times> nat) option"
  po_dst :: "(buf_id \<times> nat) option"
  po_nelem :: nat
  po_postOp :: bool

definition ll_op :: "bool \<Rightarrow> bool \<Rightarrow> buf_id option \<Rightarrow> buf_id option \<Rightarrow> nat \<Rightarrow> nat \<Rightarrow> int \<Rightarrow> bool \<Rightarrow> prim_op" where
  "ll_op recv send src dst srcIx dstIx nelem postOp =
     \<lparr>po_recv = recv, po_send = send, po_src = map_option (\<lambda>b. (b, srcIx)) src, po_dst = map_option (\<lambda>b. (b, dstIx)) dst,
      po_nelem = (if nelem < 0 then 0 else nat nelem), po_postOp = postOp\<rparr>"

definition prim_send :: "nat \<Rightarrow> int \<Rightarrow> prim_op" where
  "prim_send inpIx eltN = ll_op False True (Some InputBuf) None inpIx 0 eltN False"

definition prim_send_from_output :: "nat \<Rightarrow> int \<Rightarrow> prim_op" where
  "prim_send_from_output outIx eltN = ll_op False True (Some OutputBuf) None outIx 0 eltN False"

definition prim_recv :: "nat \<Rightarrow> int \<Rightarrow> bool \<Rightarrow> prim_op" where
  "prim_recv outIx eltN postOp = ll_op True False None (Some OutputBuf) 0 outIx eltN postOp"

definition prim_recv_reduce_send :: "nat \<Rightarrow> int \<Rightarrow> prim_op" where
  "prim_recv_reduce_send inpIx eltN = ll_op True True (Some InputBuf) None inpIx 0 eltN False"

definition prim_recv_reduce_copy :: "nat \<Rightarrow> nat \<Rightarrow> int \<Rightarrow> bool \<Rightarrow> prim_op" where
  "prim_recv_reduce_copy inpIx outIx eltN postOp = ll_op True False (Some InputBuf) (Some OutputBuf) inpIx outIx eltN postOp"

definition prim_copy_send :: "nat \<Rightarrow> nat \<Rightarrow> int \<Rightarrow> bool \<Rightarrow> prim_op" where
  "prim_copy_send inpIx outIx eltN postOp = ll_op False True (Some InputBuf) (Some OutputBuf) inpIx outIx eltN postOp"

definition prim_recv_copy_send :: "nat \<Rightarrow> int \<Rightarrow> bool \<Rightarrow> prim_op" where
  "prim_recv_copy_send outIx eltN postOp = ll_op True True None (Some OutputBuf) 0 outIx eltN postOp"

definition prim_recv_reduce_copy_send :: "nat \<Rightarrow> nat \<Rightarrow> int \<Rightarrow> bool \<Rightarrow> prim_op" where
  "prim_recv_reduce_copy_send inpIx outIx eltN postOp =
     ll_op True True (Some InputBuf) (Some OutputBuf) inpIx outIx eltN postOp"

definition direct_send :: "nat \<Rightarrow> nat \<Rightarrow> int \<Rightarrow> prim_op" where
  "direct_send inpIx outIx eltN = prim_send inpIx eltN"

definition direct_send_from_output :: "nat \<Rightarrow> int \<Rightarrow> prim_op" where
  "direct_send_from_output outIx eltN = prim_send_from_output outIx eltN"

definition direct_recv :: "nat \<Rightarrow> int \<Rightarrow> prim_op" where
  "direct_recv outIx eltN = prim_recv outIx eltN False"

definition direct_copy_send :: "nat \<Rightarrow> nat \<Rightarrow> int \<Rightarrow> bool \<Rightarrow> prim_op" where
  "direct_copy_send inpIx outIx eltN postOp = prim_copy_send inpIx outIx eltN postOp"

definition direct_recv_copy_direct_send :: "nat \<Rightarrow> nat \<Rightarrow> int \<Rightarrow> prim_op" where
  "direct_recv_copy_direct_send inpIx outIx eltN = prim_recv_copy_send outIx eltN False"

definition direct_recv_reduce_direct_send :: "nat \<Rightarrow> nat \<Rightarrow> int \<Rightarrow> prim_op" where
  "direct_recv_reduce_direct_send inpIx outIx eltN = prim_recv_reduce_send inpIx eltN"

definition direct_recv_reduce_copy_direct_send :: "nat \<Rightarrow> nat \<Rightarrow> int \<Rightarrow> bool \<Rightarrow> prim_op" where
  "direct_recv_reduce_copy_direct_send inpIx outIx eltN postOp = prim_recv_reduce_copy_send inpIx outIx eltN postOp"

lemmas prim_defs =
  prim_send_def prim_send_from_output_def prim_recv_def prim_recv_reduce_send_def prim_recv_reduce_copy_def
  prim_copy_send_def prim_recv_copy_send_def prim_recv_reduce_copy_send_def direct_send_def direct_send_from_output_def
  direct_recv_def direct_copy_send_def direct_recv_copy_direct_send_def direct_recv_reduce_direct_send_def
  direct_recv_reduce_copy_direct_send_def ll_op_def

section \<open>What a primitive does\<close>

record 'a red_op =
  ro_pre :: "'a \<Rightarrow> 'a"
  ro_reduce :: "'a \<Rightarrow> 'a \<Rightarrow> 'a"
  ro_post :: "'a \<Rightarrow> 'a"

record 'a rank_mem =
  rm_mem :: "nat \<Rightarrow> 'a"
  rm_sendbuff :: nat
  rm_recvbuff :: nat
  rm_sendSize :: nat
  rm_recvSize :: nat

definition user_buf :: "'a rank_mem \<Rightarrow> buf_id \<Rightarrow> nat" where
  "user_buf m b = (case b of InputBuf \<Rightarrow> rm_sendbuff m | OutputBuf \<Rightarrow> rm_recvbuff m)"

definition in_buffer :: "'a rank_mem \<Rightarrow> (buf_id \<times> nat) option \<Rightarrow> nat \<Rightarrow> bool" where
  "in_buffer m place n =
     (case place of None \<Rightarrow> True
      | Some (b, ix) \<Rightarrow> n = 0 \<or> ix + n \<le> (case b of InputBuf \<Rightarrow> rm_sendSize m | OutputBuf \<Rightarrow> rm_recvSize m))"

definition load_src :: "'a red_op \<Rightarrow> 'a rank_mem \<Rightarrow> buf_id \<Rightarrow> nat \<Rightarrow> 'a" where
  "load_src op m b ix = (let x = rm_mem m (user_buf m b + ix) in if b = InputBuf then ro_pre op x else x)"

definition op_data :: "'a red_op \<Rightarrow> prim_op \<Rightarrow> 'a rank_mem \<Rightarrow> 'a list \<Rightarrow> 'a list" where
  "op_data op p m peer =
     (let data = (case po_src p of
            None \<Rightarrow> peer
          | Some (b, ix) \<Rightarrow>
              let own = map (\<lambda>e. load_src op m b (ix + e)) [0..<po_nelem p]
              in if po_recv p then map2 (ro_reduce op) peer own else own)
      in if po_postOp p then map (ro_post op) data else data)"

definition overwrite :: "(nat \<Rightarrow> 'a) \<Rightarrow> nat \<Rightarrow> 'a list \<Rightarrow> nat \<Rightarrow> 'a" where
  "overwrite f ix data = (\<lambda>e. if ix \<le> e \<and> e < ix + length data then data ! (e - ix) else f e)"

definition store_dst :: "prim_op \<Rightarrow> 'a list \<Rightarrow> 'a rank_mem \<Rightarrow> 'a rank_mem" where
  "store_dst p data m =
     (case po_dst p of None \<Rightarrow> m
      | Some (b, ix) \<Rightarrow> m\<lparr>rm_mem := overwrite (rm_mem m) (user_buf m b + ix) data\<rparr>)"

text \<open>\<open>None\<close> is an access outside of a buffer or a message of another length than the receiver waits for.\<close>

definition run_op :: "'a red_op \<Rightarrow> prim_op \<Rightarrow> 'a list \<Rightarrow> 'a rank_mem \<Rightarrow> ('a list \<times> 'a rank_mem) option" where
  "run_op op p peer m =
     (let n = po_nelem p in
      if in_buffer m (po_src p) n \<and> in_buffer m (po_dst p) n \<and> (po_recv p \<longrightarrow> length peer = n)
      then let data = op_data op p m peer in Some (data, store_dst p data m)
      else None)"

text \<open>The result element by element.\<close>

definition op_element :: "'a red_op \<Rightarrow> prim_op \<Rightarrow> 'a rank_mem \<Rightarrow> (nat \<Rightarrow> 'a) \<Rightarrow> nat \<Rightarrow> 'a" where
  "op_element op p m g e =
     (let x = (case po_src p of
            None \<Rightarrow> g e
          | Some (b, ix) \<Rightarrow> if po_recv p then ro_reduce op (g e) (load_src op m b (ix + e)) else load_src op m b (ix + e))
      in if po_postOp p then ro_post op x else x)"

lemma map2_maps: "map2 h (map f xs) (map g xs) = map (\<lambda>x. h (f x) (g x)) xs"
  by (induction xs) simp_all

lemma run_op_elements:
  assumes "in_buffer m (po_src p) (po_nelem p)" and "in_buffer m (po_dst p) (po_nelem p)"
    and "po_recv p \<Longrightarrow> peer = map g [0..<po_nelem p]" and "po_src p = None \<Longrightarrow> po_recv p"
    and "\<And>e. e < po_nelem p \<Longrightarrow> V e = op_element op p m g e"
  shows "run_op op p peer m = Some (map V [0..<po_nelem p], store_dst p (map V [0..<po_nelem p]) m)"
proof -
  have "op_data op p m peer = map (op_element op p m g) [0..<po_nelem p]"
    using assms(3,4) by (cases "po_src p") (auto simp: op_data_def op_element_def Let_def map2_maps)
  also have "\<dots> = map V [0..<po_nelem p]" using assms(5) by simp
  finally show ?thesis using assms(1-3) by (simp add: run_op_def Let_def)
qed

section \<open>The memory after a sequence of stores\<close>

definition dst_range :: "'a rank_mem \<Rightarrow> prim_op \<Rightarrow> nat set" where
  "dst_range m p = (case po_dst p of None \<Rightarrow> {} | Some (b, ix) \<Rightarrow> {user_buf m b + ix ..< user_buf m b + ix + po_nelem p})"

fun stored :: "'a rank_mem \<Rightarrow> prim_op list \<Rightarrow> (nat \<Rightarrow> 'a list) \<Rightarrow> nat \<Rightarrow> 'a rank_mem" where
  "stored m ps D 0 = m"
| "stored m ps D (Suc k) = store_dst (ps ! k) (D k) (stored m ps D k)"

lemma store_dst_layout [simp]:
  "rm_sendbuff (store_dst p d m) = rm_sendbuff m" "rm_recvbuff (store_dst p d m) = rm_recvbuff m"
  "rm_sendSize (store_dst p d m) = rm_sendSize m" "rm_recvSize (store_dst p d m) = rm_recvSize m"
  by (simp_all add: store_dst_def split: option.split)

lemma stored_layout [simp]:
  "rm_sendbuff (stored m ps D k) = rm_sendbuff m" "rm_recvbuff (stored m ps D k) = rm_recvbuff m"
  "rm_sendSize (stored m ps D k) = rm_sendSize m" "rm_recvSize (stored m ps D k) = rm_recvSize m"
  by (induction k) simp_all

lemma user_buf_stored [simp]: "user_buf (stored m ps D k) b = user_buf m b"
  by (simp add: user_buf_def split: buf_id.split)

lemma in_buffer_stored [simp]: "in_buffer (stored m ps D k) place n = in_buffer m place n"
  by (simp add: in_buffer_def split: option.split prod.split buf_id.split)

lemma store_dst_mem:
  assumes "length d = po_nelem p" and "\<And>b. user_buf m' b = user_buf m b"
  shows "a \<notin> dst_range m p \<Longrightarrow> rm_mem (store_dst p d m') a = rm_mem m' a"
    and "a \<in> dst_range m p \<Longrightarrow> \<exists>b ix. po_dst p = Some (b, ix) \<and> rm_mem (store_dst p d m') a = d ! (a - (user_buf m b + ix))"
  using assms by (auto simp: store_dst_def dst_range_def overwrite_def split: option.splits)

lemma stored_untouched:
  "(\<And>j. j < k \<Longrightarrow> length (D j) = po_nelem (ps ! j)) \<Longrightarrow> (\<And>j. j < k \<Longrightarrow> a \<notin> dst_range m (ps ! j)) \<Longrightarrow>
   rm_mem (stored m ps D k) a = rm_mem m a"
  by (induction k) (simp_all add: store_dst_mem(1) [where m = m])

lemma stored_written:
  assumes "\<And>j. j < k \<Longrightarrow> length (D j) = po_nelem (ps ! j)" and "i < k" and "a \<in> dst_range m (ps ! i)"
    and "\<And>j b ix. j < k \<Longrightarrow> po_dst (ps ! j) = Some (b, ix) \<Longrightarrow> a \<in> dst_range m (ps ! j) \<Longrightarrow> D j ! (a - (user_buf m b + ix)) = v"
  shows "rm_mem (stored m ps D k) a = v"
  using assms
proof (induction k)
  case (Suc k)
  note store = store_dst_mem [where m = m and m' = "stored m ps D k", OF Suc.prems(1) [OF lessI] user_buf_stored]
  show ?case
  proof (cases "a \<in> dst_range m (ps ! k)")
    case True
    with store(2) Suc.prems(4) [OF lessI] show ?thesis by fastforce
  next
    case False
    then have "i < k" using Suc.prems(2,3) by (cases "i = k") auto
    then have "rm_mem (stored m ps D k) a = v" using Suc.IH Suc.prems(1,3,4) less_SucI by blast
    with store(1) [OF False] show ?thesis by simp
  qed
qed simp

end
