(* ===== verification/RingNetwork.thy ===== *)
theory RingNetwork
  imports DevicePrims
begin

text \<open>
  A ring of ranks that run lists of primitives.

  The connection from a rank to the next is a queue of at most \<open>NCCL_STEPS\<close> messages.  A rank runs its primitives in
  order; which rank moves next is not determined.  The second half of the theory shows, for programs that satisfy
  local conditions, that no interleaving gets stuck and all end in the same state.
\<close>

section \<open>The ring\<close>

definition NCCL_STEPS :: nat where
  "NCCL_STEPS = 8"

definition prev_rank :: "nat \<Rightarrow> nat \<Rightarrow> nat" where
  "prev_rank n i = (i + n - 1) mod n"

definition next_rank :: "nat \<Rightarrow> nat \<Rightarrow> nat" where
  "next_rank n i = (i + 1) mod n"

text \<open>\<open>rs_fifo s i\<close> holds the messages on the connection from rank \<open>i\<close> of the ring to the next.\<close>

record 'a ring_st =
  rs_mem :: "nat \<Rightarrow> 'a rank_mem"
  rs_fifo :: "nat \<Rightarrow> 'a list list"
  rs_todo :: "nat \<Rightarrow> prim_op list"

definition after_recv :: "nat \<Rightarrow> prim_op \<Rightarrow> nat \<Rightarrow> (nat \<Rightarrow> 'a list list) \<Rightarrow> nat \<Rightarrow> 'a list list" where
  "after_recv n p i fifo = (if po_recv p then fifo(prev_rank n i := tl (fifo (prev_rank n i))) else fifo)"

definition after_send :: "prim_op \<Rightarrow> nat \<Rightarrow> 'a list \<Rightarrow> (nat \<Rightarrow> 'a list list) \<Rightarrow> nat \<Rightarrow> 'a list list" where
  "after_send p i data fifo = (if po_send p then fifo(i := fifo i @ [data]) else fifo)"

inductive ring_step :: "'a red_op \<Rightarrow> nat \<Rightarrow> 'a ring_st \<Rightarrow> 'a ring_st \<Rightarrow> bool" for op n where
  step: "i < n \<Longrightarrow> rs_todo s i = p # ps \<Longrightarrow>
    (po_send p \<longrightarrow> length (rs_fifo s i) < NCCL_STEPS) \<Longrightarrow> (po_recv p \<longrightarrow> rs_fifo s (prev_rank n i) \<noteq> []) \<Longrightarrow>
    run_op op p (if po_recv p then hd (rs_fifo s (prev_rank n i)) else []) (rs_mem s i) = Some (data, mem) \<Longrightarrow>
    ring_step op n s (s\<lparr>rs_mem := (rs_mem s)(i := mem),
      rs_fifo := after_send p i data (after_recv n p i (rs_fifo s)), rs_todo := (rs_todo s)(i := ps)\<rparr>)"

definition ring_start :: "(nat \<Rightarrow> 'a rank_mem) \<Rightarrow> (nat \<Rightarrow> prim_op list) \<Rightarrow> 'a ring_st" where
  "ring_start mem prog = \<lparr>rs_mem = mem, rs_fifo = (\<lambda>_. []), rs_todo = prog\<rparr>"

definition ring_done :: "nat \<Rightarrow> 'a ring_st \<Rightarrow> bool" where
  "ring_done n s \<longleftrightarrow> (\<forall>i < n. rs_todo s i = [] \<and> rs_fifo s i = [])"

text \<open>Steps that remain.\<close>

definition steps_left :: "nat \<Rightarrow> 'a ring_st \<Rightarrow> nat" where
  "steps_left n s = (\<Sum>i < n. length (rs_todo s i))"

lemma neighbours:
  assumes "2 \<le> n" and "i < n"
  shows "prev_rank n i < n" "next_rank n i < n" "prev_rank n i \<noteq> i" "next_rank n i \<noteq> i"
    "next_rank n (prev_rank n i) = i" "prev_rank n (next_rank n i) = i"
proof -
  show "prev_rank n i < n" "next_rank n i < n" using assms by (simp_all add: prev_rank_def next_rank_def)
  have p: "prev_rank n i = (if i = 0 then n - 1 else i - 1)"
  proof (cases i)
    case (Suc j)
    then have "i + n - 1 = j + n" by simp
    then have "prev_rank n i = (j + n) mod n" unfolding prev_rank_def by (simp only:)
    then show ?thesis using Suc assms by simp
  qed (use assms in \<open>simp add: prev_rank_def\<close>)
  have q: "next_rank n i = (if i = n - 1 then 0 else i + 1)" using assms by (auto simp: next_rank_def)
  show "prev_rank n i \<noteq> i" "next_rank n i \<noteq> i" unfolding p q using assms by auto
  show "next_rank n (prev_rank n i) = i" unfolding p next_rank_def using assms by auto
  show "prev_rank n (next_rank n i) = i"
  proof (cases "i = n - 1")
    case True
    then show ?thesis using assms unfolding q prev_rank_def by simp
  next
    case False
    have "i + 1 + n - 1 = i + n" by simp
    then show ?thesis using False assms unfolding q prev_rank_def by simp
  qed
qed

lemma next_prev_iff: "2 \<le> n \<Longrightarrow> i < n \<Longrightarrow> j < n \<Longrightarrow> next_rank n j = i \<longleftrightarrow> j = prev_rank n i"
  using neighbours by metis

section \<open>Programs with a proof outline\<close>

definition count_of :: "(nat \<Rightarrow> bool) \<Rightarrow> nat \<Rightarrow> nat" where
  "count_of f k = length (filter f [0..<k])"

definition sent_by :: "(nat \<Rightarrow> bool) \<Rightarrow> (nat \<Rightarrow> 'b) \<Rightarrow> nat \<Rightarrow> 'b list" where
  "sent_by snds M k = map M (filter snds [0..<k])"

lemma count_of_simps [simp]: "count_of f 0 = 0" "count_of f (Suc k) = count_of f k + of_bool (f k)"
  by (simp_all add: count_of_def)

lemma sent_by_simps [simp]: "sent_by f M 0 = []" "sent_by f M (Suc k) = sent_by f M k @ (if f k then [M k] else [])"
  by (simp_all add: sent_by_def)

lemma length_sent_by [simp]: "length (sent_by f M k) = count_of f k"
  by (simp add: sent_by_def count_of_def)

lemma count_of_mono: "k \<le> m \<Longrightarrow> count_of f k \<le> count_of f m"
  by (induction rule: dec_induct) auto

lemma nth_sent_by: "k \<le> m \<Longrightarrow> j < count_of f k \<Longrightarrow> sent_by f M m ! j = sent_by f M k ! j"
proof (induction rule: dec_induct)
  case (step m)
  then have "j < count_of f m" using count_of_mono [of k m f] by simp
  then show ?case using step by (simp add: nth_append)
qed simp

lemma sent_by_at:
  assumes "k < m" and "f k"
  shows "sent_by f M m ! count_of f k = M k" and "count_of f k < count_of f m"
proof -
  have "count_of f k < count_of f (Suc k)" using assms(2) by simp
  moreover have le: "Suc k \<le> m" using assms(1) by simp
  ultimately show "count_of f k < count_of f m" using count_of_mono [OF le, of f] by linarith
  have "sent_by f M m ! count_of f k = sent_by f M (Suc k) ! count_of f k" by (rule nth_sent_by [OF le]) (simp add: assms(2))
  also have "\<dots> = M k" using assms(2) by (simp add: nth_append)
  finally show "sent_by f M m ! count_of f k = M k" .
qed

abbreviation recvs :: "prim_op list \<Rightarrow> nat \<Rightarrow> nat" where
  "recvs ps \<equiv> count_of (\<lambda>k. po_recv (ps ! k))"

abbreviation sends :: "prim_op list \<Rightarrow> nat \<Rightarrow> nat" where
  "sends ps \<equiv> count_of (\<lambda>k. po_send (ps ! k))"

abbreviation messages :: "prim_op list \<Rightarrow> (nat \<Rightarrow> 'a list) \<Rightarrow> nat \<Rightarrow> 'a list list" where
  "messages ps D \<equiv> sent_by (\<lambda>k. po_send (ps ! k)) D"

text \<open>\<open>\<tau> i k\<close> is a time for the \<open>k\<close>-th primitive of rank \<open>i\<close>: when every neighbour has run all it does before that time,
  what the primitive waits for is there.\<close>

definition timely :: "nat \<Rightarrow> nat \<Rightarrow> (nat \<Rightarrow> prim_op list) \<Rightarrow> (nat \<Rightarrow> nat \<Rightarrow> nat) \<Rightarrow> bool" where
  "timely n N prog \<tau> \<longleftrightarrow>
     (\<forall>i < n. \<forall>k < N. \<forall>k' \<le> N. po_recv (prog i ! k) \<longrightarrow> k' = N \<or> \<tau> i k \<le> \<tau> (prev_rank n i) k' \<longrightarrow>
        recvs (prog i) k < sends (prog (prev_rank n i)) k') \<and>
     (\<forall>i < n. \<forall>k < N. \<forall>k' \<le> N. po_send (prog i ! k) \<longrightarrow> k' = N \<or> \<tau> i k \<le> \<tau> (next_rank n i) k' \<longrightarrow>
        sends (prog i) k < recvs (prog (next_rank n i)) k' + NCCL_STEPS) \<and>
     (\<forall>i < n. recvs (prog (next_rank n i)) N = sends (prog i) N)"

text \<open>\<open>D i k\<close> is what the \<open>k\<close>-th primitive of rank \<open>i\<close> computes.\<close>

definition peer_data :: "nat \<Rightarrow> nat \<Rightarrow> (nat \<Rightarrow> prim_op list) \<Rightarrow> (nat \<Rightarrow> nat \<Rightarrow> 'a list) \<Rightarrow> nat \<Rightarrow> nat \<Rightarrow> 'a list" where
  "peer_data n N prog D i k =
     (if po_recv (prog i ! k)
      then messages (prog (prev_rank n i)) (D (prev_rank n i)) N ! recvs (prog i) k else [])"

definition outline :: "'a red_op \<Rightarrow> nat \<Rightarrow> nat \<Rightarrow> (nat \<Rightarrow> prim_op list) \<Rightarrow> (nat \<Rightarrow> 'a rank_mem) \<Rightarrow> (nat \<Rightarrow> nat \<Rightarrow> 'a list) \<Rightarrow> bool" where
  "outline op n N prog mem D \<longleftrightarrow> (\<forall>i < n. length (prog i) = N \<and> (\<forall>k < N.
     run_op op (prog i ! k) (peer_data n N prog D i k) (stored (mem i) (prog i) (D i) k) =
       Some (D i k, stored (mem i) (prog i) (D i) (Suc k))))"

definition at_counters :: "nat \<Rightarrow> nat \<Rightarrow> (nat \<Rightarrow> prim_op list) \<Rightarrow> (nat \<Rightarrow> 'a rank_mem) \<Rightarrow> (nat \<Rightarrow> nat \<Rightarrow> 'a list) \<Rightarrow>
    (nat \<Rightarrow> nat) \<Rightarrow> 'a ring_st \<Rightarrow> bool" where
  "at_counters n N prog mem D pc s \<longleftrightarrow>
     (\<forall>i < n. pc i \<le> N \<and> rs_todo s i = drop (pc i) (prog i) \<and> rs_mem s i = stored (mem i) (prog i) (D i) (pc i) \<and>
        recvs (prog (next_rank n i)) (pc (next_rank n i)) \<le> sends (prog i) (pc i) \<and>
        rs_fifo s i = drop (recvs (prog (next_rank n i)) (pc (next_rank n i))) (messages (prog i) (D i) (pc i)))"

lemma at_counters_start: "at_counters n N prog mem D (\<lambda>_. 0) (ring_start mem prog)"
  by (simp add: at_counters_def ring_start_def)

lemma step_at_counters:
  assumes "2 \<le> n" and "outline op n N prog mem D" and "at_counters n N prog mem D pc s" and "i < n" and "pc i < N"
    and "po_send (prog i ! pc i) \<longrightarrow> length (rs_fifo s i) < NCCL_STEPS"
    and "po_recv (prog i ! pc i) \<longrightarrow> rs_fifo s (prev_rank n i) \<noteq> []"
  shows "\<exists>t. ring_step op n s t \<and> at_counters n N prog mem D (pc(i := Suc (pc i))) t"
    and "\<And>p ps data m. rs_todo s i = p # ps \<Longrightarrow>
      run_op op p (if po_recv p then hd (rs_fifo s (prev_rank n i)) else []) (rs_mem s i) = Some (data, m) \<Longrightarrow>
      at_counters n N prog mem D (pc(i := Suc (pc i))) (s\<lparr>rs_mem := (rs_mem s)(i := m),
        rs_fifo := after_send p i data (after_recv n p i (rs_fifo s)), rs_todo := (rs_todo s)(i := ps)\<rparr>)"
proof -
  let ?k = "pc i" and ?j = "prev_rank n i" and ?p = "prog i ! pc i"
  note nb = neighbours [OF assms(1,4)]
  have inv: "pc m \<le> N" "rs_todo s m = drop (pc m) (prog m)" "rs_mem s m = stored (mem m) (prog m) (D m) (pc m)"
      "recvs (prog (next_rank n m)) (pc (next_rank n m)) \<le> sends (prog m) (pc m)"
      "rs_fifo s m = drop (recvs (prog (next_rank n m)) (pc (next_rank n m))) (messages (prog m) (D m) (pc m))" if "m < n" for m
    using assms(3) that by (simp_all add: at_counters_def)
  have len: "length (prog i) = N" using assms(2,4) by (simp add: outline_def)
  then have todo: "rs_todo s i = ?p # drop (Suc ?k) (prog i)"
    using assms(5) inv(2) [OF assms(4)] by (simp add: Cons_nth_drop_Suc)
  have head: "hd (rs_fifo s ?j) = peer_data n N prog D i ?k" "recvs (prog i) ?k < sends (prog ?j) (pc ?j)" if "po_recv ?p"
  proof -
    have fifo: "rs_fifo s ?j = drop (recvs (prog i) ?k) (messages (prog ?j) (D ?j) (pc ?j))" using inv(5) [OF nb(1)] nb(5) by simp
    with assms(7) that show less: "recvs (prog i) ?k < sends (prog ?j) (pc ?j)" by simp
    then have "hd (rs_fifo s ?j) = messages (prog ?j) (D ?j) (pc ?j) ! recvs (prog i) ?k" unfolding fifo by (simp add: hd_drop_conv_nth)
    also have "\<dots> = messages (prog ?j) (D ?j) N ! recvs (prog i) ?k" by (rule nth_sent_by [OF inv(1) [OF nb(1)] less, symmetric])
    finally show "hd (rs_fifo s ?j) = peer_data n N prog D i ?k" using that by (simp add: peer_data_def)
  qed
  have "run_op op ?p (peer_data n N prog D i ?k) (stored (mem i) (prog i) (D i) ?k) = Some (D i ?k, stored (mem i) (prog i) (D i) (Suc ?k))"
    using assms(2,4,5) unfolding outline_def by blast
  moreover have "(if po_recv ?p then hd (rs_fifo s ?j) else []) = peer_data n N prog D i ?k"
    using head(1) by (cases "po_recv ?p") (simp_all add: peer_data_def)
  ultimately have run: "run_op op ?p (if po_recv ?p then hd (rs_fifo s ?j) else []) (rs_mem s i) =
      Some (D i ?k, stored (mem i) (prog i) (D i) (Suc ?k))"
    by (simp only: inv(3) [OF assms(4)])
  let ?t = "s\<lparr>rs_mem := (rs_mem s)(i := stored (mem i) (prog i) (D i) (Suc ?k)),
      rs_fifo := after_send ?p i (D i ?k) (after_recv n ?p i (rs_fifo s)),
      rs_todo := (rs_todo s)(i := drop (Suc ?k) (prog i))\<rparr>"
  have next_ok: "at_counters n N prog mem D (pc(i := Suc ?k)) ?t"
    unfolding at_counters_def
  proof (intro allI impI conjI)
    fix m assume m: "m < n"
    have nm: "next_rank n m = i \<longleftrightarrow> m = ?j" by (rule next_prev_iff [OF assms(1,4) m])
    show "(pc(i := Suc ?k)) m \<le> N" using inv(1) [OF m] assms(5) by simp
    show "rs_todo ?t m = drop ((pc(i := Suc ?k)) m) (prog m)" using inv(2) [OF m] by simp
    show "rs_mem ?t m = stored (mem m) (prog m) (D m) ((pc(i := Suc ?k)) m)"
      using inv(3) [OF m] by (simp del: stored.simps)
    show "recvs (prog (next_rank n m)) ((pc(i := Suc ?k)) (next_rank n m)) \<le> sends (prog m) ((pc(i := Suc ?k)) m)"
      using inv(4) [OF m] nm nb head(2) by (cases "m = i"; cases "m = ?j") auto
    have "i \<noteq> ?j" using nb(3) by simp
    consider "m = i" | "m = ?j" | "m \<noteq> i" "m \<noteq> ?j" by blast
    then show "rs_fifo ?t m = drop (recvs (prog (next_rank n m)) ((pc(i := Suc ?k)) (next_rank n m)))
        (messages (prog m) (D m) ((pc(i := Suc ?k)) m))"
    proof cases
      case 1
      then have "next_rank n m \<noteq> i" using nb(4) by simp
      then show ?thesis using 1 inv(4,5) [OF assms(4)] \<open>i \<noteq> ?j\<close> by (simp add: after_send_def after_recv_def)
    next
      case 2
      then have "next_rank n m = i" using nb(5) by simp
      then show ?thesis using 2 inv(5) [OF nb(1)] nb(3,5) head(2)
        by (simp add: after_send_def after_recv_def tl_drop drop_Suc)
    next
      case 3
      then show ?thesis using inv(5) [OF m] nm by (simp add: after_send_def after_recv_def)
    qed
  qed
  have "ring_step op n s ?t"
    using ring_step.step [OF assms(4) todo _ _ run] assms(6,7) by blast
  with next_ok show "\<exists>t. ring_step op n s t \<and> at_counters n N prog mem D (pc(i := Suc (pc i))) t" by blast
  fix p ps data m
  assume p: "rs_todo s i = p # ps"
    and r: "run_op op p (if po_recv p then hd (rs_fifo s ?j) else []) (rs_mem s i) = Some (data, m)"
  have "p = ?p" "ps = drop (Suc ?k) (prog i)" using p todo by simp_all
  moreover from this have "data = D i ?k" "m = stored (mem i) (prog i) (D i) (Suc ?k)" using r run by (auto simp del: stored.simps)
  ultimately show "at_counters n N prog mem D (pc(i := Suc (pc i))) (s\<lparr>rs_mem := (rs_mem s)(i := m),
        rs_fifo := after_send p i data (after_recv n p i (rs_fifo s)), rs_todo := (rs_todo s)(i := ps)\<rparr>)" using next_ok by simp
qed

section \<open>Every interleaving\<close>

lemma ring_step_at_counters:
  assumes "2 \<le> n" and "outline op n N prog mem D" and "at_counters n N prog mem D pc s" and "ring_step op n s t"
  shows "\<exists>pc. at_counters n N prog mem D pc t"
  using assms(4)
proof cases
  case (step i p ps data m)
  have "length (prog i) = N" "rs_todo s i = drop (pc i) (prog i)"
    using assms(2,3) step(2) by (simp_all add: outline_def at_counters_def)
  with step(3) have k: "pc i < N" and p: "p = prog i ! pc i" by (auto simp: nth_via_drop dest: arg_cong [of _ _ length])
  show ?thesis
    using step_at_counters(2) [OF assms(1-3) step(2) k _ _ step(3,6)] step(1,4,5) unfolding p by auto
qed

lemma reachable_at_counters:
  assumes "2 \<le> n" and "outline op n N prog mem D" and "(ring_step op n)\<^sup>*\<^sup>* (ring_start mem prog) s"
  shows "\<exists>pc. at_counters n N prog mem D pc s"
  using assms(3)
proof (induction rule: rtranclp_induct)
  case base
  show ?case using at_counters_start by blast
next
  case (step s t)
  then show ?case using ring_step_at_counters [OF assms(1,2)] by blast
qed

text \<open>Among the ranks that are not done, one whose primitive has the earliest time can run it.\<close>

lemma earliest_rank_can_step:
  assumes "2 \<le> n" and "outline op n N prog mem D" and "timely n N prog \<tau>" and "at_counters n N prog mem D pc s"
    and "j < n" and "pc j < N"
  shows "\<exists>t. ring_step op n s t"
proof -
  obtain i where i: "i < n" "pc i < N" and least: "\<And>m. m < n \<Longrightarrow> pc m < N \<Longrightarrow> \<tau> i (pc i) \<le> \<tau> m (pc m)"
    using ex_has_least_nat [of "\<lambda>i. i < n \<and> pc i < N" j "\<lambda>i. \<tau> i (pc i)"] assms(5,6) by blast
  note nb = neighbours [OF assms(1) i(1)]
  have at: "pc m \<le> N" "pc m = N \<or> \<tau> i (pc i) \<le> \<tau> m (pc m)"
      "rs_fifo s m = drop (recvs (prog (next_rank n m)) (pc (next_rank n m))) (messages (prog m) (D m) (pc m))" if "m < n" for m
  proof -
    show "pc m \<le> N" "rs_fifo s m = drop (recvs (prog (next_rank n m)) (pc (next_rank n m))) (messages (prog m) (D m) (pc m))"
      using assms(4) that by (simp_all add: at_counters_def)
    then show "pc m = N \<or> \<tau> i (pc i) \<le> \<tau> m (pc m)" using least [OF that] by linarith
  qed
  have "po_send (prog i ! pc i) \<Longrightarrow> sends (prog i) (pc i) < recvs (prog (next_rank n i)) (pc (next_rank n i)) + NCCL_STEPS"
    using assms(3) i at(1,2) [OF nb(2)] unfolding timely_def by blast
  then have "po_send (prog i ! pc i) \<longrightarrow> length (rs_fifo s i) < NCCL_STEPS"
    using at(3) [OF i(1)] by (auto simp: NCCL_STEPS_def)
  moreover have "po_recv (prog i ! pc i) \<Longrightarrow> recvs (prog i) (pc i) < sends (prog (prev_rank n i)) (pc (prev_rank n i))"
    using assms(3) i at(1,2) [OF nb(1)] unfolding timely_def by blast
  then have "po_recv (prog i ! pc i) \<longrightarrow> rs_fifo s (prev_rank n i) \<noteq> []"
    using at(3) [OF nb(1)] nb(5) by auto
  ultimately show ?thesis using step_at_counters(1) [OF assms(1,2,4) i] by blast
qed

theorem outline_runs:
  assumes "2 \<le> n" and "outline op n N prog mem D" and "timely n N prog \<tau>"
    and "(ring_step op n)\<^sup>*\<^sup>* (ring_start mem prog) s"
  shows "(\<exists>t. ring_step op n s t) \<or> ring_done n s \<and> (\<forall>i < n. rs_mem s i = stored (mem i) (prog i) (D i) N)"
proof -
  obtain pc where pc: "at_counters n N prog mem D pc s" using reachable_at_counters [OF assms(1,2,4)] by blast
  show ?thesis
  proof (cases "\<exists>j < n. pc j < N")
    case True
    then show ?thesis using earliest_rank_can_step [OF assms(1-3) pc] by blast
  next
    case False
    have all: "pc i = N" if "i < n" for i
      using False pc that unfolding at_counters_def by (meson le_antisym not_less)
    have "\<forall>i < n. length (prog i) = N" "\<forall>i < n. recvs (prog (next_rank n i)) N = sends (prog i) N"
      using assms(2,3) by (simp_all add: outline_def timely_def)
    then have "ring_done n s" using pc all neighbours(2) [OF assms(1)] by (simp add: at_counters_def ring_done_def)
    moreover have "\<forall>i < n. rs_mem s i = stored (mem i) (prog i) (D i) N" using pc all by (simp add: at_counters_def)
    ultimately show ?thesis by blast
  qed
qed

lemma steps_left_decreases: "ring_step op n s t \<Longrightarrow> steps_left n t < steps_left n s"
proof (induction rule: ring_step.induct)
  case (step i s p ps data m)
  then show ?case unfolding steps_left_def by (intro sum_strict_mono_ex1) (auto intro!: bexI [of _ i])
qed

inductive_cases ring_stepE: "ring_step op n s t"

lemma ring_done_stops: "ring_done n s \<Longrightarrow> \<not> ring_step op n s t"
  by (auto simp: ring_done_def elim: ring_stepE)

end
