(* ===== verification/RingPrograms.thy ===== *)
theory RingPrograms
  imports RingNetwork
begin

text \<open>
  What the ring programs of the collectives share: the loop over the elements of a channel, the two shapes of
  programs (every rank passes each piece all the way round; one pass along a chain), and the conclusion that every run
  ends.
\<close>

section \<open>Every run ends\<close>

text \<open>However the steps are chosen, the ring comes to an end in a state with \<open>Q\<close>.\<close>

inductive inevitably :: "'a red_op \<Rightarrow> nat \<Rightarrow> ((nat \<Rightarrow> 'a rank_mem) \<Rightarrow> bool) \<Rightarrow> 'a ring_st \<Rightarrow> bool" for op n Q where
  ended: "ring_done n s \<Longrightarrow> Q (rs_mem s) \<Longrightarrow> inevitably op n Q s"
| later: "ring_step op n s t \<Longrightarrow> (\<And>t. ring_step op n s t \<Longrightarrow> inevitably op n Q t) \<Longrightarrow> inevitably op n Q s"

lemma inevitably_mono:
  assumes "inevitably op n P s" and "\<And>m. P m \<Longrightarrow> Q m"
  shows "inevitably op n Q s"
  using assms(1)
proof induction
  case (ended s)
  then show ?case using assms(2) by (blast intro: inevitably.ended)
next
  case (later s t)
  then show ?case by (blast intro: inevitably.later)
qed

theorem outline_inevitably:
  assumes "2 \<le> n" and "outline op n N prog mem D" and "timely n N prog \<tau>"
    and "\<And>m. (\<And>i. i < n \<Longrightarrow> m i = stored (mem i) (prog i) (D i) N) \<Longrightarrow> Q m"
  shows "inevitably op n Q (ring_start mem prog)"
proof -
  have "(ring_step op n)\<^sup>*\<^sup>* (ring_start mem prog) s \<Longrightarrow> inevitably op n Q s" for s
  proof (induction s rule: measure_induct_rule [of "steps_left n"])
    case (less s)
    have "inevitably op n Q t" if "ring_step op n s t" for t
      using less.IH [OF steps_left_decreases [OF that]] less.prems that by (blast intro: rtranclp.rtrancl_into_rtrancl)
    moreover note outline_runs [OF assms(1-3) less.prems]
    ultimately show ?case using inevitably.ended [of n s Q op] inevitably.later [of op n s _ Q] assms(4) [of "rs_mem s"] by blast
  qed
  then show ?thesis by blast
qed

section \<open>Loops\<close>

text \<open>\<open>for (elemOffset = from; elemOffset < bound; elemOffset += stride)\<close>; a stride of 0 would not end.\<close>

function loop_from :: "nat \<Rightarrow> nat \<Rightarrow> nat \<Rightarrow> nat list" where
  "loop_from elemOffset bound stride =
     (if elemOffset < bound \<and> 0 < stride then elemOffset # loop_from (elemOffset + stride) bound stride else [])"
  by auto
termination by (relation "measure (\<lambda>(elemOffset, bound, stride). bound - elemOffset)") auto

declare loop_from.simps [simp del]

text \<open>\<open>(int)\<close> of a 64-bit number.\<close>

definition int_cast :: "int \<Rightarrow> int" where
  "int_cast x = signed_take_bit 31 x"

definition rounds :: "nat \<Rightarrow> nat \<Rightarrow> nat" where
  "rounds bound stride = (bound + stride - 1) div stride"

lemma less_rounds_iff:
  assumes "0 < stride"
  shows "q < rounds bound stride \<longleftrightarrow> q * stride < bound"
proof -
  have "q < rounds bound stride \<longleftrightarrow> (q + 1) * stride \<le> bound + stride - 1"
    using less_eq_div_iff_mult_less_eq [OF assms, of "q + 1"] by (simp add: rounds_def Suc_le_eq)
  also have "\<dots> \<longleftrightarrow> q * stride < bound" using assms by (auto simp: algebra_simps)
  finally show ?thesis .
qed

lemma loop_from_eq:
  assumes "0 < stride"
  shows "loop_from (a * stride) bound stride = map (\<lambda>q. q * stride) [a..<rounds bound stride]"
proof (induction "rounds bound stride - a" arbitrary: a)
  case 0
  then have "\<not> a < rounds bound stride" by simp
  then have "\<not> a * stride < bound" unfolding less_rounds_iff [OF assms] .
  then show ?case using 0 by (simp add: loop_from.simps)
next
  case (Suc d)
  then have a: "a < rounds bound stride" by simp
  then have less: "a * stride < bound" using less_rounds_iff [OF assms] by simp
  have "loop_from (a * stride + stride) bound stride = map (\<lambda>q. q * stride) [Suc a..<rounds bound stride]"
    using Suc.hyps(1) [of "Suc a"] Suc.hyps(2) by (simp add: add.commute)
  then show ?case using less assms a by (simp add: loop_from.simps [of "a * stride"] upt_conv_Cons)
qed

lemma loop_from_0: "0 < stride \<Longrightarrow> loop_from 0 bound stride = map (\<lambda>q. q * stride) [0..<rounds bound stride]"
  using loop_from_eq [of stride 0] by simp

lemma length_concat_uniform: "(\<And>x. x \<in> set xs \<Longrightarrow> length (f x) = L) \<Longrightarrow> length (concat (map f xs)) = length xs * L"
  by (induction xs) simp_all

lemma nth_concat_uniform:
  "(\<And>x. x \<in> set xs \<Longrightarrow> length (f x) = L) \<Longrightarrow> k < length xs * L \<Longrightarrow> concat (map f xs) ! k = f (xs ! (k div L)) ! (k mod L)"
proof (induction xs arbitrary: k)
  case (Cons x xs)
  have L: "0 < L" using Cons.prems(2) by (cases L) auto
  have len: "length (f x) = L" using Cons.prems(1) by simp
  show ?case
  proof (cases "k < L")
    case False
    then obtain j where k: "k = j + L" by (metis le_add_diff_inverse2 not_less)
    have "concat (map f xs) ! j = f (xs ! (j div L)) ! (j mod L)" using Cons k by simp
    moreover have "k div L = Suc (j div L)" "k mod L = j mod L" using L k by (simp_all add: div_add_self2)
    ultimately show ?thesis using len k by (simp add: nth_append)
  qed (use len in \<open>simp add: nth_append\<close>)
qed simp

lemma block_index:
  assumes "k < Q * L"
  shows "k div L < Q" and "k mod L < L" and "k = k div L * L + k mod (L :: nat)"
  using assms by (simp_all add: less_mult_imp_div_less) (cases L; simp)

section \<open>Programs of blocks\<close>

text \<open>Every rank runs \<open>Q\<close> blocks of \<open>L\<close> primitives; all but the first of a block receive and all but the last send.\<close>

definition blocks :: "nat \<Rightarrow> nat \<Rightarrow> nat \<Rightarrow> (nat \<Rightarrow> prim_op list) \<Rightarrow> bool" where
  "blocks n Q L prog \<longleftrightarrow> 2 \<le> L \<and>
     (\<forall>i < n. \<forall>k < Q * L. po_recv (prog i ! k) = (k mod L \<noteq> 0) \<and> po_send (prog i ! k) = (k mod L \<noteq> L - 1))"

lemma count_of_cong: "(\<And>j. j < k \<Longrightarrow> f j = g j) \<Longrightarrow> count_of f k = count_of g k"
  unfolding count_of_def by (metis (mono_tags, lifting) atLeastLessThan_iff filter_cong set_upt)

lemma block_counts:
  assumes "2 \<le> L"
  shows "count_of (\<lambda>k. k mod L \<noteq> 0) k = k div L * (L - 1) + (k mod L - 1)"
    and "count_of (\<lambda>k. k mod L \<noteq> L - 1) k = k div L * (L - 1) + k mod L"
proof -
  obtain l where L: "L = Suc (Suc l)" using assms by (metis Suc_le_D numeral_2_eq_2 Suc_le_mono)
  have "count_of (\<lambda>k. k mod L \<noteq> 0) k = k div L * Suc l + (k mod L - 1) \<and>
      count_of (\<lambda>k. k mod L \<noteq> L - 1) k = k div L * Suc l + k mod L"
  proof (induction k)
    case (Suc k)
    define q r where "q = k div L" and "r = k mod L"
    have r: "r < L" by (simp add: r_def L)
    have "Suc k div L = (if r = L - 1 then Suc q else q)" "Suc k mod L = (if r = L - 1 then 0 else Suc r)"
      unfolding q_def r_def by (auto simp: div_Suc mod_Suc L)
    then show ?case using Suc.IH r unfolding count_of_simps q_def [symmetric] r_def [symmetric]
      by (cases "r = L - 1"; cases "r = 0") (simp_all add: L)
  qed simp
  then show "count_of (\<lambda>k. k mod L \<noteq> 0) k = k div L * (L - 1) + (k mod L - 1)"
    and "count_of (\<lambda>k. k mod L \<noteq> L - 1) k = k div L * (L - 1) + k mod L" by (simp_all add: L)
qed

lemma blocks_counts:
  assumes "blocks n Q L prog" and "i < n" and "k \<le> Q * L"
  shows "recvs (prog i) k = k div L * (L - 1) + (k mod L - 1)" and "sends (prog i) k = k div L * (L - 1) + k mod L"
proof -
  have L: "2 \<le> L" and flags: "\<And>j. j < k \<Longrightarrow> po_recv (prog i ! j) = (j mod L \<noteq> 0)"
      "\<And>j. j < k \<Longrightarrow> po_send (prog i ! j) = (j mod L \<noteq> L - 1)"
    using assms by (simp_all add: blocks_def)
  show "recvs (prog i) k = k div L * (L - 1) + (k mod L - 1)"
    by (rule trans [OF count_of_cong [OF flags(1)] block_counts(1) [OF L]])
  show "sends (prog i) k = k div L * (L - 1) + k mod L"
    by (rule trans [OF count_of_cong [OF flags(2)] block_counts(2) [OF L]])
qed

lemma blocks_timely:
  assumes "2 \<le> n" and "blocks n Q L prog"
  shows "timely n (Q * L) prog (\<lambda>_ k. k)"
proof -
  note count = blocks_counts [OF assms(2)]
  have L: "2 \<le> L" using assms(2) by (simp add: blocks_def)
  have "recvs (prog i) k < sends (prog (prev_rank n i)) k'"
    if h: "i < n" "k < Q * L" "k' \<le> Q * L" "po_recv (prog i ! k)" "k' = Q * L \<or> k \<le> k'" for i k k'
  proof -
    have "k mod L \<noteq> 0" using assms(2) h by (simp add: blocks_def)
    then have "recvs (prog i) k < sends (prog (prev_rank n i)) k"
      using count h(1,2) neighbours(1) [OF assms(1) h(1)] by simp
    also have "\<dots> \<le> sends (prog (prev_rank n i)) k'" using h(2,5) by (intro count_of_mono) linarith
    finally show ?thesis .
  qed
  moreover have "sends (prog i) k < recvs (prog (next_rank n i)) k' + NCCL_STEPS"
    if h: "i < n" "k < Q * L" "k' \<le> Q * L" "k' = Q * L \<or> k \<le> k'" for i k k'
  proof -
    have "sends (prog i) k \<le> recvs (prog (next_rank n i)) k + 1"
      using count h(1,2) neighbours(2) [OF assms(1) h(1)] by simp
    also have "recvs (prog (next_rank n i)) k \<le> recvs (prog (next_rank n i)) k'" using h(2,4) by (intro count_of_mono) linarith
    finally show ?thesis by (simp add: NCCL_STEPS_def)
  qed
  moreover have "recvs (prog (next_rank n i)) (Q * L) = sends (prog i) (Q * L)" if "i < n" for i
    using count that neighbours(2) [OF assms(1) that] L by simp
  ultimately show ?thesis unfolding timely_def by blast
qed

lemma blocks_peer_data:
  assumes "2 \<le> n" and "blocks n Q L prog" and "i < n" and "k < Q * L"
  shows "peer_data n (Q * L) prog D i k = (if k mod L = 0 then [] else D (prev_rank n i) (k - 1))"
proof (cases "k mod L = 0")
  case True
  then show ?thesis using assms by (simp add: peer_data_def blocks_def)
next
  case False
  then have L: "2 \<le> L" and recv: "po_recv (prog i ! k)" using assms by (simp_all add: blocks_def)
  note j = neighbours(1) [OF assms(1,3)]
  obtain m where k: "k = Suc m" using False by (cases k) auto
  have split: "Suc m div L = m div L" "Suc m mod L = Suc (m mod L)"
    using False unfolding k by (auto simp: div_Suc mod_Suc split: if_splits)
  have "Suc (m mod L) < L" using L split(2) mod_less_divisor [of L "Suc m"] by linarith
  then have send: "po_send (prog (prev_rank n i) ! m)" using assms(2,4) j k by (simp add: blocks_def)
  have "recvs (prog i) k = k div L * (L - 1) + (k mod L - 1)"
    using assms(4) by (intro blocks_counts(1) [OF assms(2,3)]) simp
  moreover have "sends (prog (prev_rank n i)) m = m div L * (L - 1) + m mod L"
    using assms(4) k by (intro blocks_counts(2) [OF assms(2) j]) simp
  ultimately have "recvs (prog i) k = sends (prog (prev_rank n i)) m" unfolding k split by (simp only: diff_Suc_1)
  then show ?thesis
    using sent_by_at(1) [of m "Q * L" "\<lambda>k. po_send (prog (prev_rank n i) ! k)" "D (prev_rank n i)"] False assms(4) k send recv
    by (simp add: peer_data_def)
qed

section \<open>Chains\<close>

text \<open>Every rank runs \<open>Q\<close> primitives; the data goes along the ring from one rank to the rank before it.
  \<open>pos i\<close> is the distance of rank \<open>i\<close> from the first.\<close>

definition chain :: "nat \<Rightarrow> nat \<Rightarrow> (nat \<Rightarrow> prim_op list) \<Rightarrow> (nat \<Rightarrow> nat) \<Rightarrow> bool" where
  "chain n Q prog pos \<longleftrightarrow>
     (\<forall>i < n. \<forall>k < Q. po_recv (prog i ! k) = (pos i \<noteq> 0) \<and> po_send (prog i ! k) = (pos (next_rank n i) \<noteq> 0)) \<and>
     (\<forall>i < n. pos i \<noteq> 0 \<longrightarrow> pos i = Suc (pos (prev_rank n i)))"

lemma chain_counts:
  assumes "chain n Q prog pos" and "i < n" and "k \<le> Q"
  shows "recvs (prog i) k = (if pos i = 0 then 0 else k)" and "sends (prog i) k = (if pos (next_rank n i) = 0 then 0 else k)"
proof -
  have flags: "\<And>j. j < k \<Longrightarrow> po_recv (prog i ! j) = (pos i \<noteq> 0)" "\<And>j. j < k \<Longrightarrow> po_send (prog i ! j) = (pos (next_rank n i) \<noteq> 0)"
    using assms by (simp_all add: chain_def)
  have const: "count_of (\<lambda>_. \<not> b) k = (if b then 0 else k)" for b by (simp add: count_of_def)
  show "recvs (prog i) k = (if pos i = 0 then 0 else k)"
    by (rule trans [OF count_of_cong [OF flags(1)] const])
  show "sends (prog i) k = (if pos (next_rank n i) = 0 then 0 else k)"
    by (rule trans [OF count_of_cong [OF flags(2)] const])
qed

lemma chain_timely:
  assumes "2 \<le> n" and "chain n Q prog pos"
  shows "timely n Q prog (\<lambda>i k. k + pos i)"
proof -
  note count = chain_counts [OF assms(2)]
  note nb = neighbours [OF assms(1)]
  have pos: "pos i = Suc (pos (prev_rank n i))" if "i < n" "pos i \<noteq> 0" for i using assms(2) that by (simp add: chain_def)
  have "recvs (prog i) k < sends (prog (prev_rank n i)) k'"
    if h: "i < n" "k < Q" "k' \<le> Q" "po_recv (prog i ! k)" "k' = Q \<or> k + pos i \<le> k' + pos (prev_rank n i)" for i k k'
  proof -
    have "pos i \<noteq> 0" using assms(2) h(1,2,4) by (simp add: chain_def)
    then show ?thesis using count h(1,2,3,5) nb(1,5) [OF h(1)] pos [OF h(1)] by auto
  qed
  moreover have "sends (prog i) k < recvs (prog (next_rank n i)) k' + NCCL_STEPS"
    if h: "i < n" "k < Q" "k' \<le> Q" "po_send (prog i ! k)" "k' = Q \<or> k + pos i \<le> k' + pos (next_rank n i)" for i k k'
  proof -
    have "pos (next_rank n i) \<noteq> 0" using assms(2) h(1,2,4) by (simp add: chain_def)
    then show ?thesis using count h(1,2,3,5) nb(2,6) [OF h(1)] pos [OF nb(2) [OF h(1)]] by (auto simp: NCCL_STEPS_def)
  qed
  moreover have "recvs (prog (next_rank n i)) Q = sends (prog i) Q" if "i < n" for i
    using count that nb(2) [OF that] by simp
  ultimately show ?thesis unfolding timely_def by blast
qed

lemma chain_peer_data:
  assumes "2 \<le> n" and "chain n Q prog pos" and "i < n" and "k < Q"
  shows "peer_data n Q prog D i k = (if pos i = 0 then [] else D (prev_rank n i) k)"
proof (cases "pos i = 0")
  case True
  then show ?thesis using assms by (simp add: peer_data_def chain_def)
next
  case False
  note nb = neighbours [OF assms(1,3)]
  have "po_recv (prog i ! k)" "po_send (prog (prev_rank n i) ! k)" using assms False nb(1,5) by (simp_all add: chain_def)
  moreover have "recvs (prog i) k = sends (prog (prev_rank n i)) k" using chain_counts [OF assms(2)] assms(3,4) nb(1,5) by simp
  ultimately show ?thesis
    using sent_by_at(1) [of k Q "\<lambda>k. po_send (prog (prev_rank n i) ! k)" "D (prev_rank n i)"] False assms(4)
    by (simp add: peer_data_def)
qed

end
