(* ===== verification/RingSetup.thy ===== *)
theory RingSetup
  imports Prelude
begin

text \<open>
  \<open>setupChannel\<close> of \<open>src/init.cc\<close>: what a rank keeps of the ring of a channel.  Its distance from rank 0 becomes
  \<open>ring->index\<close>, and \<open>userRanks\<close> lists the ranks of the ring from itself on.
\<close>

record ring_info =
  ri_index :: nat
  ri_userRanks :: "nat list"
  ri_rankToIndex :: "nat list"

definition find_last :: "nat \<Rightarrow> nat list \<Rightarrow> nat" where
  "find_last x xs = foldl (\<lambda>ix i. if xs ! i = x then i else ix) 0 [0..<length xs]"

definition setup_channel :: "nat list \<Rightarrow> nat \<Rightarrow> ring_info" where
  "setup_channel ringRanks rank =
     (let nranks = length ringRanks;
          ixZero = find_last 0 ringRanks;
          ixRank = find_last rank ringRanks;
          userRanks = map (\<lambda>i. ringRanks ! ((i + ixRank) mod nranks)) [0..<nranks]
      in \<lparr>ri_index = nat ((int ixRank - int ixZero + int nranks) mod int nranks), ri_userRanks = userRanks,
          ri_rankToIndex = foldl (\<lambda>t i. t[userRanks ! i := i]) (replicate nranks 0) [0..<nranks]\<rparr>)"

text \<open>The rank at distance \<open>i\<close> from rank 0.\<close>

definition rank_at :: "nat list \<Rightarrow> nat \<Rightarrow> nat" where
  "rank_at ringRanks i = ringRanks ! ((find_last 0 ringRanks + i) mod length ringRanks)"

definition is_ring :: "nat list \<Rightarrow> bool" where
  "is_ring ringRanks \<longleftrightarrow> distinct ringRanks \<and> set ringRanks = {0..<length ringRanks}"

lemma find_last_nth:
  assumes "distinct xs" and "i < length xs"
  shows "find_last (xs ! i) xs = i"
proof -
  have "foldl (\<lambda>ix j. if xs ! j = xs ! i then j else ix) z [0..<m] = (if i < m then i else z)" if "m \<le> length xs" for m z
    using that assms by (induction m) (auto simp: nth_eq_iff_index_eq less_Suc_eq)
  then show ?thesis using assms(2) by (simp add: find_last_def)
qed

lemma wrap_add: "a < n \<Longrightarrow> b < n \<Longrightarrow> (a + b) mod n = (if a + b < n then a + b else a + b - n)" for n :: nat
  by (simp add: mod_if)

lemma inverse_table:
  assumes "distinct us" and "\<And>u. u \<in> set us \<Longrightarrow> u < length t" and "j < m" and "m \<le> length us"
  shows "foldl (\<lambda>t i. t[us ! i := i]) t [0..<m] ! (us ! j) = j"
  using assms(3,4)
proof (induction m)
  case (Suc m)
  have len: "length (foldl (\<lambda>t i. t[us ! i := i]) t [0..<m]) = length t" for m by (induction m) simp_all
  show ?case using Suc assms(1,2) by (cases "j = m") (auto simp: len nth_list_update nth_eq_iff_index_eq)
qed simp

lemma rank_at_setup:
  assumes "is_ring ringRanks" and "i < length ringRanks"
  defines "ring \<equiv> setup_channel ringRanks (rank_at ringRanks i)"
  shows "ri_index ring = i"
    and "j < length ringRanks \<Longrightarrow> ri_userRanks ring ! j = rank_at ringRanks ((i + j) mod length ringRanks)"
    and "j < length ringRanks \<Longrightarrow> ri_rankToIndex ring ! (ri_userRanks ring ! j) = j"
proof -
  let ?n = "length ringRanks" and ?z = "find_last 0 ringRanks"
  let ?p = "(?z + i) mod ?n"
  have d: "distinct ringRanks" and n: "0 < ?n" using assms(1,2) by (auto simp: is_ring_def)
  then have p: "find_last (rank_at ringRanks i) ringRanks = ?p"
    unfolding rank_at_def by (intro find_last_nth) simp_all
  have "(int ?p - int ?z + int ?n) mod int ?n = (int i + int ?n) mod int ?n"
  proof -
    have "(int ?p - int ?z + int ?n) mod int ?n = ((int ?z + int i) mod int ?n - int ?z) mod int ?n"
      by (simp add: zmod_int)
    also have "\<dots> = int i mod int ?n" unfolding mod_diff_left_eq by simp
    finally show ?thesis by simp
  qed
  then show "ri_index ring = i"
    using assms(2) by (simp add: ring_def setup_channel_def p Let_def)
  have user: "ri_userRanks ring = map (\<lambda>k. ringRanks ! ((k + ?p) mod ?n)) [0..<?n]"
    unfolding ring_def setup_channel_def Let_def p by simp
  then show "ri_userRanks ring ! j = rank_at ringRanks ((i + j) mod ?n)" if "j < ?n"
    using that by (simp add: rank_at_def mod_add_right_eq add.assoc add.commute [of j])
  have "inj_on (\<lambda>k. (k + ?p) mod ?n) {0..<?n}"
  proof (rule inj_onI)
    fix a b assume "a \<in> {0..<?n}" "b \<in> {0..<?n}" "(a + ?p) mod ?n = (b + ?p) mod ?n"
    then show "a = b" using wrap_add [of a ?n ?p] wrap_add [of b ?n ?p] n by (auto split: if_splits)
  qed
  moreover have "inj_on ((!) ringRanks) ((\<lambda>k. (k + ?p) mod ?n) ` {0..<?n})"
    using n by (intro inj_on_subset [OF inj_on_nth [OF d, of "{0..<?n}"]]) auto
  ultimately have "inj_on ((!) ringRanks \<circ> (\<lambda>k. (k + ?p) mod ?n)) {0..<?n}" by (rule comp_inj_on)
  then have dist: "distinct (ri_userRanks ring)"
    unfolding user distinct_map set_upt comp_def by (simp only: distinct_upt simp_thms)
  have bound: "u < length (replicate ?n 0)" if "u \<in> set (ri_userRanks ring)" for u
  proof -
    have "u \<in> set ringRanks" using that n unfolding user by auto
    then show ?thesis using assms(1) by (simp add: is_ring_def)
  qed
  have table: "ri_rankToIndex ring = foldl (\<lambda>t i. t[ri_userRanks ring ! i := i]) (replicate ?n 0) [0..<?n]"
    unfolding ring_def setup_channel_def Let_def by simp
  show "ri_rankToIndex ring ! (ri_userRanks ring ! j) = j" if "j < ?n"
    unfolding table by (rule inverse_table [OF dist bound that]) (simp_all add: user)
qed

end
