(* ===== verification/RingPieces.thy ===== *)
theory RingPieces
  imports RingPrograms RingSetup
begin

text \<open>
  Programs that pass over the elements of a channel piece by piece: the pieces tile the channel's part, and a ring of such
  programs has a proof outline when no primitive reads what an earlier one has overwritten.
\<close>

section \<open>An outline from equations on the initial memory\<close>

definition element_data :: "(nat \<Rightarrow> prim_op list) \<Rightarrow> (nat \<Rightarrow> nat \<Rightarrow> nat \<Rightarrow> 'a) \<Rightarrow> nat \<Rightarrow> nat \<Rightarrow> 'a list" where
  "element_data prog V i k = map (V i k) [0..<po_nelem (prog i ! k)]"

definition op_in_buffers :: "'a rank_mem \<Rightarrow> prim_op \<Rightarrow> bool" where
  "op_in_buffers m p \<longleftrightarrow> in_buffer m (po_src p) (po_nelem p) \<and> in_buffer m (po_dst p) (po_nelem p) \<and> (po_src p \<noteq> None \<or> po_recv p)"

definition src_range :: "'a rank_mem \<Rightarrow> prim_op \<Rightarrow> nat set" where
  "src_range m p = (case po_src p of None \<Rightarrow> {} | Some (b, ix) \<Rightarrow> {user_buf m b + ix ..< user_buf m b + ix + po_nelem p})"

lemma outline_from_elements:
  assumes "\<And>i. i < n \<Longrightarrow> length (prog i) = N"
    and "\<And>i k. i < n \<Longrightarrow> k < N \<Longrightarrow> op_in_buffers (mem i) (prog i ! k)"
    and "\<And>i k. i < n \<Longrightarrow> k < N \<Longrightarrow> po_recv (prog i ! k) \<Longrightarrow>
      peer_data n N prog (element_data prog V) i k = map (G i k) [0..<po_nelem (prog i ! k)]"
    and "\<And>i k e. i < n \<Longrightarrow> k < N \<Longrightarrow> e < po_nelem (prog i ! k) \<Longrightarrow> V i k e = op_element op (prog i ! k) (mem i) (G i k) e"
    and "\<And>i k j. i < n \<Longrightarrow> k < N \<Longrightarrow> j < k \<Longrightarrow> src_range (mem i) (prog i ! k) \<inter> dst_range (mem i) (prog i ! j) = {}"
  shows "outline op n N prog mem (element_data prog V)"
  unfolding outline_def
proof (intro allI impI conjI)
  fix i k assume i: "i < n" and k: "k < N"
  let ?D = "element_data prog V" let ?m = "stored (mem i) (prog i) (?D i) k" and ?p = "prog i ! k"
  have same: "rm_mem ?m b = rm_mem (mem i) b" if "b \<in> src_range (mem i) ?p" for b
  proof (rule stored_untouched)
    show "length (?D i j) = po_nelem (prog i ! j)" for j by (simp add: element_data_def)
    show "b \<notin> dst_range (mem i) (prog i ! j)" if "j < k" for j
      using assms(5) [OF i k that] \<open>b \<in> _\<close> by blast
  qed
  have "op_element op ?p ?m (G i k) e = op_element op ?p (mem i) (G i k) e" if "e < po_nelem ?p" for e
    using same that by (auto simp: op_element_def load_src_def src_range_def add.assoc split: option.split)
  then have "run_op op ?p (peer_data n N prog ?D i k) ?m =
      Some (map (V i k) [0..<po_nelem ?p], store_dst ?p (map (V i k) [0..<po_nelem ?p]) ?m)"
    using assms(2) [OF i k] assms(3,4) i k
    by (intro run_op_elements [where g = "G i k"]) (auto simp: op_in_buffers_def)
  then show "run_op op ?p (peer_data n N prog ?D i k) ?m = Some (?D i k, stored (mem i) (prog i) (?D i) (Suc k))"
    by (simp add: element_data_def)
qed (rule assms(1))

text \<open>What the memory holds in the end.\<close>

lemma element_written:
  assumes "k < N" and "b \<in> dst_range m (prog i ! k)"
    and "\<And>j buf ix. j < N \<Longrightarrow> po_dst (prog i ! j) = Some (buf, ix) \<Longrightarrow> b \<in> dst_range m (prog i ! j) \<Longrightarrow>
      V i j (b - (user_buf m buf + ix)) = v"
  shows "rm_mem (stored m (prog i) (element_data prog V i) N) b = v"
proof (rule stored_written [OF _ assms(1,2)])
  show "length (element_data prog V i j) = po_nelem (prog i ! j)" for j by (simp add: element_data_def)
  fix j buf ix assume h: "j < N" "po_dst (prog i ! j) = Some (buf, ix)" "b \<in> dst_range m (prog i ! j)"
  then have "b - (user_buf m buf + ix) < po_nelem (prog i ! j)" by (auto simp: dst_range_def)
  then show "element_data prog V i j ! (b - (user_buf m buf + ix)) = v" using assms(3) [OF h] by (simp add: element_data_def)
qed

lemma element_kept:
  assumes "\<And>j. j < N \<Longrightarrow> b \<notin> dst_range m (prog i ! j)"
  shows "rm_mem (stored m (prog i) (element_data prog V i) N) b = rm_mem m b"
  by (rule stored_untouched) (simp_all add: element_data_def assms)

section \<open>Pieces\<close>

definition piece_size :: "nat \<Rightarrow> nat \<Rightarrow> nat \<Rightarrow> nat" where
  "piece_size count cc q = min cc (count - q * cc)"

definition piece :: "nat \<Rightarrow> nat \<Rightarrow> nat \<Rightarrow> nat \<Rightarrow> nat set" where
  "piece grid count cc q = {grid + q * cc ..< grid + q * cc + piece_size count cc q}"

lemma in_piece:
  assumes "a \<in> piece grid count cc q"
  shows "grid \<le> a" and "a < grid + count" and "(a - grid) div cc = q"
proof -
  define d where "d = a - (grid + q * cc)"
  have d: "a = grid + q * cc + d" "d < cc" "q * cc + d < count"
    using assms unfolding d_def piece_def piece_size_def atLeastLessThan_iff by linarith+
  then show "grid \<le> a" "a < grid + count" by simp_all
  have "a - grid = q * cc + d" using d(1) by simp
  then show "(a - grid) div cc = q" using d(2) by simp
qed

lemma piece_cover:
  assumes "0 < cc" and "grid \<le> a" and "a < grid + count"
  shows "(a - grid) div cc < rounds count cc" and "a \<in> piece grid count cc ((a - grid) div cc)"
proof -
  have le: "(a - grid) div cc * cc \<le> a - grid" by (rule div_times_less_eq_dividend)
  then show "(a - grid) div cc < rounds count cc" using assms by (subst less_rounds_iff) linarith+
  have "a - grid < (a - grid) div cc * cc + cc" using assms(1) by (metis dividend_less_div_times add.commute)
  with le show "a \<in> piece grid count cc ((a - grid) div cc)"
    using assms unfolding piece_def piece_size_def atLeastLessThan_iff by linarith
qed

text \<open>\<open>nelem = min(chunkCount, count - elemOffset)\<close>\<close>

definition piece_nelem :: "nat \<Rightarrow> nat \<Rightarrow> nat \<Rightarrow> int" where
  "piece_nelem count cc elemOffset = int_cast (min (int cc) (int count - int elemOffset))"

lemma piece_nelem_eq:
  assumes "cc < 2 ^ 31" and "0 < cc" and "q < rounds count cc"
  shows "nat (piece_nelem count cc (q * cc)) = piece_size count cc q"
proof -
  have le: "q * cc < count" using assms(2,3) less_rounds_iff by blast
  have "int cc < int (2 ^ 31)" using assms(1) by (simp only: of_nat_less_iff)
  then have "int cc < 2 ^ 31" by (simp only: of_nat_power of_nat_numeral)
  moreover have "0 \<le> int count - int (q * cc)" using le by linarith
  ultimately have "piece_nelem count cc (q * cc) = min (int cc) (int count - int (q * cc))"
    unfolding piece_nelem_def int_cast_def by (intro signed_take_bit_int_eq_self) auto
  then show ?thesis using le unfolding piece_size_def by linarith
qed

lemma passes_shape:
  assumes "0 < cc" and "\<And>e. length (f e) = L"
  shows length_passes: "length (concat (map f (loop_from 0 count cc))) = rounds count cc * L"
    and nth_passes: "k < rounds count cc * L \<Longrightarrow> concat (map f (loop_from 0 count cc)) ! k = f (k div L * cc) ! (k mod L)"
proof -
  have xs: "loop_from 0 count cc = map (\<lambda>q. q * cc) [0..<rounds count cc]" by (rule loop_from_0 [OF assms(1)])
  show "length (concat (map f (loop_from 0 count cc))) = rounds count cc * L"
    by (subst length_concat_uniform [where L = L]) (simp_all add: assms(2) xs)
  assume k: "k < rounds count cc * L"
  have "concat (map f (loop_from 0 count cc)) ! k = f (loop_from 0 count cc ! (k div L)) ! (k mod L)"
    by (rule nth_concat_uniform) (use k in \<open>simp_all add: assms(2) xs\<close>)
  also have "loop_from 0 count cc ! (k div L) = k div L * cc" using block_index(1) [OF k] by (simp add: xs)
  finally show "concat (map f (loop_from 0 count cc)) ! k = f (k div L * cc) ! (k mod L)" .
qed

lemma block_prev:
  assumes "k mod L \<noteq> 0"
  shows "(k - 1) div L = k div L" and "(k - 1) mod L = k mod L - (1 :: nat)"
proof -
  obtain m where k: "k = Suc m" using assms by (cases k) auto
  have "Suc m div L = m div L" "Suc m mod L = Suc (m mod L)"
    using assms unfolding k by (auto simp: div_Suc mod_Suc split: if_splits)
  then show "(k - 1) div L = k div L" "(k - 1) mod L = k mod L - 1" unfolding k by simp_all
qed

lemma block_earlier:
  assumes "j < k" and "k mod L \<le> j mod L"
  shows "j div L < k div (L :: nat)"
proof (rule ccontr)
  assume "\<not> ?thesis"
  then have "k div L * L \<le> j div L * L" by simp
  with assms(2) have "k div L * L + k mod L \<le> j div L * L + j mod L" by linarith
  with assms(1) show False by (simp only: div_mult_mod_eq)
qed

lemma block_position:
  assumes "q < Q" and "r < L"
  shows "q * L + r < Q * L" and "(q * L + r) div L = q" and "(q * L + r) mod L = (r :: nat)"
proof -
  have "q * L + r < Suc q * L" using assms(2) by simp
  also have "\<dots> \<le> Q * L" using assms(1) by (intro mult_right_mono) auto
  finally show "q * L + r < Q * L" .
  show "(q * L + r) div L = q" "(q * L + r) mod L = r" using assms(2) by simp_all
qed

text \<open>Blocks of \<open>count\<close> elements, one for each rank.\<close>

lemma shard_index:
  assumes "a < count" and "a' < count" and "r * count + a = r' * count + (a' :: nat)"
  shows "r = r'" and "a = a'"
proof -
  have "(r * count + a) div count = r" "(r' * count + a') div count = r'" using assms(1,2) by simp_all
  with assms(3) show "r = r'" by simp
  with assms(3) show "a = a'" by simp
qed

lemma shard_less:
  assumes "r < n" and "a < count"
  shows "r * count + a < n * (count :: nat)"
proof -
  have "r * count + a < Suc r * count" using assms(2) by simp
  also have "\<dots> \<le> n * count" using assms(1) by (intro mult_right_mono) auto
  finally show ?thesis .
qed

lemma rank_at_less: "is_ring ring \<Longrightarrow> 0 < length ring \<Longrightarrow> rank_at ring i < length ring"
  unfolding is_ring_def rank_at_def by (metis atLeastLessThan_iff mod_less_divisor nth_mem)

lemma rank_at_inj:
  assumes "is_ring ring" and "i < length ring" and "j < length ring" and "rank_at ring i = rank_at ring j"
  shows "i = j"
proof -
  have "i = ri_index (setup_channel ring (rank_at ring i))" by (rule rank_at_setup(1) [OF assms(1,2), symmetric])
  also have "\<dots> = ri_index (setup_channel ring (rank_at ring j))" by (simp only: assms(4))
  also have "\<dots> = j" by (rule rank_at_setup(1) [OF assms(1,3)])
  finally show ?thesis .
qed

lemma rank_at_surj:
  assumes "is_ring ring" and "r < length ring"
  obtains i where "i < length ring" and "rank_at ring i = r"
proof -
  have "inj_on (rank_at ring) {0..<length ring}" using rank_at_inj [OF assms(1)] by (auto intro: inj_onI)
  moreover have "rank_at ring ` {0..<length ring} \<subseteq> {0..<length ring}"
    using rank_at_less [OF assms(1) le_less_trans [OF le0 assms(2)]] by (intro image_subsetI) simp
  ultimately have "rank_at ring ` {0..<length ring} = {0..<length ring}" by (intro endo_inj_surj) auto
  with assms(2) have "r \<in> rank_at ring ` {0..<length ring}" by simp
  with that show thesis by auto
qed

end
