(* ===== verification/RingAllReduce.thy ===== *)
theory RingAllReduce
  imports RingPrograms RingSetup Space CollSplit
begin

text \<open>
  The ring all-reduce of \<open>src/device/all_reduce.h\<close>: the primitives a rank runs, and what every run of the ring leaves in
  the receive buffers.
\<close>

section \<open>The program\<close>

definition mod_ranks :: "nat \<Rightarrow> nat \<Rightarrow> nat" where
  "mod_ranks nranks r = r - (if r \<ge> nranks then nranks else 0)"

text \<open>The chunk size of a pass of the loop: the last one spreads what remains over the ranks, in units of 16 bytes.\<close>

definition pass_chunk :: "nat \<Rightarrow> nat \<Rightarrow> nat \<Rightarrow> nat \<Rightarrow> nat" where
  "pass_chunk nranks eltSize chunkCount remCount =
     (if remCount < nranks * chunkCount then nat (align_up (int (div_up_nat remCount nranks)) (int (16 div eltSize))) else chunkCount)"

definition all_reduce_pass :: "ring_info \<Rightarrow> nat \<Rightarrow> nat \<Rightarrow> nat \<Rightarrow> nat \<Rightarrow> nat \<Rightarrow> nat \<Rightarrow> prim_op list" where
  "all_reduce_pass ring nranks eltSize gridOffset channelCount chunkCount0 elemOffset =
     (let ringIx = ri_index ring;
          remCount = channelCount - elemOffset;
          chunkCount = pass_chunk nranks eltSize chunkCount0 remCount;
          offset = (\<lambda>chunk. gridOffset + elemOffset + chunk * chunkCount);
          nelem = (\<lambda>chunk. int_cast (min (int chunkCount) (int remCount - int (chunk * chunkCount))));
          first = mod_ranks nranks (ringIx + nranks - 1);
          final = mod_ranks nranks (ringIx + 1)
      in [direct_send (offset first) (offset first) (nelem first)] @
         map (\<lambda>j. let chunk = mod_ranks nranks (ringIx + nranks - j)
                  in direct_recv_reduce_direct_send (offset chunk) (offset chunk) (nelem chunk)) [2..<nranks] @
         [direct_recv_reduce_copy_direct_send (offset ringIx) (offset ringIx) (nelem ringIx) True] @
         map (\<lambda>j. let chunk = mod_ranks nranks (ringIx + nranks - j)
                  in direct_recv_copy_direct_send (offset chunk) (offset chunk) (nelem chunk)) [1..<nranks - 1] @
         [direct_recv (offset final) (nelem final)])"

definition all_reduce_ring :: "ring_info \<Rightarrow> nat \<Rightarrow> nat \<Rightarrow> nat \<Rightarrow> nat \<Rightarrow> nat \<Rightarrow> prim_op list" where
  "all_reduce_ring ring nranks eltSize gridOffset channelCount chunkCount =
     concat (map (all_reduce_pass ring nranks eltSize gridOffset channelCount chunkCount)
       (loop_from 0 channelCount (nranks * chunkCount)))"

section \<open>One view of all primitives of a pass\<close>

definition turn_chunk :: "nat \<Rightarrow> nat \<Rightarrow> nat \<Rightarrow> nat" where
  "turn_chunk n i r = (i + 2 * n - 1 - r) mod n"

definition turn_op :: "nat \<Rightarrow> nat \<Rightarrow> nat \<Rightarrow> int \<Rightarrow> prim_op" where
  "turn_op n r ix nelem = ll_op (r \<noteq> 0) (r \<noteq> 2 * n - 2) (if r \<le> n - 1 then Some InputBuf else None)
     (if n - 1 \<le> r then Some OutputBuf else None) (if r \<le> n - 1 then ix else 0) (if n - 1 \<le> r then ix else 0) nelem (r = n - 1)"

lemma turn_chunk_eq:
  assumes "2 \<le> n" and "i < n" and "r < 2 * n - 1"
  shows "turn_chunk n i r = (if r < n - 1 then mod_ranks n (i + n - (r + 1)) else if r = n - 1 then i else mod_ranks n (i + n - (r + 1 - n)))"
proof -
  consider "r < n - 1" | "r = n - 1" | "n - 1 < r" by linarith
  then show ?thesis
  proof cases
    case 1
    then have "i + 2 * n - 1 - r = (i + n - (r + 1)) + n" using assms by simp
    then have "turn_chunk n i r = (i + n - (r + 1)) mod n" unfolding turn_chunk_def by simp
    then show ?thesis using 1 assms by (auto simp: mod_ranks_def mod_if)
  next
    case 2
    then have "i + 2 * n - 1 - r = i + n" using assms by simp
    then show ?thesis using 2 assms unfolding turn_chunk_def by simp
  next
    case 3
    then have "i + 2 * n - 1 - r = i + n - (r + 1 - n)" using assms by simp
    then show ?thesis using 3 assms unfolding turn_chunk_def by (auto simp: mod_ranks_def mod_if)
  qed
qed

lemma nth_segments:
  assumes "2 \<le> n" and "r < 2 * n - 1"
  shows "([a] @ map f [2..<n] @ [b] @ map g [1..<n - 1] @ [c]) ! r =
    (if r = 0 then a else if r < n - 1 then f (r + 1) else if r = n - 1 then b else if r < 2 * n - 2 then g (r + 1 - n) else c)"
proof -
  obtain m where n: "n = m + 2" using le_Suc_ex [OF assms(1)] by (metis add.commute)
  define A C where "A = map f [2..<n]" and "C = map g [1..<n - 1]"
  have len: "length A = m" "length C = m" unfolding A_def C_def length_map length_upt n by simp_all
  have nth: "A ! q = f (q + 2)" "C ! q = g (q + 1)" if "q < m" for q
    using that unfolding A_def C_def n by (simp_all add: nth_map_upt add.commute del: upt_Suc)
  consider "r = 0" | q where "r = Suc q" "q < m" | "r = m + 1" | q where "r = m + 2 + q" "q < m" | "r = 2 * m + 2"
  proof -
    have "r = 0 \<or> (\<exists>q < m. r = Suc q) \<or> r = m + 1 \<or> (\<exists>q < m. r = m + 2 + q) \<or> r = 2 * m + 2"
      using assms(2) unfolding n by presburger
    then show ?thesis using that by blast
  qed
  then show ?thesis unfolding A_def [symmetric] C_def [symmetric] using len nth by cases (simp_all add: nth_append n)
qed

lemma turn_ops:
  assumes "2 \<le> n"
  shows "turn_op n 0 ix nelem = direct_send ix ix nelem"
    and "0 < r \<Longrightarrow> r < n - 1 \<Longrightarrow> turn_op n r ix nelem = direct_recv_reduce_direct_send ix ix nelem"
    and "turn_op n (n - 1) ix nelem = direct_recv_reduce_copy_direct_send ix ix nelem True"
    and "n - 1 < r \<Longrightarrow> r < 2 * n - 2 \<Longrightarrow> turn_op n r ix nelem = direct_recv_copy_direct_send ix ix nelem"
    and "turn_op n (2 * n - 2) ix nelem = direct_recv ix nelem"
proof -
  show "turn_op n 0 ix nelem = direct_send ix ix nelem" using assms by (simp add: turn_op_def prim_defs)
  show "turn_op n r ix nelem = direct_recv_reduce_direct_send ix ix nelem" if "0 < r" "r < n - 1"
  proof -
    have "r \<noteq> 2 * n - 2" using that assms by linarith
    with that show ?thesis by (simp add: turn_op_def prim_defs)
  qed
  have "n - 1 \<noteq> 2 * n - 2" "n - 1 \<noteq> 0" using assms by linarith+
  then show "turn_op n (n - 1) ix nelem = direct_recv_reduce_copy_direct_send ix ix nelem True"
    unfolding turn_op_def prim_defs by simp
  show "turn_op n r ix nelem = direct_recv_copy_direct_send ix ix nelem" if "n - 1 < r" "r < 2 * n - 2"
    using that by (simp add: turn_op_def prim_defs)
  have "\<not> 2 * n - 2 \<le> n - 1" "2 * n - 2 \<noteq> n - 1" "2 * n - 2 \<noteq> 0" "n - 1 \<le> 2 * n - 2" using assms by linarith+
  then show "turn_op n (2 * n - 2) ix nelem = direct_recv ix nelem" unfolding turn_op_def prim_defs by simp
qed

lemma nth_all_reduce_pass:
  fixes channelCount elemOffset chunkCount es :: nat
  assumes "2 \<le> n" and "ri_index ring < n" and "r < 2 * n - 1"
  defines "rem \<equiv> channelCount - elemOffset" and "chunk \<equiv> turn_chunk n (ri_index ring) r"
  defines "cc \<equiv> pass_chunk n es chunkCount rem"
  shows "all_reduce_pass ring n es grid channelCount chunkCount elemOffset ! r =
    turn_op n r (grid + elemOffset + chunk * cc) (int_cast (min (int cc) (int rem - int (chunk * cc))))"
proof -
  note c = turn_chunk_eq [OF assms(1-3), folded chunk_def]
  note seg = nth_segments [OF assms(1,3)]
  consider "r = 0" | "0 < r" "r < n - 1" | "r = n - 1" | "n - 1 < r" "r < 2 * n - 2" | "r = 2 * n - 2" using assms(3) by linarith
  then show ?thesis
  proof cases
    case 1
    with c assms(1) have "mod_ranks n (ri_index ring + n - 1) = chunk" by simp
    then show ?thesis unfolding all_reduce_pass_def Let_def seg rem_def [symmetric] cc_def [symmetric]
      unfolding 1 turn_ops(1) [OF assms(1)] by simp
  next
    case 2
    with c have "mod_ranks n (ri_index ring + n - (r + 1)) = chunk" by simp
    then show ?thesis unfolding all_reduce_pass_def Let_def seg rem_def [symmetric] cc_def [symmetric] turn_ops(2) [OF assms(1) 2]
      using 2 by simp
  next
    case 3
    with c have "ri_index ring = chunk" by simp
    moreover have "n - 1 \<noteq> 0" using assms(1) by simp
    ultimately show ?thesis
      unfolding all_reduce_pass_def Let_def seg rem_def [symmetric] cc_def [symmetric]
      unfolding 3 turn_ops(3) [OF assms(1)] by simp
  next
    case 4
    with c have "mod_ranks n (ri_index ring + n - (r + 1 - n)) = chunk" by simp
    then show ?thesis unfolding all_reduce_pass_def Let_def seg rem_def [symmetric] cc_def [symmetric] turn_ops(4) [OF assms(1) 4]
      using 4 by simp
  next
    case 5
    have "ri_index ring + n - (r + 1 - n) = ri_index ring + 1" "n - 1 < r" using 5 assms(1) by simp_all
    with c have "mod_ranks n (ri_index ring + 1) = chunk" by simp
    moreover have "\<not> 2 * n - 2 < n - 1" "2 * n - 2 \<noteq> n - 1" "2 * n - 2 \<noteq> 0" using assms(1) by linarith+
    ultimately show ?thesis
      unfolding all_reduce_pass_def Let_def seg rem_def [symmetric] cc_def [symmetric]
      unfolding 5 turn_ops(5) [OF assms(1)] by simp
  qed
qed

lemma length_all_reduce_pass: "2 \<le> n \<Longrightarrow> length (all_reduce_pass ring n es grid channelCount chunkCount elemOffset) = 2 * n - 1"
  by (simp add: all_reduce_pass_def Let_def)

section \<open>The chunks tile the channel's part\<close>

definition chunk_offset :: "nat \<Rightarrow> nat \<Rightarrow> nat \<Rightarrow> nat \<Rightarrow> nat \<Rightarrow> nat \<Rightarrow> nat \<Rightarrow> nat" where
  "chunk_offset n es grid count cc q c = grid + q * (n * cc) + c * pass_chunk n es cc (count - q * (n * cc))"

definition chunk_nelem :: "nat \<Rightarrow> nat \<Rightarrow> nat \<Rightarrow> nat \<Rightarrow> nat \<Rightarrow> nat \<Rightarrow> int" where
  "chunk_nelem n es count cc q c =
     (let rem = count - q * (n * cc); chunk = pass_chunk n es cc rem in min (int chunk) (int rem - int (c * chunk)))"

definition elt_sizes :: "nat set" where
  "elt_sizes = {1, 2, 4, 8}"

lemma pass_chunk_bounds:
  assumes "0 < n" and "es \<in> elt_sizes" and "0 < rem" and "0 < cc" and "n * cc < 2 ^ 61"
  shows "rem \<le> n * cc \<Longrightarrow> rem \<le> n * pass_chunk n es cc rem" and "pass_chunk n es cc rem \<le> cc + 15"
    and "0 < pass_chunk n es cc rem" and "rem < n * cc \<Longrightarrow> n * pass_chunk n es cc rem < rem + 16 * n"
proof -
  obtain k where k: "int (16 div es) = 2 ^ k" "k \<le> 4"
  proof -
    have "es = 1 \<or> es = 2 \<or> es = 4 \<or> es = 8" using assms(2) by (simp add: elt_sizes_def)
    then have "int (16 div es) = 2 ^ 4 \<or> int (16 div es) = 2 ^ 3 \<or> int (16 div es) = 2 ^ 2 \<or> int (16 div es) = 2 ^ 1"
      by auto
    then show ?thesis using that [of 4] that [of 3] that [of 2] that [of 1] by linarith
  qed
  have pow: "(2::int) ^ k \<le> 16" using power_increasing [OF k(2), of "2::int"] by simp
  let ?d = "div_up_nat rem n"
  note d = div_up_nat_bounds [OF assms(1), of rem]
  have "rem < n * cc \<Longrightarrow> ?d < cc + 1"
  proof -
    assume "rem < n * cc"
    then have "?d * n < (cc + 1) * n" using d(2) by (simp add: algebra_simps)
    then show "?d < cc + 1" by (simp only: mult_less_cancel2)
  qed
  moreover have "cc \<le> n * cc" using assms(1) by simp
  ultimately have dcc: "rem < n * cc \<Longrightarrow> ?d \<le> cc \<and> ?d < 2 ^ 61" using assms(5) by linarith
  have up: "?d \<le> nat (align_up (int ?d) (2 ^ k)) \<and> nat (align_up (int ?d) (2 ^ k)) \<le> ?d + 15" if "rem < n * cc"
  proof -
    have "int ?d \<le> 2 ^ 62" using dcc [OF that] by simp
    then show ?thesis using align_up_spec [of "int ?d" k] k(2) pow by linarith
  qed
  show "rem \<le> n * pass_chunk n es cc rem" if "rem \<le> n * cc"
  proof (cases "rem < n * cc")
    case True
    have "rem \<le> ?d * n" by (rule d(1))
    also have "\<dots> \<le> n * nat (align_up (int ?d) (2 ^ k))" using up [OF True] by simp
    finally show ?thesis using True by (simp add: pass_chunk_def k)
  qed (use that in \<open>simp add: pass_chunk_def\<close>)
  show "pass_chunk n es cc rem \<le> cc + 15" using up dcc by (fastforce simp: pass_chunk_def k)
  show "0 < pass_chunk n es cc rem" using up d(3) [OF assms(3)] assms(4) by (auto simp: pass_chunk_def k)
  show "n * pass_chunk n es cc rem < rem + 16 * n" if "rem < n * cc"
  proof -
    have "n * pass_chunk n es cc rem \<le> n * (?d + 15)" using up [OF that] that by (simp add: pass_chunk_def k)
    also have "\<dots> = ?d * n + 15 * n" by (simp add: algebra_simps)
    finally show ?thesis using d(2) by linarith
  qed
qed

definition sizes_ok :: "nat \<Rightarrow> nat \<Rightarrow> nat \<Rightarrow> bool" where
  "sizes_ok n es cc \<longleftrightarrow> 2 \<le> n \<and> n \<le> 2 ^ 26 \<and> es \<in> elt_sizes \<and> 0 < cc \<and> cc + 16 \<le> 2 ^ 31"

definition chunk_range :: "nat \<Rightarrow> nat \<Rightarrow> nat \<Rightarrow> nat \<Rightarrow> nat \<Rightarrow> nat \<Rightarrow> nat \<Rightarrow> nat set" where
  "chunk_range n es grid count cc q c =
     {chunk_offset n es grid count cc q c ..< chunk_offset n es grid count cc q c + nat (chunk_nelem n es count cc q c)}"

lemma pass_facts:
  assumes "sizes_ok n es cc" and "q < rounds count (n * cc)"
  defines "rem \<equiv> count - q * (n * cc)"
  defines "P \<equiv> pass_chunk n es cc rem"
  shows "0 < rem" and "q * (n * cc) + rem = count" and "0 < P" and "P < 2 ^ 31" and "n * cc \<le> rem \<Longrightarrow> P = cc"
    and "min rem (n * cc) \<le> n * P" and "c \<le> n \<Longrightarrow> c * P < rem + 2 ^ 30"
proof -
  have s: "0 < n * cc" "0 < n" "es \<in> elt_sizes" "0 < cc" using assms(1) by (auto simp: sizes_ok_def)
  have "n * cc \<le> 2 ^ 26 * 2 ^ 31" using assms(1) by (intro mult_mono) (auto simp: sizes_ok_def)
  then have small: "n * cc < 2 ^ 61" by simp
  show rem: "0 < rem" "q * (n * cc) + rem = count" using assms(2) less_rounds_iff [OF s(1)] by (simp_all add: rem_def)
  note b = pass_chunk_bounds [OF s(2,3) rem(1) s(4) small, folded P_def]
  show "0 < P" by (rule b(3))
  show "P < 2 ^ 31" using b(2) assms(1) by (simp add: sizes_ok_def)
  show full: "P = cc" if "n * cc \<le> rem" using that by (simp add: P_def pass_chunk_def)
  show "min rem (n * cc) \<le> n * P" using b(1) full by (cases "rem \<le> n * cc") auto
  show "c * P < rem + 2 ^ 30" if "c \<le> n"
  proof -
    have "c * P \<le> n * P" using that by simp
    moreover have "n * P < rem + 2 ^ 30"
    proof (cases "rem < n * cc")
      case True
      have "16 * n \<le> 2 ^ 30" using assms(1) by (simp add: sizes_ok_def)
      then show ?thesis using b(4) [OF True] by linarith
    qed (use full in simp)
    ultimately show ?thesis by linarith
  qed
qed

lemma chunk_nelem_fits:
  assumes "sizes_ok n es cc" and "q < rounds count (n * cc)" and "c < n"
  shows "int_cast (chunk_nelem n es count cc q c) = chunk_nelem n es count cc q c"
proof -
  note f = pass_facts [OF assms(1,2)]
  let ?rem = "count - q * (n * cc)" let ?P = "pass_chunk n es cc ?rem"
  have "c * ?P < ?rem + 2 ^ 30" using f(7) assms(3) by simp
  then have "int (c * ?P) < int (?rem + 2 ^ 30)" by (simp only: of_nat_less_iff)
  then have "int (c * ?P) < int ?rem + 2 ^ 30" by (simp only: of_nat_add of_nat_power of_nat_numeral)
  moreover have "(2::int) ^ 30 < 2 ^ 31" by simp
  ultimately have "- (2 ^ 31) \<le> int ?rem - int (c * ?P)" using of_nat_0_le_iff [of ?rem] by linarith
  moreover have "int ?P < int (2 ^ 31)" using f(4) by (simp only: of_nat_less_iff)
  then have "int ?P < 2 ^ 31" by (simp only: of_nat_power of_nat_numeral)
  ultimately show ?thesis
    unfolding int_cast_def chunk_nelem_def Let_def by (intro signed_take_bit_int_eq_self) auto
qed

lemma nat_min_diff: "nat (min (int x) (int r - int k)) = min x (r - k)"
  by (simp add: min_def nat_diff_distrib') linarith

lemma in_chunk:
  assumes "sizes_ok n es cc" and "q < rounds count (n * cc)" and "c < n" and "a \<in> chunk_range n es grid count cc q c"
  shows "grid \<le> a" and "a < grid + count" and "(a - grid) div (n * cc) = q"
    and "(a - grid) mod (n * cc) div pass_chunk n es cc (count - q * (n * cc)) = c"
proof -
  note f = pass_facts [OF assms(1,2)]
  let ?rem = "count - q * (n * cc)" let ?P = "pass_chunk n es cc ?rem"
  define d where "d = a - (grid + q * (n * cc))"
  have le: "grid + q * (n * cc) + c * ?P \<le> a" and lt: "a < grid + q * (n * cc) + c * ?P + nat (min (int ?P) (int ?rem - int (c * ?P)))"
    using assms(4) unfolding chunk_range_def chunk_offset_def chunk_nelem_def Let_def by simp_all
  note nat_min_diff [of ?P ?rem "c * ?P"]
  with le lt have d: "c * ?P \<le> d" "d < c * ?P + ?P" "d < ?rem" and a: "a = grid + q * (n * cc) + d"
    unfolding d_def by linarith+
  have "d < n * cc"
  proof (cases "n * cc \<le> ?rem")
    case True
    have "Suc c * cc \<le> n * cc" using assms(3) by (intro mult_right_mono) auto
    then show ?thesis using d(2) f(5) [OF True] by simp
  qed (use d(3) in linarith)
  moreover have "(q * S + d) div S = q \<and> (q * S + d) mod S = d" if "d < S" for S :: nat using that by simp
  moreover have "a - grid = q * (n * cc) + d" by (simp add: a)
  ultimately have "(a - grid) div (n * cc) = q" and m: "(a - grid) mod (n * cc) = d" by (simp_all only:)
  then show "(a - grid) div (n * cc) = q" by simp
  have "d = c * ?P + (d - c * ?P)" "d - c * ?P < ?P" using d by simp_all
  then have "d div ?P = c" by (metis div_mult_self3 div_less add_cancel_right_right less_nat_zero_code f(3) neq0_conv)
  then show "(a - grid) mod (n * cc) div ?P = c" by (simp add: m)
  show "grid \<le> a" "a < grid + count" using d(3) f(2) unfolding a by simp_all
qed

lemma chunk_cover:
  assumes "sizes_ok n es cc" and "grid \<le> a" and "a < grid + count"
  obtains q c where "q < rounds count (n * cc)" "c < n" "a \<in> chunk_range n es grid count cc q c"
proof -
  let ?q = "(a - grid) div (n * cc)" and ?d = "(a - grid) mod (n * cc)"
  have S: "0 < n * cc" using assms(1) by (auto simp: sizes_ok_def)
  have "?q * (n * cc) \<le> a - grid" by (rule div_times_less_eq_dividend)
  then have q: "?q < rounds count (n * cc)" using assms(2,3) by (subst less_rounds_iff [OF S]) linarith
  note f = pass_facts [OF assms(1) q]
  let ?rem = "count - ?q * (n * cc)" let ?P = "pass_chunk n es cc ?rem"
  have a: "a = grid + ?q * (n * cc) + ?d" using assms(2) div_mult_mod_eq [of "a - grid" "n * cc"] by linarith
  have d: "?d < n * cc" "?d < ?rem" using S a assms(3) f(2) by (simp, linarith)
  then have "?d < n * ?P" using f(6) by linarith
  then have c: "?d div ?P < n" using f(3) by (simp add: less_mult_imp_div_less)
  have "?d div ?P * ?P \<le> ?d" "?d < ?d div ?P * ?P + ?P"
    using f(3) by (simp_all add: div_times_less_eq_dividend) (metis dividend_less_div_times add.commute)
  then have "a \<in> chunk_range n es grid count cc ?q (?d div ?P)"
    unfolding chunk_range_def chunk_offset_def chunk_nelem_def Let_def nat_min_diff atLeastLessThan_iff using a d(2) by linarith
  with q c that show thesis by blast
qed

section \<open>The primitives of all passes\<close>

lemma rounds_pos: "sizes_ok n es cc \<Longrightarrow> 0 < n * cc"
  by (auto simp: sizes_ok_def)

lemma all_reduce_ring_shape:
  assumes "sizes_ok n es cc"
  shows length_all_reduce_ring: "length (all_reduce_ring ring n es grid count cc) = rounds count (n * cc) * (2 * n - 1)"
    and nth_all_reduce_ring: "ri_index ring < n \<Longrightarrow> k < rounds count (n * cc) * (2 * n - 1) \<Longrightarrow>
      all_reduce_ring ring n es grid count cc ! k =
        (let q = k div (2 * n - 1); r = k mod (2 * n - 1); c = turn_chunk n (ri_index ring) r
         in turn_op n r (chunk_offset n es grid count cc q c) (chunk_nelem n es count cc q c))"
proof -
  have n: "2 \<le> n" using assms by (simp add: sizes_ok_def)
  let ?f = "all_reduce_pass ring n es grid count cc" and ?xs = "loop_from 0 count (n * cc)"
  have xs: "?xs = map (\<lambda>q. q * (n * cc)) [0..<rounds count (n * cc)]" by (rule loop_from_0 [OF rounds_pos [OF assms]])
  note len = length_all_reduce_pass [OF n, of ring es grid count cc]
  show "length (all_reduce_ring ring n es grid count cc) = rounds count (n * cc) * (2 * n - 1)"
    unfolding all_reduce_ring_def by (subst length_concat_uniform [where L = "2 * n - 1"]) (simp_all add: len xs)
  assume i: "ri_index ring < n" and k: "k < rounds count (n * cc) * (2 * n - 1)"
  note q = block_index [OF k]
  have c: "turn_chunk n (ri_index ring) (k mod (2 * n - 1)) < n" using n by (simp add: turn_chunk_def)
  have "all_reduce_ring ring n es grid count cc ! k = ?f (?xs ! (k div (2 * n - 1))) ! (k mod (2 * n - 1))"
    unfolding all_reduce_ring_def by (rule nth_concat_uniform) (use k in \<open>simp_all add: len xs\<close>)
  also have "?xs ! (k div (2 * n - 1)) = k div (2 * n - 1) * (n * cc)" using q(1) by (simp add: xs)
  also have "?f (k div (2 * n - 1) * (n * cc)) ! (k mod (2 * n - 1)) =
      turn_op n (k mod (2 * n - 1)) (chunk_offset n es grid count cc (k div (2 * n - 1)) (turn_chunk n (ri_index ring) (k mod (2 * n - 1))))
        (int_cast (chunk_nelem n es count cc (k div (2 * n - 1)) (turn_chunk n (ri_index ring) (k mod (2 * n - 1)))))"
    unfolding nth_all_reduce_pass [OF n i q(2)] chunk_offset_def chunk_nelem_def Let_def by simp
  finally show "all_reduce_ring ring n es grid count cc ! k =
        (let q = k div (2 * n - 1); r = k mod (2 * n - 1); c = turn_chunk n (ri_index ring) r
         in turn_op n r (chunk_offset n es grid count cc q c) (chunk_nelem n es count cc q c))"
    unfolding Let_def chunk_nelem_fits [OF assms q(1) c] .
qed

lemma turn_op_fields [simp]:
  "po_recv (turn_op n r ix nelem) = (r \<noteq> 0)" "po_send (turn_op n r ix nelem) = (r \<noteq> 2 * n - 2)"
  "po_src (turn_op n r ix nelem) = (if r \<le> n - 1 then Some (InputBuf, ix) else None)"
  "po_dst (turn_op n r ix nelem) = (if n - 1 \<le> r then Some (OutputBuf, ix) else None)"
  "po_nelem (turn_op n r ix nelem) = nat nelem" "po_postOp (turn_op n r ix nelem) = (r = n - 1)"
  by (auto simp: turn_op_def ll_op_def)

lemma turn_chunk_rank:
  assumes "2 \<le> n" and "i < n"
  shows "r \<le> n - 1 \<Longrightarrow> (turn_chunk n i r + 1 + r) mod n = i"
    and "0 < r \<Longrightarrow> r < 2 * n - 1 \<Longrightarrow> turn_chunk n (prev_rank n i) (r - 1) = turn_chunk n i r"
    and "c < n \<Longrightarrow> turn_chunk n i (n - 1 + (i + n - c) mod n) = c"
proof -
  show "(turn_chunk n i r + 1 + r) mod n = i" if "r \<le> n - 1"
  proof -
    have "(turn_chunk n i r + (1 + r)) mod n = (i + 2 * n - 1 - r + (1 + r)) mod n" unfolding turn_chunk_def by (rule mod_add_left_eq)
    also have "i + 2 * n - 1 - r + (1 + r) = i + n * 2" using that assms by simp
    finally show ?thesis using assms by (simp add: add.assoc)
  qed
  show "turn_chunk n (prev_rank n i) (r - 1) = turn_chunk n i r" if "0 < r" "r < 2 * n - 1"
  proof -
    have "turn_chunk n (prev_rank n i) (r - 1) = ((i + n - 1) mod n + (2 * n - r)) mod n"
      using that assms by (simp add: turn_chunk_def prev_rank_def)
    also have "\<dots> = (i + n - 1 + (2 * n - r)) mod n" by (rule mod_add_left_eq)
    also have "i + n - 1 + (2 * n - r) = (i + 2 * n - 1 - r) + n" using that by simp
    finally show ?thesis by (simp add: turn_chunk_def)
  qed
  show "turn_chunk n i (n - 1 + (i + n - c) mod n) = c" if c: "c < n"
  proof (cases "c \<le> i")
    case True
    then have "(i + n - c) mod n = i - c" using assms by (simp add: mod_if)
    moreover have "i + 2 * n - 1 - (n - 1 + (i - c)) = c + n" using True assms by simp
    ultimately show ?thesis using c by (simp add: turn_chunk_def)
  next
    case False
    then have "(i + n - c) mod n = i + n - c" using assms c by simp
    moreover have "i + 2 * n - 1 - (n - 1 + (i + n - c)) = c" using False assms c by simp
    ultimately show ?thesis using c by (simp add: turn_chunk_def)
  qed
qed

section \<open>What the primitives compute\<close>

text \<open>The reduction of chunk \<open>c\<close> after \<open>m\<close> combinations: it starts at the rank after \<open>c\<close> on the ring.\<close>

fun ring_fold :: "('a \<Rightarrow> 'a \<Rightarrow> 'a) \<Rightarrow> nat \<Rightarrow> (nat \<Rightarrow> 'a) \<Rightarrow> nat \<Rightarrow> nat \<Rightarrow> 'a" where
  "ring_fold f n x c 0 = x ((c + 1) mod n)"
| "ring_fold f n x c (Suc m) = f (ring_fold f n x c m) (x ((c + 1 + Suc m) mod n))"

definition contribution :: "'a red_op \<Rightarrow> (nat \<Rightarrow> 'a rank_mem) \<Rightarrow> nat \<Rightarrow> nat \<Rightarrow> 'a" where
  "contribution op mem a i = ro_pre op (rm_mem (mem i) (rm_sendbuff (mem i) + a))"

definition turn_value :: "'a red_op \<Rightarrow> nat \<Rightarrow> (nat \<Rightarrow> 'a rank_mem) \<Rightarrow> nat \<Rightarrow> nat \<Rightarrow> nat \<Rightarrow> 'a" where
  "turn_value op n mem c r a =
     (if r < n - 1 then ring_fold (ro_reduce op) n (contribution op mem a) c r
      else ro_post op (ring_fold (ro_reduce op) n (contribution op mem a) c (n - 1)))"

lemma turn_value_step:
  assumes "2 \<le> n" and "i < n" and "r \<le> n - 1"
  defines "c \<equiv> turn_chunk n i r"
  shows "r = 0 \<Longrightarrow> turn_value op n mem c r a = contribution op mem a i"
    and "0 < r \<Longrightarrow> r < n - 1 \<Longrightarrow> turn_value op n mem c r a = ro_reduce op (turn_value op n mem c (r - 1) a) (contribution op mem a i)"
    and "r = n - 1 \<Longrightarrow> turn_value op n mem c r a = ro_post op (ro_reduce op (turn_value op n mem c (r - 1) a) (contribution op mem a i))"
proof -
  have rank: "(c + 1 + r) mod n = i" using turn_chunk_rank(1) [OF assms(1-3)] by (simp add: c_def)
  show "turn_value op n mem c r a = contribution op mem a i" if "r = 0"
    using rank that assms(1) by (simp add: turn_value_def)
  show "turn_value op n mem c r a = ro_reduce op (turn_value op n mem c (r - 1) a) (contribution op mem a i)" if "0 < r" "r < n - 1"
    using rank that by (cases r) (simp_all add: turn_value_def)
  show "turn_value op n mem c r a = ro_post op (ro_reduce op (turn_value op n mem c (r - 1) a) (contribution op mem a i))" if "r = n - 1"
  proof -
    have "r = Suc (n - 2)" "n - 1 = Suc (n - 2)" using that assms(1) by simp_all
    then show ?thesis using rank by (simp add: turn_value_def)
  qed
qed

text \<open>The buffers hold the elements up to \<open>hi\<close>; the operation is in place or the buffers are apart.\<close>

definition buffers_ok :: "'a rank_mem \<Rightarrow> nat \<Rightarrow> bool" where
  "buffers_ok m hi \<longleftrightarrow> hi \<le> rm_sendSize m \<and> hi \<le> rm_recvSize m \<and>
     (rm_sendbuff m = rm_recvbuff m \<or> rm_sendbuff m + hi \<le> rm_recvbuff m \<or> rm_recvbuff m + hi \<le> rm_sendbuff m)"

definition chunk_of :: "nat \<Rightarrow> nat \<Rightarrow> nat \<Rightarrow> nat \<Rightarrow> nat \<Rightarrow> nat \<Rightarrow> nat" where
  "chunk_of n es grid count cc a =
     (a - grid) mod (n * cc) div pass_chunk n es cc (count - (a - grid) div (n * cc) * (n * cc))"

lemma in_chunk_of:
  assumes "sizes_ok n es cc" and "q < rounds count (n * cc)" and "c < n" and "a \<in> chunk_range n es grid count cc q c"
  shows "chunk_of n es grid count cc a = c"
  using in_chunk(3,4) [OF assms] by (simp add: chunk_of_def)

definition all_reduce_data :: "'a red_op \<Rightarrow> nat \<Rightarrow> nat \<Rightarrow> nat \<Rightarrow> nat \<Rightarrow> nat \<Rightarrow> (nat \<Rightarrow> 'a rank_mem) \<Rightarrow> nat \<Rightarrow> nat \<Rightarrow> 'a list" where
  "all_reduce_data op n es grid count cc mem i k =
     (let q = k div (2 * n - 1); r = k mod (2 * n - 1); c = turn_chunk n i r
      in map (\<lambda>e. turn_value op n mem c r (chunk_offset n es grid count cc q c + e)) [0..<nat (chunk_nelem n es count cc q c)])"

lemma shifted_range: "b \<in> {r + x ..< r + x + l} \<longleftrightarrow> r \<le> b \<and> b - r \<in> {x ..< x + l}" for b :: nat
  by auto

lemma all_reduce_dst_range:
  assumes "sizes_ok n es cc" and "ri_index ring < n" and "j < rounds count (n * cc) * (2 * n - 1)"
  shows "b \<in> dst_range m (all_reduce_ring ring n es grid count cc ! j) \<longleftrightarrow> n - 1 \<le> j mod (2 * n - 1) \<and> rm_recvbuff m \<le> b \<and>
    b - rm_recvbuff m \<in> chunk_range n es grid count cc (j div (2 * n - 1)) (turn_chunk n (ri_index ring) (j mod (2 * n - 1)))"
proof (cases "n - 1 \<le> j mod (2 * n - 1)")
  case True
  then have "dst_range m (all_reduce_ring ring n es grid count cc ! j) =
      (let x = chunk_offset n es grid count cc (j div (2 * n - 1)) (turn_chunk n (ri_index ring) (j mod (2 * n - 1)))
       in {rm_recvbuff m + x ..< rm_recvbuff m + x + nat (chunk_nelem n es count cc (j div (2 * n - 1)) (turn_chunk n (ri_index ring) (j mod (2 * n - 1))))})"
    unfolding nth_all_reduce_ring [OF assms] Let_def dst_range_def by (simp add: user_buf_def)
  then show ?thesis unfolding Let_def shifted_range chunk_range_def using True by (simp only: shifted_range simp_thms)
next
  case False
  then show ?thesis unfolding nth_all_reduce_ring [OF assms] Let_def dst_range_def by simp
qed

text \<open>What a rank reads from its send buffer has not been overwritten.\<close>

lemma send_buffer_intact:
  assumes "sizes_ok n es cc" and "buffers_ok m (grid + count)" and "ri_index ring < n"
  defines "prog \<equiv> all_reduce_ring ring n es grid count cc"
  assumes "k < rounds count (n * cc) * (2 * n - 1)" and "k mod (2 * n - 1) \<le> n - 1"
    and "\<And>j. j < k \<Longrightarrow> length (D j) = po_nelem (prog ! j)"
    and "a \<in> chunk_range n es grid count cc (k div (2 * n - 1)) (turn_chunk n (ri_index ring) (k mod (2 * n - 1)))"
  shows "rm_mem (stored m prog D k) (rm_sendbuff m + a) = rm_mem m (rm_sendbuff m + a)"
proof (rule stored_untouched [OF assms(7)])
  fix j assume j: "j < k"
  let ?L = "2 * n - 1"
  let ?i = "ri_index ring"
  have n: "2 \<le> n" using assms(1) by (simp add: sizes_ok_def)
  have c: "turn_chunk n ?i r < n" for r using n by (simp add: turn_chunk_def)
  have jl: "j < rounds count (n * cc) * ?L" using j assms(5) by simp
  note at = in_chunk [OF assms(1) block_index(1) [OF assms(5)] c assms(8)]
  show "rm_sendbuff m + a \<notin> dst_range m (prog ! j)"
  proof
    assume "rm_sendbuff m + a \<in> dst_range m (prog ! j)"
    then have late: "n - 1 \<le> j mod ?L"
      and "rm_sendbuff m + a - rm_recvbuff m \<in> chunk_range n es grid count cc (j div ?L) (turn_chunk n ?i (j mod ?L))"
      and le: "rm_recvbuff m \<le> rm_sendbuff m + a"
      unfolding prog_def all_reduce_dst_range [OF assms(1,3) jl] by simp_all
    then have at': "grid \<le> rm_sendbuff m + a - rm_recvbuff m" "rm_sendbuff m + a - rm_recvbuff m < grid + count"
        "(rm_sendbuff m + a - rm_recvbuff m - grid) div (n * cc) = j div ?L"
      using in_chunk [OF assms(1) block_index(1) [OF jl] c] by blast+
    with assms(2) at(2) le have "rm_sendbuff m = rm_recvbuff m" by (auto simp: buffers_ok_def)
    with at'(3) at(3) have "j div ?L = k div ?L" by simp
    moreover have "j = j div ?L * ?L + j mod ?L" "k = k div ?L * ?L + k mod ?L" by (simp_all only: div_mult_mod_eq)
    ultimately have "j mod ?L < k mod ?L" using j by (metis nat_add_left_cancel_less)
    with late assms(6) show False by simp
  qed
qed

lemma all_reduce_outline:
  assumes "sizes_ok n es cc" and "is_ring ring" and "length ring = n" and "\<forall>i < n. buffers_ok (mem i) (grid + count)"
  defines "prog \<equiv> \<lambda>i. all_reduce_ring (setup_channel ring (rank_at ring i)) n es grid count cc"
  defines "N \<equiv> rounds count (n * cc) * (2 * n - 1)"
  shows "blocks n (rounds count (n * cc)) (2 * n - 1) prog"
    and "outline op n N prog mem (all_reduce_data op n es grid count cc mem)"
proof -
  have n: "2 \<le> n" using assms(1) by (simp add: sizes_ok_def)
  let ?L = "2 * n - 1" let ?D = "all_reduce_data op n es grid count cc mem"
  have c: "turn_chunk n i r < n" for i r using n by (simp add: turn_chunk_def)
  have ix: "ri_index (setup_channel ring (rank_at ring i)) = i" if "i < n" for i
    using rank_at_setup(1) [OF assms(2)] that assms(3) by simp
  have nth: "prog i ! k = turn_op n (k mod ?L) (chunk_offset n es grid count cc (k div ?L) (turn_chunk n i (k mod ?L)))
      (chunk_nelem n es count cc (k div ?L) (turn_chunk n i (k mod ?L)))" if "i < n" "k < N" for i k
    using nth_all_reduce_ring [OF assms(1), of "setup_channel ring (rank_at ring i)" k count grid] that
    unfolding ix [OF that(1)] N_def prog_def Let_def by simp
  show blocks: "blocks n (rounds count (n * cc)) ?L prog"
    using nth n by (auto simp: blocks_def N_def)
  have "run_op op (prog i ! k) (peer_data n N prog ?D i k) (stored (mem i) (prog i) (?D i) k) =
      Some (?D i k, stored (mem i) (prog i) (?D i) (Suc k))" if i: "i < n" and k: "k < N" for i k
  proof -
    define q r where "q = k div ?L" and "r = k mod ?L"
    define l off where "l = nat (chunk_nelem n es count cc q (turn_chunk n i r))"
      and "off = chunk_offset n es grid count cc q (turn_chunk n i r)"
    have q: "q < rounds count (n * cc)" and r: "r < ?L" using block_index [of k _ ?L] k unfolding N_def q_def r_def by blast+
    let ?p = "turn_op n r off (chunk_nelem n es count cc q (turn_chunk n i r))"
    let ?V = "\<lambda>e. turn_value op n mem (turn_chunk n i r) r (off + e)"
    let ?g = "\<lambda>e. turn_value op n mem (turn_chunk n i r) (r - 1) (off + e)"
    have inside: "off + e \<in> chunk_range n es grid count cc q (turn_chunk n i r)" if "e < l" for e
      using that by (simp add: chunk_range_def off_def l_def)
    have hi: "l = 0 \<or> off + l \<le> grid + count"
      using in_chunk(2) [OF assms(1) q c inside [of "l - 1"]] by (cases l) auto
    have p: "prog i ! k = ?p" using nth [OF i k] by (simp add: q_def r_def off_def)
    have D: "?D i k = map ?V [0..<l]" by (simp add: all_reduce_data_def Let_def l_def off_def q_def r_def)
    have peer: "peer_data n N prog ?D i k = map ?g [0..<l]" if "r \<noteq> 0"
    proof -
      have "peer_data n N prog ?D i k = ?D (prev_rank n i) (k - 1)"
        using blocks_peer_data [OF n blocks i, of k ?D] k that by (simp add: N_def r_def)
      moreover have "(k - 1) div ?L = q" "(k - 1) mod ?L = r - 1"
      proof -
        have "k - 1 = q * ?L + (r - 1)" using that unfolding q_def r_def by (metis add_diff_assoc div_mult_mod_eq less_one not_le)
        moreover have "r - 1 < ?L" using r by linarith
        ultimately show "(k - 1) div ?L = q" "(k - 1) mod ?L = r - 1" by simp_all
      qed
      moreover have "turn_chunk n (prev_rank n i) (r - 1) = turn_chunk n i r" using turn_chunk_rank(2) [OF n i] that r by simp
      ultimately show ?thesis by (simp add: all_reduce_data_def Let_def l_def off_def)
    qed
    have len: "length (?D i j) = po_nelem (prog i ! j)" if "j < k" for j
      using that k nth [OF i, of j] by (simp add: all_reduce_data_def Let_def)
    have load: "load_src op (stored (mem i) (prog i) (?D i) k) InputBuf (off + e) = contribution op mem (off + e) i"
      if "e < l" "r \<le> n - 1" for e
    proof -
      have "rm_mem (stored (mem i) (prog i) (?D i) k) (rm_sendbuff (mem i) + (off + e)) =
          rm_mem (mem i) (rm_sendbuff (mem i) + (off + e))"
        unfolding prog_def
      proof (rule send_buffer_intact [OF assms(1)])
        show "buffers_ok (mem i) (grid + count)" using assms(4) i by simp
        show "ri_index (setup_channel ring (rank_at ring i)) < n" using ix i by simp
        show "k < rounds count (n * cc) * (2 * n - 1)" "k mod (2 * n - 1) \<le> n - 1" using k that(2) by (simp_all add: N_def r_def)
        show "length (?D i j) = po_nelem (all_reduce_ring (setup_channel ring (rank_at ring i)) n es grid count cc ! j)" if "j < k" for j
          using len [OF that] by (simp add: prog_def)
        show "off + e \<in> chunk_range n es grid count cc (k div (2 * n - 1))
            (turn_chunk n (ri_index (setup_channel ring (rank_at ring i))) (k mod (2 * n - 1)))"
          using inside [OF that(1)] unfolding ix [OF i] q_def r_def .
      qed
      then show ?thesis by (simp add: load_src_def user_buf_def contribution_def)
    qed
    have elem: "?V e = op_element op ?p (stored (mem i) (prog i) (?D i) k) ?g e" if e: "e < l" for e
    proof -
      consider "r = 0" | "0 < r" "r < n - 1" | "r = n - 1" | "n - 1 < r" by linarith
      then show ?thesis
      proof cases
        case 1
        then show ?thesis using load [OF e] turn_value_step(1) [OF n i, of r] n by (simp add: op_element_def)
      next
        case 2
        then show ?thesis using load [OF e] turn_value_step(2) [OF n i, of r] by (simp add: op_element_def)
      next
        case 3
        then show ?thesis using load [OF e] turn_value_step(3) [OF n i, of r] n by (simp add: op_element_def)
      next
        case 4
        then have "\<not> r - 1 < n - 1" "\<not> r \<le> n - 1" "r \<noteq> n - 1" by linarith+
        then show ?thesis by (simp add: op_element_def turn_value_def)
      qed
    qed
    have "run_op op ?p (peer_data n N prog ?D i k) (stored (mem i) (prog i) (?D i) k) =
        Some (map ?V [0..<po_nelem ?p], store_dst ?p (map ?V [0..<po_nelem ?p]) (stored (mem i) (prog i) (?D i) k))"
    proof (rule run_op_elements [where g = ?g])
      have "l = 0 \<or> off + l \<le> rm_sendSize (mem i) \<and> off + l \<le> rm_recvSize (mem i)"
        using hi assms(4) i by (auto simp: buffers_ok_def)
      then show "in_buffer (stored (mem i) (prog i) (?D i) k) (po_src ?p) (po_nelem ?p)"
        and "in_buffer (stored (mem i) (prog i) (?D i) k) (po_dst ?p) (po_nelem ?p)"
        by (auto simp: in_buffer_def l_def [symmetric])
      show "peer_data n N prog ?D i k = map ?g [0..<po_nelem ?p]" if "po_recv ?p"
        using peer that by (simp add: l_def)
      show "po_recv ?p" if "po_src ?p = None" using that by (simp split: if_splits)
      show "?V e = op_element op ?p (stored (mem i) (prog i) (?D i) k) ?g e" if "e < po_nelem ?p" for e
        using elem that by (simp add: l_def)
    qed
    then show ?thesis using D p by (simp add: l_def)
  qed
  moreover have "length (prog i) = N" for i by (simp add: prog_def N_def length_all_reduce_ring [OF assms(1)])
  ultimately show "outline op n N prog mem ?D" by (simp add: outline_def)
qed

section \<open>The result\<close>

definition recv_range :: "'a rank_mem \<Rightarrow> nat \<Rightarrow> nat \<Rightarrow> nat set" where
  "recv_range m offset count = {rm_recvbuff m + offset ..< rm_recvbuff m + offset + count}"

lemma all_reduce_memory:
  assumes "sizes_ok n es cc" and "is_ring ring" and "length ring = n" and "\<forall>i < n. buffers_ok (mem i) (grid + count)" and "i < n"
  shows "rm_mem (stored (mem i) (all_reduce_ring (setup_channel ring (rank_at ring i)) n es grid count cc)
      (all_reduce_data op n es grid count cc mem i) (rounds count (n * cc) * (2 * n - 1))) b =
    (if b \<in> recv_range (mem i) grid count
     then let a = b - rm_recvbuff (mem i)
          in ro_post op (ring_fold (ro_reduce op) n (contribution op mem a) (chunk_of n es grid count cc a) (n - 1))
     else rm_mem (mem i) b)"
proof -
  let ?L = "2 * n - 1" let ?D = "all_reduce_data op n es grid count cc mem i"
  let ?prog = "all_reduce_ring (setup_channel ring (rank_at ring i)) n es grid count cc"
  let ?N = "rounds count (n * cc) * ?L" and ?a = "b - rm_recvbuff (mem i)"
  have n: "2 \<le> n" using assms(1) by (simp add: sizes_ok_def)
  have c: "turn_chunk n i r < n" for r using n by (simp add: turn_chunk_def)
  have ix: "ri_index (setup_channel ring (rank_at ring i)) = i" using rank_at_setup(1) [OF assms(2)] assms(3,5) by simp
  note nth = nth_all_reduce_ring [OF assms(1), of "setup_channel ring (rank_at ring i)", unfolded ix, OF assms(5)]
  have dst: "b \<in> dst_range (mem i) (?prog ! j) \<longleftrightarrow> n - 1 \<le> j mod ?L \<and> rm_recvbuff (mem i) \<le> b \<and>
      ?a \<in> chunk_range n es grid count cc (j div ?L) (turn_chunk n i (j mod ?L))" if "j < ?N" for j
    using all_reduce_dst_range [OF assms(1), of "setup_channel ring (rank_at ring i)" j count b "mem i" grid] that
    unfolding ix using assms(5) by blast
  have len: "length (?D j) = po_nelem (?prog ! j)" if "j < ?N" for j
    using nth [OF that] by (simp add: all_reduce_data_def Let_def)
  show ?thesis
  proof (cases "b \<in> recv_range (mem i) grid count")
    case True
    then have a: "grid \<le> ?a" "?a < grid + count" "rm_recvbuff (mem i) \<le> b" by (auto simp: recv_range_def)
    obtain q c where q: "q < rounds count (n * cc)" and "c < n" and "?a \<in> chunk_range n es grid count cc q c"
      using chunk_cover [OF assms(1) a(1,2)] .
    let ?r = "n - 1 + (i + n - c) mod n"
    have r: "?r < ?L" using n mod_less_divisor [of n "i + n - c"] by linarith
    let ?j = "q * ?L + ?r"
    have "(q * L + r) div L = q \<and> (q * L + r) mod L = r" if "r < L" for L r :: nat using that by simp
    from this [OF r] have j: "?j div ?L = q" "?j mod ?L = ?r" by blast+
    have "?j < Suc q * ?L" using r by simp
    also have "\<dots> \<le> ?N" using q by (intro mult_right_mono) auto
    finally have jN: "?j < ?N" .
    have "b \<in> dst_range (mem i) (?prog ! ?j)"
      using dst [OF jN] a(3) \<open>?a \<in> _\<close> turn_chunk_rank(3) [OF n assms(5) \<open>c < n\<close>] unfolding j by simp
    moreover have "?D j ! (b - (user_buf (mem i) buf + ix)) =
        ro_post op (ring_fold (ro_reduce op) n (contribution op mem ?a) (chunk_of n es grid count cc ?a) (n - 1))"
      if h: "j < ?N" "po_dst (?prog ! j) = Some (buf, ix)" "b \<in> dst_range (mem i) (?prog ! j)" for j buf ix
    proof -
      let ?c = "turn_chunk n i (j mod ?L)" and ?q = "j div ?L"
      have late: "n - 1 \<le> j mod ?L" and at: "?a \<in> chunk_range n es grid count cc ?q ?c" using dst [OF h(1)] h(3) by blast+
      have "buf = OutputBuf" "ix = chunk_offset n es grid count cc ?q ?c" using h(2) late unfolding nth [OF h(1)] by (simp_all add: Let_def)
      then have "b - (user_buf (mem i) buf + ix) = ?a - chunk_offset n es grid count cc ?q ?c" by (simp add: user_buf_def)
      moreover have "?a - chunk_offset n es grid count cc ?q ?c < nat (chunk_nelem n es count cc ?q ?c)"
          "chunk_offset n es grid count cc ?q ?c + (?a - chunk_offset n es grid count cc ?q ?c) = ?a"
        using at unfolding chunk_range_def atLeastLessThan_iff by linarith+
      moreover have "chunk_of n es grid count cc ?a = ?c"
        by (rule in_chunk_of [OF assms(1) block_index(1) [OF h(1)] c at])
      ultimately show ?thesis using late by (simp add: all_reduce_data_def Let_def turn_value_def)
    qed
    ultimately have "rm_mem (stored (mem i) ?prog ?D ?N) b =
        ro_post op (ring_fold (ro_reduce op) n (contribution op mem ?a) (chunk_of n es grid count cc ?a) (n - 1))"
      using len jN stored_written [of ?N ?D ?prog ?j b "mem i"] by blast
    with True show ?thesis by (simp add: Let_def)
  next
    case False
    have "b \<notin> dst_range (mem i) (?prog ! j)" if j: "j < ?N" for j
    proof
      assume "b \<in> dst_range (mem i) (?prog ! j)"
      then have "rm_recvbuff (mem i) \<le> b" "?a \<in> chunk_range n es grid count cc (j div ?L) (turn_chunk n i (j mod ?L))"
        using dst [OF j] by blast+
      then have "rm_recvbuff (mem i) \<le> b" "grid \<le> ?a" "?a < grid + count"
        using in_chunk(1,2) [OF assms(1) block_index(1) [OF j] c] by blast+
      with False show False unfolding recv_range_def atLeastLessThan_iff by linarith
    qed
    then have "rm_mem (stored (mem i) ?prog ?D ?N) b = rm_mem (mem i) b" using len by (intro stored_untouched)
    with False show ?thesis by simp
  qed
qed

text \<open>When the operation is associative and commutative, the order does not matter.\<close>

lemma foldl_assoc_Cons:
  assumes "\<And>x y z. f (f x y) z = f x (f y z)"
  shows "foldl f a (b # xs) = f a (foldl f b xs)"
  by (induction xs rule: rev_induct) (simp_all add: assms)

lemma ring_fold_foldl: "ring_fold f n x c m = foldl f (x ((c + 1) mod n)) (map (\<lambda>j. x ((c + 1 + j) mod n)) [1..<m + 1])"
  by (induction m) (simp_all del: upt_Suc add: upt_Suc_append)

lemma ring_fold_any_chunk:
  assumes "\<And>x y z. f (f x y) z = f x (f y z)" and "\<And>x y. f x y = f y x" and "0 < n"
  shows "ring_fold f n x c (n - 1) = foldl f (x 0) (map x [1..<n])"
proof -
  have shift: "ring_fold f n x (Suc c) (n - 1) = ring_fold f n x c (n - 1)" for c
  proof (cases "n = 1")
    case False
    with assms(3) have n: "1 < n" by simp
    let ?y = "\<lambda>j. x ((c + 1 + j) mod n)"
    have "ring_fold f n x c (n - 1) = foldl f (?y 0) (map ?y [1..<n])" using n unfolding ring_fold_foldl by simp
    also have "[1..<n] = 1 # [2..<n]" using n by (simp add: upt_conv_Cons numeral_2_eq_2)
    also have "foldl f (?y 0) (map ?y (1 # [2..<n])) = f (?y 0) (foldl f (?y 1) (map ?y [2..<n]))"
      unfolding list.map by (rule foldl_assoc_Cons) (rule assms(1))
    also have "\<dots> = f (foldl f (?y 1) (map ?y [2..<n])) (?y 0)" by (rule assms(2))
    also have "?y 0 = ?y n" by (simp only: add_0_right mod_add_self2)
    also have "f (foldl f (?y 1) (map ?y [2..<n])) (?y n) = foldl f (?y 1) (map ?y ([2..<n] @ [n]))" by simp
    also have "[2..<n] @ [n] = [2..<Suc n]" using n by simp
    also have "map ?y [2..<Suc n] = map (\<lambda>j. ?y (Suc j)) [1..<n]" by (simp add: map_Suc_upt [symmetric] numeral_2_eq_2 del: upt_Suc)
    also have "foldl f (?y 1) (map (\<lambda>j. ?y (Suc j)) [1..<n]) = ring_fold f n x (Suc c) (n - 1)"
      using n unfolding ring_fold_foldl by (simp add: add.commute)
    finally show ?thesis ..
  qed simp
  have "ring_fold f n x c (n - 1) = ring_fold f n x (c + d) (n - 1)" for c d
  proof (induction d)
    case (Suc d)
    then show ?case using shift [of "c + d"] by simp
  qed simp
  from this [of 0 c] this [of 0 "n - 1"] have "ring_fold f n x c (n - 1) = ring_fold f n x (n - 1) (n - 1)" by simp
  also have "\<dots> = foldl f (x 0) (map x [1..<n])"
    using assms(3) unfolding ring_fold_foldl by (intro arg_cong2 [where f = "foldl f"]) auto
  finally show ?thesis .
qed

lemma all_reduce_inevitably:
  assumes "sizes_ok n es cc" and "is_ring ring" and "length ring = n" and "\<forall>i < n. buffers_ok (mem i) (grid + count)"
    and "\<And>m. (\<And>i b. i < n \<Longrightarrow> rm_mem (m i) b =
      (if b \<in> recv_range (mem i) grid count
       then let a = b - rm_recvbuff (mem i)
            in ro_post op (ring_fold (ro_reduce op) n (contribution op mem a) (chunk_of n es grid count cc a) (n - 1))
       else rm_mem (mem i) b)) \<Longrightarrow> Q m"
  shows "inevitably op n Q (ring_start mem (\<lambda>i. all_reduce_ring (setup_channel ring (rank_at ring i)) n es grid count cc))"
proof -
  have n: "2 \<le> n" using assms(1) by (simp add: sizes_ok_def)
  note outline = all_reduce_outline [OF assms(1-4)]
  show ?thesis
  proof (rule outline_inevitably [OF n outline(2) blocks_timely [OF n outline(1)]])
    fix m assume m: "\<And>i. i < n \<Longrightarrow> m i = stored (mem i) (all_reduce_ring (setup_channel ring (rank_at ring i)) n es grid count cc)
      (all_reduce_data op n es grid count cc mem i) (rounds count (n * cc) * (2 * n - 1))"
    show "Q m"
    proof (rule assms(5))
      fix i b assume i: "i < n"
      show "rm_mem (m i) b =
        (if b \<in> recv_range (mem i) grid count
         then let a = b - rm_recvbuff (mem i)
              in ro_post op (ring_fold (ro_reduce op) n (contribution op mem a) (chunk_of n es grid count cc a) (n - 1))
         else rm_mem (mem i) b)"
        unfolding m [OF i] by (rule all_reduce_memory [OF assms(1-4) i])
    qed
  qed
qed

text \<open>C4. However the ranks of a ring are scheduled, the ring all-reduce ends, and every rank then has, in the channel's
  part of its receive buffer, the same reduction of all contributions (in the order of the ring, from the rank after the one
  the chunk belongs to); the rest of its memory is unchanged.  The operation may be in place.\<close>
theorem all_reduce_completes:
  assumes "sizes_ok n es cc" and "is_ring ring" and "length ring = n" and "\<forall>i < n. buffers_ok (mem i) (grid + count)"
  shows "inevitably op n
    (\<lambda>m. \<forall>i < n. \<forall>b. rm_mem (m i) b =
      (if b \<in> recv_range (mem i) grid count
       then let a = b - rm_recvbuff (mem i)
            in ro_post op (ring_fold (ro_reduce op) n (contribution op mem a) (chunk_of n es grid count cc a) (n - 1))
       else rm_mem (mem i) b))
    (ring_start mem (\<lambda>i. all_reduce_ring (setup_channel ring (rank_at ring i)) n es grid count cc))"
  by (rule all_reduce_inevitably [OF assms]) blast

text \<open>C5. For an associative and commutative operation the all-reduce leaves in every receive buffer the plain reduction over
  the ranks 0, 1, ... of the ring, whatever chunk an element falls into.\<close>
theorem all_reduce_is_a_reduction:
  assumes "sizes_ok n es cc" and "is_ring ring" and "length ring = n" and "\<forall>i < n. buffers_ok (mem i) (grid + count)"
    and "\<And>x y z. ro_reduce op (ro_reduce op x y) z = ro_reduce op x (ro_reduce op y z)"
    and "\<And>x y. ro_reduce op x y = ro_reduce op y x"
  shows "inevitably op n
    (\<lambda>m. \<forall>i < n. \<forall>b \<in> recv_range (mem i) grid count. let x = contribution op mem (b - rm_recvbuff (mem i)) in
      rm_mem (m i) b = ro_post op (foldl (ro_reduce op) (x 0) (map x [1..<n])))
    (ring_start mem (\<lambda>i. all_reduce_ring (setup_channel ring (rank_at ring i)) n es grid count cc))"
proof -
  have "0 < n" using assms(1) by (simp add: sizes_ok_def)
  note fold = ring_fold_any_chunk [of "ro_reduce op", OF assms(5,6) this]
  show ?thesis by (rule all_reduce_inevitably [OF assms(1-4)]) (simp add: Let_def fold del: One_nat_def)
qed

text \<open>Two ranks, each with its five numbers; the second works in place.\<close>

definition sum_op :: "int red_op" where
  "sum_op = \<lparr>ro_pre = (\<lambda>x. x), ro_reduce = (\<lambda>x y. x + y), ro_post = (\<lambda>x. x)\<rparr>"

definition sample_mem :: "nat \<Rightarrow> int rank_mem" where
  "sample_mem i = \<lparr>rm_mem = (\<lambda>a. if a < 5 then int (100 * i + a) else 0), rm_sendbuff = 0,
     rm_recvbuff = (if i = 0 then 10 else 0), rm_sendSize = 5, rm_recvSize = 5\<rparr>"

lemma sample_ring:
  "sizes_ok 2 4 3" "is_ring [1, 0]" "length [1, 0] = (2 :: nat)" "\<forall>i < 2. buffers_ok (sample_mem i) (0 + 5)"
  by (auto simp: sizes_ok_def elt_sizes_def is_ring_def buffers_ok_def sample_mem_def)

lemma all_reduce_completes_witness:
  "inevitably sum_op 2 (\<lambda>m. rm_mem (m 0) 14 = 108 \<and> rm_mem (m 1) 4 = 108 \<and> rm_mem (m 0) 4 = 4)
    (ring_start sample_mem (\<lambda>i. all_reduce_ring (setup_channel [1, 0] (rank_at [1, 0] i)) 2 4 0 5 3))"
proof (rule inevitably_mono [OF all_reduce_completes [OF sample_ring, of sum_op]])
  have chunk: "chunk_of 2 4 0 5 3 4 = 1" by code_simp
  fix m assume m: "\<forall>i < 2. \<forall>b. rm_mem (m i) b =
      (if b \<in> recv_range (sample_mem i) 0 5
       then let a = b - rm_recvbuff (sample_mem i)
            in ro_post sum_op (ring_fold (ro_reduce sum_op) 2 (contribution sum_op sample_mem a) (chunk_of 2 4 0 5 3 a) (2 - 1))
       else rm_mem (sample_mem i) b)"
  from m [rule_format, of 0 14] m [rule_format, of 1 4] m [rule_format, of 0 4]
  show "rm_mem (m 0) 14 = 108 \<and> rm_mem (m 1) 4 = 108 \<and> rm_mem (m 0) 4 = 4"
    by (simp add: recv_range_def sample_mem_def sum_op_def contribution_def chunk)
qed

lemma all_reduce_is_a_reduction_witness:
  "inevitably sum_op 2 (\<lambda>m. rm_mem (m 0) 12 = 104 \<and> rm_mem (m 1) 2 = 104)
    (ring_start sample_mem (\<lambda>i. all_reduce_ring (setup_channel [1, 0] (rank_at [1, 0] i)) 2 4 0 5 3))"
proof (rule inevitably_mono [OF all_reduce_is_a_reduction [OF sample_ring, of sum_op]])
  fix m assume m: "\<forall>i < 2. \<forall>b \<in> recv_range (sample_mem i) 0 5. let x = contribution sum_op sample_mem (b - rm_recvbuff (sample_mem i)) in
      rm_mem (m i) b = ro_post sum_op (foldl (ro_reduce sum_op) (x 0) (map x [1..<2]))"
  have "rm_mem (m 0) 12 = 104"
    using m [rule_format, of 0 12] by (simp add: recv_range_def sample_mem_def sum_op_def contribution_def Let_def upt_conv_Cons)
  moreover have "rm_mem (m 1) 2 = 104"
    using m [rule_format, of 1 2] by (simp add: recv_range_def sample_mem_def sum_op_def contribution_def Let_def upt_conv_Cons)
  ultimately show "rm_mem (m 0) 12 = 104 \<and> rm_mem (m 1) 2 = 104" by simp
qed (simp_all add: sum_op_def)

end
