(* ===== verification/RingShards.thy ===== *)
theory RingShards
  imports RingPieces RingAllReduce
begin

text \<open>
  The ring reduce-scatter (\<open>src/device/reduce_scatter.h\<close>) and all-gather (\<open>src/device/all_gather.h\<close>), the latter
  without network offload: one buffer of a rank is a shard of \<open>count\<close> elements, the other holds one shard for each rank.
\<close>

section \<open>Reduce-scatter\<close>

definition reduce_scatter_pass :: "ring_info \<Rightarrow> nat \<Rightarrow> nat \<Rightarrow> nat \<Rightarrow> nat \<Rightarrow> nat \<Rightarrow> nat \<Rightarrow> prim_op list" where
  "reduce_scatter_pass ring nranks count gridOffset channelCount chunkCount elemOffset =
     (let nelem = piece_nelem channelCount chunkCount elemOffset;
          dataOffset = gridOffset + elemOffset;
          offset = (\<lambda>rankDest. dataOffset + rankDest * count)
      in [prim_send (offset (ri_userRanks ring ! (nranks - 1))) nelem] @
         map (\<lambda>j. prim_recv_reduce_send (offset (ri_userRanks ring ! (nranks - j))) nelem) [2..<nranks] @
         [prim_recv_reduce_copy (offset (ri_userRanks ring ! 0)) dataOffset nelem True])"

definition reduce_scatter_ring :: "ring_info \<Rightarrow> nat \<Rightarrow> nat \<Rightarrow> nat \<Rightarrow> nat \<Rightarrow> nat \<Rightarrow> prim_op list" where
  "reduce_scatter_ring ring nranks count gridOffset channelCount chunkCount =
     concat (map (reduce_scatter_pass ring nranks count gridOffset channelCount chunkCount) (loop_from 0 channelCount chunkCount))"

text \<open>The shards fit the buffers; in place the receive buffer is the rank's own shard of the send buffer.\<close>

definition scatter_buffers_ok :: "nat \<Rightarrow> nat \<Rightarrow> nat \<Rightarrow> 'a rank_mem \<Rightarrow> nat \<Rightarrow> bool" where
  "scatter_buffers_ok n count hi m rank \<longleftrightarrow> hi \<le> count \<and> n * count \<le> rm_sendSize m \<and> hi \<le> rm_recvSize m \<and>
     (rm_recvbuff m = rm_sendbuff m + rank * count \<or> rm_sendbuff m + n * count \<le> rm_recvbuff m \<or> rm_recvbuff m + hi \<le> rm_sendbuff m)"

definition scatter_op :: "nat \<Rightarrow> nat \<Rightarrow> nat \<Rightarrow> nat \<Rightarrow> int \<Rightarrow> prim_op" where
  "scatter_op n r src dst nelem = ll_op (r \<noteq> 0) (r \<noteq> n - 1) (Some InputBuf) (if r = n - 1 then Some OutputBuf else None)
     src (if r = n - 1 then dst else 0) nelem (r = n - 1)"

lemma scatter_op_fields [simp]:
  "po_recv (scatter_op n r src dst nelem) = (r \<noteq> 0)" "po_send (scatter_op n r src dst nelem) = (r \<noteq> n - 1)"
  "po_src (scatter_op n r src dst nelem) = Some (InputBuf, src)"
  "po_dst (scatter_op n r src dst nelem) = (if r = n - 1 then Some (OutputBuf, dst) else None)"
  "po_nelem (scatter_op n r src dst nelem) = nat nelem" "po_postOp (scatter_op n r src dst nelem) = (r = n - 1)"
  by (auto simp: scatter_op_def ll_op_def)

lemma nth_middle:
  assumes "2 \<le> n" and "r < n" and "length xs = n - 2"
  shows "([a] @ xs @ [b]) ! r = (if r = 0 then a else if r < n - 1 then xs ! (r - 1) else b)"
proof -
  consider "r = 0" | "0 < r" "r < n - 1" | "r = n - 1" "r \<noteq> 0" using assms by linarith
  then show ?thesis
  proof cases
    case 2
    then have "r - 1 < n - 2" by linarith
    then show ?thesis using 2 assms(3) by (cases r) (simp_all add: nth_append)
  next
    case 3
    then have "r = Suc (n - 2)" by linarith
    then show ?thesis using 3 assms(3) by (simp add: nth_append)
  qed simp
qed

lemma three_segments:
  assumes "2 \<le> n" and "r < n"
  shows nth_three: "([a] @ map f [2..<n] @ [b]) ! r = (if r = 0 then a else if r < n - 1 then f (r + 1) else b)"
    and nth_three_from_1: "([a] @ map f [1..<n - 1] @ [b]) ! r = (if r = 0 then a else if r < n - 1 then f r else b)"
proof -
  have "f ([2..<n] ! (r - 1)) = f (r + 1) \<and> f ([1..<n - 1] ! (r - 1)) = f r" if "0 < r" "r < n - 1"
  proof -
    have "[2..<n] ! (r - 1) = 2 + (r - 1)" "[1..<n - 1] ! (r - 1) = 1 + (r - 1)" using that by (intro nth_upt; linarith)+
    moreover have "2 + (r - 1) = r + 1" "1 + (r - 1) = r" using that by simp_all
    ultimately show ?thesis by (simp only:)
  qed
  moreover have "length (map f [2..<n]) = n - 2" "length (map f [1..<n - 1]) = n - 2" by simp_all
  ultimately show "([a] @ map f [2..<n] @ [b]) ! r = (if r = 0 then a else if r < n - 1 then f (r + 1) else b)"
    and "([a] @ map f [1..<n - 1] @ [b]) ! r = (if r = 0 then a else if r < n - 1 then f r else b)"
    using nth_middle [OF assms, of "map f [2..<n]" a b] nth_middle [OF assms, of "map f [1..<n - 1]" a b] by auto
qed

lemma turn_chunk_rank_dest: "r < n \<Longrightarrow> turn_chunk n i r = (i + (n - 1 - r)) mod n"
proof -
  assume "r < n"
  then have "i + 2 * n - 1 - r = (i + (n - 1 - r)) + n" by simp
  then show ?thesis unfolding turn_chunk_def by (simp only: mod_add_self2)
qed

lemma nth_reduce_scatter_pass:
  assumes "is_ring ring" and "length ring = n" and "2 \<le> n" and "i < n" and "r < n"
  shows "reduce_scatter_pass (setup_channel ring (rank_at ring i)) n count grid chc cc e ! r =
    scatter_op n r (grid + e + rank_at ring (turn_chunk n i r) * count) (grid + e) (piece_nelem chc cc e)"
proof -
  have user: "ri_userRanks (setup_channel ring (rank_at ring i)) ! j = rank_at ring ((i + j) mod n)" if "j < n" for j
    using rank_at_setup(2) [OF assms(1)] assms(2,4) that by simp
  have dest: "rank_at ring ((i + (n - 1 - r)) mod n) = rank_at ring (turn_chunk n i r)" by (simp add: turn_chunk_rank_dest [OF assms(5)])
  consider "r = 0" | "0 < r" "r < n - 1" | "r = n - 1" "r \<noteq> 0" using assms by linarith
  then show ?thesis
  proof cases
    case 1
    then show ?thesis using dest user [of "n - 1"] assms(3)
      unfolding reduce_scatter_pass_def Let_def nth_three [OF assms(3,5)] by (simp add: scatter_op_def prim_defs)
  next
    case 2
    then have "n - (r + 1) = n - 1 - r" by simp
    with 2 show ?thesis using dest user [of "n - 1 - r"]
      unfolding reduce_scatter_pass_def Let_def nth_three [OF assms(3,5)] by (simp add: scatter_op_def prim_defs)
  next
    case 3
    have "turn_chunk n i r = i" using turn_chunk_rank_dest [OF assms(5), of i] 3 assms(4) by simp
    then show ?thesis using user [of 0] 3 assms(3,4)
      unfolding reduce_scatter_pass_def Let_def nth_three [OF assms(3,5)] by (simp add: scatter_op_def prim_defs)
  qed
qed

lemma reduce_scatter_ops:
  fixes count grid chc cc :: nat
  assumes "is_ring ring" and "length ring = n" and "2 \<le> n" and "i < n" and "0 < cc"
  defines "prog \<equiv> reduce_scatter_ring (setup_channel ring (rank_at ring i)) n count grid chc cc"
  shows "length prog = rounds chc cc * n"
    and "k < rounds chc cc * n \<Longrightarrow> prog ! k =
      scatter_op n (k mod n) (grid + k div n * cc + rank_at ring (turn_chunk n i (k mod n)) * count) (grid + k div n * cc)
        (piece_nelem chc cc (k div n * cc))"
proof -
  have len: "length (reduce_scatter_pass (setup_channel ring (rank_at ring i)) n count grid chc cc e) = n" for e
    using assms(3) by (simp add: reduce_scatter_pass_def Let_def)
  show "length prog = rounds chc cc * n" unfolding prog_def reduce_scatter_ring_def by (rule length_passes [OF assms(5) len])
  assume k: "k < rounds chc cc * n"
  then have "k mod n < n" using assms(3) by simp
  then show "prog ! k = scatter_op n (k mod n) (grid + k div n * cc + rank_at ring (turn_chunk n i (k mod n)) * count) (grid + k div n * cc)
        (piece_nelem chc cc (k div n * cc))"
    unfolding prog_def reduce_scatter_ring_def nth_passes [OF assms(5) len k]
    by (rule nth_reduce_scatter_pass [OF assms(1-4)])
qed

definition scatter_value :: "'a red_op \<Rightarrow> nat \<Rightarrow> nat \<Rightarrow> nat \<Rightarrow> nat \<Rightarrow> nat list \<Rightarrow> (nat \<Rightarrow> 'a rank_mem) \<Rightarrow> nat \<Rightarrow> nat \<Rightarrow> nat \<Rightarrow> nat \<Rightarrow> 'a" where
  "scatter_value op n count grid cc ring mem i q r e =
     (let c = turn_chunk n i r in turn_value op n mem c r (rank_at ring c * count + (grid + q * cc + e)))"

lemma reduce_scatter_outline:
  fixes count grid chc cc :: nat
  assumes "is_ring ring" and "length ring = n" and "2 \<le> n" and "0 < cc" and "cc < 2 ^ 31"
    and "\<forall>i < n. scatter_buffers_ok n count (grid + chc) (mem i) (rank_at ring i)"
  defines "prog \<equiv> \<lambda>i. reduce_scatter_ring (setup_channel ring (rank_at ring i)) n count grid chc cc"
  shows "blocks n (rounds chc cc) n prog"
    and "outline op n (rounds chc cc * n) prog mem (element_data prog (\<lambda>i k. scatter_value op n count grid cc ring mem i (k div n) (k mod n)))"
proof -
  let ?N = "rounds chc cc * n"
  let ?V = "\<lambda>i k. scatter_value op n count grid cc ring mem i (k div n) (k mod n)"
  let ?G = "\<lambda>i k e. turn_value op n mem (turn_chunk n i (k mod n)) (k mod n - 1)
      (rank_at ring (turn_chunk n i (k mod n)) * count + (grid + k div n * cc + e))"
  have nth: "prog i ! k = scatter_op n (k mod n) (grid + k div n * cc + rank_at ring (turn_chunk n i (k mod n)) * count) (grid + k div n * cc)
        (piece_nelem chc cc (k div n * cc))" if "i < n" "k < ?N" for i k
    using reduce_scatter_ops(2) [OF assms(1-3) that(1) assms(4)] that(2) by (simp add: prog_def)
  have size: "po_nelem (prog i ! k) = piece_size chc cc (k div n)" if "i < n" "k < ?N" for i k
    using nth [OF that] piece_nelem_eq [OF assms(5,4) block_index(1) [OF that(2)]] by simp
  have rank: "rank_at ring c < n" for c using rank_at_less [OF assms(1), of c] assms(2,3) by simp
  show blocks: "blocks n (rounds chc cc) n prog" using nth assms(3) by (auto simp: blocks_def)
  have inside: "a \<in> piece grid chc cc q \<Longrightarrow> a < count" if "i < n" for a q i
    using assms(6) that in_piece(2) [of a grid chc cc q] unfolding scatter_buffers_ok_def by fastforce
  show "outline op n ?N prog mem (element_data prog ?V)"
  proof (rule outline_from_elements)
    show "length (prog i) = ?N" if "i < n" for i
      using reduce_scatter_ops(1) [OF assms(1-3) that assms(4)] by (simp add: prog_def)
  next
    fix i k assume i: "i < n" and k: "k < ?N"
    let ?s = "piece_size chc cc (k div n)"
    have "grid + k div n * cc + rank_at ring (turn_chunk n i (k mod n)) * count + ?s \<le> n * count \<and> grid + k div n * cc + ?s \<le> grid + chc"
      if "0 < ?s"
    proof -
      have last: "grid + k div n * cc + (?s - 1) \<in> piece grid chc cc (k div n)" using that by (simp add: piece_def)
      show ?thesis
        using shard_less [OF rank inside [OF i last], of "turn_chunk n i (k mod n)"] in_piece(2) [OF last] that by linarith
    qed
    moreover have "n * count \<le> rm_sendSize (mem i)" "grid + chc \<le> rm_recvSize (mem i)"
      using assms(6) i by (simp_all add: scatter_buffers_ok_def)
    ultimately have "?s = 0 \<or> grid + k div n * cc + rank_at ring (turn_chunk n i (k mod n)) * count + ?s \<le> rm_sendSize (mem i) \<and>
        grid + k div n * cc + ?s \<le> rm_recvSize (mem i)" by linarith
    then show "op_in_buffers (mem i) (prog i ! k)"
      using size [OF i k] nth [OF i k] by (cases "k mod n = n - 1") (auto simp: op_in_buffers_def in_buffer_def)
  next
    fix i k assume i: "i < n" and k: "k < ?N" and "po_recv (prog i ! k)"
    then have r: "k mod n \<noteq> 0" using nth [OF i k] by simp
    then have k1: "k - 1 < ?N" using k by simp
    have prev: "turn_chunk n (prev_rank n i) (k mod n - 1) = turn_chunk n i (k mod n)"
      using turn_chunk_rank(2) [OF assms(3) i, of "k mod n"] r assms(3) mod_less_divisor [of n k] by linarith
    have "peer_data n ?N prog (element_data prog ?V) i k = element_data prog ?V (prev_rank n i) (k - 1)"
      using blocks_peer_data [OF assms(3) blocks i k] r by simp
    also have "\<dots> = map (?G i k) [0..<po_nelem (prog i ! k)]"
      using size [OF i k] size [OF neighbours(1) [OF assms(3) i] k1] block_prev [OF r] prev
      by (simp add: element_data_def scatter_value_def Let_def)
    finally show "peer_data n ?N prog (element_data prog ?V) i k = map (?G i k) [0..<po_nelem (prog i ! k)]" .
  next
    fix i k e assume i: "i < n" and k: "k < ?N" and "e < po_nelem (prog i ! k)"
    have r: "k mod n \<le> n - 1" using assms(3) mod_less_divisor [of n k] by linarith
    let ?a = "rank_at ring (turn_chunk n i (k mod n)) * count + (grid + k div n * cc + e)"
    have load: "load_src op (mem i) InputBuf (grid + k div n * cc + rank_at ring (turn_chunk n i (k mod n)) * count + e) = contribution op mem ?a i"
      by (simp add: load_src_def contribution_def user_buf_def ac_simps)
    note step = turn_value_step [OF assms(3) i r, of op mem ?a]
    consider "k mod n = 0" | "0 < k mod n" "k mod n < n - 1" | "k mod n = n - 1" "k mod n \<noteq> 0" using r by linarith
    then show "?V i k e = op_element op (prog i ! k) (mem i) (?G i k) e"
    proof cases
      case 1
      then show ?thesis using nth [OF i k] load step(1) assms(3) by (simp add: op_element_def scatter_value_def Let_def)
    next
      case 2
      then show ?thesis using nth [OF i k] load step(2) by (simp add: op_element_def scatter_value_def Let_def)
    next
      case 3
      then show ?thesis using nth [OF i k] load step(3) by (simp add: op_element_def scatter_value_def Let_def)
    qed
  next
    fix i k j assume i: "i < n" and k: "k < ?N" and jk: "j < k"
    then have j: "j < ?N" by simp
    show "src_range (mem i) (prog i ! k) \<inter> dst_range (mem i) (prog i ! j) = {}"
    proof (rule equals0I)
      fix b assume b: "b \<in> src_range (mem i) (prog i ! k) \<inter> dst_range (mem i) (prog i ! j)"
      let ?c = "turn_chunk n i (k mod n)"
      from b have late: "j mod n = n - 1" using nth [OF i j] by (auto simp: dst_range_def split: if_splits)
      obtain a where a: "a \<in> piece grid chc cc (k div n)" "b = rm_sendbuff (mem i) + (rank_at ring ?c * count + a)"
      proof (rule that [of "b - (rm_sendbuff (mem i) + rank_at ring ?c * count)"])
        have "b \<in> src_range (mem i) (prog i ! k)" using b by blast
        then have range: "rm_sendbuff (mem i) + (grid + k div n * cc + rank_at ring ?c * count) \<le> b"
            "b < rm_sendbuff (mem i) + (grid + k div n * cc + rank_at ring ?c * count) + piece_size chc cc (k div n)"
          using size [OF i k] nth [OF i k] by (simp_all add: src_range_def user_buf_def)
        then show "b - (rm_sendbuff (mem i) + rank_at ring ?c * count) \<in> piece grid chc cc (k div n)"
          "b = rm_sendbuff (mem i) + (rank_at ring ?c * count + (b - (rm_sendbuff (mem i) + rank_at ring ?c * count)))"
          unfolding piece_def atLeastLessThan_iff by linarith+
      qed
      obtain a' where a': "a' \<in> piece grid chc cc (j div n)" "b = rm_recvbuff (mem i) + a'"
      proof (rule that [of "b - rm_recvbuff (mem i)"])
        have "b \<in> dst_range (mem i) (prog i ! j)" using b by blast
        then have "rm_recvbuff (mem i) + (grid + j div n * cc) \<le> b"
            "b < rm_recvbuff (mem i) + (grid + j div n * cc) + piece_size chc cc (j div n)"
          using size [OF i j] nth [OF i j] late by (simp_all add: dst_range_def user_buf_def)
        then show "b - rm_recvbuff (mem i) \<in> piece grid chc cc (j div n)" "b = rm_recvbuff (mem i) + (b - rm_recvbuff (mem i))"
          unfolding piece_def atLeastLessThan_iff by linarith+
      qed
      have less: "rank_at ring ?c * count + a < n * count" by (rule shard_less [OF rank inside [OF i a(1)]])
      have "rm_recvbuff (mem i) = rm_sendbuff (mem i) + rank_at ring i * count"
        using assms(6) i less a(2) a'(2) in_piece(2) [OF a'(1)] unfolding scatter_buffers_ok_def by fastforce
      then have "rank_at ring ?c * count + a = rank_at ring i * count + a'" using a(2) a'(2) by simp
      then have "a = a'" by (rule shard_index(2) [OF inside [OF i a(1)] inside [OF i a'(1)]])
      then have "k div n = j div n" using in_piece(3) [OF a(1)] in_piece(3) [OF a'(1)] by simp
      moreover have "k mod n \<le> j mod n" using late assms(3) mod_less_divisor [of n k] by linarith
      ultimately show False using block_earlier [OF jk, of n] by simp
    qed
  qed
qed

lemma reduce_scatter_memory:
  fixes count grid chc cc :: nat
  assumes "is_ring ring" and "length ring = n" and "2 \<le> n" and "0 < cc" and "cc < 2 ^ 31" and "i < n"
  defines "prog \<equiv> \<lambda>i. reduce_scatter_ring (setup_channel ring (rank_at ring i)) n count grid chc cc"
  shows "rm_mem (stored (mem i) (prog i)
      (element_data prog (\<lambda>i k. scatter_value op n count grid cc ring mem i (k div n) (k mod n)) i) (rounds chc cc * n)) b =
    (if b \<in> recv_range (mem i) grid chc
     then let a = b - rm_recvbuff (mem i)
          in ro_post op (ring_fold (ro_reduce op) n (contribution op mem (rank_at ring i * count + a)) i (n - 1))
     else rm_mem (mem i) b)"
proof -
  let ?N = "rounds chc cc * n" and ?a = "b - rm_recvbuff (mem i)"
  have nth: "prog i ! k = scatter_op n (k mod n) (grid + k div n * cc + rank_at ring (turn_chunk n i (k mod n)) * count) (grid + k div n * cc)
        (piece_nelem chc cc (k div n * cc))" if "k < ?N" for k
    using reduce_scatter_ops(2) [OF assms(1-3,6,4)] that by (simp add: prog_def)
  have size: "nat (piece_nelem chc cc (k div n * cc)) = piece_size chc cc (k div n)" if "k < ?N" for k
    by (rule piece_nelem_eq [OF assms(5,4) block_index(1) [OF that]])
  have dst: "b \<in> dst_range (mem i) (prog i ! k) \<longleftrightarrow> k mod n = n - 1 \<and> rm_recvbuff (mem i) \<le> b \<and> ?a \<in> piece grid chc cc (k div n)"
    if "k < ?N" for k
  proof -
    have "b \<in> dst_range (mem i) (prog i ! k) \<longleftrightarrow> k mod n = n - 1 \<and>
        b \<in> {rm_recvbuff (mem i) + (grid + k div n * cc) ..< rm_recvbuff (mem i) + (grid + k div n * cc) + piece_size chc cc (k div n)}"
      using nth [OF that] size [OF that] by (simp add: dst_range_def user_buf_def)
    then show ?thesis unfolding shifted_range piece_def .
  qed
  have own: "turn_chunk n i (n - 1) = i" using turn_chunk_rank_dest [of "n - 1" n i] assms(3,6) by simp
  show ?thesis
  proof (cases "b \<in> recv_range (mem i) grid chc")
    case True
    then have a: "grid \<le> ?a" "?a < grid + chc" "rm_recvbuff (mem i) \<le> b" by (auto simp: recv_range_def)
    let ?q = "(?a - grid) div cc"
    note q = piece_cover [OF assms(4) a(1,2)]
    have "n - 1 < n" using assms(3) by simp
    note j = block_position [OF q(1) this]
    have "rm_mem (stored (mem i) (prog i)
        (element_data prog (\<lambda>i k. scatter_value op n count grid cc ring mem i (k div n) (k mod n)) i) ?N) b =
      ro_post op (ring_fold (ro_reduce op) n (contribution op mem (rank_at ring i * count + ?a)) i (n - 1))"
    proof (rule element_written [OF j(1)])
      show "b \<in> dst_range (mem i) (prog i ! (?q * n + (n - 1)))" using dst [OF j(1)] j(2,3) a(3) q(2) by simp
      fix k buf ix assume k: "k < ?N" "po_dst (prog i ! k) = Some (buf, ix)" "b \<in> dst_range (mem i) (prog i ! k)"
      then have late: "k mod n = n - 1" and at: "?a \<in> piece grid chc cc (k div n)" using dst by blast+
      have "buf = OutputBuf" "ix = grid + k div n * cc" using k(2) nth [OF k(1)] late by simp_all
      then have "user_buf (mem i) buf + ix = rm_recvbuff (mem i) + (grid + k div n * cc)" by (simp add: user_buf_def)
      then have "grid + k div n * cc + (b - (user_buf (mem i) buf + ix)) = ?a"
        using at unfolding piece_def atLeastLessThan_iff by linarith
      then show "scatter_value op n count grid cc ring mem i (k div n) (k mod n) (b - (user_buf (mem i) buf + ix)) =
          ro_post op (ring_fold (ro_reduce op) n (contribution op mem (rank_at ring i * count + ?a)) i (n - 1))"
        unfolding scatter_value_def Let_def late own by (simp add: turn_value_def)
    qed
    with True show ?thesis by (simp add: Let_def)
  next
    case False
    have "b \<notin> dst_range (mem i) (prog i ! k)" if k: "k < ?N" for k
    proof
      assume "b \<in> dst_range (mem i) (prog i ! k)"
      then have "rm_recvbuff (mem i) \<le> b" "grid \<le> ?a" "?a < grid + chc" using dst [OF k] in_piece by blast+
      with False show False unfolding recv_range_def atLeastLessThan_iff by linarith
    qed
    then have "rm_mem (stored (mem i) (prog i)
        (element_data prog (\<lambda>i k. scatter_value op n count grid cc ring mem i (k div n) (k mod n)) i) ?N) b = rm_mem (mem i) b"
      by (rule element_kept)
    with False show ?thesis by simp
  qed
qed

text \<open>C6. However the ranks are scheduled, the ring reduce-scatter ends, and the rank at every position of the ring then has, in the
  channel's part of its receive buffer, the reduction of all ranks' contributions to its own shard; the rest of its
  memory is unchanged.  The receive buffer may be the rank's shard of the send buffer.\<close>
theorem reduce_scatter_completes:
  assumes "is_ring ring" and "length ring = n" and "2 \<le> n" and "0 < cc" and "cc < 2 ^ 31"
    and "\<forall>i < n. scatter_buffers_ok n count (grid + chc) (mem i) (rank_at ring i)"
  shows "inevitably op n
    (\<lambda>m. \<forall>i < n. \<forall>b. rm_mem (m i) b =
      (if b \<in> recv_range (mem i) grid chc
       then let a = b - rm_recvbuff (mem i)
            in ro_post op (ring_fold (ro_reduce op) n (contribution op mem (rank_at ring i * count + a)) i (n - 1))
       else rm_mem (mem i) b))
    (ring_start mem (\<lambda>i. reduce_scatter_ring (setup_channel ring (rank_at ring i)) n count grid chc cc))"
proof -
  note outline = reduce_scatter_outline [OF assms]
  show ?thesis
  proof (rule outline_inevitably [OF assms(3) outline(2) blocks_timely [OF assms(3) outline(1)]], intro allI impI)
    fix m i b assume m: "\<And>i. i < n \<Longrightarrow> m i = stored (mem i) (reduce_scatter_ring (setup_channel ring (rank_at ring i)) n count grid chc cc)
      (element_data (\<lambda>i. reduce_scatter_ring (setup_channel ring (rank_at ring i)) n count grid chc cc)
        (\<lambda>i k. scatter_value op n count grid cc ring mem i (k div n) (k mod n)) i) (rounds chc cc * n)" and i: "i < n"
    show "rm_mem (m i) b =
      (if b \<in> recv_range (mem i) grid chc
       then let a = b - rm_recvbuff (mem i)
            in ro_post op (ring_fold (ro_reduce op) n (contribution op mem (rank_at ring i * count + a)) i (n - 1))
       else rm_mem (mem i) b)"
      unfolding m [OF i] by (rule reduce_scatter_memory [OF assms(1-5) i])
  qed
qed

section \<open>All-gather\<close>

definition all_gather_pass :: "ring_info \<Rightarrow> nat \<Rightarrow> nat \<Rightarrow> nat \<Rightarrow> nat \<Rightarrow> nat \<Rightarrow> nat \<Rightarrow> nat \<Rightarrow> nat \<Rightarrow> prim_op list" where
  "all_gather_pass ring nranks inputBuf outputBuf count partOffset partCount chunkCount elemOffset =
     (let nelem = piece_nelem partCount chunkCount elemOffset;
          dataOffset = partOffset + elemOffset;
          offset = (\<lambda>rankDest. dataOffset + rankDest * count);
          own = offset (ri_userRanks ring ! 0);
          final = offset (ri_userRanks ring ! 1)
      in [if inputBuf + dataOffset = outputBuf + own then direct_send dataOffset own nelem
          else direct_copy_send dataOffset own nelem False] @
         map (\<lambda>j. let off = offset (ri_userRanks ring ! (nranks - j)) in direct_recv_copy_direct_send off off nelem) [1..<nranks - 1] @
         [direct_recv final nelem])"

definition all_gather_ring :: "ring_info \<Rightarrow> nat \<Rightarrow> nat \<Rightarrow> nat \<Rightarrow> nat \<Rightarrow> nat \<Rightarrow> nat \<Rightarrow> nat \<Rightarrow> prim_op list" where
  "all_gather_ring ring nranks inputBuf outputBuf count partOffset partCount chunkCount =
     concat (map (all_gather_pass ring nranks inputBuf outputBuf count partOffset partCount chunkCount)
       (loop_from 0 partCount chunkCount))"

definition gather_buffers_ok :: "nat \<Rightarrow> nat \<Rightarrow> nat \<Rightarrow> 'a rank_mem \<Rightarrow> nat \<Rightarrow> bool" where
  "gather_buffers_ok n count hi m rank \<longleftrightarrow> hi \<le> count \<and> hi \<le> rm_sendSize m \<and> n * count \<le> rm_recvSize m \<and>
     (rm_sendbuff m = rm_recvbuff m + rank * count \<or> rm_sendbuff m + hi \<le> rm_recvbuff m \<or> rm_recvbuff m + n * count \<le> rm_sendbuff m)"

definition gather_op :: "nat \<Rightarrow> nat \<Rightarrow> bool \<Rightarrow> nat \<Rightarrow> nat \<Rightarrow> int \<Rightarrow> prim_op" where
  "gather_op n r inPlace src dst nelem = ll_op (r \<noteq> 0) (r \<noteq> n - 1) (if r = 0 then Some InputBuf else None)
     (if r = 0 \<and> inPlace then None else Some OutputBuf) (if r = 0 then src else 0) (if r = 0 \<and> inPlace then 0 else dst) nelem False"

lemma gather_op_fields [simp]:
  "po_recv (gather_op n r inPlace src dst nelem) = (r \<noteq> 0)" "po_send (gather_op n r inPlace src dst nelem) = (r \<noteq> n - 1)"
  "po_src (gather_op n r inPlace src dst nelem) = (if r = 0 then Some (InputBuf, src) else None)"
  "po_dst (gather_op n r inPlace src dst nelem) = (if r = 0 \<and> inPlace then None else Some (OutputBuf, dst))"
  "po_nelem (gather_op n r inPlace src dst nelem) = nat nelem" "po_postOp (gather_op n r inPlace src dst nelem) = False"
  by (auto simp: gather_op_def ll_op_def)

text \<open>Whose shard a rank passes on at turn \<open>r\<close>.\<close>

definition turn_shard :: "nat \<Rightarrow> nat \<Rightarrow> nat \<Rightarrow> nat" where
  "turn_shard n i r = (i + (n - r)) mod n"

lemma turn_shard:
  assumes "2 \<le> n" and "i < n"
  shows "turn_shard n i 0 = i" and "0 < r \<Longrightarrow> r < n \<Longrightarrow> turn_shard n (prev_rank n i) (r - 1) = turn_shard n i r"
    and "c < n \<Longrightarrow> turn_shard n i ((i + (n - c)) mod n) = c" and "turn_shard n i r < n"
    and "r < n \<Longrightarrow> turn_shard n i r = i \<Longrightarrow> r = 0"
proof -
  show "turn_shard n i 0 = i" "turn_shard n i r < n" using assms by (simp_all add: turn_shard_def)
  show "turn_shard n (prev_rank n i) (r - 1) = turn_shard n i r" if "0 < r" "r < n"
  proof -
    have "turn_shard n (prev_rank n i) (r - 1) = (i + n - 1 + (n - (r - 1))) mod n"
      unfolding turn_shard_def prev_rank_def by (rule mod_add_left_eq)
    also have "i + n - 1 + (n - (r - 1)) = (i + (n - r)) + n" using that by simp
    finally show ?thesis by (simp add: turn_shard_def)
  qed
  show "turn_shard n i ((i + (n - c)) mod n) = c" if c: "c < n"
  proof (cases "c \<le> i")
    case True
    then have "(i + (n - c)) mod n = i - c" using assms by (simp add: mod_if)
    moreover have "i + (n - (i - c)) = c + n" using True assms by simp
    ultimately show ?thesis using c by (simp add: turn_shard_def)
  next
    case False
    then have "(i + (n - c)) mod n = i + (n - c)" using assms c by simp
    moreover have "i + (n - (i + (n - c))) = c" using False assms c by simp
    ultimately show ?thesis using c by (simp add: turn_shard_def)
  qed
  show "r = 0" if r: "r < n" "turn_shard n i r = i"
  proof (rule ccontr)
    assume "r \<noteq> 0"
    then have "(i + (n - r)) mod n = (if i + (n - r) < n then i + (n - r) else i + (n - r) - n)"
      using assms(2) r(1) by (intro wrap_add) auto
    with r \<open>r \<noteq> 0\<close> show False unfolding turn_shard_def by (simp split: if_splits)
  qed
qed

lemma nth_all_gather_pass:
  assumes "is_ring ring" and "length ring = n" and "2 \<le> n" and "i < n" and "r < n"
  shows "all_gather_pass (setup_channel ring (rank_at ring i)) n sb rb count grid chc cc e ! r =
    gather_op n r (sb = rb + rank_at ring i * count) (grid + e) (grid + e + rank_at ring (turn_shard n i r) * count) (piece_nelem chc cc e)"
proof -
  have user: "ri_userRanks (setup_channel ring (rank_at ring i)) ! j = rank_at ring ((i + j) mod n)" if "j < n" for j
    using rank_at_setup(2) [OF assms(1)] assms(2,4) that by simp
  have user0: "ri_userRanks (setup_channel ring (rank_at ring i)) ! 0 = rank_at ring i" using user [of 0] assms(4) by simp
  have dest: "ri_userRanks (setup_channel ring (rank_at ring i)) ! (n - r) = rank_at ring (turn_shard n i r)" if "0 < r"
    using user [of "n - r"] that assms(3) by (simp add: turn_shard_def)
  consider "r = 0" | "0 < r" "r < n - 1" | "r = n - 1" "r \<noteq> 0" using assms by linarith
  then show ?thesis
  proof cases
    case 1
    then show ?thesis using turn_shard(1) [OF assms(3,4)] assms(3)
      unfolding all_gather_pass_def Let_def nth_three_from_1 [OF assms(3,5)] user0
      by (auto simp: gather_op_def prim_defs)
  next
    case 2
    then show ?thesis using dest
      unfolding all_gather_pass_def Let_def nth_three_from_1 [OF assms(3,5)] by (simp add: gather_op_def prim_defs)
  next
    case 3
    then have "n - r = 1" using assms(3) by simp
    then have "ri_userRanks (setup_channel ring (rank_at ring i)) ! 1 = rank_at ring (turn_shard n i r)" using dest 3(2) by simp
    then show ?thesis using 3
      unfolding all_gather_pass_def Let_def nth_three_from_1 [OF assms(3,5)] by (simp add: gather_op_def prim_defs)
  qed
qed

lemma all_gather_ops:
  fixes sb rb count grid chc cc :: nat
  assumes "is_ring ring" and "length ring = n" and "2 \<le> n" and "i < n" and "0 < cc" and "cc < 2 ^ 31"
  defines "prog \<equiv> all_gather_ring (setup_channel ring (rank_at ring i)) n sb rb count grid chc cc"
  shows "length prog = rounds chc cc * n"
    and "k < rounds chc cc * n \<Longrightarrow> prog ! k =
      gather_op n (k mod n) (sb = rb + rank_at ring i * count) (grid + k div n * cc)
        (grid + k div n * cc + rank_at ring (turn_shard n i (k mod n)) * count) (piece_nelem chc cc (k div n * cc))"
    and "k < rounds chc cc * n \<Longrightarrow> po_nelem (prog ! k) = piece_size chc cc (k div n)"
proof -
  have len: "length (all_gather_pass (setup_channel ring (rank_at ring i)) n sb rb count grid chc cc e) = n" for e
    using assms(3) by (simp add: all_gather_pass_def Let_def)
  show "length prog = rounds chc cc * n" unfolding prog_def all_gather_ring_def by (rule length_passes [OF assms(5) len])
  assume k: "k < rounds chc cc * n"
  then have "k mod n < n" using assms(3) by simp
  then show nth: "prog ! k = gather_op n (k mod n) (sb = rb + rank_at ring i * count) (grid + k div n * cc)
        (grid + k div n * cc + rank_at ring (turn_shard n i (k mod n)) * count) (piece_nelem chc cc (k div n * cc))"
    unfolding prog_def all_gather_ring_def nth_passes [OF assms(5) len k]
    by (rule nth_all_gather_pass [OF assms(1-4)])
  show "po_nelem (prog ! k) = piece_size chc cc (k div n)"
    unfolding nth using piece_nelem_eq [OF assms(6,5) block_index(1) [OF k]] by simp
qed

text \<open>The addresses a primitive writes.\<close>

lemma gather_dst_range:
  fixes m :: "'a rank_mem" and count grid chc cc :: nat
  assumes "is_ring ring" and "length ring = n" and "2 \<le> n" and "i < n" and "0 < cc" and "cc < 2 ^ 31"
  defines "prog \<equiv> all_gather_ring (setup_channel ring (rank_at ring i)) n (rm_sendbuff m) (rm_recvbuff m) count grid chc cc"
  assumes "k < rounds chc cc * n" and "b \<in> dst_range m (prog ! k)"
  obtains a where "a \<in> piece grid chc cc (k div n)" and "b = rm_recvbuff m + (rank_at ring (turn_shard n i (k mod n)) * count + a)"
    and "k mod n \<noteq> 0 \<or> rm_sendbuff m \<noteq> rm_recvbuff m + rank_at ring i * count"
proof -
  note op = all_gather_ops(2,3) [OF assms(1-6), of k chc "rm_sendbuff m" "rm_recvbuff m" count grid, folded prog_def, OF assms(8)]
  have where_to: "k mod n \<noteq> 0 \<or> rm_sendbuff m \<noteq> rm_recvbuff m + rank_at ring i * count"
    using assms(9) op(1) by (auto simp: dst_range_def split: if_splits)
  define off where "off = rm_recvbuff m + rank_at ring (turn_shard n i (k mod n)) * count"
  have "dst_range m (prog ! k) = {off + (grid + k div n * cc) ..< off + (grid + k div n * cc) + piece_size chc cc (k div n)}"
    using op where_to by (auto simp: dst_range_def user_buf_def off_def)
  with assms(9) have "off \<le> b" "b - off \<in> piece grid chc cc (k div n)" unfolding piece_def by (simp_all only: shifted_range)
  with where_to that [of "b - off"] show thesis by (simp add: off_def)
qed

lemma all_gather_outline:
  fixes count grid chc cc :: nat and op :: "'a red_op"
  assumes "is_ring ring" and "length ring = n" and "2 \<le> n" and "0 < cc" and "cc < 2 ^ 31"
    and "\<forall>i < n. gather_buffers_ok n count (grid + chc) (mem i) (rank_at ring i)"
  defines "prog \<equiv> \<lambda>i. all_gather_ring (setup_channel ring (rank_at ring i)) n (rm_sendbuff (mem i)) (rm_recvbuff (mem i)) count grid chc cc"
  defines "V \<equiv> \<lambda>i k e. contribution op mem (grid + k div n * cc + e) (turn_shard n i (k mod n))"
  shows "blocks n (rounds chc cc) n prog"
    and "outline op n (rounds chc cc * n) prog mem (element_data prog V)"
proof -
  let ?N = "rounds chc cc * n"
  have op: "prog i ! k = gather_op n (k mod n) (rm_sendbuff (mem i) = rm_recvbuff (mem i) + rank_at ring i * count) (grid + k div n * cc)
        (grid + k div n * cc + rank_at ring (turn_shard n i (k mod n)) * count) (piece_nelem chc cc (k div n * cc))"
    and size: "po_nelem (prog i ! k) = piece_size chc cc (k div n)" if "i < n" "k < ?N" for i k
    using all_gather_ops(2,3) [OF assms(1-3) that(1) assms(4,5)] that(2) by (simp_all add: prog_def)
  have rank: "rank_at ring c < n" for c using rank_at_less [OF assms(1), of c] assms(2,3) by simp
  show blocks: "blocks n (rounds chc cc) n prog" using op assms(3) by (auto simp: blocks_def)
  have inside: "a \<in> piece grid chc cc q \<Longrightarrow> a < count" if "i < n" for a q i
    using assms(6) that in_piece(2) [of a grid chc cc q] unfolding gather_buffers_ok_def by fastforce
  show "outline op n ?N prog mem (element_data prog V)"
  proof (rule outline_from_elements)
    show "length (prog i) = ?N" if "i < n" for i
      using all_gather_ops(1) [OF assms(1-3) that assms(4,5)] by (simp add: prog_def)
  next
    fix i k assume i: "i < n" and k: "k < ?N"
    let ?s = "piece_size chc cc (k div n)"
    have "grid + k div n * cc + rank_at ring (turn_shard n i (k mod n)) * count + ?s \<le> n * count \<and> grid + k div n * cc + ?s \<le> grid + chc"
      if "0 < ?s"
    proof -
      have last: "grid + k div n * cc + (?s - 1) \<in> piece grid chc cc (k div n)" using that by (simp add: piece_def)
      show ?thesis
        using shard_less [OF rank inside [OF i last], of "turn_shard n i (k mod n)"] in_piece(2) [OF last] that by linarith
    qed
    moreover have "n * count \<le> rm_recvSize (mem i)" "grid + chc \<le> rm_sendSize (mem i)"
      using assms(6) i by (simp_all add: gather_buffers_ok_def)
    ultimately have "?s = 0 \<or> grid + k div n * cc + rank_at ring (turn_shard n i (k mod n)) * count + ?s \<le> rm_recvSize (mem i) \<and>
        grid + k div n * cc + ?s \<le> rm_sendSize (mem i)" by linarith
    then show "op_in_buffers (mem i) (prog i ! k)"
      using size [OF i k] op [OF i k] by (cases "k mod n = 0") (auto simp: op_in_buffers_def in_buffer_def)
  next
    fix i k assume i: "i < n" and k: "k < ?N" and "po_recv (prog i ! k)"
    then have r: "k mod n \<noteq> 0" using op [OF i k] by simp
    then have k1: "k - 1 < ?N" using k by simp
    have "k mod n < n" using assms(3) by simp
    then have prev: "turn_shard n (prev_rank n i) (k mod n - 1) = turn_shard n i (k mod n)" using turn_shard(2) [OF assms(3) i] r by simp
    have "peer_data n ?N prog (element_data prog V) i k = element_data prog V (prev_rank n i) (k - 1)"
      using blocks_peer_data [OF assms(3) blocks i k] r by simp
    also have "\<dots> = map (V i k) [0..<po_nelem (prog i ! k)]"
      using size [OF i k] size [OF neighbours(1) [OF assms(3) i] k1] block_prev [OF r] prev by (simp add: element_data_def V_def)
    finally show "peer_data n ?N prog (element_data prog V) i k = map (V i k) [0..<po_nelem (prog i ! k)]" .
  next
    fix i k e assume i: "i < n" and k: "k < ?N"
    show "V i k e = op_element op (prog i ! k) (mem i) (V i k) e"
    proof (cases "k mod n = 0")
      case True
      then have "V i k e = contribution op mem (grid + k div n * cc + e) i" using turn_shard(1) [OF assms(3) i] by (simp add: V_def)
      then show ?thesis using op [OF i k] True by (simp add: op_element_def load_src_def user_buf_def contribution_def)
    qed (use op [OF i k] in \<open>simp add: op_element_def\<close>)
  next
    fix i k j assume i: "i < n" and k: "k < ?N" and jk: "j < k"
    then have j: "j < ?N" by simp
    show "src_range (mem i) (prog i ! k) \<inter> dst_range (mem i) (prog i ! j) = {}"
    proof (rule equals0I)
      fix b assume b: "b \<in> src_range (mem i) (prog i ! k) \<inter> dst_range (mem i) (prog i ! j)"
      then have r: "k mod n = 0" using op [OF i k] by (auto simp: src_range_def split: if_splits)
      have "b \<in> {rm_sendbuff (mem i) + (grid + k div n * cc) ..< rm_sendbuff (mem i) + (grid + k div n * cc) + piece_size chc cc (k div n)}"
        using b op [OF i k] size [OF i k] r by (simp add: src_range_def user_buf_def)
      then have a: "rm_sendbuff (mem i) \<le> b" "b - rm_sendbuff (mem i) \<in> piece grid chc cc (k div n)"
        unfolding piece_def by (simp_all only: shifted_range)
      let ?a = "b - rm_sendbuff (mem i)" and ?c = "turn_shard n i (j mod n)"
      from b obtain a' where a': "a' \<in> piece grid chc cc (j div n)" "b = rm_recvbuff (mem i) + (rank_at ring ?c * count + a')"
        using gather_dst_range [OF assms(1-3) i assms(4,5) j, of b "mem i" count grid] by (auto simp: prog_def)
      have less: "rank_at ring ?c * count + a' < n * count" by (rule shard_less [OF rank inside [OF i a'(1)]])
      have "rm_sendbuff (mem i) = rm_recvbuff (mem i) + rank_at ring i * count"
        using assms(6) i less a(1) a'(2) in_piece(2) [OF a(2)] unfolding gather_buffers_ok_def by fastforce
      then have "rank_at ring i * count + ?a = rank_at ring ?c * count + a'" using a(1) a'(2) by linarith
      then have "?a = a'" by (rule shard_index(2) [OF inside [OF i a(2)] inside [OF i a'(1)]])
      then have "k div n = j div n" using in_piece(3) [OF a(2)] in_piece(3) [OF a'(1)] by simp
      then show False using block_earlier [OF jk, of n] r by simp
    qed
  qed
qed

lemma all_gather_memory:
  fixes count grid chc cc :: nat
  assumes "is_ring ring" and "length ring = n" and "2 \<le> n" and "0 < cc" and "cc < 2 ^ 31"
    and "\<forall>i < n. gather_buffers_ok n count (grid + chc) (mem i) (rank_at ring i)" and "i < n" and "ro_pre op = (\<lambda>x. x)"
  defines "prog \<equiv> \<lambda>i. all_gather_ring (setup_channel ring (rank_at ring i)) n (rm_sendbuff (mem i)) (rm_recvbuff (mem i)) count grid chc cc"
  defines "V \<equiv> \<lambda>i k e. contribution op mem (grid + k div n * cc + e) (turn_shard n i (k mod n))"
  defines "m \<equiv> stored (mem i) (prog i) (element_data prog V i) (rounds chc cc * n)"
  shows "c < n \<Longrightarrow> a \<in> {grid ..< grid + chc} \<Longrightarrow>
      rm_mem m (rm_recvbuff (mem i) + rank_at ring c * count + a) = rm_mem (mem c) (rm_sendbuff (mem c) + a)"
    and "(\<And>r. r < n \<Longrightarrow> b \<notin> recv_range (mem i) (r * count + grid) chc) \<Longrightarrow> rm_mem m b = rm_mem (mem i) b"
proof -
  let ?N = "rounds chc cc * n" and ?inPlace = "rm_sendbuff (mem i) = rm_recvbuff (mem i) + rank_at ring i * count"
  have op: "prog i ! k = gather_op n (k mod n) ?inPlace (grid + k div n * cc)
        (grid + k div n * cc + rank_at ring (turn_shard n i (k mod n)) * count) (piece_nelem chc cc (k div n * cc))"
    and size: "po_nelem (prog i ! k) = piece_size chc cc (k div n)" if "k < ?N" for k
    using all_gather_ops(2,3) [OF assms(1-3,7,4,5)] that by (simp_all add: prog_def)
  have rank: "rank_at ring c < n" for c using rank_at_less [OF assms(1), of c] assms(2,3) by simp
  have hi: "grid + chc \<le> count" using assms(6,7) by (simp add: gather_buffers_ok_def)
  have dst: "\<exists>a. a \<in> piece grid chc cc (k div n) \<and> b = rm_recvbuff (mem i) + (rank_at ring (turn_shard n i (k mod n)) * count + a) \<and>
      (k mod n \<noteq> 0 \<or> \<not> ?inPlace)" if "k < ?N" "b \<in> dst_range (mem i) (prog i ! k)" for k b
    using gather_dst_range [OF assms(1-3,7,4,5) that(1), of b "mem i" count grid] that(2) by (simp add: prog_def) blast
  show "rm_mem m (rm_recvbuff (mem i) + rank_at ring c * count + a) = rm_mem (mem c) (rm_sendbuff (mem c) + a)"
    if c: "c < n" and a: "a \<in> {grid ..< grid + chc}"
  proof -
    let ?b = "rm_recvbuff (mem i) + rank_at ring c * count + a"
    have "a < count" using a hi by simp
    have inside: "a' < count" if "a' \<in> piece grid chc cc q" for a' q using in_piece(2) [OF that] hi by simp
    have hit: "turn_shard n i (k mod n) = c \<and> a \<in> piece grid chc cc (k div n) \<and> (k mod n \<noteq> 0 \<or> \<not> ?inPlace)"
      if k: "k < ?N" "?b \<in> dst_range (mem i) (prog i ! k)" for k
    proof -
      obtain a' where a': "a' \<in> piece grid chc cc (k div n)" 
          "?b = rm_recvbuff (mem i) + (rank_at ring (turn_shard n i (k mod n)) * count + a')" "k mod n \<noteq> 0 \<or> \<not> ?inPlace"
        using dst [OF k] by blast
      have eq: "rank_at ring c * count + a = rank_at ring (turn_shard n i (k mod n)) * count + a'" using a'(2) by linarith
      note sh = shard_index [OF \<open>a < count\<close> inside [OF a'(1)] eq]
      have "c = turn_shard n i (k mod n)"
        using rank_at_inj [OF assms(1), of c "turn_shard n i (k mod n)"] sh(1) assms(2) c turn_shard(4) [OF assms(3,7)] by simp
      with sh(2) a' show ?thesis by simp
    qed
    show ?thesis
    proof (cases "c = i \<and> ?inPlace")
      case True
      have "?b \<notin> dst_range (mem i) (prog i ! k)" if k: "k < ?N" for k
      proof
        assume "?b \<in> dst_range (mem i) (prog i ! k)"
        then have "turn_shard n i (k mod n) = i" "k mod n \<noteq> 0" using hit [OF k] True by blast+
        moreover have "k mod n < n" using assms(3) by simp
        ultimately show False using turn_shard(5) [OF assms(3,7), of "k mod n"] by linarith
      qed
      then have "rm_mem m ?b = rm_mem (mem i) ?b" unfolding m_def by (rule element_kept)
      with True show ?thesis by simp
    next
      case False
      let ?q = "(a - grid) div cc" and ?r = "(i + (n - c)) mod n"
      have q: "?q < rounds chc cc" "a \<in> piece grid chc cc ?q" using piece_cover [OF assms(4), of grid a chc] a by simp_all
      have r: "?r < n" "turn_shard n i ?r = c" using turn_shard(3) [OF assms(3,7) c] assms(3) by simp_all
      note j = block_position [OF q(1) r(1)]
      have "rm_mem m ?b = rm_mem (mem c) (rm_sendbuff (mem c) + a)"
        unfolding m_def
      proof (rule element_written [OF j(1)])
        have "?r \<noteq> 0 \<or> \<not> ?inPlace" using False r(2) turn_shard(1) [OF assms(3,7)] by metis
        then have "dst_range (mem i) (prog i ! (?q * n + ?r)) =
            {rm_recvbuff (mem i) + (grid + ?q * cc + rank_at ring c * count) ..<
             rm_recvbuff (mem i) + (grid + ?q * cc + rank_at ring c * count) + piece_size chc cc ?q}"
          using op [OF j(1)] size [OF j(1)] unfolding j(2,3) r(2) by (auto simp: dst_range_def user_buf_def)
        then show "?b \<in> dst_range (mem i) (prog i ! (?q * n + ?r))" using q(2) unfolding piece_def by auto
        fix k buf ix assume k: "k < ?N" "po_dst (prog i ! k) = Some (buf, ix)" "?b \<in> dst_range (mem i) (prog i ! k)"
        have h: "turn_shard n i (k mod n) = c" "a \<in> piece grid chc cc (k div n)" using hit [OF k(1,3)] by simp_all
        have "buf = OutputBuf" "ix = grid + k div n * cc + rank_at ring c * count"
          using k(2) op [OF k(1)] h(1) by (auto split: if_splits)
        then have "user_buf (mem i) buf + ix = rm_recvbuff (mem i) + (grid + k div n * cc + rank_at ring c * count)"
          by (simp add: user_buf_def)
        then have "grid + k div n * cc + (?b - (user_buf (mem i) buf + ix)) = a"
          using h(2) unfolding piece_def atLeastLessThan_iff by linarith
        then show "V i k (?b - (user_buf (mem i) buf + ix)) = rm_mem (mem c) (rm_sendbuff (mem c) + a)"
          unfolding V_def h(1) by (simp add: contribution_def assms(8))
      qed
      then show ?thesis .
    qed
  qed
  show "rm_mem m b = rm_mem (mem i) b" if b: "\<And>r. r < n \<Longrightarrow> b \<notin> recv_range (mem i) (r * count + grid) chc"
    unfolding m_def
  proof (rule element_kept)
    fix k assume k: "k < ?N"
    show "b \<notin> dst_range (mem i) (prog i ! k)"
    proof
      assume "b \<in> dst_range (mem i) (prog i ! k)"
      then obtain a where a: "a \<in> piece grid chc cc (k div n)" "b = rm_recvbuff (mem i) + (rank_at ring (turn_shard n i (k mod n)) * count + a)"
        using dst [OF k] by blast
      then have "b \<in> recv_range (mem i) (rank_at ring (turn_shard n i (k mod n)) * count + grid) chc"
        using in_piece(1,2) [OF a(1)] by (simp add: recv_range_def)
      with b rank show False by blast
    qed
  qed
qed

text \<open>C7. However the ranks are scheduled, the ring all-gather ends, and every rank then has, in the channel's part of each
  shard of its receive buffer, what the rank of that shard had in its send buffer; all else is unchanged.  The send buffer
  may be the rank's shard of the receive buffer.\<close>
theorem all_gather_completes:
  assumes "is_ring ring" and "length ring = n" and "2 \<le> n" and "0 < cc" and "cc < 2 ^ 31"
    and "\<forall>i < n. gather_buffers_ok n count (grid + chc) (mem i) (rank_at ring i)" and "ro_pre op = (\<lambda>x. x)"
  shows "inevitably op n
    (\<lambda>m. \<forall>i < n.
      (\<forall>c < n. \<forall>a \<in> {grid ..< grid + chc}.
        rm_mem (m i) (rm_recvbuff (mem i) + rank_at ring c * count + a) = rm_mem (mem c) (rm_sendbuff (mem c) + a)) \<and>
      (\<forall>b. (\<forall>r < n. b \<notin> recv_range (mem i) (r * count + grid) chc) \<longrightarrow> rm_mem (m i) b = rm_mem (mem i) b))
    (ring_start mem (\<lambda>i. all_gather_ring (setup_channel ring (rank_at ring i)) n (rm_sendbuff (mem i)) (rm_recvbuff (mem i)) count grid chc cc))"
proof -
  note outline = all_gather_outline [OF assms(1-6)]
  note mem = all_gather_memory [OF assms(1-6) _ assms(7)]
  show ?thesis
    by (rule outline_inevitably [OF assms(3) outline(2) blocks_timely [OF assms(3) outline(1)]]) (simp add: mem)
qed

section \<open>Two ranks with shards of three\<close>

text \<open>One rank works in place, the other has its buffers apart.\<close>

definition scatter_sample :: "nat \<Rightarrow> int rank_mem" where
  "scatter_sample i = \<lparr>rm_mem = (\<lambda>a. if a < 6 then int (100 * i + a) else 0), rm_sendbuff = 0,
     rm_recvbuff = (if i = 0 then 10 else 3), rm_sendSize = 6, rm_recvSize = 3\<rparr>"

definition gather_sample :: "nat \<Rightarrow> int rank_mem" where
  "gather_sample i = \<lparr>rm_mem = (\<lambda>a. if a < 3 then int (100 * i + a) else 0), rm_sendbuff = 0,
     rm_recvbuff = (if i = 0 then 0 else 10), rm_sendSize = 3, rm_recvSize = 6\<rparr>"

lemma two_rank_at: "rank_at [1, 0] 0 = 0" "rank_at [1, 0] (Suc 0) = 1" "rank_at [Suc 0, 0] 0 = 0" "rank_at [Suc 0, 0] (Suc 0) = 1"
  by (simp_all add: rank_at_def find_last_def)

lemma all_less_2: "(\<forall>i < (2 :: nat). P i) \<longleftrightarrow> P 0 \<and> P (Suc 0)"
  by (auto simp: less_2_cases_iff)

lemma shard_samples:
  "is_ring [1, 0]" "length [1, 0] = (2 :: nat)" "(2 :: nat) \<le> 2" "(0 :: nat) < 2" "(2 :: nat) < 2 ^ 31"
  "\<forall>i < 2. scatter_buffers_ok 2 3 (0 + 3) (scatter_sample i) (rank_at [1, 0] i)"
  "\<forall>i < 2. gather_buffers_ok 2 3 (0 + 3) (gather_sample i) (rank_at [1, 0] i)"
  unfolding all_less_2 two_rank_at
  by (auto simp: is_ring_def scatter_buffers_ok_def gather_buffers_ok_def scatter_sample_def gather_sample_def)

lemma reduce_scatter_completes_witness:
  "inevitably sum_op 2 (\<lambda>m. rm_mem (m 0) 12 = 104 \<and> rm_mem (m 1) 3 = 106 \<and> rm_mem (m 1) 0 = 100)
    (ring_start scatter_sample (\<lambda>i. reduce_scatter_ring (setup_channel [1, 0] (rank_at [1, 0] i)) 2 3 0 3 2))"
proof (rule inevitably_mono [OF reduce_scatter_completes [OF shard_samples(1-6), of sum_op]])
  fix m assume m: "\<forall>i < 2. \<forall>b. rm_mem (m i) b =
      (if b \<in> recv_range (scatter_sample i) 0 3
       then let a = b - rm_recvbuff (scatter_sample i)
            in ro_post sum_op (ring_fold (ro_reduce sum_op) 2 (contribution sum_op scatter_sample (rank_at [1, 0] i * 3 + a)) i (2 - 1))
       else rm_mem (scatter_sample i) b)"
  from m [rule_format, of 0 12] m [rule_format, of 1 3] m [rule_format, of 1 0]
  show "rm_mem (m 0) 12 = 104 \<and> rm_mem (m 1) 3 = 106 \<and> rm_mem (m 1) 0 = 100"
    by (simp add: recv_range_def scatter_sample_def sum_op_def contribution_def two_rank_at)
qed

lemma all_gather_completes_witness:
  "inevitably sum_op 2 (\<lambda>m. rm_mem (m 1) 12 = 2 \<and> rm_mem (m 0) 4 = 101 \<and> rm_mem (m 0) 2 = 2)
    (ring_start gather_sample (\<lambda>i. all_gather_ring (setup_channel [1, 0] (rank_at [1, 0] i)) 2
      (rm_sendbuff (gather_sample i)) (rm_recvbuff (gather_sample i)) 3 0 3 2))"
proof (rule inevitably_mono [OF all_gather_completes [OF shard_samples(1-5,7), of sum_op]])
  show "ro_pre sum_op = (\<lambda>x. x)" by (simp add: sum_op_def)
  fix m assume m: "\<forall>i < 2.
      (\<forall>c < 2. \<forall>a \<in> {0 ..< 0 + 3}.
        rm_mem (m i) (rm_recvbuff (gather_sample i) + rank_at [1, 0] c * 3 + a) = rm_mem (gather_sample c) (rm_sendbuff (gather_sample c) + a)) \<and>
      (\<forall>b. (\<forall>r < 2. b \<notin> recv_range (gather_sample i) (r * 3 + 0) 3) \<longrightarrow> rm_mem (m i) b = rm_mem (gather_sample i) b)"
  then have get: "rm_mem (m i) (rm_recvbuff (gather_sample i) + rank_at [1, 0] c * 3 + a) = rm_mem (gather_sample c) (rm_sendbuff (gather_sample c) + a)"
    if "i < 2" "c < 2" "a < 3" for i c a using that by simp
  from get [of 1 0 2] get [of 0 1 1] get [of 0 0 2]
  show "rm_mem (m 1) 12 = 2 \<and> rm_mem (m 0) 4 = 101 \<and> rm_mem (m 0) 2 = 2"
    by (simp add: gather_sample_def two_rank_at flip: numeral_2_eq_2)
qed

end
