(* ===== verification/RingChains.thy ===== *)
theory RingChains
  imports RingShards
begin

text \<open>
  The ring broadcast (\<open>src/device/broadcast.h\<close>, without network offload) and reduce (\<open>src/device/reduce.h\<close>): the data
  goes once along the ring, from the root to the rank before it, or from the rank after the root to the root.
\<close>

section \<open>Programs\<close>

definition broadcast_pass :: "ring_info \<Rightarrow> nat \<Rightarrow> nat \<Rightarrow> nat \<Rightarrow> nat \<Rightarrow> nat \<Rightarrow> nat \<Rightarrow> nat \<Rightarrow> prim_op" where
  "broadcast_pass ring root inputBuf outputBuf gridOffset channelCount chunkCount elemOffset =
     (let rank = ri_userRanks ring ! 0; nextRank = ri_userRanks ring ! 1;
          offset = gridOffset + elemOffset;
          nelem = piece_nelem channelCount chunkCount elemOffset
      in if rank = root then
           if inputBuf = outputBuf then direct_send offset offset nelem else direct_copy_send offset offset nelem False
         else if nextRank = root then direct_recv offset nelem
         else direct_recv_copy_direct_send offset offset nelem)"

definition broadcast_ring :: "ring_info \<Rightarrow> nat \<Rightarrow> nat \<Rightarrow> nat \<Rightarrow> nat \<Rightarrow> nat \<Rightarrow> nat \<Rightarrow> prim_op list" where
  "broadcast_ring ring root inputBuf outputBuf gridOffset channelCount chunkCount =
     map (broadcast_pass ring root inputBuf outputBuf gridOffset channelCount chunkCount) (loop_from 0 channelCount chunkCount)"

definition reduce_ring :: "ring_info \<Rightarrow> nat \<Rightarrow> nat \<Rightarrow> nat \<Rightarrow> nat \<Rightarrow> nat \<Rightarrow> nat \<Rightarrow> prim_op list" where
  "reduce_ring ring nranks rank root gridOffset channelCount chunkCount =
     (let prevRank = ri_userRanks ring ! (nranks - 1);
          offsets = loop_from 0 channelCount chunkCount;
          nelem = piece_nelem channelCount chunkCount
      in if prevRank = root then
           map (\<lambda>elemOffset. prim_send (gridOffset + elemOffset) (nelem elemOffset)) offsets
         else if rank = root then
           map (\<lambda>elemOffset. let offset = gridOffset + elemOffset in prim_recv_reduce_copy offset offset (nelem elemOffset) True) offsets
         else
           map (\<lambda>elemOffset. prim_recv_reduce_send (gridOffset + elemOffset) (nelem elemOffset)) offsets)"

section \<open>Positions on a chain\<close>

definition chain_pos :: "nat \<Rightarrow> nat \<Rightarrow> nat \<Rightarrow> nat" where
  "chain_pos n p i = (i + (n - p)) mod n"

lemma chain_pos:
  assumes "2 \<le> n" and "p < n" and "i < n"
  shows "chain_pos n p i = 0 \<longleftrightarrow> i = p" and "i \<noteq> p \<Longrightarrow> chain_pos n p i = Suc (chain_pos n p (prev_rank n i))"
    and "(p + chain_pos n p i) mod n = i" and "chain_pos n p i < n"
proof -
  have pos: "chain_pos n p i = (if p \<le> i then i - p else i + n - p)" if "i < n" for i
  proof (cases "p \<le> i")
    case True
    then have "i + (n - p) = (i - p) + n" using assms(2) by simp
    then have "chain_pos n p i = (i - p) mod n" unfolding chain_pos_def by (simp only: mod_add_self2)
    then show ?thesis using True that by simp
  next
    case False
    then show ?thesis using assms(2) that by (simp add: chain_pos_def)
  qed
  show "chain_pos n p i = 0 \<longleftrightarrow> i = p" using pos [OF assms(3)] assms(2) by auto
  show "chain_pos n p i < n" using assms(1) by (simp add: chain_pos_def)
  have prev: "prev_rank n i = (if i = 0 then n - 1 else i - 1)"
  proof (cases i)
    case (Suc j)
    then have "i + n - 1 = j + n" by simp
    then have "prev_rank n i = j mod n" unfolding prev_rank_def by (simp only: mod_add_self2)
    then show ?thesis using Suc assms by simp
  qed (use assms in \<open>simp add: prev_rank_def\<close>)
  show "chain_pos n p i = Suc (chain_pos n p (prev_rank n i))" if "i \<noteq> p"
    using pos [OF assms(3)] pos [OF neighbours(1) [OF assms(1,3)]] that assms unfolding prev by auto
  show "(p + chain_pos n p i) mod n = i"
  proof (cases "p \<le> i")
    case False
    then have "p + (i + n - p) = i + n" using assms(2) by simp
    then show ?thesis using pos [OF assms(3)] False assms(3) by (simp only: if_False mod_add_self2 mod_less)
  qed (use pos [OF assms(3)] assms(3) in simp)
qed

lemma chainI:
  assumes "2 \<le> n" and "p < n"
    and "\<And>i k. i < n \<Longrightarrow> k < Q \<Longrightarrow> po_recv (prog i ! k) = (i \<noteq> p) \<and> po_send (prog i ! k) = (next_rank n i \<noteq> p)"
  shows "chain n Q prog (chain_pos n p)"
  using assms(3) chain_pos(1,2) [OF assms(1,2)] neighbours(2) [OF assms(1)] unfolding chain_def by auto

lemma offset_at: "0 < cc \<Longrightarrow> k < rounds count cc \<Longrightarrow> loop_from 0 count cc ! k = k * cc"
  by (simp add: loop_from_0)

lemma length_offsets: "0 < cc \<Longrightarrow> length (loop_from 0 count cc) = rounds count cc"
  by (simp add: loop_from_0)

text \<open>Piece after piece, in place or with the buffers apart, nothing is read that was overwritten.\<close>

lemma pieces_intact:
  assumes "buffers_ok m (grid + count)" and "j < k"
  shows "{rm_sendbuff m + (grid + k * cc) ..< rm_sendbuff m + (grid + k * cc) + piece_size count cc k} \<inter>
    {rm_recvbuff m + (grid + j * cc) ..< rm_recvbuff m + (grid + j * cc) + piece_size count cc j} = {}"
proof (rule equals0I)
  fix b assume "b \<in> {rm_sendbuff m + (grid + k * cc) ..< rm_sendbuff m + (grid + k * cc) + piece_size count cc k} \<inter>
    {rm_recvbuff m + (grid + j * cc) ..< rm_recvbuff m + (grid + j * cc) + piece_size count cc j}"
  then have b: "rm_sendbuff m \<le> b" "b - rm_sendbuff m \<in> piece grid count cc k"
      "rm_recvbuff m \<le> b" "b - rm_recvbuff m \<in> piece grid count cc j"
    unfolding piece_def Int_iff shifted_range by blast+
  have "rm_sendbuff m = rm_recvbuff m"
    using assms(1) b(1,3) in_piece(2) [OF b(2)] in_piece(2) [OF b(4)] unfolding buffers_ok_def by linarith
  then have "k = j" using in_piece(3) [OF b(2)] in_piece(3) [OF b(4)] by simp
  with assms(2) show False by simp
qed

lemma next_rank_eq_iff:
  assumes "is_ring ring" and "length ring = n" and "2 \<le> n" and "i < n" and "p < n"
  shows "ri_userRanks (setup_channel ring (rank_at ring i)) ! 0 = rank_at ring p \<longleftrightarrow> i = p"
    and "ri_userRanks (setup_channel ring (rank_at ring i)) ! 1 = rank_at ring p \<longleftrightarrow> next_rank n i = p"
    and "ri_userRanks (setup_channel ring (rank_at ring i)) ! (n - 1) = rank_at ring p \<longleftrightarrow> prev_rank n i = p"
    and "rank_at ring i = rank_at ring p \<longleftrightarrow> i = p"
proof -
  have user: "ri_userRanks (setup_channel ring (rank_at ring i)) ! j = rank_at ring ((i + j) mod n)" if "j < n" for j
    using rank_at_setup(2) [OF assms(1)] assms(2,4) that by simp
  have inj: "rank_at ring j = rank_at ring p \<longleftrightarrow> j = p" if "j < n" for j
    using rank_at_inj [OF assms(1), of j p] that assms(2,5) by auto
  show "rank_at ring i = rank_at ring p \<longleftrightarrow> i = p" by (rule inj [OF assms(4)])
  show "ri_userRanks (setup_channel ring (rank_at ring i)) ! 0 = rank_at ring p \<longleftrightarrow> i = p"
    using user [of 0] inj [OF assms(4)] assms(4) by simp
  have "1 < n" using assms(3) by simp
  show "ri_userRanks (setup_channel ring (rank_at ring i)) ! 1 = rank_at ring p \<longleftrightarrow> next_rank n i = p"
    unfolding user [OF \<open>1 < n\<close>] using inj [OF neighbours(2) [OF assms(3,4)]] by (simp add: next_rank_def)
  have "n - 1 < n" "i + (n - 1) = i + n - 1" using assms(3) by simp_all
  then show "ri_userRanks (setup_channel ring (rank_at ring i)) ! (n - 1) = rank_at ring p \<longleftrightarrow> prev_rank n i = p"
    using user [of "n - 1"] inj [OF neighbours(1) [OF assms(3,4)]] by (simp add: prev_rank_def)
qed

section \<open>Broadcast\<close>

text \<open>Every rank has room for the result; the root's buffers are the same or apart.\<close>

definition broadcast_buffers_ok :: "nat \<Rightarrow> nat \<Rightarrow> (nat \<Rightarrow> 'a rank_mem) \<Rightarrow> nat \<Rightarrow> bool" where
  "broadcast_buffers_ok n hi mem p \<longleftrightarrow> (\<forall>i < n. hi \<le> rm_recvSize (mem i)) \<and> buffers_ok (mem p) hi"

lemma broadcast_ops:
  fixes sb rb grid chc cc :: nat
  assumes "is_ring ring" and "length ring = n" and "2 \<le> n" and "i < n" and "p < n" and "0 < cc" and "k < rounds chc cc"
  shows "broadcast_ring (setup_channel ring (rank_at ring i)) (rank_at ring p) sb rb grid chc cc ! k =
    (let x = grid + k * cc; l = piece_nelem chc cc (k * cc)
     in if i = p then if sb = rb then direct_send x x l else direct_copy_send x x l False
        else if next_rank n i = p then direct_recv x l else direct_recv_copy_direct_send x x l)"
  using assms(6,7) unfolding broadcast_ring_def Let_def
  by (simp add: Let_def length_offsets offset_at broadcast_pass_def next_rank_eq_iff [OF assms(1-5), unfolded One_nat_def])

lemma broadcast_dst:
  fixes grid chc cc :: nat and m :: "'a rank_mem"
  assumes "is_ring ring" and "length ring = n" and "2 \<le> n" and "i < n" and "p < n" and "0 < cc" and "cc < 2 ^ 31"
    and "k < rounds chc cc"
  defines "P \<equiv> broadcast_ring (setup_channel ring (rank_at ring i)) (rank_at ring p) (rm_sendbuff m) (rm_recvbuff m) grid chc cc ! k"
  shows "dst_range m P = (if i = p \<and> rm_sendbuff m = rm_recvbuff m then {}
      else {rm_recvbuff m + (grid + k * cc) ..< rm_recvbuff m + (grid + k * cc) + piece_size chc cc k})"
    and "src_range m P = (if i = p then {rm_sendbuff m + (grid + k * cc) ..< rm_sendbuff m + (grid + k * cc) + piece_size chc cc k} else {})"
    and "po_nelem P = piece_size chc cc k" and "po_recv P = (i \<noteq> p)" and "po_send P = (next_rank n i \<noteq> p)"
    and "po_dst P = (if i = p \<and> rm_sendbuff m = rm_recvbuff m then None else Some (OutputBuf, grid + k * cc))"
    and "po_src P = (if i = p then Some (InputBuf, grid + k * cc) else None)" and "\<not> po_postOp P"
proof -
  note op = broadcast_ops [OF assms(1-6,8), of "rm_sendbuff m" "rm_recvbuff m" grid, unfolded Let_def, folded P_def]
  note size = piece_nelem_eq [OF assms(7,6,8)]
  show n: "po_nelem P = piece_size chc cc k" using size op by (simp add: prim_defs split: if_splits)
  show "po_recv P = (i \<noteq> p)" using op by (simp add: prim_defs)
  have "next_rank n p \<noteq> p" using neighbours(4) [OF assms(3,5)] .
  then show "po_send P = (next_rank n i \<noteq> p)" using op by (auto simp: prim_defs)
  show d: "po_dst P = (if i = p \<and> rm_sendbuff m = rm_recvbuff m then None else Some (OutputBuf, grid + k * cc))"
    using op by (simp add: prim_defs)
  show s: "po_src P = (if i = p then Some (InputBuf, grid + k * cc) else None)" using op by (simp add: prim_defs)
  show "\<not> po_postOp P" using op by (simp add: prim_defs)
  show "dst_range m P = (if i = p \<and> rm_sendbuff m = rm_recvbuff m then {}
      else {rm_recvbuff m + (grid + k * cc) ..< rm_recvbuff m + (grid + k * cc) + piece_size chc cc k})"
    unfolding dst_range_def d n by (auto simp: user_buf_def)
  show "src_range m P = (if i = p then {rm_sendbuff m + (grid + k * cc) ..< rm_sendbuff m + (grid + k * cc) + piece_size chc cc k} else {})"
    unfolding src_range_def s n by (auto simp: user_buf_def)
qed

lemma mem_if_empty: "b \<in> (if c then {} else S) \<longleftrightarrow> \<not> c \<and> b \<in> S"
  by simp

lemma piece_end: "piece_size count cc k = 0 \<or> grid + k * cc + piece_size count cc k \<le> grid + count"
  unfolding piece_size_def by linarith

lemma broadcast_outline:
  fixes grid chc cc :: nat and op :: "'a red_op" and mem :: "nat \<Rightarrow> 'a rank_mem"
  assumes "is_ring ring" and "length ring = n" and "2 \<le> n" and "p < n" and "0 < cc" and "cc < 2 ^ 31"
    and "broadcast_buffers_ok n (grid + chc) mem p"
  defines "prog \<equiv> \<lambda>i. broadcast_ring (setup_channel ring (rank_at ring i)) (rank_at ring p) (rm_sendbuff (mem i)) (rm_recvbuff (mem i)) grid chc cc"
  defines "V \<equiv> \<lambda>i k e. contribution op mem (grid + k * cc + e) p"
  shows "chain n (rounds chc cc) prog (chain_pos n p)"
    and "outline op n (rounds chc cc) prog mem (element_data prog V)"
proof -
  have f: "dst_range (mem i) (prog i ! k) = (if i = p \<and> rm_sendbuff (mem i) = rm_recvbuff (mem i) then {}
      else {rm_recvbuff (mem i) + (grid + k * cc) ..< rm_recvbuff (mem i) + (grid + k * cc) + piece_size chc cc k})"
    "src_range (mem i) (prog i ! k) =
      (if i = p then {rm_sendbuff (mem i) + (grid + k * cc) ..< rm_sendbuff (mem i) + (grid + k * cc) + piece_size chc cc k} else {})"
    "po_nelem (prog i ! k) = piece_size chc cc k" "po_recv (prog i ! k) = (i \<noteq> p)" "po_send (prog i ! k) = (next_rank n i \<noteq> p)"
    "po_dst (prog i ! k) = (if i = p \<and> rm_sendbuff (mem i) = rm_recvbuff (mem i) then None else Some (OutputBuf, grid + k * cc))"
    "po_src (prog i ! k) = (if i = p then Some (InputBuf, grid + k * cc) else None)" "\<not> po_postOp (prog i ! k)"
    if "i < n" "k < rounds chc cc" for i k
    unfolding prog_def by (rule broadcast_dst [OF assms(1-3) that(1) assms(4-6) that(2)])+
  show chain: "chain n (rounds chc cc) prog (chain_pos n p)"
    by (rule chainI [OF assms(3,4)]) (simp add: f)
  show "outline op n (rounds chc cc) prog mem (element_data prog V)"
  proof (rule outline_from_elements)
    show "length (prog i) = rounds chc cc" if "i < n" for i
      using assms(5) by (simp add: prog_def broadcast_ring_def length_offsets)
  next
    fix i k assume i: "i < n" and k: "k < rounds chc cc"
    have "grid + chc \<le> rm_recvSize (mem i)" "i = p \<Longrightarrow> grid + chc \<le> rm_sendSize (mem i)"
      using assms(7) i by (auto simp: broadcast_buffers_ok_def buffers_ok_def)
    with piece_end [of chc cc k grid]
    have "piece_size chc cc k = 0 \<or> grid + k * cc + piece_size chc cc k \<le> rm_recvSize (mem i) \<and>
        (i = p \<longrightarrow> grid + k * cc + piece_size chc cc k \<le> rm_sendSize (mem i))" by linarith
    then show "op_in_buffers (mem i) (prog i ! k)"
      unfolding op_in_buffers_def in_buffer_def f(3,4,6,7) [OF i k] by auto
  next
    fix i k assume i: "i < n" and k: "k < rounds chc cc" and "po_recv (prog i ! k)"
    then have "chain_pos n p i \<noteq> 0" using chain_pos(1) [OF assms(3,4) i] f(4) [OF i k] by simp
    then have "peer_data n (rounds chc cc) prog (element_data prog V) i k = element_data prog V (prev_rank n i) k"
      using chain_peer_data [OF assms(3) chain i k] by simp
    then show "peer_data n (rounds chc cc) prog (element_data prog V) i k = map (V i k) [0..<po_nelem (prog i ! k)]"
      using f(3) [OF i k] f(3) [OF neighbours(1) [OF assms(3) i] k] by (simp add: element_data_def V_def)
  next
    fix i k e assume i: "i < n" and k: "k < rounds chc cc"
    show "V i k e = op_element op (prog i ! k) (mem i) (V i k) e"
      unfolding op_element_def f(4,7) [OF i k] using f(8) [OF i k] by (simp add: V_def load_src_def contribution_def user_buf_def)
  next
    fix i k j assume i: "i < n" and k: "k < rounds chc cc" and jk: "j < k"
    then have j: "j < rounds chc cc" by simp
    have "buffers_ok (mem p) (grid + chc)" using assms(7) by (simp add: broadcast_buffers_ok_def)
    note inter = pieces_intact [OF this jk, of cc]
    show "src_range (mem i) (prog i ! k) \<inter> dst_range (mem i) (prog i ! j) = {}"
    proof (cases "i = p \<and> rm_sendbuff (mem i) \<noteq> rm_recvbuff (mem i)")
      case True
      then have ip: "i = p" and apart: "rm_sendbuff (mem p) \<noteq> rm_recvbuff (mem p)" by auto
      show ?thesis unfolding f(1) [OF i j] f(2) [OF i k] unfolding ip using apart inter by (simp only: simp_thms if_True if_False)
    next
      case False
      then have "src_range (mem i) (prog i ! k) = {} \<or> dst_range (mem i) (prog i ! j) = {}"
        unfolding f(1) [OF i j] f(2) [OF i k] by auto
      then show ?thesis by blast
    qed
  qed
qed

lemma broadcast_memory:
  fixes grid chc cc :: nat and op :: "'a red_op" and mem :: "nat \<Rightarrow> 'a rank_mem"
  assumes "is_ring ring" and "length ring = n" and "2 \<le> n" and "p < n" and "0 < cc" and "cc < 2 ^ 31" and "i < n" and "ro_pre op = (\<lambda>x. x)"
  defines "prog \<equiv> \<lambda>i. broadcast_ring (setup_channel ring (rank_at ring i)) (rank_at ring p) (rm_sendbuff (mem i)) (rm_recvbuff (mem i)) grid chc cc"
  defines "V \<equiv> \<lambda>i k e. contribution op mem (grid + k * cc + e) p"
  shows "rm_mem (stored (mem i) (prog i) (element_data prog V i) (rounds chc cc)) b =
    (if b \<in> recv_range (mem i) grid chc then rm_mem (mem p) (rm_sendbuff (mem p) + (b - rm_recvbuff (mem i))) else rm_mem (mem i) b)"
proof -
  note f = broadcast_dst [OF assms(1-3,7,4-6), of _ chc "mem i" grid]
  have dst: "b \<in> dst_range (mem i) (prog i ! k) \<longleftrightarrow> \<not> (i = p \<and> rm_sendbuff (mem i) = rm_recvbuff (mem i)) \<and>
      rm_recvbuff (mem i) \<le> b \<and> b - rm_recvbuff (mem i) \<in> piece grid chc cc k" if "k < rounds chc cc" for k
  proof -
    have "b \<in> dst_range (mem i) (prog i ! k) \<longleftrightarrow> \<not> (i = p \<and> rm_sendbuff (mem i) = rm_recvbuff (mem i)) \<and>
        b \<in> {rm_recvbuff (mem i) + (grid + k * cc) ..< rm_recvbuff (mem i) + (grid + k * cc) + piece_size chc cc k}"
      unfolding prog_def f(1) [OF that] by (rule mem_if_empty)
    then show ?thesis unfolding piece_def shifted_range .
  qed
  let ?a = "b - rm_recvbuff (mem i)"
  show ?thesis
  proof (cases "b \<in> recv_range (mem i) grid chc \<and> \<not> (i = p \<and> rm_sendbuff (mem i) = rm_recvbuff (mem i))")
    case True
    then have a: "grid \<le> ?a" "?a < grid + chc" "rm_recvbuff (mem i) \<le> b" by (auto simp: recv_range_def)
    note q = piece_cover [OF assms(5) a(1,2)]
    have "rm_mem (stored (mem i) (prog i) (element_data prog V i) (rounds chc cc)) b = rm_mem (mem p) (rm_sendbuff (mem p) + ?a)"
    proof (rule element_written [OF q(1)])
      show "b \<in> dst_range (mem i) (prog i ! ((?a - grid) div cc))" using dst [OF q(1)] True a(3) q(2) by blast
      fix k buf ix assume k: "k < rounds chc cc" "po_dst (prog i ! k) = Some (buf, ix)" "b \<in> dst_range (mem i) (prog i ! k)"
      then have "user_buf (mem i) buf + ix = rm_recvbuff (mem i) + (grid + k * cc)"
        using f(6) [OF k(1)] by (auto simp: prog_def user_buf_def split: if_splits)
      moreover have "?a \<in> piece grid chc cc k" using dst [OF k(1)] k(3) by blast
      ultimately have "grid + k * cc + (b - (user_buf (mem i) buf + ix)) = ?a"
        unfolding piece_def atLeastLessThan_iff by linarith
      then show "V i k (b - (user_buf (mem i) buf + ix)) = rm_mem (mem p) (rm_sendbuff (mem p) + ?a)"
        by (simp add: V_def contribution_def assms(8))
    qed
    with True show ?thesis by simp
  next
    case False
    have "b \<notin> dst_range (mem i) (prog i ! k)" if k: "k < rounds chc cc" for k
    proof
      assume "b \<in> dst_range (mem i) (prog i ! k)"
      then have "\<not> (i = p \<and> rm_sendbuff (mem i) = rm_recvbuff (mem i))" "rm_recvbuff (mem i) \<le> b" "grid \<le> ?a" "?a < grid + chc"
        using dst [OF k] in_piece by blast+
      with False show False unfolding recv_range_def atLeastLessThan_iff by linarith
    qed
    then have "rm_mem (stored (mem i) (prog i) (element_data prog V i) (rounds chc cc)) b = rm_mem (mem i) b" by (rule element_kept)
    with False show ?thesis by (auto simp: recv_range_def)
  qed
qed

text \<open>C8. However the ranks are scheduled, the ring broadcast ends, and every rank then has the root's data in the channel's part
  of its receive buffer, all else unchanged.\<close>
theorem broadcast_completes:
  assumes "is_ring ring" and "length ring = n" and "2 \<le> n" and "p < n" and "0 < cc" and "cc < 2 ^ 31"
    and "broadcast_buffers_ok n (grid + chc) mem p" and "ro_pre op = (\<lambda>x. x)"
  shows "inevitably op n
    (\<lambda>m. \<forall>i < n. \<forall>b. rm_mem (m i) b =
      (if b \<in> recv_range (mem i) grid chc then rm_mem (mem p) (rm_sendbuff (mem p) + (b - rm_recvbuff (mem i)))
       else rm_mem (mem i) b))
    (ring_start mem (\<lambda>i. broadcast_ring (setup_channel ring (rank_at ring i)) (rank_at ring p)
      (rm_sendbuff (mem i)) (rm_recvbuff (mem i)) grid chc cc))"
proof -
  note outline = broadcast_outline [OF assms(1-7)]
  note mem = broadcast_memory [OF assms(1-6) _ assms(8)]
  show ?thesis
    by (rule outline_inevitably [OF assms(3) outline(2) chain_timely [OF assms(3) outline(1)]]) (simp add: mem)
qed

section \<open>Reduce\<close>

definition reduce_buffers_ok :: "nat \<Rightarrow> nat \<Rightarrow> (nat \<Rightarrow> 'a rank_mem) \<Rightarrow> nat \<Rightarrow> bool" where
  "reduce_buffers_ok n hi mem p \<longleftrightarrow> (\<forall>i < n. hi \<le> rm_sendSize (mem i)) \<and> buffers_ok (mem p) hi"

lemma reduce_ops:
  fixes grid chc cc :: nat and m :: "'a rank_mem"
  assumes "is_ring ring" and "length ring = n" and "2 \<le> n" and "i < n" and "p < n" and "0 < cc" and "cc < 2 ^ 31"
    and "k < rounds chc cc"
  defines "P \<equiv> reduce_ring (setup_channel ring (rank_at ring i)) n (rank_at ring i) (rank_at ring p) grid chc cc ! k"
  shows "po_recv P = (i \<noteq> next_rank n p)" and "po_send P = (i \<noteq> p)"
    and "po_src P = Some (InputBuf, grid + k * cc)" and "po_dst P = (if i = p then Some (OutputBuf, grid + k * cc) else None)"
    and "po_nelem P = piece_size chc cc k" and "po_postOp P = (i = p)"
    and "dst_range m P = (if i = p then {rm_recvbuff m + (grid + k * cc) ..< rm_recvbuff m + (grid + k * cc) + piece_size chc cc k} else {})"
    and "src_range m P = {rm_sendbuff m + (grid + k * cc) ..< rm_sendbuff m + (grid + k * cc) + piece_size chc cc k}"
proof -
  have prev: "prev_rank n i = p \<longleftrightarrow> i = next_rank n p"
    using neighbours(5) [OF assms(3,4)] neighbours(6) [OF assms(3,5)] by metis
  have ne: "next_rank n p \<noteq> p" by (rule neighbours(4) [OF assms(3,5)])
  have op: "P = (let x = grid + k * cc; l = piece_nelem chc cc (k * cc)
      in if i = next_rank n p then prim_send x l
         else if i = p then prim_recv_reduce_copy x x l True else prim_recv_reduce_send x l)"
    unfolding P_def reduce_ring_def Let_def next_rank_eq_iff(3,4) [OF assms(1-5)] prev
    using assms(6,8) by (simp add: length_offsets offset_at)
  note size = piece_nelem_eq [OF assms(7,6,8)]
  show n: "po_nelem P = piece_size chc cc k" using size op by (simp add: prim_defs Let_def split: if_splits)
  show "po_recv P = (i \<noteq> next_rank n p)" "po_send P = (i \<noteq> p)" "po_postOp P = (i = p)"
    using op ne by (auto simp: prim_defs Let_def)
  show s: "po_src P = Some (InputBuf, grid + k * cc)" using op by (simp add: prim_defs Let_def)
  show d: "po_dst P = (if i = p then Some (OutputBuf, grid + k * cc) else None)" using op ne by (auto simp: prim_defs Let_def)
  show "dst_range m P = (if i = p then {rm_recvbuff m + (grid + k * cc) ..< rm_recvbuff m + (grid + k * cc) + piece_size chc cc k} else {})"
    unfolding dst_range_def d n by (simp add: user_buf_def)
  show "src_range m P = {rm_sendbuff m + (grid + k * cc) ..< rm_sendbuff m + (grid + k * cc) + piece_size chc cc k}"
    unfolding src_range_def s n by (simp add: user_buf_def)
qed

text \<open>What rank \<open>i\<close> passes on of element \<open>a\<close>.\<close>

definition reduce_value :: "'a red_op \<Rightarrow> nat \<Rightarrow> (nat \<Rightarrow> 'a rank_mem) \<Rightarrow> nat \<Rightarrow> nat \<Rightarrow> nat \<Rightarrow> 'a" where
  "reduce_value op n mem p i a =
     (let x = ring_fold (ro_reduce op) n (contribution op mem a) p (chain_pos n (next_rank n p) i)
      in if i = p then ro_post op x else x)"

lemma reduce_value_step:
  assumes "2 \<le> n" and "p < n" and "i < n"
  shows "i = next_rank n p \<Longrightarrow> reduce_value op n mem p i a = contribution op mem a i"
    and "i \<noteq> next_rank n p \<Longrightarrow> reduce_value op n mem p i a =
      (let x = ro_reduce op (reduce_value op n mem p (prev_rank n i) a) (contribution op mem a i) in if i = p then ro_post op x else x)"
    and "chain_pos n (next_rank n p) p = n - 1"
proof -
  note s = neighbours(2) [OF assms(1,2)]
  note pos = chain_pos [OF assms(1) s]
  show "reduce_value op n mem p i a = contribution op mem a i" if "i = next_rank n p"
    using that pos(1) [OF s] neighbours(4) [OF assms(1,2)] by (simp add: reduce_value_def next_rank_def)
  show "reduce_value op n mem p i a =
      (let x = ro_reduce op (reduce_value op n mem p (prev_rank n i) a) (contribution op mem a i) in if i = p then ro_post op x else x)"
    if "i \<noteq> next_rank n p"
  proof -
    note step = pos(2) [OF assms(3) that]
    have "prev_rank n i \<noteq> p" using that neighbours(5) [OF assms(1,3)] by auto
    then have prev: "reduce_value op n mem p (prev_rank n i) a =
        ring_fold (ro_reduce op) n (contribution op mem a) p (chain_pos n (next_rank n p) (prev_rank n i))"
      by (simp add: reduce_value_def)
    have "(p + 1 + Suc (chain_pos n (next_rank n p) (prev_rank n i))) mod n = i"
      using pos(3) [OF assms(3)] unfolding step unfolding next_rank_def by (simp only: mod_add_left_eq)
    then have fold: "ring_fold (ro_reduce op) n (contribution op mem a) p (chain_pos n (next_rank n p) i) =
        ro_reduce op (reduce_value op n mem p (prev_rank n i) a) (contribution op mem a i)"
      unfolding step prev by simp
    show ?thesis unfolding reduce_value_def [of op n mem p i a] fold ..
  qed
  have "next_rank n p = (if p = n - 1 then 0 else p + 1)" using assms(1,2) by (auto simp: next_rank_def)
  moreover have "p + (n - (p + 1)) = n - 1" using assms(2) by simp
  moreover have "(n - 1 + n) mod n = n - 1" unfolding mod_add_self2 using assms(1) by simp
  ultimately show "chain_pos n (next_rank n p) p = n - 1"
    using assms(1,2) unfolding chain_pos_def by (cases "p = n - 1") (simp_all only: simp_thms if_True if_False diff_zero mod_add_self2)
qed

lemma reduce_outline:
  fixes grid chc cc :: nat and op :: "'a red_op" and mem :: "nat \<Rightarrow> 'a rank_mem"
  assumes "is_ring ring" and "length ring = n" and "2 \<le> n" and "p < n" and "0 < cc" and "cc < 2 ^ 31"
    and "reduce_buffers_ok n (grid + chc) mem p"
  defines "prog \<equiv> \<lambda>i. reduce_ring (setup_channel ring (rank_at ring i)) n (rank_at ring i) (rank_at ring p) grid chc cc"
  defines "V \<equiv> \<lambda>i k e. reduce_value op n mem p i (grid + k * cc + e)"
  shows "chain n (rounds chc cc) prog (chain_pos n (next_rank n p))"
    and "outline op n (rounds chc cc) prog mem (element_data prog V)"
proof -
  have f: "po_recv (prog i ! k) = (i \<noteq> next_rank n p)" "po_send (prog i ! k) = (i \<noteq> p)"
    "po_src (prog i ! k) = Some (InputBuf, grid + k * cc)" "po_dst (prog i ! k) = (if i = p then Some (OutputBuf, grid + k * cc) else None)"
    "po_nelem (prog i ! k) = piece_size chc cc k" "po_postOp (prog i ! k) = (i = p)"
    "dst_range (mem i) (prog i ! k) =
      (if i = p then {rm_recvbuff (mem i) + (grid + k * cc) ..< rm_recvbuff (mem i) + (grid + k * cc) + piece_size chc cc k} else {})"
    "src_range (mem i) (prog i ! k) = {rm_sendbuff (mem i) + (grid + k * cc) ..< rm_sendbuff (mem i) + (grid + k * cc) + piece_size chc cc k}"
    if "i < n" "k < rounds chc cc" for i k
    unfolding prog_def by (rule reduce_ops [OF assms(1-3) that(1) assms(4-6) that(2)])+
  note s = neighbours(2) [OF assms(3,4)]
  show chain: "chain n (rounds chc cc) prog (chain_pos n (next_rank n p))"
  proof (rule chainI [OF assms(3) s])
    fix i k assume i: "i < n" and k: "k < rounds chc cc"
    have "next_rank n i \<noteq> next_rank n p \<longleftrightarrow> i \<noteq> p" using neighbours(6) [OF assms(3)] i assms(4) by metis
    then show "po_recv (prog i ! k) = (i \<noteq> next_rank n p) \<and> po_send (prog i ! k) = (next_rank n i \<noteq> next_rank n p)"
      using f(1,2) [OF i k] by blast
  qed
  show "outline op n (rounds chc cc) prog mem (element_data prog V)"
  proof (rule outline_from_elements)
    show "length (prog i) = rounds chc cc" if "i < n" for i
      using assms(5) by (simp add: prog_def reduce_ring_def Let_def length_offsets)
  next
    fix i k assume i: "i < n" and k: "k < rounds chc cc"
    have "grid + chc \<le> rm_sendSize (mem i)" "i = p \<Longrightarrow> grid + chc \<le> rm_recvSize (mem i)"
      using assms(7) i by (auto simp: reduce_buffers_ok_def buffers_ok_def)
    with piece_end [of chc cc k grid]
    have "piece_size chc cc k = 0 \<or> grid + k * cc + piece_size chc cc k \<le> rm_sendSize (mem i) \<and>
        (i = p \<longrightarrow> grid + k * cc + piece_size chc cc k \<le> rm_recvSize (mem i))" by linarith
    then show "op_in_buffers (mem i) (prog i ! k)"
      unfolding op_in_buffers_def in_buffer_def f(1,3-5) [OF i k] by auto
  next
    fix i k assume i: "i < n" and k: "k < rounds chc cc" and "po_recv (prog i ! k)"
    then have "chain_pos n (next_rank n p) i \<noteq> 0" using chain_pos(1) [OF assms(3) s i] f(1) [OF i k] by simp
    then have "peer_data n (rounds chc cc) prog (element_data prog V) i k = element_data prog V (prev_rank n i) k"
      using chain_peer_data [OF assms(3) chain i k] by simp
    then show "peer_data n (rounds chc cc) prog (element_data prog V) i k = map (V (prev_rank n i) k) [0..<po_nelem (prog i ! k)]"
      using f(5) [OF i k] f(5) [OF neighbours(1) [OF assms(3) i] k] by (simp add: element_data_def)
  next
    fix i k e assume i: "i < n" and k: "k < rounds chc cc"
    have load: "load_src op (mem i) InputBuf (grid + k * cc + e) = contribution op mem (grid + k * cc + e) i"
      by (simp add: load_src_def contribution_def user_buf_def)
    have "next_rank n p \<noteq> p" by (rule neighbours(4) [OF assms(3,4)])
    then show "V i k e = op_element op (prog i ! k) (mem i) (V (prev_rank n i) k) e"
      unfolding op_element_def f(1,3,6) [OF i k] V_def
      using reduce_value_step(1,2) [OF assms(3,4) i, of op mem "grid + k * cc + e"] load by (cases "i = next_rank n p") (simp_all add: Let_def)
  next
    fix i k j assume i: "i < n" and k: "k < rounds chc cc" and jk: "j < k"
    then have j: "j < rounds chc cc" by simp
    have "buffers_ok (mem p) (grid + chc)" using assms(7) by (simp add: reduce_buffers_ok_def)
    note inter = pieces_intact [OF this jk, of cc]
    show "src_range (mem i) (prog i ! k) \<inter> dst_range (mem i) (prog i ! j) = {}"
    proof (cases "i = p")
      case True
      show ?thesis unfolding f(7) [OF i j] f(8) [OF i k] unfolding True using inter by (simp only: simp_thms if_True)
    next
      case False
      then show ?thesis unfolding f(7) [OF i j] by simp
    qed
  qed
qed

lemma reduce_memory:
  fixes grid chc cc :: nat and op :: "'a red_op" and mem :: "nat \<Rightarrow> 'a rank_mem"
  assumes "is_ring ring" and "length ring = n" and "2 \<le> n" and "p < n" and "0 < cc" and "cc < 2 ^ 31" and "i < n"
  defines "prog \<equiv> \<lambda>i. reduce_ring (setup_channel ring (rank_at ring i)) n (rank_at ring i) (rank_at ring p) grid chc cc"
  defines "V \<equiv> \<lambda>i k e. reduce_value op n mem p i (grid + k * cc + e)"
  shows "rm_mem (stored (mem i) (prog i) (element_data prog V i) (rounds chc cc)) b =
    (if i = p \<and> b \<in> recv_range (mem i) grid chc
     then ro_post op (ring_fold (ro_reduce op) n (contribution op mem (b - rm_recvbuff (mem i))) p (n - 1))
     else rm_mem (mem i) b)"
proof -
  let ?a = "b - rm_recvbuff (mem i)"
  have dst: "b \<in> dst_range (mem i) (prog i ! k) \<longleftrightarrow> i = p \<and> rm_recvbuff (mem i) \<le> b \<and> ?a \<in> piece grid chc cc k"
    if "k < rounds chc cc" for k
  proof -
    have "b \<in> dst_range (mem i) (prog i ! k) \<longleftrightarrow> i = p \<and>
        b \<in> {rm_recvbuff (mem i) + (grid + k * cc) ..< rm_recvbuff (mem i) + (grid + k * cc) + piece_size chc cc k}"
      unfolding prog_def reduce_ops(7) [OF assms(1-3,7,4-6) that] by simp
    then show ?thesis unfolding piece_def shifted_range .
  qed
  show ?thesis
  proof (cases "i = p \<and> b \<in> recv_range (mem i) grid chc")
    case True
    then have a: "grid \<le> ?a" "?a < grid + chc" "rm_recvbuff (mem i) \<le> b" by (auto simp: recv_range_def)
    note q = piece_cover [OF assms(5) a(1,2)]
    have "rm_mem (stored (mem i) (prog i) (element_data prog V i) (rounds chc cc)) b =
        ro_post op (ring_fold (ro_reduce op) n (contribution op mem ?a) p (n - 1))"
    proof (rule element_written [OF q(1)])
      show "b \<in> dst_range (mem i) (prog i ! ((?a - grid) div cc))" using dst [OF q(1)] True a(3) q(2) by blast
      fix k buf ix assume k: "k < rounds chc cc" "po_dst (prog i ! k) = Some (buf, ix)" "b \<in> dst_range (mem i) (prog i ! k)"
      then have "user_buf (mem i) buf + ix = rm_recvbuff (mem i) + (grid + k * cc)"
        using reduce_ops(4) [OF assms(1-3,7,4-6) k(1)] by (auto simp: prog_def user_buf_def split: if_splits)
      moreover have "?a \<in> piece grid chc cc k" using dst [OF k(1)] k(3) by blast
      ultimately have "grid + k * cc + (b - (user_buf (mem i) buf + ix)) = ?a"
        unfolding piece_def atLeastLessThan_iff by linarith
      then show "V i k (b - (user_buf (mem i) buf + ix)) = ro_post op (ring_fold (ro_reduce op) n (contribution op mem ?a) p (n - 1))"
        using True by (simp add: V_def reduce_value_def reduce_value_step(3) [OF assms(3,4,7)])
    qed
    then show ?thesis unfolding if_P [OF True] .
  next
    case False
    have "b \<notin> dst_range (mem i) (prog i ! k)" if k: "k < rounds chc cc" for k
    proof
      assume "b \<in> dst_range (mem i) (prog i ! k)"
      then have "i = p" "rm_recvbuff (mem i) \<le> b" "grid \<le> ?a" "?a < grid + chc" using dst [OF k] in_piece by blast+
      with False show False unfolding recv_range_def atLeastLessThan_iff by linarith
    qed
    then have "rm_mem (stored (mem i) (prog i) (element_data prog V i) (rounds chc cc)) b = rm_mem (mem i) b" by (rule element_kept)
    with False show ?thesis by (simp only: if_False)
  qed
qed

text \<open>C9. However the ranks are scheduled, the ring reduce ends, and the root then has the reduction of all contributions in the
  channel's part of its receive buffer; no other memory of any rank changes.\<close>
theorem reduce_completes:
  assumes "is_ring ring" and "length ring = n" and "2 \<le> n" and "p < n" and "0 < cc" and "cc < 2 ^ 31"
    and "reduce_buffers_ok n (grid + chc) mem p"
  shows "inevitably op n
    (\<lambda>m. \<forall>i < n. \<forall>b. rm_mem (m i) b =
      (if i = p \<and> b \<in> recv_range (mem i) grid chc
       then ro_post op (ring_fold (ro_reduce op) n (contribution op mem (b - rm_recvbuff (mem i))) p (n - 1))
       else rm_mem (mem i) b))
    (ring_start mem (\<lambda>i. reduce_ring (setup_channel ring (rank_at ring i)) n (rank_at ring i) (rank_at ring p) grid chc cc))"
proof -
  note outline = reduce_outline [OF assms]
  note mem = reduce_memory [OF assms(1-6)]
  show ?thesis
    by (rule outline_inevitably [OF assms(3) outline(2) chain_timely [OF assms(3) outline(1)]]) (simp add: mem del: One_nat_def)
qed

section \<open>Two ranks\<close>

lemma chain_samples:
  "is_ring [1, 0]" "length [1, 0] = (2 :: nat)" "(2 :: nat) \<le> 2" "(1 :: nat) < 2" "(0 :: nat) < 2" "(2 :: nat) < 2 ^ 31"
  "broadcast_buffers_ok 2 (0 + 5) sample_mem 1" "reduce_buffers_ok 2 (0 + 5) sample_mem 1"
  by (auto simp: is_ring_def broadcast_buffers_ok_def reduce_buffers_ok_def buffers_ok_def sample_mem_def)

lemma broadcast_completes_witness:
  "inevitably sum_op 2 (\<lambda>m. rm_mem (m 0) 14 = 104 \<and> rm_mem (m 1) 4 = 104 \<and> rm_mem (m 0) 4 = 4)
    (ring_start sample_mem (\<lambda>i. broadcast_ring (setup_channel [1, 0] (rank_at [1, 0] i)) (rank_at [1, 0] 1)
      (rm_sendbuff (sample_mem i)) (rm_recvbuff (sample_mem i)) 0 5 2))"
proof (rule inevitably_mono [OF broadcast_completes [OF chain_samples(1-7), of sum_op]])
  show "ro_pre sum_op = (\<lambda>x. x)" by (simp add: sum_op_def)
  fix m assume m: "\<forall>i < 2. \<forall>b. rm_mem (m i) b =
      (if b \<in> recv_range (sample_mem i) 0 5 then rm_mem (sample_mem 1) (rm_sendbuff (sample_mem 1) + (b - rm_recvbuff (sample_mem i)))
       else rm_mem (sample_mem i) b)"
  from m [rule_format, of 0 14] m [rule_format, of 1 4] m [rule_format, of 0 4]
  show "rm_mem (m 0) 14 = 104 \<and> rm_mem (m 1) 4 = 104 \<and> rm_mem (m 0) 4 = 4" by (simp add: recv_range_def sample_mem_def)
qed

lemma reduce_completes_witness:
  "inevitably sum_op 2 (\<lambda>m. rm_mem (m 1) 4 = 108 \<and> rm_mem (m 0) 14 = 0)
    (ring_start sample_mem (\<lambda>i. reduce_ring (setup_channel [1, 0] (rank_at [1, 0] i)) 2 (rank_at [1, 0] i) (rank_at [1, 0] 1) 0 5 2))"
proof (rule inevitably_mono [OF reduce_completes [OF chain_samples(1-6,8), of sum_op]])
  fix m assume m: "\<forall>i < 2. \<forall>b. rm_mem (m i) b =
      (if i = 1 \<and> b \<in> recv_range (sample_mem i) 0 5
       then ro_post sum_op (ring_fold (ro_reduce sum_op) 2 (contribution sum_op sample_mem (b - rm_recvbuff (sample_mem i))) 1 (2 - 1))
       else rm_mem (sample_mem i) b)"
  from m [rule_format, of 1 4] m [rule_format, of 0 14]
  show "rm_mem (m 1) 4 = 108 \<and> rm_mem (m 0) 14 = 0" by (simp add: recv_range_def sample_mem_def sum_op_def contribution_def)
qed

end
