(* ===== verification/RingProxy.thy ===== *)
theory RingProxy
  imports RingAllReduce "HOL-Library.Signed_Division"
begin

text \<open>
  The ring algorithms of the proxy (\<open>src/include/collectives.h\<close>): where a proxy thread finds the data of a step of a
  registered-buffer ring collective.  Sizes and addresses are bytes; \<open>ssize_t\<close> arithmetic is on integers, with the
  truncating division of C.  The reference count is left out.

  The lemmas show that the two ends of a connection agree on every step, that a rank forwards what it received, and that
  the slices of a step tile the chunk the device program handles in the same turn.
\<close>

section \<open>Common parts\<close>

record ring_algo =
  ra_nRanks :: nat
  ra_nStepsPerLoop :: nat
  ra_chunkSteps :: nat
  ra_sliceSteps :: nat
  ra_sliceSize :: int
  ra_loopSize :: int
  ra_channelSize :: int
  ra_sendbuff :: int
  ra_recvbuff :: int
  ra_sendMhandle :: nat
  ra_recvMhandle :: nat
  ra_srecvMhandle :: nat

definition s_div_up :: "int \<Rightarrow> int \<Rightarrow> int" where
  "s_div_up x y = (x + y - 1) sdiv y"

definition s_align_up :: "int \<Rightarrow> int \<Rightarrow> int" where
  "s_align_up x a = (x + a - 1) AND (- a)"

definition slice_size :: "int \<Rightarrow> int \<Rightarrow> int \<Rightarrow> int \<Rightarrow> int" where
  "slice_size nelem elemSize slicePerChunk sliceSize =
     max (s_div_up (nelem sdiv elemSize) (16 * slicePerChunk) * 16) ((sliceSize sdiv elemSize) sdiv 32) * elemSize"

definition cut_size :: "int \<Rightarrow> int" where
  "cut_size sz = (if sz < 0 then 0 else sz)"

section \<open>All-reduce\<close>

record ring_ar = ring_algo +
  ar_ringIndex :: nat
  ar_elemSize :: int
  ar_chunkSize :: int
  ar_slicePerChunk :: int

definition make_ring_ar :: "int \<Rightarrow> int \<Rightarrow> nat \<Rightarrow> nat \<Rightarrow> nat \<Rightarrow> nat \<Rightarrow> int \<Rightarrow> int \<Rightarrow> int \<Rightarrow> int \<Rightarrow> int \<Rightarrow> nat \<Rightarrow> nat \<Rightarrow> nat \<Rightarrow> ring_ar" where
  "make_ring_ar sendbuff recvbuff nRanks ringIndex chunkSteps sliceSteps chunkSize sliceSize gridOffset channelSize elemSize
      sendMhandle recvMhandle srecvMhandle =
     \<lparr>ra_nRanks = nRanks, ra_nStepsPerLoop = 2 * (nRanks - 1) * chunkSteps, ra_chunkSteps = chunkSteps, ra_sliceSteps = sliceSteps,
      ra_sliceSize = sliceSize, ra_loopSize = int nRanks * chunkSize, ra_channelSize = channelSize,
      ra_sendbuff = sendbuff + gridOffset, ra_recvbuff = recvbuff + gridOffset,
      ra_sendMhandle = sendMhandle, ra_recvMhandle = recvMhandle, ra_srecvMhandle = srecvMhandle,
      ar_ringIndex = ringIndex, ar_elemSize = elemSize, ar_chunkSize = chunkSize, ar_slicePerChunk = int (chunkSteps div sliceSteps)\<rparr>"

text \<open>The part that sending and receiving share: offset of the chunk, its size, offset and size of the slice.\<close>

definition ar_slice :: "ring_ar \<Rightarrow> nat \<Rightarrow> nat \<Rightarrow> nat \<Rightarrow> int \<times> int \<times> int \<times> int" where
  "ar_slice a curLoop sliceStage chunkId =
     (let elemOffset = int curLoop * ra_loopSize a;
          remSize = ra_channelSize a - elemOffset;
          curChunkSize = (if remSize < ra_loopSize a
            then s_align_up (s_div_up (remSize sdiv ar_elemSize a) (int (ra_nRanks a))) (16 sdiv ar_elemSize a) * ar_elemSize a
            else ar_chunkSize a);
          chunkOffset = int chunkId * curChunkSize;
          nelem = min (remSize - chunkOffset) curChunkSize;
          curSliceSize = slice_size nelem (ar_elemSize a) (ar_slicePerChunk a) (ra_sliceSize a)
      in (elemOffset + chunkOffset, nelem, int sliceStage * curSliceSize, curSliceSize))"

definition ar_next_send :: "ring_ar \<Rightarrow> nat \<Rightarrow> int \<times> int \<times> nat" where
  "ar_next_send a curStep =
     (let curLoop = curStep div ra_nStepsPerLoop a;
          curLoopStage = curStep mod ra_nStepsPerLoop a div ra_chunkSteps a;
          chunkStage = curLoopStage mod ra_nRanks a;
          sliceStage = curStep mod ra_chunkSteps a div ra_sliceSteps a;
          chunkId = (ar_ringIndex a + ra_nRanks a - 1 - chunkStage) mod ra_nRanks a;
          (offset, nelem, sliceOffset, curSliceSize) = ar_slice a curLoop sliceStage chunkId;
          (buff, mhandle) =
            (if nelem \<le> sliceOffset then (ra_sendbuff a, ra_sendMhandle a)
             else if curLoopStage = 0 then (ra_sendbuff a + offset + sliceOffset, ra_sendMhandle a)
             else (ra_recvbuff a + offset + sliceOffset, ra_srecvMhandle a))
      in (buff, cut_size (min curSliceSize (nelem - sliceOffset)), mhandle))"

definition ar_next_recv :: "ring_ar \<Rightarrow> nat \<Rightarrow> int \<times> int \<times> nat" where
  "ar_next_recv a curStep =
     (let curLoop = curStep div ra_nStepsPerLoop a;
          curLoopStage = (curStep + ra_chunkSteps a) mod ra_nStepsPerLoop a div ra_chunkSteps a;
          chunkStage = curLoopStage mod ra_nRanks a;
          sliceStage = curStep mod ra_chunkSteps a div ra_sliceSteps a;
          chunkId = (if curLoopStage = 0 then (ar_ringIndex a + 1) mod ra_nRanks a
            else (ar_ringIndex a + ra_nRanks a - 1 - chunkStage) mod ra_nRanks a);
          (offset, nelem, sliceOffset, curSliceSize) = ar_slice a curLoop sliceStage chunkId;
          buff = (if nelem \<le> sliceOffset then ra_recvbuff a else ra_recvbuff a + offset + sliceOffset)
      in (buff, cut_size (min curSliceSize (nelem - sliceOffset)), ra_recvMhandle a))"

text \<open>Loop, stage and slice of a step.\<close>

lemma step_parts:
  assumes "0 < cs"
  shows "s mod (m * cs) div cs = s div cs mod m" and "s div (m * cs) = s div cs div (m :: nat)"
proof -
  have "s mod (cs * m) = cs * (s div cs mod m) + s mod cs" by (rule mod_mult2_eq)
  then show "s mod (m * cs) div cs = s div cs mod m" using assms by (simp add: mult.commute)
  show "s div (m * cs) = s div cs div m" by (metis div_mult2_eq mult.commute)
qed

lemma next_stage:
  assumes "0 < cs" and "0 < m"
  shows "(s + cs) mod (m * cs) div cs = (if s div cs mod m = m - 1 then 0 else s div cs mod (m :: nat) + 1)"
proof -
  have "(s + cs) mod (m * cs) div cs = (s + cs) div cs mod m" by (rule step_parts(1) [OF assms(1)])
  also have "(s + cs) div cs = Suc (s div cs)" using assms(1) by (simp add: div_add_self2)
  also have "Suc (s div cs) mod m = (if s div cs mod m = m - 1 then 0 else s div cs mod m + 1)"
    using assms(2) by (auto simp: mod_Suc)
  finally show ?thesis .
qed

text \<open>The chunk a rank sends at stage \<open>r\<close> is that of the device program's turn \<open>r\<close>.\<close>

lemma send_chunk:
  assumes "2 \<le> n" and "i < n" and "r < 2 * n - 2"
  shows "(i + n - 1 - r mod n) mod n = turn_chunk n i r"
proof (cases "r < n")
  case True
  have "i + 2 * n - 1 - r = (i + n - 1 - r) + n" using True by simp
  then have "turn_chunk n i r = (i + n - 1 - r) mod n" unfolding turn_chunk_def by (simp only: mod_add_self2)
  then show ?thesis using True by simp
next
  case False
  then have "r mod n = r - n" using assms(3) by (simp add: mod_if)
  moreover have "i + n - 1 - (r - n) = i + 2 * n - 1 - r" using False assms(3) by simp
  ultimately show ?thesis by (simp add: turn_chunk_def)
qed

lemma recv_chunk:
  assumes "2 \<le> n" and "i < n" and "r < 2 * n - 2"
  defines "j \<equiv> next_rank n i" and "r' \<equiv> (if r = 2 * n - 3 then 0 else r + 1)"
  shows "(if r' = 0 then (j + 1) mod n else (j + n - 1 - r' mod n) mod n) = turn_chunk n i r"
proof -
  have j: "j < n" using neighbours(2) [OF assms(1,2)] by (simp add: j_def)
  have next_turn: "turn_chunk n j (r + 1) = turn_chunk n i r"
    using turn_chunk_rank(2) [OF assms(1) j, of "r + 1"] neighbours(6) [OF assms(1,2)] assms(3) by (simp add: j_def)
  show ?thesis
  proof (cases "r = 2 * n - 3")
    case True
    have "j + 2 * n - 1 - (r + 1) = j + 1" using True assms(1) by simp
    then have "turn_chunk n j (r + 1) = (j + 1) mod n" unfolding turn_chunk_def by (simp only:)
    then show ?thesis using True next_turn by (simp add: r'_def)
  next
    case False
    then have "r + 1 < 2 * n - 2" using assms(3) by simp
    then show ?thesis using False next_turn send_chunk [OF assms(1) j, of "r + 1"] by (simp add: r'_def)
  qed
qed

section \<open>The ends of a connection\<close>

lemma make_ring_ar_fields [simp]:
  "ra_nRanks (make_ring_ar sb rb n i cs ss chunk slc grid chan es h1 h2 h3) = n"
  "ra_nStepsPerLoop (make_ring_ar sb rb n i cs ss chunk slc grid chan es h1 h2 h3) = 2 * (n - 1) * cs"
  "ra_chunkSteps (make_ring_ar sb rb n i cs ss chunk slc grid chan es h1 h2 h3) = cs"
  "ra_sliceSteps (make_ring_ar sb rb n i cs ss chunk slc grid chan es h1 h2 h3) = ss"
  "ar_ringIndex (make_ring_ar sb rb n i cs ss chunk slc grid chan es h1 h2 h3) = i"
  "ra_sendbuff (make_ring_ar sb rb n i cs ss chunk slc grid chan es h1 h2 h3) = sb + grid"
  "ra_recvbuff (make_ring_ar sb rb n i cs ss chunk slc grid chan es h1 h2 h3) = rb + grid"
  "ra_sendMhandle (make_ring_ar sb rb n i cs ss chunk slc grid chan es h1 h2 h3) = h1"
  "ra_recvMhandle (make_ring_ar sb rb n i cs ss chunk slc grid chan es h1 h2 h3) = h2"
  "ra_srecvMhandle (make_ring_ar sb rb n i cs ss chunk slc grid chan es h1 h2 h3) = h3"
  by (simp_all add: make_ring_ar_def)

lemma ar_slice_shared:
  "ar_slice (make_ring_ar sb rb n i cs ss chunk slc grid chan es h1 h2 h3) q t c =
   ar_slice (make_ring_ar sb' rb' n j cs ss chunk slc grid chan es h1' h2' h3') q t c"
  by (simp add: ar_slice_def make_ring_ar_def Let_def)

text \<open>Both functions, from the loop \<open>q\<close>, the stage \<open>r\<close> and the slice \<open>t\<close> of the step.\<close>

lemma ar_next_send_eq:
  fixes sb rb chunk slc grid chan es :: int and ss h1 h2 h3 s :: nat
  assumes "2 \<le> n" and "i < n" and "0 < cs"
  defines "a \<equiv> make_ring_ar sb rb n i cs ss chunk slc grid chan es h1 h2 h3"
  defines "r \<equiv> s div cs mod (2 * (n - 1))"
  shows "ar_next_send a s =
    (let (offset, nelem, sliceOffset, cur) = ar_slice a (s div (2 * (n - 1) * cs)) (s mod cs div ss) (turn_chunk n i r);
         (buff, h) = (if nelem \<le> sliceOffset then (sb + grid, h1)
           else if r = 0 then (sb + grid + offset + sliceOffset, h1) else (rb + grid + offset + sliceOffset, h3))
     in (buff, cut_size (min cur (nelem - sliceOffset)), h))"
proof -
  have "r < 2 * n - 2" using assms(1) mod_less_divisor [of "2 * (n - 1)" "s div cs"] unfolding r_def by linarith
  note chunk = send_chunk [OF assms(1,2) this]
  show ?thesis
    unfolding ar_next_send_def Let_def a_def make_ring_ar_fields
    unfolding step_parts(1) [OF assms(3)] r_def [symmetric] chunk a_def [symmetric] ..
qed

lemma ar_next_recv_eq:
  fixes sb rb chunk slc grid chan es :: int and ss h1 h2 h3 s :: nat
  assumes "2 \<le> n" and "i < n" and "0 < cs"
  defines "b \<equiv> make_ring_ar sb rb n (next_rank n i) cs ss chunk slc grid chan es h1 h2 h3"
  defines "r \<equiv> s div cs mod (2 * (n - 1))"
  shows "ar_next_recv b s =
    (let (offset, nelem, sliceOffset, cur) = ar_slice b (s div (2 * (n - 1) * cs)) (s mod cs div ss) (turn_chunk n i r)
     in (if nelem \<le> sliceOffset then rb + grid else rb + grid + offset + sliceOffset, cut_size (min cur (nelem - sliceOffset)), h2))"
proof -
  have m: "0 < 2 * (n - 1)" "2 * (n - 1) - 1 = 2 * n - 3" using assms(1) by simp_all
  have r: "r < 2 * n - 2" using assms(1) mod_less_divisor [OF m(1), of "s div cs"] unfolding r_def by linarith
  show ?thesis
    unfolding ar_next_recv_def Let_def b_def make_ring_ar_fields
    unfolding next_stage [OF assms(3) m(1)] m(2) r_def [symmetric] recv_chunk [OF assms(1,2) r] b_def [symmetric] ..
qed

text \<open>C16. On every step the sender of a rank and the receiver of the next rank of the ring name the same number of bytes at the same
  place of their buffers (the send buffer for the sender in the first turn), and in all but the last turn of a loop a
  rank sends on from where it received, one chunk of steps later.\<close>
theorem proxy_ends_agree:
  fixes sb rb sb' rb' chunk slc grid chan es :: int and ss h1 h2 h3 h1' h2' h3' s :: nat
  assumes "2 \<le> n" and "i < n" and "0 < cs"
  defines "a \<equiv> make_ring_ar sb rb n i cs ss chunk slc grid chan es h1 h2 h3"
    and "b \<equiv> make_ring_ar sb' rb' n (next_rank n i) cs ss chunk slc grid chan es h1' h2' h3'"
  defines "turn \<equiv> s div cs mod (2 * (n - 1))"
  shows "(let (x, bytes, _) = ar_next_send a s; (y, bytes', _) = ar_next_recv b s
     in bytes' = bytes \<and>
        (0 < bytes \<longrightarrow> y - ra_recvbuff b = x - (if turn = 0 then ra_sendbuff a else ra_recvbuff a)) \<and>
        (0 < bytes \<longrightarrow> turn + 1 < 2 * (n - 1) \<longrightarrow> ar_next_send b (s + cs) = (y, bytes, h3')))"
proof -
  note send = ar_next_send_eq [OF assms(1-3), of sb rb ss chunk slc grid chan es h1 h2 h3 s, folded a_def turn_def]
  note recv = ar_next_recv_eq [OF assms(1-3), of sb' rb' ss chunk slc grid chan es h1' h2' h3' s, folded b_def turn_def]
  note j = neighbours(2) [OF assms(1,2)]
  have m: "0 < 2 * (n - 1)" using assms(1) by simp
  obtain offset nelem sliceOffset cur where
      slice: "ar_slice b (s div (2 * (n - 1) * cs)) (s mod cs div ss) (turn_chunk n i turn) = (offset, nelem, sliceOffset, cur)"
    by (metis prod_cases4)
  then have slice': "ar_slice a (s div (2 * (n - 1) * cs)) (s mod cs div ss) (turn_chunk n i turn) = (offset, nelem, sliceOffset, cur)"
    unfolding a_def b_def by (subst ar_slice_shared)
  have bytes: "0 < cut_size (min cur (nelem - sliceOffset)) \<Longrightarrow> \<not> nelem \<le> sliceOffset" by (simp add: cut_size_def split: if_splits)
  have forward: "ar_next_send b (s + cs) = (rb' + grid + offset + sliceOffset, cut_size (min cur (nelem - sliceOffset)), h3')"
    if "\<not> nelem \<le> sliceOffset" and turn: "turn + 1 < 2 * (n - 1)"
  proof -
    have "s div cs mod (2 * (n - 1)) \<noteq> 2 * (n - 1) - 1" using turn unfolding turn_def by linarith
    then have next_turn: "(s + cs) div cs mod (2 * (n - 1)) = turn + 1"
      unfolding step_parts(1) [OF assms(3), symmetric] next_stage [OF assms(3) m] turn_def by (simp only: if_False)
    have "(s + cs) div cs = Suc (s div cs)" using assms(3) by (simp add: div_add_self2)
    moreover have "Suc u div M = u div M" if "u mod M + 1 < M" for u M :: nat using that by (auto simp: div_Suc mod_Suc)
    ultimately have "(s + cs) div cs div (2 * (n - 1)) = s div cs div (2 * (n - 1))" using turn unfolding turn_def by simp
    then have loop: "(s + cs) div (2 * (n - 1) * cs) = s div (2 * (n - 1) * cs)" unfolding step_parts(2) [OF assms(3)] .
    have "turn_chunk n (next_rank n i) (turn + 1) = turn_chunk n i turn"
      using turn_chunk_rank(2) [OF assms(1) j, of "turn + 1"] neighbours(6) [OF assms(1,2)] turn by simp
    then show ?thesis
      using ar_next_send_eq [OF assms(1) j assms(3), of sb' rb' ss chunk slc grid chan es h1' h2' h3' "s + cs", folded b_def]
        slice that(1) unfolding next_turn loop by simp
  qed
  have base: "ra_sendbuff a = sb + grid" "ra_recvbuff a = rb + grid" "ra_recvbuff b = rb' + grid" by (simp_all add: a_def b_def)
  show ?thesis
  proof (cases "nelem \<le> sliceOffset")
    case True
    with bytes have "\<not> 0 < cut_size (min cur (nelem - sliceOffset))" by blast
    then show ?thesis unfolding send recv slice slice' using True by simp
  next
    case False
    then show ?thesis unfolding send recv slice slice' base using forward by (simp add: Let_def)
  qed
qed

theorem proxy_ends_agree_witness:
  "(let (x, bytes, _) = ar_next_send (make_ring_ar 1000 2000 2 0 4 2 4096 2048 64 4096 4 1 2 3) 0;
        (y, bytes', _) = ar_next_recv (make_ring_ar 3000 5000 2 (next_rank 2 0) 4 2 4096 2048 64 4096 4 1 2 3) 0
     in bytes' = bytes \<and> y - 5064 = x - 1064 \<and>
        ar_next_send (make_ring_ar 3000 5000 2 (next_rank 2 0) 4 2 4096 2048 64 4096 4 1 2 3) 4 = (y, bytes, 3)) \<and>
   ar_next_send (make_ring_ar 1000 2000 2 0 4 2 4096 2048 64 4096 4 1 2 3) 0 = (3112, 1024, 1)"
proof -
  have send: "ar_next_send (make_ring_ar 1000 2000 2 0 4 2 4096 2048 64 4096 4 1 2 3) 0 = (3112, 1024, 1)" by code_simp
  have base: "ra_sendbuff (make_ring_ar 1000 2000 2 0 4 2 4096 2048 64 4096 4 1 2 3) = 1064"
    "ra_recvbuff (make_ring_ar 3000 5000 2 (next_rank 2 0) 4 2 4096 2048 64 4096 4 1 2 3) = 5064" by (simp_all add: make_ring_ar_def)
  have hyps: "2 \<le> (2::nat)" "0 < (2::nat)" "0 < (4::nat)" by simp_all
  show ?thesis
    using proxy_ends_agree [OF hyps, where s = 0 and sb = 1000 and rb = 2000 and sb' = 3000 and rb' = 5000 and ss = 2 and chunk = 4096
        and slc = 2048 and grid = 64 and chan = 4096 and es = 4 and ?h1.0 = 1 and ?h2.0 = 2 and ?h3.0 = 3 and h1' = 1 and h2' = 2 and h3' = 3]
    unfolding send base by simp
qed

section \<open>The slices of a step and the chunk of the device program\<close>

lemma sdiv_pos: "0 \<le> x \<Longrightarrow> 0 < y \<Longrightarrow> x sdiv y = x div (y :: int)"
  by (simp add: signed_divide_int_def sgn_if)

lemma s_div_up_of_nat: "0 < y \<Longrightarrow> s_div_up (int x) (int y) = int (div_up_nat x y)"
  by (simp add: s_div_up_def div_up_nat_def sdiv_pos zdiv_int of_nat_diff)

lemma cut_size_nonpos: "x \<le> 0 \<Longrightarrow> cut_size x = 0"
  by (simp add: cut_size_def)

lemma sum_of_slices:
  assumes "0 \<le> nelem" and "0 \<le> cur"
  shows "(\<Sum>t < m. cut_size (min cur (nelem - int t * cur))) = min nelem (int m * cur)"
proof (induction m)
  case (Suc m)
  have "int (Suc m) * cur = int m * cur + cur" by (simp add: algebra_simps)
  then show ?case using assms unfolding sum.lessThan_Suc Suc.IH by (auto simp: cut_size_def min_def)
qed (use assms in simp)

lemma rounded_up: "0 < M \<Longrightarrow> N \<le> (N + M - 1) div M * (M :: int)"
  using div_mult_mod_eq [of "N + M - 1" M] pos_mod_bound [of M "N + M - 1"] by linarith

lemma slices_reach:
  assumes "0 < N" and "0 < es" and "0 < spc"
  shows "int es * N \<le> int spc * slice_size (int es * N) (int es) (int spc) slc"
proof -
  let ?X = "s_div_up N (16 * int spc)"
  have quotient: "(int es * N) sdiv int es = N" using assms by (simp add: sdiv_pos)
  have "N \<le> ?X * (16 * int spc)"
  proof -
    have "?X = (N + 16 * int spc - 1) div (16 * int spc)" using assms by (simp add: s_div_up_def sdiv_pos)
    moreover have "N \<le> (N + 16 * int spc - 1) div (16 * int spc) * (16 * int spc)" using assms(3) by (intro rounded_up) simp
    ultimately show ?thesis by simp
  qed
  then have "N \<le> int spc * (?X * 16)" by (simp add: algebra_simps)
  also have "\<dots> \<le> int spc * max (?X * 16) ((slc sdiv int es) sdiv 32)" by (intro mult_left_mono) simp_all
  finally have "int es * N \<le> int es * (int spc * max (?X * 16) ((slc sdiv int es) sdiv 32))" using assms(2) by (intro mult_left_mono) simp_all
  then show ?thesis unfolding slice_size_def quotient by (simp add: ac_simps)
qed

lemma align_up_signed:
  assumes "0 \<le> x" and "x \<le> 2 ^ 61" and "k \<le> 4"
  shows "align_up x (2 ^ k) = s_align_up x (2 ^ k)" and "0 \<le> align_up x (2 ^ k)"
proof -
  let ?y = "x + 2 ^ k - 1"
  have pow: "(2 :: int) ^ k \<le> 2 ^ 4" "0 < (2 :: int) ^ k" using assms(3) by (intro power_increasing) auto
  have y: "2 ^ k * (?y div 2 ^ k) = ?y - ?y mod 2 ^ k" by (simp add: minus_mod_eq_mult_div)
  have "0 \<le> ?y mod 2 ^ k" "?y mod 2 ^ k < 2 ^ k" using pow by simp_all
  moreover have "(2 :: int) ^ 61 + 2 ^ 4 < 2 ^ 64" by simp
  ultimately have "0 \<le> 2 ^ k * (?y div 2 ^ k)" "2 ^ k * (?y div 2 ^ k) < 2 ^ 64" using y assms pow by linarith+
  then have "size_t (2 ^ k * (?y div 2 ^ k)) = 2 ^ k * (?y div 2 ^ k)" unfolding size_t_def by (rule mod_pos_pos_trivial)
  then show "align_up x (2 ^ k) = s_align_up x (2 ^ k)" "0 \<le> align_up x (2 ^ k)"
    using \<open>0 \<le> 2 ^ k * (?y div 2 ^ k)\<close> unfolding align_up_def s_align_up_def and_minus_power by simp_all
qed

lemma pass_chunk_signed:
  assumes "sizes_ok n es cc" and "q < rounds count (n * cc)" and "count - q * (n * cc) < n * cc"
  shows "s_align_up (s_div_up (int (count - q * (n * cc))) (int n)) (16 sdiv int es) = int (pass_chunk n es cc (count - q * (n * cc)))"
proof -
  let ?rem = "count - q * (n * cc)"
  have n: "0 < n" and es: "es = 1 \<or> es = 2 \<or> es = 4 \<or> es = 8" using assms(1) by (auto simp: sizes_ok_def elt_sizes_def)
  then have "int (16 div es) = 2 ^ 4 \<or> int (16 div es) = 2 ^ 3 \<or> int (16 div es) = 2 ^ 2 \<or> int (16 div es) = 2 ^ 1" by auto
  then have "\<exists>k \<le> 4. int (16 div es) = 2 ^ k" by (elim disjE) (rule exI [of _ 4] exI [of _ 3] exI [of _ 2] exI [of _ 1], simp)+
  then obtain k :: nat where k: "int (16 div es) = 2 ^ k" "k \<le> 4" by blast
  have sixteen: "16 sdiv int es = 2 ^ k" unfolding k(1) [symmetric] using es by (auto simp: sdiv_pos)
  have "n * cc \<le> 2 ^ 26 * 2 ^ 31" using assms(1) by (intro mult_mono) (auto simp: sizes_ok_def)
  then have "?rem < 2 ^ 60" using assms(3) by simp
  moreover have "div_up_nat ?rem n * n < ?rem + n" by (rule div_up_nat_bounds(2) [OF n])
  moreover have "div_up_nat ?rem n \<le> div_up_nat ?rem n * n" "n \<le> 2 ^ 26" using n assms(1) by (simp_all add: sizes_ok_def)
  moreover have "(2 :: nat) ^ 60 + 2 ^ 26 \<le> 2 ^ 61" by simp
  ultimately have "div_up_nat ?rem n \<le> 2 ^ 61" by linarith
  then have "int (div_up_nat ?rem n) \<le> int (2 ^ 61)" by (simp only: of_nat_le_iff)
  then have "int (div_up_nat ?rem n) \<le> 2 ^ 61" by (simp only: of_nat_power of_nat_numeral)
  note up = align_up_signed [OF of_nat_0_le_iff this k(2)]
  show ?thesis
    unfolding sixteen s_div_up_of_nat [OF n] up(1) [symmetric] pass_chunk_def k(1) using assms(3) up(2) by simp
qed

text \<open>C17. In every turn the proxy cuts exactly the chunk that the device program sends in that turn: the offset and the size of the
  chunk agree in bytes, and the slices follow one another and add up to it.\<close>
theorem proxy_slices_tile_the_chunk:
  fixes sb rb slc grid :: int and n es count cc q c i cs ss h1 h2 h3 :: nat
  assumes "sizes_ok n es cc" and "q < rounds count (n * cc)" and "0 < cs div ss"
  defines "a \<equiv> make_ring_ar sb rb n i cs ss (int (es * cc)) slc grid (int (es * count)) (int es) h1 h2 h3"
  shows "\<exists>cur. (\<forall>t. ar_slice a q t c = (int (es * chunk_offset n es 0 count cc q c), int es * chunk_nelem n es count cc q c, int t * cur, cur)) \<and>
      (\<Sum>t < cs div ss. cut_size (min cur (int es * chunk_nelem n es count cc q c - int t * cur))) =
        int (es * nat (chunk_nelem n es count cc q c))"
proof -
  note f = pass_facts [OF assms(1,2)]
  let ?rem = "count - q * (n * cc)" let ?P = "pass_chunk n es cc ?rem"
  let ?N = "chunk_nelem n es count cc q c"
  have es: "0 < es" using assms(1) by (auto simp: sizes_ok_def elt_sizes_def)
  define cur where "cur = slice_size (int es * ?N) (int es) (int (cs div ss)) slc"
  have loop: "int q * (int n * int (es * cc)) = int (es * (q * (n * cc)))" by (simp add: ac_simps)
  have rem: "int (es * count) - int (es * (q * (n * cc))) = int es * int ?rem"
    using f(2) by (metis add_diff_cancel_left' distrib_left of_nat_add of_nat_mult)
  have less: "int es * int ?rem < int n * int (es * cc) \<longleftrightarrow> ?rem < n * cc"
  proof -
    have "int n * int (es * cc) = int es * int (n * cc)" by (simp add: ac_simps)
    moreover have "int es * int ?rem < int es * int (n * cc) \<longleftrightarrow> int ?rem < int (n * cc)"
      using es by (simp only: mult_less_cancel_left_pos of_nat_0_less_iff)
    ultimately show ?thesis by (simp only: of_nat_less_iff)
  qed
  have chunk: "(if int es * int ?rem < int n * int (es * cc)
      then s_align_up (s_div_up ((int es * int ?rem) sdiv int es) (int n)) (16 sdiv int es) * int es else int (es * cc)) = int (es * ?P)"
  proof (cases "?rem < n * cc")
    case True
    have "(int es * int ?rem) sdiv int es = int ?rem" using es by (simp add: sdiv_pos)
    then show ?thesis using True less pass_chunk_signed [OF assms(1,2) True] by simp
  next
    case False
    then show ?thesis using less f(5) by simp
  qed
  have N: "min (int es * int ?rem - int c * int (es * ?P)) (int (es * ?P)) = int es * ?N"
    unfolding chunk_nelem_def Let_def min_mult_distrib_left by (simp add: min.commute algebra_simps)
  have slice: "ar_slice a q t c = (int (es * chunk_offset n es 0 count cc q c), int es * ?N, int t * cur, cur)" for t
  proof -
    have "ra_loopSize a = int n * int (es * cc)" "ra_channelSize a = int (es * count)" "ar_elemSize a = int es" "ra_nRanks a = n"
        "ar_chunkSize a = int (es * cc)" "ar_slicePerChunk a = int (cs div ss)" "ra_sliceSize a = slc"
      by (simp_all add: a_def make_ring_ar_def)
    then have "ar_slice a q t c = (int (es * (q * (n * cc))) + int c * int (es * ?P), int es * ?N, int t * cur, cur)"
      unfolding ar_slice_def Let_def cur_def by (simp only: loop rem chunk N)
    then show ?thesis by (simp add: chunk_offset_def algebra_simps)
  qed
  have "(\<Sum>t < cs div ss. cut_size (min cur (int es * ?N - int t * cur))) = int (es * nat ?N)"
  proof (cases "0 < ?N")
    case True
    note reach = slices_reach [OF True es assms(3), of slc, folded cur_def]
    have pos: "0 < int es * ?N" using True es by simp
    with reach have "0 < int (cs div ss) * cur" by linarith
    then have "0 \<le> cur" by (simp add: zero_less_mult_iff)
    then show ?thesis using sum_of_slices [of "int es * ?N" cur "cs div ss"] reach pos True by simp
  next
    case False
    then have "int es * ?N \<le> 0" using es by (simp add: mult_nonneg_nonpos)
    then have "min cur (int es * ?N - int t * cur) \<le> 0" for t
      using mult_nonneg_nonneg [of "int t" cur] by (cases "0 \<le> cur") linarith+
    then have "cut_size (min cur (int es * ?N - int t * cur)) = 0" for t by (rule cut_size_nonpos)
    then show ?thesis using False by simp
  qed
  with slice show ?thesis by blast
qed

theorem proxy_slices_tile_the_chunk_witness:
  "\<exists>cur. (\<forall>t. ar_slice (make_ring_ar 1000 2000 2 0 4 2 4096 2048 64 10000 4 1 2 3) 1 t 0 =
        (8192, 912, int t * cur, cur)) \<and>
      (\<Sum>t < 2. cut_size (min cur (912 - int t * cur))) = 912"
proof -
  have ok: "sizes_ok 2 4 1024" by (simp add: sizes_ok_def elt_sizes_def)
  have pass: "1 < rounds 2500 (2 * 1024)" and steps: "0 < 4 div (2::nat)" by code_simp+
  have vals: "chunk_offset 2 4 0 2500 1024 1 0 = 2048" "chunk_nelem 2 4 2500 1024 1 0 = 228" by code_simp+
  show ?thesis
    using proxy_slices_tile_the_chunk [OF ok pass steps, where sb = 1000 and rb = 2000 and i = 0 and slc = 2048 and grid = 64 and c = 0
        and ?h1.0 = 1 and ?h2.0 = 2 and ?h3.0 = 3]
    unfolding vals by simp
qed

section \<open>All-gather\<close>

record ring_ag = ring_algo +
  ag_ringRanks :: "nat list"
  ag_elemSize :: int
  ag_sendSize :: int
  ag_slicePerChunk :: int

definition make_ring_ag :: "int \<Rightarrow> int \<Rightarrow> nat \<Rightarrow> nat list \<Rightarrow> nat \<Rightarrow> nat \<Rightarrow> int \<Rightarrow> int \<Rightarrow> int \<Rightarrow> int \<Rightarrow> int \<Rightarrow> int \<Rightarrow> nat \<Rightarrow> nat \<Rightarrow> nat \<Rightarrow> ring_ag" where
  "make_ring_ag sendbuff recvbuff nRanks ringRanks chunkSteps sliceSteps chunkSize sliceSize gridOffset channelSize elemSize sendSize
      sendMhandle recvMhandle srecvMhandle =
     \<lparr>ra_nRanks = nRanks, ra_nStepsPerLoop = (nRanks - 1) * chunkSteps, ra_chunkSteps = chunkSteps, ra_sliceSteps = sliceSteps,
      ra_sliceSize = sliceSize, ra_loopSize = chunkSize, ra_channelSize = channelSize,
      ra_sendbuff = sendbuff + gridOffset, ra_recvbuff = recvbuff + gridOffset,
      ra_sendMhandle = sendMhandle, ra_recvMhandle = recvMhandle, ra_srecvMhandle = srecvMhandle,
      ag_ringRanks = ringRanks, ag_elemSize = elemSize, ag_sendSize = sendSize, ag_slicePerChunk = int (chunkSteps div sliceSteps)\<rparr>"

definition ag_slice :: "ring_ag \<Rightarrow> nat \<Rightarrow> nat \<Rightarrow> int \<times> int \<times> int" where
  "ag_slice a curLoop sliceStage =
     (let elemOffset = int curLoop * ra_loopSize a;
          chunkSize = min (ra_loopSize a) (ra_channelSize a - elemOffset);
          curSliceSize = slice_size chunkSize (ag_elemSize a) (ag_slicePerChunk a) (ra_sliceSize a)
      in (elemOffset, int sliceStage * curSliceSize, curSliceSize))"

definition ag_next_send :: "ring_ag \<Rightarrow> nat \<Rightarrow> int \<times> int \<times> nat" where
  "ag_next_send a curStep =
     (let curLoop = curStep div ra_nStepsPerLoop a;
          chunkStage = curStep mod ra_nStepsPerLoop a div ra_chunkSteps a;
          sliceStage = curStep mod ra_chunkSteps a div ra_sliceSteps a;
          (elemOffset, sliceOffset, curSliceSize) = ag_slice a curLoop sliceStage;
          (buff, mhandle) =
            (if chunkStage = 0 then (ra_sendbuff a + (elemOffset + sliceOffset), ra_sendMhandle a)
             else let rankDest = ag_ringRanks a ! (ra_nRanks a - chunkStage)
               in (ra_recvbuff a + (elemOffset + int rankDest * ag_sendSize a + sliceOffset), ra_srecvMhandle a))
      in (buff, cut_size (min curSliceSize (ra_channelSize a - elemOffset - sliceOffset)), mhandle))"

definition ag_next_recv :: "ring_ag \<Rightarrow> nat \<Rightarrow> int \<times> int \<times> nat" where
  "ag_next_recv a curStep =
     (let curLoop = curStep div ra_nStepsPerLoop a;
          chunkStage = (curStep + ra_chunkSteps a) mod ra_nStepsPerLoop a div ra_chunkSteps a;
          sliceStage = curStep mod ra_chunkSteps a div ra_sliceSteps a;
          (elemOffset, sliceOffset, curSliceSize) = ag_slice a curLoop sliceStage;
          rankDest = (if chunkStage = 0 then ag_ringRanks a ! 1 else ag_ringRanks a ! (ra_nRanks a - chunkStage))
      in (ra_recvbuff a + (elemOffset + int rankDest * ag_sendSize a + sliceOffset),
          cut_size (min (ra_sliceSize a) (ra_channelSize a - elemOffset - sliceOffset)), ra_recvMhandle a))"

lemma gather_dest:
  assumes "is_ring ring" and "length ring = n" and "2 \<le> n" and "i < n" and "r < n - 1"
  defines "us \<equiv> ri_userRanks (setup_channel ring (rank_at ring (next_rank n i)))"
    and "r' \<equiv> (if r = n - 1 - 1 then 0 else r + 1)"
  shows "(if r' = 0 then us ! 1 else us ! (n - r')) = rank_at ring ((i + (n - r)) mod n)"
proof -
  note j = neighbours(2) [OF assms(3,4)]
  have user: "us ! k = rank_at ring ((i + 1 + k) mod n)" if "k < n" for k
    using rank_at_setup(2) [OF assms(1), of "next_rank n i" k] assms(2) j that
    unfolding us_def by (simp add: next_rank_def mod_add_left_eq)
  show ?thesis
  proof (cases "r = n - 1 - 1")
    case True
    then have "i + 1 + 1 = i + (n - r)" using assms(3) by simp
    then show ?thesis using True user [of 1] assms(3) by (simp add: r'_def)
  next
    case False
    have bound: "n - (r + 1) < n" and shift: "i + 1 + (n - (r + 1)) = i + (n - r)" using assms(5) by simp_all
    have "r' = r + 1" using False by (simp only: r'_def if_False)
    then have "(if r' = 0 then us ! 1 else us ! (n - r')) = us ! (n - (r + 1))" by simp
    also have "\<dots> = rank_at ring ((i + (n - r)) mod n)" using user [OF bound] unfolding shift .
    finally show ?thesis .
  qed
qed

text \<open>The two ends name the same place.  The receiver asks for at least as many bytes as the sender sends when the slice
  it computes is not larger than the slice size; it takes the latter for its size.\<close>

lemma gather_ends_agree:
  fixes sb rb sb' rb' chunk slc grid chan es ssize :: int and ss h1 h2 h3 h1' h2' h3' s :: nat
  assumes "is_ring ring" and "length ring = n" and "2 \<le> n" and "i < n" and "0 < cs"
  defines "a \<equiv> make_ring_ag sb rb n (ri_userRanks (setup_channel ring (rank_at ring i))) cs ss chunk slc grid chan es ssize h1 h2 h3"
    and "b \<equiv> make_ring_ag sb' rb' n (ri_userRanks (setup_channel ring (rank_at ring (next_rank n i)))) cs ss chunk slc grid chan es ssize h1' h2' h3'"
  defines "turn \<equiv> s div cs mod (n - 1)"
  shows "fst (ag_next_recv b s) - ra_recvbuff b = fst (ag_next_send a s) -
      (if turn = 0 then ra_sendbuff a - int (rank_at ring i) * ssize else ra_recvbuff a)"
    and "snd (snd (ag_slice a (s div ((n - 1) * cs)) (s mod cs div ss))) \<le> slc \<Longrightarrow>
      fst (snd (ag_next_send a s)) \<le> fst (snd (ag_next_recv b s))"
proof -
  have m: "0 < n - 1" using assms(3) by simp
  have turn: "turn < n - 1" using m by (simp add: turn_def)
  have steps: "ra_nStepsPerLoop a = (n - 1) * cs" "ra_nStepsPerLoop b = (n - 1) * cs" "ra_chunkSteps a = cs" "ra_chunkSteps b = cs"
      "ra_sliceSteps a = ss" "ra_sliceSteps b = ss" "ra_nRanks a = n" "ra_nRanks b = n"
      "ag_sendSize a = ssize" "ag_sendSize b = ssize" "ra_sliceSize b = slc" "ra_channelSize a = ra_channelSize b"
    by (simp_all add: a_def b_def make_ring_ag_def)
  have ranks: "ag_ringRanks a = ri_userRanks (setup_channel ring (rank_at ring i))"
      "ag_ringRanks b = ri_userRanks (setup_channel ring (rank_at ring (next_rank n i)))"
    by (simp_all add: a_def b_def make_ring_ag_def)
  have shared: "ag_slice a q t = ag_slice b q t" for q t by (simp add: a_def b_def make_ring_ag_def ag_slice_def Let_def)
  obtain elemOffset sliceOffset cur where slice: "ag_slice b (s div ((n - 1) * cs)) (s mod cs div ss) = (elemOffset, sliceOffset, cur)"
    by (metis prod_cases3)
  have own: "ri_userRanks (setup_channel ring (rank_at ring i)) ! (n - turn) = rank_at ring ((i + (n - turn)) mod n)" if "turn \<noteq> 0"
    using rank_at_setup(2) [OF assms(1), of i "n - turn"] assms(2,3,4) that by simp
  note dest = gather_dest [OF assms(1-4) turn]
  have recv: "ag_next_recv b s =
      (ra_recvbuff b + (elemOffset + int (rank_at ring ((i + (n - turn)) mod n)) * ssize + sliceOffset),
       cut_size (min slc (ra_channelSize b - elemOffset - sliceOffset)), ra_recvMhandle b)"
    unfolding ag_next_recv_def Let_def steps next_stage [OF assms(5) m] turn_def [symmetric] slice ranks prod.case dest ..
  have send: "ag_next_send a s =
      (if turn = 0 then (ra_sendbuff a + (elemOffset + sliceOffset), cut_size (min cur (ra_channelSize b - elemOffset - sliceOffset)), ra_sendMhandle a)
       else (ra_recvbuff a + (elemOffset + int (rank_at ring ((i + (n - turn)) mod n)) * ssize + sliceOffset),
         cut_size (min cur (ra_channelSize b - elemOffset - sliceOffset)), ra_srecvMhandle a))"
    unfolding ag_next_send_def Let_def steps step_parts(1) [OF assms(5)] turn_def [symmetric] shared slice ranks prod.case
    using own by simp
  show "fst (ag_next_recv b s) - ra_recvbuff b = fst (ag_next_send a s) -
      (if turn = 0 then ra_sendbuff a - int (rank_at ring i) * ssize else ra_recvbuff a)"
    unfolding recv send using assms(4) by simp
  show "fst (snd (ag_next_send a s)) \<le> fst (snd (ag_next_recv b s))"
    if "snd (snd (ag_slice a (s div ((n - 1) * cs)) (s mod cs div ss))) \<le> slc"
    using that unfolding recv send shared slice by (simp add: cut_size_def min_def)
qed

section \<open>Broadcast\<close>

record ring_bc = ring_algo +
  bc_root :: nat
  bc_rank :: nat
  bc_nextRank :: nat

definition make_ring_bc :: "int \<Rightarrow> int \<Rightarrow> nat \<Rightarrow> nat \<Rightarrow> nat \<Rightarrow> nat list \<Rightarrow> nat \<Rightarrow> nat \<Rightarrow> int \<Rightarrow> int \<Rightarrow> int \<Rightarrow> int \<Rightarrow> nat \<Rightarrow> nat \<Rightarrow> nat \<Rightarrow> ring_bc" where
  "make_ring_bc sendbuff recvbuff rank root nRanks ringRanks chunkSteps sliceSteps chunkSize sliceSize gridOffset channelSize
      sendMhandle recvMhandle srecvMhandle =
     \<lparr>ra_nRanks = nRanks, ra_nStepsPerLoop = chunkSteps, ra_chunkSteps = chunkSteps, ra_sliceSteps = sliceSteps,
      ra_sliceSize = sliceSize, ra_loopSize = chunkSize, ra_channelSize = channelSize,
      ra_sendbuff = sendbuff + gridOffset, ra_recvbuff = recvbuff + gridOffset,
      ra_sendMhandle = sendMhandle, ra_recvMhandle = recvMhandle, ra_srecvMhandle = srecvMhandle,
      bc_root = root, bc_rank = rank, bc_nextRank = ringRanks ! 1\<rparr>"

definition bc_offset :: "ring_bc \<Rightarrow> nat \<Rightarrow> int" where
  "bc_offset a curStep =
     (let curLoop = curStep div ra_nStepsPerLoop a;
          sliceStage = curStep mod ra_chunkSteps a div ra_sliceSteps a
      in int curLoop * ra_loopSize a + int sliceStage * ra_sliceSize a)"

definition bc_next_send :: "ring_bc \<Rightarrow> nat \<Rightarrow> int \<times> int \<times> nat" where
  "bc_next_send a curStep =
     (let offset = bc_offset a curStep;
          (buff, mhandle) =
            (if offset \<ge> ra_channelSize a then (ra_sendbuff a, ra_sendMhandle a)
             else if bc_rank a = bc_root a then (ra_sendbuff a + offset, ra_sendMhandle a)
             else (ra_recvbuff a + offset, ra_srecvMhandle a))
      in (buff, cut_size (min (ra_sliceSize a) (ra_channelSize a - offset)), mhandle))"

definition bc_next_recv :: "ring_bc \<Rightarrow> nat \<Rightarrow> int \<times> int \<times> nat" where
  "bc_next_recv a curStep =
     (let offset = bc_offset a curStep;
          buff = (if offset \<ge> ra_channelSize a then ra_recvbuff a else ra_recvbuff a + offset)
      in (buff, cut_size (min (ra_sliceSize a) (ra_channelSize a - offset)), ra_recvMhandle a))"

lemma broadcast_ends_agree:
  fixes sb rb sb' rb' chunk slc grid chan :: int and rank rank' root n cs ss h1 h2 h3 h1' h2' h3' s :: nat and us us' :: "nat list"
  defines "a \<equiv> make_ring_bc sb rb rank root n us cs ss chunk slc grid chan h1 h2 h3"
    and "b \<equiv> make_ring_bc sb' rb' rank' root n us' cs ss chunk slc grid chan h1' h2' h3'"
  shows "fst (snd (bc_next_recv b s)) = fst (snd (bc_next_send a s))"
    and "0 < fst (snd (bc_next_send a s)) \<Longrightarrow>
      fst (bc_next_recv b s) - ra_recvbuff b = fst (bc_next_send a s) - (if rank = root then ra_sendbuff a else ra_recvbuff a)"
    and "rank' \<noteq> root \<Longrightarrow> 0 < fst (snd (bc_next_recv b s)) \<Longrightarrow> fst (bc_next_send b s) = fst (bc_next_recv b s)"
proof -
  have offset: "bc_offset a s = bc_offset b s" by (simp add: a_def b_def make_ring_bc_def bc_offset_def)
  have fields: "ra_sliceSize a = slc" "ra_sliceSize b = slc" "ra_channelSize a = chan" "ra_channelSize b = chan"
      "bc_rank a = rank" "bc_root a = root" "bc_rank b = rank'" "bc_root b = root"
    by (simp_all add: a_def b_def make_ring_bc_def)
  have left: "0 < cut_size (min slc (chan - x)) \<Longrightarrow> \<not> chan \<le> x" for x by (simp add: cut_size_def split: if_splits)
  show "fst (snd (bc_next_recv b s)) = fst (snd (bc_next_send a s))"
    unfolding bc_next_recv_def bc_next_send_def Let_def offset fields by (simp split: prod.split)
  show "fst (bc_next_recv b s) - ra_recvbuff b = fst (bc_next_send a s) - (if rank = root then ra_sendbuff a else ra_recvbuff a)"
    if "0 < fst (snd (bc_next_send a s))"
    using that left [of "bc_offset b s"] unfolding bc_next_recv_def bc_next_send_def Let_def offset fields by (auto split: if_splits)
  show "fst (bc_next_send b s) = fst (bc_next_recv b s)" if "rank' \<noteq> root" "0 < fst (snd (bc_next_recv b s))"
    using that left [of "bc_offset b s"] unfolding bc_next_recv_def bc_next_send_def Let_def fields by (auto split: if_splits)
qed

end
