(* ===== verification/MpscQueue.thy ===== *)
theory MpscQueue
  imports Prelude "HOL-Library.Sublist"
begin

text \<open>
  The intrusive queue with many producers and one consumer, \<open>ncclIntruQueueMpsc\<close> of \<open>src/include/utils.h\<close>.

  Every access to memory that other threads may touch is one step, and any thread may take the next step; memory is
  sequentially consistent.  Objects are addresses; the addresses 0, 1 and 2 in \<open>tail\<close> say that the queue is empty,
  that the consumer sleeps and that the queue is abandoned.  A producer is a call of \<open>ncclIntruQueueMpscEnqueue\<close>; the only
  consumer calls \<open>ncclIntruQueueMpscDequeueAll\<close> or \<open>ncclIntruQueueMpscAbandon\<close>.  Whether 10 microseconds have passed is left
  open.  A sleeping consumer may wake up without being notified, as the C++ standard allows.  With one consumer, \<open>waiting\<close>
  always holds the signal of its thread when \<open>tail\<close> says that it sleeps, and is left out.

  \<open>sy_free\<close> is not part of the code: the objects that their callers own.  A caller enqueues only what it owns, and owns
  again what the consumer is given.
\<close>

section \<open>The queue\<close>

record mpsc =
  mq_head :: nat
  mq_tail :: nat
  mq_next :: "nat \<Rightarrow> nat"

datatype producer = Ready | Clearing nat | Swapping nat | Linking nat nat | Waking | Notifying

datatype consumer = Resting | Looking bool | Locking bool | Armed | Sleeping | Peeking bool | Spinning
  | Taking nat nat | Exchanging nat nat | Walking nat "nat list"

record mpsc_sys = mpsc +
  sy_prod :: "nat \<Rightarrow> producer"
  sy_cons :: consumer
  sy_free :: "nat set"

datatype mpsc_event = Entered nat bool | Took "nat list"

definition mpsc_start :: "(nat \<Rightarrow> nat) \<Rightarrow> nat set \<Rightarrow> mpsc_sys" where
  "mpsc_start links free = \<lparr>mq_head = null, mq_tail = 0, mq_next = links, sy_prod = (\<lambda>_. Ready), sy_cons = Resting, sy_free = free\<rparr>"

definition mpsc_empty :: "mpsc_sys \<Rightarrow> bool" where
  "mpsc_empty s \<longleftrightarrow> mq_tail s \<le> 2"

definition holds_mutex :: "consumer \<Rightarrow> bool" where
  "holds_mutex c = (case c of Locking _ \<Rightarrow> True | Armed \<Rightarrow> True | _ \<Rightarrow> False)"

section \<open>Its operations\<close>

inductive enqueue_step :: "nat \<Rightarrow> mpsc_sys \<Rightarrow> mpsc_event option \<Rightarrow> mpsc_sys \<Rightarrow> bool" for t s where
  call: "sy_prod s t = Ready \<Longrightarrow> x \<in> sy_free s \<Longrightarrow> 2 < x \<Longrightarrow>
    enqueue_step t s None (s\<lparr>sy_prod := (sy_prod s)(t := Clearing x), sy_free := sy_free s - {x}\<rparr>)"
| clear: "sy_prod s t = Clearing x \<Longrightarrow>
    enqueue_step t s None (s\<lparr>mq_next := (mq_next s)(x := null), sy_prod := (sy_prod s)(t := Swapping x)\<rparr>)"
| swap: "sy_prod s t = Swapping x \<Longrightarrow>
    enqueue_step t s (Some (Entered x (mq_tail s \<noteq> 2)))
      (s\<lparr>mq_tail := x, sy_prod := (sy_prod s)(t := Linking x (mq_tail s))\<rparr>)"
| link_head: "sy_prod s t = Linking x u \<Longrightarrow> u \<le> 2 \<Longrightarrow>
    enqueue_step t s None (s\<lparr>mq_head := x, sy_prod := (sy_prod s)(t := if u = 1 then Waking else Ready)\<rparr>)"
| link_next: "sy_prod s t = Linking x u \<Longrightarrow> 2 < u \<Longrightarrow>
    enqueue_step t s None (s\<lparr>mq_next := (mq_next s)(u := x), sy_prod := (sy_prod s)(t := Ready)\<rparr>)"
| lock: "sy_prod s t = Waking \<Longrightarrow> \<not> holds_mutex (sy_cons s) \<Longrightarrow>
    enqueue_step t s None (s\<lparr>sy_prod := (sy_prod s)(t := Notifying)\<rparr>)"
| notify: "sy_prod s t = Notifying \<Longrightarrow>
    enqueue_step t s None (s\<lparr>sy_prod := (sy_prod s)(t := Ready),
      sy_cons := (if sy_cons s = Sleeping then Peeking True else sy_cons s)\<rparr>)"

text \<open>The second argument of \<open>Taking\<close> and \<open>Exchanging\<close> is what the consumer leaves in \<open>tail\<close>.  \<open>Walking tail xs\<close> has come past
  the objects \<open>xs\<close>; the last of them is the \<open>x\<close> of the source, and the first is what it returns.\<close>

inductive dequeue_step :: "mpsc_sys \<Rightarrow> mpsc_event option \<Rightarrow> mpsc_sys \<Rightarrow> bool" for s where
  call_some: "sy_cons s = Resting \<Longrightarrow> mq_head s \<noteq> null \<Longrightarrow> dequeue_step s None (s\<lparr>sy_cons := Taking (mq_head s) 0\<rparr>)"
| call_none: "sy_cons s = Resting \<Longrightarrow> mq_head s = null \<Longrightarrow> dequeue_step s (Some (Took [])) s"
| call_wait: "sy_cons s = Resting \<Longrightarrow> mq_head s = null \<Longrightarrow> dequeue_step s None (s\<lparr>sy_cons := Looking False\<rparr>)"
| spin: "sy_cons s = Looking sleeping \<Longrightarrow> dequeue_step s None (s\<lparr>sy_cons := Peeking sleeping\<rparr>)"
| lock_signal: "sy_cons s = Looking sleeping \<Longrightarrow> dequeue_step s None (s\<lparr>sy_cons := Locking sleeping\<rparr>)"
| arm: "sy_cons s = Locking sleeping \<Longrightarrow> mq_tail s = (if sleeping then 1 else 0) \<Longrightarrow>
    dequeue_step s None (s\<lparr>mq_tail := 1, sy_cons := Armed\<rparr>)"
| miss: "sy_cons s = Locking sleeping \<Longrightarrow> mq_tail s \<noteq> (if sleeping then 1 else 0) \<Longrightarrow>
    dequeue_step s None (s\<lparr>sy_cons := Peeking sleeping\<rparr>)"
| sleep: "sy_cons s = Armed \<Longrightarrow> dequeue_step s None (s\<lparr>sy_cons := Sleeping\<rparr>)"
| wake: "sy_cons s = Sleeping \<Longrightarrow> dequeue_step s None (s\<lparr>sy_cons := Peeking True\<rparr>)"
| peek_none: "sy_cons s = Peeking sleeping \<Longrightarrow> mq_head s = null \<Longrightarrow> dequeue_step s None (s\<lparr>sy_cons := Looking sleeping\<rparr>)"
| peek_some: "sy_cons s = Peeking sleeping \<Longrightarrow> mq_head s \<noteq> null \<Longrightarrow> dequeue_step s None (s\<lparr>sy_cons := Taking (mq_head s) 0\<rparr>)"
| take: "sy_cons s = Taking h r \<Longrightarrow> dequeue_step s None (s\<lparr>mq_head := null, sy_cons := Exchanging h r\<rparr>)"
| exchange: "sy_cons s = Exchanging h r \<Longrightarrow>
    dequeue_step s None (s\<lparr>mq_tail := r, sy_cons := Walking (if mq_tail s \<le> 2 then null else mq_tail s) [h]\<rparr>)"
| advance: "sy_cons s = Walking tail xs \<Longrightarrow> last xs \<noteq> tail \<Longrightarrow> mq_next s (last xs) \<noteq> null \<Longrightarrow>
    dequeue_step s None (s\<lparr>sy_cons := Walking tail (xs @ [mq_next s (last xs)])\<rparr>)"
| return: "sy_cons s = Walking tail xs \<Longrightarrow> last xs = tail \<Longrightarrow>
    dequeue_step s (Some (Took xs)) (s\<lparr>sy_cons := Resting, sy_free := sy_free s \<union> set xs\<rparr>)"

inductive abandon_step :: "mpsc_sys \<Rightarrow> mpsc_event option \<Rightarrow> mpsc_sys \<Rightarrow> bool" for s where
  abandon_empty: "sy_cons s = Resting \<Longrightarrow> mq_tail s = 0 \<Longrightarrow> abandon_step s (Some (Took [])) (s\<lparr>mq_tail := 2\<rparr>)"
| abandon_call: "sy_cons s = Resting \<Longrightarrow> mq_tail s \<noteq> 0 \<Longrightarrow> abandon_step s None (s\<lparr>sy_cons := Spinning\<rparr>)"
| abandon_some: "sy_cons s = Spinning \<Longrightarrow> mq_head s \<noteq> null \<Longrightarrow> abandon_step s None (s\<lparr>sy_cons := Taking (mq_head s) 2\<rparr>)"

inductive mpsc_step :: "mpsc_sys \<Rightarrow> mpsc_event option \<Rightarrow> mpsc_sys \<Rightarrow> bool" where
  producer: "enqueue_step t s e s' \<Longrightarrow> mpsc_step s e s'"
| consumer: "dequeue_step s e s' \<Longrightarrow> mpsc_step s e s'"
| abandoner: "abandon_step s e s' \<Longrightarrow> mpsc_step s e s'"

inductive mpsc_run :: "mpsc_sys \<Rightarrow> mpsc_event list \<Rightarrow> mpsc_sys \<Rightarrow> bool" for s where
  none: "mpsc_run s [] s"
| more: "mpsc_run s es s' \<Longrightarrow> mpsc_step s' e s'' \<Longrightarrow> mpsc_run s (es @ (case e of None \<Rightarrow> [] | Some ev \<Rightarrow> [ev])) s''"

fun entered :: "mpsc_event list \<Rightarrow> nat list" where
  "entered [] = []"
| "entered (Entered x _ # es) = x # entered es"
| "entered (Took _ # es) = entered es"

fun taken :: "mpsc_event list \<Rightarrow> nat list" where
  "taken [] = []"
| "taken (Entered _ _ # es) = taken es"
| "taken (Took xs # es) = xs @ taken es"

lemma entered_append [simp]: "entered (es @ fs) = entered es @ entered fs"
  by (induction es rule: entered.induct) simp_all

lemma taken_append [simp]: "taken (es @ fs) = taken es @ taken fs"
  by (induction es rule: taken.induct) simp_all

section \<open>What every step keeps\<close>

text \<open>\<open>q\<close> are the objects of the queue in the order in which they entered, \<open>w\<close> those of the batch the consumer walks
  over.  A link between neighbours is there or a producer is about to set it.\<close>

definition adj :: "nat list \<Rightarrow> nat \<Rightarrow> nat \<Rightarrow> bool" where
  "adj xs u y \<longleftrightarrow> (\<exists>as bs. xs = as @ u # y # bs)"

definition linking :: "mpsc_sys \<Rightarrow> nat \<Rightarrow> nat \<Rightarrow> bool" where
  "linking s y u \<longleftrightarrow> (\<exists>t. sy_prod s t = Linking y u)"

definition linked :: "mpsc_sys \<Rightarrow> nat \<Rightarrow> nat \<Rightarrow> bool" where
  "linked s x y \<longleftrightarrow> mq_next s x = y \<and> \<not> (\<exists>u. linking s y u) \<or> mq_next s x = null \<and> linking s y x"

definition chained :: "mpsc_sys \<Rightarrow> nat list \<Rightarrow> bool" where
  "chained s xs \<longleftrightarrow> distinct xs \<and> (\<forall>x \<in> set xs. 2 < x) \<and> successively (linked s) xs \<and>
     (xs \<noteq> [] \<longrightarrow> mq_next s (last xs) = null)"

definition taking :: "consumer \<Rightarrow> bool" where
  "taking c = (case c of Taking _ _ \<Rightarrow> True | Exchanging _ _ \<Rightarrow> True | _ \<Rightarrow> False)"

definition exchanging :: "consumer \<Rightarrow> bool" where
  "exchanging c = (case c of Exchanging _ _ \<Rightarrow> True | _ \<Rightarrow> False)"

definition links_ok :: "mpsc_sys \<Rightarrow> nat list \<Rightarrow> nat list \<Rightarrow> bool" where
  "links_ok s q w \<longleftrightarrow>
     (\<forall>t y u. sy_prod s t = Linking y u \<longrightarrow>
        (if u \<le> 2 then q \<noteq> [] \<and> hd q = y \<and> mq_head s = null \<and> \<not> taking (sy_cons s) else adj q u y \<or> adj w u y)) \<and>
     (\<forall>t t' y u u'. sy_prod s t = Linking y u \<longrightarrow> sy_prod s t' = Linking y u' \<longrightarrow> t = t')"

definition ends_ok :: "mpsc_sys \<Rightarrow> nat list \<Rightarrow> bool" where
  "ends_ok s q \<longleftrightarrow>
     (if q = [] then mq_head s = null \<and> mq_tail s \<le> 2
      else mq_tail s = last q \<and>
        (if mq_head s = null then exchanging (sy_cons s) \<or> (\<exists>u \<le> 2. linking s (hd q) u)
         else mq_head s = hd q \<and> \<not> exchanging (sy_cons s)))"

definition cons_ok :: "mpsc_sys \<Rightarrow> nat list \<Rightarrow> nat list \<Rightarrow> bool" where
  "cons_ok s q w \<longleftrightarrow>
     (case sy_cons s of
        Taking h r \<Rightarrow> w = [] \<and> q \<noteq> [] \<and> h = hd q \<and> mq_head s = h \<and> r \<le> 2
      | Exchanging h r \<Rightarrow> w = [] \<and> q \<noteq> [] \<and> h = hd q \<and> mq_head s = null \<and> r \<le> 2
      | Walking tail xs \<Rightarrow> xs \<noteq> [] \<and> prefix xs w \<and> tail = last w \<and> successively (\<lambda>x y. mq_next s x = y) xs
      | _ \<Rightarrow> w = [])"

definition holding :: "mpsc_sys \<Rightarrow> nat \<Rightarrow> nat \<Rightarrow> bool" where
  "holding s t x \<longleftrightarrow> sy_prod s t = Clearing x \<or> sy_prod s t = Swapping x"

definition own_ok :: "mpsc_sys \<Rightarrow> nat list \<Rightarrow> nat list \<Rightarrow> bool" where
  "own_ok s q w \<longleftrightarrow>
     (\<forall>t x. holding s t x \<longrightarrow> 2 < x \<and> x \<notin> sy_free s \<union> set q \<union> set w) \<and>
     (\<forall>t t' x. holding s t x \<longrightarrow> holding s t' x \<longrightarrow> t = t') \<and>
     (\<forall>t x. sy_prod s t = Swapping x \<longrightarrow> mq_next s x = null) \<and>
     sy_free s \<inter> (set q \<union> set w) = {}"

definition mpsc_ok :: "mpsc_sys \<Rightarrow> nat list \<Rightarrow> nat list \<Rightarrow> bool" where
  "mpsc_ok s q w \<longleftrightarrow> chained s q \<and> chained s w \<and> set q \<inter> set w = {} \<and> links_ok s q w \<and> ends_ok s q \<and> cons_ok s q w \<and> own_ok s q w"

lemma adj_nil [simp]: "\<not> adj [] u y"
  by (simp add: adj_def)

lemma adj_snoc: "adj (xs @ [z]) u y \<longleftrightarrow> adj xs u y \<or> xs \<noteq> [] \<and> u = last xs \<and> y = z"
proof
  assume "adj (xs @ [z]) u y"
  then obtain as bs where split: "xs @ [z] = as @ u # y # bs" by (auto simp: adj_def)
  show "adj xs u y \<or> xs \<noteq> [] \<and> u = last xs \<and> y = z"
  proof (cases bs rule: rev_cases)
    case Nil
    then have "xs @ [z] = (as @ [u]) @ [y]" using split by simp
    then have "xs = as @ [u] \<and> z = y" by (simp only: append1_eq_conv)
    then show ?thesis by auto
  next
    case (snoc cs c)
    then have "xs @ [z] = (as @ u # y # cs) @ [c]" using split by simp
    then have "xs = as @ u # y # cs" by (simp only: append1_eq_conv)
    then show ?thesis by (auto simp: adj_def)
  qed
next
  assume "adj xs u y \<or> xs \<noteq> [] \<and> u = last xs \<and> y = z"
  then show "adj (xs @ [z]) u y"
  proof
    assume "adj xs u y"
    then obtain as bs where "xs @ [z] = as @ u # y # (bs @ [z])" by (auto simp: adj_def)
    then show ?thesis unfolding adj_def by blast
  next
    assume "xs \<noteq> [] \<and> u = last xs \<and> y = z"
    then have "xs @ [z] = butlast xs @ u # y # []" by simp
    then show ?thesis unfolding adj_def by blast
  qed
qed

lemma successively_adj: "successively P xs \<longleftrightarrow> (\<forall>u y. adj xs u y \<longrightarrow> P u y)"
proof (induction xs rule: rev_induct)
  case Nil
  then show ?case by (simp add: adj_def)
next
  case (snoc z xs)
  then show ?case unfolding successively_append_iff adj_snoc by auto
qed

lemma adj_in: "adj xs u y \<Longrightarrow> u \<in> set xs \<and> y \<in> set xs"
  by (auto simp: adj_def)

lemma adj_not_hd:
  assumes "adj xs u y" and "distinct xs"
  shows "y \<noteq> hd xs"
proof -
  obtain as bs where "xs = as @ u # y # bs" using assms(1) by (auto simp: adj_def)
  then show ?thesis using assms(2) by (cases as) auto
qed

lemma adj_not_last: "adj xs u y \<Longrightarrow> distinct xs \<Longrightarrow> u \<noteq> last xs"
  by (cases xs rule: rev_cases) (auto simp: adj_snoc dest: adj_in)

lemma adj_unique: "adj xs u y \<Longrightarrow> adj xs u z \<Longrightarrow> distinct xs \<Longrightarrow> y = z"
  by (induction xs rule: rev_induct) (auto simp: adj_snoc dest: adj_not_last)

lemma adj_unique': "adj xs u y \<Longrightarrow> adj xs v y \<Longrightarrow> distinct xs \<Longrightarrow> u = v"
  by (induction xs rule: rev_induct) (auto simp: adj_snoc dest: adj_in)

lemma chained_cong:
  assumes "chained s xs" and "\<And>x. x \<in> set xs \<Longrightarrow> mq_next s' x = mq_next s x"
    and "\<And>a y u. adj xs a y \<Longrightarrow> linking s' y u = linking s y u"
  shows "chained s' xs"
proof -
  have "linked s' u y = linked s u y" if "adj xs u y" for u y
    using adj_in [OF that] assms(2) assms(3) [OF that] by (simp add: linked_def)
  then show ?thesis using assms(1,2) by (simp add: chained_def successively_adj)
qed

lemma linking_change:
  assumes "sy_prod s' = (sy_prod s)(t := p)" and "\<And>y u. sy_prod s t \<noteq> Linking y u"
  shows "linking s' y u \<longleftrightarrow> p = Linking y u \<or> linking s y u"
  unfolding linking_def assms(1) using assms(2) by (metis fun_upd_apply)

lemma empty_queue:
  assumes "mpsc_ok s q w" and "q = []"
  shows "mq_head s = null" "mq_tail s \<le> 2" "\<not> taking (sy_cons s)"
  using assms by (auto simp: mpsc_ok_def ends_ok_def cons_ok_def taking_def split: consumer.splits)

lemma full_queue:
  assumes "mpsc_ok s q w" and "q \<noteq> []"
  shows "mq_tail s = last q" "2 < last q" "2 < hd q"
  using assms by (simp_all add: mpsc_ok_def ends_ok_def chained_def)

lemma exchanging_taking: "exchanging c \<Longrightarrow> taking c"
  by (cases c) (simp_all add: exchanging_def taking_def)

lemma behind_head:
  assumes "mpsc_ok s q w" and "q \<noteq> []" and "adj q a y \<or> adj w a y"
  shows "y \<noteq> hd q"
proof -
  have lists: "distinct q" "set q \<inter> set w = {}" using assms(1) by (simp_all add: mpsc_ok_def chained_def)
  show ?thesis
    using assms(3)
  proof
    assume "adj q a y"
    then show ?thesis using lists(1) by (rule adj_not_hd)
  next
    assume "adj w a y"
    then have "y \<in> set w" by (simp add: adj_in)
    moreover have "hd q \<in> set q" using assms(2) by simp
    ultimately show ?thesis using lists(2) by auto
  qed
qed

lemma call_keeps:
  assumes ok: "mpsc_ok s q w" and "sy_prod s t = Ready" and "x \<in> sy_free s" and "2 < x"
  shows "mpsc_ok (s\<lparr>sy_prod := (sy_prod s)(t := Clearing x), sy_free := sy_free s - {x}\<rparr>) q w" (is "mpsc_ok ?s q w")
proof -
  have linking: "linking ?s y u = linking s y u" for y u using assms(2) by (subst linking_change [where s = s and t = t]) auto
  have "chained ?s q" "chained ?s w" using ok by (auto simp: mpsc_ok_def linking intro: chained_cong)
  moreover have "links_ok ?s q w" using ok by (auto simp: mpsc_ok_def links_ok_def)
  moreover have "ends_ok ?s q" using ok by (simp add: mpsc_ok_def ends_ok_def linking)
  moreover have "cons_ok ?s q w" using ok by (simp add: mpsc_ok_def cons_ok_def cong: consumer.case_cong)
  moreover have "own_ok ?s q w" using ok assms(2-4) unfolding mpsc_ok_def own_ok_def holding_def by auto
  ultimately show ?thesis using ok by (simp add: mpsc_ok_def)
qed

lemma clear_keeps:
  assumes ok: "mpsc_ok s q w" and "sy_prod s t = Clearing x"
  shows "mpsc_ok (s\<lparr>mq_next := (mq_next s)(x := null), sy_prod := (sy_prod s)(t := Swapping x)\<rparr>) q w" (is "mpsc_ok ?s q w")
proof -
  have linking: "linking ?s y u = linking s y u" for y u using assms(2) by (subst linking_change [where s = s and t = t]) auto
  have x: "x \<notin> set q" "x \<notin> set w" "x \<notin> sy_free s" "2 < x" using ok assms(2) by (auto simp: mpsc_ok_def own_ok_def holding_def)
  then have "mq_next ?s y = mq_next s y" if "y \<in> set q \<or> y \<in> set w" for y using that by auto
  then have "chained ?s q" "chained ?s w" using ok by (auto simp: mpsc_ok_def linking simp del: fun_upd_apply intro: chained_cong)
  moreover have "links_ok ?s q w" using ok by (auto simp: mpsc_ok_def links_ok_def)
  moreover have "ends_ok ?s q" using ok by (simp add: mpsc_ok_def ends_ok_def linking)
  moreover have "cons_ok ?s q w" using ok x(2)
    by (auto simp: mpsc_ok_def cons_ok_def successively_adj split: consumer.splits dest!: adj_in set_mono_prefix)
  moreover have "own_ok ?s q w" using ok assms(2) x unfolding mpsc_ok_def own_ok_def holding_def by auto
  ultimately show ?thesis using ok by (simp add: mpsc_ok_def)
qed

lemma swap_keeps:
  assumes ok: "mpsc_ok s q w" and "sy_prod s t = Swapping x"
  shows "mpsc_ok (s\<lparr>mq_tail := x, sy_prod := (sy_prod s)(t := Linking x (mq_tail s))\<rparr>) (q @ [x]) w" (is "mpsc_ok ?s ?q w")
proof -
  have x: "x \<notin> set q" "x \<notin> set w" "x \<notin> sy_free s" "2 < x" "mq_next s x = null"
    using ok assms(2) by (auto simp: mpsc_ok_def own_ok_def holding_def)
  have linking: "linking ?s y u = (y = x \<and> u = mq_tail s \<or> linking s y u)" for y u
    using assms(2) by (subst linking_change [where s = s and t = t]) auto
  have fresh: "\<not> linking s x u" for u
    using ok x by (fastforce simp: mpsc_ok_def links_ok_def linking_def dest: adj_in split: if_splits)
  have fresh': "\<not> linking s y x" for y
    using ok x by (fastforce simp: mpsc_ok_def links_ok_def linking_def dest: adj_in split: if_splits)
  have keep: "chained ?s xs" if "chained s xs" "x \<notin> set xs" for xs
    using that by (auto simp: linking intro!: chained_cong [where s = s] dest: adj_in)
  have "chained ?s ?q"
  proof (cases q rule: rev_cases)
    case Nil
    then show ?thesis using x by (simp add: chained_def)
  next
    case (snoc ys z)
    then have "mq_tail s = z" "chained s q" "mq_next s z = null" using ok by (auto simp: mpsc_ok_def ends_ok_def chained_def)
    moreover have "linked ?s z x" using calculation x by (auto simp: linked_def linking)
    ultimately show ?thesis using keep [of q] x snoc by (auto simp: chained_def successively_append_iff)
  qed
  moreover have "chained ?s w" using ok keep x by (simp add: mpsc_ok_def)
  moreover have "links_ok ?s ?q w"
    unfolding links_ok_def
  proof (intro conjI allI impI)
    fix t' y u
    assume p: "sy_prod ?s t' = Linking y u"
    show "if u \<le> 2 then ?q \<noteq> [] \<and> hd ?q = y \<and> mq_head ?s = null \<and> \<not> taking (sy_cons ?s) else adj ?q u y \<or> adj w u y"
    proof (cases "t' = t")
      case False
      then have "if u \<le> 2 then q \<noteq> [] \<and> hd q = y \<and> mq_head s = null \<and> \<not> taking (sy_cons s) else adj q u y \<or> adj w u y"
        using p ok by (simp add: mpsc_ok_def links_ok_def)
      then show ?thesis by (auto simp: adj_snoc split: if_splits)
    next
      case True
      then have "y = x" "u = mq_tail s" using p by simp_all
      then show ?thesis using empty_queue [OF ok] full_queue [OF ok] by (cases "q = []") (simp_all add: adj_snoc)
    qed
  next
    fix t' t'' y u u'
    assume "sy_prod ?s t' = Linking y u" "sy_prod ?s t'' = Linking y u'"
    moreover have "sy_prod s t' = Linking y u \<Longrightarrow> sy_prod s t'' = Linking y u' \<Longrightarrow> t' = t''"
      using ok by (simp add: mpsc_ok_def links_ok_def)
    ultimately show "t' = t''" using fresh by (auto simp: linking_def split: if_splits)
  qed
  moreover have "ends_ok ?s ?q"
    using ok unfolding mpsc_ok_def ends_ok_def linking by (auto split: if_splits)
  moreover have "cons_ok ?s ?q w" using ok by (auto simp: mpsc_ok_def cons_ok_def split: consumer.splits)
  moreover have "own_ok ?s ?q w" using ok assms(2) x unfolding mpsc_ok_def own_ok_def holding_def by auto
  ultimately show ?thesis using ok x by (simp add: mpsc_ok_def)
qed

lemma linking_removed:
  assumes "mpsc_ok s q w" and "sy_prod s t = Linking x u" and "sy_prod s' = (sy_prod s)(t := p)" and "\<And>y u. p \<noteq> Linking y u"
  shows "linking s' y v \<longleftrightarrow> linking s y v \<and> y \<noteq> x"
proof
  assume "linking s' y v"
  then obtain t' where "t' \<noteq> t" "sy_prod s t' = Linking y v" using assms(3,4) by (auto simp: linking_def split: if_splits)
  then show "linking s y v \<and> y \<noteq> x" using assms(1,2) by (auto simp: linking_def mpsc_ok_def links_ok_def)
next
  assume "linking s y v \<and> y \<noteq> x"
  then obtain t' where "sy_prod s t' = Linking y v" "y \<noteq> x" by (auto simp: linking_def)
  moreover from this have "t' \<noteq> t" using assms(2) by auto
  ultimately have "sy_prod s' t' = Linking y v" using assms(3) by simp
  then show "linking s' y v" unfolding linking_def ..
qed

lemma link_head_keeps:
  assumes ok: "mpsc_ok s q w" and p: "sy_prod s t = Linking x u" and "u \<le> 2" and p': "p' = Ready \<or> p' = Waking"
  shows "mpsc_ok (s\<lparr>mq_head := x, sy_prod := (sy_prod s)(t := p')\<rparr>) q w" (is "mpsc_ok ?s q w")
proof -
  have q: "q \<noteq> []" "hd q = x" "mq_head s = null" "\<not> taking (sy_cons s)" using ok p assms(3) by (auto simp: mpsc_ok_def links_ok_def split: if_splits)
  have linking: "linking ?s y v \<longleftrightarrow> linking s y v \<and> y \<noteq> x" for y v
    using p' by (intro linking_removed [OF ok p]) auto
  have "y \<noteq> x" if "adj q a y \<or> adj w a y" for a y using behind_head [OF ok q(1) that] q(2) by simp
  then have same: "linking ?s y v = linking s y v" if "adj q a y \<or> adj w a y" for a y v using that unfolding linking by blast
  have "chained ?s xs" if "xs = q \<or> xs = w" for xs
  proof (rule chained_cong [where s = s])
    show "chained s xs" using that ok by (auto simp: mpsc_ok_def)
    show "linking ?s y v = linking s y v" if "adj xs a y" for a y v using same \<open>xs = q \<or> xs = w\<close> that by blast
  qed simp
  then have "chained ?s q" "chained ?s w" by blast+
  moreover have "links_ok ?s q w"
    unfolding links_ok_def
  proof (intro conjI allI impI)
    fix t' y v
    assume "sy_prod ?s t' = Linking y v"
    then have "sy_prod s t' = Linking y v" "y \<noteq> x" using linking [of y v] p' by (auto simp: linking_def split: if_splits)
    then show "if v \<le> 2 then q \<noteq> [] \<and> hd q = y \<and> mq_head ?s = null \<and> \<not> taking (sy_cons ?s) else adj q v y \<or> adj w v y"
      using ok q(2) by (auto simp: mpsc_ok_def links_ok_def split: if_splits)
  next
    fix t' t'' y v v'
    assume "sy_prod ?s t' = Linking y v" "sy_prod ?s t'' = Linking y v'"
    then show "t' = t''" using ok p' by (auto simp: mpsc_ok_def links_ok_def split: if_splits)
  qed
  moreover have "ends_ok ?s q"
  proof -
    have "0 < x" using full_queue(3) [OF ok q(1)] q(2) by simp
    moreover have "\<not> exchanging (sy_cons s)" using q(4) exchanging_taking by blast
    ultimately show ?thesis using full_queue(1) [OF ok q(1)] q(1,2) by (simp add: ends_ok_def)
  qed
  moreover have "cons_ok ?s q w" using ok q(4) by (auto simp: mpsc_ok_def cons_ok_def taking_def split: consumer.splits)
  moreover have "own_ok ?s q w" using ok p p' unfolding mpsc_ok_def own_ok_def holding_def by auto
  ultimately show ?thesis using ok by (simp add: mpsc_ok_def)
qed

lemma link_next_keeps:
  assumes ok: "mpsc_ok s q w" and p: "sy_prod s t = Linking x u" and "2 < u"
  shows "mpsc_ok (s\<lparr>mq_next := (mq_next s)(u := x), sy_prod := (sy_prod s)(t := Ready)\<rparr>) q w" (is "mpsc_ok ?s q w")
proof -
  have at: "adj q u x \<or> adj w u x" using ok p assms(3) by (auto simp: mpsc_ok_def links_ok_def split: if_splits)
  have lists: "chained s q" "chained s w" "set q \<inter> set w = {}" using ok by (simp_all add: mpsc_ok_def)
  have null: "mq_next s u = null"
  proof -
    have "linked s u x" using at lists(1,2) by (auto simp: chained_def successively_adj)
    moreover have "linking s x u" using p by (auto simp: linking_def)
    ultimately show ?thesis by (auto simp: linked_def)
  qed
  have linking: "linking ?s y v \<longleftrightarrow> linking s y v \<and> y \<noteq> x" for y v
    by (intro linking_removed [OF ok p]) auto
  have keep: "chained ?s xs" if "chained s xs" and other: "adj xs u x \<or> u \<notin> set xs \<and> x \<notin> set xs" for xs
  proof -
    have "linked ?s a y" if "adj xs a y" for a y
    proof (cases "a = u \<and> y = x")
      case False
      then have "a \<noteq> u" "y \<noteq> x"
        using other that \<open>chained s xs\<close> by (auto simp: chained_def dest: adj_in adj_unique adj_unique')
      then show ?thesis using that \<open>chained s xs\<close> by (simp add: chained_def successively_adj linked_def linking)
    qed (simp add: linked_def linking)
    moreover have "u \<noteq> last xs" if "xs \<noteq> []" using other that \<open>chained s xs\<close> by (auto simp: chained_def dest: adj_not_last)
    ultimately show ?thesis using \<open>chained s xs\<close> by (auto simp: chained_def successively_adj)
  qed
  have "adj q u x \<or> u \<notin> set q \<and> x \<notin> set q" "adj w u x \<or> u \<notin> set w \<and> x \<notin> set w" using at lists(3) by (auto dest: adj_in)
  then have "chained ?s q" "chained ?s w" using keep lists by blast+
  moreover have "links_ok ?s q w"
    unfolding links_ok_def
  proof (intro conjI allI impI)
    fix t' y v
    assume "sy_prod ?s t' = Linking y v"
    then have "sy_prod s t' = Linking y v" by (auto split: if_splits)
    then show "if v \<le> 2 then q \<noteq> [] \<and> hd q = y \<and> mq_head ?s = null \<and> \<not> taking (sy_cons ?s) else adj q v y \<or> adj w v y"
      using ok by (auto simp: mpsc_ok_def links_ok_def split: if_splits)
  next
    fix t' t'' y v v'
    assume "sy_prod ?s t' = Linking y v" "sy_prod ?s t'' = Linking y v'"
    then show "t' = t''" using ok by (auto simp: mpsc_ok_def links_ok_def split: if_splits)
  qed
  moreover have "ends_ok ?s q"
  proof -
    have "hd q \<noteq> x" if "q \<noteq> []" using behind_head [OF ok that at] by simp
    then show ?thesis using ok by (auto simp: mpsc_ok_def ends_ok_def linking)
  qed
  moreover have "cons_ok ?s q w"
  proof -
    have "successively (\<lambda>a y. mq_next ?s a = y) xs" if "successively (\<lambda>a y. mq_next s a = y) xs" "prefix xs w" for xs
    proof -
      have "mq_next ?s a = y" if "adj xs a y" "mq_next s a = y" for a y
      proof -
        have "2 < y" using that(1) \<open>prefix xs w\<close> lists(2) by (auto simp: chained_def dest!: adj_in set_mono_prefix)
        then show ?thesis using that(2) null by auto
      qed
      then show ?thesis using that(1) by (simp add: successively_adj)
    qed
    then show ?thesis using ok by (simp add: mpsc_ok_def cons_ok_def split: consumer.splits)
  qed
  moreover have "own_ok ?s q w"
  proof -
    have "u \<in> set q \<union> set w" using at by (auto dest: adj_in)
    then show ?thesis using ok p unfolding mpsc_ok_def own_ok_def holding_def by auto
  qed
  ultimately show ?thesis using ok by (simp add: mpsc_ok_def)
qed

text \<open>Steps that change only the phase of a producer or of the consumer.\<close>

lemma phase_keeps:
  assumes ok: "mpsc_ok s q w"
    and "sy_prod s' = (sy_prod s)(t := p)" and "\<And>y u. sy_prod s t \<noteq> Linking y u" "\<And>y u. p \<noteq> Linking y u"
    and "\<And>x. p \<noteq> Clearing x" "\<And>x. p \<noteq> Swapping x"
    and "mq_head s' = mq_head s" "mq_tail s' = mq_tail s" "mq_next s' = mq_next s" "sy_free s' = sy_free s"
    and "taking (sy_cons s') = taking (sy_cons s)" "exchanging (sy_cons s') = exchanging (sy_cons s)" "cons_ok s' q w"
  shows "mpsc_ok s' q w"
proof -
  have linking: "linking s' y u = linking s y u" for y u
    by (subst linking_change [OF assms(2,3)]) (use assms(4) in simp)
  have "chained s' q" "chained s' w" using ok assms(9) by (auto simp: mpsc_ok_def linking intro: chained_cong)
  moreover have "links_ok s' q w" using ok assms(2-4,7,11) by (auto simp: mpsc_ok_def links_ok_def)
  moreover have "ends_ok s' q" using ok assms(7,8,12) by (simp add: mpsc_ok_def ends_ok_def linking)
  moreover have "own_ok s' q w" using ok assms(2,5,6,9,10) unfolding mpsc_ok_def own_ok_def holding_def by auto
  ultimately show ?thesis using ok assms(13) by (simp add: mpsc_ok_def)
qed

definition enters :: "mpsc_event option \<Rightarrow> nat list" where
  "enters e = (case e of Some (Entered x _) \<Rightarrow> [x] | _ \<Rightarrow> [])"

lemma enqueue_keeps:
  assumes "enqueue_step t s e s'" and ok: "mpsc_ok s q w"
  shows "mpsc_ok s' (q @ enters e) w"
  using assms(1)
proof cases
  case (call x)
  then show ?thesis using call_keeps [OF ok call(3-5)] by (simp add: enters_def)
next
  case (clear x)
  then show ?thesis using clear_keeps [OF ok clear(3)] by (simp add: enters_def)
next
  case (swap x)
  then show ?thesis using swap_keeps [OF ok swap(3)] by (simp add: enters_def)
next
  case (link_head x u)
  then show ?thesis using link_head_keeps [OF ok link_head(3,4), of "if u = 1 then Waking else Ready"] by (simp add: enters_def)
next
  case (link_next x u)
  then show ?thesis using link_next_keeps [OF ok link_next(3,4)] by (simp add: enters_def)
next
  case lock
  have "cons_ok s' q w" using ok lock(2) by (auto simp: mpsc_ok_def cons_ok_def split: consumer.splits)
  then have "mpsc_ok s' q w" using lock by (intro phase_keeps [OF ok, of s' t Notifying]) simp_all
  then show ?thesis using lock(1) by (simp add: enters_def)
next
  case notify
  have "cons_ok s' q w" using ok notify(2) by (auto simp: mpsc_ok_def cons_ok_def split: consumer.splits)
  moreover have "taking (sy_cons s') = taking (sy_cons s)" "exchanging (sy_cons s') = exchanging (sy_cons s)"
    using notify(2) by (simp_all add: taking_def exchanging_def)
  ultimately have "mpsc_ok s' q w" using notify by (intro phase_keeps [OF ok, of s' t Ready]) simp_all
  then show ?thesis using notify(1) by (simp add: enters_def)
qed

definition takes :: "mpsc_event option \<Rightarrow> nat list" where
  "takes e = (case e of Some (Took xs) \<Rightarrow> xs | _ \<Rightarrow> [])"

lemma link_low:
  assumes "mpsc_ok s q w" and "sy_prod s t = Linking y u" and "u \<le> 2"
  shows "q \<noteq> []" "hd q = y" "mq_head s = null" "\<not> taking (sy_cons s)"
  using assms by (auto simp: mpsc_ok_def links_ok_def)

lemma link_high: "mpsc_ok s q w \<Longrightarrow> sy_prod s t = Linking y u \<Longrightarrow> \<not> u \<le> 2 \<Longrightarrow> adj q u y \<or> adj w u y"
  unfolding mpsc_ok_def links_ok_def by metis

lemma link_unique: "mpsc_ok s q w \<Longrightarrow> sy_prod s t = Linking y u \<Longrightarrow> sy_prod s t' = Linking y u' \<Longrightarrow> t = t'"
  by (simp add: mpsc_ok_def links_ok_def)

text \<open>Steps of the consumer that change only its phase.\<close>

lemma consumer_phase_keeps:
  assumes ok: "mpsc_ok s q w" and "cons_ok (s\<lparr>sy_cons := c\<rparr>) q w" and "taking c \<longrightarrow> mq_head s \<noteq> null"
    and "exchanging c = exchanging (sy_cons s)"
  shows "mpsc_ok (s\<lparr>sy_cons := c\<rparr>) q w" (is "mpsc_ok ?s q w")
proof -
  have linking: "linking ?s y u = linking s y u" for y u by (simp add: linking_def)
  have "chained ?s q" "chained ?s w" using ok by (auto simp: mpsc_ok_def linking intro: chained_cong)
  moreover have "links_ok ?s q w" using ok assms(3) by (auto simp: mpsc_ok_def links_ok_def)
  moreover have "ends_ok ?s q" using ok assms(4) by (simp add: mpsc_ok_def ends_ok_def linking)
  moreover have "own_ok ?s q w" using ok by (simp add: mpsc_ok_def own_ok_def holding_def)
  ultimately show ?thesis using ok assms(2) by (simp add: mpsc_ok_def)
qed

definition idle :: "consumer \<Rightarrow> bool" where
  "idle c = (case c of Taking _ _ \<Rightarrow> False | Exchanging _ _ \<Rightarrow> False | Walking _ _ \<Rightarrow> False | _ \<Rightarrow> True)"

lemma idle_cases: "idle c \<Longrightarrow> \<not> taking c \<and> \<not> exchanging c \<and> (cons_ok (s\<lparr>sy_cons := c\<rparr>) q w \<longleftrightarrow> w = [])"
  by (cases c) (simp_all add: idle_def taking_def exchanging_def cons_ok_def)

lemma idle_batch:
  assumes "mpsc_ok s q w" and "idle (sy_cons s)"
  shows "w = []"
  using idle_cases [OF assms(2), of s q w] assms(1) by (simp add: mpsc_ok_def)

lemma idle_keeps:
  assumes ok: "mpsc_ok s q w" and "idle (sy_cons s)" and "idle c"
  shows "mpsc_ok (s\<lparr>sy_cons := c\<rparr>) q w"
  using idle_cases [OF assms(2), of s q w] idle_cases [OF assms(3), of s q w] idle_batch [OF assms(1,2)]
  by (intro consumer_phase_keeps [OF ok]) simp_all

lemma take_head_keeps:
  assumes ok: "mpsc_ok s q w" and "idle (sy_cons s)" and "mq_head s \<noteq> null" and "r \<le> 2"
  shows "mpsc_ok (s\<lparr>sy_cons := Taking (mq_head s) r\<rparr>) q w"
proof -
  have "q \<noteq> []" "mq_head s = hd q" using ok assms(3) by (auto simp: mpsc_ok_def ends_ok_def split: if_splits)
  moreover have "\<not> exchanging (sy_cons s)" "w = []" using idle_cases [OF assms(2)] idle_batch [OF ok assms(2)] by blast+
  ultimately show ?thesis using assms by (intro consumer_phase_keeps [OF ok]) (simp_all add: cons_ok_def exchanging_def)
qed

lemma arm_keeps:
  assumes ok: "mpsc_ok s q w" and "idle (sy_cons s)" and "mq_tail s \<le> 2" and "r \<le> 2" and "idle c"
  shows "mpsc_ok (s\<lparr>mq_tail := r, sy_cons := c\<rparr>) q w" (is "mpsc_ok ?s q w")
proof -
  have lists: "q = []" "w = []" using full_queue [OF ok] assms(3) idle_batch [OF ok assms(2)] by fastforce+
  have "sy_prod s t \<noteq> Linking y u" for t y u
    using lists link_low(1) [OF ok] link_high [OF ok] by (metis adj_nil)
  moreover have "cons_ok ?s q w" using idle_cases [OF assms(5), of "s\<lparr>mq_tail := r\<rparr>" q w] lists by simp
  ultimately show ?thesis using ok lists assms(4)
    by (simp add: mpsc_ok_def chained_def links_ok_def ends_ok_def own_ok_def holding_def)
qed

lemma take_keeps:
  assumes ok: "mpsc_ok s q w" and c: "sy_cons s = Taking h r"
  shows "mpsc_ok (s\<lparr>mq_head := null, sy_cons := Exchanging h r\<rparr>) q w" (is "mpsc_ok ?s q w")
proof -
  have linking: "linking ?s y u = linking s y u" for y u by (simp add: linking_def)
  have q: "w = []" "q \<noteq> []" "h = hd q" "r \<le> 2" using ok c by (auto simp: mpsc_ok_def cons_ok_def)
  have "chained ?s q" "chained ?s w" using ok by (auto simp: mpsc_ok_def linking intro: chained_cong)
  moreover have "links_ok ?s q w"
  proof -
    have "\<not> u \<le> 2" if "sy_prod s t = Linking y u" for t y u
      using link_low(4) [OF ok that] c by (auto simp: taking_def)
    then show ?thesis using ok by (auto simp: mpsc_ok_def links_ok_def)
  qed
  moreover have "ends_ok ?s q" using full_queue(1) [OF ok q(2)] q(2) by (simp add: ends_ok_def exchanging_def)
  moreover have "cons_ok ?s q w" using q by (simp add: cons_ok_def)
  moreover have "own_ok ?s q w" using ok by (simp add: mpsc_ok_def own_ok_def holding_def)
  ultimately show ?thesis using ok by (simp add: mpsc_ok_def)
qed

lemma exchange_keeps:
  assumes ok: "mpsc_ok s q w" and c: "sy_cons s = Exchanging h r"
  shows "mpsc_ok (s\<lparr>mq_tail := r, sy_cons := Walking (if mq_tail s \<le> 2 then null else mq_tail s) [h]\<rparr>) [] q" (is "mpsc_ok ?s [] q")
    and "w = []"
proof -
  have linking: "linking ?s y u = linking s y u" for y u by (simp add: linking_def)
  have q: "w = []" "q \<noteq> []" "h = hd q" "mq_head s = null" "r \<le> 2" using ok c by (auto simp: mpsc_ok_def cons_ok_def)
  then show "w = []" by simp
  have "chained s q" using ok by (simp add: mpsc_ok_def)
  then have "chained ?s q" by (rule chained_cong) (simp_all add: linking)
  moreover have "links_ok ?s [] q"
  proof -
    have "\<not> u \<le> 2" if "sy_prod s t = Linking y u" for t y u
      using link_low(4) [OF ok that] c by (auto simp: taking_def)
    then show ?thesis using ok q(1) by (auto simp: mpsc_ok_def links_ok_def)
  qed
  moreover have "ends_ok ?s []" using q by (simp add: ends_ok_def)
  moreover have "cons_ok ?s [] q"
  proof -
    have "prefix [hd q] q" using q(2) by (cases q) simp_all
    then show ?thesis using full_queue [OF ok q(2)] q(3) by (simp add: cons_ok_def)
  qed
  moreover have "own_ok ?s [] q" using ok q(1) by (auto simp: mpsc_ok_def own_ok_def holding_def)
  ultimately show "mpsc_ok ?s [] q" by (simp add: mpsc_ok_def chained_def)
qed

lemma walk_on:
  assumes ok: "mpsc_ok s q w" and c: "sy_cons s = Walking tail xs" and "last xs \<noteq> tail"
  shows "\<exists>z zs. w = xs @ z # zs \<and> linked s (last xs) z"
proof -
  have xs: "xs \<noteq> []" "prefix xs w" "tail = last w" using ok c by (auto simp: mpsc_ok_def cons_ok_def)
  then obtain zs where w: "w = xs @ zs" by (auto simp: prefix_def)
  then obtain z zs' where zs: "zs = z # zs'" using assms(3) xs(3) by (cases zs) auto
  then have "w = butlast xs @ last xs # z # zs'" using xs(1) w by simp
  then have "adj w (last xs) z" unfolding adj_def by blast
  then show ?thesis using ok w zs by (auto simp: mpsc_ok_def chained_def successively_adj)
qed

lemma advance_keeps:
  assumes ok: "mpsc_ok s q w" and c: "sy_cons s = Walking tail xs" and "last xs \<noteq> tail" and "mq_next s (last xs) \<noteq> null"
  shows "mpsc_ok (s\<lparr>sy_cons := Walking tail (xs @ [mq_next s (last xs)])\<rparr>) q w"
proof -
  obtain z zs where w: "w = xs @ z # zs" and "linked s (last xs) z" using walk_on [OF ok c assms(3)] by blast
  then have z: "mq_next s (last xs) = z" using assms(4) by (auto simp: linked_def)
  have xs: "xs \<noteq> []" "tail = last w" "successively (\<lambda>x y. mq_next s x = y) xs" using ok c by (auto simp: mpsc_ok_def cons_ok_def)
  have "cons_ok (s\<lparr>sy_cons := Walking tail (xs @ [mq_next s (last xs)])\<rparr>) q w"
    using xs w z by (simp add: cons_ok_def successively_append_iff)
  then show ?thesis using c by (intro consumer_phase_keeps [OF ok]) (simp_all add: taking_def exchanging_def)
qed

lemma walked_all:
  assumes ok: "mpsc_ok s q w" and c: "sy_cons s = Walking tail xs" and "last xs = tail"
  shows "w = xs" and "adj xs u y \<Longrightarrow> mq_next s u = y \<and> \<not> linking s y v"
proof -
  have xs: "xs \<noteq> []" "prefix xs w" "tail = last w" "successively (\<lambda>x y. mq_next s x = y) xs" using ok c by (auto simp: mpsc_ok_def cons_ok_def)
  then obtain zs where w: "w = xs @ zs" by (auto simp: prefix_def)
  have "distinct w" using ok by (simp add: mpsc_ok_def chained_def)
  then have "zs = []" using w xs assms(3) by (cases zs rule: rev_cases) auto
  then show "w = xs" using w by simp
  show "mq_next s u = y \<and> \<not> linking s y v" if "adj xs u y"
  proof -
    have "mq_next s u = y" using xs(4) that by (simp add: successively_adj)
    moreover have "2 < y" "linked s u y" using ok \<open>w = xs\<close> that by (auto simp: mpsc_ok_def chained_def successively_adj dest: adj_in)
    ultimately show ?thesis by (auto simp: linked_def)
  qed
qed

lemma return_keeps:
  assumes ok: "mpsc_ok s q w" and c: "sy_cons s = Walking tail xs" and "last xs = tail"
  shows "mpsc_ok (s\<lparr>sy_cons := Resting, sy_free := sy_free s \<union> set xs\<rparr>) q []" (is "mpsc_ok ?s q []")
proof -
  have linking: "linking ?s y u = linking s y u" for y u by (simp add: linking_def)
  note all = walked_all [OF assms]
  have "chained ?s q" using ok by (auto simp: mpsc_ok_def linking intro: chained_cong)
  moreover have "links_ok ?s q []"
  proof -
    have "if u \<le> 2 then q \<noteq> [] \<and> hd q = y \<and> mq_head s = null else adj q u y" if "sy_prod s t = Linking y u" for t y u
    proof -
      have "\<not> adj w u y" using all that by (auto simp: linking_def)
      then show ?thesis using link_low [OF ok that] link_high [OF ok that] by (cases "u \<le> 2") simp_all
    qed
    then show ?thesis using link_unique [OF ok] by (auto simp: links_ok_def taking_def)
  qed
  moreover have "ends_ok ?s q" using ok c by (auto simp: mpsc_ok_def ends_ok_def linking exchanging_def split: if_splits)
  moreover have "cons_ok ?s q []" by (simp add: cons_ok_def)
  moreover have "own_ok ?s q []" using ok all(1) unfolding mpsc_ok_def own_ok_def holding_def by auto
  ultimately show ?thesis by (simp add: mpsc_ok_def chained_def)
qed

lemma dequeue_keeps:
  assumes "dequeue_step s e s'" and ok: "mpsc_ok s q w"
  shows "\<exists>q' w'. mpsc_ok s' q' w' \<and> w @ q = takes e @ w' @ q' \<and> enters e = []"
  using assms(1)
proof cases
  case call_some
  then have "mpsc_ok s' q w" by (simp add: take_head_keeps [OF ok] idle_def)
  then show ?thesis using call_some(1) by (auto simp: takes_def enters_def)
next
  case call_none
  then show ?thesis using ok by (auto simp: takes_def enters_def)
next
  case call_wait
  then have "mpsc_ok s' q w" by (simp add: idle_keeps [OF ok] idle_def)
  then show ?thesis using call_wait(1) by (auto simp: takes_def enters_def)
next
  case (spin sleeping)
  then have "mpsc_ok s' q w" by (simp add: idle_keeps [OF ok] idle_def)
  then show ?thesis using spin(1) by (auto simp: takes_def enters_def)
next
  case (lock_signal sleeping)
  then have "mpsc_ok s' q w" by (simp add: idle_keeps [OF ok] idle_def)
  then show ?thesis using lock_signal(1) by (auto simp: takes_def enters_def)
next
  case (arm sleeping)
  then have "mpsc_ok (s\<lparr>mq_tail := 1, sy_cons := Armed\<rparr>) q w" by (intro arm_keeps [OF ok]) (simp_all add: idle_def)
  then have "mpsc_ok s' q w" unfolding arm(2) .
  then show ?thesis using arm(1) by (auto simp: takes_def enters_def)
next
  case (miss sleeping)
  then have "mpsc_ok s' q w" by (simp add: idle_keeps [OF ok] idle_def)
  then show ?thesis using miss(1) by (auto simp: takes_def enters_def)
next
  case sleep
  then have "mpsc_ok s' q w" by (simp add: idle_keeps [OF ok] idle_def)
  then show ?thesis using sleep(1) by (auto simp: takes_def enters_def)
next
  case wake
  then have "mpsc_ok s' q w" by (simp add: idle_keeps [OF ok] idle_def)
  then show ?thesis using wake(1) by (auto simp: takes_def enters_def)
next
  case (peek_none sleeping)
  then have "mpsc_ok s' q w" by (simp add: idle_keeps [OF ok] idle_def)
  then show ?thesis using peek_none(1) by (auto simp: takes_def enters_def)
next
  case (peek_some sleeping)
  then have "mpsc_ok s' q w" by (simp add: take_head_keeps [OF ok] idle_def)
  then show ?thesis using peek_some(1) by (auto simp: takes_def enters_def)
next
  case (take h r)
  then have "mpsc_ok s' q w" using take_keeps [OF ok] by simp
  then show ?thesis using take(1) by (auto simp: takes_def enters_def)
next
  case (exchange h r)
  then have "mpsc_ok s' [] q" "w = []" using exchange_keeps [OF ok] by simp_all
  then show ?thesis using exchange(1) by (auto simp: takes_def enters_def)
next
  case (advance tail xs)
  then have "mpsc_ok s' q w" using advance_keeps [OF ok] by simp
  then show ?thesis using advance(1) by (auto simp: takes_def enters_def)
next
  case (return tail xs)
  then have "mpsc_ok s' q []" "w = xs" using return_keeps [OF ok] walked_all(1) [OF ok] by simp_all
  then show ?thesis using return(1) by (auto simp: takes_def enters_def)
qed

lemma abandon_keeps:
  assumes "abandon_step s e s'" and ok: "mpsc_ok s q w"
  shows "mpsc_ok s' q w" and "takes e = []" and "enters e = []"
proof -
  from assms(1) show "mpsc_ok s' q w"
  proof cases
    case abandon_empty
    then have "mpsc_ok (s\<lparr>mq_tail := 2, sy_cons := Resting\<rparr>) q w" by (intro arm_keeps [OF ok]) (simp_all add: idle_def)
    moreover have "s' = s\<lparr>mq_tail := 2, sy_cons := Resting\<rparr>" using abandon_empty by simp
    ultimately show ?thesis by simp
  next
    case abandon_call
    then show ?thesis by (simp add: idle_keeps [OF ok] idle_def)
  next
    case abandon_some
    then show ?thesis by (simp add: take_head_keeps [OF ok] idle_def)
  qed
  from assms(1) show "takes e = []" "enters e = []" by (auto simp: takes_def enters_def elim: abandon_step.cases)
qed

lemma enqueue_takes: "enqueue_step t s e s' \<Longrightarrow> takes e = []"
  by (auto simp: takes_def elim: enqueue_step.cases)

lemma mpsc_step_keeps:
  assumes "mpsc_step s e s'" and ok: "mpsc_ok s q w"
  shows "\<exists>q' w'. mpsc_ok s' q' w' \<and> w @ q @ enters e = takes e @ w' @ q'"
  using assms(1)
proof cases
  case (producer t)
  then show ?thesis using enqueue_keeps [OF producer ok] enqueue_takes [OF producer] by fastforce
next
  case consumer
  then obtain q' w' where "mpsc_ok s' q' w'" "w @ q = takes e @ w' @ q'" "enters e = []" using dequeue_keeps [OF consumer ok] by blast
  then show ?thesis by auto
next
  case abandoner
  then show ?thesis using abandon_keeps [OF abandoner ok] by auto
qed

lemma mpsc_start_ok: "mpsc_ok (mpsc_start links free) [] []"
  by (auto simp: mpsc_ok_def mpsc_start_def chained_def links_ok_def ends_ok_def cons_ok_def own_ok_def holding_def)

lemma event_lists: "entered (case e of None \<Rightarrow> [] | Some ev \<Rightarrow> [ev]) = enters e" "taken (case e of None \<Rightarrow> [] | Some ev \<Rightarrow> [ev]) = takes e"
  by (auto simp: enters_def takes_def split: option.split mpsc_event.split)

lemma mpsc_run_keeps:
  assumes "mpsc_run (mpsc_start links free) es s"
  shows "\<exists>q w. mpsc_ok s q w \<and> entered es = taken es @ w @ q"
  using assms
proof (induction rule: mpsc_run.induct)
  case none
  then show ?case using mpsc_start_ok by auto
next
  case (more es s e s')
  then obtain q w where "mpsc_ok s q w" "entered es = taken es @ w @ q" by blast
  moreover obtain q' w' where "mpsc_ok s' q' w'" "w @ q @ enters e = takes e @ w' @ q'"
    using mpsc_step_keeps [OF more.hyps(2) \<open>mpsc_ok s q w\<close>] by blast
  ultimately have "entered (es @ (case e of None \<Rightarrow> [] | Some ev \<Rightarrow> [ev])) = taken (es @ (case e of None \<Rightarrow> [] | Some ev \<Rightarrow> [ev])) @ w' @ q'"
    by (simp add: event_lists)
  then show ?case using \<open>mpsc_ok s' q' w'\<close> by blast
qed

section \<open>What the queue promises\<close>

text \<open>C10. However producers and consumer interleave, the objects the consumer is given are, in order, the objects that entered; what
  has not been given out yet is in the queue, and a consumer at rest finds it empty only when everything has been given out.\<close>
theorem mpsc_is_fifo:
  assumes "mpsc_run (mpsc_start links free) es s"
  shows "\<exists>rest. entered es = taken es @ rest \<and> distinct rest \<and> (sy_cons s = Resting \<longrightarrow> (mpsc_empty s \<longleftrightarrow> rest = []))"
proof -
  obtain q w where ok: "mpsc_ok s q w" and es: "entered es = taken es @ w @ q" using mpsc_run_keeps [OF assms] by blast
  have "distinct (w @ q)" using ok by (auto simp: mpsc_ok_def chained_def)
  moreover have "mpsc_empty s \<longleftrightarrow> q = []"
    using empty_queue(2) [OF ok] full_queue(1,2) [OF ok] by (cases "q = []") (simp_all add: mpsc_empty_def)
  moreover have "w = []" if "sy_cons s = Resting" using ok that by (simp add: mpsc_ok_def cons_ok_def)
  ultimately show ?thesis using es by (intro exI [of _ "w @ q"]) auto
qed

inductive_cases returned: "dequeue_step s (Some (Took xs)) s'"

text \<open>C11. The list the consumer returns is linked from its first object to its last, which has no successor, and from then on no
  thread writes to a link of it: a step changes links of objects only that no caller owns.\<close>
theorem mpsc_hands_over:
  assumes "mpsc_run (mpsc_start links free) es s" and "mpsc_step s e s'"
  shows "(\<forall>xs. e = Some (Took xs) \<longrightarrow> xs \<noteq> [] \<longrightarrow>
      successively (\<lambda>x y. mq_next s' x = y) xs \<and> mq_next s' (last xs) = null \<and> set xs \<subseteq> sy_free s') \<and>
    (\<forall>x \<in> sy_free s. mq_next s' x = mq_next s x)"
proof -
  obtain q w where ok: "mpsc_ok s q w" using mpsc_run_keeps [OF assms(1)] by blast
  have "successively (\<lambda>x y. mq_next s' x = y) xs \<and> mq_next s' (last xs) = null \<and> set xs \<subseteq> sy_free s'"
    if took: "e = Some (Took xs)" and some: "xs \<noteq> []" for xs
  proof -
    have "\<not> enqueue_step t s e s'" for t using took by (auto elim: enqueue_step.cases)
    moreover have "\<not> abandon_step s e s'" using took some by (auto elim: abandon_step.cases)
    ultimately have "dequeue_step s (Some (Took xs)) s'" using assms(2) took by (auto elim: mpsc_step.cases)
    then obtain tail where c: "sy_cons s = Walking tail xs" "last xs = tail" and s': "s' = s\<lparr>sy_cons := Resting, sy_free := sy_free s \<union> set xs\<rparr>"
      using some by (auto elim: returned)
    have "successively (\<lambda>x y. mq_next s x = y) xs" using ok c(1) by (simp add: mpsc_ok_def cons_ok_def)
    moreover have "mq_next s (last xs) = null" using ok some unfolding walked_all(1) [OF ok c, symmetric] by (simp add: mpsc_ok_def chained_def)
    ultimately show ?thesis by (simp add: s')
  qed
  moreover have "mq_next s' x = mq_next s x" if "x \<in> sy_free s" for x
    using assms(2)
  proof cases
    case (producer t)
    then show ?thesis
    proof cases
      case (clear y)
      then have "y \<notin> sy_free s" using ok by (auto simp: mpsc_ok_def own_ok_def holding_def)
      then show ?thesis using clear that by auto
    next
      case (link_next y u)
      then have "adj q u y \<or> adj w u y" using link_high [OF ok] by simp
      then have "u \<in> set q \<union> set w" by (auto dest: adj_in)
      then have "u \<notin> sy_free s" using ok by (auto simp: mpsc_ok_def own_ok_def)
      then show ?thesis using link_next that by auto
    qed simp_all
  next
    case consumer
    then show ?thesis by cases simp_all
  next
    case abandoner
    then show ?thesis by cases simp_all
  qed
  ultimately show ?thesis by blast
qed

text \<open>A producer that still has to wake the consumer up.\<close>

definition waker :: "mpsc_sys \<Rightarrow> nat \<Rightarrow> bool" where
  "waker s t \<longleftrightarrow> sy_prod s t = Waking \<or> (\<exists>x. sy_prod s t = Linking x 1)"

definition wake_ok :: "mpsc_sys \<Rightarrow> bool" where
  "wake_ok s \<longleftrightarrow>
     (sy_cons s = Armed \<longrightarrow> mq_tail s = 1 \<or> (\<exists>t. waker s t)) \<and>
     (sy_cons s = Sleeping \<longrightarrow> mq_tail s = 1 \<or> (\<exists>t. waker s t \<or> sy_prod s t = Notifying))"

lemma waker_stays:
  assumes "waker s t'" and "t' \<noteq> t" and "sy_prod s' = (sy_prod s)(t := p)"
  shows "waker s' t'"
  using assms by (simp add: waker_def)

lemma bystander:
  assumes ok: "wake_ok s" and "\<not> waker s t" and "sy_prod s t \<noteq> Notifying" and p: "sy_prod s' = (sy_prod s)(t := p)"
    and "sy_cons s' = sy_cons s" and "mq_tail s = 1 \<Longrightarrow> mq_tail s' = 1 \<or> waker s' t"
  shows "wake_ok s'"
proof -
  have "waker s' t'" if "waker s t'" for t' using that assms(2) waker_stays [OF that _ p] by blast
  moreover have "sy_prod s' t' = Notifying" if "sy_prod s t' = Notifying" for t' using that assms(3) p by auto
  ultimately show ?thesis using ok assms(5,6) unfolding wake_ok_def by metis
qed

lemma wake_ok_step:
  assumes "mpsc_step s e s'" and ok: "wake_ok s"
  shows "wake_ok s'"
  using assms(1)
proof cases
  case (producer t)
  then show ?thesis
  proof cases
    case (call x)
    then show ?thesis by (intro bystander [OF ok, of t]) (simp_all add: waker_def)
  next
    case (clear x)
    then show ?thesis by (intro bystander [OF ok, of t]) (simp_all add: waker_def)
  next
    case (swap x)
    then show ?thesis by (intro bystander [OF ok, of t]) (simp_all add: waker_def)
  next
    case (link_head x u)
    show ?thesis
    proof (cases "u = 1")
      case True
      then have "waker s' t" using link_head by (simp add: waker_def)
      then show ?thesis by (auto simp: wake_ok_def)
    next
      case False
      then show ?thesis using link_head by (intro bystander [OF ok, of t]) (simp_all add: waker_def)
    qed
  next
    case (link_next x u)
    then show ?thesis by (intro bystander [OF ok, of t]) (simp_all add: waker_def)
  next
    case lock
    then have "sy_cons s' \<noteq> Armed" "sy_prod s' t = Notifying" by (auto simp: holds_mutex_def)
    then show ?thesis by (auto simp: wake_ok_def)
  next
    case notify
    have "waker s' t'" if "waker s t'" for t'
      using waker_stays [OF that, of t s' Ready] that notify by (cases "t' = t") (simp_all add: waker_def)
    moreover have "sy_cons s' \<noteq> Sleeping" "sy_cons s' = Armed \<longrightarrow> sy_cons s = Armed" "mq_tail s' = mq_tail s" using notify by auto
    ultimately show ?thesis using ok unfolding wake_ok_def by metis
  qed
next
  case consumer
  then show ?thesis using ok by cases (auto simp: wake_ok_def waker_def)
next
  case abandoner
  then show ?thesis using ok by cases (auto simp: wake_ok_def waker_def)
qed

text \<open>C12. No wake-up is lost: while the consumer sleeps, the queue is marked as slept on, so that the next producer will wake it,
  or a producer that found the mark is still on its way to the notification.\<close>
theorem mpsc_no_lost_wakeup:
  assumes "mpsc_run (mpsc_start links free) es s" and "sy_cons s = Sleeping"
  shows "mq_tail s = 1 \<or> (\<exists>t. sy_prod s t = Waking \<or> sy_prod s t = Notifying \<or> (\<exists>x. sy_prod s t = Linking x 1))"
proof -
  have "wake_ok s"
    using assms(1)
  proof (induction rule: mpsc_run.induct)
    case none
    then show ?case by (simp add: wake_ok_def mpsc_start_def)
  next
    case (more es s e s')
    then show ?case using wake_ok_step by blast
  qed
  then show ?thesis using assms(2) by (auto simp: wake_ok_def waker_def)
qed

text \<open>A consumer that walks over its batch waits at an object only while the producer of the next one is about to link it.\<close>

lemma walk_waits_for_a_producer:
  assumes "mpsc_run (mpsc_start links free) es s" and "sy_cons s = Walking tail xs" and "last xs \<noteq> tail" and "mq_next s (last xs) = null"
  shows "\<exists>t y s'. sy_prod s t = Linking y (last xs) \<and> enqueue_step t s None s' \<and> mq_next s' (last xs) = y"
proof -
  obtain q w where ok: "mpsc_ok s q w" using mpsc_run_keeps [OF assms(1)] by blast
  then obtain z zs where w: "w = xs @ z # zs" "linked s (last xs) z" using walk_on assms(2,3) by blast
  moreover have "2 < z" "2 < last xs" using ok assms(2) w by (auto simp: mpsc_ok_def chained_def cons_ok_def)
  ultimately obtain t where t: "sy_prod s t = Linking z (last xs)" using assms(4) by (auto simp: linked_def linking_def)
  show ?thesis using enqueue_step.link_next [OF t \<open>2 < last xs\<close>] t by fastforce
qed

section \<open>Runs\<close>

lemma run_step:
  assumes "mpsc_run s es s'" and "mpsc_step s' e s''" and "es' = es @ (case e of None \<Rightarrow> [] | Some ev \<Rightarrow> [ev])"
  shows "mpsc_run s es' s''"
  unfolding assms(3) by (rule mpsc_run.more [OF assms(1,2)])

text \<open>One producer enqueues one object.\<close>

lemma enqueue_run:
  assumes "mpsc_run s0 es s" and "sy_prod s t = Ready" and "x \<in> sy_free s" and "2 < x" and "mq_tail s \<le> 2" and "mq_tail s \<noteq> 1"
  shows "mpsc_run s0 (es @ [Entered x (mq_tail s \<noteq> 2)])
    (s\<lparr>mq_head := x, mq_tail := x, mq_next := (mq_next s)(x := null), sy_free := sy_free s - {x}\<rparr>)"
proof -
  let ?a = "s\<lparr>sy_prod := (sy_prod s)(t := Clearing x), sy_free := sy_free s - {x}\<rparr>"
  let ?b = "?a\<lparr>mq_next := (mq_next ?a)(x := null), sy_prod := (sy_prod ?a)(t := Swapping x)\<rparr>"
  let ?c = "?b\<lparr>mq_tail := x, sy_prod := (sy_prod ?b)(t := Linking x (mq_tail ?b))\<rparr>"
  let ?d = "?c\<lparr>mq_head := x, sy_prod := (sy_prod ?c)(t := if mq_tail s = 1 then Waking else Ready)\<rparr>"
  have "mpsc_run s0 es ?a"
    using mpsc_run.more [OF assms(1) mpsc_step.producer [OF enqueue_step.call [OF assms(2-4)]]] by simp
  then have "mpsc_run s0 es ?b"
    using mpsc_run.more [OF _ mpsc_step.producer [OF enqueue_step.clear [of ?a t x]]] by simp
  then have "mpsc_run s0 (es @ [Entered x (mq_tail s \<noteq> 2)]) ?c"
    using mpsc_run.more [OF _ mpsc_step.producer [OF enqueue_step.swap [of ?b t x]]] by simp
  then have "mpsc_run s0 (es @ [Entered x (mq_tail s \<noteq> 2)]) ?d"
    using mpsc_run.more [OF _ mpsc_step.producer [OF enqueue_step.link_head [of ?c t x "mq_tail s"]]] assms(5) by simp
  moreover have "?d = s\<lparr>mq_head := x, mq_tail := x, mq_next := (mq_next s)(x := null), sy_free := sy_free s - {x}\<rparr>"
    using assms(2,6) by (auto intro!: mpsc_sys.equality)
  ultimately show ?thesis by simp
qed

definition sample_start :: mpsc_sys where
  "sample_start = mpsc_start (\<lambda>_. 0) {3, 4}"

definition one_entered :: mpsc_sys where
  "one_entered = \<lparr>mq_head = 3, mq_tail = 3, mq_next = (\<lambda>_. 0), sy_prod = (\<lambda>_. Ready), sy_cons = Resting, sy_free = {4}\<rparr>"

lemma one_entered_run: "mpsc_run sample_start [Entered 3 True] one_entered"
proof -
  have "mpsc_run sample_start ([] @ [Entered 3 (mq_tail sample_start \<noteq> 2)])
      (sample_start\<lparr>mq_head := 3, mq_tail := 3, mq_next := (mq_next sample_start)(3 := null), sy_free := sy_free sample_start - {3}\<rparr>)"
    by (rule enqueue_run [OF mpsc_run.none, where t = 0]) (simp_all add: sample_start_def mpsc_start_def)
  moreover have "sample_start\<lparr>mq_head := 3, mq_tail := 3, mq_next := (mq_next sample_start)(3 := null), sy_free := sy_free sample_start - {3}\<rparr> = one_entered"
    by (auto simp: sample_start_def one_entered_def mpsc_start_def)
  ultimately show ?thesis by (simp add: sample_start_def mpsc_start_def)
qed

theorem mpsc_is_fifo_witness:
  "\<exists>rest. entered [Entered 3 True] = taken [Entered 3 True] @ rest \<and> distinct rest \<and> (mpsc_empty one_entered \<longleftrightarrow> rest = [])"
proof -
  have "sy_cons one_entered = Resting" by (simp add: one_entered_def)
  then show ?thesis using mpsc_is_fifo [OF one_entered_run [unfolded sample_start_def]] by auto
qed

definition walked_one :: mpsc_sys where
  "walked_one = one_entered\<lparr>mq_head := 0, mq_tail := 0, sy_cons := Walking 3 [3]\<rparr>"

lemma walked_one_run: "mpsc_run sample_start [Entered 3 True] walked_one"
proof -
  let ?a = "one_entered\<lparr>sy_cons := Taking (mq_head one_entered) 0\<rparr>"
  let ?b = "?a\<lparr>mq_head := null, sy_cons := Exchanging 3 0\<rparr>"
  let ?c = "?b\<lparr>mq_tail := 0, sy_cons := Walking (if mq_tail ?b \<le> 2 then null else mq_tail ?b) [3]\<rparr>"
  have "mpsc_run sample_start [Entered 3 True] ?a"
    using mpsc_run.more [OF one_entered_run mpsc_step.consumer [OF dequeue_step.call_some]] by (simp add: one_entered_def)
  then have "mpsc_run sample_start [Entered 3 True] ?b"
    using mpsc_run.more [OF _ mpsc_step.consumer [OF dequeue_step.take [of ?a 3 0]]] by (simp add: one_entered_def)
  then have "mpsc_run sample_start [Entered 3 True] ?c"
    using mpsc_run.more [OF _ mpsc_step.consumer [OF dequeue_step.exchange [of ?b 3 0]]] by simp
  then show ?thesis by (simp add: walked_one_def one_entered_def)
qed

theorem mpsc_hands_over_witness:
  "\<exists>s. mpsc_step walked_one (Some (Took [3])) s \<and> mq_next s 3 = null \<and> 3 \<in> sy_free s \<and> mq_next s 4 = mq_next walked_one 4"
proof -
  let ?s = "walked_one\<lparr>sy_cons := Resting, sy_free := sy_free walked_one \<union> set [3]\<rparr>"
  have step: "mpsc_step walked_one (Some (Took [3])) ?s"
    by (intro mpsc_step.consumer dequeue_step.return [of _ 3]) (simp_all add: walked_one_def)
  have "4 \<in> sy_free walked_one" by (simp add: walked_one_def one_entered_def)
  then show ?thesis using mpsc_hands_over [OF walked_one_run [unfolded sample_start_def] step] step
    by (intro exI [of _ ?s]) simp
qed

definition woken_soon :: mpsc_sys where
  "woken_soon = \<lparr>mq_head = 0, mq_tail = 3, mq_next = (\<lambda>_. 0), sy_prod = (\<lambda>_. Ready)(0 := Linking 3 1), sy_cons = Sleeping, sy_free = {4}\<rparr>"

lemma woken_soon_run: "mpsc_run sample_start [Entered 3 True] woken_soon"
proof -
  let ?a = "sample_start\<lparr>sy_cons := Looking False\<rparr>"
  let ?b = "?a\<lparr>sy_cons := Locking False\<rparr>"
  let ?c = "?b\<lparr>mq_tail := 1, sy_cons := Armed\<rparr>"
  let ?d = "?c\<lparr>sy_cons := Sleeping\<rparr>"
  let ?e = "?d\<lparr>sy_prod := (sy_prod ?d)(0 := Clearing 3), sy_free := sy_free ?d - {3}\<rparr>"
  let ?f = "?e\<lparr>mq_next := (mq_next ?e)(3 := null), sy_prod := (sy_prod ?e)(0 := Swapping 3)\<rparr>"
  let ?g = "?f\<lparr>mq_tail := 3, sy_prod := (sy_prod ?f)(0 := Linking 3 (mq_tail ?f))\<rparr>"
  note start = sample_start_def mpsc_start_def
  have "mpsc_run sample_start [] ?a"
    using mpsc_run.more [OF mpsc_run.none mpsc_step.consumer [OF dequeue_step.call_wait [of sample_start]]] by (simp add: start)
  then have "mpsc_run sample_start [] ?b"
    using mpsc_run.more [OF _ mpsc_step.consumer [OF dequeue_step.lock_signal [of ?a False]]] by simp
  then have "mpsc_run sample_start [] ?c"
    using mpsc_run.more [OF _ mpsc_step.consumer [OF dequeue_step.arm [of ?b False]]] by (simp add: start)
  then have "mpsc_run sample_start [] ?d"
    using mpsc_run.more [OF _ mpsc_step.consumer [OF dequeue_step.sleep [of ?c]]] by simp
  then have "mpsc_run sample_start [] ?e"
    using mpsc_run.more [OF _ mpsc_step.producer [OF enqueue_step.call [of ?d 0 3]]] by (simp add: start)
  then have "mpsc_run sample_start [] ?f"
    using mpsc_run.more [OF _ mpsc_step.producer [OF enqueue_step.clear [of ?e 0 3]]] by simp
  then have "mpsc_run sample_start [Entered 3 True] ?g"
    by (elim run_step [OF _ mpsc_step.producer [OF enqueue_step.swap [of ?f 0 3]]]) (simp_all add: start)
  moreover have "?g = woken_soon" by (auto simp: woken_soon_def start)
  ultimately show ?thesis by simp
qed

theorem mpsc_no_lost_wakeup_witness:
  "\<exists>t. sy_prod woken_soon t = Waking \<or> sy_prod woken_soon t = Notifying \<or> (\<exists>x. sy_prod woken_soon t = Linking x 1)"
proof -
  have "sy_cons woken_soon = Sleeping" "mq_tail woken_soon \<noteq> 1" by (simp_all add: woken_soon_def)
  then show ?thesis using mpsc_no_lost_wakeup [OF woken_soon_run [unfolded sample_start_def]] by simp
qed

text \<open>The comment on \<open>ncclIntruQueueMpscEnqueue\<close> promises that it returns true if the queue is not abandoned; of two objects that enter
  an abandoned queue, only the first is answered with false.\<close>

lemma abandoned_queue_answers_true:
  "\<exists>s. mpsc_run sample_start [Took [], Entered 3 False, Entered 4 True] s"
proof -
  note start = sample_start_def mpsc_start_def
  let ?a = "sample_start\<lparr>mq_tail := 2\<rparr>"
  have a: "mpsc_run sample_start [Took []] ?a"
    using mpsc_run.more [OF mpsc_run.none mpsc_step.abandoner [OF abandon_step.abandon_empty [of sample_start]]] by (simp add: start)
  let ?b = "?a\<lparr>mq_head := 3, mq_tail := 3, mq_next := (mq_next ?a)(3 := null), sy_free := sy_free ?a - {3}\<rparr>"
  have b: "mpsc_run sample_start [Took [], Entered 3 False] ?b"
    using enqueue_run [OF a, of 0 3] by (simp add: start)
  let ?c = "?b\<lparr>sy_prod := (sy_prod ?b)(0 := Clearing 4), sy_free := sy_free ?b - {4}\<rparr>"
  let ?d = "?c\<lparr>mq_next := (mq_next ?c)(4 := null), sy_prod := (sy_prod ?c)(0 := Swapping 4)\<rparr>"
  let ?e = "?d\<lparr>mq_tail := 4, sy_prod := (sy_prod ?d)(0 := Linking 4 (mq_tail ?d))\<rparr>"
  have "mpsc_run sample_start [Took [], Entered 3 False] ?c"
    using mpsc_run.more [OF b mpsc_step.producer [OF enqueue_step.call [of ?b 0 4]]] by (simp add: start)
  then have "mpsc_run sample_start [Took [], Entered 3 False] ?d"
    using mpsc_run.more [OF _ mpsc_step.producer [OF enqueue_step.clear [of ?c 0 4]]] by simp
  then have "mpsc_run sample_start [Took [], Entered 3 False, Entered 4 True] ?e"
    by (elim run_step [OF _ mpsc_step.producer [OF enqueue_step.swap [of ?d 0 4]]]) (simp_all add: start)
  then show ?thesis by blast
qed

end
