(* ===== verification/LinkedLists.thy ===== *)
theory LinkedLists
  imports Prelude
begin

text \<open>
  Singly linked lists in memory: the links are a function from addresses to addresses.  \<open>path next p xs r\<close> says that the
  links lead from \<open>p\<close> over the objects \<open>xs\<close> to \<open>r\<close>.
\<close>

fun path :: "(ptr \<Rightarrow> ptr) \<Rightarrow> ptr \<Rightarrow> ptr list \<Rightarrow> ptr \<Rightarrow> bool" where
  "path next p [] r \<longleftrightarrow> p = r"
| "path next p (x # xs) r \<longleftrightarrow> p = x \<and> x \<noteq> null \<and> path next (next x) xs r"

lemma path_append [simp]: "path next p (xs @ ys) r \<longleftrightarrow> (\<exists>q. path next p xs q \<and> path next q ys r)"
  by (induction xs arbitrary: p) simp_all

lemma path_update [simp]: "x \<notin> set xs \<Longrightarrow> path (next(x := y)) p xs r \<longleftrightarrow> path next p xs r"
  by (induction xs arbitrary: p) auto

lemma path_null: "path next null xs null \<longleftrightarrow> xs = []"
  by (cases xs) auto

lemma path_head: "path next p xs null \<Longrightarrow> p = (if xs = [] then null else hd xs)"
  by (cases xs) simp_all

lemma path_not_null: "path next p xs r \<Longrightarrow> null \<notin> set xs"
  by (induction xs arbitrary: p) auto

lemma path_unique: "path next p xs null \<Longrightarrow> path next p ys null \<Longrightarrow> xs = ys"
proof (induction xs arbitrary: p ys)
  case Nil
  then show ?case by (cases ys) auto
next
  case (Cons x xs)
  then show ?case by (cases ys) auto
qed

lemma path_distinct: "path next p xs null \<Longrightarrow> distinct xs"
proof (induction xs arbitrary: p)
  case (Cons x xs)
  have "x \<notin> set xs"
  proof
    assume "x \<in> set xs"
    then obtain as bs where xs: "xs = as @ x # bs" by (meson split_list)
    from Cons.prems have "path next (next x) xs null" by simp
    then have "path next (next x) bs null" unfolding xs by simp
    then have "bs = xs" using \<open>path next (next x) xs null\<close> by (rule path_unique)
    then show False using xs by (metis length_append length_Cons less_add_Suc2 less_irrefl)
  qed
  then show ?case using Cons by auto
qed simp

lemma path_last: "path next p (xs @ [x]) r \<longleftrightarrow> path next p xs x \<and> x \<noteq> null \<and> next x = r"
  by auto

text \<open>Where a pointer to the first object of a rest of a list is stored: in the head of the list or in the link of the object
  before it.\<close>

datatype place = Head_field | Next_of ptr

definition read_place :: "(ptr \<Rightarrow> ptr) \<Rightarrow> ptr \<Rightarrow> place \<Rightarrow> ptr" where
  "read_place next head p = (case p of Head_field \<Rightarrow> head | Next_of x \<Rightarrow> next x)"

definition write_place :: "place \<Rightarrow> ptr \<Rightarrow> (ptr \<Rightarrow> ptr) \<Rightarrow> ptr \<Rightarrow> (ptr \<Rightarrow> ptr) \<times> ptr" where
  "write_place p y next head = (case p of Head_field \<Rightarrow> (next, y) | Next_of x \<Rightarrow> (next(x := y), head))"

definition place_after :: "ptr list \<Rightarrow> place" where
  "place_after ys = (if ys = [] then Head_field else Next_of (last ys))"

lemma read_place_after:
  assumes "path next head (ys @ zs) null"
  shows "path next (read_place next head (place_after ys)) zs null"
  using assms by (cases ys rule: rev_cases) (auto simp: read_place_def place_after_def)

text \<open>Putting an object in between, which is how the sources insert and push.\<close>

lemma insert_at_place:
  assumes path: "path next head (ys @ zs) null" and "x \<notin> set (ys @ zs)" and "x \<noteq> null"
    and "write_place (place_after ys) x (next(x := read_place next head (place_after ys))) head = (next', head')"
  shows "path next' head' (ys @ x # zs) null"
proof -
  let ?p = "read_place next head (place_after ys)"
  have rest: "path next ?p zs null" using path by (rule read_place_after)
  show ?thesis
  proof (cases ys rule: rev_cases)
    case Nil
    then have "next' = next(x := ?p)" "head' = x" using assms(4) by (auto simp: write_place_def place_after_def)
    then show ?thesis using Nil rest assms(2,3) by simp
  next
    case (snoc us u)
    then have new: "next' = (next(x := ?p))(u := x)" "head' = head" using assms(4) by (auto simp: write_place_def place_after_def)
    have "distinct (ys @ zs)" using path by (rule path_distinct)
    then have "u \<notin> set us" "u \<notin> set zs" "u \<noteq> x" using snoc assms(2) by auto
    then show ?thesis using snoc path rest assms(2,3) new by auto
  qed
qed

end
