(* ===== verification/CollSorter.thy ===== *)
theory CollSorter
  imports LinkedLists BitCodes "HOL-Library.Multiset"
begin

text \<open>
  The sorter of the tasks of a group, \<open>ncclTaskCollSorter\<close> of \<open>src/include/comm.h\<close>: a linked list of tasks, roughly sorted by
  descending size, with an array of bins that say where the link to the first task of a bin is stored.  Tasks are addresses,
  their \<open>next\<close> fields a function; \<^term>\<open>None\<close> is a search for a bin beyond the end of the array.

  The lemmas show that insertion is the insertion into a list sorted by bin, and that the bins keep the order by size up to the
  25 percent that the comment on \<open>BitsPerPow2\<close> announces.
\<close>

definition UnitLog2 :: nat where
  "UnitLog2 = 10"

definition MaxLog2 :: nat where
  "MaxLog2 = 30"

definition MaxSize :: nat where
  "MaxSize = 2 ^ MaxLog2"

definition BitsPerPow2 :: nat where
  "BitsPerPow2 = 2"

definition BinCount :: nat where
  "BinCount = 1 + (MaxLog2 - UnitLog2) * 2 ^ BitsPerPow2"

record coll_sorter =
  so_head :: ptr
  so_tail :: ptr
  so_binEdge :: nat
  so_bins :: "place option list"

definition empty_sorter :: coll_sorter where
  "empty_sorter = \<lparr>so_head = null, so_tail = null, so_binEdge = 0, so_bins = replicate BinCount None\<rparr>"

definition size_units :: "nat \<Rightarrow> nat" where
  "size_units sz = min MaxSize sz div 2 ^ UnitLog2"

definition size_bin :: "nat \<Rightarrow> nat" where
  "size_bin sz = BinCount - 1 - unat (u32fp_encode (of_nat (size_units sz)) BitsPerPow2)"

fun next_bin :: "place option list \<Rightarrow> nat \<Rightarrow> (nat \<times> place) option" where
  "next_bin [] succ = None"
| "next_bin (None # bins) succ = next_bin bins (succ + 1)"
| "next_bin (Some p # bins) succ = Some (succ, p)"

definition find_succ :: "place option list \<Rightarrow> nat \<Rightarrow> (nat \<times> place) option" where
  "find_succ bins bin = next_bin (drop (bin + 1) bins) (bin + 1)"

definition sorter_place :: "ptr \<Rightarrow> nat \<Rightarrow> coll_sorter \<Rightarrow> (coll_sorter \<times> place) option" where
  "sorter_place x bin me =
     (case so_bins me ! bin of
        Some p \<Rightarrow> Some (me, p)
      | None \<Rightarrow>
          if so_binEdge me \<le> bin
          then let p = (if so_tail me \<noteq> null then Next_of (so_tail me) else Head_field)
            in Some (me\<lparr>so_binEdge := bin + 1, so_bins := (so_bins me)[bin := Some p], so_tail := x\<rparr>, p)
          else map_option (\<lambda>(succ, p). (me\<lparr>so_bins := (so_bins me)[bin := Some p, succ := Some (Next_of x)]\<rparr>, p))
            (find_succ (so_bins me) bin))"

definition sorter_insert :: "ptr \<Rightarrow> nat \<Rightarrow> coll_sorter \<times> (ptr \<Rightarrow> ptr) \<Rightarrow> (coll_sorter \<times> (ptr \<Rightarrow> ptr)) option" where
  "sorter_insert x sz s =
     (let (me, next) = s in
      map_option (\<lambda>(me, p).
           let next = next(x := read_place next (so_head me) p);
               (next, head) = write_place p x next (so_head me)
           in (me\<lparr>so_head := head\<rparr>, next)) (sorter_place x (size_bin sz) me))"

definition sorter_is_empty :: "coll_sorter \<Rightarrow> bool" where
  "sorter_is_empty me \<longleftrightarrow> so_head me = null"

definition sorter_dequeue_all :: "coll_sorter \<Rightarrow> ptr \<times> coll_sorter" where
  "sorter_dequeue_all me = (so_head me, if so_head me \<noteq> null then empty_sorter else me)"

fun sorter_insert_all :: "(ptr \<times> nat) list \<Rightarrow> coll_sorter \<times> (ptr \<Rightarrow> ptr) \<Rightarrow> (coll_sorter \<times> (ptr \<Rightarrow> ptr)) option" where
  "sorter_insert_all [] s = Some s"
| "sorter_insert_all ((x, sz) # ts) s = Option.bind (sorter_insert x sz s) (sorter_insert_all ts)"

section \<open>Bins and sizes\<close>

lemma encode_two_large:
  assumes "2 ^ (k + 2) \<le> unat x" and "unat x < 2 ^ (k + 3)" and "k < 29"
  shows "unat (u32fp_encode x 2) = 4 * k + unat x div 2 ^ k"
proof -
  have "k + 3 = Suc (k + 2)" by simp
  then have "unat x < 2 ^ Suc (k + 2)" using assms(2) by (simp only:)
  with assms(1) have "31 - clz (x OR 1) = k + 2" by (rule log2_or_one)
  then have code: "u32fp_encode x 2 = push_bit 2 (of_nat (k + 1)) OR take_bit 2 (drop_bit k x)"
    unfolding u32fp_encode_def Let_def by (simp add: take_bit_eq_mask mask_eq_exp_minus_1)
  have small: "unat (of_nat (k + 1) :: u32) = k + 1" using assms(3) unfolding unat_of_nat by simp
  have "push_bit 2 (k + 1) < (2 :: nat) ^ 32" using assms(3) by (simp add: push_bit_eq_mult)
  then have high: "unat (push_bit 2 (of_nat (k + 1)) :: u32) = push_bit 2 (k + 1)"
    unfolding unsigned_push_bit_eq small by (simp add: take_bit_nat_eq_self)
  have "unat x < 2 ^ 3 * 2 ^ k" using assms(2) by (metis add.commute power_add)
  then have "unat x div 2 ^ k < 2 ^ 3" by (rule less_mult_imp_div_less)
  moreover have "2 ^ 2 \<le> unat x div 2 ^ k" using assms(1) by (simp add: power_add less_eq_div_iff_mult_less_eq)
  ultimately have significand: "unat x div 2 ^ k = 4 + unat x div 2 ^ k mod 4" by (simp add: mod_if)
  have low: "unat (take_bit 2 (drop_bit k x)) = unat x div 2 ^ k mod 4"
  proof -
    have "unat (take_bit 2 (drop_bit k x)) = take_bit 2 (unat x div 2 ^ k)" by (simp only: unsigned_take_bit_eq unat_dropped)
    then show ?thesis by (simp only: take_bit_eq_mod) simp
  qed
  have "unat (u32fp_encode x 2) = push_bit 2 (k + 1) OR take_bit 2 (unat x div 2 ^ k mod 4)"
    unfolding code unsigned_or_eq high low by (simp add: take_bit_eq_mod)
  also have "\<dots> = push_bit 2 (k + 1) + take_bit 2 (unat x div 2 ^ k mod 4)"
    by (rule disjunctive_add [symmetric]) (auto simp: bit_simps)
  also have "\<dots> = 4 * (k + 1) + unat x div 2 ^ k mod 4" by (simp add: push_bit_eq_mult take_bit_eq_mod)
  finally show ?thesis using significand by simp
qed

lemma encode_two_small:
  assumes "unat x < 4"
  shows "unat (u32fp_encode x 2) = unat x"
proof -
  have "unat (x OR 1) = unat x OR 1" by (simp only: unsigned_or_eq unsigned_1)
  then have one: "unat (x OR 1) = unat x + of_bool (even (unat x))" by (simp only: or_one_eq)
  have "unat x + of_bool (even (unat x)) < 4" using assms by (cases "unat x = 3") auto
  with one have less: "unat (x OR 1) < 4" by simp
  have "x OR 1 \<noteq> 0" using one by (cases "unat x = 0") auto
  from highest_bit [OF this] obtain k where k: "k < 32" "clz (x OR 1) = 31 - k" "2 ^ k \<le> unat (x OR 1)" by auto
  have "(2 :: nat) ^ k < 2 ^ 2" using k(3) less by simp
  then have "k < 2" by (rule power_less_imp_less_exp [rotated]) simp
  then have log: "\<not> 2 \<le> 31 - clz (x OR 1)" using k by simp
  have "u32fp_encode x 2 = take_bit 2 x"
    unfolding u32fp_encode_def Let_def using log by (simp add: take_bit_eq_mask mask_eq_exp_minus_1)
  then show ?thesis using assms by (simp add: unsigned_take_bit_eq take_bit_nat_eq_self)
qed

lemma exponent_of:
  assumes "4 \<le> (n :: nat)"
  obtains k where "2 ^ (k + 2) \<le> n" "n < 2 ^ (k + 3)" "4 \<le> n div 2 ^ k" "n div 2 ^ k < 8"
proof -
  obtain m where m: "2 ^ m \<le> n" "n < 2 ^ (m + 1)" using ex_power_ivl1 [of 2 n] assms by auto
  have "2 \<le> m"
  proof (rule ccontr)
    assume "\<not> 2 \<le> m"
    then have "(2 :: nat) ^ (m + 1) \<le> 2 ^ 2" by (intro power_increasing) auto
    then show False using m(2) assms by simp
  qed
  then obtain k where k: "m = k + 2" by (metis add.commute le_Suc_ex)
  have b: "2 ^ (k + 2) \<le> n" "n < 2 ^ (k + 3)" using m k by (simp_all add: numeral_3_eq_3)
  have "(2 :: nat) ^ (k + 2) = 4 * 2 ^ k" "(2 :: nat) ^ (k + 3) = 8 * 2 ^ k" by (simp_all add: power_add)
  then have "4 \<le> n div 2 ^ k" "n div 2 ^ k < 8" using b by (simp_all add: less_eq_div_iff_mult_less_eq less_mult_imp_div_less)
  then show ?thesis using that b by blast
qed

text \<open>The code orders numbers up to 25 percent.\<close>

definition code_of :: "nat \<Rightarrow> nat" where
  "code_of n = unat (u32fp_encode (of_nat n) 2)"

lemma code_of_small: "n < 4 \<Longrightarrow> code_of n = n"
  unfolding code_of_def by (subst encode_two_small) (simp_all add: unat_of_nat)

lemma code_of_large:
  assumes "2 ^ (k + 2) \<le> n" and "n < 2 ^ (k + 3)" and "n < 2 ^ 31"
  shows "code_of n = 4 * k + n div 2 ^ k"
proof -
  have "(2 :: nat) ^ (k + 2) < 2 ^ 31" using assms(1,3) by linarith
  then have "k + 2 < 31" by (rule power_less_imp_less_exp [rotated]) simp
  then have k: "k < 29" by simp
  have "unat (of_nat n :: u32) = n" using assms(3) by (simp add: unat_of_nat)
  then show ?thesis unfolding code_of_def using encode_two_large [of k "of_nat n"] assms(1,2) k by simp
qed

lemma code_of_le:
  assumes "code_of b \<le> code_of a" and "a < 2 ^ 31" and "b < 2 ^ 31"
  shows "4 * b \<le> 5 * a"
proof (cases "b < 4")
  case True
  then have b: "code_of b = b" by (rule code_of_small)
  show ?thesis
  proof (cases "a < 4")
    case True
    then show ?thesis using assms(1) b code_of_small [OF True] by simp
  next
    case False
    then show ?thesis using True by simp
  qed
next
  case False
  then obtain k where k: "2 ^ (k + 2) \<le> b" "b < 2 ^ (k + 3)" "4 \<le> b div 2 ^ k" "b div 2 ^ k < 8" using exponent_of [of b] by auto
  have cb: "code_of b = 4 * k + b div 2 ^ k" using k(1,2) assms(3) by (rule code_of_large)
  have "4 \<le> a" using assms(1) cb k(3) code_of_small [of a] by (cases "a < 4") simp_all
  then obtain j where j: "2 ^ (j + 2) \<le> a" "a < 2 ^ (j + 3)" "4 \<le> a div 2 ^ j" "a div 2 ^ j < 8" using exponent_of by blast
  have ca: "code_of a = 4 * j + a div 2 ^ j" using j(1,2) assms(2) by (rule code_of_large)
  have "k \<le> j" using assms(1) ca cb j(4) k(3) by linarith
  show ?thesis
  proof (cases "k = j")
    case True
    then have "b div 2 ^ k \<le> a div 2 ^ k" using assms(1) ca cb by simp
    moreover have "4 \<le> a div 2 ^ k" using j(3) True by simp
    moreover have "4 * (B + 1) \<le> 5 * A" if "B \<le> A" "4 \<le> A" for A B :: nat using that by arith
    ultimately have "4 * (b div 2 ^ k + 1) \<le> 5 * (a div 2 ^ k)" by blast
    then have "4 * (b div 2 ^ k + 1) * 2 ^ k \<le> 5 * (a div 2 ^ k) * 2 ^ k" by (rule mult_right_mono) simp
    moreover have "b < (b div 2 ^ k + 1) * 2 ^ k" by (simp add: dividend_less_div_times)
    moreover have "a div 2 ^ k * 2 ^ k \<le> a" by (rule div_times_less_eq_dividend)
    ultimately show ?thesis by linarith
  next
    case False
    with \<open>k \<le> j\<close> have "k + 3 \<le> j + 2" by simp
    then have "(2 :: nat) ^ (k + 3) \<le> 2 ^ (j + 2)" by (intro power_increasing) simp_all
    then show ?thesis using k(2) j(1) by linarith
  qed
qed

lemma code_of_bounded:
  assumes "n \<le> 2 ^ 20"
  shows "code_of n \<le> 76"
proof (cases "n < 4")
  case True
  then show ?thesis by (simp add: code_of_small)
next
  case False
  then obtain k where k: "2 ^ (k + 2) \<le> n" "n < 2 ^ (k + 3)" "4 \<le> n div 2 ^ k" "n div 2 ^ k < 8" using exponent_of [of n] by auto
  have "n < 2 ^ 31" using assms by simp
  with k(1,2) have c: "code_of n = 4 * k + n div 2 ^ k" by (rule code_of_large)
  have "(2 :: nat) ^ (k + 2) \<le> 2 ^ 20" using k(1) assms by linarith
  then have "k + 2 \<le> 20" by (rule power_le_imp_le_exp [rotated]) simp
  then show ?thesis
  proof (cases "k = 18")
    case True
    have "n div 2 ^ 18 \<le> 2 ^ 20 div 2 ^ 18" using assms by (rule div_le_mono)
    then show ?thesis using c True by simp
  next
    case False
    then show ?thesis using c k(4) \<open>k + 2 \<le> 20\<close> by simp
  qed
qed

lemma size_units_bounded: "size_units sz \<le> 2 ^ 20"
proof -
  have "min (2 ^ 30) sz div 2 ^ 10 \<le> 2 ^ 30 div (2 :: nat) ^ 10" by (intro div_le_mono) simp
  then show ?thesis by (simp add: size_units_def MaxSize_def MaxLog2_def UnitLog2_def)
qed

lemma size_bin_code: "size_bin sz = 80 - code_of (size_units sz)"
  by (simp add: size_bin_def code_of_def BinCount_def MaxLog2_def UnitLog2_def BitsPerPow2_def)

lemma size_bin_bounds: "size_bin sz < BinCount"
  by (simp add: size_bin_def BinCount_def)

lemma size_bin_orders: "size_bin a \<le> size_bin b \<Longrightarrow> 4 * size_units b \<le> 5 * size_units a"
proof -
  assume "size_bin a \<le> size_bin b"
  then have "code_of (size_units b) \<le> code_of (size_units a)"
    using code_of_bounded [OF size_units_bounded, of a] code_of_bounded [OF size_units_bounded, of b] unfolding size_bin_code by linarith
  then show ?thesis using size_units_bounded [of a] size_units_bounded [of b] by (intro code_of_le) simp_all
qed

section \<open>Insertion\<close>

text \<open>\<open>f\<close> gives the bin of every task; \<open>xs\<close> are the tasks in the order of the list.  An array entry is the place before the first
  task of its bin.\<close>

definition before_bin :: "(ptr \<Rightarrow> nat) \<Rightarrow> nat \<Rightarrow> ptr list \<Rightarrow> ptr list" where
  "before_bin f b xs = takeWhile (\<lambda>y. f y < b) xs"

definition bin_entry :: "(ptr \<Rightarrow> nat) \<Rightarrow> nat \<Rightarrow> ptr list \<Rightarrow> place option" where
  "bin_entry f b xs = (if b \<in> f ` set xs then Some (place_after (before_bin f b xs)) else None)"

definition sorter_ok :: "(ptr \<Rightarrow> nat) \<Rightarrow> coll_sorter \<times> (ptr \<Rightarrow> ptr) \<Rightarrow> ptr list \<Rightarrow> bool" where
  "sorter_ok f s xs \<longleftrightarrow>
     path (snd s) (so_head (fst s)) xs null \<and> sorted (map f xs) \<and> (\<forall>x \<in> set xs. f x < BinCount) \<and>
     so_tail (fst s) = (if xs = [] then null else last xs) \<and>
     so_binEdge (fst s) = (if xs = [] then 0 else Suc (f (last xs))) \<and>
     so_bins (fst s) = map (\<lambda>b. bin_entry f b xs) [0..<BinCount]"

lemma empty_sorter_ok: "sorter_ok f (empty_sorter, next) []"
  by (simp add: sorter_ok_def empty_sorter_def bin_entry_def map_replicate_const)

lemma before_bin_split:
  assumes "sorted (map f xs)"
  shows "\<exists>zs. xs = before_bin f b xs @ zs \<and> (\<forall>y \<in> set (before_bin f b xs). f y < b) \<and> (\<forall>z \<in> set zs. b \<le> f z)"
proof -
  let ?zs = "dropWhile (\<lambda>y. f y < b) xs"
  have xs: "xs = before_bin f b xs @ ?zs" by (simp add: before_bin_def)
  have "b \<le> f z" if "z \<in> set ?zs" for z
  proof -
    have "?zs \<noteq> []" using that by (intro notI) simp
    then obtain y zs where zs: "?zs = y # zs" by (meson list.exhaust)
    then have "b \<le> f y" using hd_dropWhile [of "\<lambda>y. f y < b" xs] by auto
    moreover have "sorted (map f ?zs)" using assms sorted_dropWhile [of "map f xs" "\<lambda>v. v < b"] by (simp add: dropWhile_map comp_def)
    ultimately show ?thesis using that zs by auto
  qed
  moreover have "f y < b" if "y \<in> set (before_bin f b xs)" for y using that by (auto simp: before_bin_def dest: set_takeWhileD)
  ultimately show ?thesis using xs by blast
qed

lemma insort_split:
  assumes "\<forall>y \<in> set ys. f y < f x" and "\<forall>z \<in> set zs. f x \<le> f z"
  shows "insort_key f x (ys @ zs) = ys @ x # zs"
  using assms by (induction ys) (auto simp: insort_is_Cons)

text \<open>How the array changes when a task goes to its place.\<close>

lemma bin_entry_insert:
  assumes "\<forall>y \<in> set ys. f y < f x" and "\<forall>z \<in> set zs. f x \<le> f z" and "sorted (map f zs)"
  shows "bin_entry f b (ys @ x # zs) =
    (if b = f x then Some (place_after ys)
     else if zs \<noteq> [] \<and> b = f (hd zs) then Some (Next_of x)
     else bin_entry f b (ys @ zs))"
proof -
  have ys: "takeWhile (\<lambda>y. f y < b) (ys @ us) = ys @ takeWhile (\<lambda>y. f y < b) us" if "f x \<le> b" for us
    using assms(1) that by (intro takeWhile_append2) auto
  consider "b = f x" | "b < f x" | "f x < b" by linarith
  then show ?thesis
  proof cases
    case 1
    then have "before_bin f b (ys @ x # zs) = ys" using ys [of "x # zs"] by (simp add: before_bin_def)
    then show ?thesis using 1 by (simp add: bin_entry_def)
  next
    case 2
    have "takeWhile (\<lambda>y. f y < b) (ys @ x # zs) = takeWhile (\<lambda>y. f y < b) (ys @ zs)"
    proof (cases "\<forall>y \<in> set ys. f y < b")
      case True
      then have all: "takeWhile (\<lambda>y. f y < b) (ys @ us) = ys @ takeWhile (\<lambda>y. f y < b) us" for us by (intro takeWhile_append2) auto
      show ?thesis unfolding all using 2 assms(2) by (cases zs) auto
    next
      case False
      then show ?thesis by (auto simp: takeWhile_append)
    qed
    moreover have "b \<noteq> f z" if "z \<in> set zs" for z using assms(2) 2 that by auto
    then have "\<not> (zs \<noteq> [] \<and> b = f (hd zs))" by (metis hd_in_set)
    ultimately show ?thesis using 2 by (auto simp: bin_entry_def before_bin_def)
  next
    case 3
    then have new: "before_bin f b (ys @ x # zs) = ys @ x # before_bin f b zs" "before_bin f b (ys @ zs) = ys @ before_bin f b zs"
      using ys [of "x # zs"] ys [of zs] by (simp_all add: before_bin_def)
    show ?thesis
    proof (cases "before_bin f b zs = []")
      case True
      have "b \<in> f ` set (ys @ zs) \<longleftrightarrow> zs \<noteq> [] \<and> b = f (hd zs)"
      proof (cases zs)
        case (Cons z us)
        then have "b \<le> f z" using True by (auto simp: before_bin_def split: if_splits)
        moreover have "f z \<le> f u" if "u \<in> set us" for u using assms(3) Cons that by auto
        moreover have "f y \<noteq> b" if "y \<in> set ys" for y using assms(1) 3 that by auto
        ultimately show ?thesis using Cons by fastforce
      qed (use assms(1) 3 in auto)
      then show ?thesis using 3 True new by (auto simp: bin_entry_def place_after_def)
    next
      case False
      then have "zs = [] \<or> b \<noteq> f (hd zs)" by (cases zs) (auto simp: before_bin_def)
      then show ?thesis using 3 False new by (auto simp: bin_entry_def place_after_def)
    qed
  qed
qed

lemma next_bin_found:
  assumes "i \<le> j" and "j < n" and "g j = Some p" and "\<And>k. i \<le> k \<Longrightarrow> k < j \<Longrightarrow> g k = None"
  shows "next_bin (map g [i..<n]) i = Some (j, p)"
  using assms
proof (induction "j - i" arbitrary: i)
  case 0
  then show ?case by (simp add: upt_conv_Cons)
next
  case (Suc d)
  then have "g i = None" "i < n" "next_bin (map g [i + 1..<n]) (i + 1) = Some (j, p)" by simp_all
  then show ?case by (simp add: upt_conv_Cons)
qed

lemma find_succ_found:
  assumes ok: "sorted (map f (ys @ zs))" "\<forall>z \<in> set zs. f z < n" and ys: "\<forall>y \<in> set ys. f y < b" and "zs \<noteq> []" and above: "\<forall>z \<in> set zs. b < f z"
  shows "find_succ (map (\<lambda>b. bin_entry f b (ys @ zs)) [0..<n]) b = Some (f (hd zs), place_after ys)"
proof -
  let ?g = "\<lambda>b. bin_entry f b (ys @ zs)"
  obtain z us where zs: "zs = z # us" using assms(4) by (cases zs) auto
  have z: "b < f z" "f z < n" using above ok(2) zs by auto
  have us: "f z \<le> f u" if "u \<in> set us" for u using ok(1) zs that by (auto simp: sorted_append)
  have "takeWhile (\<lambda>y. f y < f z) (ys @ zs) = ys @ takeWhile (\<lambda>y. f y < f z) zs" using ys z(1) by (intro takeWhile_append2) auto
  then have entry: "?g (f z) = Some (place_after ys)" using zs by (simp add: bin_entry_def before_bin_def)
  have "?g k = None" if "b + 1 \<le> k" "k < f z" for k using that ys us zs by (fastforce simp: bin_entry_def)
  then have "next_bin (map ?g [b + 1..<n]) (b + 1) = Some (f z, place_after ys)" using z entry by (intro next_bin_found) auto
  then show ?thesis using zs by (simp add: find_succ_def drop_map)
qed

lemma update_entries:
  assumes "h a = v" and "h b = u" and "a \<noteq> b" and "\<And>c. c \<noteq> a \<Longrightarrow> c \<noteq> b \<Longrightarrow> h c = g c"
  shows "(map g [0..<n])[a := v, b := u] = map h [0..<n]"
proof (rule nth_equalityI)
  fix i
  assume "i < length ((map g [0..<n])[a := v, b := u])"
  then show "(map g [0..<n])[a := v, b := u] ! i = map h [0..<n] ! i"
    using assms by (cases "i = b"; cases "i = a") (simp_all add: nth_list_update)
qed simp

text \<open>The place that insertion chooses, and the sorter it leaves.\<close>

definition placed_ok :: "(ptr \<Rightarrow> nat) \<Rightarrow> coll_sorter \<Rightarrow> coll_sorter \<Rightarrow> ptr list \<Rightarrow> bool" where
  "placed_ok f me me' xs \<longleftrightarrow>
     so_head me' = so_head me \<and> so_tail me' = last xs \<and> so_binEdge me' = Suc (f (last xs)) \<and>
     so_bins me' = map (\<lambda>b. bin_entry f b xs) [0..<BinCount]"

lemma sorter_place_ok:
  assumes ok: "sorter_ok f (me, next) (ys @ zs)" and b: "f x < BinCount"
    and ys: "\<forall>y \<in> set ys. f y < f x" and zs: "\<forall>z \<in> set zs. f x \<le> f z" and ys_def: "ys = before_bin f (f x) (ys @ zs)"
  shows "\<exists>me'. sorter_place x (f x) me = Some (me', place_after ys) \<and> placed_ok f me me' (ys @ x # zs)"
proof -
  let ?xs = "ys @ zs"
  have sorted: "sorted (map f ?xs)" and bound: "\<forall>y \<in> set ?xs. f y < BinCount" and path: "path next (so_head me) ?xs null"
    and tail: "so_tail me = (if ?xs = [] then null else last ?xs)" and edge: "so_binEdge me = (if ?xs = [] then 0 else Suc (f (last ?xs)))"
    and bins: "so_bins me = map (\<lambda>b. bin_entry f b ?xs) [0..<BinCount]"
    using ok unfolding sorter_ok_def by simp_all
  have sorted': "sorted (map f zs)" using sorted by (simp add: sorted_append)
  note entry = bin_entry_insert [OF ys zs sorted']
  have at_b: "so_bins me ! f x = bin_entry f (f x) ?xs" using bins b by simp
  show ?thesis
  proof (cases "f x \<in> f ` set ?xs")
    case True
    have here: "so_bins me ! f x = Some (place_after ys)" using True ys_def unfolding at_b bin_entry_def by simp
    obtain z where z: "z \<in> set zs" "f z = f x" using True ys by auto
    then obtain z0 us where zs0: "zs = z0 # us" by (cases zs) auto
    then have "f z0 \<le> f z" using z(1) sorted' by auto
    then have some: "zs \<noteq> []" "f (hd zs) = f x" using zs zs0 z(2) by auto
    have "bin_entry f c ?xs = bin_entry f c (ys @ x # zs)" for c
      using here some unfolding at_b entry by (cases "c = f x") simp_all
    then have "placed_ok f me me (ys @ x # zs)" using tail edge bins some(1) by (simp add: placed_ok_def)
    then show ?thesis using here by (simp add: sorter_place_def)
  next
    case False
    then have none: "so_bins me ! f x = None" unfolding at_b bin_entry_def by simp
    have above: "\<forall>z \<in> set zs. f x < f z" using zs False by (metis image_eqI le_neq_implies_less Un_iff set_append)
    show ?thesis
    proof (cases "so_binEdge me \<le> f x")
      case True
      have "zs = []"
      proof (rule ccontr)
        assume "zs \<noteq> []"
        then have "f x < f (last zs)" "so_binEdge me = Suc (f (last zs))" using above edge by simp_all
        then show False using True by simp
      qed
      have "last ys \<noteq> null" if "ys \<noteq> []" using path_not_null [OF path] last_in_set [OF that] by (metis UnI1 set_append)
      then have p: "(if so_tail me \<noteq> null then Next_of (so_tail me) else Head_field) = place_after ys"
        using tail \<open>zs = []\<close> by (simp add: place_after_def)
      have "(so_bins me)[f x := Some (place_after ys)] = map (\<lambda>b. bin_entry f b (ys @ x # zs)) [0..<BinCount]"
        unfolding bins entry using \<open>zs = []\<close> b by (auto intro!: nth_equalityI simp: nth_list_update)
      then have "placed_ok f me (me\<lparr>so_binEdge := f x + 1, so_bins := (so_bins me)[f x := Some (place_after ys)], so_tail := x\<rparr>) (ys @ x # zs)"
        using \<open>zs = []\<close> by (simp add: placed_ok_def)
      then show ?thesis using none True unfolding sorter_place_def Let_def p by simp
    next
      case False
      have some: "zs \<noteq> []"
      proof
        assume "zs = []"
        then have "ys \<noteq> [] \<Longrightarrow> f (last ys) < f x" using ys by simp
        then show False using False edge \<open>zs = []\<close> by (auto split: if_splits)
      qed
      have "find_succ (so_bins me) (f x) = Some (f (hd zs), place_after ys)"
        unfolding bins by (rule find_succ_found) (use sorted bound ys above some in auto)
      moreover have "(so_bins me)[f x := Some (place_after ys), f (hd zs) := Some (Next_of x)] = map (\<lambda>b. bin_entry f b (ys @ x # zs)) [0..<BinCount]"
        unfolding bins
      proof (rule update_entries)
        show "f x \<noteq> f (hd zs)" using above some by (metis hd_in_set less_irrefl)
        then show "bin_entry f (f (hd zs)) (ys @ x # zs) = Some (Next_of x)" using some unfolding entry by simp
      qed (simp_all add: entry)
      then have "placed_ok f me (me\<lparr>so_bins := (so_bins me)[f x := Some (place_after ys), f (hd zs) := Some (Next_of x)]\<rparr>) (ys @ x # zs)"
        using tail edge some by (simp add: placed_ok_def)
      ultimately show ?thesis using none False by (simp add: sorter_place_def)
    qed
  qed
qed

lemma sorter_insert_ok:
  assumes ok: "sorter_ok f (me, next) xs" and "x \<notin> set xs" and "x \<noteq> null" and fx: "f x = size_bin sz"
  shows "\<exists>me' next'. sorter_insert x sz (me, next) = Some (me', next') \<and> sorter_ok f (me', next') (insort_key f x xs)"
proof -
  have sorted: "sorted (map f xs)" and path: "path next (so_head me) xs null" and bound: "\<forall>y \<in> set xs. f y < BinCount"
    using ok by (simp_all add: sorter_ok_def)
  obtain ys zs where xs: "xs = ys @ zs" and ys_def: "ys = before_bin f (f x) xs" and ys: "\<forall>y \<in> set ys. f y < f x" and zs: "\<forall>z \<in> set zs. f x \<le> f z"
    using before_bin_split [OF sorted, of "f x"] by blast
  have insort: "insort_key f x xs = ys @ x # zs" unfolding xs using ys zs by (rule insort_split)
  have b: "f x < BinCount" unfolding fx by (rule size_bin_bounds)
  obtain me' where me': "sorter_place x (f x) me = Some (me', place_after ys)" "placed_ok f me me' (ys @ x # zs)"
    using sorter_place_ok [OF ok [unfolded xs] b ys zs ys_def [unfolded xs]] by blast
  obtain next' head' where wr: "write_place (place_after ys) x (next(x := read_place next (so_head me) (place_after ys))) (so_head me) = (next', head')"
    by fastforce
  have "path next' head' (ys @ x # zs) null" using insert_at_place [OF path [unfolded xs] _ assms(3) wr] assms(2) xs by simp
  moreover have "sorted (map f (ys @ x # zs))" using sorted_insort_key [of f x xs] sorted unfolding insort by simp
  moreover have "\<forall>y \<in> set (ys @ x # zs). f y < BinCount" using bound xs b by auto
  ultimately have "sorter_ok f (me'\<lparr>so_head := head'\<rparr>, next') (ys @ x # zs)" using me'(2) unfolding sorter_ok_def placed_ok_def by simp
  moreover have "sorter_insert x sz (me, next) = Some (me'\<lparr>so_head := head'\<rparr>, next')"
    using me' wr by (simp add: sorter_insert_def fx [symmetric] placed_ok_def)
  ultimately show ?thesis unfolding insort by blast
qed

lemma sorter_insert_all_ok:
  assumes "sorter_ok f s xs" and "distinct (map fst ts)" and "\<forall>t \<in> set ts. fst t \<notin> set xs \<and> fst t \<noteq> null \<and> f (fst t) = size_bin (snd t)"
  shows "\<exists>s'. sorter_insert_all ts s = Some s' \<and> sorter_ok f s' (fold (insort_key f) (map fst ts) xs)"
  using assms
proof (induction ts arbitrary: s xs)
  case (Cons t ts)
  obtain me nx where s: "s = (me, nx)" by fastforce
  obtain x sz where t: "t = (x, sz)" by fastforce
  obtain me' next' where step: "sorter_insert x sz (me, nx) = Some (me', next')" "sorter_ok f (me', next') (insort_key f x xs)"
    using sorter_insert_ok [OF Cons.prems(1) [unfolded s], of x sz] Cons.prems(3) t by auto
  have "\<forall>t \<in> set ts. fst t \<notin> set (insort_key f x xs) \<and> fst t \<noteq> null \<and> f (fst t) = size_bin (snd t)"
    using Cons.prems(2,3) t by (auto simp: set_insort_key image_iff)
  then obtain s' where "sorter_insert_all ts (me', next') = Some s'" "sorter_ok f s' (fold (insort_key f) (map fst ts) (insort_key f x xs))"
    using Cons.IH [OF step(2)] Cons.prems(2) by auto
  then show ?case using s t step(1) by simp
qed simp

definition task_size :: "(ptr \<times> nat) list \<Rightarrow> ptr \<Rightarrow> nat" where
  "task_size ts x = the (map_of ts x)"

lemma units_in_bytes:
  assumes "4 * size_units b \<le> 5 * size_units a"
  shows "4 * min MaxSize b < 5 * min MaxSize a + 4 * 2 ^ UnitLog2"
proof -
  have u: "min MaxSize x = 2 ^ UnitLog2 * size_units x + min MaxSize x mod 2 ^ UnitLog2" for x
    by (simp add: size_units_def)
  have "4 * min MaxSize b = 2 ^ UnitLog2 * (4 * size_units b) + 4 * (min MaxSize b mod 2 ^ UnitLog2)"
    using arg_cong [OF u [of b], of "(*) 4"] by (simp only: distrib_left mult.left_commute)
  moreover have "min MaxSize b mod 2 ^ UnitLog2 < 2 ^ UnitLog2" by (rule mod_less_divisor) simp
  moreover have "2 ^ UnitLog2 * (4 * size_units b) \<le> 2 ^ UnitLog2 * (5 * size_units a)" using assms by (rule mult_le_mono2)
  moreover have "2 ^ UnitLog2 * (5 * size_units a) \<le> 5 * min MaxSize a"
    using arg_cong [OF u [of a], of "(*) 5"] by (simp only: distrib_left mult.left_commute le_add1)
  ultimately show ?thesis by linarith
qed

text \<open>C13. After any tasks have been inserted, taking all of them out gives a linked list with exactly these tasks in the order of
  their bins, the last inserted first within a bin, and leaves an empty sorter.  The bins look at a size only
  up to 1 GB and in units of 1 KB: with sizes clamped to 1 GB, a task is at most a quarter larger, in whole
  units, than any task before it, which in bytes is a quarter and less than 1 KB more.  Tasks
  of 1 GB and more are not ordered among each other.\<close>
theorem sorter_sorts_tasks:
  assumes "distinct (map fst ts)" and "null \<notin> fst ` set ts"
  defines "f \<equiv> \<lambda>x. size_bin (task_size ts x)"
  defines "xs \<equiv> fold (insort_key f) (map fst ts) []"
  shows "\<exists>me next'. sorter_insert_all ts (empty_sorter, next) = Some (me, next') \<and>
    path next' (fst (sorter_dequeue_all me)) xs null \<and> snd (sorter_dequeue_all me) = empty_sorter \<and>
    mset xs = mset (map fst ts) \<and> sorted (map f xs) \<and>
    sorted_wrt (\<lambda>a b. 4 * size_units (task_size ts b) \<le> 5 * size_units (task_size ts a)) xs \<and>
    sorted_wrt (\<lambda>a b. 4 * min MaxSize (task_size ts b) < 5 * min MaxSize (task_size ts a) + 4 * 2 ^ UnitLog2) xs"
proof -
  have f: "f (fst t) = size_bin (snd t)" if "t \<in> set ts" for t
  proof -
    have "(fst t, snd t) \<in> set ts" using that by simp
    then have "map_of ts (fst t) = Some (snd t)" using assms(1) by (rule map_of_is_SomeI [rotated])
    then show ?thesis by (simp add: f_def task_size_def)
  qed
  have "fst t \<noteq> null" if "t \<in> set ts" for t using that assms(2) by force
  then have "\<exists>s'. sorter_insert_all ts (empty_sorter, next) = Some s' \<and> sorter_ok f s' xs"
    unfolding xs_def using f by (intro sorter_insert_all_ok [OF empty_sorter_ok assms(1)]) auto
  then obtain me next' where run: "sorter_insert_all ts (empty_sorter, next) = Some (me, next')" and ok: "sorter_ok f (me, next') xs"
    by auto
  have path: "path next' (so_head me) xs null" and sorted: "sorted (map f xs)" using ok by (simp_all add: sorter_ok_def)
  have "me = empty_sorter" if "so_head me = null"
  proof -
    have "xs = []" using path that by (simp add: path_null)
    then show ?thesis using ok that by (auto simp: sorter_ok_def empty_sorter_def bin_entry_def map_replicate_const)
  qed
  moreover have "mset (fold (insort_key f) us vs) = mset us + mset vs" for us vs by (induction us arbitrary: vs) simp_all
  then have "mset xs = mset (map fst ts)" unfolding xs_def by simp
  moreover have "sorted_wrt (\<lambda>a b. f a \<le> f b) xs" using sorted by (simp add: sorted_wrt_map)
  then have units: "sorted_wrt (\<lambda>a b. 4 * size_units (task_size ts b) \<le> 5 * size_units (task_size ts a)) xs"
    by (rule sorted_wrt_mono_rel [rotated]) (simp add: f_def size_bin_orders)
  moreover have "sorted_wrt (\<lambda>a b. 4 * min MaxSize (task_size ts b) < 5 * min MaxSize (task_size ts a) + 4 * 2 ^ UnitLog2) xs"
    using units by (rule sorted_wrt_mono_rel [rotated]) (rule units_in_bytes)
  ultimately show ?thesis using run path sorted by (auto simp: sorter_dequeue_all_def)
qed

theorem sorter_sorts_tasks_witness:
  "\<exists>me next'. sorter_insert_all [(8, 5000), (16, 100000), (24, 4900), (32, 2000000000)] (empty_sorter, \<lambda>_. 0) = Some (me, next') \<and>
    path next' (fst (sorter_dequeue_all me)) [32, 16, 24, 8] null"
proof -
  let ?ts = "[(8, 5000), (16, 100000), (24, 4900), (32, 2000000000)] :: (nat \<times> nat) list"
  have units: "size_units 5000 = 4" "size_units 100000 = 97" "size_units 4900 = 4" "size_units 2000000000 = 2 ^ 20"
    by (simp_all add: size_units_def MaxSize_def MaxLog2_def UnitLog2_def)
  have "code_of 4 = 4" "code_of 97 = 22" "code_of (2 ^ 20) = 76"
    using code_of_large [of 0 4] code_of_large [of 4 97] code_of_large [of 18 "2 ^ 20"] by simp_all
  then have bins: "size_bin 5000 = 76" "size_bin 100000 = 58" "size_bin 4900 = 76" "size_bin 2000000000 = 4"
    unfolding size_bin_code units by simp_all
  have ts: "distinct (map fst ?ts)" "null \<notin> fst ` set ?ts" by simp_all
  have "fold (insort_key (\<lambda>x. size_bin (task_size ?ts x))) (map fst ?ts) [] = [32, 16, 24, 8]"
    by (simp add: task_size_def bins)
  then show ?thesis using sorter_sorts_tasks [OF ts, of "\<lambda>_. 0"] by auto
qed

end
