(* ===== verification/IntruQueue.thy ===== *)
theory IntruQueue
  imports LinkedLists
begin

text \<open>
  The intrusive queue and the free list of equal-sized cells of \<open>src/include/utils.h\<close>: \<open>ncclIntruQueue\<close> and \<open>ncclMemoryPool\<close>.  An
  operation takes the queue and the link fields of all objects, and returns both.  \<^term>\<open>None\<close> is an access through a null pointer,
  and in \<open>intru_delete\<close> also a search that does not end.  The memory behind a pool, \<open>ncclMemoryStack\<close>, is the address it gives out.

  The locale \<open>list_queue\<close> says what a user of a queue relies on; the queue of the source is an interpretation.
\<close>

section \<open>The operations\<close>

record intru_queue =
  iq_head :: ptr
  iq_tail :: ptr

type_synonym queue_mem = "intru_queue \<times> (ptr \<Rightarrow> ptr)"

definition intru_construct :: intru_queue where
  "intru_construct = \<lparr>iq_head = null, iq_tail = null\<rparr>"

definition intru_empty :: "intru_queue \<Rightarrow> bool" where
  "intru_empty me \<longleftrightarrow> iq_head me = null"

definition intru_enqueue :: "ptr \<Rightarrow> queue_mem \<Rightarrow> queue_mem" where
  "intru_enqueue x s =
     (let (me, nx) = s;
          nx = nx(x := null);
          (me, nx) = (if iq_head me \<noteq> null then (me, nx(iq_tail me := x)) else (me\<lparr>iq_head := x\<rparr>, nx))
      in (me\<lparr>iq_tail := x\<rparr>, nx))"

definition intru_enqueue_front :: "ptr \<Rightarrow> queue_mem \<Rightarrow> queue_mem" where
  "intru_enqueue_front x s =
     (let (me, nx) = s;
          me = (if iq_head me = null then me\<lparr>iq_tail := x\<rparr> else me)
      in (me\<lparr>iq_head := x\<rparr>, nx(x := iq_head me)))"

definition intru_dequeue :: "queue_mem \<Rightarrow> (ptr \<times> queue_mem) option" where
  "intru_dequeue s =
     (let (me, nx) = s; ans = iq_head me in
      if ans = null then None
      else let me = me\<lparr>iq_head := nx ans\<rparr>
        in Some (ans, if iq_head me = null then me\<lparr>iq_tail := null\<rparr> else me, nx))"

definition intru_try_dequeue :: "queue_mem \<Rightarrow> ptr \<times> queue_mem" where
  "intru_try_dequeue s =
     (let (me, nx) = s; ans = iq_head me in
      if ans \<noteq> null
      then let me = me\<lparr>iq_head := nx ans\<rparr> in (ans, if iq_head me = null then me\<lparr>iq_tail := null\<rparr> else me, nx)
      else (ans, me, nx))"

text \<open>The loop of \<open>ncclIntruQueueDelete\<close>: the object found, or null, and the one before it.\<close>

partial_function (option) intru_search :: "(ptr \<Rightarrow> bool) \<Rightarrow> (ptr \<Rightarrow> ptr) \<Rightarrow> ptr \<Rightarrow> ptr \<Rightarrow> (ptr \<times> ptr) option" where
  "intru_search p nx prev cur =
     (if cur = null then Some (prev, null) else if p cur then Some (prev, cur) else intru_search p nx cur (nx cur))"

definition intru_delete :: "(ptr \<Rightarrow> ptr \<Rightarrow> bool) \<Rightarrow> ptr \<Rightarrow> queue_mem \<Rightarrow> (ptr \<times> queue_mem) option" where
  "intru_delete cmp x s =
     (let (me, nx) = s in
      map_option (\<lambda>(prev, cur).
        if cur = null then (cur, me, nx)
        else
          let (me', nx') = (if prev = null then (me\<lparr>iq_head := nx cur\<rparr>, nx) else (me, nx(prev := nx cur)))
          in (cur, if cur = iq_tail me then me'\<lparr>iq_tail := prev\<rparr> else me', nx'))
        (intru_search (\<lambda>cur. cmp cur x) nx null (iq_head me)))"

definition intru_transfer :: "intru_queue \<Rightarrow> intru_queue \<Rightarrow> (ptr \<Rightarrow> ptr) \<Rightarrow> intru_queue \<times> intru_queue \<times> (ptr \<Rightarrow> ptr)" where
  "intru_transfer dst src nx =
     (let (dst, nx) = (if iq_tail dst \<noteq> null then (dst, nx(iq_tail dst := iq_head src)) else (dst\<lparr>iq_head := iq_head src\<rparr>, nx));
          dst = (if iq_tail src \<noteq> null then dst\<lparr>iq_tail := iq_tail src\<rparr> else dst)
      in (dst, \<lparr>iq_head = null, iq_tail = null\<rparr>, nx))"

record memory_pool =
  mp_head :: ptr
  mp_tail :: ptr

definition pool_construct :: "memory_pool \<Rightarrow> memory_pool" where
  "pool_construct me = me\<lparr>mp_head := null\<rparr>"

text \<open>\<open>fresh\<close> is what the backing stack returns when it is asked.\<close>

definition pool_alloc :: "ptr \<Rightarrow> memory_pool \<times> (ptr \<Rightarrow> ptr) \<Rightarrow> ptr \<times> memory_pool \<times> (ptr \<Rightarrow> ptr)" where
  "pool_alloc fresh s =
     (let (me, nx) = s;
          (cell, me) = (if mp_head me \<noteq> null then (mp_head me, me\<lparr>mp_head := nx (mp_head me)\<rparr>) else (fresh, me))
      in (cell, me, nx(cell := 0)))"

definition pool_free :: "ptr \<Rightarrow> memory_pool \<times> (ptr \<Rightarrow> ptr) \<Rightarrow> memory_pool \<times> (ptr \<Rightarrow> ptr)" where
  "pool_free cell s =
     (let (me, nx) = s;
          nx = nx(cell := mp_head me);
          me = (if mp_head me = null then me\<lparr>mp_tail := cell\<rparr> else me)
      in (me\<lparr>mp_head := cell\<rparr>, nx))"

definition pool_take_all :: "memory_pool \<Rightarrow> memory_pool \<Rightarrow> (ptr \<Rightarrow> ptr) \<Rightarrow> memory_pool \<times> memory_pool \<times> (ptr \<Rightarrow> ptr)" where
  "pool_take_all me source nx =
     (if mp_head source \<noteq> null
      then let nx = nx(mp_tail source := mp_head me);
               me = (if mp_head me = null then me\<lparr>mp_tail := mp_tail source\<rparr> else me)
        in (me\<lparr>mp_head := mp_head source\<rparr>, source\<lparr>mp_head := null\<rparr>, nx)
      else (me, source, nx))"

section \<open>A queue holds a list\<close>

definition holds :: "queue_mem \<Rightarrow> ptr list \<Rightarrow> bool" where
  "holds s xs \<longleftrightarrow> path (snd s) (iq_head (fst s)) xs null \<and> iq_tail (fst s) = (if xs = [] then null else last xs)"

lemma holds_construct: "holds (intru_construct, nx) []"
  by (simp add: holds_def intru_construct_def)

lemma holds_head: "holds (me, nx) xs \<Longrightarrow> iq_head me = (if xs = [] then null else hd xs)"
  by (auto simp: holds_def dest: path_head)

lemma holds_not_null: "holds s xs \<Longrightarrow> x \<in> set xs \<Longrightarrow> x \<noteq> null"
  unfolding holds_def using path_not_null by metis

lemma holds_distinct: "holds s xs \<Longrightarrow> distinct xs"
  by (auto simp: holds_def dest: path_distinct)

lemma empty_iff_holds: "holds (me, nx) xs \<Longrightarrow> intru_empty me \<longleftrightarrow> xs = []"
  by (cases xs) (auto simp: holds_def intru_empty_def)

lemma enqueue_holds:
  assumes "holds s xs" and "x \<notin> set xs" and "x \<noteq> null"
  shows "holds (intru_enqueue x s) (xs @ [x])"
proof -
  obtain me nx where s: "s = (me, nx)" by fastforce
  show ?thesis
  proof (cases xs rule: rev_cases)
    case Nil
    then show ?thesis using assms by (auto simp: s holds_def intru_enqueue_def)
  next
    case (snoc ys y)
    then have "iq_head me \<noteq> null" using assms(1) by (cases ys) (auto simp: s holds_def)
    moreover have "y \<notin> set ys" using holds_distinct [OF assms(1)] snoc by simp
    ultimately show ?thesis using assms snoc by (auto simp: s holds_def intru_enqueue_def Let_def)
  qed
qed

lemma enqueue_front_holds:
  assumes "holds s xs" and "x \<notin> set xs" and "x \<noteq> null"
  shows "holds (intru_enqueue_front x s) (x # xs)"
proof -
  obtain me nx where s: "s = (me, nx)" by fastforce
  have "iq_head me = null \<longleftrightarrow> xs = []" using empty_iff_holds [OF assms(1) [unfolded s]] by (simp add: intru_empty_def)
  then show ?thesis using assms by (auto simp: s holds_def intru_enqueue_front_def Let_def)
qed

lemma try_dequeue_holds:
  assumes "holds s xs"
  shows "case xs of [] \<Rightarrow> intru_try_dequeue s = (null, s)
    | y # ys \<Rightarrow> \<exists>s'. intru_try_dequeue s = (y, s') \<and> holds s' ys \<and> snd s' = snd s"
proof -
  obtain me nx where s: "s = (me, nx)" by fastforce
  show ?thesis
  proof (cases xs)
    case Nil
    then show ?thesis using assms by (auto simp: s holds_def intru_try_dequeue_def)
  next
    case (Cons y ys)
    then have "path nx (nx y) ys null" "iq_head me = y" "y \<noteq> null" "iq_tail me = last (y # ys)" using assms by (auto simp: s holds_def)
    moreover have "nx y = null \<longleftrightarrow> ys = []" using calculation(1) by (cases ys) auto
    ultimately show ?thesis using Cons by (simp add: s holds_def intru_try_dequeue_def Let_def)
  qed
qed

lemma dequeue_holds:
  assumes "holds s (y # ys)"
  shows "\<exists>s'. intru_dequeue s = Some (y, s') \<and> holds s' ys \<and> snd s' = snd s"
proof -
  obtain me nx where s: "s = (me, nx)" by fastforce
  have "iq_head me \<noteq> null" using assms by (auto simp: s holds_def)
  then have "intru_dequeue s = Some (intru_try_dequeue s)" by (simp add: s intru_dequeue_def intru_try_dequeue_def Let_def)
  then show ?thesis using try_dequeue_holds [OF assms] by auto
qed



lemma search_path:
  assumes "path nx cur xs null"
  shows "intru_search p nx prev cur =
    Some (last (prev # takeWhile (\<lambda>x. \<not> p x) xs), case dropWhile (\<lambda>x. \<not> p x) xs of [] \<Rightarrow> null | y # _ \<Rightarrow> y)"
  using assms
proof (induction xs arbitrary: prev cur)
  case Nil
  then show ?case by (simp add: intru_search.simps)
next
  case (Cons y ys)
  then show ?case by (subst intru_search.simps) auto
qed

lemma path_remove:
  assumes "path nx head (ys @ y # zs) null"
  shows "ys = [] \<Longrightarrow> path nx (nx y) zs null"
    and "ys \<noteq> [] \<Longrightarrow> path (nx(last ys := nx y)) head (ys @ zs) null"
proof -
  show "path nx (nx y) zs null" if "ys = []" using assms by auto
  show "path (nx(last ys := nx y)) head (ys @ zs) null" if some: "ys \<noteq> []"
  proof -
    obtain us u where ys: "ys = us @ [u]" using some by (cases ys rule: rev_cases) auto
    have "distinct (ys @ y # zs)" using assms by (rule path_distinct)
    then have "u \<notin> set us" "u \<notin> set zs" using ys by auto
    then show ?thesis using assms ys by auto
  qed
qed

lemma delete_holds:
  assumes "holds s xs"
  shows "\<exists>y s'. intru_delete cmp x s = Some (y, s') \<and>
    (case dropWhile (\<lambda>c. \<not> cmp c x) xs of
       [] \<Rightarrow> y = null \<and> s' = s
     | z # zs \<Rightarrow> y = z \<and> cmp z x \<and> holds s' (takeWhile (\<lambda>c. \<not> cmp c x) xs @ zs))"
proof -
  obtain me nx where s: "s = (me, nx)" by fastforce
  let ?ys = "takeWhile (\<lambda>c. \<not> cmp c x) xs"
  have path: "path nx (iq_head me) xs null" and tail: "iq_tail me = (if xs = [] then null else last xs)"
    using assms by (auto simp: s holds_def)
  note search = search_path [OF path, of "\<lambda>c. cmp c x" null]
  show ?thesis
  proof (cases "dropWhile (\<lambda>c. \<not> cmp c x) xs")
    case Nil
    have "intru_delete cmp x s = Some (null, s)" unfolding s intru_delete_def Let_def prod.case search Nil by simp
    then show ?thesis unfolding Nil by simp
  next
    case (Cons z zs)
    have xs: "xs = ?ys @ z # zs" using Cons by (metis takeWhile_dropWhile_id)
    have z: "cmp z x" using hd_dropWhile [of "\<lambda>c. \<not> cmp c x" xs] Cons by simp
    have path': "path nx (iq_head me) (?ys @ z # zs) null" using path xs by simp
    have "distinct (?ys @ z # zs)" using path' by (rule path_distinct)
    then have dist: "distinct (z # zs)" by simp
    have "last xs = last (z # zs)" using arg_cong [OF xs, of last] unfolding last_appendR [OF list.distinct(2)] .
    then have tail'': "iq_tail me = last (z # zs)" using tail Cons by auto
    then have last: "z = iq_tail me \<longleftrightarrow> zs = []" using dist by (cases zs rule: rev_cases) auto
    have "last (null # us) = null \<longleftrightarrow> us = []" if "null \<notin> set us" for us using that by (cases us rule: rev_cases) auto
    then have nn: "z \<noteq> null" "last (null # ?ys) = null \<longleftrightarrow> ?ys = []" using path_not_null [OF path'] by simp_all
    have tail': "zs \<noteq> [] \<Longrightarrow> iq_tail me = last zs" using tail'' by simp
    show ?thesis
    proof (cases "?ys = []")
      case True
      have "intru_delete cmp x s = Some (z, (if zs = [] then me\<lparr>iq_head := nx z, iq_tail := null\<rparr> else me\<lparr>iq_head := nx z\<rparr>), nx)"
        unfolding s intru_delete_def Let_def prod.case search Cons using True nn(1) last by simp
      moreover have "path nx (nx z) zs null" using path_remove(1) [OF path' True] .
      ultimately show ?thesis unfolding Cons using True z tail' by (auto simp: holds_def)
    next
      case False
      have "intru_delete cmp x s = Some (z, (if zs = [] then me\<lparr>iq_tail := last ?ys\<rparr> else me), nx(last ?ys := nx z))"
        unfolding s intru_delete_def Let_def prod.case search Cons using False nn last by simp
      moreover have "path (nx(last ?ys := nx z)) (iq_head me) (?ys @ zs) null" using path_remove(2) [OF path' False] .
      ultimately show ?thesis unfolding Cons using False z tail' by (auto simp: holds_def)
    qed
  qed
qed

lemma join_paths:
  assumes "path nx p xs null" and "path nx q ys null" and "set xs \<inter> set ys = {}" and "xs \<noteq> []"
  shows "path (nx(last xs := q)) p (xs @ ys) null"
proof -
  obtain us u where xs: "xs = us @ [u]" using assms(4) by (cases xs rule: rev_cases) auto
  have "u \<notin> set us" "u \<notin> set ys" using path_distinct [OF assms(1)] assms(3) xs by auto
  then show ?thesis using assms(1,2) xs by auto
qed

lemma transfer_holds:
  assumes dst: "holds (dst, nx) xs" and src: "holds (src, nx) ys" and "set xs \<inter> set ys = {}"
  shows "\<exists>dst' src' nx'. intru_transfer dst src nx = (dst', src', nx') \<and> holds (dst', nx') (xs @ ys) \<and> holds (src', nx') []"
proof -
  have nn: "xs \<noteq> [] \<Longrightarrow> last xs \<noteq> null" "ys \<noteq> [] \<Longrightarrow> last ys \<noteq> null" using holds_not_null [OF dst] holds_not_null [OF src] by auto
  have tails: "iq_tail dst = (if xs = [] then null else last xs)" "iq_tail src = (if ys = [] then null else last ys)"
    and paths: "path nx (iq_head dst) xs null" "path nx (iq_head src) ys null"
    using dst src by (simp_all add: holds_def)
  show ?thesis
  proof (cases "xs = []")
    case True
    then show ?thesis using tails paths nn by (auto simp: intru_transfer_def holds_def)
  next
    case False
    have "path (nx(last xs := iq_head src)) (iq_head dst) (xs @ ys) null" using paths assms(3) False by (rule join_paths)
    then show ?thesis using False tails nn by (auto simp: intru_transfer_def holds_def Let_def)
  qed
qed

section \<open>What a user of a queue relies on\<close>

text \<open>\<open>while (!ncclIntruQueueEmpty(q)) x = ncclIntruQueueDequeue(q)\<close>, as the sources empty their queues.  The number of
  iterations is bounded by the fuel.\<close>

fun drain :: "('q \<Rightarrow> bool) \<Rightarrow> ('q \<Rightarrow> ('x \<times> 'q) option) \<Rightarrow> nat \<Rightarrow> 'q \<Rightarrow> ('x list \<times> 'q) option" where
  "drain is_empty deq 0 s = None"
| "drain is_empty deq (Suc fuel) s =
     (if is_empty s then Some ([], s)
      else Option.bind (deq s) (\<lambda>(x, s). map_option (\<lambda>(xs, s). (x # xs, s)) (drain is_empty deq fuel s)))"

locale list_queue =
  fixes contents :: "'q \<Rightarrow> 'x list \<Rightarrow> bool"
    and is_empty :: "'q \<Rightarrow> bool"
    and enq :: "'x \<Rightarrow> 'q \<Rightarrow> 'q"
    and deq :: "'q \<Rightarrow> ('x \<times> 'q) option"
    and fit :: "'x \<Rightarrow> bool"
  assumes is_empty_contents: "contents s xs \<Longrightarrow> is_empty s \<longleftrightarrow> xs = []"
    and enq_contents: "contents s xs \<Longrightarrow> x \<notin> set xs \<Longrightarrow> fit x \<Longrightarrow> contents (enq x s) (xs @ [x])"
    and deq_contents: "contents s (x # xs) \<Longrightarrow> \<exists>s'. deq s = Some (x, s') \<and> contents s' xs"
begin

lemma drain_contents: "contents s xs \<Longrightarrow> length xs < fuel \<Longrightarrow> \<exists>s'. drain is_empty deq fuel s = Some (xs, s') \<and> contents s' []"
proof (induction xs arbitrary: s fuel)
  case Nil
  then show ?case by (cases fuel) (auto simp: is_empty_contents)
next
  case (Cons x xs)
  then obtain fuel' where "fuel = Suc fuel'" by (cases fuel) auto
  moreover obtain s1 where "deq s = Some (x, s1)" "contents s1 xs" using deq_contents [OF Cons.prems(1)] by blast
  ultimately show ?case using Cons.IH [of s1 fuel'] Cons.prems is_empty_contents [OF Cons.prems(1)] by auto
qed

lemma enq_all_contents:
  "contents s xs \<Longrightarrow> distinct ys \<Longrightarrow> set xs \<inter> set ys = {} \<Longrightarrow> \<forall>y \<in> set ys. fit y \<Longrightarrow> contents (fold enq ys s) (xs @ ys)"
proof (induction ys arbitrary: s xs)
  case (Cons y ys)
  then have "contents (enq y s) (xs @ [y])" by (intro enq_contents) auto
  then have "contents (fold enq ys (enq y s)) ((xs @ [y]) @ ys)" using Cons.prems by (intro Cons.IH) auto
  then show ?case by simp
qed simp

lemma fifo:
  assumes "contents s []" and "distinct ys" and "\<forall>y \<in> set ys. fit y" and "length ys < fuel"
  shows "\<exists>s'. drain is_empty deq fuel (fold enq ys s) = Some (ys, s') \<and> contents s' []"
  using drain_contents [OF enq_all_contents [OF assms(1,2) _ assms(3)], of fuel] assms(4) by simp

end

interpretation iq: list_queue holds "\<lambda>s. intru_empty (fst s)" intru_enqueue intru_dequeue "\<lambda>x. x \<noteq> null"
  by unfold_locales (auto simp: empty_iff_holds intro: enqueue_holds dest: dequeue_holds)

section \<open>Sequences of operations\<close>

datatype queue_op = Enqueue ptr | Enqueue_front ptr | Try_dequeue | Delete "ptr \<Rightarrow> ptr \<Rightarrow> bool" ptr

fun queue_op_run :: "queue_op \<Rightarrow> queue_mem \<Rightarrow> (ptr \<times> queue_mem) option" where
  "queue_op_run (Enqueue x) s = Some (null, intru_enqueue x s)"
| "queue_op_run (Enqueue_front x) s = Some (null, intru_enqueue_front x s)"
| "queue_op_run Try_dequeue s = Some (intru_try_dequeue s)"
| "queue_op_run (Delete cmp x) s = intru_delete cmp x s"

fun list_op_run :: "queue_op \<Rightarrow> ptr list \<Rightarrow> ptr \<times> ptr list" where
  "list_op_run (Enqueue x) xs = (null, xs @ [x])"
| "list_op_run (Enqueue_front x) xs = (null, x # xs)"
| "list_op_run Try_dequeue xs = (case xs of [] \<Rightarrow> (null, []) | y # ys \<Rightarrow> (y, ys))"
| "list_op_run (Delete cmp x) xs =
     (case dropWhile (\<lambda>c. \<not> cmp c x) xs of [] \<Rightarrow> (null, xs) | y # ys \<Rightarrow> (y, takeWhile (\<lambda>c. \<not> cmp c x) xs @ ys))"

fun op_fits :: "queue_op \<Rightarrow> ptr list \<Rightarrow> bool" where
  "op_fits (Enqueue x) xs \<longleftrightarrow> x \<notin> set xs \<and> x \<noteq> null"
| "op_fits (Enqueue_front x) xs \<longleftrightarrow> x \<notin> set xs \<and> x \<noteq> null"
| "op_fits Try_dequeue xs \<longleftrightarrow> True"
| "op_fits (Delete cmp x) xs \<longleftrightarrow> True"

fun queue_ops_run :: "queue_op list \<Rightarrow> queue_mem \<Rightarrow> (ptr list \<times> queue_mem) option" where
  "queue_ops_run [] s = Some ([], s)"
| "queue_ops_run (p # ps) s =
     Option.bind (queue_op_run p s) (\<lambda>(r, s). map_option (\<lambda>(rs, s). (r # rs, s)) (queue_ops_run ps s))"

fun list_ops_run :: "queue_op list \<Rightarrow> ptr list \<Rightarrow> ptr list \<times> ptr list" where
  "list_ops_run [] xs = ([], xs)"
| "list_ops_run (p # ps) xs =
     (let (r, xs) = list_op_run p xs; (rs, xs) = list_ops_run ps xs in (r # rs, xs))"

fun ops_fit :: "queue_op list \<Rightarrow> ptr list \<Rightarrow> bool" where
  "ops_fit [] xs \<longleftrightarrow> True"
| "ops_fit (p # ps) xs \<longleftrightarrow> op_fits p xs \<and> ops_fit ps (snd (list_op_run p xs))"

lemma queue_op_refines:
  assumes "holds s xs" and "op_fits p xs"
  shows "\<exists>s'. queue_op_run p s = Some (fst (list_op_run p xs), s') \<and> holds s' (snd (list_op_run p xs))"
proof (cases p)
  case (Enqueue x)
  then show ?thesis using assms enqueue_holds by simp
next
  case (Enqueue_front x)
  then show ?thesis using assms enqueue_front_holds by simp
next
  case Try_dequeue
  then show ?thesis using try_dequeue_holds [OF assms(1)] assms(1) by (cases xs) auto
next
  case (Delete cmp x)
  let ?d = "dropWhile (\<lambda>c. \<not> cmp c x) xs"
  obtain y s' where del: "intru_delete cmp x s = Some (y, s')" and left: "case ?d of
       [] \<Rightarrow> y = null \<and> s' = s
     | z # zs \<Rightarrow> y = z \<and> cmp z x \<and> holds s' (takeWhile (\<lambda>c. \<not> cmp c x) xs @ zs)"
    using delete_holds [OF assms(1)] by blast
  show ?thesis
  proof (cases ?d)
    case Nil
    show ?thesis using del left assms(1) unfolding Delete queue_op_run.simps list_op_run.simps Nil by simp
  next
    case (Cons z zs)
    show ?thesis using del left unfolding Delete queue_op_run.simps list_op_run.simps Cons by simp
  qed
qed

text \<open>C15. Every sequence of queue operations, from an empty queue on, returns what the same operations on a list return and leaves the
  queue holding that list; no operation follows a null pointer, and every search ends.\<close>
theorem intru_queue_refines_list:
  assumes "ops_fit ps []"
  shows "\<exists>s'. queue_ops_run ps (intru_construct, nx) = Some (fst (list_ops_run ps []), s') \<and> holds s' (snd (list_ops_run ps []))"
proof -
  have "\<exists>s'. queue_ops_run ps s = Some (fst (list_ops_run ps xs), s') \<and> holds s' (snd (list_ops_run ps xs))"
    if "holds s xs" "ops_fit ps xs" for s xs
    using that
  proof (induction ps arbitrary: s xs)
    case (Cons p ps)
    have "op_fits p xs" using Cons.prems(2) by simp
    from queue_op_refines [OF Cons.prems(1) this]
    obtain s1 where "queue_op_run p s = Some (fst (list_op_run p xs), s1)" "holds s1 (snd (list_op_run p xs))" by blast
    then show ?case using Cons.IH [of s1 "snd (list_op_run p xs)"] Cons.prems(2) by (auto simp: split_beta Let_def)
  qed simp
  then show ?thesis using holds_construct assms by blast
qed

theorem intru_queue_refines_list_witness:
  "\<exists>s'. queue_ops_run [Enqueue 8, Enqueue 16, Enqueue_front 24, Delete (=) 8, Try_dequeue] (intru_construct, \<lambda>_. 0)
      = Some ([0, 0, 0, 8, 24], s') \<and> holds s' [16]"
  using intru_queue_refines_list [of "[Enqueue 8, Enqueue 16, Enqueue_front 24, Delete (=) 8, Try_dequeue]" "\<lambda>_. 0"] by simp

lemma emptying_a_queue: "distinct ys \<Longrightarrow> null \<notin> set ys \<Longrightarrow> length ys < fuel \<Longrightarrow>
  \<exists>s'. drain (\<lambda>s. intru_empty (fst s)) intru_dequeue fuel (fold intru_enqueue ys (intru_construct, nx)) = Some (ys, s') \<and> holds s' []"
  by (rule iq.fifo) (auto simp: holds_construct intro: gr0I)

section \<open>Pools\<close>

definition pool_holds :: "memory_pool \<times> (ptr \<Rightarrow> ptr) \<Rightarrow> ptr list \<Rightarrow> bool" where
  "pool_holds s xs \<longleftrightarrow> path (snd s) (mp_head (fst s)) xs null \<and> (xs \<noteq> [] \<longrightarrow> mp_tail (fst s) = last xs)"

lemma pool_construct_holds: "pool_holds (pool_construct me, nx) []"
  by (simp add: pool_holds_def pool_construct_def)

lemma pool_free_holds:
  assumes "pool_holds s xs" and "cell \<notin> set xs" and "cell \<noteq> null"
  shows "pool_holds (pool_free cell s) (cell # xs)"
proof -
  obtain me nx where s: "s = (me, nx)" by fastforce
  have "mp_head me = null \<longleftrightarrow> xs = []" using assms(1) by (cases xs) (auto simp: s pool_holds_def)
  then show ?thesis using assms by (auto simp: s pool_holds_def pool_free_def Let_def)
qed

lemma pool_alloc_holds:
  assumes "pool_holds s xs" and "fresh \<notin> set xs"
  shows "case xs of [] \<Rightarrow> \<exists>s'. pool_alloc fresh s = (fresh, s') \<and> pool_holds s' []
    | y # ys \<Rightarrow> \<exists>s'. pool_alloc fresh s = (y, s') \<and> pool_holds s' ys"
proof -
  obtain me nx where s: "s = (me, nx)" by fastforce
  show ?thesis
  proof (cases xs)
    case Nil
    then show ?thesis using assms by (auto simp: s pool_holds_def pool_alloc_def)
  next
    case (Cons y ys)
    then have p: "path nx (mp_head me) (y # ys) null" using assms(1) by (simp add: s pool_holds_def)
    then have "y \<notin> set ys" using path_distinct [OF p] by simp
    then show ?thesis using assms Cons by (auto simp: s pool_holds_def pool_alloc_def Let_def)
  qed
qed

lemma pool_take_all_holds:
  assumes me: "pool_holds (me, nx) xs" and source: "pool_holds (source, nx) ys" and "set xs \<inter> set ys = {}"
  shows "\<exists>me' source' nx'. pool_take_all me source nx = (me', source', nx') \<and> pool_holds (me', nx') (ys @ xs) \<and> pool_holds (source', nx') []"
proof (cases "ys = []")
  case True
  then show ?thesis using me source by (auto simp: pool_holds_def pool_take_all_def)
next
  case False
  then have "mp_head source \<noteq> null" "mp_tail source = last ys" using source by (cases ys, auto simp: pool_holds_def)
  moreover have "path (nx(last ys := mp_head me)) (mp_head source) (ys @ xs) null"
    using me source assms(3) False by (intro join_paths) (auto simp: pool_holds_def)
  moreover have "mp_head me = null \<longleftrightarrow> xs = []" using me by (cases xs) (auto simp: pool_holds_def)
  ultimately show ?thesis using me by (auto simp: pool_holds_def pool_take_all_def Let_def)
qed

end
