(* ===== verification/PrepareTasks.thy ===== *)
theory PrepareTasks
  imports CollSorter IntruQueue CollSplit
begin

text \<open>
  How the tasks of a group get into the queue the scheduler works on: \<open>ncclPrepareTasks\<close> of \<open>src/enqueue.cc\<close>, from taking the
  sorted tasks out of \<open>collSorter\<close> to the final \<open>collTaskQueue\<close>.  Tasks are binned by function, operation and type, neighbours of
  similar size are aggregated to choose an algorithm for all of them at once, and the results are queued by what they ask of the
  channels.

  The choice of an algorithm (\<open>ncclGetAlgoInfo\<close>, \<open>ncclGetCollNetSupport\<close>, \<open>ncclDevFuncId\<close>) is an argument, any function of the
  task; the broadcast tasks with a single peer have been put into the sorter before.  All lists run through the one \<open>next\<close> field of the tasks; \<^term>\<open>None\<close> is a loop that does not end.  Symmetric kernels are taken
  not to be supported.  Sizes and counts are natural numbers: sums of \<open>size_t\<close> that wrap, and bit fields too narrow for what is chosen, are
  outside of the model.

  The lemmas show that no list loses or repeats a task while they are relinked, and that the queue is ordered as the scheduler
  (\<open>CollSplit\<close>) expects it.
\<close>

section \<open>Tasks\<close>

record prep_task = coll_task +
  pt_op :: nat
  pt_algorithm :: int
  pt_nWarps :: nat
  pt_devFuncId :: int

fun func_number :: "nccl_func \<Rightarrow> nat" where
  "func_number FuncBroadcast = 0" | "func_number FuncReduce = 1" | "func_number FuncAllGather = 2"
| "func_number FuncReduceScatter = 3" | "func_number FuncAllReduce = 4" | "func_number FuncOther = 5"

fun type_number :: "data_type \<Rightarrow> nat" where
  "type_number Int8 = 0" | "type_number Uint8 = 1" | "type_number Int32 = 2" | "type_number Uint32 = 3"
| "type_number Int64 = 4" | "type_number Uint64 = 5" | "type_number Float16 = 6" | "type_number Float32 = 7"
| "type_number Float64 = 8" | "type_number Bfloat16 = 9" | "type_number Float8e4m3 = 10" | "type_number Float8e5m2 = 11"

definition ncclNumDevRedOps :: nat where
  "ncclNumDevRedOps = 5"

definition ncclNumTypes :: nat where
  "ncclNumTypes = 12"

definition coll_index :: "prep_task \<Rightarrow> nat" where
  "coll_index t = (func_number (ct_func t) * ncclNumDevRedOps + pt_op t) * ncclNumTypes + type_number (ct_datatype t)"

text \<open>What is computed elsewhere.\<close>

record algo_choice =
  ac_algorithm :: int
  ac_protocol :: nccl_proto
  ac_nMaxChannels :: nat
  ac_nWarps :: nat

record algo_env =
  ae_collNetSupport :: "prep_task \<Rightarrow> nccl_result \<times> bool"
  ae_nvlsSupport :: "prep_task \<Rightarrow> bool"
  ae_algoInfo :: "prep_task \<Rightarrow> bool \<Rightarrow> bool \<Rightarrow> nat \<Rightarrow> nccl_result \<times> algo_choice"
  ae_devFuncId :: "prep_task \<Rightarrow> int"
  ae_nNodes :: nat
  ae_nChannels :: nat

section \<open>Binning by function, operation and type\<close>

type_synonym bins_st = "(nat \<Rightarrow> ptr) \<times> nat list \<times> (ptr \<Rightarrow> ptr)"

partial_function (option) bin_tasks :: "(ptr \<Rightarrow> nat) \<Rightarrow> ptr \<Rightarrow> bins_st \<Rightarrow> bins_st option" where
  "bin_tasks index task st =
     (if task = null then Some st
      else let (heads, indices, nx) = st;
               next = nx task;
               i = index task;
               indices = (if heads i = null then indices @ [i] else indices);
               nx = nx(task := heads i)
           in bin_tasks index next (heads(i := task), indices, nx))"

section \<open>Aggregation and choice of the algorithm\<close>

definition add_to_aggregate :: "prep_task \<Rightarrow> prep_task \<Rightarrow> prep_task" where
  "add_to_aggregate agg t = agg\<lparr>ct_count := ct_count agg + ct_count t, ct_trafficBytes := ct_trafficBytes agg + ct_trafficBytes t\<rparr>"

partial_function (option) aggregate :: "(ptr \<Rightarrow> ptr) \<Rightarrow> (ptr \<Rightarrow> prep_task) \<Rightarrow> nat \<Rightarrow> ptr \<Rightarrow> prep_task \<Rightarrow> (ptr \<times> prep_task) option" where
  "aggregate nx tasks begTraffic aggEnd agg =
     (if aggEnd \<noteq> null \<and> ct_trafficBytes (tasks aggEnd) < 4 * begTraffic
      then aggregate nx tasks begTraffic (nx aggEnd) (add_to_aggregate agg (tasks aggEnd))
      else Some (aggEnd, agg))"

definition choose_algorithm :: "algo_env \<Rightarrow> bool \<Rightarrow> bool \<Rightarrow> nat \<Rightarrow> prep_task \<Rightarrow> nccl_result \<times> prep_task" where
  "choose_algorithm env collNet nvls nTasksPerChannel agg =
     (let (r, c) = ae_algoInfo env agg collNet nvls nTasksPerChannel;
          agg = agg\<lparr>pt_algorithm := ac_algorithm c, ct_protocol := ac_protocol c, ct_nMaxChannels := ac_nMaxChannels c, pt_nWarps := ac_nWarps c\<rparr>;
          agg = agg\<lparr>pt_devFuncId := ae_devFuncId env agg\<rparr>;
          isNvls = (ac_algorithm c = 4 \<or> ac_algorithm c = 5);
          isCollnet = (ac_algorithm c = 4 \<and> 1 < ae_nNodes env \<or> ac_algorithm c = 3 \<or> ac_algorithm c = 2)
      in (r, agg\<lparr>ct_isCollnet := isCollnet, ct_isNvls := isNvls\<rparr>))"

definition update_task :: "prep_task \<Rightarrow> prep_task \<Rightarrow> prep_task" where
  "update_task agg t =
     t\<lparr>pt_algorithm := pt_algorithm agg, ct_protocol := ct_protocol agg,
       ct_trafficBytes := (if ct_protocol agg = ProtoLL then ct_trafficBytes t * 4 else ct_trafficBytes t),
       ct_nMaxChannels := ct_nMaxChannels agg, pt_nWarps := pt_nWarps agg, pt_devFuncId := pt_devFuncId agg,
       ct_isCollnet := ct_isCollnet agg, ct_isNvls := ct_isNvls agg\<rparr>"

text \<open>The links, the tasks and the queues \<open>collBins\<close>, one for each kind.\<close>

record prep_st =
  ps_links :: "ptr \<Rightarrow> ptr"
  ps_tasks :: "ptr \<Rightarrow> prep_task"
  ps_bins :: "nat \<Rightarrow> intru_queue"

definition queue_task :: "prep_task \<Rightarrow> ptr \<Rightarrow> prep_st \<Rightarrow> prep_st" where
  "queue_task agg x s =
     (let k = task_kind (coll_task.truncate agg);
          (q, nx) = intru_enqueue x (ps_bins s k, ps_links s)
      in \<lparr>ps_links = nx, ps_tasks = (ps_tasks s)(x := update_task agg (ps_tasks s x)), ps_bins = (ps_bins s)(k := q)\<rparr>)"

partial_function (option) update_tasks :: "prep_task \<Rightarrow> ptr \<Rightarrow> ptr \<Rightarrow> prep_st \<Rightarrow> prep_st option" where
  "update_tasks agg aggEnd aggBeg s =
     (let next = ps_links s aggBeg; s = queue_task agg aggBeg s
      in if next \<noteq> aggEnd then update_tasks agg aggEnd next s else Some s)"

partial_function (option) prepare_bin :: "algo_env \<Rightarrow> bool \<Rightarrow> bool \<Rightarrow> nat \<Rightarrow> ptr \<Rightarrow> prep_st \<Rightarrow> (nccl_result \<times> prep_st) option" where
  "prepare_bin env collNet nvls nTasksPerChannel aggBeg s =
     (case aggregate (ps_links s) (ps_tasks s) (ct_trafficBytes (ps_tasks s aggBeg)) (ps_links s aggBeg) (ps_tasks s aggBeg) of
        None \<Rightarrow> None
      | Some (aggEnd, agg) \<Rightarrow>
          (case choose_algorithm env collNet nvls nTasksPerChannel agg of (r, agg) \<Rightarrow>
             if r \<noteq> ncclSuccess then Some (r, s)
             else (case update_tasks agg aggEnd aggBeg s of
                     None \<Rightarrow> None
                   | Some s \<Rightarrow> if aggEnd \<noteq> null then prepare_bin env collNet nvls nTasksPerChannel aggEnd s else Some (ncclSuccess, s))))"

fun prepare_bins :: "algo_env \<Rightarrow> nat \<Rightarrow> (nat \<Rightarrow> ptr) \<Rightarrow> nat list \<Rightarrow> prep_st \<Rightarrow> (nccl_result \<times> prep_st) option" where
  "prepare_bins env nTasksPerChannel heads [] s = Some (ncclSuccess, s)"
| "prepare_bins env nTasksPerChannel heads (i # is) s =
     (let aggBeg = heads i; (r, collNet) = ae_collNetSupport env (ps_tasks s aggBeg) in
      if r \<noteq> ncclSuccess then Some (r, s)
      else (case prepare_bin env collNet (ae_nvlsSupport env (ps_tasks s aggBeg)) nTasksPerChannel aggBeg s of
              None \<Rightarrow> None
            | Some (r, s) \<Rightarrow> if r \<noteq> ncclSuccess then Some (r, s) else prepare_bins env nTasksPerChannel heads is s))"

fun transfer_bins :: "nat list \<Rightarrow> intru_queue \<times> prep_st \<Rightarrow> intru_queue \<times> prep_st" where
  "transfer_bins [] s = s"
| "transfer_bins (k # ks) s =
     (let (queue, s) = s; (queue, b, nx) = intru_transfer queue (ps_bins s k) (ps_links s)
      in transfer_bins ks (queue, s\<lparr>ps_links := nx, ps_bins := (ps_bins s)(k := b)\<rparr>))"

text \<open>From the sorter to the queue; \<open>nTasksColl\<close> is the number of tasks the planner has counted.\<close>

definition prepare_tasks ::
    "algo_env \<Rightarrow> nat \<Rightarrow> (ptr \<Rightarrow> prep_task) \<Rightarrow> intru_queue \<Rightarrow> coll_sorter \<times> (ptr \<Rightarrow> ptr) \<Rightarrow>
      (nccl_result \<times> coll_sorter \<times> intru_queue \<times> prep_st) option" where
  "prepare_tasks env nTasksColl tasks queue ss =
     (let (me, nx) = ss; (task, me) = sorter_dequeue_all me in
      case bin_tasks (\<lambda>x. coll_index (tasks x)) task (\<lambda>_. null, [], nx) of
        None \<Rightarrow> None
      | Some (heads, indices, nx) \<Rightarrow>
          (case prepare_bins env (div_up_nat nTasksColl (ae_nChannels env)) heads indices
                  \<lparr>ps_links = nx, ps_tasks = tasks, ps_bins = (\<lambda>_. intru_construct)\<rparr> of
             None \<Rightarrow> None
           | Some (r, s) \<Rightarrow>
               if r \<noteq> ncclSuccess then Some (r, me, queue, s)
               else let (queue, s) = transfer_bins [0, 1, 2, 3] (queue, s) in Some (ncclSuccess, me, queue, s)))"

section \<open>Lists that share their links\<close>

lemma path_frame: "(\<And>x. x \<in> set xs \<Longrightarrow> nx' x = nx x) \<Longrightarrow> path nx' p xs r \<longleftrightarrow> path nx p xs r"
  by (induction xs arbitrary: p) auto

lemma holds_frame: "(\<And>x. x \<in> set xs \<Longrightarrow> nx' x = nx x) \<Longrightarrow> holds (q, nx') xs \<longleftrightarrow> holds (q, nx) xs"
  using path_frame [of xs nx' nx] by (simp add: holds_def)

definition first_of :: "ptr list \<Rightarrow> ptr" where
  "first_of xs = (if xs = [] then null else hd xs)"

lemma first_of_simps [simp]: "first_of [] = null" "first_of (x # xs) = x"
  by (simp_all add: first_of_def)

lemma path_first: "path nx p xs null \<Longrightarrow> p = first_of xs"
  by (simp add: first_of_def path_head)

lemma hd_not_null: "xs \<noteq> [] \<Longrightarrow> null \<notin> set xs \<Longrightarrow> hd xs \<noteq> null"
  using hd_in_set by metis

lemma enqueue_links:
  assumes "holds (q, nx) xs" and "y \<noteq> x" and "y \<notin> set xs"
  shows "snd (intru_enqueue x (q, nx)) y = nx y"
  using assms by (cases xs rule: rev_cases) (auto simp: holds_def intru_enqueue_def Let_def)

section \<open>Binning\<close>

definition firsts :: "nat list \<Rightarrow> nat list" where
  "firsts is = fold (\<lambda>i acc. if i \<in> set acc then acc else acc @ [i]) is []"

lemma firsts_snoc: "firsts (is @ [i]) = (if i \<in> set (firsts is) then firsts is else firsts is @ [i])"
  by (simp add: firsts_def)

lemma set_firsts [simp]: "set (firsts is) = set is"
  by (induction "is" rule: rev_induct) (auto simp: firsts_snoc, simp_all add: firsts_def)

lemma distinct_firsts: "distinct (firsts is)"
  by (induction "is" rule: rev_induct) (auto simp: firsts_snoc, simp_all add: firsts_def)

definition bin_list :: "(ptr \<Rightarrow> nat) \<Rightarrow> nat \<Rightarrow> ptr list \<Rightarrow> ptr list" where
  "bin_list index i ys = rev (filter (\<lambda>y. index y = i) ys)"

definition bins_ok :: "(ptr \<Rightarrow> nat) \<Rightarrow> bins_st \<Rightarrow> ptr list \<Rightarrow> bool" where
  "bins_ok index st ys \<longleftrightarrow>
     (case st of (heads, indices, nx) \<Rightarrow>
        (\<forall>i. path nx (heads i) (bin_list index i ys) null) \<and> indices = firsts (map index ys))"

lemma bin_tasks_ok:
  assumes "path nx task xs null" and "bins_ok index (heads, indices, nx) ys" and "set xs \<inter> set ys = {}"
  shows "\<exists>st. bin_tasks index task (heads, indices, nx) = Some st \<and> bins_ok index st (ys @ xs)"
  using assms
proof (induction xs arbitrary: task heads indices nx ys)
  case Nil
  then show ?case by (auto simp: bin_tasks.simps)
next
  case (Cons x xs)
  then have task: "task = x" "x \<noteq> null" and rest: "path nx (nx x) xs null" by auto
  have x: "x \<notin> set xs" using path_distinct [OF Cons.prems(1)] by simp
  let ?nx = "nx(x := heads (index x))" and ?heads = "heads(index x := x)"
  let ?indices = "if heads (index x) = null then indices @ [index x] else indices"
  have old: "path nx (heads i) (bin_list index i ys) null" for i using Cons.prems(2) by (simp add: bins_ok_def)
  have not_in: "x \<notin> set (bin_list index i ys)" for i using Cons.prems(3) by (auto simp: bin_list_def)
  have "path ?nx (?heads i) (bin_list index i (ys @ [x])) null" for i
    using old not_in task(2) by (auto simp: bin_list_def)
  moreover have "heads (index x) = null \<longleftrightarrow> bin_list index (index x) ys = []"
    using old [of "index x"] by (cases "bin_list index (index x) ys") auto
  then have "heads (index x) = null \<longleftrightarrow> index x \<notin> set (firsts (map index ys))"
    by (auto simp: bin_list_def filter_empty_conv image_iff)
  then have "?indices = firsts (map index (ys @ [x]))" using Cons.prems(2) by (simp add: bins_ok_def firsts_snoc)
  ultimately have ok: "bins_ok index (?heads, ?indices, ?nx) (ys @ [x])" by (simp add: bins_ok_def)
  have path: "path ?nx (nx x) xs null" using rest x by simp
  have "set xs \<inter> set (ys @ [x]) = {}" using Cons.prems(3) x by auto
  from Cons.IH [OF path ok this]
  obtain st where "bin_tasks index (nx x) (?heads, ?indices, ?nx) = Some st" "bins_ok index st ((ys @ [x]) @ xs)" by blast
  then show ?case using task by (subst bin_tasks.simps) (simp add: Let_def)
qed

section \<open>Aggregates\<close>

function groups_of :: "(ptr \<Rightarrow> prep_task) \<Rightarrow> ptr list \<Rightarrow> ptr list list" where
  "groups_of tasks [] = []"
| "groups_of tasks (x # xs) =
     (let p = (\<lambda>y. ct_trafficBytes (tasks y) < 4 * ct_trafficBytes (tasks x))
      in (x # takeWhile p xs) # groups_of tasks (dropWhile p xs))"
  by pat_completeness auto

termination
  by (relation "measure (length o snd)") (auto simp: le_imp_less_Suc length_dropWhile_le)

definition group_aggregate :: "(ptr \<Rightarrow> prep_task) \<Rightarrow> ptr list \<Rightarrow> prep_task" where
  "group_aggregate tasks g = fold (\<lambda>y agg. add_to_aggregate agg (tasks y)) (tl g) (tasks (hd g))"

lemma concat_groups: "concat (groups_of tasks xs) = xs"
  by (induction tasks xs rule: groups_of.induct) (simp_all add: Let_def)

lemma groups_not_empty: "g \<in> set (groups_of tasks xs) \<Longrightarrow> g \<noteq> []"
  by (induction tasks xs rule: groups_of.induct) (auto simp: Let_def)

lemma aggregate_ok:
  assumes "path nx cur xs null"
  shows "aggregate nx tasks b cur agg =
    Some (first_of (dropWhile (\<lambda>y. ct_trafficBytes (tasks y) < 4 * b) xs),
      fold (\<lambda>y agg. add_to_aggregate agg (tasks y)) (takeWhile (\<lambda>y. ct_trafficBytes (tasks y) < 4 * b) xs) agg)"
  using assms
proof (induction xs arbitrary: cur agg)
  case Nil
  then show ?case by (simp add: aggregate.simps)
next
  case (Cons x xs)
  then show ?case by (subst aggregate.simps) auto
qed

section \<open>Queueing a group\<close>

definition queues_ok :: "prep_st \<Rightarrow> (nat \<Rightarrow> ptr list) \<Rightarrow> bool" where
  "queues_ok s Q \<longleftrightarrow> (\<forall>k. holds (ps_bins s k, ps_links s) (Q k)) \<and> (\<forall>k k'. k \<noteq> k' \<longrightarrow> set (Q k) \<inter> set (Q k') = {})"

definition queued :: "(nat \<Rightarrow> ptr list) \<Rightarrow> ptr set" where
  "queued Q = (\<Union>k. set (Q k))"

definition assign :: "prep_task \<Rightarrow> ptr list \<Rightarrow> (ptr \<Rightarrow> prep_task) \<Rightarrow> ptr \<Rightarrow> prep_task" where
  "assign agg g tasks x = (if x \<in> set g then update_task agg (tasks x) else tasks x)"

definition kind_of :: "prep_task \<Rightarrow> nat" where
  "kind_of t = task_kind (coll_task.truncate t)"

definition keeps_links :: "ptr set \<Rightarrow> prep_st \<Rightarrow> prep_st \<Rightarrow> bool" where
  "keeps_links X s s' \<longleftrightarrow> (\<forall>x. x \<notin> X \<longrightarrow> ps_links s' x = ps_links s x)"

lemma queue_task_ok:
  fixes agg :: prep_task
  assumes ok: "queues_ok s Q" and x: "x \<notin> queued Q" "x \<noteq> null"
  defines "k \<equiv> kind_of agg"
  shows "queues_ok (queue_task agg x s) (Q(k := Q k @ [x]))"
    and "keeps_links (insert x (queued Q)) s (queue_task agg x s)"
    and "ps_tasks (queue_task agg x s) = assign agg [x] (ps_tasks s)"
proof -
  let ?s = "queue_task agg x s"
  have hk: "holds (ps_bins s k', ps_links s) (Q k')" for k' using ok by (simp add: queues_ok_def)
  obtain q nx where e: "intru_enqueue x (ps_bins s k, ps_links s) = (q, nx)" by fastforce
  have s': "ps_links ?s = nx" "ps_bins ?s = (ps_bins s)(k := q)"
    using e by (simp_all add: queue_task_def Let_def k_def kind_of_def)
  have xk: "x \<notin> set (Q k')" for k' using x(1) by (auto simp: queued_def)
  have links: "nx y = ps_links s y" if "y \<noteq> x" "y \<notin> set (Q k)" for y
    using enqueue_links [OF hk that] e by simp
  then show "keeps_links (insert x (queued Q)) s ?s" by (auto simp: keeps_links_def s' queued_def)
  have "holds (q, nx) (Q k @ [x])" using enqueue_holds [OF hk [of k] xk x(2)] unfolding e .
  moreover have "holds (ps_bins s k', nx) (Q k')" if "k' \<noteq> k" for k'
  proof -
    have "set (Q k') \<inter> set (Q k) = {}" using ok that by (simp add: queues_ok_def)
    then have "nx y = ps_links s y" if "y \<in> set (Q k')" for y using links [of y] xk [of k'] that by auto
    then show ?thesis using hk holds_frame by blast
  qed
  ultimately show "queues_ok ?s (Q(k := Q k @ [x]))"
    using ok xk unfolding queues_ok_def s' by simp
  show "ps_tasks ?s = assign agg [x] (ps_tasks s)"
    by (auto simp: queue_task_def assign_def Let_def split: prod.split)
qed

lemma update_tasks_ok:
  fixes agg :: prep_task
  assumes "queues_ok s Q" and "path (ps_links s) beg (g @ rest) null" and "g \<noteq> []" and "set (g @ rest) \<inter> queued Q = {}"
  defines "k \<equiv> kind_of agg"
  shows "\<exists>s'. update_tasks agg (first_of rest) beg s = Some s' \<and> queues_ok s' (Q(k := Q k @ g)) \<and>
    keeps_links (set g \<union> queued Q) s s' \<and> ps_tasks s' = assign agg g (ps_tasks s)"
  using assms(1-4)
proof (induction g arbitrary: s beg Q)
  case (Cons x g)
  have beg: "beg = x" "x \<noteq> null" "path (ps_links s) (ps_links s x) (g @ rest) null" using Cons.prems(2) by simp_all
  have dist: "distinct (x # g @ rest)" using path_distinct [OF Cons.prems(2)] by simp
  have "x \<notin> queued Q" using Cons.prems(4) by auto
  note step = queue_task_ok [OF Cons.prems(1) this beg(2), where agg = agg, folded k_def]
  let ?s = "queue_task agg x s" and ?Q = "Q(k := Q k @ [x])"
  have queued: "queued ?Q = insert x (queued Q)" by (auto simp: queued_def split: if_splits)
  have rest: "path (ps_links ?s) (ps_links s x) (g @ rest) null"
  proof -
    have "ps_links ?s y = ps_links s y" if "y \<in> set (g @ rest)" for y
      using step(2) that dist Cons.prems(4) by (auto simp: keeps_links_def)
    then show ?thesis using path_frame beg(3) by blast
  qed
  show ?case
  proof (cases "g = []")
    case True
    then have "ps_links s x = first_of rest" using beg(3) path_first by simp
    then have "update_tasks agg (first_of rest) beg s = Some ?s" using beg(1) by (subst update_tasks.simps) (simp add: Let_def)
    moreover have "queues_ok ?s (Q(k := Q k @ x # g))" unfolding True by (rule step(1))
    moreover have "set (x # g) \<union> queued Q = insert x (queued Q)" "[x] = x # g" using True by simp_all
    ultimately show ?thesis using step(2,3) by (metis (no_types))
  next
    case False
    then have "ps_links s x = hd g" using path_head [OF beg(3)] by simp
    moreover have "hd g \<noteq> first_of rest"
      using dist False hd_not_null [OF False] path_not_null [OF beg(3)] hd_in_set [OF False] by (cases rest) auto
    ultimately have more: "ps_links s x \<noteq> first_of rest" by simp
    have "set (g @ rest) \<inter> queued ?Q = {}" using dist Cons.prems(4) unfolding queued by auto
    with Cons.IH [OF step(1) rest False] obtain s' where s': "update_tasks agg (first_of rest) (ps_links s x) ?s = Some s'"
        "queues_ok s' (?Q(k := ?Q k @ g))" "keeps_links (set g \<union> queued ?Q) ?s s'" "ps_tasks s' = assign agg g (ps_tasks ?s)"
      by blast
    have "update_tasks agg (first_of rest) beg s = Some s'" using s'(1) more beg(1) by (subst update_tasks.simps) (simp add: Let_def)
    moreover have "keeps_links (set (x # g) \<union> queued Q) s s'" using s'(3) step(2) unfolding queued by (auto simp: keeps_links_def)
    moreover have "ps_tasks s' = assign agg (x # g) (ps_tasks s)" unfolding s'(4) step(3) using dist by (auto simp: assign_def)
    moreover have "queues_ok s' (Q(k := Q k @ x # g))" using s'(2) by (simp del: fun_upd_apply add: fun_upd_same)
    ultimately show ?thesis by blast
  qed
qed simp

section \<open>A whole bin\<close>

text \<open>The groups of a bin, each with what is chosen for it, and what the choices answer.\<close>

type_synonym plan = "(prep_task \<times> ptr list) list"

definition bin_plan :: "(prep_task \<Rightarrow> nccl_result \<times> prep_task) \<Rightarrow> (ptr \<Rightarrow> prep_task) \<Rightarrow> ptr list \<Rightarrow> plan" where
  "bin_plan pick tasks b = map (\<lambda>g. (snd (pick (group_aggregate tasks g)), g)) (groups_of tasks b)"

definition bin_answers :: "(prep_task \<Rightarrow> nccl_result \<times> prep_task) \<Rightarrow> (ptr \<Rightarrow> prep_task) \<Rightarrow> ptr list \<Rightarrow> nccl_result list" where
  "bin_answers pick tasks b = map (\<lambda>g. fst (pick (group_aggregate tasks g))) (groups_of tasks b)"

fun first_failure :: "nccl_result list \<Rightarrow> nccl_result" where
  "first_failure [] = ncclSuccess"
| "first_failure (r # rs) = (if r = ncclSuccess then first_failure rs else r)"

definition plan_list :: "nat \<Rightarrow> plan \<Rightarrow> ptr list" where
  "plan_list k plan = concat (map snd (filter (\<lambda>(agg, g). kind_of agg = k) plan))"

definition carry_out :: "plan \<Rightarrow> (ptr \<Rightarrow> prep_task) \<Rightarrow> ptr \<Rightarrow> prep_task" where
  "carry_out plan tasks = fold (\<lambda>(agg, g). assign agg g) plan tasks"

definition planned :: "plan \<Rightarrow> ptr list" where
  "planned plan = concat (map snd plan)"

lemma plan_list_simps [simp]:
  "plan_list k [] = []"
  "plan_list k ((agg, g) # plan) = (if kind_of agg = k then g @ plan_list k plan else plan_list k plan)"
  "plan_list k (plan @ plan') = plan_list k plan @ plan_list k plan'"
  by (simp_all add: plan_list_def)

lemma carry_out_simps [simp]:
  "carry_out [] tasks = tasks"
  "carry_out ((agg, g) # plan) tasks = carry_out plan (assign agg g tasks)"
  "carry_out (plan @ plan') tasks = carry_out plan' (carry_out plan tasks)"
  by (simp_all add: carry_out_def)

lemma planned_simps [simp]:
  "planned [] = []"
  "planned ((agg, g) # plan) = g @ planned plan"
  "planned (plan @ plan') = planned plan @ planned plan'"
  by (simp_all add: planned_def)

lemma first_failure_append [simp]:
  "first_failure (rs @ rs') = (if first_failure rs = ncclSuccess then first_failure rs' else first_failure rs)"
  by (induction rs) auto

lemma planned_bin: "planned (bin_plan pick tasks b) = b"
  by (simp add: planned_def bin_plan_def comp_def concat_groups)

lemma plan_list_subset: "set (plan_list k plan) \<subseteq> set (planned plan)"
  by (auto simp: plan_list_def planned_def)

lemma carry_out_frame: "x \<notin> set (planned plan) \<Longrightarrow> carry_out plan tasks x = tasks x"
  by (induction plan arbitrary: tasks) (auto simp: assign_def)

lemma groups_cong: "(\<And>x. x \<in> set xs \<Longrightarrow> tasks' x = tasks x) \<Longrightarrow> groups_of tasks' xs = groups_of tasks xs"
proof (induction tasks xs rule: groups_of.induct)
  case (2 tasks x xs)
  let ?p = "\<lambda>y. ct_trafficBytes (tasks y) < 4 * ct_trafficBytes (tasks x)"
  have "takeWhile (\<lambda>y. ct_trafficBytes (tasks' y) < 4 * ct_trafficBytes (tasks' x)) xs = takeWhile ?p xs"
    using "2.prems" by (intro takeWhile_cong) auto
  moreover have "dropWhile (\<lambda>y. ct_trafficBytes (tasks' y) < 4 * ct_trafficBytes (tasks' x)) xs = dropWhile ?p xs"
    using "2.prems" by (intro dropWhile_cong) auto
  moreover have "groups_of tasks' (dropWhile ?p xs) = groups_of tasks (dropWhile ?p xs)"
    using "2.prems" by (intro "2.IH") (auto dest: set_dropWhileD)
  ultimately show ?case by (simp add: Let_def)
qed simp

lemma aggregate_cong:
  assumes "\<And>x. x \<in> set g \<Longrightarrow> tasks' x = tasks x" and "g \<noteq> []"
  shows "group_aggregate tasks' g = group_aggregate tasks g"
proof -
  obtain x ys where g: "g = x # ys" using assms(2) by (cases g) auto
  have "fold (\<lambda>y agg. add_to_aggregate agg (tasks' y)) ys a = fold (\<lambda>y agg. add_to_aggregate agg (tasks y)) ys a" for a
    using assms(1) g by (intro fold_cong) auto
  then show ?thesis using assms(1) g by (simp add: group_aggregate_def)
qed

lemma bin_cong:
  assumes "\<And>x. x \<in> set b \<Longrightarrow> tasks' x = tasks x"
  shows "bin_plan pick tasks' b = bin_plan pick tasks b" and "bin_answers pick tasks' b = bin_answers pick tasks b"
proof -
  have groups: "groups_of tasks' b = groups_of tasks b" using assms by (rule groups_cong)
  have "group_aggregate tasks' g = group_aggregate tasks g" if "g \<in> set (groups_of tasks b)" for g
  proof (rule aggregate_cong)
    show "g \<noteq> []" using that by (rule groups_not_empty)
    have "set g \<subseteq> set (concat (groups_of tasks b))" using that by auto
    then show "tasks' x = tasks x" if "x \<in> set g" for x using assms that unfolding concat_groups by blast
  qed
  then show "bin_plan pick tasks' b = bin_plan pick tasks b" "bin_answers pick tasks' b = bin_answers pick tasks b"
    by (simp_all add: bin_plan_def bin_answers_def groups)
qed

text \<open>The plan has been carried out: the queues have grown by its groups, and the tasks are updated.\<close>

definition done_plan :: "plan \<Rightarrow> (nat \<Rightarrow> ptr list) \<Rightarrow> prep_st \<Rightarrow> prep_st \<Rightarrow> bool" where
  "done_plan plan Q s s' \<longleftrightarrow> queues_ok s' (\<lambda>k. Q k @ plan_list k plan) \<and> keeps_links (set (planned plan) \<union> queued Q) s s' \<and>
     ps_tasks s' = carry_out plan (ps_tasks s)"

lemma done_plan_append:
  assumes "done_plan p Q s s1" and "done_plan p' (\<lambda>k. Q k @ plan_list k p) s1 s2"
  shows "done_plan (p @ p') Q s s2"
proof -
  have "queued (\<lambda>k. Q k @ plan_list k p) \<subseteq> queued Q \<union> set (planned p)" using plan_list_subset by (auto simp: queued_def)
  then show ?thesis using assms unfolding done_plan_def keeps_links_def by auto
qed

lemma queued_plan: "set b \<inter> queued Q = {} \<Longrightarrow> set b \<inter> set (planned p) = {} \<Longrightarrow> set b \<inter> queued (\<lambda>k. Q k @ plan_list k p) = {}"
  using plan_list_subset [of _ p] unfolding queued_def by fastforce

lemma prepare_bin_ok:
  fixes env collNet nvls n
  assumes "queues_ok s Q" and "path (ps_links s) beg b null" and "b \<noteq> []" and "set b \<inter> queued Q = {}"
  defines "pick \<equiv> choose_algorithm env collNet nvls n"
  shows "\<exists>s'. prepare_bin env collNet nvls n beg s = Some (first_failure (bin_answers pick (ps_tasks s) b), s') \<and>
    (first_failure (bin_answers pick (ps_tasks s) b) = ncclSuccess \<longrightarrow> done_plan (bin_plan pick (ps_tasks s) b) Q s s')"
  using assms(1-4)
proof (induction "length b" arbitrary: b s Q beg rule: less_induct)
  case less
  obtain x xs where b: "b = x # xs" using less.prems(3) by (cases b) auto
  let ?t = "ps_tasks s"
  let ?p = "\<lambda>y. ct_trafficBytes (?t y) < 4 * ct_trafficBytes (?t x)"
  define g where "g = x # takeWhile ?p xs"
  define rest where "rest = dropWhile ?p xs"
  have g: "g \<noteq> []" and all: "g @ rest = b" by (simp_all add: g_def rest_def b)
  have beg: "beg = x" "path (ps_links s) (ps_links s x) xs null" using less.prems(2) b by simp_all
  have agg: "aggregate (ps_links s) ?t (ct_trafficBytes (?t x)) (ps_links s x) (?t x) = Some (first_of rest, group_aggregate ?t g)"
    using aggregate_ok [OF beg(2)] by (simp add: group_aggregate_def g_def rest_def)
  obtain r a where pick: "pick (group_aggregate ?t g) = (r, a)" by fastforce
  have groups: "groups_of ?t b = g # groups_of ?t rest" by (simp add: b Let_def g_def rest_def)
  have answers: "bin_answers pick ?t b = r # bin_answers pick ?t rest" and plan: "bin_plan pick ?t b = (a, g) # bin_plan pick ?t rest"
    by (simp_all add: bin_answers_def bin_plan_def groups pick)
  show ?case
  proof (cases "r = ncclSuccess")
    case False
    then have "prepare_bin env collNet nvls n beg s = Some (r, s)"
      using agg beg(1) pick [unfolded pick_def] by (subst prepare_bin.simps) simp
    then show ?thesis using False answers by simp
  next
    case True
    obtain s1 where s1: "update_tasks a (first_of rest) beg s = Some s1" "queues_ok s1 (Q(kind_of a := Q (kind_of a) @ g))"
        "keeps_links (set g \<union> queued Q) s s1" "ps_tasks s1 = assign a g ?t"
      using update_tasks_ok [of s Q beg g rest a] less.prems g unfolding all by blast
    have Q1: "Q(kind_of a := Q (kind_of a) @ g) = (\<lambda>k. Q k @ plan_list k [(a, g)])" by auto
    have did: "done_plan [(a, g)] Q s s1" using s1 unfolding done_plan_def Q1 by simp
    have dist: "distinct (g @ rest)" using path_distinct [OF less.prems(2)] all by (simp only:)
    have disj: "set g \<inter> set rest = {}" using dist unfolding distinct_append by blast
    have same: "ps_tasks s1 y = ?t y" if "y \<in> set rest" for y
    proof -
      have "y \<notin> set g" using that disj by blast
      then show ?thesis by (simp only: s1(4) assign_def if_False)
    qed
    have run: "prepare_bin env collNet nvls n beg s =
        (if first_of rest \<noteq> null then prepare_bin env collNet nvls n (first_of rest) s1 else Some (ncclSuccess, s1))"
      using agg beg(1) pick [unfolded pick_def] s1(1) True by (subst prepare_bin.simps) simp
    show ?thesis
    proof (cases "rest = []")
      case True
      then have "bin_answers pick ?t rest = []" "bin_plan pick ?t rest = []" by (simp_all add: bin_answers_def bin_plan_def)
      then show ?thesis using run True did \<open>r = ncclSuccess\<close> unfolding answers plan by simp
    next
      case False
      have "path (ps_links s) (hd rest) rest null"
      proof -
        have "path (ps_links s) beg (g @ rest) null" using less.prems(2) unfolding all .
        then obtain q where "path (ps_links s) q rest null" unfolding path_append by blast
        then show ?thesis using False path_head by metis
      qed
      moreover have "ps_links s1 y = ps_links s y" if "y \<in> set rest" for y
      proof -
        have "y \<in> set b" using that unfolding all [symmetric] by simp
        then have "y \<notin> set g \<union> queued Q" using that disj less.prems(4) by blast
        then show ?thesis using s1(3) unfolding keeps_links_def by blast
      qed
      ultimately have path: "path (ps_links s1) (hd rest) rest null" using path_frame by blast
      have free: "set rest \<inter> queued (\<lambda>k. Q k @ plan_list k [(a, g)]) = {}"
        using less.prems(4) disj unfolding all [symmetric] by (intro queued_plan) auto
      have "length rest < length b" using g unfolding all [symmetric] by simp
      from less.hyps [OF this _ path False free] s1(2) Q1 obtain s' where
        s': "prepare_bin env collNet nvls n (hd rest) s1 = Some (first_failure (bin_answers pick (ps_tasks s1) rest), s')"
          "first_failure (bin_answers pick (ps_tasks s1) rest) = ncclSuccess \<longrightarrow>
            done_plan (bin_plan pick (ps_tasks s1) rest) (\<lambda>k. Q k @ plan_list k [(a, g)]) s1 s'"
        by auto
      have first: "first_of rest = hd rest" "hd rest \<noteq> null"
        using False path_not_null [OF path] hd_not_null [OF False] by (auto simp: first_of_def)
      have cong: "bin_plan pick (ps_tasks s1) rest = bin_plan pick ?t rest" "bin_answers pick (ps_tasks s1) rest = bin_answers pick ?t rest"
        using same by (intro bin_cong; blast)+
      have "done_plan ([(a, g)] @ bin_plan pick ?t rest) Q s s'" if "first_failure (bin_answers pick ?t rest) = ncclSuccess"
        using done_plan_append [OF did] s'(2) that unfolding cong by blast
      then show ?thesis using run first s'(1) \<open>r = ncclSuccess\<close> unfolding answers plan cong by auto
    qed
  qed
qed

section \<open>All bins\<close>

definition bin_pick :: "algo_env \<Rightarrow> nat \<Rightarrow> (ptr \<Rightarrow> prep_task) \<Rightarrow> ptr list \<Rightarrow> prep_task \<Rightarrow> nccl_result \<times> prep_task" where
  "bin_pick env n tasks b = choose_algorithm env (snd (ae_collNetSupport env (tasks (hd b)))) (ae_nvlsSupport env (tasks (hd b))) n"

definition bins_plan :: "algo_env \<Rightarrow> nat \<Rightarrow> (ptr \<Rightarrow> prep_task) \<Rightarrow> ptr list list \<Rightarrow> plan" where
  "bins_plan env n tasks bs = concat (map (\<lambda>b. bin_plan (bin_pick env n tasks b) tasks b) bs)"

definition bins_answers :: "algo_env \<Rightarrow> nat \<Rightarrow> (ptr \<Rightarrow> prep_task) \<Rightarrow> ptr list list \<Rightarrow> nccl_result list" where
  "bins_answers env n tasks bs =
     concat (map (\<lambda>b. fst (ae_collNetSupport env (tasks (hd b))) # bin_answers (bin_pick env n tasks b) tasks b) bs)"

lemma bins_simps [simp]:
  "bins_plan env n tasks [] = []"
  "bins_plan env n tasks (b # bs) = bin_plan (bin_pick env n tasks b) tasks b @ bins_plan env n tasks bs"
  "bins_answers env n tasks [] = []"
  "bins_answers env n tasks (b # bs) =
    fst (ae_collNetSupport env (tasks (hd b))) # bin_answers (bin_pick env n tasks b) tasks b @ bins_answers env n tasks bs"
  by (simp_all add: bins_plan_def bins_answers_def)

lemma planned_bins: "planned (bins_plan env n tasks bs) = concat bs"
  by (induction bs) (simp_all add: planned_bin)

lemma bins_cong:
  assumes "\<And>x. x \<in> set (concat bs) \<Longrightarrow> tasks' x = tasks x" and "[] \<notin> set bs"
  shows "bins_plan env n tasks' bs = bins_plan env n tasks bs \<and> bins_answers env n tasks' bs = bins_answers env n tasks bs"
  using assms
proof (induction bs)
  case (Cons b bs)
  have same: "tasks' x = tasks x" if "x \<in> set b" for x using Cons.prems(1) that by simp
  moreover have "hd b \<in> set b" using Cons.prems(2) by (intro hd_in_set) auto
  ultimately have hd: "tasks' (hd b) = tasks (hd b)" by blast
  then have "bin_pick env n tasks' b = bin_pick env n tasks b" by (simp add: bin_pick_def)
  then show ?case using Cons.IH Cons.prems hd bin_cong [OF same] by simp
qed simp

lemma prepare_bins_ok:
  assumes "queues_ok s Q" and "\<forall>i \<in> set is. path (ps_links s) (heads i) (B i) null \<and> B i \<noteq> []" and "distinct (concat (map B is))"
    and "set (concat (map B is)) \<inter> queued Q = {}"
  shows "\<exists>s'. prepare_bins env n heads is s = Some (first_failure (bins_answers env n (ps_tasks s) (map B is)), s') \<and>
    (first_failure (bins_answers env n (ps_tasks s) (map B is)) = ncclSuccess \<longrightarrow> done_plan (bins_plan env n (ps_tasks s) (map B is)) Q s s')"
  using assms
proof (induction "is" arbitrary: s Q)
  case Nil
  then show ?case by (simp add: done_plan_def keeps_links_def)
next
  case (Cons i "is")
  let ?t = "ps_tasks s"
  have i: "path (ps_links s) (heads i) (B i) null" "B i \<noteq> []" using Cons.prems(2) by simp_all
  then have hd: "heads i = hd (B i)" using path_head by metis
  obtain r collNet where sup: "ae_collNetSupport env (?t (hd (B i))) = (r, collNet)" by fastforce
  let ?pick = "bin_pick env n ?t (B i)"
  have pick: "?pick = choose_algorithm env collNet (ae_nvlsSupport env (?t (hd (B i)))) n" by (simp add: bin_pick_def sup)
  show ?case
  proof (cases "r = ncclSuccess")
    case False
    then show ?thesis using sup hd by simp
  next
    case True
    have "set (B i) \<inter> queued Q = {}" using Cons.prems(4) by auto
    from prepare_bin_ok [OF Cons.prems(1) i this, of env collNet "ae_nvlsSupport env (?t (hd (B i)))" n, folded pick]
    obtain s1 where s1: "prepare_bin env collNet (ae_nvlsSupport env (?t (hd (B i)))) n (heads i) s =
          Some (first_failure (bin_answers ?pick ?t (B i)), s1)"
        "first_failure (bin_answers ?pick ?t (B i)) = ncclSuccess \<Longrightarrow> done_plan (bin_plan ?pick ?t (B i)) Q s s1" by blast
    show ?thesis
    proof (cases "first_failure (bin_answers ?pick ?t (B i)) = ncclSuccess")
      case False
      then show ?thesis using s1(1) sup hd True by simp
    next
      case ok: True
      let ?Q = "\<lambda>k. Q k @ plan_list k (bin_plan ?pick ?t (B i))"
      have did: "done_plan (bin_plan ?pick ?t (B i)) Q s s1" using s1(2) ok .
      then have s1': "queues_ok s1 ?Q" "keeps_links (set (B i) \<union> queued Q) s s1" "ps_tasks s1 = carry_out (bin_plan ?pick ?t (B i)) ?t"
        by (simp_all add: done_plan_def planned_bin)
      have out: "y \<notin> set (B i) \<union> queued Q" if "y \<in> set (concat (map B is))" for y using that Cons.prems(3,4) by auto
      have same: "ps_tasks s1 y = ?t y" if "y \<in> set (concat (map B is))" for y
        unfolding s1'(3) using out [OF that] by (intro carry_out_frame) (simp add: planned_bin)
      have links: "ps_links s1 y = ps_links s y" if "y \<in> set (concat (map B is))" for y
        using s1'(2) out [OF that] unfolding keeps_links_def by blast
      have paths: "\<forall>j \<in> set is. path (ps_links s1) (heads j) (B j) null \<and> B j \<noteq> []"
      proof
        fix j assume j: "j \<in> set is"
        then have "path (ps_links s1) (heads j) (B j) null \<longleftrightarrow> path (ps_links s) (heads j) (B j) null"
          using links by (intro path_frame) auto
        then show "path (ps_links s1) (heads j) (B j) null \<and> B j \<noteq> []" using Cons.prems(2) j by simp
      qed
      have "set (concat (map B is)) \<inter> set (B i) = {}" using out by blast
      then have "set (concat (map B is)) \<inter> queued ?Q = {}"
        using Cons.prems(4) by (intro queued_plan) (auto simp: planned_bin)
      moreover have "distinct (concat (map B is))" using Cons.prems(3) by simp
      ultimately obtain s' where s': "prepare_bins env n heads is s1 = Some (first_failure (bins_answers env n (ps_tasks s1) (map B is)), s')"
          "first_failure (bins_answers env n (ps_tasks s1) (map B is)) = ncclSuccess \<longrightarrow>
            done_plan (bins_plan env n (ps_tasks s1) (map B is)) ?Q s1 s'"
        using Cons.IH [OF s1'(1) paths] by blast
      have "[] \<notin> set (map B is)" using Cons.prems(2) by auto
      then have cong: "bins_plan env n (ps_tasks s1) (map B is) = bins_plan env n ?t (map B is)"
          "bins_answers env n (ps_tasks s1) (map B is) = bins_answers env n ?t (map B is)"
        using same bins_cong by blast+
      have "done_plan (bin_plan ?pick ?t (B i) @ bins_plan env n ?t (map B is)) Q s s'"
        if "first_failure (bins_answers env n ?t (map B is)) = ncclSuccess"
        using done_plan_append [OF did] s'(2) that unfolding cong by blast
      then show ?thesis using s1(1) s'(1) sup hd True ok unfolding cong by simp
    qed
  qed
qed

section \<open>The final queue\<close>

lemma transfer_bins_ok:
  assumes "holds (queue, ps_links s) L" and "queues_ok s Q" and "set L \<inter> queued Q = {}" and "distinct ks"
  shows "\<exists>queue' s'. transfer_bins ks (queue, s) = (queue', s') \<and> holds (queue', ps_links s') (L @ concat (map Q ks)) \<and> ps_tasks s' = ps_tasks s"
  using assms
proof (induction ks arbitrary: queue s L Q)
  case (Cons k ks)
  have Lk: "set L \<inter> set (Q k') = {}" for k' using Cons.prems(3) by (auto simp: queued_def)
  have hk: "holds (ps_bins s k', ps_links s) (Q k')" for k' using Cons.prems(2) by (simp add: queues_ok_def)
  obtain q b nx where t: "intru_transfer queue (ps_bins s k) (ps_links s) = (q, b, nx)" "holds (q, nx) (L @ Q k)" "holds (b, nx) []"
    using transfer_holds [OF Cons.prems(1) hk Lk] by blast
  let ?s = "s\<lparr>ps_links := nx, ps_bins := (ps_bins s)(k := b)\<rparr>"
  have nx: "nx y = ps_links s y" if "y \<notin> set L" for y
    using t(1) Cons.prems(1) that by (auto simp: intru_transfer_def holds_def Let_def split: if_splits)
  have "holds (ps_bins s k', nx) (Q k')" for k'
  proof -
    have "nx y = ps_links s y" if "y \<in> set (Q k')" for y using nx [of y] Lk [of k'] that by blast
    then show ?thesis using hk holds_frame by blast
  qed
  then have "queues_ok ?s (Q(k := []))" using t(3) Cons.prems(2) by (auto simp: queues_ok_def)
  moreover have "set (L @ Q k) \<inter> queued (Q(k := [])) = {}"
    using Lk Cons.prems(2) by (fastforce simp: queued_def queues_ok_def split: if_splits)
  moreover have "holds (q, ps_links ?s) (L @ Q k)" "distinct ks" using t(2) Cons.prems(4) by simp_all
  ultimately obtain queue' s' where "transfer_bins ks (q, ?s) = (queue', s')"
      "holds (queue', ps_links s') ((L @ Q k) @ concat (map (Q(k := [])) ks))" "ps_tasks s' = ps_tasks ?s"
    using Cons.IH [of q ?s "L @ Q k" "Q(k := [])"] by blast
  moreover have "map (Q(k := [])) ks = map Q ks" using Cons.prems(4) by auto
  ultimately show ?case using t(1) by simp
qed simp

definition queue_order :: "plan \<Rightarrow> ptr list" where
  "queue_order plan = concat (map (\<lambda>k. plan_list k plan) [0, 1, 2, 3])"

definition task_bins :: "(ptr \<Rightarrow> prep_task) \<Rightarrow> ptr list \<Rightarrow> ptr list list" where
  "task_bins tasks xs =
     (let index = (\<lambda>x. coll_index (tasks x)) in map (\<lambda>i. bin_list index i xs) (firsts (map index xs)))"

definition size_sorted :: "(ptr \<Rightarrow> prep_task) \<Rightarrow> ptr list \<Rightarrow> ptr list" where
  "size_sorted tasks xs = fold (insort_key (\<lambda>x. size_bin (ct_trafficBytes (tasks x)))) xs []"

lemma dequeued_empty:
  assumes "sorter_ok f (me, nx) xs"
  shows "snd (sorter_dequeue_all me) = empty_sorter"
proof (cases "so_head me = null")
  case True
  then have "xs = []" using assms by (simp add: sorter_ok_def path_null)
  then show ?thesis using assms True by (auto simp: sorter_ok_def sorter_dequeue_all_def empty_sorter_def bin_entry_def map_replicate_const)
qed (simp add: sorter_dequeue_all_def)

lemma kind_of_less: "kind_of t < 4"
  by (simp add: kind_of_def task_kind_less)

lemma kind_of_update: "kind_of (update_task agg t) = kind_of agg"
  by (simp add: kind_of_def task_kind_def update_task_def coll_task.truncate_def)

lemma groups_close: "g \<in> set (groups_of tasks xs) \<Longrightarrow> x \<in> set g \<Longrightarrow>
  x = hd g \<or> ct_trafficBytes (tasks x) < 4 * ct_trafficBytes (tasks (hd g))"
  by (induction tasks xs rule: groups_of.induct) (auto simp: Let_def dest: set_takeWhileD)

lemma plan_groups:
  assumes "(agg, g) \<in> set (bins_plan env n tasks (task_bins tasks xs))" and "x \<in> set g"
  shows "coll_index (tasks x) = coll_index (tasks (hd g)) \<and> (x = hd g \<or> ct_trafficBytes (tasks x) < 4 * ct_trafficBytes (tasks (hd g)))"
proof -
  obtain i where g: "g \<in> set (groups_of tasks (bin_list (\<lambda>x. coll_index (tasks x)) i xs))"
    using assms(1) by (auto simp: bins_plan_def bin_plan_def task_bins_def Let_def)
  then have sub: "set g \<subseteq> set (bin_list (\<lambda>x. coll_index (tasks x)) i xs)"
    using concat_groups [of tasks "bin_list (\<lambda>x. coll_index (tasks x)) i xs"] by (metis UN_upper set_concat)
  have "coll_index (tasks y) = i" if "y \<in> set g" for y using sub that by (auto simp: bin_list_def)
  moreover have "hd g \<in> set g" using assms(2) by (intro hd_in_set) auto
  ultimately show ?thesis using groups_close [OF g assms(2)] assms(2) by simp
qed

lemma mset_queue_order: "mset (queue_order plan) = mset (planned plan)"
proof (induction plan)
  case (Cons p plan)
  obtain agg g where p: "p = (agg, g)" by fastforce
  have "kind_of agg \<in> {0, 1, 2, 3}" using kind_of_less [of agg] by auto
  then show ?case using Cons by (auto simp: queue_order_def p)
qed (simp add: queue_order_def)

lemma carried_out: "distinct (planned plan) \<Longrightarrow> (agg, g) \<in> set plan \<Longrightarrow> x \<in> set g \<Longrightarrow> carry_out plan tasks x = update_task agg (tasks x)"
proof (induction plan arbitrary: tasks)
  case (Cons p plan)
  obtain agg' g' where p: "p = (agg', g')" by fastforce
  show ?case
  proof (cases "(agg, g) \<in> set plan")
    case True
    then have "x \<in> set (planned plan)" using Cons.prems(3) by (force simp: planned_def)
    then have "x \<notin> set g'" using Cons.prems(1) p by auto
    then show ?thesis using Cons True p by (simp add: assign_def)
  next
    case False
    then have "x \<notin> set (planned plan)" "agg' = agg" "x \<in> set g'" using Cons.prems p by auto
    then show ?thesis using p carry_out_frame by (simp add: assign_def)
  qed
qed simp

lemma queue_sorted:
  assumes "distinct (planned plan)"
  shows "sorted (map (\<lambda>x. kind_of (carry_out plan tasks x)) (queue_order plan))"
proof -
  have kind: "kind_of (carry_out plan tasks x) = k" if "x \<in> set (plan_list k plan)" for x k
  proof -
    obtain agg g where "(agg, g) \<in> set plan" "kind_of agg = k" "x \<in> set g" using \<open>x \<in> set (plan_list k plan)\<close> by (auto simp: plan_list_def)
    then show ?thesis using carried_out [OF assms] kind_of_update by metis
  qed
  have "map (\<lambda>x. kind_of (carry_out plan tasks x)) (plan_list k plan) = replicate (length (plan_list k plan)) k" for k
    using kind [of _ k] by (simp add: map_replicate_const [symmetric])
  then show ?thesis by (auto simp: queue_order_def sorted_append)
qed

lemma task_bins_lists: "b \<in> set (task_bins tasks xs) \<Longrightarrow> b \<noteq> []"
  by (auto simp: task_bins_def Let_def bin_list_def filter_empty_conv)

lemma set_task_bins: "set (concat (task_bins tasks xs)) = set xs"
  by (auto simp: task_bins_def Let_def bin_list_def)

lemma distinct_task_bins:
  assumes "distinct xs"
  shows "distinct (concat (task_bins tasks xs))"
proof -
  let ?index = "\<lambda>x. coll_index (tasks x)"
  have "distinct (concat (map (\<lambda>i. bin_list ?index i xs) is))" if "distinct is" for "is"
    using that by (induction "is") (auto simp: bin_list_def assms)
  then show ?thesis using distinct_firsts by (simp add: task_bins_def Let_def)
qed

lemma prepare_tasks_ok:
  fixes env nTasksColl
  assumes "path nx (so_head me) xs null" and "snd (sorter_dequeue_all me) = empty_sorter"
  defines "n \<equiv> div_up_nat nTasksColl (ae_nChannels env)"
  shows "\<exists>queue s. prepare_tasks env nTasksColl tasks intru_construct (me, nx) =
      Some (first_failure (bins_answers env n tasks (task_bins tasks xs)), empty_sorter, queue, s) \<and>
    (first_failure (bins_answers env n tasks (task_bins tasks xs)) = ncclSuccess \<longrightarrow>
      holds (queue, ps_links s) (queue_order (bins_plan env n tasks (task_bins tasks xs))) \<and>
      ps_tasks s = carry_out (bins_plan env n tasks (task_bins tasks xs)) tasks)"
proof -
  let ?index = "\<lambda>x. coll_index (tasks x)"
  have "bins_ok ?index (\<lambda>_. null, [], nx) []" by (simp add: bins_ok_def bin_list_def firsts_def)
  from bin_tasks_ok [OF assms(1) this] obtain heads indices nx' where
    bin: "bin_tasks ?index (so_head me) (\<lambda>_. null, [], nx) = Some (heads, indices, nx')"
    and ok: "bins_ok ?index (heads, indices, nx') xs" by auto
  have paths: "path nx' (heads i) (bin_list ?index i xs) null" for i using ok by (simp add: bins_ok_def)
  have indices: "indices = firsts (map ?index xs)" using ok by (simp add: bins_ok_def)
  let ?s = "\<lparr>ps_links = nx', ps_tasks = tasks, ps_bins = (\<lambda>_. intru_construct)\<rparr>"
  have bs: "map (\<lambda>i. bin_list ?index i xs) indices = task_bins tasks xs" by (simp add: indices task_bins_def Let_def)
  have start: "queues_ok ?s (\<lambda>_. [])" by (simp add: queues_ok_def holds_construct)
  have "bin_list ?index i xs \<noteq> []" if "i \<in> set indices" for i
    using task_bins_lists [of "bin_list ?index i xs" tasks xs] that unfolding bs [symmetric] by auto
  then have lists: "\<forall>i \<in> set indices. path (ps_links ?s) (heads i) (bin_list ?index i xs) null \<and> bin_list ?index i xs \<noteq> []"
    using paths by simp
  have dist: "distinct (concat (map (\<lambda>i. bin_list ?index i xs) indices))"
    unfolding bs using path_distinct [OF assms(1)] by (rule distinct_task_bins)
  have "set (concat (map (\<lambda>i. bin_list ?index i xs) indices)) \<inter> queued (\<lambda>_. []) = {}" by (simp add: queued_def)
  from prepare_bins_ok [OF start lists dist this, of env n, unfolded bs, unfolded prep_st.simps] obtain s1 where s1:
    "prepare_bins env n heads indices ?s = Some (first_failure (bins_answers env n tasks (task_bins tasks xs)), s1)"
    "first_failure (bins_answers env n tasks (task_bins tasks xs)) = ncclSuccess \<Longrightarrow>
      done_plan (bins_plan env n tasks (task_bins tasks xs)) (\<lambda>_. []) ?s s1"
    by blast
  let ?plan = "bins_plan env n tasks (task_bins tasks xs)"
  have deq: "sorter_dequeue_all me = (so_head me, empty_sorter)" using assms(2) by (simp add: sorter_dequeue_all_def split: if_splits)
  show ?thesis
  proof (cases "first_failure (bins_answers env n tasks (task_bins tasks xs)) = ncclSuccess")
    case False
    then show ?thesis using bin s1(1) deq by (simp add: prepare_tasks_def n_def)
  next
    case True
    then have did: "queues_ok s1 (\<lambda>k. plan_list k ?plan)" "ps_tasks s1 = carry_out ?plan tasks" using s1(2) by (simp_all add: done_plan_def)
    have "\<exists>queue s. transfer_bins [0, 1, 2, 3] (intru_construct, s1) = (queue, s) \<and>
        holds (queue, ps_links s) ([] @ concat (map (\<lambda>k. plan_list k ?plan) [0, 1, 2, 3])) \<and> ps_tasks s = ps_tasks s1"
      by (rule transfer_bins_ok) (simp_all add: holds_construct did)
    then show ?thesis using bin s1(1) deq True did(2) by (auto simp: prepare_tasks_def n_def queue_order_def simp del: transfer_bins.simps)
  qed
qed

text \<open>C14. However the tasks of a group were inserted into the sorter, the preparation ends, empties the sorter and answers the
  first failure among the choices it asked for.  If none failed, the queue holds the tasks of the group, each exactly once, in the order
  of their kinds, so that the kinds the scheduler sees never alternate; and every task has been given what was chosen for its
  group, a group being tasks of one function, operation and type that are less than four times as large as the first.\<close>
theorem prepare_tasks_queue:
  fixes env nTasksColl and tasks :: "ptr \<Rightarrow> prep_task"
  assumes "distinct xs" and "null \<notin> set xs"
  defines "n \<equiv> div_up_nat nTasksColl (ae_nChannels env)" and "bs \<equiv> task_bins tasks (size_sorted tasks xs)"
  shows "\<exists>ss queue s. sorter_insert_all (map (\<lambda>x. (x, ct_trafficBytes (tasks x))) xs) (empty_sorter, next) = Some ss \<and>
    prepare_tasks env nTasksColl tasks intru_construct ss = Some (first_failure (bins_answers env n tasks bs), empty_sorter, queue, s) \<and>
    (first_failure (bins_answers env n tasks bs) = ncclSuccess \<longrightarrow>
      (\<exists>L. holds (queue, ps_links s) L \<and> mset L = mset xs \<and> sorted (map (\<lambda>x. kind_of (ps_tasks s x)) L)) \<and>
      (\<forall>(agg, g) \<in> set (bins_plan env n tasks bs). \<forall>x \<in> set g. ps_tasks s x = update_task agg (tasks x))) \<and>
    (\<forall>(agg, g) \<in> set (bins_plan env n tasks bs). \<forall>x \<in> set g. coll_index (tasks x) = coll_index (tasks (hd g)) \<and>
      (x = hd g \<or> ct_trafficBytes (tasks x) < 4 * ct_trafficBytes (tasks (hd g))))"
proof -
  let ?f = "\<lambda>x. size_bin (ct_trafficBytes (tasks x))" and ?ts = "map (\<lambda>x. (x, ct_trafficBytes (tasks x))) xs"
  have fst: "map fst ?ts = xs" by (simp add: comp_def)
  have "\<exists>s'. sorter_insert_all ?ts (empty_sorter, next) = Some s' \<and> sorter_ok ?f s' (fold (insort_key ?f) (map fst ?ts) [])"
    by (rule sorter_insert_all_ok [OF empty_sorter_ok]) (use assms(1,2) in \<open>auto simp: comp_def intro!: gr0I\<close>)
  then obtain me nx where ins: "sorter_insert_all ?ts (empty_sorter, next) = Some (me, nx)"
    and ok: "sorter_ok ?f (me, nx) (size_sorted tasks xs)" unfolding fst size_sorted_def by auto
  have path: "path nx (so_head me) (size_sorted tasks xs) null" using ok by (simp add: sorter_ok_def)
  have "mset (fold (insort_key ?f) us vs) = mset us + mset vs" for us vs by (induction us arbitrary: vs) simp_all
  then have sorted: "mset (size_sorted tasks xs) = mset xs" by (simp add: size_sorted_def)
  let ?plan = "bins_plan env n tasks bs"
  have dist: "distinct (planned ?plan)"
    unfolding planned_bins bs_def using path_distinct [OF path] by (rule distinct_task_bins)
  have "set (planned ?plan) = set xs"
    unfolding planned_bins bs_def set_task_bins using sorted by (metis set_mset_mset)
  then have "mset (queue_order ?plan) = mset xs"
    unfolding mset_queue_order using dist assms(1) by (simp add: set_eq_iff_mset_eq_distinct)
  moreover obtain queue s where run: "prepare_tasks env nTasksColl tasks intru_construct (me, nx) =
      Some (first_failure (bins_answers env n tasks bs), empty_sorter, queue, s)"
    "first_failure (bins_answers env n tasks bs) = ncclSuccess \<Longrightarrow>
      holds (queue, ps_links s) (queue_order ?plan) \<and> ps_tasks s = carry_out ?plan tasks"
    using prepare_tasks_ok [OF path dequeued_empty [OF ok], of env nTasksColl tasks] unfolding n_def bs_def by blast
  ultimately have queue: "holds (queue, ps_links s) (queue_order ?plan)" "mset (queue_order ?plan) = mset xs"
      "ps_tasks s = carry_out ?plan tasks" if "first_failure (bins_answers env n tasks bs) = ncclSuccess"
    using that by simp_all
  have updated: "\<forall>(agg, g) \<in> set ?plan. \<forall>x \<in> set g. carry_out ?plan tasks x = update_task agg (tasks x)"
    using carried_out [OF dist] by blast
  have "(\<exists>L. holds (queue, ps_links s) L \<and> mset L = mset xs \<and> sorted (map (\<lambda>x. kind_of (ps_tasks s x)) L)) \<and>
      (\<forall>(agg, g) \<in> set ?plan. \<forall>x \<in> set g. ps_tasks s x = update_task agg (tasks x))"
    if "first_failure (bins_answers env n tasks bs) = ncclSuccess"
    unfolding queue(3) [OF that] using queue(1,2) [OF that] queue_sorted [OF dist, of tasks] updated by blast
  moreover have "\<forall>(agg, g) \<in> set ?plan. \<forall>x \<in> set g. coll_index (tasks x) = coll_index (tasks (hd g)) \<and>
      (x = hd g \<or> ct_trafficBytes (tasks x) < 4 * ct_trafficBytes (tasks (hd g)))"
    unfolding bs_def using plan_groups by blast
  ultimately show ?thesis using ins run(1) by blast
qed

lemma no_failure: "(\<And>r. r \<in> set rs \<Longrightarrow> r = ncclSuccess) \<Longrightarrow> first_failure rs = ncclSuccess"
  by (induction rs) auto

text \<open>An environment in which the ring algorithm is always chosen, and three reductions of two sizes.\<close>

definition ring_env :: algo_env where
  "ring_env = \<lparr>ae_collNetSupport = (\<lambda>_. (ncclSuccess, False)), ae_nvlsSupport = (\<lambda>_. False),
     ae_algoInfo = (\<lambda>_ _ _ _. (ncclSuccess, \<lparr>ac_algorithm = 1, ac_protocol = ProtoSimple, ac_nMaxChannels = 4, ac_nWarps = 17\<rparr>)),
     ae_devFuncId = (\<lambda>_. 7), ae_nNodes = 2, ae_nChannels = 4\<rparr>"

definition three_reductions :: "ptr \<Rightarrow> prep_task" where
  "three_reductions x = \<lparr>ct_func = FuncAllReduce, ct_protocol = ProtoLL, ct_datatype = Float32, ct_count = (if x = 16 then 25000 else 1250),
     ct_trafficBytes = (if x = 16 then 100000 else 5000), ct_nMaxChannels = 0, ct_isCollnet = False, ct_isNvls = False,
     pt_op = 0, pt_algorithm = 0, pt_nWarps = 0, pt_devFuncId = 0\<rparr>"

lemma ring_env_succeeds: "first_failure (bins_answers ring_env n tasks bs) = ncclSuccess"
  by (rule no_failure) (auto simp: bins_answers_def bin_answers_def bin_pick_def choose_algorithm_def ring_env_def Let_def split: if_splits)

theorem prepare_tasks_queue_witness:
  "\<exists>ss queue s L. sorter_insert_all (map (\<lambda>x. (x, ct_trafficBytes (three_reductions x))) [8, 16, 24]) (empty_sorter, \<lambda>_. 0) = Some ss \<and>
    prepare_tasks ring_env 3 three_reductions intru_construct ss = Some (ncclSuccess, empty_sorter, queue, s) \<and>
    holds (queue, ps_links s) L \<and> mset L = {#8, 16, 24#}"
proof -
  have "distinct [8, 16, 24 :: ptr]" "null \<notin> set [8, 16, 24]" by simp_all
  from prepare_tasks_queue [OF this, of three_reductions "\<lambda>_. 0" ring_env 3] show ?thesis
    unfolding ring_env_succeeds by simp blast
qed

end
