(* ===== verification/Spec2Isabelle.thy ===== *)
theory Spec2Isabelle
  imports PlaneEpochs IcmpProbe Monitor NetContext CommSafety CommDefects BinaryTrees RankRings Space AddressMap RegCache BitCodes P2pSchedule P2pParts CollSplit RingChains RingProxy MpscQueue CollSorter IntruQueue PrepareTasks
begin

text \<open>
  A verification development for the NCCL tree in \<open>src/nccl-2.29.7-dpfr-plugin\<close>: the network plugin DPFR_IB, which
  spreads the traffic of a communicator over several network planes and survives the loss of a plane
  (\<open>plugins/net/dpfr_ib/src\<close>), and the parts of NCCL itself (\<open>src\<close>) whose logic can be stated without hardware: who
  exchanges what with whom, how work is cut into pieces, and the data structures that keep the accounts.  File names
  below are relative to these two directories.

  \<^bold>\<open>How the program is modelled.\<close>  An operation is a function from the state it may change to its result and the new
  state (\<open>Prelude\<close>): error codes are ordinary results, an access the C++ standard leaves undefined is the fault
  \<open>Undefined_behaviour\<close> (or \<^term>\<open>None\<close> in the pure components), and a loop that a peer or the clock can prolong
  runs on fuel.  Unsigned integers are words where wrap-around matters; pointers are numbers or positions in a store, so that
  a dangling one shows.  Code outside of the repository (sockets, clock, libibverbs) is the record
  \<open>environment\<close> of \<open>Environment\<close>, a parameter of every operation that calls it; CUDA, bootstrap and the
  transports are arguments in the same way.  Theorems without a hypothesis on them hold for every behaviour of network,
  adapters and clock.  \<open>SampleWorld\<close> scripts one such world for the concrete runs.

  \<^bold>\<open>The plugin.\<close>
  \<^item> \<open>PlaneState\<close>, \<open>PlaneEpochs\<close> (\<open>plane_state.cc\<close>): the table of planes that all threads share, one atomic function for
    each call under its mutex.  A broken generation never becomes healthy again, and two tables that see the
    same remote events in different orders agree.
  \<^item> \<open>ControlWire\<close> (\<open>control_wire.cc\<close>), \<open>PeerControl\<close> (\<open>peer_control.cc\<close>): the control messages, their byte images and the stream that
    carries them.  Messages come out as they went in, however the network cuts the stream.
  \<^item> \<open>Requests\<close> (\<open>request.cc\<close>, \<open>cq_error.cc\<close>): requests, the packing of work request identifiers, the classification of
    completion errors.
  \<^item> \<open>DpfrConfig\<close> (\<open>config.cc\<close>): the environment variables and the adapter list.
  \<^item> \<open>VerbsDevice\<close>, \<open>VerbsQp\<close>, \<open>MemRegion\<close> (\<open>verbs_device.cc\<close>, \<open>verbs_qp.cc\<close>, \<open>mr.cc\<close>): the resources of the adapters.
    \<open>Ledger\<close> accounts for every acquisition and release; nothing leaks on any path, and registration is all or nothing.
  \<^item> \<open>QpSlot\<close> (\<open>qp_slot.cc\<close>, \<open>qp_selector.cc\<close>): active, shadow and retired queue pairs of a plane and the choice of a plane.
  \<^item> \<open>CommState\<close>, \<open>CommControl\<close>, \<open>CommProgress\<close>, \<open>CommSetup\<close> (\<open>comm.cc\<close>, \<open>replay_engine.cc\<close>): the communicator, from the
    handshake over posting, polling and control messages to recovery and replay.  \<open>CommInvariant\<close> states what every
    operation keeps, \<open>CommReach\<close> that it holds in every state a communicator goes through, \<open>CommSafety\<close> what happens when
    a plane breaks, \<open>CommDefects\<close> when a late completion is undefined behaviour and how a receive that was turned
    away is posted after all (concrete runs on \<open>CommSamples\<close>).
  \<^item> \<open>NetContext\<close> (\<open>context.cc\<close>, \<open>plugin.cc\<close>): the process-wide context and the calls of the plugin API.
  \<^item> \<open>IcmpProbe\<close>, \<open>Monitor\<close> (\<open>icmp_probe.cc\<close>, \<open>monitor.cc\<close>): the probe packets and the threads that turn control lines,
    datagrams and probes into plane events.

  A plane event enters through \<open>Monitor\<close> or a peer's message, changes the table, reaches every communicator through
  \<open>NetContext\<close>, takes the plane's queue pairs out of service, and lets the requests in flight wait for the peer's answer
  and be replayed on another plane.

  \<^bold>\<open>NCCL.\<close>
  \<^item> \<open>Cluster\<close>, \<open>P2pSchedule\<close>, \<open>P2pParts\<close> (\<open>init.cc\<close>, \<open>include/device.h\<close>, \<open>include/channel.h\<close>): ranks and nodes, the
    schedule of point-to-point transfers and their parts.  What one rank sends to another in a round, the other
    expects in the same round.
  \<^item> \<open>BinaryTrees\<close>, \<open>RankRings\<close>, \<open>RingSetup\<close> (\<open>graph/trees.cc\<close>, \<open>graph/rings.cc\<close>, \<open>init.cc\<close>): the topologies over the ranks.
  \<^item> \<open>CollSorter\<close> (\<open>include/comm.h\<close>), \<open>IntruQueue\<close> (\<open>include/utils.h\<close>), \<open>PrepareTasks\<close> (\<open>enqueue.cc\<close>): the tasks of a group on their
    way from the sorter by size over the bins by function, operation and type to the queue of the scheduler.  All of these
    lists run through the one link field of a task (\<open>LinkedLists\<close>); none loses or repeats a task.
  \<^item> \<open>CollSplit\<close> (\<open>enqueue.cc\<close>): the distribution of the queued collectives over channels.
  \<^item> \<open>MpscQueue\<close> (\<open>include/utils.h\<close>): the intrusive queue with many producers and one consumer that may sleep, as steps of
    interleaved threads on shared memory.
  \<^item> \<open>DevicePrims\<close>, \<open>RingNetwork\<close>, \<open>RingPrograms\<close>, \<open>RingPieces\<close>, \<open>RingAllReduce\<close>, \<open>RingShards\<close>, \<open>RingChains\<close>
    (\<open>device/prims_ll.h\<close>, \<open>device/all_reduce.h\<close> and the files of the other collectives): the ring collectives of the device code.
    A rank is a list of primitives over its memory, a connection a queue of at most \<open>NCCL_STEPS\<close> messages, a step of the
    network a step of any rank that can move.  Proof outlines show that no interleaving gets stuck and that all end with
    the specified contents of the buffers, in place or out of place.
    A receiver waits for a message even when the piece is empty, as the Simple protocol does; LL does not wait then, which only
    removes waiting.
  \<^item> \<open>RingProxy\<close> (\<open>include/collectives.h\<close>): where the proxy finds the bytes of a step of these collectives.
  \<^item> \<open>FastDivision\<close>, \<open>Bitops\<close>, \<open>BitCodes\<close> (\<open>include/bitops.h\<close>): the integer routines.
  \<^item> \<open>Space\<close> (\<open>allocator.cc\<close>), \<open>AddressMap\<close> (\<open>misc/utils.cc\<close>), \<open>RegCache\<close> (\<open>register/register.cc\<close>): an offset allocator, an
    intrusive hash map and the registration cache, each with the abstract set or map it implements.

  \<^bold>\<open>Interfaces.\<close>  The locales are: \<open>step_order\<close> (what a reflexive and transitive relation needs to be kept by programs),
  \<open>accounting\<close> (an environment that keeps a ledger), \<open>frame_codec\<close> (frames in a stream), the epoch stores of \<open>PlaneEpochs\<close>,
  \<open>reciprocal\<close> (division by a precomputed reciprocal at a width), \<open>list_queue\<close> (what one who fills and drains a queue relies on),
  and those of the single components; each is interpreted on the model's own definitions.

  \<^bold>\<open>Bounds and fuel.\<close>  \<open>env_fuel\<close> is a field of the environment; no theorem fixes it.  Claims that a call returns
  (\<open>send_message_exact\<close>, \<open>wait_for_internal_probe_returns\<close>) state how much fuel suffices, and why it exists: the socket accepts
  bytes, or the clock advances; the second also bounds the time the wait takes by the time its calls take.  The sample world grants 1000 iterations, more than any of its runs takes.  The loops of the
  pure components are total, or return by a theorem (\<open>map_insert\<close>, \<open>build_rings\<close>); the ring collectives end after as many
  steps as there are primitives.  Products of sizes are bounded where the statement says so (\<open>sizes_ok\<close>: up to \<open>2 ^ 26\<close> ranks and chunks
  below \<open>2 ^ 31\<close> elements).

  \<^bold>\<open>Not modelled.\<close>  Logging, which has no effect on the state.  Topology detection, path search and tuning, which are
  heuristics over hardware tables.  The transports, bootstrap, proxy threads, RAS and CUDA streams, whose substance is
  input and output.  In the device code: flags, lines, threads and the abort flag of the LL protocol, the Simple and LL128
  protocols, network offload, and the tree, PAT and NVLS programs.  In \<open>enqueue.cc\<close>: the budget test, the choice of algorithm
  and protocol, symmetric kernels and the launch itself; sizes there are natural numbers, so that sums of \<open>size_t\<close> never
  wrap and bit fields never cut.  The queue with many producers is sequentially consistent.  Third-party headers, DOCA GPUNetIO and the example plugins.
\<close>

end
